(* ===== verification/Prelude.thy ===== *)
theory Prelude
  imports
    Main
    "HOL-Library.Word"
    "HOL-Library.AList"
    "HOL-Library.Product_Lexorder"
    "HOL-Library.Sublist"
begin

text \<open>
  Shared vocabulary of the development: the types that name Go's basic data, the named
  theorem collections that carry the component proofs, and the facts on lists and
  association lists that several components use.

  A Go \<open>time.Time\<close> is an instant counted in nanoseconds from the zero time, an \<open>int\<close>;
  a \<open>time.Duration\<close> is a number of nanoseconds. A Go \<open>map[K]V\<close> is an association list
  with distinct keys (so that its size is executable); a Go string is a list of bytes,
  which is what Isabelle's \<open>string\<close> is.
\<close>

section \<open>Basic data\<close>

type_synonym time = int
type_synonym duration = int
type_synonym byte = "8 word"
type_synonym bytes = "byte list"
type_synonym uuid = "128 word"

definition zero_time :: time where
  "zero_time = 0"

definition second :: duration where
  "second = 1000000000"

definition minute :: duration where
  "minute = 60 * second"

definition hour :: duration where
  "hour = 60 * minute"

named_theorems model_simps \<open>definitions that proofs unfold on sight\<close>
named_theorems frame_simps \<open>what an operation leaves alone\<close>
named_theorems invariants \<open>preservation of component invariants\<close>

section \<open>Go maps as association lists\<close>

definition keys :: "('k \<times> 'v) list \<Rightarrow> 'k list" where
  "keys m = List.map fst m"

lemma map_of_keys: "map_of m k = None \<longleftrightarrow> k \<notin> set (keys m)"
  by (auto simp: keys_def map_of_eq_None_iff)

lemma map_of_Some_keys: "map_of m k = Some v \<Longrightarrow> k \<in> set (keys m)"
  by (auto simp: keys_def dest: map_of_SomeD intro!: image_eqI)

lemma keys_in_map_of: "k \<in> set (keys m) \<Longrightarrow> \<exists>v. map_of m k = Some v"
  using map_of_keys [of m k] by auto

lemma length_keys [simp]: "length (keys m) = length m"
  by (simp add: keys_def)

lemma set_keys_update [simp]: "set (keys (AList.update k v m)) = insert k (set (keys m))"
  by (simp add: keys_def dom_update)

lemma distinct_keys_update [simp]: "distinct (keys m) \<Longrightarrow> distinct (keys (AList.update k v m))"
  unfolding keys_def by (rule AList.distinct_update)

lemma set_keys_delete [simp]: "set (keys (AList.delete k m)) = set (keys m) - {k}"
  by (auto simp: keys_def AList.delete_eq)

lemma distinct_keys_delete [simp]: "distinct (keys m) \<Longrightarrow> distinct (keys (AList.delete k m))"
  unfolding keys_def by (rule AList.distinct_delete)

lemma map_of_update [simp]: "map_of (AList.update k v m) = (map_of m)(k \<mapsto> v)"
  by (rule AList.update_conv')

lemma map_of_delete [simp]: "map_of (AList.delete k m) = (map_of m)(k := None)"
  by (rule AList.delete_conv')

lemma length_as_card: "distinct (keys m) \<Longrightarrow> length m = card (set (keys m))"
  using distinct_card [of "keys m"] by simp

lemma length_update:
  "distinct (keys m) \<Longrightarrow>
     length (AList.update k v m) = (if k \<in> set (keys m) then length m else Suc (length m))"
  using length_as_card [of m] length_as_card [of "AList.update k v m"]
  by (simp add: insert_absorb)

lemma length_delete:
  "distinct (keys m) \<Longrightarrow>
     length (AList.delete k m) = (if k \<in> set (keys m) then length m - 1 else length m)"
  using length_as_card [of m] length_as_card [of "AList.delete k m"]
  by simp

lemma length_delete_le: "length (AList.delete k m) \<le> length m"
  by (simp add: AList.delete_eq)

lemma length_delete_less: "map_of m k = Some v \<Longrightarrow> length (AList.delete k m) < length m"
proof -
  assume "map_of m k = Some v"
  then have "(k, v) \<in> set m" by (rule map_of_SomeD)
  then show ?thesis
    unfolding AList.delete_eq by (intro length_filter_less) auto
qed

section \<open>Lists kept in recency order\<close>

text \<open>
  \<open>container/list\<close> is used as a recency list: elements are pushed at the front and
  inspected from the back.
\<close>

definition list_back :: "'a list \<Rightarrow> 'a option" where
  "list_back xs = (if xs = [] then None else Some (last xs))"

definition move_to_front :: "'a \<Rightarrow> 'a list \<Rightarrow> 'a list" where
  "move_to_front x xs = (if x \<in> set xs then x # remove1 x xs else xs)"

lemma list_back_None [simp]: "list_back xs = None \<longleftrightarrow> xs = []"
  by (simp add: list_back_def)

lemma list_back_Some: "list_back xs = Some x \<longleftrightarrow> xs \<noteq> [] \<and> x = last xs"
  by (auto simp: list_back_def)

lemma list_back_in_set: "list_back xs = Some x \<Longrightarrow> x \<in> set xs"
  by (auto simp: list_back_Some)

lemma set_move_to_front [simp]: "set (move_to_front x xs) = set xs"
  by (induction xs) (auto simp: move_to_front_def)

lemma distinct_move_to_front [simp]: "distinct xs \<Longrightarrow> distinct (move_to_front x xs)"
  by (auto simp: move_to_front_def)

lemma remove1_last: "distinct xs \<Longrightarrow> xs \<noteq> [] \<Longrightarrow> remove1 (last xs) xs = butlast xs"
  by (induction xs) auto

lemma sorted_wrt_remove1: "sorted_wrt R xs \<Longrightarrow> sorted_wrt R (remove1 x xs)"
  by (induction xs) (auto dest: set_remove1_subset [THEN subsetD])

lemma sorted_wrt_filter': "sorted_wrt R xs \<Longrightarrow> sorted_wrt R (filter P xs)"
  by (rule sorted_wrt_filter)

lemma sorted_wrt_cong_on:
  assumes "sorted_wrt R xs" and "\<And>x y. x \<in> set xs \<Longrightarrow> y \<in> set xs \<Longrightarrow> R x y \<Longrightarrow> S x y"
  shows "sorted_wrt S xs"
  using assms by (induction xs) auto

text \<open>
  Dropping from the back while a condition holds that, in this order, holds on a suffix
  only, is filtering.
\<close>

lemma filter_last_monotone:
  assumes "sorted_wrt R xs" and "xs \<noteq> []" and "\<not> P (last xs)"
    and "\<And>x y. x \<in> set xs \<Longrightarrow> y \<in> set xs \<Longrightarrow> R x y \<Longrightarrow> P x \<Longrightarrow> P y"
  shows "filter (\<lambda>x. \<not> P x) xs = xs"
proof -
  have "\<not> P x" if "x \<in> set xs" for x
  proof
    assume "P x"
    show False
    proof (cases "x = last xs")
      case True
      with assms(3) \<open>P x\<close> show False by simp
    next
      case False
      from assms(2) have split: "xs = butlast xs @ [last xs]" by simp
      with that False have "x \<in> set (butlast xs)"
        by (metis Un_iff empty_iff insert_iff list.set(1) list.set(2) set_append)
      moreover from assms(1) split have "sorted_wrt R (butlast xs @ [last xs])" by metis
      ultimately have "R x (last xs)" by (simp add: sorted_wrt_append)
      with assms(2,3,4) that \<open>P x\<close> show False by (meson last_in_set)
    qed
  qed
  then show ?thesis by (simp add: filter_id_conv)
qed

lemma in_filterI: "x \<in> set xs \<Longrightarrow> P x \<Longrightarrow> x \<in> set (filter P xs)"
  by simp

lemma in_filterD1: "x \<in> set (filter P xs) \<Longrightarrow> x \<in> set xs"
  and in_filterD2: "x \<in> set (filter P xs) \<Longrightarrow> P x"
  by simp_all

section \<open>Sums as results\<close>

text \<open>A fallible Go call returns \<open>error + value\<close>: \<open>Inl\<close> is the non-nil error.\<close>

definition ok :: "'e + 'a \<Rightarrow> bool" where
  "ok r = (case r of Inl _ \<Rightarrow> False | Inr _ \<Rightarrow> True)"

lemma ok_simps [simp]: "ok (Inl e) = False" "ok (Inr a) = True"
  by (simp_all add: ok_def)

lemma ok_ex: "ok r \<longleftrightarrow> (\<exists>a. r = Inr a)"
  by (cases r) auto

end
