(* ===== verification/Rate_Limiter.thy ===== *)
theory Rate_Limiter
  imports Prelude
begin

text \<open>
  The keyed strike counter of \<open>ratelimit/attempt_limiter.go\<close>. An \<open>AttemptLimiter\<close> is a
  table of entries and two recency lists; the lists hold entries, here named by their keys
  (an entry is in the table under its own key for as long as it is in a list). Each method
  is a function from the limiter to the limiter and the method's results; the mutex makes
  each of them one atomic step. The expiry loops are recursive functions with a
  termination proof: every iteration deletes an entry.

  The theory proves the table invariant for every operation at non-decreasing times, that
  the back-of-the-list scans expire exactly the entries whose time is up, and that the
  limiter refines a per-key strike counter with no table, no lists and no capacity.
\<close>

section \<open>Data\<close>

record policy =
  threshold :: int
  lockout_window :: duration
  max_tracked_keys :: int

datatype outcome = Denied | Allowed | AllowedLastAttempt

definition permitted :: "outcome \<Rightarrow> bool" where
  "permitted o' = (o' \<noteq> Denied)"

record entry =
  epoch :: "64 word"
  attempts :: int
  locked :: bool
  locked_until :: time
  last_activity :: time

record limiter =
  policy :: policy
  entries :: "(string \<times> entry) list"
  next_epoch :: "64 word"
  latest :: time
  counting :: "string list"  \<comment> \<open>unlocked entries, most recently active first\<close>
  locks :: "string list"     \<comment> \<open>locked entries, most recently locked first\<close>

record reservation =
  res_key :: string
  res_epoch :: "64 word"
  res_engaged :: bool

definition zero_reservation :: reservation where
  "zero_reservation = \<lparr>res_key = [], res_epoch = 0, res_engaged = False\<rparr>"

definition policy_ok :: "policy \<Rightarrow> bool" where
  "policy_ok p \<longleftrightarrow> 1 \<le> threshold p \<and> 0 < lockout_window p \<and> 1 \<le> max_tracked_keys p"

text \<open>The constructor panics on a policy that could never limit; a panic is \<open>None\<close>.\<close>

definition new_attempt_limiter :: "policy \<Rightarrow> limiter option" where
  "new_attempt_limiter p =
     (if threshold p < 1 then None
      else if lockout_window p \<le> 0 then None
      else if max_tracked_keys p < 1 then None
      else Some \<lparr>policy = p, entries = [], next_epoch = 0, latest = zero_time,
                 counting = [], locks = []\<rparr>)"

section \<open>Operations\<close>

definition remove_locked :: "limiter \<Rightarrow> string \<Rightarrow> entry \<Rightarrow> limiter" where
  "remove_locked l k e =
     (if locked e then l\<lparr>locks := remove1 k (locks l)\<rparr>
      else l\<lparr>counting := remove1 k (counting l)\<rparr>)
       \<lparr>entries := AList.delete k (entries l)\<rparr>"

definition idle_for_a_window :: "limiter \<Rightarrow> entry \<Rightarrow> time \<Rightarrow> bool" where
  "idle_for_a_window l e now \<longleftrightarrow> \<not> last_activity e > now + (- lockout_window (policy l))"

lemma entries_remove_locked [simp]:
  "entries (remove_locked l k e) = AList.delete k (entries l)"
  by (simp add: remove_locked_def)

text \<open>
  The two loops of \<open>expireLocked\<close>. Each looks at the back of its list and stops at the
  first entry that is still live. A list element without a table entry does not occur
  (see \<open>wf\<close>); the loop would stop there.
\<close>

function expire_counting :: "limiter \<Rightarrow> time \<Rightarrow> limiter" where
  "expire_counting l now =
     (case list_back (counting l) of
        None \<Rightarrow> l
      | Some k \<Rightarrow> (case map_of (entries l) k of
            None \<Rightarrow> l
          | Some e \<Rightarrow> (if \<not> idle_for_a_window l e now then l
                      else expire_counting (remove_locked l k e) now)))"
  by pat_completeness auto
termination
  by (relation "measure (\<lambda>(l, now). length (entries l))") (auto intro: length_delete_less)

function expire_locks :: "limiter \<Rightarrow> time \<Rightarrow> limiter" where
  "expire_locks l now =
     (case list_back (locks l) of
        None \<Rightarrow> l
      | Some k \<Rightarrow> (case map_of (entries l) k of
            None \<Rightarrow> l
          | Some e \<Rightarrow> (if now < locked_until e then l
                      else expire_locks (remove_locked l k e) now)))"
  by pat_completeness auto
termination
  by (relation "measure (\<lambda>(l, now). length (entries l))") (auto intro: length_delete_less)

declare expire_counting.simps [simp del] expire_locks.simps [simp del]

definition expire_locked :: "limiter \<Rightarrow> time \<Rightarrow> limiter" where
  "expire_locked l now = expire_locks (expire_counting l now) now"

definition observe_locked :: "limiter \<Rightarrow> time \<Rightarrow> limiter" where
  "observe_locked l now =
     expire_locked (if now > latest l then l\<lparr>latest := now\<rparr> else l) now"

definition saturated_locked :: "limiter \<Rightarrow> bool" where
  "saturated_locked l \<longleftrightarrow>
     int (length (entries l)) \<ge> max_tracked_keys (policy l) \<and> length (counting l) = 0"

definition make_room_locked :: "limiter \<Rightarrow> bool \<times> limiter" where
  "make_room_locked l =
     (if int (length (entries l)) < max_tracked_keys (policy l) then (True, l)
      else case list_back (counting l) of
          None \<Rightarrow> (False, l)
        | Some k \<Rightarrow> (case map_of (entries l) k of
              None \<Rightarrow> (True, l)
            | Some e \<Rightarrow> (True, remove_locked l k e)))"

definition lock_locked :: "limiter \<Rightarrow> string \<Rightarrow> entry \<Rightarrow> time \<Rightarrow> limiter" where
  "lock_locked l k e now =
     l\<lparr>counting := remove1 k (counting l),
       entries := AList.update k
         (e\<lparr>locked := True, locked_until := now + lockout_window (policy l)\<rparr>) (entries l),
       locks := k # locks l\<rparr>"

definition unlock_locked :: "limiter \<Rightarrow> string \<Rightarrow> entry \<Rightarrow> limiter" where
  "unlock_locked l k e =
     l\<lparr>locks := remove1 k (locks l),
       entries := AList.update k
         (e\<lparr>locked := False, locked_until := zero_time, last_activity := latest l\<rparr>) (entries l),
       counting := k # counting l\<rparr>"

text \<open>The tail of \<open>Reserve\<close>: count the attempt on the entry \<open>e\<close> of \<open>k\<close>.\<close>

definition count_attempt ::
    "limiter \<Rightarrow> string \<Rightarrow> entry \<Rightarrow> time \<Rightarrow> limiter \<times> outcome \<times> reservation" where
  "count_attempt l k e now =
     (let e = e\<lparr>attempts := attempts e + 1, last_activity := now\<rparr>
      in if attempts e < threshold (policy l)
         then (l\<lparr>entries := AList.update k e (entries l),
                 counting := move_to_front k (counting l)\<rparr>,
               Allowed, \<lparr>res_key = k, res_epoch = epoch e, res_engaged = False\<rparr>)
         else (lock_locked l k e now,
               AllowedLastAttempt, \<lparr>res_key = k, res_epoch = epoch e, res_engaged = True\<rparr>))"

definition track :: "limiter \<Rightarrow> string \<Rightarrow> entry \<times> limiter" where
  "track l k =
     (let ep = next_epoch l + 1;
          e = \<lparr>epoch = ep, attempts = 0, locked = False,
               locked_until = zero_time, last_activity = zero_time\<rparr>
      in (e, l\<lparr>next_epoch := ep, counting := k # counting l,
               entries := AList.update k e (entries l)\<rparr>))"

definition reserve :: "limiter \<Rightarrow> string \<Rightarrow> time \<Rightarrow> limiter \<times> outcome \<times> reservation" where
  "reserve l k now =
     (let l = observe_locked l now
      in case map_of (entries l) k of
          None \<Rightarrow>
            (case make_room_locked l of
                (False, l) \<Rightarrow> (l, Denied, zero_reservation)
              | (True, l) \<Rightarrow> (case track l k of (e, l) \<Rightarrow> count_attempt l k e now))
        | Some e \<Rightarrow>
            (if locked e \<and> now < locked_until e then (l, Denied, zero_reservation)
             else count_attempt l k e now))"

definition attempt :: "limiter \<Rightarrow> string \<Rightarrow> time \<Rightarrow> limiter \<times> outcome" where
  "attempt l k now = (case reserve l k now of (l, outc, _) \<Rightarrow> (l, outc))"

definition locked_query :: "limiter \<Rightarrow> string \<Rightarrow> time \<Rightarrow> limiter \<times> bool" where
  "locked_query l k now =
     (let l = observe_locked l now
      in case map_of (entries l) k of
          None \<Rightarrow> (l, saturated_locked l)
        | Some e \<Rightarrow> (l, locked e \<and> now < locked_until e))"

definition cancel :: "limiter \<Rightarrow> reservation \<Rightarrow> limiter" where
  "cancel l r =
     (let l = expire_locked l (latest l)
      in case map_of (entries l) (res_key r) of
          None \<Rightarrow> l
        | Some e \<Rightarrow>
            if res_epoch r = 0 \<or> epoch e \<noteq> res_epoch r then l
            else let e = e\<lparr>attempts := attempts e - 1\<rparr>;
                     l = l\<lparr>entries := AList.update (res_key r) e (entries l)\<rparr>
                 in if locked e \<and> \<not> res_engaged r then l
                    else if attempts e = 0 then remove_locked l (res_key r) e
                    else if locked e then unlock_locked l (res_key r) e
                    else l)"

definition refund :: "limiter \<Rightarrow> string \<Rightarrow> limiter" where
  "refund l k =
     (case map_of (entries l) k of
        None \<Rightarrow> l
      | Some e \<Rightarrow>
          if locked e \<or> attempts e = 0 then l
          else let e = e\<lparr>attempts := attempts e - 1\<rparr>;
                   l = l\<lparr>entries := AList.update k e (entries l)\<rparr>
               in if attempts e = 0 then remove_locked l k e else l)"

definition reset :: "limiter \<Rightarrow> string \<Rightarrow> limiter" where
  "reset l k = (case map_of (entries l) k of None \<Rightarrow> l | Some e \<Rightarrow> remove_locked l k e)"

section \<open>The table invariant\<close>

definition act :: "limiter \<Rightarrow> string \<Rightarrow> time" where
  "act l k = (case map_of (entries l) k of None \<Rightarrow> zero_time | Some e \<Rightarrow> last_activity e)"

definition unt :: "limiter \<Rightarrow> string \<Rightarrow> time" where
  "unt l k = (case map_of (entries l) k of None \<Rightarrow> zero_time | Some e \<Rightarrow> locked_until e)"

text \<open>
  \<open>shape\<close>: the table and the two lists describe the same entries, and the table is within
  its cap. \<open>entry_ok\<close>: what the fields of an entry say. \<open>order_ok\<close>: both lists are in
  recency order, so what expires first is at the back.
\<close>

definition shape :: "limiter \<Rightarrow> bool" where
  "shape l \<longleftrightarrow>
     policy_ok (policy l) \<and>
     distinct (keys (entries l)) \<and> distinct (counting l) \<and> distinct (locks l) \<and>
     (\<forall>k. k \<in> set (counting l) \<longleftrightarrow> (\<exists>e. map_of (entries l) k = Some e \<and> \<not> locked e)) \<and>
     (\<forall>k. k \<in> set (locks l) \<longleftrightarrow> (\<exists>e. map_of (entries l) k = Some e \<and> locked e)) \<and>
     int (length (entries l)) \<le> max_tracked_keys (policy l)"

definition entry_ok :: "limiter \<Rightarrow> entry \<Rightarrow> bool" where
  "entry_ok l e \<longleftrightarrow>
     attempts e \<le> threshold (policy l) \<and> last_activity e \<le> latest l \<and>
     (if locked e then locked_until e = last_activity e + lockout_window (policy l)
      else attempts e < threshold (policy l))"

definition order_ok :: "limiter \<Rightarrow> string list \<Rightarrow> bool" where
  "order_ok l cs \<longleftrightarrow>
     sorted_wrt (\<lambda>a b. act l b \<le> act l a) cs \<and>
     sorted_wrt (\<lambda>a b. unt l b \<le> unt l a) (locks l)"

definition wf :: "limiter \<Rightarrow> bool" where
  "wf l \<longleftrightarrow> shape l \<and> (\<forall>k e. map_of (entries l) k = Some e \<longrightarrow> entry_ok l e) \<and>
            order_ok l (counting l)"

text \<open>The invariant while the key \<open>x\<close> is being counted: its own entry is not yet in order.\<close>

definition wf_except :: "string \<Rightarrow> limiter \<Rightarrow> bool" where
  "wf_except x l \<longleftrightarrow>
     shape l \<and> (\<forall>k e. k \<noteq> x \<longrightarrow> map_of (entries l) k = Some e \<longrightarrow> entry_ok l e) \<and>
     order_ok l (remove1 x (counting l))"

lemma wf_imp_wf_except: "wf l \<Longrightarrow> wf_except x l"
  by (auto simp: wf_def wf_except_def order_ok_def intro: sorted_wrt_remove1)

lemma new_attempt_limiter_wf: "new_attempt_limiter p = Some l \<Longrightarrow> wf l"
  by (auto simp: new_attempt_limiter_def wf_def shape_def order_ok_def policy_ok_def keys_def
      split: if_splits)

section \<open>Forgetting keys\<close>

text \<open>Every deletion of the limiter is an instance of forgetting the keys that satisfy \<open>K\<close>.\<close>

definition forget :: "(string \<Rightarrow> bool) \<Rightarrow> limiter \<Rightarrow> limiter" where
  "forget K l =
     l\<lparr>entries := filter (\<lambda>(k, e). \<not> K k) (entries l),
       counting := filter (\<lambda>k. \<not> K k) (counting l),
       locks := filter (\<lambda>k. \<not> K k) (locks l)\<rparr>"

lemma map_of_filter_keys [simp]:
  "map_of (filter (\<lambda>(k, e). \<not> K k) m) k = (if K k then None else map_of m k)"
  by (induction m) auto

lemma forget_fields [simp]:
  "policy (forget K l) = policy l" "latest (forget K l) = latest l"
  "next_epoch (forget K l) = next_epoch l"
  "map_of (entries (forget K l)) k = (if K k then None else map_of (entries l) k)"
  "counting (forget K l) = filter (\<lambda>k. \<not> K k) (counting l)"
  "locks (forget K l) = filter (\<lambda>k. \<not> K k) (locks l)"
  by (simp_all add: forget_def)

lemma forget_forget: "forget J (forget K l) = forget (\<lambda>k. K k \<or> J k) l"
  by (auto simp: forget_def case_prod_unfold intro: filter_cong)

lemma distinct_keys_filter: "distinct (keys m) \<Longrightarrow> distinct (keys (filter P m))"
  unfolding keys_def by (rule distinct_map_filter)

lemma shape_forget:
  assumes "shape l"
  shows "shape (forget K l)"
proof -
  have "length (entries (forget K l)) \<le> length (entries l)"
    by (simp add: forget_def)
  moreover have "distinct (keys (entries (forget K l)))"
    using assms by (simp add: forget_def shape_def distinct_keys_filter)
  ultimately show ?thesis
    using assms unfolding shape_def by auto
qed

lemma wf_forget:
  assumes "wf l"
  shows "wf (forget K l)"
proof -
  have *: "act (forget K l) k = act l k" "unt (forget K l) k = unt l k" if "\<not> K k" for k
    using that by (simp_all add: act_def unt_def)
  have "order_ok (forget K l) (counting (forget K l))"
    using assms unfolding wf_def order_ok_def
    by (auto intro!: sorted_wrt_cong_on [OF sorted_wrt_filter] simp: *)
  then show ?thesis
    using assms shape_forget [of l K] unfolding wf_def by (auto simp: entry_ok_def)
qed

lemma remove_locked_forget:
  assumes "shape l" and "map_of (entries l) k = Some e'" and "locked e' = locked e"
  shows "remove_locked l k e = forget (\<lambda>x. x = k) l"
proof -
  have del: "AList.delete k (entries l) = filter (\<lambda>(x, e). x \<noteq> k) (entries l)"
    by (auto simp: AList.delete_eq intro: filter_cong)
  have rm: "remove1 k xs = filter (\<lambda>x. x \<noteq> k) xs" if "distinct xs" for xs
    using that by (simp add: distinct_remove1_removeAll removeAll_filter_not_eq) 
      (auto intro: filter_cong)
  have other: "filter (\<lambda>x. x \<noteq> k) xs = xs" if "k \<notin> set xs" for xs
    using that by (auto simp: filter_id_conv)
  from assms have "k \<in> set (locks l) \<longleftrightarrow> locked e" "k \<in> set (counting l) \<longleftrightarrow> \<not> locked e"
    unfolding shape_def by auto
  then show ?thesis
    using assms(1) unfolding remove_locked_def forget_def shape_def
    by (simp add: del rm other)
qed

section \<open>Expiry\<close>

text \<open>What should be expired at \<open>now\<close>, read off the table alone.\<close>

definition expired :: "limiter \<Rightarrow> time \<Rightarrow> string \<Rightarrow> bool" where
  "expired l now k =
     (case map_of (entries l) k of
        None \<Rightarrow> False
      | Some e \<Rightarrow> if locked e then now \<ge> locked_until e else idle_for_a_window l e now)"

text \<open>What the two loops share: after the back of a list is removed the rest of the list is still to be
  done, and when the back is live nothing of the list is expired.\<close>

lemma forget_back:
  assumes "\<And>K. sel (forget K l) = filter (\<lambda>x. \<not> K x) (sel l)" and "k \<in> set (sel l)" and "expired l now k"
  defines "l1 \<equiv> forget (\<lambda>x. x = k) l"
  shows "forget (\<lambda>x. x \<in> set (sel l1) \<and> expired l1 now x) l1 = forget (\<lambda>x. x \<in> set (sel l) \<and> expired l now x) l"
proof -
  have "(\<lambda>x. x = k \<or> x \<in> set (sel l1) \<and> expired l1 now x) = (\<lambda>x. x \<in> set (sel l) \<and> expired l now x)"
    using assms(1-3)
    by (auto simp: l1_def expired_def idle_for_a_window_def fun_eq_iff split: option.splits)
  then show ?thesis by (simp add: l1_def forget_forget)
qed

lemma live_back:
  assumes "sorted_wrt (\<lambda>a b. f b \<le> (f a :: int)) xs" and "xs \<noteq> []" and "\<not> expired l now (last xs)"
    and "\<And>x y. x \<in> set xs \<Longrightarrow> y \<in> set xs \<Longrightarrow> f y \<le> f x \<Longrightarrow> expired l now x \<Longrightarrow> expired l now y"
  shows "forget (\<lambda>k. k \<in> set xs \<and> expired l now k) l = l"
proof -
  have "filter (\<lambda>x. \<not> expired l now x) xs = xs"
    by (rule filter_last_monotone [where R = "\<lambda>a b. f b \<le> f a", OF assms(1,2)]) (use assms(3,4) in auto)
  then have "(\<lambda>k. k \<in> set xs \<and> expired l now k) = (\<lambda>k. False)" by (auto simp: filter_id_conv fun_eq_iff)
  then show ?thesis by (simp add: forget_def case_prod_unfold)
qed

lemma counting_expiry_order:
  "wf l \<Longrightarrow> x \<in> set (counting l) \<Longrightarrow> y \<in> set (counting l) \<Longrightarrow> act l y \<le> act l x \<Longrightarrow> expired l now x \<Longrightarrow> expired l now y"
  unfolding wf_def shape_def by (force simp: expired_def act_def idle_for_a_window_def)

lemma locks_expiry_order:
  "wf l \<Longrightarrow> x \<in> set (locks l) \<Longrightarrow> y \<in> set (locks l) \<Longrightarrow> unt l y \<le> unt l x \<Longrightarrow> expired l now x \<Longrightarrow> expired l now y"
  unfolding wf_def shape_def by (force simp: expired_def unt_def)

lemma expire_counting_forget:
  "wf l \<Longrightarrow> expire_counting l now = forget (\<lambda>k. k \<in> set (counting l) \<and> expired l now k) l"
proof (induction l now rule: expire_counting.induct)
  case (1 l now)
  show ?case
  proof (cases "counting l = []")
    case True
    then show ?thesis by (simp add: expire_counting.simps forget_def case_prod_unfold list_back_def)
  next
    case False
    define k where "k = last (counting l)"
    from False have bk: "list_back (counting l) = Some k" by (simp add: list_back_def k_def)
    then have k: "k \<in> set (counting l)" by (rule list_back_in_set)
    with "1.prems" obtain e where e: "map_of (entries l) k = Some e" "\<not> locked e"
      unfolding wf_def shape_def by auto
    show ?thesis
    proof (cases "idle_for_a_window l e now")
      case True
      have rm: "remove_locked l k e = forget (\<lambda>x. x = k) l"
        using "1.prems" e by (intro remove_locked_forget) (auto simp: wf_def)
      have "expired l now k" using e True by (simp add: expired_def)
      from forget_back [of counting, OF _ k this]
      show ?thesis using "1.IH" [OF bk e(1)] "1.prems" True bk e
        by (simp add: expire_counting.simps [of l] rm wf_forget)
    next
      case notidle: False
      have "\<not> expired l now (last (counting l))" using e notidle by (simp add: expired_def flip: k_def)
      from live_back [of "act l", OF _ False this counting_expiry_order [OF "1.prems"]]
      show ?thesis using "1.prems" bk e notidle
        by (simp add: expire_counting.simps [of l] wf_def order_ok_def)
    qed
  qed
qed

lemma expire_locks_forget:
  "wf l \<Longrightarrow> expire_locks l now = forget (\<lambda>k. k \<in> set (locks l) \<and> expired l now k) l"
proof (induction l now rule: expire_locks.induct)
  case (1 l now)
  show ?case
  proof (cases "locks l = []")
    case True
    then show ?thesis by (simp add: expire_locks.simps forget_def case_prod_unfold list_back_def)
  next
    case False
    define k where "k = last (locks l)"
    from False have bk: "list_back (locks l) = Some k" by (simp add: list_back_def k_def)
    then have k: "k \<in> set (locks l)" by (rule list_back_in_set)
    with "1.prems" obtain e where e: "map_of (entries l) k = Some e" "locked e"
      unfolding wf_def shape_def by auto
    show ?thesis
    proof (cases "now < locked_until e")
      case notyet: False
      have rm: "remove_locked l k e = forget (\<lambda>x. x = k) l"
        using "1.prems" e by (intro remove_locked_forget) (auto simp: wf_def)
      have "expired l now k" using e notyet by (simp add: expired_def)
      from forget_back [of locks, OF _ k this]
      show ?thesis using "1.IH" [OF bk e(1)] "1.prems" notyet bk e
        by (simp add: expire_locks.simps [of l] rm wf_forget)
    next
      case live: True
      have "\<not> expired l now (last (locks l))" using e live by (simp add: expired_def flip: k_def)
      from live_back [of "unt l", OF _ False this locks_expiry_order [OF "1.prems"]]
      show ?thesis using "1.prems" bk e live
        by (simp add: expire_locks.simps [of l] wf_def order_ok_def)
    qed
  qed
qed

lemma expire_locked_forget:
  assumes "wf l"
  shows "expire_locked l now = forget (expired l now) l"
proof -
  let ?l = "forget (\<lambda>k. k \<in> set (counting l) \<and> expired l now k) l"
  have "wf ?l" using assms by (rule wf_forget)
  have exp: "expired ?l now k \<longleftrightarrow> expired l now k \<and> k \<notin> set (counting l)" for k
    by (auto simp: expired_def idle_for_a_window_def split: option.splits)
  have tracked: "k \<in> set (counting l) \<or> k \<in> set (locks l)" if "expired l now k" for k
    using that assms by (auto simp: expired_def wf_def shape_def split: option.splits)
  have "(\<lambda>k. (k \<in> set (counting l) \<and> expired l now k) \<or>
             (k \<in> set (locks ?l) \<and> expired ?l now k)) = expired l now"
    using tracked by (auto simp: fun_eq_iff exp)
  then show ?thesis
    using assms \<open>wf ?l\<close>
    by (simp add: expire_locked_def expire_counting_forget expire_locks_forget forget_forget
        del: forget_fields(5,6))
qed


section \<open>Every operation keeps the invariant\<close>

lemma wf_shape: "wf l \<Longrightarrow> shape l"
  by (simp add: wf_def)

lemma wf_entry: "wf l \<Longrightarrow> map_of (entries l) k = Some e \<Longrightarrow> entry_ok l e"
  by (simp add: wf_def)

lemma shape_counting:
  "shape l \<Longrightarrow> k \<in> set (counting l) \<longleftrightarrow> (\<exists>e. map_of (entries l) k = Some e \<and> \<not> locked e)"
  by (simp add: shape_def)

lemma shape_locks:
  "shape l \<Longrightarrow> k \<in> set (locks l) \<longleftrightarrow> (\<exists>e. map_of (entries l) k = Some e \<and> locked e)"
  by (simp add: shape_def)

lemma wf_forget' [invariants]: "wf l \<Longrightarrow> wf (expire_locked l now)"
  by (simp add: expire_locked_forget wf_forget)

lemma wf_remove_locked [invariants]:
  "wf l \<Longrightarrow> map_of (entries l) k = Some e' \<Longrightarrow> locked e' = locked e \<Longrightarrow> wf (remove_locked l k e)"
  by (simp add: remove_locked_forget wf_shape wf_forget)

lemma wf_latest:
  "wf l \<Longrightarrow> latest l \<le> now \<Longrightarrow> wf (l\<lparr>latest := now\<rparr>)"
  by (auto simp: wf_def shape_def entry_ok_def order_ok_def act_def unt_def split: if_splits;
      force)

lemma wf_observe_locked [invariants]:
  "wf l \<Longrightarrow> latest l \<le> now \<Longrightarrow> wf (observe_locked l now)"
  by (auto simp: observe_locked_def intro!: wf_forget' wf_latest)

lemma shape_put:
  assumes "shape l" and "k \<in> set (keys (entries l)) \<or> int (length (entries l)) < max_tracked_keys (policy l)"
    and "distinct cs" and "distinct ls"
    and "set cs = (if locked e then set (counting l) - {k} else insert k (set (counting l)))"
    and "set ls = (if locked e then insert k (set (locks l)) else set (locks l) - {k})"
  shows "shape (l\<lparr>entries := AList.update k e (entries l), counting := cs, locks := ls\<rparr>)"
  using assms unfolding shape_def by (auto simp: length_update)

lemma act_other: "a \<noteq> k \<Longrightarrow> act (l\<lparr>entries := AList.update k e (entries l), counting := cs, locks := ls\<rparr>) a = act l a"
  and unt_other: "a \<noteq> k \<Longrightarrow> unt (l\<lparr>entries := AList.update k e (entries l), counting := cs, locks := ls\<rparr>) a = unt l a"
  and act_self: "act (l\<lparr>entries := AList.update k e (entries l), counting := cs, locks := ls\<rparr>) k = last_activity e"
  and unt_self: "unt (l\<lparr>entries := AList.update k e (entries l), counting := cs, locks := ls\<rparr>) k = locked_until e"
  by (simp_all add: act_def unt_def)

text \<open>Writing the entry of \<open>k\<close>, stamped with the newest time, at the front of its list.\<close>

lemma wf_put:
  assumes l: "wf_except k l" and e: "entry_ok l e" "last_activity e = latest l"
    and room: "k \<in> set (keys (entries l)) \<or> int (length (entries l)) < max_tracked_keys (policy l)"
    and cs: "cs = (if locked e then remove1 k (counting l) else k # remove1 k (counting l))"
    and ls: "ls = (if locked e then k # remove1 k (locks l) else remove1 k (locks l))"
  shows "wf (l\<lparr>entries := AList.update k e (entries l), counting := cs, locks := ls\<rparr>)" (is "wf ?l")
proof -
  from l have sh: "shape l" and d: "distinct (counting l)" "distinct (locks l)"
    by (auto simp: wf_except_def shape_def)
  have "shape ?l"
    using sh room d by (intro shape_put) (auto simp: cs ls)
  moreover have "\<forall>x e'. map_of (entries ?l) x = Some e' \<longrightarrow> entry_ok ?l e'"
    using l e by (auto simp: wf_except_def entry_ok_def)
  moreover have "order_ok ?l cs"
  proof -
    define l' where "l' = ?l"
    have l': "locks l' = ls" "act l' k = latest l" "unt l' k = locked_until e"
      "\<And>a. a \<noteq> k \<Longrightarrow> act l' a = act l a" "\<And>a. a \<noteq> k \<Longrightarrow> unt l' a = unt l a"
      using e by (simp_all add: l'_def act_self unt_self act_other unt_other)
    have cnt: "act l a \<le> latest l" if "a \<in> set (remove1 k (counting l))" for a
      using l that d shape_counting [OF sh] unfolding wf_except_def entry_ok_def act_def
      by (auto split: option.splits)
    have lck: "unt l a \<le> latest l + lockout_window (policy l)" if "a \<in> set (remove1 k (locks l))" for a
      using l that d shape_locks [OF sh] unfolding wf_except_def entry_ok_def unt_def
      by (auto split: option.splits)
    from l have "sorted_wrt (\<lambda>a b. act l b \<le> act l a) (remove1 k (counting l))"
      by (simp add: wf_except_def order_ok_def)
    then have "sorted_wrt (\<lambda>a b. act l' b \<le> act l' a) (remove1 k (counting l))"
      by (rule sorted_wrt_cong_on) (use d in \<open>auto simp: l'\<close>)
    moreover from l have "sorted_wrt (\<lambda>a b. unt l b \<le> unt l a) (remove1 k (locks l))"
      by (simp add: wf_except_def order_ok_def sorted_wrt_remove1)
    then have "sorted_wrt (\<lambda>a b. unt l' b \<le> unt l' a) (remove1 k (locks l))"
      by (rule sorted_wrt_cong_on) (use d in \<open>auto simp: l'\<close>)
    ultimately have "order_ok l' cs"
      using cnt lck d e by (auto simp: order_ok_def l' cs ls entry_ok_def)
    then show ?thesis by (simp add: l'_def)
  qed
  ultimately show ?thesis by (simp add: wf_def)
qed

text \<open>Changing the count of an entry alone.\<close>

lemma wf_adjust:
  assumes l: "wf l" and e: "map_of (entries l) k = Some e" and le: "n \<le> attempts e"
  shows "wf (l\<lparr>entries := AList.update k (e\<lparr>attempts := n\<rparr>) (entries l)\<rparr>)" (is "wf ?l")
proof -
  have sh: "shape l" using l by (rule wf_shape)
  have "shape (l\<lparr>entries := AList.update k (e\<lparr>attempts := n\<rparr>) (entries l), counting := counting l, locks := locks l\<rparr>)"
    using sh e map_of_Some_keys [OF e] shape_counting [OF sh, of k] shape_locks [OF sh, of k]
    by (intro shape_put) (auto simp: shape_def)
  then have "shape ?l" by simp
  moreover have "act ?l = act l" "unt ?l = unt l"
    using e by (auto simp: act_def unt_def fun_eq_iff)
  ultimately show ?thesis
    using l e le wf_entry [OF l e]
    by (fastforce simp: wf_def entry_ok_def order_ok_def split: if_splits)
qed

lemma wf_count_attempt:
  assumes l: "wf_except k l" and e: "map_of (entries l) k = Some e" "\<not> locked e"
    and n: "attempts e < threshold (policy l)" and now: "now = latest l"
  shows "wf (fst (count_attempt l k e now))"
proof -
  let ?e = "e\<lparr>attempts := attempts e + 1, last_activity := now\<rparr>"
  from l have sh: "shape l" by (simp add: wf_except_def)
  from e have mem: "k \<in> set (counting l)" "k \<notin> set (locks l)"
    using shape_counting [OF sh] shape_locks [OF sh] by auto
  have k: "k \<in> set (keys (entries l))" using e(1) by (rule map_of_Some_keys)
  show ?thesis
  proof (cases "attempts e + 1 < threshold (policy l)")
    case True
    have "wf (l\<lparr>entries := AList.update k ?e (entries l),
        counting := k # remove1 k (counting l), locks := locks l\<rparr>)"
      using mem e(2) n now k True
      by (intro wf_put [OF l]) (auto simp: entry_ok_def remove1_idem)
    then show ?thesis
      using True mem by (simp add: count_attempt_def Let_def move_to_front_def)
  next
    case False
    let ?e' = "?e\<lparr>locked := True, locked_until := now + lockout_window (policy l)\<rparr>"
    have "wf (l\<lparr>entries := AList.update k ?e' (entries l),
        counting := remove1 k (counting l), locks := k # locks l\<rparr>)"
      using mem e(2) n now k False
      by (intro wf_put [OF l]) (auto simp: entry_ok_def remove1_idem)
    moreover have "lock_locked l k ?e now = l\<lparr>entries := AList.update k ?e' (entries l),
        counting := remove1 k (counting l), locks := k # locks l\<rparr>"
      by (simp add: lock_locked_def)
    ultimately show ?thesis
      using False by (simp add: count_attempt_def Let_def)
  qed
qed

lemma latest_observe_locked: "wf l \<Longrightarrow> latest l \<le> now \<Longrightarrow> latest (observe_locked l now) = now"
  using wf_latest [of l now] by (auto simp: observe_locked_def expire_locked_forget)

lemma policy_observe_locked: "wf l \<Longrightarrow> latest l \<le> now \<Longrightarrow> policy (observe_locked l now) = policy l"
  using wf_latest [of l now] by (auto simp: observe_locked_def expire_locked_forget)

text \<open>What a key's entry is once the table has been observed at \<open>now\<close>.\<close>

lemma observe_locked_lookup:
  "wf l \<Longrightarrow> latest l \<le> now \<Longrightarrow>
     map_of (entries (observe_locked l now)) k = (if expired l now k then None else map_of (entries l) k)"
  using wf_latest [of l now]
  by (auto simp: observe_locked_def expire_locked_forget expired_def idle_for_a_window_def
      split: option.splits if_splits)

lemma observed_live:
  assumes "wf l" and "latest l \<le> now" and "map_of (entries (observe_locked l now)) k = Some e"
  shows "locked e \<Longrightarrow> now < locked_until e" and "locked e \<or> now < last_activity e + lockout_window (policy l)"
    and "entry_ok l e" and "map_of (entries l) k = Some e"
proof -
  have e: "map_of (entries l) k = Some e" "\<not> expired l now k"
    using assms by (auto simp: observe_locked_lookup split: if_splits)
  show "entry_ok l e" using assms(1) e(1) by (rule wf_entry)
  show "map_of (entries l) k = Some e" by (rule e(1))
  show "locked e \<or> now < last_activity e + lockout_window (policy l)"
    using e by (auto simp: expired_def idle_for_a_window_def split: if_splits)
  show "locked e \<Longrightarrow> now < locked_until e"
    using e by (auto simp: expired_def)
qed

lemma saturated_no_unlocked:
  "shape l \<Longrightarrow> saturated_locked l \<Longrightarrow> map_of (entries l) k = Some e \<Longrightarrow> locked e"
  using shape_counting [of l k] by (auto simp: saturated_locked_def)

text \<open>\<open>makeRoomLocked\<close> fails exactly on a saturated table; otherwise it forgets at most one key,
  never a locked one, and leaves room.\<close>

lemma make_room_locked_result:
  assumes "wf l"
  shows "if saturated_locked l then make_room_locked l = (False, l)
         else \<exists>K. make_room_locked l = (True, forget K l) \<and>
              (\<forall>k e. K k \<longrightarrow> map_of (entries l) k = Some e \<longrightarrow> \<not> locked e) \<and>
              int (length (entries (forget K l))) < max_tracked_keys (policy l) \<and>
              (\<forall>j k. K j \<longrightarrow> K k \<longrightarrow> j = k) \<and>
              (int (length (entries l)) < max_tracked_keys (policy l) \<longrightarrow> K = (\<lambda>k. False))"
proof -
  have sh: "shape l" using assms by (rule wf_shape)
  have none: "forget (\<lambda>k. False) l = l" by (simp add: forget_def case_prod_unfold)
  show ?thesis
  proof (cases "int (length (entries l)) < max_tracked_keys (policy l)")
    case True
    then have "make_room_locked l = (True, forget (\<lambda>k. False) l) \<and>
        int (length (entries (forget (\<lambda>k. False) l))) < max_tracked_keys (policy l)"
      by (simp add: make_room_locked_def none)
    then show ?thesis using True by (auto simp: saturated_locked_def)
  next
    case full: False
    show ?thesis
    proof (cases "counting l = []")
      case True
      then show ?thesis using full
        by (simp add: make_room_locked_def saturated_locked_def list_back_def)
    next
      case False
      define k where "k = last (counting l)"
      then have "k \<in> set (counting l)" using False by simp
      then obtain e where e: "map_of (entries l) k = Some e" "\<not> locked e"
        using shape_counting [OF sh] by auto
      have rm: "remove_locked l k e = forget (\<lambda>x. x = k) l"
        using sh e by (intro remove_locked_forget) auto
      have "make_room_locked l = (True, remove_locked l k e)"
        using full False e by (simp add: make_room_locked_def list_back_def flip: k_def)
      moreover have "int (length (entries (remove_locked l k e))) < max_tracked_keys (policy l)"
        using sh length_delete_less [OF e(1)] by (auto simp: shape_def)
      ultimately show ?thesis
        using False full e by (auto simp: saturated_locked_def rm intro!: exI [of _ "\<lambda>x. x = k"])
    qed
  qed
qed

lemma shape_forget_absent:
  "wf l \<Longrightarrow> map_of (entries l) k = None \<Longrightarrow> k \<notin> set (counting l) \<and> k \<notin> set (locks l)"
  using shape_counting [of l k] shape_locks [of l k] by (auto simp: wf_shape)

lemma wf_except_track:
  assumes l: "wf l" and k: "map_of (entries l) k = None"
    and room: "int (length (entries l)) < max_tracked_keys (policy l)"
  shows "wf_except k (snd (track l k))" 
proof -
  have nk: "k \<notin> set (counting l)" "k \<notin> set (locks l)" using shape_forget_absent [OF l k] by auto
  let ?e = "fst (track l k)" and ?l = "snd (track l k)"
  have track: "?l = l\<lparr>entries := AList.update k ?e (entries l), counting := k # counting l,
      locks := locks l\<rparr>\<lparr>next_epoch := next_epoch l + 1\<rparr>" and unl: "\<not> locked ?e"
    by (simp_all add: track_def Let_def)
  have "shape (l\<lparr>entries := AList.update k ?e (entries l), counting := k # counting l, locks := locks l\<rparr>)"
    using l room nk unl by (intro shape_put) (auto simp: wf_def shape_def)
  then have sh: "shape ?l" unfolding track shape_def by simp
  define l' where "l' = ?l"
  have l': "counting l' = k # counting l" "locks l' = locks l"
      "\<And>a. a \<noteq> k \<Longrightarrow> act l' a = act l a" "\<And>a. a \<noteq> k \<Longrightarrow> unt l' a = unt l a"
    by (simp_all add: l'_def track act_def unt_def)
  have ord: "sorted_wrt (\<lambda>a b. act l b \<le> act l a) (counting l)"
      "sorted_wrt (\<lambda>a b. unt l b \<le> unt l a) (locks l)"
    using l by (simp_all add: wf_def order_ok_def)
  from ord(1) have "sorted_wrt (\<lambda>a b. act l' b \<le> act l' a) (counting l)"
    by (rule sorted_wrt_cong_on) (metis l'(3) nk(1))
  moreover from ord(2) have "sorted_wrt (\<lambda>a b. unt l' b \<le> unt l' a) (locks l)"
    by (rule sorted_wrt_cong_on) (metis l'(4) nk(2))
  ultimately have "order_ok l' (remove1 k (counting l'))" by (simp add: order_ok_def l')
  moreover have "\<forall>x e. x \<noteq> k \<longrightarrow> map_of (entries ?l) x = Some e \<longrightarrow> entry_ok ?l e"
    using l by (auto simp: track wf_def entry_ok_def)
  ultimately show ?thesis using sh by (simp add: wf_except_def l'_def)
qed

lemma track_fields [simp]:
  "map_of (entries (snd (track l k))) k = Some (fst (track l k))"
  "locked (fst (track l k)) = False" "attempts (fst (track l k)) = 0"
  "epoch (fst (track l k)) = next_epoch l + 1"
  "policy (snd (track l k)) = policy l" "latest (snd (track l k)) = latest l"
  "next_epoch (snd (track l k)) = next_epoch l + 1"
  "j \<noteq> k \<Longrightarrow> map_of (entries (snd (track l k))) j = map_of (entries l) j"
  by (simp_all add: track_def Let_def)

text \<open>The branches of \<open>Reserve\<close>, at a time that is not before the newest one seen.\<close>

lemma reserve_cases:
  assumes l: "wf l" and now: "latest l \<le> now"
  obtains (Locked) e where "map_of (entries l) k = Some e" "locked e" "now < locked_until e"
      "reserve l k now = (observe_locked l now, Denied, zero_reservation)"
  | (Full) "map_of (entries (observe_locked l now)) k = None" "saturated_locked (observe_locked l now)"
      "reserve l k now = (observe_locked l now, Denied, zero_reservation)"
  | (Counting) e where "map_of (entries (observe_locked l now)) k = Some e" "\<not> locked e"
      "reserve l k now = count_attempt (observe_locked l now) k e now"
  | (Fresh) K where "map_of (entries (observe_locked l now)) k = None"
      "\<not> saturated_locked (observe_locked l now)"
      "reserve l k now = count_attempt (snd (track (forget K (observe_locked l now)) k)) k
         (fst (track (forget K (observe_locked l now)) k)) now"
      "\<forall>k e. K k \<longrightarrow> map_of (entries (observe_locked l now)) k = Some e \<longrightarrow> \<not> locked e"
      "int (length (entries (forget K (observe_locked l now)))) < max_tracked_keys (policy l)"
      "\<forall>i j. K i \<longrightarrow> K j \<longrightarrow> i = j"
      "int (length (entries (observe_locked l now))) < max_tracked_keys (policy l) \<longrightarrow> K = (\<lambda>k. False)"
proof (cases "map_of (entries (observe_locked l now)) k")
  case (Some e)
  show ?thesis
  proof (cases "locked e")
    case True
    with observed_live [OF l now Some] Some show ?thesis
      by (intro Locked) (auto simp: reserve_def Let_def)
  next
    case False
    with Some show ?thesis by (intro Counting) (auto simp: reserve_def Let_def)
  qed
next
  case None
  have wf': "wf (observe_locked l now)" using l now by (rule wf_observe_locked)
  show ?thesis
  proof (cases "saturated_locked (observe_locked l now)")
    case True
    with None make_room_locked_result [OF wf'] show ?thesis
      by (intro Full) (auto simp: reserve_def Let_def)
  next
    case False
    with make_room_locked_result [OF wf'] obtain K where
      "make_room_locked (observe_locked l now) = (True, forget K (observe_locked l now))"
      "\<forall>k e. K k \<longrightarrow> map_of (entries (observe_locked l now)) k = Some e \<longrightarrow> \<not> locked e"
      "int (length (entries (forget K (observe_locked l now)))) < max_tracked_keys (policy l)"
      "\<forall>i j. K i \<longrightarrow> K j \<longrightarrow> i = j"
      "int (length (entries (observe_locked l now))) < max_tracked_keys (policy l) \<longrightarrow> K = (\<lambda>k. False)"
      by (auto simp: policy_observe_locked [OF l now])
    with None False show ?thesis
      by (intro Fresh) (auto simp: reserve_def Let_def case_prod_unfold)
  qed
qed

lemma wf_reserve [invariants]:
  assumes l: "wf l" and now: "latest l \<le> now"
  shows "wf (fst (reserve l k now))"
  using l now
proof (cases rule: reserve_cases [of l now k])
  case (Counting e)
  have wf': "wf (observe_locked l now)" using l now by (rule wf_observe_locked)
  with Counting wf_entry [OF wf' Counting(1)] show ?thesis
    by (simp, intro wf_count_attempt)
      (auto simp: wf_imp_wf_except entry_ok_def latest_observe_locked l now)
next
  case (Fresh K)
  let ?l = "forget K (observe_locked l now)"
  have wf': "wf ?l" using l now by (simp add: wf_observe_locked wf_forget)
  then have "wf_except k (snd (track ?l k))"
    using Fresh by (intro wf_except_track) (auto simp: policy_observe_locked l now)
  moreover have "1 \<le> threshold (policy l)" using l by (simp add: wf_def shape_def policy_ok_def)
  ultimately show ?thesis
    unfolding Fresh(3)
    by (intro wf_count_attempt) (auto simp: policy_observe_locked latest_observe_locked l now)
qed (auto intro: wf_observe_locked l now)

lemma wf_attempt [invariants]: "wf l \<Longrightarrow> latest l \<le> now \<Longrightarrow> wf (fst (attempt l k now))"
  using wf_reserve [of l now k] by (simp add: attempt_def case_prod_unfold)

lemma locked_query_fst: "fst (locked_query l k now) = observe_locked l now"
  by (simp add: locked_query_def Let_def split: option.splits)

lemma wf_locked_query [invariants]: "wf l \<Longrightarrow> latest l \<le> now \<Longrightarrow> wf (fst (locked_query l k now))"
  by (simp add: locked_query_fst wf_observe_locked)

lemma wf_unlock_locked:
  assumes l: "wf l" and e: "map_of (entries l) k = Some e" "locked e" "attempts e < threshold (policy l)"
  shows "wf (unlock_locked l k e)"
proof -
  have mem: "k \<notin> set (counting l)" 
    using e shape_counting [OF wf_shape [OF l]] by auto
  let ?e = "e\<lparr>locked := False, locked_until := zero_time, last_activity := latest l\<rparr>"
  have "wf (l\<lparr>entries := AList.update k ?e (entries l), counting := k # counting l,
      locks := remove1 k (locks l)\<rparr>)"
    using e mem map_of_Some_keys [OF e(1)]
    by (intro wf_put wf_imp_wf_except l) (auto simp: entry_ok_def remove1_idem)
  moreover have "unlock_locked l k e = l\<lparr>entries := AList.update k ?e (entries l),
      counting := k # counting l, locks := remove1 k (locks l)\<rparr>"
    by (simp add: unlock_locked_def)
  ultimately show ?thesis by simp
qed


text \<open>Giving back the last counted attempt forgets the key.\<close>

lemma adjust_remove_forget:
  assumes "wf l" and "map_of (entries l) k = Some e" and "n \<le> attempts e"
  shows "remove_locked (l\<lparr>entries := AList.update k (e\<lparr>attempts := n\<rparr>) (entries l)\<rparr>) k
           (e\<lparr>attempts := n\<rparr>) = forget (\<lambda>x. x = k) l"
proof -
  have "AList.delete k (AList.update k v m) = AList.delete k m" for v and m :: "(string \<times> entry) list"
    by (induction m) auto
  then have "remove_locked (l\<lparr>entries := AList.update k (e\<lparr>attempts := n\<rparr>) (entries l)\<rparr>) k
      (e\<lparr>attempts := n\<rparr>) = remove_locked l k e"
    by (simp add: remove_locked_def)
  with assms show ?thesis by (simp add: remove_locked_forget wf_shape)
qed

text \<open>The branches of \<open>Cancel\<close> in terms of the table after expiry.\<close>

lemma cancel_cases:
  fixes l r
  defines "l0 \<equiv> expire_locked l (latest l)" and "k \<equiv> res_key r"
  obtains (Stale) "\<nexists>e. map_of (entries l0) k = Some e \<and> epoch e = res_epoch r \<and> res_epoch r \<noteq> 0"
      "cancel l r = l0"
  | (Stands) e where "map_of (entries l0) k = Some e" "epoch e = res_epoch r" "res_epoch r \<noteq> 0"
      "locked e" "\<not> res_engaged r"
      "cancel l r = l0\<lparr>entries := AList.update k (e\<lparr>attempts := attempts e - 1\<rparr>) (entries l0)\<rparr>"
  | (Last) e where "map_of (entries l0) k = Some e" "epoch e = res_epoch r" "res_epoch r \<noteq> 0"
      "locked e \<longrightarrow> res_engaged r" "attempts e = 1"
      "cancel l r = remove_locked (l0\<lparr>entries := AList.update k (e\<lparr>attempts := 0\<rparr>) (entries l0)\<rparr>) k
         (e\<lparr>attempts := 0\<rparr>)"
  | (Lifted) e where "map_of (entries l0) k = Some e" "epoch e = res_epoch r" "res_epoch r \<noteq> 0"
      "locked e" "res_engaged r" "attempts e \<noteq> 1"
      "cancel l r = unlock_locked
         (l0\<lparr>entries := AList.update k (e\<lparr>attempts := attempts e - 1\<rparr>) (entries l0)\<rparr>) k
         (e\<lparr>attempts := attempts e - 1\<rparr>)"
  | (Back) e where "map_of (entries l0) k = Some e" "epoch e = res_epoch r" "res_epoch r \<noteq> 0"
      "\<not> locked e" "attempts e \<noteq> 1"
      "cancel l r = l0\<lparr>entries := AList.update k (e\<lparr>attempts := attempts e - 1\<rparr>) (entries l0)\<rparr>"
proof (cases "\<exists>e. map_of (entries l0) k = Some e \<and> epoch e = res_epoch r \<and> res_epoch r \<noteq> 0")
  case False
  then have "cancel l r = l0"
    by (auto simp: cancel_def Let_def l0_def k_def split: option.splits)
  with False show ?thesis by (intro Stale)
next
  case True
  then obtain e where e: "map_of (entries l0) k = Some e" "epoch e = res_epoch r" "res_epoch r \<noteq> 0"
    by auto
  show ?thesis
  proof (cases "locked e \<and> \<not> res_engaged r")
    case True
    with e show ?thesis
      by (intro Stands [of e]) (auto simp: cancel_def Let_def simp flip: l0_def k_def)
  next
    case no: False
    show ?thesis
    proof (cases "attempts e = 1")
      case True
      with e no show ?thesis
        by (intro Last [of e]) (auto simp: cancel_def Let_def simp flip: l0_def k_def)
    next
      case False
      with e no show ?thesis
        by (cases "locked e"; intro Lifted [of e] Back [of e])
          (auto simp: cancel_def Let_def simp flip: l0_def k_def)
    qed
  qed
qed

lemma wf_cancel [invariants]:
  assumes l: "wf l"
  shows "wf (cancel l r)"
proof (cases rule: cancel_cases [of l r])
  case (Lifted e)
  let ?m = "expire_locked l (latest l)"
  have "wf ?m" using l by (rule wf_forget')
  moreover from wf_entry [OF this Lifted(1)] have "attempts e \<le> threshold (policy ?m)"
    by (simp add: entry_ok_def)
  ultimately show ?thesis
    using Lifted by (simp, intro wf_unlock_locked wf_adjust) auto
next
  case (Last e)
  have "wf (expire_locked l (latest l))" using l by (rule wf_forget')
  with Last show ?thesis by (simp add: adjust_remove_forget wf_forget)
next
  case (Stands e)
  then show ?thesis using wf_adjust [OF wf_forget' [OF l]] by simp
next
  case (Back e)
  then show ?thesis using wf_adjust [OF wf_forget' [OF l]] by simp
next
  case Stale
  with l show ?thesis by (simp add: wf_forget')
qed

lemma wf_refund [invariants]: "wf l \<Longrightarrow> wf (refund l k)"
  by (auto simp: refund_def Let_def adjust_remove_forget split: option.splits
      intro!: wf_adjust wf_forget)

lemma wf_reset [invariants]: "wf l \<Longrightarrow> wf (reset l k)"
  by (auto simp: reset_def split: option.splits intro!: wf_remove_locked)


section \<open>Clients\<close>

text \<open>
  What a client can do with a limiter, as data: the calls of the exported methods in the
  order the mutex gives them. \<open>Attempt\<close> is \<open>Reserve\<close> without its reservation.
\<close>

datatype call =
    Reserve string time
  | Locked string time
  | Cancel reservation
  | Refund string
  | Reset string

fun apply_call :: "call \<Rightarrow> limiter \<Rightarrow> limiter" where
  "apply_call (Reserve k now) l = fst (reserve l k now)"
| "apply_call (Locked k now) l = fst (locked_query l k now)"
| "apply_call (Cancel r) l = cancel l r"
| "apply_call (Refund k) l = refund l k"
| "apply_call (Reset k) l = reset l k"

fun call_time :: "call \<Rightarrow> time option" where
  "call_time (Reserve k now) = Some now"
| "call_time (Locked k now) = Some now"
| "call_time _ = None"

text \<open>A sequence of calls whose clock does not run backwards, from the time \<open>t\<close> on.\<close>

fun in_order :: "time \<Rightarrow> call list \<Rightarrow> bool" where
  "in_order t [] = True"
| "in_order t (c # cs) =
     (case call_time c of None \<Rightarrow> in_order t cs | Some now \<Rightarrow> t \<le> now \<and> in_order now cs)"

definition run :: "call list \<Rightarrow> limiter \<Rightarrow> limiter" where
  "run cs l = fold apply_call cs l"

lemma run_simps [simp]: "run [] l = l" "run (c # cs) l = run cs (apply_call c l)"
  by (simp_all add: run_def)

lemma policy_latest_count_attempt [simp]:
  "policy (fst (count_attempt l k e now)) = policy l"
  "latest (fst (count_attempt l k e now)) = latest l"
  "next_epoch (fst (count_attempt l k e now)) = next_epoch l"
  by (simp_all add: count_attempt_def lock_locked_def Let_def)

lemma remove_locked_fields [simp]:
  "policy (remove_locked l k e) = policy l" "latest (remove_locked l k e) = latest l"
  "next_epoch (remove_locked l k e) = next_epoch l"
  by (simp_all add: remove_locked_def)

lemma next_epoch_observe_locked:
  "wf l \<Longrightarrow> latest l \<le> now \<Longrightarrow> next_epoch (observe_locked l now) = next_epoch l"
  using wf_latest [of l now] by (auto simp: observe_locked_def expire_locked_forget)

lemma reserve_fields:
  assumes "wf l" and "latest l \<le> now"
  shows "policy (fst (reserve l k now)) = policy l" "latest (fst (reserve l k now)) = now"
    "next_epoch (fst (reserve l k now)) = next_epoch l \<or>
     next_epoch (fst (reserve l k now)) = next_epoch l + 1"
proof -
  show "policy (fst (reserve l k now)) = policy l"
    by (rule reserve_cases [OF assms, of k]) (simp_all add: policy_observe_locked assms)
  show "latest (fst (reserve l k now)) = now"
    by (rule reserve_cases [OF assms, of k]) (simp_all add: latest_observe_locked assms)
  show "next_epoch (fst (reserve l k now)) = next_epoch l \<or>
     next_epoch (fst (reserve l k now)) = next_epoch l + 1"
    by (rule reserve_cases [OF assms, of k]) (simp_all add: next_epoch_observe_locked assms)
qed

lemma cancel_fields:
  assumes "wf l"
  shows "policy (cancel l r) = policy l" "latest (cancel l r) = latest l"
    "next_epoch (cancel l r) = next_epoch l"
  by (simp_all add: cancel_def Let_def expire_locked_forget assms unlock_locked_def split: option.split)

lemma refund_fields [simp]:
  "policy (refund l k) = policy l" "latest (refund l k) = latest l" "next_epoch (refund l k) = next_epoch l"
  by (simp_all add: refund_def Let_def split: option.splits)

lemma reset_fields [simp]:
  "policy (reset l k) = policy l" "latest (reset l k) = latest l" "next_epoch (reset l k) = next_epoch l"
  by (simp_all add: reset_def split: option.splits)

lemma apply_call_fields:
  assumes "wf l" and "\<And>now. call_time c = Some now \<Longrightarrow> latest l \<le> now"
  shows "wf (apply_call c l)" "policy (apply_call c l) = policy l"
    "latest (apply_call c l) = (case call_time c of None \<Rightarrow> latest l | Some now \<Rightarrow> now)"
    "next_epoch (apply_call c l) = next_epoch l \<or> next_epoch (apply_call c l) = next_epoch l + 1"
  using assms
  by (cases c; auto simp: invariants locked_query_fst policy_observe_locked latest_observe_locked
      next_epoch_observe_locked reserve_fields cancel_fields)+

lemma run_wf:
  "wf l \<Longrightarrow> in_order (latest l) cs \<Longrightarrow>
     wf (run cs l) \<and> policy (run cs l) = policy l"
proof (induction cs arbitrary: l)
  case (Cons c cs)
  have "\<And>now. call_time c = Some now \<Longrightarrow> latest l \<le> now" using Cons.prems by auto
  from apply_call_fields [OF Cons.prems(1) this] Cons.IH [of "apply_call c l"] Cons.prems
  show ?case by (auto split: option.splits)
qed simp

text \<open>Whatever calls clients make with a clock that does not run backwards, the limiter
  never holds more than \<open>MaxTrackedKeys\<close> entries, its two lists partition the tracked keys into
  the counting and the locked ones, both lists stay in expiry order, and no unlocked key has
  used up its budget.\<close>

theorem limiter_invariant:
  assumes "new_attempt_limiter p = Some l" and "in_order zero_time cs"
  shows "wf (run cs l) \<and> policy (run cs l) = p \<and>
         int (length (entries (run cs l))) \<le> max_tracked_keys p"
proof -
  have l: "latest l = zero_time" "policy l = p"
    using assms(1) by (auto simp: new_attempt_limiter_def split: if_splits)
  with run_wf [OF new_attempt_limiter_wf [OF assms(1)], of cs] assms(2)
  show ?thesis by (auto simp: wf_def shape_def)
qed

text \<open>Inputs for the witnesses: three attempts, a window of 100, a table of two keys.\<close>

definition demo_policy :: policy where
  "demo_policy = \<lparr>threshold = 3, lockout_window = 100, max_tracked_keys = 2\<rparr>"

definition demo_limiter :: limiter where
  "demo_limiter = \<lparr>policy = demo_policy, entries = [], next_epoch = 0, latest = zero_time,
     counting = [], locks = []\<rparr>"

lemma demo_limiter_new: "new_attempt_limiter demo_policy = Some demo_limiter"
  by (simp add: new_attempt_limiter_def demo_policy_def demo_limiter_def)

lemma demo_limiter_wf: "wf demo_limiter"
  using demo_limiter_new by (rule new_attempt_limiter_wf)

text \<open>The back-of-the-list scans of \<open>expireLocked\<close> are a full-table expiry: on a well-formed
  table they drop exactly the entries whose time is up, wherever they stand in the lists, and
  leave every other entry and the order of the others unchanged.\<close>

theorem expiry_is_full_scan:
  assumes "wf l"
  shows "expire_locked l now = forget (expired l now) l"
  using assms by (rule expire_locked_forget)

text \<open>The read-only pre-check agrees with the authoritative gate: \<open>Locked\<close> answers true
  exactly when \<open>Reserve\<close> at the same moment would deny, in every state and for every key.\<close>

theorem locked_iff_reserve_denied:
  "snd (locked_query l k now) \<longleftrightarrow> fst (snd (reserve l k now)) = Denied"
proof -
  have cnt: "fst (snd (count_attempt l k e now)) \<noteq> Denied" for l e
    by (simp add: count_attempt_def Let_def)
  have room: "fst (make_room_locked l) \<longleftrightarrow> \<not> saturated_locked l" for l
    by (auto simp: make_room_locked_def saturated_locked_def list_back_def split: option.splits)
  show ?thesis
    using room [of "observe_locked l now"]
    by (auto simp: locked_query_def reserve_def Let_def cnt split: option.splits prod.splits bool.splits)
qed


section \<open>The abstract strike counter\<close>

text \<open>
  What the limiter promises, per key and without a table: a key is fresh, has some strikes
  with a last activity, or is barred until a time. Time alone turns strikes older than a
  window, and bars that have run out, back into a fresh key.
\<close>

datatype strikes = Fresh | Strikes int time | Barred time

fun age :: "policy \<Rightarrow> time \<Rightarrow> strikes \<Rightarrow> strikes" where
  "age p now Fresh = Fresh"
| "age p now (Strikes n t) = (if t + lockout_window p \<le> now then Fresh else Strikes n t)"
| "age p now (Barred u) = (if u \<le> now then Fresh else Barred u)"

fun strikes_of :: "strikes \<Rightarrow> int" where
  "strikes_of (Strikes n t) = n"
| "strikes_of _ = 0"

fun spec_reserve :: "policy \<Rightarrow> time \<Rightarrow> strikes \<Rightarrow> strikes \<times> outcome" where
  "spec_reserve p now (Barred u) = (Barred u, Denied)"
| "spec_reserve p now c =
     (if strikes_of c + 1 < threshold p then (Strikes (strikes_of c + 1) now, Allowed)
      else (Barred (now + lockout_window p), AllowedLastAttempt))"

fun spec_refund :: "strikes \<Rightarrow> strikes" where
  "spec_refund (Strikes n t) =
     (if n = 0 then Strikes n t else if n = 1 then Fresh else Strikes (n - 1) t)"
| "spec_refund c = c"

fun spec_call :: "policy \<Rightarrow> call \<Rightarrow> (string \<Rightarrow> strikes) \<Rightarrow> (string \<Rightarrow> strikes)" where
  "spec_call p (Reserve k now) c =
     (\<lambda>j. age p now (c j))(k := fst (spec_reserve p now (age p now (c k))))"
| "spec_call p (Locked k now) c = (\<lambda>j. age p now (c j))"
| "spec_call p (Refund k) c = c(k := spec_refund (c k))"
| "spec_call p (Reset k) c = c(k := Fresh)"
| "spec_call p (Cancel r) c = c"

definition strikes_in :: "limiter \<Rightarrow> string \<Rightarrow> strikes" where
  "strikes_in l k =
     (case map_of (entries l) k of
        None \<Rightarrow> Fresh
      | Some e \<Rightarrow> if locked e then Barred (locked_until e) else Strikes (attempts e) (last_activity e))"

definition has_room :: "limiter \<Rightarrow> string \<Rightarrow> bool" where
  "has_room l k \<longleftrightarrow>
     k \<in> set (keys (entries l)) \<or> int (length (entries l)) < max_tracked_keys (policy l)"

lemma strikes_observe_locked:
  assumes "wf l" and "latest l \<le> now"
  shows "strikes_in (observe_locked l now) k = age (policy l) now (strikes_in l k)"
  using assms observe_locked_lookup [OF assms, of k]
  by (auto simp: strikes_in_def expired_def idle_for_a_window_def split: option.splits)

lemma strikes_count_attempt:
  assumes "\<not> locked e"
  shows "strikes_in (fst (count_attempt l k e now)) =
           (strikes_in l)(k := fst (spec_reserve (policy l) now (Strikes (attempts e) (last_activity e))))"
    and "fst (snd (count_attempt l k e now)) =
           snd (spec_reserve (policy l) now (Strikes (attempts e) (last_activity e)))"
  using assms
  by (auto simp: count_attempt_def Let_def lock_locked_def strikes_in_def fun_eq_iff)

lemma length_observe_locked:
  assumes "wf l" and "latest l \<le> now"
  shows "length (entries (observe_locked l now)) \<le> length (entries l)"
  using wf_latest [OF assms] assms
  by (auto simp: observe_locked_def expire_locked_forget forget_def)

lemma strikes_observe: 
  assumes "wf l" and "latest l \<le> now"
  shows "strikes_in (observe_locked l now) = (\<lambda>j. age (policy l) now (strikes_in l j))"
  using strikes_observe_locked [OF assms] by (rule ext)

lemma room_after_observe:
  assumes l: "wf l" and now: "latest l \<le> now" and room: "has_room l k"
    and gone: "map_of (entries (observe_locked l now)) k = None"
  shows "int (length (entries (observe_locked l now))) < max_tracked_keys (policy l)"
proof (cases "k \<in> set (keys (entries l))")
  case False
  with room length_observe_locked [OF l now] show ?thesis by (simp add: has_room_def)
next
  case True
  let ?o = "observe_locked l now"
  let ?l = "if now > latest l then l\<lparr>latest := now\<rparr> else l"
  have sh: "shape ?o" using l now by (simp add: wf_shape wf_observe_locked)
  have "entries ?o = filter (\<lambda>(j, e). \<not> expired ?l now j) (entries l)"
    using l now wf_latest [OF l now]
    by (auto simp: observe_locked_def expire_locked_forget forget_def)
  then have "set (keys (entries ?o)) \<subseteq> set (keys (entries l))" by (auto simp: keys_def)
  moreover have "k \<notin> set (keys (entries ?o))" using gone by (simp add: map_of_keys)
  ultimately have "set (keys (entries ?o)) \<subset> set (keys (entries l))" using True by auto
  then have "card (set (keys (entries ?o))) < card (set (keys (entries l)))"
    by (intro psubset_card_mono) auto
  then show ?thesis
    using sh wf_shape [OF l] length_as_card [of "entries ?o"] length_as_card [of "entries l"]
    by (simp add: shape_def)
qed

text \<open>With room for the key, \<open>Reserve\<close> is the abstract counter.\<close>

lemma reserve_refines:
  assumes l: "wf l" and now: "latest l \<le> now" and room: "has_room l k"
  shows "strikes_in (fst (reserve l k now)) = spec_call (policy l) (Reserve k now) (strikes_in l) \<and>
         fst (snd (reserve l k now)) = snd (spec_reserve (policy l) now (age (policy l) now (strikes_in l k)))"
  using l now
proof (cases rule: reserve_cases [of l now k])
  case (Locked e)
  then have "age (policy l) now (strikes_in l k) = Barred (locked_until e)" by (simp add: strikes_in_def)
  with Locked(4) show ?thesis by (simp add: strikes_observe [OF l now] fun_eq_iff)
next
  case Full
  with room_after_observe [OF l now room] show ?thesis
    by (simp add: saturated_locked_def policy_observe_locked l now)
next
  case (Counting e)
  then have "age (policy l) now (strikes_in l k) = Strikes (attempts e) (last_activity e)"
    using strikes_observe_locked [OF l now, of k] by (simp add: strikes_in_def)
  with Counting(2,3) strikes_count_attempt [of e "observe_locked l now" k now] show ?thesis
    by (simp add: policy_observe_locked strikes_observe l now)
next
  case (Fresh K)
  let ?o = "observe_locked l now"
  have "K = (\<lambda>k. False)" using room_after_observe [OF l now room] Fresh by simp
  then have o: "forget K ?o = ?o" by (simp add: forget_def case_prod_unfold)
  have k: "age (policy l) now (strikes_in l k) = strikes.Fresh"
    using Fresh(1) strikes_observe_locked [OF l now, of k] by (simp add: strikes_in_def)
  have "strikes_in (snd (track ?o k)) = (strikes_in ?o)(k := Strikes 0 zero_time)"
    by (auto simp: strikes_in_def track_def Let_def fun_eq_iff)
  with Fresh(3) strikes_count_attempt [of "fst (track ?o k)" "snd (track ?o k)" k now] show ?thesis
    unfolding o by (simp add: policy_observe_locked strikes_observe l now k)
qed


fun call_key :: "call \<Rightarrow> string" where
  "call_key (Reserve k now) = k"
| "call_key (Locked k now) = k"
| "call_key (Cancel r) = res_key r"
| "call_key (Refund k) = k"
| "call_key (Reset k) = k"

fun is_cancel :: "call \<Rightarrow> bool" where
  "is_cancel (Cancel r) = True"
| "is_cancel _ = False"

lemma keys_forget: "set (keys (entries (forget K l))) \<subseteq> set (keys (entries l))"
  by (auto simp: forget_def keys_def)

lemma keys_remove_locked: "set (keys (entries (remove_locked l k e))) \<subseteq> set (keys (entries l))"
  by auto

lemma keys_observe_locked:
  "wf l \<Longrightarrow> latest l \<le> now \<Longrightarrow> set (keys (entries (observe_locked l now))) \<subseteq> set (keys (entries l))"
proof -
  assume "wf l" "latest l \<le> now"
  then have "wf (if now > latest l then l\<lparr>latest := now\<rparr> else l)" by (auto intro: wf_latest)
  then show ?thesis
    unfolding observe_locked_def by (simp only: expire_locked_forget) (rule order_trans [OF keys_forget], simp)
qed

lemma keys_reserve:
  assumes l: "wf l" and now: "latest l \<le> now"
  shows "set (keys (entries (fst (reserve l k now)))) \<subseteq> insert k (set (keys (entries l)))"
proof -
  have cnt: "set (keys (entries (fst (count_attempt l k e now)))) \<subseteq> insert k (set (keys (entries l)))" for l e
    by (simp add: count_attempt_def Let_def lock_locked_def)
  have trk: "set (keys (entries (snd (track l k)))) = insert k (set (keys (entries l)))" for l
    by (simp add: track_def Let_def)
  show ?thesis
    using l now
  proof (cases rule: reserve_cases [of l now k])
    case (Fresh K)
    then show ?thesis
      using cnt [of "snd (track (forget K (observe_locked l now)) k)" "fst (track (forget K (observe_locked l now)) k)"]
        trk [of "forget K (observe_locked l now)"] keys_forget [of K "observe_locked l now"]
        keys_observe_locked [OF l now] by auto
  next
    case (Counting e)
    then show ?thesis using cnt [of "observe_locked l now" e] keys_observe_locked [OF l now] by auto
  qed (use keys_observe_locked [OF l now] in auto)
qed

lemma keys_apply_call:
  assumes "wf l" and "\<And>now. call_time c = Some now \<Longrightarrow> latest l \<le> now" and "\<not> is_cancel c"
  shows "set (keys (entries (apply_call c l))) \<subseteq> insert (call_key c) (set (keys (entries l)))"
proof (cases c)
  case (Refund k)
  have "k \<in> set (keys (entries l))" if "map_of (entries l) k = Some e" for e
    using that by (rule map_of_Some_keys)
  with Refund show ?thesis by (auto simp: refund_def Let_def split: option.splits if_splits)
next
  case (Reset k)
  then show ?thesis by (auto simp: reset_def split: option.splits)
next
  case (Locked k t)
  with assms keys_observe_locked [of l t] show ?thesis by (auto simp: locked_query_fst)
next
  case (Reserve k t)
  with assms keys_reserve [of l t k] show ?thesis by simp
qed (use assms in auto)

lemma strikes_forget: "strikes_in (forget K l) = (\<lambda>j. if K j then strikes.Fresh else strikes_in l j)"
  by (simp add: strikes_in_def fun_eq_iff)

lemma reset_forget:
  assumes "wf l"
  shows "reset l k = (if map_of (entries l) k = None then l else forget (\<lambda>x. x = k) l)"
  using assms by (auto simp: reset_def remove_locked_forget wf_shape split: option.splits)

lemma apply_call_refines:
  assumes l: "wf l" and now: "\<And>now. call_time c = Some now \<Longrightarrow> latest l \<le> now"
    and room: "has_room l (call_key c)" and nc: "\<not> is_cancel c"
  shows "strikes_in (apply_call c l) = spec_call (policy l) c (strikes_in l)"
proof (cases c)
  case (Refund k)
  have att: "strikes_in (forget (\<lambda>x. x = k) l) = (strikes_in l)(k := strikes.Fresh)"
    by (auto simp: strikes_forget)
  show ?thesis
  proof (cases "map_of (entries l) k")
    case None
    then show ?thesis using Refund by (auto simp: refund_def strikes_in_def)
  next
    case (Some e)
    show ?thesis
    proof (cases "locked e \<or> attempts e = 0")
      case True
      then show ?thesis using Refund Some by (auto simp: refund_def strikes_in_def)
    next
      case False
      have "attempts e = 1 \<Longrightarrow> remove_locked (l\<lparr>entries := AList.update k (e\<lparr>attempts := 0\<rparr>) (entries l)\<rparr>) k
           (e\<lparr>attempts := 0\<rparr>) = forget (\<lambda>x. x = k) l"
        by (rule adjust_remove_forget [OF l Some]) simp
      moreover have "strikes_in l k = Strikes (attempts e) (last_activity e)"
        using False Some by (simp add: strikes_in_def)
      moreover have "strikes_in (l\<lparr>entries := AList.update k (e\<lparr>attempts := n\<rparr>) (entries l)\<rparr>) =
          (strikes_in l)(k := Strikes n (last_activity e))" for n
        using False by (auto simp: strikes_in_def fun_eq_iff)
      ultimately show ?thesis using Refund Some False
        by (simp add: refund_def Let_def att)
    qed
  qed
next
  case (Reset k)
  then show ?thesis using l
    by (auto simp: reset_forget strikes_forget fun_eq_iff strikes_in_def)
next
  case (Locked k t)
  then show ?thesis using l now by (simp add: locked_query_fst strikes_observe)
next
  case (Reserve k t)
  then show ?thesis using reserve_refines [OF l, of t k] now room by simp
next
  case (Cancel r)
  then show ?thesis using nc by simp
qed

lemma has_room_of_keys:
  assumes "wf l" and "set (keys (entries l)) \<subseteq> S" and "finite S"
    and "int (card S) \<le> max_tracked_keys (policy l)" and "k \<in> S"
  shows "has_room l k"
proof (cases "k \<in> set (keys (entries l))")
  case False
  with assms have "set (keys (entries l)) \<subset> S" by auto
  then have "card (set (keys (entries l))) < card S" using assms(3) by (rule psubset_card_mono [rotated])
  with assms show ?thesis
    using length_as_card [of "entries l"] by (auto simp: has_room_def wf_def shape_def)
qed (simp add: has_room_def)

lemma run_refines:
  assumes "wf l" and "in_order (latest l) cs" and "\<forall>c \<in> set cs. \<not> is_cancel c"
    and "set (keys (entries l)) \<union> call_key ` set cs \<subseteq> S" and "finite S"
    and "int (card S) \<le> max_tracked_keys (policy l)"
  shows "strikes_in (run cs l) = fold (spec_call (policy l)) cs (strikes_in l) \<and>
         set (keys (entries (run cs l))) \<subseteq> S \<and> in_order (latest (run cs l)) []"
  using assms
proof (induction cs arbitrary: l)
  case (Cons c cs)
  have time: "\<And>now. call_time c = Some now \<Longrightarrow> latest l \<le> now" using Cons.prems by auto
  have room: "has_room l (call_key c)" using Cons.prems by (intro has_room_of_keys [of l S]) auto
  have nc: "\<not> is_cancel c" using Cons.prems(3) by simp
  note step = apply_call_fields [OF Cons.prems(1) time]
  have "set (keys (entries (apply_call c l))) \<subseteq> S"
    using keys_apply_call [OF Cons.prems(1) time nc] Cons.prems by auto
  moreover have "in_order (latest (apply_call c l)) cs"
    using Cons.prems step(3) by (auto split: option.splits)
  ultimately show ?case
    using Cons.IH [of "apply_call c l"] Cons.prems step(1,2)
      apply_call_refines [OF Cons.prems(1) time room nc] by simp
qed simp

lemma in_order_append: "in_order t (cs @ ds) \<Longrightarrow> in_order t cs"
  by (induction cs arbitrary: t) (auto split: option.splits)

lemma latest_run:
  "wf l \<Longrightarrow> in_order (latest l) (cs @ [Reserve k now]) \<Longrightarrow> latest (run cs l) \<le> now"
proof (induction cs arbitrary: l)
  case (Cons c cs)
  have "\<And>now. call_time c = Some now \<Longrightarrow> latest l \<le> now" using Cons.prems by auto
  from apply_call_fields [OF Cons.prems(1) this] Cons.IH [of "apply_call c l"] Cons.prems
  show ?case by (auto split: option.splits)
qed simp


definition demo_calls :: "call list" where
  "demo_calls = [Reserve ''a'' 5, Reserve ''b'' 6, Reserve ''a'' 7]"



section \<open>The budget of a burst\<close>

fun reserve_all :: "string \<Rightarrow> time list \<Rightarrow> limiter \<Rightarrow> outcome list" where
  "reserve_all k [] l = []"
| "reserve_all k (t # ts) l = (case reserve l k t of (l, outc, _) \<Rightarrow> outc # reserve_all k ts l)"

fun spec_outcomes :: "policy \<Rightarrow> time list \<Rightarrow> strikes \<Rightarrow> outcome list" where
  "spec_outcomes p [] c = []"
| "spec_outcomes p (t # ts) c =
     (case spec_reserve p t (age p t c) of (c, outc) \<Rightarrow> outc # spec_outcomes p ts c)"

lemma has_room_reserve:
  assumes "wf l" and "latest l \<le> now" and "has_room l k"
  shows "has_room (fst (reserve l k now)) k"
proof -
  have "strikes_in (fst (reserve l k now)) k \<noteq> strikes.Fresh"
    using reserve_refines [OF assms] assms(1)
    by (cases "age (policy l) now (strikes_in l k)") auto
  then have "map_of (entries (fst (reserve l k now))) k \<noteq> None"
    by (auto simp: strikes_in_def split: option.splits)
  then show ?thesis by (auto simp: has_room_def map_of_keys)
qed

lemma reserve_all_refines:
  "wf l \<Longrightarrow> sorted (latest l # ts) \<Longrightarrow> has_room l k \<Longrightarrow>
     reserve_all k ts l = spec_outcomes (policy l) ts (strikes_in l k)"
proof (induction ts arbitrary: l)
  case (Cons t ts)
  then have t: "latest l \<le> t" by simp
  note step = reserve_refines [OF Cons.prems(1) t Cons.prems(3)]
    reserve_fields [OF Cons.prems(1) t, of k] wf_reserve [OF Cons.prems(1) t, of k]
  show ?case
    using Cons.IH [of "fst (reserve l k t)"] step has_room_reserve [OF Cons.prems(1) t Cons.prems(3)] Cons.prems(2)
    by (simp add: case_prod_unfold)
qed simp

definition burst_outcome :: "policy \<Rightarrow> int \<Rightarrow> outcome" where
  "burst_outcome p i =
     (if i < threshold p then Allowed else if i = threshold p then AllowedLastAttempt else Denied)"

lemma spec_barred:
  "\<forall>t \<in> set ts. t < u \<Longrightarrow> spec_outcomes p ts (Barred u) = replicate (length ts) Denied"
  by (induction ts) auto

lemma map_upt_shift: "map f [0..<Suc n] = f 0 # map (\<lambda>j. f (Suc j)) [0..<n]"
  by (simp add: upt_conv_Cons map_Suc_upt [symmetric] del: upt_Suc)

lemma spec_burst:
  assumes "\<forall>t \<in> set ts. s \<le> t \<and> t < s + lockout_window p" and "i < threshold p"
    and "c = strikes.Fresh \<and> i = 0 \<or> (\<exists>t0 \<ge> s. c = Strikes i t0)"
  shows "spec_outcomes p ts c = map (\<lambda>j. burst_outcome p (i + 1 + int j)) [0..<length ts]"
  using assms
proof (induction ts arbitrary: c i)
  case (Cons t ts)
  have c: "age p t c = c" "strikes_of c = i" "c \<noteq> Barred u" for u using Cons.prems by auto
  let ?f = "\<lambda>j. burst_outcome p (i + 1 + int j)"
  have shift: "map ?f [0..<length (t # ts)] =
      burst_outcome p (i + 1) # map (\<lambda>j. burst_outcome p (i + 1 + 1 + int j)) [0..<length ts]"
    unfolding length_Cons map_upt_shift by (simp add: ac_simps)
  have res: "spec_reserve p t c =
     (if i + 1 < threshold p then (Strikes (i + 1) t, Allowed)
      else (Barred (t + lockout_window p), AllowedLastAttempt))"
    using c by (cases c) auto
  show ?case
  proof (cases "i + 1 < threshold p")
    case True
    then have "spec_outcomes p ts (Strikes (i + 1) t) =
        map (\<lambda>j. burst_outcome p (i + 1 + 1 + int j)) [0..<length ts]"
      using Cons.prems by (intro Cons.IH) auto
    with True show ?thesis unfolding shift by (simp add: c res burst_outcome_def)
  next
    case False
    then have T: "threshold p = i + 1" using Cons.prems(2) by simp
    have "spec_outcomes p ts (Barred (t + lockout_window p)) = replicate (length ts) Denied"
      using Cons.prems(1) by (intro spec_barred) force
    moreover have "map (\<lambda>j. burst_outcome p (i + 1 + 1 + int j)) [0..<length ts] = replicate (length ts) Denied"
      by (simp add: burst_outcome_def T map_replicate_const)
    ultimately show ?thesis unfolding shift using False by (simp add: c res burst_outcome_def T)
  qed
qed simp

text \<open>A burst of attempts on a fresh key within one lockout window is admitted exactly
  \<open>Threshold\<close> times: the first \<open>Threshold - 1\<close> are \<open>Allowed\<close>, the next is
  \<open>AllowedLastAttempt\<close>, and every later one is \<open>Denied\<close>, however many there are.\<close>

theorem burst_budget:
  assumes "wf l" and "sorted (latest l # ts)" and "has_room l k" and "strikes_in l k = strikes.Fresh"
    and "\<forall>t \<in> set ts. s \<le> t \<and> t < s + lockout_window (policy l)"
  shows "reserve_all k ts l = map (\<lambda>j. burst_outcome (policy l) (1 + int j)) [0..<length ts]"
  using reserve_all_refines [OF assms(1-3)] spec_burst [OF assms(5), of 0 strikes.Fresh] assms(1,4)
  by (simp add: wf_def shape_def policy_ok_def)

section \<open>Lockouts\<close>

text \<open>The only calls that end a lockout early: \<open>Reset\<close> of the key, and \<open>Cancel\<close> of the
  reservation that engaged it.\<close>

fun lifts :: "string \<Rightarrow> entry \<Rightarrow> call \<Rightarrow> bool" where
  "lifts k e (Reset j) = (j = k)"
| "lifts k e (Cancel r) = (res_key r = k \<and> res_epoch r = epoch e \<and> res_engaged r)"
| "lifts k e _ = False"

definition same_lock :: "entry \<Rightarrow> entry \<Rightarrow> bool" where
  "same_lock e e' \<longleftrightarrow> locked e \<and> locked e' \<and> locked_until e' = locked_until e \<and> epoch e' = epoch e"

definition locked_as :: "limiter \<Rightarrow> string \<Rightarrow> entry \<Rightarrow> bool" where
  "locked_as l k e \<longleftrightarrow> (\<exists>e'. map_of (entries l) k = Some e' \<and> same_lock e e')"

lemma locked_as_observe:
  "wf l \<Longrightarrow> latest l \<le> now \<Longrightarrow> now < locked_until e \<Longrightarrow> locked_as l k e \<Longrightarrow> locked_as (observe_locked l now) k e"
  by (auto simp: locked_as_def observe_locked_lookup expired_def same_lock_def)

lemma locked_as_expire:
  "wf l \<Longrightarrow> now < locked_until e \<Longrightarrow> locked_as l k e \<Longrightarrow> locked_as (expire_locked l now) k e"
  by (auto simp: locked_as_def expire_locked_forget expired_def same_lock_def)

lemma lookup_count_attempt [simp]:
  "j \<noteq> k \<Longrightarrow> map_of (entries (fst (count_attempt l k e now))) j = map_of (entries l) j"
  by (simp add: count_attempt_def Let_def lock_locked_def)

lemma locked_as_reserve:
  assumes l: "wf l" and now: "latest l \<le> now" "now < locked_until e" and e: "locked_as l k e"
  shows "locked_as (fst (reserve l j now)) k e"
proof -
  have o': "locked_as (observe_locked l now) k e" using assms by (intro locked_as_observe)
  show ?thesis
    using l now(1)
  proof (cases rule: reserve_cases [of l now j])
    case (Counting e')
    with o' have "j \<noteq> k" by (auto simp: locked_as_def same_lock_def)
    with o' Counting(3) show ?thesis by (simp add: locked_as_def)
  next
    case (Fresh K)
    with o' have "j \<noteq> k" "\<not> K k" by (auto simp: locked_as_def same_lock_def)
    with o' Fresh(3) show ?thesis by (simp add: locked_as_def)
  qed (use o' in simp_all)
qed

lemma locked_as_cancel:
  assumes l: "wf l" and now: "latest l < locked_until e" and e: "locked_as l k e"
    and nl: "\<not> lifts k e (Cancel r)"
  shows "locked_as (cancel l r) k e"
proof -
  have o': "locked_as (expire_locked l (latest l)) k e" using assms by (intro locked_as_expire)
  have wf': "wf (expire_locked l (latest l))" using l by (rule wf_forget')
  show ?thesis
  proof (cases rule: cancel_cases [of l r])
    case (Last e')
    with o' nl have "res_key r \<noteq> k" by (auto simp: locked_as_def same_lock_def)
    with Last o' show ?thesis by (simp add: adjust_remove_forget [OF wf'] locked_as_def)
  next
    case (Lifted e')
    with o' nl have "res_key r \<noteq> k" by (auto simp: locked_as_def same_lock_def)
    with Lifted o' show ?thesis by (simp add: unlock_locked_def locked_as_def)
  next
    case (Stands e')
    with o' show ?thesis by (auto simp: locked_as_def same_lock_def)
  next
    case (Back e')
    with o' show ?thesis by (auto simp: locked_as_def same_lock_def)
  qed (use o' in simp)
qed

lemma locked_as_call:
  assumes l: "wf l" and c: "\<And>now. call_time c = Some now \<Longrightarrow> latest l \<le> now \<and> now < locked_until e"
    and now: "latest l < locked_until e" and e: "locked_as l k e" and nl: "\<not> lifts k e c"
  shows "locked_as (apply_call c l) k e"
proof (cases c)
  case (Refund j)
  obtain e' where e': "map_of (entries l) k = Some e'" "same_lock e e'" using e by (auto simp: locked_as_def)
  have "locked_as (l\<lparr>entries := AList.update j f (entries l)\<rparr>) k e"
      "locked_as (remove_locked (l\<lparr>entries := AList.update j f (entries l)\<rparr>) j f) k e"
    if "map_of (entries l) j = Some e2" "\<not> locked e2" for e2 f
    using that e' by (auto simp: locked_as_def same_lock_def remove_locked_def)
  with Refund e show ?thesis by (auto simp: refund_def Let_def split: option.splits)
next
  case (Reset j)
  with e nl show ?thesis by (simp add: reset_forget [OF l] locked_as_def)
next
  case (Locked j t)
  with c l e show ?thesis by (simp add: locked_query_fst locked_as_observe)
next
  case (Reserve j t)
  with c l e show ?thesis by (simp add: locked_as_reserve)
next
  case (Cancel r)
  with c l e now nl show ?thesis by (simp add: locked_as_cancel)
qed

lemma in_order_later: "in_order t (cs @ [Reserve k now]) \<Longrightarrow> t \<le> now"
  by (induction cs arbitrary: t) (force split: option.splits)+

lemma locked_as_run:
  assumes "wf l" and "in_order (latest l) (cs @ [Reserve k now])" and "now < locked_until e"
    and "locked_as l k e" and "\<forall>c \<in> set cs. \<not> lifts k e c"
  shows "locked_as (run cs l) k e \<and> wf (run cs l) \<and> latest (run cs l) \<le> now"
  using assms
proof (induction cs arbitrary: l)
  case (Cons c cs)
  have time: "\<And>t. call_time c = Some t \<Longrightarrow> latest l \<le> t" using Cons.prems by auto
  have late: "call_time c = Some t \<Longrightarrow> t \<le> now" for t
    using Cons.prems(2) in_order_later [of t cs k now] by auto
  have "latest l \<le> now" using Cons.prems(2) in_order_later [of "latest l" "c # cs" k now] by simp
  then have "locked_as (apply_call c l) k e"
    using Cons.prems time late by (intro locked_as_call) force+
  with apply_call_fields [OF Cons.prems(1) time] Cons.prems Cons.IH [of "apply_call c l"]
  show ?case by (auto split: option.splits)
qed simp

text \<open>C10: a lockout is never displaced and never lifted by unrelated traffic: once a key is
  locked until \<open>u\<close>, then after any calls that are neither a \<open>Reset\<close> of the key nor the \<open>Cancel\<close>
  of the reservation that engaged the lockout (reserves and refunds of any key, cancels of the
  same key's other reservations, a flood of new keys on a full table) every attempt before
  \<open>u\<close> is still \<open>Denied\<close>.\<close>

theorem lockout_stands:
  assumes "wf l" and "map_of (entries l) k = Some e" and "locked e"
    and "in_order (latest l) (cs @ [Reserve k now])" and "\<forall>c \<in> set cs. \<not> lifts k e c"
    and "now < locked_until e"
  shows "fst (snd (reserve (run cs l) k now)) = Denied"
proof -
  have "locked_as l k e" using assms by (auto simp: locked_as_def same_lock_def)
  then have r: "locked_as (run cs l) k e" "wf (run cs l)" "latest (run cs l) \<le> now"
    using locked_as_run [of l cs k now e] assms by auto
  then have "locked_as (observe_locked (run cs l) now) k e"
    using assms(6) by (intro locked_as_observe)
  then show ?thesis using assms(6) by (auto simp: reserve_def Let_def locked_as_def same_lock_def)
qed


definition demo_locked :: limiter where
  "demo_locked = \<lparr>policy = demo_policy,
     entries = [(''a'', \<lparr>epoch = 1, attempts = 3, locked = True, locked_until = 107, last_activity = 7\<rparr>)],
     next_epoch = 1, latest = 7, counting = [], locks = [''a'']\<rparr>"

lemma demo_locked_run: "run [Reserve ''a'' 5, Reserve ''a'' 6, Reserve ''a'' 7] demo_limiter = demo_locked"
  by code_simp

theorem lockout_stands_witness:
  "fst (snd (reserve (run [Reserve ''a'' 8, Refund ''a'', Reserve ''b'' 9, Reserve ''c'' 9,
      Cancel \<lparr>res_key = ''a'', res_epoch = 1, res_engaged = False\<rparr>] demo_locked) ''a'' 106)) = Denied"
proof (rule lockout_stands)
  show "wf demo_locked"
    unfolding demo_locked_run [symmetric]
    by (rule conjunct1 [OF run_wf [OF demo_limiter_wf]]) (simp add: demo_limiter_def zero_time_def)
  show "map_of (entries demo_locked) ''a'' =
      Some \<lparr>epoch = 1, attempts = 3, locked = True, locked_until = 107, last_activity = 7\<rparr>"
    by (simp add: demo_locked_def)
qed (simp_all add: demo_locked_def)

section \<open>Cancelling\<close>

lemma not_expired_after_observe:
  "wf l \<Longrightarrow> latest l \<le> now \<Longrightarrow> \<not> expired (observe_locked l now) now k"
  by (auto simp: expired_def observe_locked_lookup idle_for_a_window_def policy_observe_locked
      split: option.splits)

lemma expired_cong:
  "policy l = policy m \<Longrightarrow> map_of (entries l) j = map_of (entries m) j \<Longrightarrow>
     expired l now j \<longleftrightarrow> expired m now j"
  by (simp add: expired_def idle_for_a_window_def split: option.split)

lemma cancel_count_attempt:
  assumes e: "map_of (entries m) k = Some e" "\<not> locked e" "epoch e \<noteq> 0"
    and p: "0 < lockout_window (policy m)" and m: "latest m = now" "wf (fst (count_attempt m k e now))"
    and live: "\<And>j. j \<noteq> k \<Longrightarrow> \<not> expired m now j"
  shows "strikes_in (cancel (fst (count_attempt m k e now)) (snd (snd (count_attempt m k e now)))) =
         (strikes_in m)(k := if attempts e = 0 then strikes.Fresh else Strikes (attempts e) now)"
proof -
  let ?l = "fst (count_attempt m k e now)"
  have "\<not> expired ?l now j" for j
  proof (cases "j = k")
    case False
    with live [OF this] expired_cong [of ?l m j now] show ?thesis by simp
  next
    case True
    with p e show ?thesis
      by (simp add: expired_def idle_for_a_window_def count_attempt_def Let_def lock_locked_def)
  qed
  then have "expire_locked ?l now = ?l"
    using expire_locked_forget [OF m(2), of now] by (simp add: forget_def case_prod_unfold)
  then show ?thesis
    using e m(1)
    by (auto simp: cancel_def Let_def count_attempt_def lock_locked_def unlock_locked_def
        remove_locked_def strikes_in_def fun_eq_iff)
qed

text \<open>C12: \<open>Cancel\<close> takes back exactly the attempt it names: cancelling the reservation of an
  admitted attempt restores the key's strike count, lifting the lockout if that attempt
  engaged it, and leaves every other key as it is.\<close>

theorem cancel_undoes_reserve:
  assumes l: "wf l" "latest l \<le> now" and ep: "\<forall>e. map_of (entries l) k = Some e \<longrightarrow> epoch e \<noteq> 0"
    "next_epoch l + 1 \<noteq> 0"
    and r: "reserve l k now = (l', outc, r)" "permitted outc"
  shows "strikes_of (strikes_in (cancel l' r) k) = strikes_of (age (policy l) now (strikes_in l k)) \<and>
         (\<forall>u. strikes_in (cancel l' r) k \<noteq> Barred u) \<and>
         (\<forall>j. j \<noteq> k \<longrightarrow> strikes_in (cancel l' r) j = strikes_in l' j)"
proof -
  have win: "0 < lockout_window (policy l)" using l(1) by (simp add: wf_def shape_def policy_ok_def)
  have l': "wf l'" using wf_reserve [OF l, of k] r by simp
  note obs = policy_observe_locked [OF l] latest_observe_locked [OF l] strikes_observe_locked [OF l]
  have main: ?thesis
    if ca: "(l', outc, r) = count_attempt m k e now" and e: "map_of (entries m) k = Some e" "\<not> locked e" "epoch e \<noteq> 0"
      and m: "policy m = policy l" "latest m = now" "\<And>j. j \<noteq> k \<Longrightarrow> \<not> expired m now j"
      and n: "attempts e = strikes_of (age (policy l) now (strikes_in l k))" for m e
  proof -
    have "strikes_in (cancel l' r) =
        (strikes_in m)(k := if attempts e = 0 then strikes.Fresh else Strikes (attempts e) now)"
      using cancel_count_attempt [OF e, of now] win m l' ca [symmetric] by simp
    moreover have "strikes_in l' j = strikes_in m j" if "j \<noteq> k" for j
      using that strikes_count_attempt(1) [OF e(2), of m k now] ca [symmetric] by simp
    ultimately show ?thesis using n by auto
  qed
  show ?thesis
    using l
  proof (cases rule: reserve_cases [of l now k])
    case (Counting e)
    show ?thesis
    proof (rule main)
      show "(l', outc, r) = count_attempt (observe_locked l now) k e now" using Counting(3) r by simp
      show "epoch e \<noteq> 0" using Counting(1) ep l by (simp add: observe_locked_lookup split: if_splits)
      show "attempts e = strikes_of (age (policy l) now (strikes_in l k))"
        using Counting(1,2) by (simp add: strikes_in_def [of "observe_locked l now"] flip: obs(3))
    qed (use Counting obs not_expired_after_observe [OF l] in auto)
  next
    case (Fresh K)
    show ?thesis
    proof (rule main)
      let ?m = "forget K (observe_locked l now)"
      show "(l', outc, r) = count_attempt (snd (track ?m k)) k (fst (track ?m k)) now"
        using Fresh(3) r by simp
      show "attempts (fst (track ?m k)) = strikes_of (age (policy l) now (strikes_in l k))"
        using Fresh(1) by (simp add: strikes_in_def [of "observe_locked l now"] flip: obs(3))
      show "\<not> expired (snd (track ?m k)) now j" if "j \<noteq> k" for j
        using that not_expired_after_observe [OF l, of j]
          expired_cong [of "snd (track ?m k)" ?m j now] expired_cong [of ?m "observe_locked l now" j now]
        by (cases "K j") (auto simp: expired_def)
    qed (use ep l obs in \<open>simp_all add: next_epoch_observe_locked\<close>)
  qed (use r in \<open>simp_all add: permitted_def\<close>)
qed

end
