(* ===== verification/Jpeg_Scrub.thy ===== *)
theory Jpeg_Scrub
  imports Prelude
begin

unbundle bit_operations_syntax

text \<open>
  The EXIF scrubber of \<open>media/adapter/exif_scrub.go\<close>: the byte-level removal of EXIF APP1
  segments (\<open>stripJPEGExif\<close>), the baking of the orientation into the pixels
  (\<open>applyOrientation\<close>, \<open>reencodeUpright\<close>) and the choice between them (\<open>Scrub\<close>). The image
  codecs and the EXIF parser are third-party code: they are arguments of the definitions
  that call them.

  The walk over the segments is compared with a description of the JPEG header as a list of
  segments: it succeeds exactly on data of that form, and then it removes exactly the
  EXIF segments.
\<close>

section \<open>The marker walk\<close>

datatype photo_error = InvalidPhoto | CodecFailure

definition jpegMarkerByte :: byte where "jpegMarkerByte = 0xFF"
definition jpegSOIMarker :: byte where "jpegSOIMarker = 0xD8"
definition jpegEOIMarker :: byte where "jpegEOIMarker = 0xD9"
definition jpegSOSMarker :: byte where "jpegSOSMarker = 0xDA"
definition jpegTEMMarker :: byte where "jpegTEMMarker = 0x01"
definition jpegRestart0 :: byte where "jpegRestart0 = 0xD0"
definition jpegRestart7 :: byte where "jpegRestart7 = 0xD7"
definition jpegAPP1Marker :: byte where "jpegAPP1Marker = 0xE1"
definition jpegLengthBytes :: nat where "jpegLengthBytes = 2"

lemmas jpeg_markers = jpegMarkerByte_def jpegSOIMarker_def jpegEOIMarker_def jpegSOSMarker_def
  jpegTEMMarker_def jpegRestart0_def jpegRestart7_def jpegAPP1Marker_def jpegLengthBytes_def

definition exifAPP1Signature :: bytes where
  "exifAPP1Signature = [0x45, 0x78, 0x69, 0x66, 0, 0]"

definition is_exif_app1 :: "byte \<Rightarrow> bytes \<Rightarrow> bool" where
  "is_exif_app1 marker payload \<longleftrightarrow>
     marker = jpegAPP1Marker \<and> length payload \<ge> length exifAPP1Signature \<and>
     take (length exifAPP1Signature) payload = exifAPP1Signature"

text \<open>\<open>data[a:b]\<close>.\<close>

definition slice :: "'a list \<Rightarrow> nat \<Rightarrow> nat \<Rightarrow> 'a list" where
  "slice xs a b = take (b - a) (drop a xs)"

text \<open>The inner loop: the first index from \<open>j\<close> on that does not hold a fill byte.\<close>

function skip_fill :: "bytes \<Rightarrow> nat \<Rightarrow> nat" where
  "skip_fill data j =
     (if j < length data \<and> data ! j = jpegMarkerByte then skip_fill data (j + 1) else j)"
  by pat_completeness auto
termination by (relation "measure (\<lambda>(data, j). length data - j)") auto

declare skip_fill.simps [simp del]

lemma skip_fill_ge: "j \<le> skip_fill data j"
  by (induction data j rule: skip_fill.induct) (subst skip_fill.simps, auto)

definition is_standalone :: "byte \<Rightarrow> bool" where
  "is_standalone marker \<longleftrightarrow>
     marker = jpegTEMMarker \<or> (marker \<ge> jpegRestart0 \<and> marker \<le> jpegRestart7)"

definition segment_length :: "byte \<Rightarrow> byte \<Rightarrow> nat" where
  "segment_length hi lo = (push_bit 8 (unat hi) OR unat lo)"

text \<open>The outer loop, from index \<open>i\<close> with \<open>out\<close> written so far.\<close>

function strip_walk :: "bytes \<Rightarrow> nat \<Rightarrow> bytes \<Rightarrow> photo_error + bytes" where
  "strip_walk data i out =
     (if \<not> i < length data then Inr out
      else if data ! i \<noteq> jpegMarkerByte then Inl InvalidPhoto
      else let j = skip_fill data (i + 1)
           in if j \<ge> length data then Inl InvalidPhoto
              else let marker = data ! j
                   in if marker = jpegSOSMarker \<or> marker = jpegEOIMarker
                      then Inr (out @ drop i data)
                      else if is_standalone marker
                      then strip_walk data (j + 1) (out @ slice data i (j + 1))
                      else if j + 1 + jpegLengthBytes > length data then Inl InvalidPhoto
                      else let segLen = segment_length (data ! (j + 1)) (data ! (j + 2))
                           in if segLen < jpegLengthBytes \<or> j + 1 + segLen > length data
                              then Inl InvalidPhoto
                              else let segEnd = j + 1 + segLen
                                   in strip_walk data segEnd
                                        (if \<not> is_exif_app1 marker (slice data (j + 3) segEnd)
                                         then out @ slice data i segEnd else out))"
  by pat_completeness auto
termination
proof (relation "measure (\<lambda>(data, i, out). length data - i)", goal_cases)
  case 1
  then show ?case by simp
next
  case (2 data i out j marker)
  with skip_fill_ge [of "i + 1" data] show ?case by simp
next
  case (3 data i out j marker segLen segEnd)
  with skip_fill_ge [of "i + 1" data] have "i < segEnd" "segEnd \<le> length data" by auto
  then show ?case by (simp add: diff_less_mono2)
qed

declare strip_walk.simps [simp del]

definition stripJPEGExif :: "bytes \<Rightarrow> photo_error + bytes" where
  "stripJPEGExif data =
     (if length data < 2 \<or> data ! 0 \<noteq> jpegMarkerByte \<or> data ! 1 \<noteq> jpegSOIMarker then Inr data
      else strip_walk data 2 [data ! 0, data ! 1])"

section \<open>JPEG headers as lists of segments\<close>

datatype segment =
    Standalone nat byte        \<comment> \<open>extra fill bytes, marker\<close>
  | Segment nat byte bytes     \<comment> \<open>extra fill bytes, marker, payload\<close>

fun seg_bytes :: "segment \<Rightarrow> bytes" where
  "seg_bytes (Standalone f m) = replicate (Suc f) jpegMarkerByte @ [m]"
| "seg_bytes (Segment f m pl) =
     replicate (Suc f) jpegMarkerByte @
     [m, word_of_nat ((length pl + 2) div 256), word_of_nat ((length pl + 2) mod 256)] @ pl"

definition ends_header :: "byte \<Rightarrow> bool" where
  "ends_header m \<longleftrightarrow> m = jpegSOSMarker \<or> m = jpegEOIMarker"

fun seg_ok :: "segment \<Rightarrow> bool" where
  "seg_ok (Standalone f m) = is_standalone m"
| "seg_ok (Segment f m pl) =
     (m \<noteq> jpegMarkerByte \<and> \<not> ends_header m \<and> \<not> is_standalone m \<and> length pl + 2 < 65536)"

fun is_exif :: "segment \<Rightarrow> bool" where
  "is_exif (Standalone f m) = False"
| "is_exif (Segment f m pl) = is_exif_app1 m pl"

text \<open>What follows the header: nothing, or a marker that starts the scan or ends the image,
  and whatever comes after it.\<close>

definition fill_length :: "bytes \<Rightarrow> nat" where
  "fill_length bs = length (takeWhile (\<lambda>b. b = jpegMarkerByte) bs)"

definition scan_ok :: "bytes \<Rightarrow> bool" where
  "scan_ok bs \<longleftrightarrow>
     bs = [] \<or> (0 < fill_length bs \<and> fill_length bs < length bs \<and> ends_header (bs ! fill_length bs))"

definition render_jpeg :: "segment list \<Rightarrow> bytes \<Rightarrow> bytes" where
  "render_jpeg segs scan = [jpegMarkerByte, jpegSOIMarker] @ concat (map seg_bytes segs) @ scan"

definition is_jpeg :: "bytes \<Rightarrow> bool" where
  "is_jpeg data \<longleftrightarrow> take 2 data = [jpegMarkerByte, jpegSOIMarker]"

lemma segment_length_sum: "segment_length hi lo = unat hi * 256 + unat lo"
proof -
  have lo: "unat lo < 256" using unsigned_less [of lo, where ?'a = nat] by simp
  have "push_bit 8 (unat hi) OR unat lo = push_bit 8 (unat hi) + unat lo"
  proof (rule disjunctive_add [symmetric])
    fix n
    have "unat lo div 2 ^ n = 0" if "8 \<le> n"
      using lo power_increasing [OF that, of "2::nat"] by simp
    then show "\<not> bit (push_bit 8 (unat hi)) n \<or> \<not> bit (unat lo) n"
      by (auto simp: bit_push_bit_iff bit_iff_odd [of "unat lo"])
  qed
  then show ?thesis by (simp add: segment_length_def push_bit_eq_mult)
qed

lemma skip_fill_eq: "skip_fill data j = j + fill_length (drop j data)"
proof (induction data j rule: skip_fill.induct)
  case (1 data j)
  show ?case
  proof (cases "j < length data")
    case True
    then have "drop j data = data ! j # drop (Suc j) data" by (simp add: Cons_nth_drop_Suc)
    with 1 True show ?thesis by (subst skip_fill.simps) (simp add: fill_length_def)
  qed (simp add: skip_fill.simps [of data j] fill_length_def)
qed

lemma fill_length_replicate:
  "m \<noteq> jpegMarkerByte \<Longrightarrow> fill_length (replicate f jpegMarkerByte @ m # bs) = f"
  by (induction f) (simp_all add: fill_length_def)

lemma is_standalone_not_FF: "is_standalone m \<Longrightarrow> m \<noteq> jpegMarkerByte"
  by (auto simp: is_standalone_def jpeg_markers)

lemma ends_header_not_FF: "ends_header m \<Longrightarrow> m \<noteq> jpegMarkerByte"
  by (auto simp: ends_header_def jpeg_markers)

lemma standalone_not_end: "is_standalone m \<Longrightarrow> \<not> ends_header m"
  by (auto simp: ends_header_def is_standalone_def jpeg_markers word_le_nat_alt)

lemma segment_length_encode:
  assumes "n < 65536"
  shows "segment_length (word_of_nat (n div 256)) (word_of_nat (n mod 256)) = n"
  using assms by (simp add: segment_length_sum unat_of_nat take_bit_nat_def)

lemma encode_segment_length:
  "word_of_nat (segment_length hi lo div 256) = hi" "word_of_nat (segment_length hi lo mod 256) = lo"
  "segment_length hi lo < 65536"
  using unsigned_less [of lo, where ?'a = nat] unsigned_less [of hi, where ?'a = nat]
  by (simp_all add: segment_length_sum)

lemma length_seg_bytes: "0 < length (seg_bytes s)"
  by (cases s) simp_all

lemma slice_app: "slice (pre @ mid @ suf) (length pre) (length pre + length mid) = mid"
  by (simp add: slice_def)

text \<open>One iteration of the walk.\<close>

lemma walk_step:
  assumes "seg_ok s"
  shows "strip_walk (pre @ seg_bytes s @ suf) (length pre) out =
         strip_walk (pre @ seg_bytes s @ suf) (length (pre @ seg_bytes s))
           (out @ (if is_exif s then [] else seg_bytes s))"
proof -
  let ?d = "pre @ seg_bytes s @ suf"
  have sl: "slice ?d (length pre) (length pre + length (seg_bytes s)) = seg_bytes s"
    by (rule slice_app)
  show ?thesis
  proof (cases s)
    case (Standalone f m)
    have m: "m \<noteq> jpegMarkerByte" "is_standalone m" "m \<noteq> jpegSOSMarker" "m \<noteq> jpegEOIMarker"
      using assms Standalone is_standalone_not_FF [of m] standalone_not_end [of m]
      by (auto simp: ends_header_def)
    have j: "skip_fill ?d (length pre + 1) = length pre + Suc f"
      using m by (simp add: skip_fill_eq Standalone fill_length_replicate)
    have nth: "?d ! (length pre + Suc f) = m"
      by (simp add: Standalone nth_append)
    show ?thesis
      using m sl j nth unfolding strip_walk.simps [of ?d "length pre"]
      by (simp add: Let_def Standalone nth_append)
  next
    case (Segment f m pl)
    let ?n = "length pl + 2"
    have m: "m \<noteq> jpegMarkerByte" "\<not> is_standalone m" "m \<noteq> jpegSOSMarker" "m \<noteq> jpegEOIMarker"
      "?n < 65536"
      using assms Segment by (auto simp: ends_header_def)
    have j: "skip_fill ?d (length pre + 1) = length pre + Suc f"
      using m by (simp add: skip_fill_eq Segment fill_length_replicate)
    have nth: "?d ! (length pre + Suc f) = m"
        "?d ! (length pre + Suc f + 1) = word_of_nat (?n div 256)"
        "?d ! (length pre + Suc f + 2) = word_of_nat (?n mod 256)"
      by (simp_all add: Segment nth_append nth_Cons split: nat.splits)
    have pl: "slice ?d (length pre + Suc f + 3) (length pre + Suc f + 1 + ?n) = pl"
    proof -
      let ?p = "pre @ replicate (Suc f) jpegMarkerByte @
          [m, word_of_nat (?n div 256), word_of_nat (?n mod 256)]"
      have "?d = ?p @ pl @ suf" by (simp add: Segment)
      moreover have "length ?p = length pre + Suc f + 3" by simp
      moreover have "length pre + Suc f + 1 + ?n = length pre + Suc f + 3 + length pl" by simp
      ultimately show ?thesis using slice_app [of ?p pl suf] by metis
    qed
    have len: "segment_length (word_of_nat (?n div 256)) (word_of_nat (?n mod 256)) = ?n"
      using m(5) by (rule segment_length_encode)
    have e: "length (seg_bytes s) = Suc f + 1 + ?n" by (simp add: Segment)
    show ?thesis
      using m sl unfolding strip_walk.simps [of ?d "length pre"] j Let_def nth len pl e
      by (simp add: Segment nth_append jpegLengthBytes_def add.assoc)
  qed
qed

lemma walk_render:
  assumes "\<forall>s \<in> set segs. seg_ok s" and "scan_ok scan"
  shows "strip_walk (pre @ concat (map seg_bytes segs) @ scan) (length pre) out =
         Inr (out @ concat (map seg_bytes (filter (\<lambda>s. \<not> is_exif s) segs)) @ scan)"
  using assms(1)
proof (induction segs arbitrary: pre out)
  case Nil
  show ?case
  proof (cases "scan = []")
    case True
    then show ?thesis by (simp add: strip_walk.simps)
  next
    case False
    let ?f = "fill_length scan"
    have f: "0 < ?f" "?f < length scan" "ends_header (scan ! ?f)"
      using assms(2) False by (auto simp: scan_ok_def)
    then obtain rest where scan: "scan = jpegMarkerByte # rest"
      by (cases scan) (auto simp: fill_length_def split: if_splits)
    then have j: "skip_fill (pre @ scan) (length pre + 1) = length pre + ?f"
      by (simp add: skip_fill_eq) (simp add: fill_length_def)
    have n: "(pre @ scan) ! length pre = jpegMarkerByte" "(pre @ scan) ! (length pre + ?f) = scan ! ?f"
      "length pre < length (pre @ scan)" "drop (length pre) (pre @ scan) = scan"
      using scan by (simp_all add: nth_append)
    have "strip_walk (pre @ scan) (length pre) out = Inr (out @ scan)"
      unfolding strip_walk.simps [of "pre @ scan" "length pre"] j Let_def n
      using f n(3) by (simp add: ends_header_def)
    then show ?thesis by simp
  qed
next
  case (Cons s segs)
  have "strip_walk (pre @ seg_bytes s @ concat (map seg_bytes segs) @ scan) (length pre) out =
        strip_walk ((pre @ seg_bytes s) @ concat (map seg_bytes segs) @ scan) (length (pre @ seg_bytes s))
          (out @ (if is_exif s then [] else seg_bytes s))"
    using walk_step [of s pre "concat (map seg_bytes segs) @ scan" out] Cons.prems by simp
  also have "\<dots> = Inr ((out @ (if is_exif s then [] else seg_bytes s)) @
      concat (map seg_bytes (filter (\<lambda>s. \<not> is_exif s) segs)) @ scan)"
    using Cons.prems by (intro Cons.IH) simp
  finally show ?case by simp
qed

lemma takeWhile_replicate: "takeWhile (\<lambda>b. b = x) xs = replicate (length (takeWhile (\<lambda>b. b = x) xs)) x"
  by (induction xs) auto

text \<open>What stands before the walk's position: fill bytes, then the marker it has found.\<close>

lemma marker_found:
  assumes "i < length data" and "data ! i = jpegMarkerByte" and "skip_fill data (i + 1) < length data"
  defines "j \<equiv> skip_fill data (i + 1)"
  defines "f \<equiv> j - (i + 1)"
  shows "drop i data = replicate (Suc f) jpegMarkerByte @ data ! j # drop (j + 1) data" and "data ! j \<noteq> jpegMarkerByte"
proof -
  have jf: "j = i + 1 + fill_length (drop (i + 1) data)" by (simp add: j_def skip_fill_eq)
  then have f: "f = fill_length (drop (i + 1) data)" by (simp add: f_def)
  have j: "j < length data" using assms(3) by (simp add: j_def)
  have "drop (i + 1) data = replicate f jpegMarkerByte @ drop f (drop (i + 1) data)"
    using takeWhile_replicate [of jpegMarkerByte "drop (i + 1) data"]
    unfolding f fill_length_def
    by (metis append_take_drop_id takeWhile_eq_take)
  moreover have "drop f (drop (i + 1) data) = data ! j # drop (j + 1) data"
    using j jf f by (simp add: Cons_nth_drop_Suc add.commute)
  ultimately show "drop i data = replicate (Suc f) jpegMarkerByte @ data ! j # drop (j + 1) data"
    using assms(1,2) by (simp add: Cons_nth_drop_Suc [symmetric])
  have "f < length (drop (i + 1) data)" using j jf f by simp
  then have "drop (i + 1) data ! f \<noteq> jpegMarkerByte"
    unfolding f fill_length_def by (rule nth_length_takeWhile)
  then show "data ! j \<noteq> jpegMarkerByte" using jf j f by (simp add: add.commute add.left_commute)
qed

lemma segment_found:
  assumes "drop i data = replicate (Suc f) jpegMarkerByte @ data ! j # drop (j + 1) data" and "data ! j \<noteq> jpegMarkerByte"
    and "\<not> ends_header (data ! j)" and "\<not> is_standalone (data ! j)"
  defines "n \<equiv> segment_length (data ! (j + 1)) (data ! (j + 2))"
  assumes len: "j + 3 \<le> length data" "2 \<le> n" "j + 1 + n \<le> length data"
  defines "s \<equiv> Segment f (data ! j) (slice data (j + 3) (j + 1 + n))"
  shows "seg_ok s" and "drop i data = seg_bytes s @ drop (j + 1 + n) data"
proof -
  let ?pl = "slice data (j + 3) (j + 1 + n)"
  have pl: "length ?pl + 2 = n" using len by (simp add: slice_def)
  show "seg_ok s"
    using assms(2,3,4) pl encode_segment_length(3) [of "data ! (j + 1)" "data ! (j + 2)"] by (simp add: s_def n_def)
  have "drop (n - 2) (drop (j + 3) data) = drop (j + 1 + n) data"
    using len(2) by (simp add: add.commute)
  then have pl': "drop (j + 3) data = ?pl @ drop (j + 1 + n) data"
    using append_take_drop_id [of "n - 2" "drop (j + 3) data"] by (simp add: slice_def)
  have "drop (j + 1) data = data ! (j + 1) # drop (Suc (j + 1)) data"
      "drop (Suc (j + 1)) data = data ! (j + 2) # drop (j + 3) data"
    using len Cons_nth_drop_Suc [of "j + 1" data] Cons_nth_drop_Suc [of "j + 2" data]
    by (simp_all add: numeral_3_eq_3)
  then show "drop i data = seg_bytes s @ drop (j + 1 + n) data"
    using assms(1) pl pl' encode_segment_length [of "data ! (j + 1)" "data ! (j + 2)"] by (simp add: s_def n_def)
qed

text \<open>Conversely, whatever the walk accepts is a list of segments followed by a scan.\<close>

lemma walk_parses:
  "strip_walk data i out = Inr res \<Longrightarrow> i \<le> length data \<Longrightarrow>
     \<exists>segs scan. (\<forall>s \<in> set segs. seg_ok s) \<and> scan_ok scan \<and>
       drop i data = concat (map seg_bytes segs) @ scan"
proof (induction data i out rule: strip_walk.induct)
  case (1 data i out)
  show ?case
  proof (cases "i < length data")
    case False
    with 1(4) show ?thesis
      by (intro exI [of _ "[]"] exI [of _ "[]"]) (simp add: scan_ok_def)
  next
    case i: True
    define j where "j = skip_fill data (i + 1)"
    note res = "1.prems"(1) [unfolded strip_walk.simps [of data i] Let_def, folded j_def]
    from res i have ff: "data ! i = jpegMarkerByte" and j: "j < length data"
      by (auto split: if_splits)
    note d = marker_found [OF i ff j [unfolded j_def], folded j_def]
    consider (End) "ends_header (data ! j)"
      | (Alone) "\<not> ends_header (data ! j)" "is_standalone (data ! j)"
      | (Seg) "\<not> ends_header (data ! j)" "\<not> is_standalone (data ! j)" by blast
    then show ?thesis
    proof cases
      case End
      have "fill_length (drop i data) = Suc (j - (i + 1))"
        using d fill_length_replicate [of "data ! j" "Suc (j - (i + 1))"] by simp
      then have "scan_ok (drop i data)" using d End i by (simp add: scan_ok_def nth_append)
      then show ?thesis by (intro exI [of _ "[]"] exI [of _ "drop i data"]) simp
    next
      case Alone
      then have "strip_walk data (j + 1) (out @ slice data i (j + 1)) = Inr res"
        using res i ff j by (auto simp: ends_header_def split: if_splits)
      then obtain segs scan where ih: "\<forall>s \<in> set segs. seg_ok s" "scan_ok scan"
          "drop (j + 1) data = concat (map seg_bytes segs) @ scan"
        using "1.IH"(1) [of j "data ! j"] i ff j Alone by (auto simp: j_def ends_header_def)
      show ?thesis
        using ih d Alone by (intro exI [of _ "Standalone (j - (i + 1)) (data ! j) # segs"] exI [of _ scan]) simp
    next
      case Seg
      let ?n = "segment_length (data ! (j + 1)) (data ! (j + 2))"
      from res i ff j Seg have len: "j + 3 \<le> length data" "2 \<le> ?n" "j + 1 + ?n \<le> length data"
        and rec: "strip_walk data (j + 1 + ?n)
          (if \<not> is_exif_app1 (data ! j) (slice data (j + 3) (j + 1 + ?n))
           then out @ slice data i (j + 1 + ?n) else out) = Inr res"
        by (auto simp: ends_header_def jpegLengthBytes_def not_less split: if_splits)
      obtain segs scan where ih: "\<forall>s \<in> set segs. seg_ok s" "scan_ok scan"
          "drop (j + 1 + ?n) data = concat (map seg_bytes segs) @ scan"
        using "1.IH"(2) [of j "data ! j" ?n "j + 1 + ?n"] i ff j Seg len rec
        by (auto simp: j_def ends_header_def jpegLengthBytes_def not_less)
      note seg = segment_found [OF d Seg len]
      show ?thesis
        using ih seg
        by (intro exI [of _ "Segment (j - (i + 1)) (data ! j) (slice data (j + 3) (j + 1 + ?n)) # segs"] exI [of _ scan])
           simp
    qed
  qed
qed

section \<open>What the scrubber does\<close>

lemma is_jpeg_cases:
  "is_jpeg data \<longleftrightarrow> \<not> (length data < 2 \<or> data ! 0 \<noteq> jpegMarkerByte \<or> data ! 1 \<noteq> jpegSOIMarker)"
  by (cases data; cases "tl data") (auto simp: is_jpeg_def)

lemma strip_not_jpeg: "\<not> is_jpeg data \<Longrightarrow> stripJPEGExif data = Inr data"
  by (simp add: stripJPEGExif_def is_jpeg_cases)

lemma strip_jpeg: "is_jpeg data \<Longrightarrow> stripJPEGExif data = strip_walk data 2 [jpegMarkerByte, jpegSOIMarker]"
  by (auto simp: stripJPEGExif_def is_jpeg_cases)

lemma is_jpeg_render: "is_jpeg (render_jpeg segs scan)"
  by (simp add: is_jpeg_def render_jpeg_def)

lemma strip_render:
  assumes "\<forall>s \<in> set segs. seg_ok s" and "scan_ok scan"
  shows "stripJPEGExif (render_jpeg segs scan) = Inr (render_jpeg (filter (\<lambda>s. \<not> is_exif s) segs) scan)"
  using walk_render [OF assms, of "[jpegMarkerByte, jpegSOIMarker]" "[jpegMarkerByte, jpegSOIMarker]"]
    strip_jpeg [OF is_jpeg_render, of segs scan]
  by (simp add: render_jpeg_def numeral_2_eq_2)

lemma strip_parses:
  assumes "is_jpeg data" and "stripJPEGExif data = Inr out"
  obtains segs scan where "\<forall>s \<in> set segs. seg_ok s" "scan_ok scan" "data = render_jpeg segs scan"
    "out = render_jpeg (filter (\<lambda>s. \<not> is_exif s) segs) scan"
proof -
  have "2 \<le> length data" using assms(1) by (auto simp: is_jpeg_cases)
  moreover have "strip_walk data 2 [jpegMarkerByte, jpegSOIMarker] = Inr out"
    using assms strip_jpeg by simp
  ultimately obtain segs scan where *: "\<forall>s \<in> set segs. seg_ok s" "scan_ok scan"
      "drop 2 data = concat (map seg_bytes segs) @ scan"
    using walk_parses by blast
  have "data = render_jpeg segs scan"
    using assms(1) append_take_drop_id [of 2 data] * by (simp add: is_jpeg_def render_jpeg_def)
  with * strip_render [of segs scan] assms(2) show ?thesis by (intro that) auto
qed

text \<open>C4: stripping accepts a JPEG exactly when its header is a sequence of well-formed marker
  segments up to the scan, and then the output is that same sequence, fill bytes, order and
  scan data included, without its EXIF APP1 segments; anything else that starts like a JPEG is
  rejected as an invalid photo.\<close>

theorem strip_exact:
  assumes "is_jpeg data"
  shows "stripJPEGExif data = Inr out \<longleftrightarrow>
         (\<exists>segs scan. (\<forall>s \<in> set segs. seg_ok s) \<and> scan_ok scan \<and> data = render_jpeg segs scan \<and>
            out = render_jpeg (filter (\<lambda>s. \<not> is_exif s) segs) scan)"
  using strip_parses [OF assms, of out] strip_render by metis

definition demo_jpeg :: bytes where
  "demo_jpeg = [0xFF, 0xD8, 0xFF, 0xFF, 0xE1, 0, 9, 0x45, 0x78, 0x69, 0x66, 0, 0, 42,
                0xFF, 0xFE, 0, 3, 7, 0xFF, 0xDA, 1, 2]"

definition demo_scrubbed :: bytes where
  "demo_scrubbed = [0xFF, 0xD8, 0xFF, 0xFE, 0, 3, 7, 0xFF, 0xDA, 1, 2]"

lemma demo_strip: "stripJPEGExif demo_jpeg = Inr demo_scrubbed"
  by code_simp

theorem strip_exact_witness:
  "\<exists>segs scan. (\<forall>s \<in> set segs. seg_ok s) \<and> scan_ok scan \<and> demo_jpeg = render_jpeg segs scan \<and>
     demo_scrubbed = render_jpeg (filter (\<lambda>s. \<not> is_exif s) segs) scan"
  using strip_exact [of demo_jpeg demo_scrubbed] demo_strip
  by (simp add: is_jpeg_def demo_jpeg_def jpeg_markers)

text \<open>Scrubbing is idempotent: a scrubbed file has nothing left to scrub and is accepted
  unchanged.\<close>

theorem strip_idempotent:
  assumes "stripJPEGExif data = Inr out"
  shows "stripJPEGExif out = Inr out"
proof (cases "is_jpeg data")
  case True
  then obtain segs scan where *: "\<forall>s \<in> set segs. seg_ok s" "scan_ok scan"
      "out = render_jpeg (filter (\<lambda>s. \<not> is_exif s) segs) scan"
    using strip_parses [OF _ assms] by metis
  then show ?thesis
    using strip_render [of "filter (\<lambda>s. \<not> is_exif s) segs" scan] by simp
next
  case False
  with assms show ?thesis by (simp add: strip_not_jpeg)
qed

section \<open>Orientation\<close>

text \<open>
  An \<open>image.Image\<close> is its bounds and its \<open>At\<close> method; a colour is what its \<open>RGBA()\<close> method
  returns, four 16-bit channels, and \<open>color.RGBAModel\<close> keeps the high byte of each. An
  \<open>*image.RGBA\<close> with origin (0, 0) is its size and its pixels; \<open>Set\<close> outside the bounds does
  nothing.
\<close>

type_synonym channel16 = "16 word"

record img =
  min_x :: int
  min_y :: int
  dx :: int
  dy :: int
  at :: "int \<Rightarrow> int \<Rightarrow> channel16 \<times> channel16 \<times> channel16 \<times> channel16"

record rgba =
  rgba_w :: int
  rgba_h :: int
  pix :: "int \<times> int \<Rightarrow> byte \<times> byte \<times> byte \<times> byte"

fun rgba_model :: "channel16 \<times> channel16 \<times> channel16 \<times> channel16 \<Rightarrow> byte \<times> byte \<times> byte \<times> byte" where
  "rgba_model (r, g, b, a) =
     (ucast (drop_bit 8 r), ucast (drop_bit 8 g), ucast (drop_bit 8 b), ucast (drop_bit 8 a))"

definition new_rgba :: "int \<Rightarrow> int \<Rightarrow> rgba" where
  "new_rgba w h = \<lparr>rgba_w = w, rgba_h = h, pix = (\<lambda>_. (0, 0, 0, 0))\<rparr>"

definition set_pixel :: "rgba \<Rightarrow> int \<Rightarrow> int \<Rightarrow> channel16 \<times> channel16 \<times> channel16 \<times> channel16 \<Rightarrow> rgba" where
  "set_pixel d x y c =
     (if 0 \<le> x \<and> x < rgba_w d \<and> 0 \<le> y \<and> y < rgba_h d
      then d\<lparr>pix := (pix d)((x, y) := rgba_model c)\<rparr> else d)"

text \<open>The \<open>switch o\<close> of the inner loop.\<close>

definition oriented :: "int \<Rightarrow> int \<Rightarrow> int \<Rightarrow> int \<Rightarrow> int \<Rightarrow> int \<times> int" where
  "oriented o' w h x y =
     (if o' = 2 then (w - 1 - x, y)
      else if o' = 3 then (w - 1 - x, h - 1 - y)
      else if o' = 4 then (x, h - 1 - y)
      else if o' = 5 then (y, x)
      else if o' = 6 then (h - 1 - y, x)
      else if o' = 7 then (h - 1 - y, w - 1 - x)
      else if o' = 8 then (y, w - 1 - x)
      else (x, y))"

definition applyOrientation :: "img \<Rightarrow> int \<Rightarrow> rgba" where
  "applyOrientation src o' =
     (let w = dx src; h = dy src;
          (dw, dh) = (if o' \<ge> 5 then (h, w) else (w, h))
      in fold (\<lambda>y d. fold (\<lambda>x d.
            let c = at src (min_x src + x) (min_y src + y);
                (px, py) = oriented o' w h x y
            in set_pixel d px py c) [0..w - 1] d) [0..h - 1] (new_rgba dw dh))"

lemma set_pixel_size [simp]: "rgba_w (set_pixel d x y c) = rgba_w d" "rgba_h (set_pixel d x y c) = rgba_h d"
  by (simp_all add: set_pixel_def)

lemma fold_size:
  "rgba_w (fold (\<lambda>p d. set_pixel d (fst (f p)) (snd (f p)) (g p)) ps d) = rgba_w d"
  "rgba_h (fold (\<lambda>p d. set_pixel d (fst (f p)) (snd (f p)) (g p)) ps d) = rgba_h d"
  by (induction ps arbitrary: d) simp_all

lemma fold_pix_other:
  "q \<notin> f ` set ps \<Longrightarrow> pix (fold (\<lambda>p d. set_pixel d (fst (f p)) (snd (f p)) (g p)) ps d) q = pix d q"
  by (induction ps arbitrary: d) (auto simp: set_pixel_def)

text \<open>Writing along an injective in-bounds path writes every value where it belongs.\<close>

lemma fold_pix:
  assumes "inj_on f (set ps)" and "distinct ps" and "p \<in> set ps"
    and "\<And>p. p \<in> set ps \<Longrightarrow> 0 \<le> fst (f p) \<and> fst (f p) < rgba_w d \<and> 0 \<le> snd (f p) \<and> snd (f p) < rgba_h d"
  shows "pix (fold (\<lambda>p d. set_pixel d (fst (f p)) (snd (f p)) (g p)) ps d) (f p) = rgba_model (g p)"
  using assms
proof (induction ps arbitrary: d)
  case (Cons a ps)
  show ?case
  proof (cases "p = a")
    case True
    have "f a \<notin> f ` set ps" using Cons.prems(1,2) by auto
    then have "pix (fold (\<lambda>p d. set_pixel d (fst (f p)) (snd (f p)) (g p)) ps
        (set_pixel d (fst (f a)) (snd (f a)) (g a))) (f a) =
        pix (set_pixel d (fst (f a)) (snd (f a)) (g a)) (f a)"
      by (rule fold_pix_other)
    with True Cons.prems(4) [of a] show ?thesis by (simp add: set_pixel_def [of d])
  next
    case False
    with Cons.prems show ?thesis by (simp, intro Cons.IH) auto
  qed
qed simp

definition raster :: "int \<Rightarrow> int \<Rightarrow> (int \<times> int) list" where
  "raster w h = concat (map (\<lambda>y. map (\<lambda>x. (x, y)) [0..w - 1]) [0..h - 1])"

lemma set_raster: "set (raster w h) = {(x, y). 0 \<le> x \<and> x < w \<and> 0 \<le> y \<and> y < h}"
  by (auto simp: raster_def image_iff)

lemma distinct_raster: "distinct (raster w h)"
proof -
  have "distinct (concat (map (\<lambda>y. map (\<lambda>x. (x, y)) [0..w - 1]) ys))" if "distinct ys" for ys :: "int list"
    using that by (induction ys) (auto simp: distinct_map inj_on_def)
  then show ?thesis by (simp add: raster_def)
qed

lemma fold_concat_map: "fold F (concat (map G ys)) d = fold (\<lambda>y. fold F (G y)) ys d"
  by (induction ys arbitrary: d) simp_all

lemma applyOrientation_raster:
  "applyOrientation src o' =
     fold (\<lambda>p d. set_pixel d (fst (oriented o' (dx src) (dy src) (fst p) (snd p)))
         (snd (oriented o' (dx src) (dy src) (fst p) (snd p)))
         (at src (min_x src + fst p) (min_y src + snd p)))
       (raster (dx src) (dy src))
       (if o' \<ge> 5 then new_rgba (dy src) (dx src) else new_rgba (dx src) (dy src))"
  by (simp add: applyOrientation_def raster_def fold_concat_map fold_map comp_def Let_def case_prod_unfold)

lemma oriented_bij:
  assumes "1 \<le> o'" and "o' \<le> 8"
  shows "bij_betw (\<lambda>p. oriented o' w h (fst p) (snd p)) ({0..<w} \<times> {0..<h})
           (if o' \<ge> 5 then {0..<h} \<times> {0..<w} else {0..<w} \<times> {0..<h})"
proof -
  let ?inv = "\<lambda>q. if o' = 6 then (snd q, h - 1 - fst q) else if o' = 8 then (w - 1 - snd q, fst q)
      else if o' \<ge> 5 then oriented o' h w (fst q) (snd q) else oriented o' w h (fst q) (snd q)"
  show ?thesis
    using assms by (intro bij_betw_byWitness [where f' = ?inv]) (auto simp: oriented_def)
qed


definition demo_img :: img where
  "demo_img = \<lparr>min_x = 3, min_y = 4, dx = 2, dy = 1,
     at = (\<lambda>x y. (word_of_int (256 * x), word_of_int (256 * y), 0, 0xFFFF))\<rparr>"


section \<open>Scrubbing a photo\<close>

text \<open>
  The image codecs of the standard library and \<open>image/jpeg\<close>'s encoder, as the calls the code
  makes: the claimed dimensions, the pixels, the encoded bytes. \<open>int64(cfg.Width) *
  int64(cfg.Height)\<close> is computed at 64 bits.
\<close>

record codec =
  decode_config :: "bytes \<Rightarrow> string + (int \<times> int)"
  decode_image :: "bytes \<Rightarrow> string + img"
  jpeg_encode :: "rgba \<Rightarrow> int \<Rightarrow> string + bytes"

definition reencodeQuality :: int where "reencodeQuality = 90"
definition maxDecodePixels :: int where "maxDecodePixels = 50000000"

definition pixels64 :: "int \<Rightarrow> int \<Rightarrow> int" where
  "pixels64 w h = sint (word_of_int w * word_of_int h :: 64 word)"

definition reencodeUpright :: "codec \<Rightarrow> bytes \<Rightarrow> int \<Rightarrow> photo_error + bytes" where
  "reencodeUpright c data o' =
     (case decode_config c data of
        Inl _ \<Rightarrow> Inl InvalidPhoto
      | Inr (w, h) \<Rightarrow>
          if pixels64 w h > maxDecodePixels then Inl InvalidPhoto
          else case decode_image c data of
              Inl _ \<Rightarrow> Inl InvalidPhoto
            | Inr im \<Rightarrow>
                (let upright = applyOrientation im o'
                 in case jpeg_encode c upright reencodeQuality of
                      Inl _ \<Rightarrow> Inl CodecFailure
                    | Inr out \<Rightarrow> Inr out))"

definition Scrub :: "codec \<Rightarrow> bytes \<Rightarrow> int \<Rightarrow> photo_error + bytes" where
  "Scrub c data o' =
     (if o' > 1 \<and> o' \<le> 8 then reencodeUpright c data o' else stripJPEGExif data)"

text \<open>Whether the header of a file carries an EXIF segment, as the walk sees it.\<close>

definition carries_exif :: "bytes \<Rightarrow> bool" where
  "carries_exif data \<longleftrightarrow> stripJPEGExif data \<noteq> Inr data"


definition demo_codec :: codec where
  "demo_codec = \<lparr>decode_config = (\<lambda>_. Inr (70000, 1000)), decode_image = (\<lambda>_. Inr demo_img),
     jpeg_encode = (\<lambda>_ _. Inr demo_scrubbed)\<rparr>"


section \<open>Reading EXIF\<close>

text \<open>
  The EXIF library may return an error or panic; the deferred \<open>recover\<close> turns a panic into the
  zero results. \<open>DateTime\<close>, \<open>TimeZone\<close> and the tag accessors are the library's.
\<close>

datatype 'a lib_result = Returns 'a | Fails | Panics

record ('x, 'loc) exif_lib =
  exif_decode :: "bytes \<Rightarrow> 'x lib_result"
  exif_date_time :: "'x \<Rightarrow> time lib_result"
  exif_time_zone :: "'x \<Rightarrow> 'loc option lib_result"
  exif_date_time_original :: "'x \<Rightarrow> string lib_result"
  exif_orientation :: "'x \<Rightarrow> int lib_result"
  parse_in_location :: "string \<Rightarrow> 'loc \<Rightarrow> time lib_result"
  local_zone :: 'loc

fun and_then :: "'a lib_result \<Rightarrow> ('a \<Rightarrow> 'b lib_result) \<Rightarrow> 'b lib_result" where
  "and_then (Returns a) f = f a"
| "and_then Fails f = Fails"
| "and_then Panics f = Panics"

text \<open>\<open>result, err := ...; if err != nil { return zero }\<close>\<close>

fun or_zero :: "'a \<Rightarrow> 'a lib_result \<Rightarrow> 'a lib_result" where
  "or_zero z Fails = Returns z"
| "or_zero z r = r"

fun recovered :: "'a \<Rightarrow> 'a lib_result \<Rightarrow> 'a" where
  "recovered z (Returns a) = a"
| "recovered z _ = z"

definition orientationFromTags :: "('x, 'loc) exif_lib \<Rightarrow> 'x \<Rightarrow> int lib_result" where
  "orientationFromTags lib x =
     or_zero 0 (and_then (exif_orientation lib x) (\<lambda>v. Returns (if v < 1 \<or> v > 8 then 0 else v)))"

definition dateTimeOriginal :: "('x, 'loc) exif_lib \<Rightarrow> 'x \<Rightarrow> time option lib_result" where
  "dateTimeOriginal lib x =
     and_then (or_zero None (exif_time_zone lib x)) (\<lambda>tz.
       let loc = (case tz of None \<Rightarrow> local_zone lib | Some z \<Rightarrow> z)
       in or_zero None
            (and_then (exif_date_time_original lib x) (\<lambda>raw.
             and_then (parse_in_location lib raw loc) (\<lambda>t. Returns (Some t)))))"

definition TakenAtAndOrientation :: "('x, 'loc) exif_lib \<Rightarrow> bytes \<Rightarrow> time option \<times> int" where
  "TakenAtAndOrientation lib data =
     recovered (None, 0) (or_zero (None, 0)
       (and_then (exif_decode lib data) (\<lambda>x.
        and_then (dateTimeOriginal lib x) (\<lambda>taken.
        and_then (orientationFromTags lib x) (\<lambda>orientation. Returns (taken, orientation))))))"

definition TakenAt :: "('x, 'loc) exif_lib \<Rightarrow> bytes \<Rightarrow> time option" where
  "TakenAt lib data =
     recovered None (or_zero None
       (and_then (exif_decode lib data) (\<lambda>x.
        and_then (exif_date_time lib x) (\<lambda>t. Returns (Some t)))))"

text \<open>The orientation handed to \<open>Scrub\<close> is always one it knows, whatever the library does.\<close>

lemma orientation_in_range: "snd (TakenAtAndOrientation lib data) \<in> {0..8}"
proof -
  have v: "v \<in> {0..8}" if "orientationFromTags lib x = Returns v" for x v
    using that by (cases "exif_orientation lib x") (auto simp: orientationFromTags_def split: if_splits)
  show ?thesis
  proof (cases "exif_decode lib data")
    case (Returns x)
    then show ?thesis
      using v [of x] by (cases "dateTimeOriginal lib x"; cases "orientationFromTags lib x")
        (auto simp: TakenAtAndOrientation_def)
  qed (simp_all add: TakenAtAndOrientation_def)
qed

end
