(* ===== verification/Postgres.thy ===== *)
theory Postgres
  imports Prelude
begin

text \<open>
  The database connection of \<open>db/db.go\<close> (\<open>db.TX\<close>, satisfied by the pool and by \<open>pgx.Tx\<close>) as
  the repositories use it. The schema is a parameter \<open>'db\<close>; a statement is a function of the
  database and of \<open>now()\<close>, which fails with an error or returns the new database and a
  result. Every round trip can also fail for reasons outside the database (a lost
  connection, a cancelled context): the environment's script says for each whether it
  fails before or after the server has done the work.

  A transaction works on the database and puts back what it found unless it reaches a
  successful commit. The isolation of concurrent transactions is not modelled here; see
  \<open>Owner_Guard\<close> and \<open>Mfa_Race\<close> for the code whose correctness depends on it.
\<close>

section \<open>Connections and statements\<close>

datatype pg_error =
    PgError string string   \<comment> \<open>SQLSTATE and constraint name\<close>
  | ErrNoRows
  | ConnError

datatype fault = NoFault | FailBefore | FailAfter

record 'db pg =
  db :: 'db
  clock :: time
  faults :: "fault list"
  uuids :: "nat \<Rightarrow> uuid"    \<comment> \<open>what the id generator will return\<close>
  uuids_used :: nat

type_synonym ('db, 'a) sql = "'db \<Rightarrow> time \<Rightarrow> pg_error + 'db \<times> 'a"

definition next_fault :: "'db pg \<Rightarrow> fault \<times> 'db pg" where
  "next_fault s = (case faults s of [] \<Rightarrow> (NoFault, s) | f # fs \<Rightarrow> (f, s\<lparr>faults := fs\<rparr>))"

definition new_uuid :: "'db pg \<Rightarrow> uuid \<times> 'db pg" where
  "new_uuid s = (uuids s (uuids_used s), s\<lparr>uuids_used := uuids_used s + 1\<rparr>)"

text \<open>\<open>Exec\<close>, \<open>QueryRow\<close>, \<open>Query\<close>: one round trip. A failed statement changes nothing.\<close>

definition run_sql :: "('db, 'a) sql \<Rightarrow> 'db pg \<Rightarrow> 'db pg \<times> (pg_error + 'a)" where
  "run_sql q s =
     (case next_fault s of
        (FailBefore, s) \<Rightarrow> (s, Inl ConnError)
      | (f, s) \<Rightarrow>
          (case q (db s) (clock s) of
             Inl e \<Rightarrow> (s, Inl (if f = FailAfter then ConnError else e))
           | Inr (d, a) \<Rightarrow> (s\<lparr>db := d\<rparr>, if f = FailAfter then Inl ConnError else Inr a)))"

definition select :: "('db \<Rightarrow> 'a list) \<Rightarrow> ('db, 'a list) sql" where
  "select f d now = Inr (d, f d)"

text \<open>\<open>QueryRow(...).Scan\<close>: the first row, or \<open>pgx.ErrNoRows\<close>.\<close>

definition select_row :: "('db \<Rightarrow> 'a list) \<Rightarrow> ('db, 'a) sql" where
  "select_row f d now = (case f d of [] \<Rightarrow> Inl ErrNoRows | r # _ \<Rightarrow> Inr (d, r))"

definition update_where :: "('r \<Rightarrow> bool) \<Rightarrow> ('r \<Rightarrow> 'r) \<Rightarrow> 'r list \<Rightarrow> 'r list" where
  "update_where P f rows = map (\<lambda>r. if P r then f r else r) rows"

definition delete_where :: "('r \<Rightarrow> bool) \<Rightarrow> 'r list \<Rightarrow> 'r list" where
  "delete_where P rows = filter (\<lambda>r. \<not> P r) rows"

definition count_where :: "('r \<Rightarrow> bool) \<Rightarrow> 'r list \<Rightarrow> nat" where
  "count_where P rows = length (filter P rows)"

definition is_violation :: "pg_error \<Rightarrow> string \<Rightarrow> string \<Rightarrow> bool" where
  "is_violation e code constraint_name \<longleftrightarrow> e = PgError code constraint_name"

section \<open>Transactions\<close>

text \<open>
  \<open>Begin\<close>, a body, \<open>Commit\<close>; \<open>defer tx.Rollback\<close> undoes the body's work on every other path.
  A commit that fails after the server has committed leaves the work in place.
\<close>

definition transact :: "'e \<Rightarrow> ('db pg \<Rightarrow> 'db pg \<times> ('e + 'a)) \<Rightarrow> 'db pg \<Rightarrow> 'db pg \<times> ('e + 'a)" where
  "transact infra body s =
     (case run_sql (\<lambda>d now. Inr (d, ())) s of
        (s1, Inl _) \<Rightarrow> (s1, Inl infra)
      | (s1, Inr _) \<Rightarrow>
          (case body s1 of
             (s2, Inl e) \<Rightarrow> (s2\<lparr>db := db s\<rparr>, Inl e)
           | (s2, Inr a) \<Rightarrow>
               (case next_fault s2 of
                  (NoFault, s3) \<Rightarrow> (s3, Inr a)
                | (FailBefore, s3) \<Rightarrow> (s3\<lparr>db := db s\<rparr>, Inl infra)
                | (FailAfter, s3) \<Rightarrow> (s3, Inl infra))))"

section \<open>Facts\<close>

lemma next_fault_db [simp]:
  "next_fault s = (f, s') \<Longrightarrow> db s' = db s \<and> clock s' = clock s \<and> uuids s' = uuids s \<and> uuids_used s' = uuids_used s"
  by (auto simp: next_fault_def split: list.splits)

text \<open>A round trip either leaves the database alone or does the statement's work.\<close>

lemma run_sql_db:
  assumes "run_sql q s = (s', r)"
  shows "(db s' = db s \<and> (\<forall>a. r = Inr a \<longrightarrow> q (db s) (clock s) = Inr (db s, a))) \<or>
         (\<exists>d a. q (db s) (clock s) = Inr (d, a) \<and> db s' = d \<and> (r = Inr a \<or> r = Inl ConnError))"
  using assms
  by (cases "next_fault s"; cases "fst (next_fault s)")
    (auto simp: run_sql_def split: sum.splits prod.splits)

lemma run_sql_Inr:
  assumes "run_sql q s = (s', Inr a)"
  shows "q (db s) (clock s) = Inr (db s', a)"
  using assms
  by (cases "next_fault s"; cases "fst (next_fault s)")
    (auto simp: run_sql_def split: sum.splits prod.splits)

lemma run_sql_frame:
  assumes "run_sql q s = (s', r)"
  shows "clock s' = clock s" "uuids s' = uuids s" "uuids_used s' = uuids_used s"
  using assms
  by (cases "next_fault s"; cases "fst (next_fault s)";
      auto simp: run_sql_def dest!: next_fault_db split: sum.splits prod.splits)+

lemma run_sql_Inl:
  assumes "run_sql q s = (s', Inl e)" and "e \<noteq> ConnError"
  shows "q (db s) (clock s) = Inl e \<and> db s' = db s"
  using assms
  by (cases "next_fault s"; cases "fst (next_fault s)")
    (auto simp: run_sql_def split: sum.splits prod.splits if_splits)

text \<open>Without faults a round trip is the statement.\<close>

lemma run_sql_no_faults:
  "faults s = [] \<Longrightarrow> run_sql q s =
     (case q (db s) (clock s) of Inl e \<Rightarrow> (s, Inl e) | Inr (d, a) \<Rightarrow> (s\<lparr>db := d\<rparr>, Inr a))"
  by (simp add: run_sql_def next_fault_def split: sum.splits)

lemma run_sql_no_faults_left:
  "faults s = [] \<Longrightarrow> run_sql q s = (s', r) \<Longrightarrow> faults s' = []"
  by (auto simp: run_sql_no_faults split: sum.splits prod.splits)

lemma select_db: "run_sql (select f) s = (s', r) \<Longrightarrow> db s' = db s"
  using run_sql_db [of "select f" s s' r] by (auto simp: select_def)

lemma select_row_db: "run_sql (select_row f) s = (s', r) \<Longrightarrow> db s' = db s"
  using run_sql_db [of "select_row f" s s' r] by (auto simp: select_row_def split: list.splits)

lemma select_Inr: "run_sql (select f) s = (s', Inr a) \<Longrightarrow> a = f (db s)"
  using run_sql_Inr [of "select f" s s' a] by (auto simp: select_def)

lemma select_row_Inr: "run_sql (select_row f) s = (s', Inr a) \<Longrightarrow> \<exists>rest. f (db s) = a # rest"
  using run_sql_Inr [of "select_row f" s s' a] by (auto simp: select_row_def split: list.splits)

lemma select_row_none: "run_sql (select_row f) s = (s', Inl ErrNoRows) \<Longrightarrow> f (db s) = []"
  using run_sql_Inl [of "select_row f" s s' ErrNoRows] by (auto simp: select_row_def split: list.splits)

text \<open>Atomicity: after a transaction the database is what it was, or what a body that
  succeeded made of it; on success it is the latter.\<close>

lemma transact_db:
  assumes "transact infra body s = (s', r)"
  obtains (Kept) "db s' = db s" "\<exists>e. r = Inl e"
  | (Done) s1 s2 a where "db s1 = db s" "clock s1 = clock s" "uuids s1 = uuids s" "uuids_used s1 = uuids_used s"
      "body s1 = (s2, Inr a)" "db s' = db s2" "r = Inr a \<or> r = Inl infra"
proof -
  obtain s1 r1 where b: "run_sql (\<lambda>d now. Inr (d, ())) s = (s1, r1)" by fastforce
  have s1: "db s1 = db s" "clock s1 = clock s" "uuids s1 = uuids s" "uuids_used s1 = uuids_used s"
    using run_sql_db [OF b] run_sql_frame [OF b] by auto
  show ?thesis
  proof (cases r1)
    case (Inl e)
    with assms b s1 show ?thesis by (intro Kept) (auto simp: transact_def)
  next
    case (Inr u)
    obtain s2 r2 where body: "body s1 = (s2, r2)" by fastforce
    show ?thesis
    proof (cases r2)
      case (Inl e)
      with assms b Inr body show ?thesis by (intro Kept) (auto simp: transact_def)
    next
      case (Inr a)
      obtain f s3 where nf: "next_fault s2 = (f, s3)" by fastforce
      show ?thesis
      proof (cases "f = FailBefore")
        case True
        with assms b \<open>r1 = Inr u\<close> body Inr nf show ?thesis by (intro Kept) (auto simp: transact_def)
      next
        case False
        have "db s' = db s2 \<and> (r = Inr a \<or> r = Inl infra)"
          using assms b \<open>r1 = Inr u\<close> body Inr nf False
          by (cases f) (auto simp: transact_def)
        with s1 body Inr show ?thesis by (intro Done [of s1 s2 a]) auto
      qed
    qed
  qed
qed

lemma transact_Inr:
  assumes "transact infra body s = (s', Inr a)"
  obtains s1 s2 where "db s1 = db s" "clock s1 = clock s" "uuids s1 = uuids s" "uuids_used s1 = uuids_used s"
      "body s1 = (s2, Inr a)" "db s' = db s2"
  using assms by (cases rule: transact_db) (use that in auto)

lemma transact_no_faults:
  assumes "faults s = []" and "\<And>s2 a. body s = (s2, Inr a) \<Longrightarrow> faults s2 = []"
  shows "transact infra body s =
    (case body s of (s2, Inl e) \<Rightarrow> (s2\<lparr>db := db s\<rparr>, Inl e) | (s2, Inr a) \<Rightarrow> (s2, Inr a))"
proof -
  have b: "run_sql (\<lambda>d now. Inr (d, ())) s = (s, Inr ())"
    using assms(1) by (simp add: run_sql_no_faults)
  obtain s2 r2 where body: "body s = (s2, r2)" by fastforce
  show ?thesis
  proof (cases r2)
    case (Inl e)
    then show ?thesis by (simp add: transact_def b body)
  next
    case (Inr a)
    then have "next_fault s2 = (NoFault, s2)" using assms(2) body by (simp add: next_fault_def)
    with Inr show ?thesis by (simp add: transact_def b body)
  qed
qed

lemma transact_frame:
  assumes "transact infra body s = (s', r)"
    and "\<And>s1 s2 r2. body s1 = (s2, r2) \<Longrightarrow> clock s2 = clock s1"
  shows "clock s' = clock s"
proof -
  obtain s1 r1 where b: "run_sql (\<lambda>d now. Inr (d, ())) s = (s1, r1)" by fastforce
  obtain s2 r2 where body: "body s1 = (s2, r2)" by fastforce
  obtain f s3 where nf: "next_fault s2 = (f, s3)" by fastforce
  show ?thesis
    using assms(1) run_sql_frame(1) [OF b] assms(2) [OF body] next_fault_db [OF nf] b body nf
    by (cases r1; cases r2; cases f) (auto simp: transact_def)
qed

lemma length_update_where [simp]: "length (update_where P f rows) = length rows"
  by (simp add: update_where_def)

lemma set_update_where: "set (update_where P f rows) = (\<lambda>r. if P r then f r else r) ` set rows"
  by (simp add: update_where_def)

lemma count_where_0: "count_where P rows = 0 \<longleftrightarrow> (\<forall>r \<in> set rows. \<not> P r)"
  by (auto simp: count_where_def filter_empty_conv)

lemma update_where_none: "(\<forall>r \<in> set rows. \<not> P r) \<Longrightarrow> update_where P f rows = rows"
  by (simp add: update_where_def map_idI)

lemma map_update_where: "(\<And>r. P r \<Longrightarrow> g (f r) = g r) \<Longrightarrow> map g (update_where P f rows) = map g rows"
  by (simp add: update_where_def)

lemma image_update_where:
  "(\<And>r. P r \<Longrightarrow> g (f r) = g r) \<Longrightarrow> g ` set (update_where P f rows) = g ` set rows"
  by (metis map_update_where set_map)

section \<open>Relating the database before and after\<close>

text \<open>
  \<open>conn_rel R f\<close>: whatever the faults, the operation \<open>f\<close> takes the database to one that is
  related by \<open>R\<close> to the one before. For a reflexive \<open>R\<close> it is enough to look at the
  statements.
\<close>

definition sql_rel :: "('db \<Rightarrow> 'db \<Rightarrow> bool) \<Rightarrow> ('db, 'a) sql \<Rightarrow> bool" where
  "sql_rel R q \<longleftrightarrow> (\<forall>d now d' a. q d now = Inr (d', a) \<longrightarrow> R d d')"

definition conn_rel :: "('db \<Rightarrow> 'db \<Rightarrow> bool) \<Rightarrow> ('db pg \<Rightarrow> 'db pg \<times> 'a) \<Rightarrow> bool" where
  "conn_rel R f \<longleftrightarrow> (\<forall>s. R (db s) (db (fst (f s))))"

lemma conn_relD: "conn_rel R f \<Longrightarrow> f s = (s', r) \<Longrightarrow> R (db s) (db s')"
  by (metis conn_rel_def fst_conv)

lemma conn_rel_run_sql:
  assumes "reflp R" and "sql_rel R q"
  shows "conn_rel R (run_sql q)"
  unfolding conn_rel_def
proof
  fix s
  obtain s' r where r: "run_sql q s = (s', r)" by fastforce
  from run_sql_db [OF r] assms show "R (db s) (db (fst (run_sql q s)))"
    unfolding r sql_rel_def by (simp, metis reflpD)
qed

lemma conn_rel_transact:
  assumes "reflp R" and "conn_rel R body"
  shows "conn_rel R (transact infra body)"
  unfolding conn_rel_def
proof
  fix s
  obtain s' r where r: "transact infra body s = (s', r)" by fastforce
  then show "R (db s) (db (fst (transact infra body s)))"
  proof (cases rule: transact_db)
    case (Done s1 s2 a)
    with conn_relD [OF assms(2) Done(5)] r show ?thesis by simp
  qed (use assms(1) r in \<open>auto simp: reflp_def\<close>)
qed

lemma sql_rel_select: "reflp R \<Longrightarrow> sql_rel R (select f)"
  by (auto simp: sql_rel_def select_def reflp_def)

lemma sql_rel_select_row: "reflp R \<Longrightarrow> sql_rel R (select_row f)"
  by (auto simp: sql_rel_def select_row_def reflp_def split: list.splits)

text \<open>How relations pass through the Go control flow: return, \<open>if\<close>, and \<open>if err != nil\<close>.\<close>

lemma conn_rel_return: "reflp R \<Longrightarrow> conn_rel R (\<lambda>s. (s, r s))"
  by (simp add: conn_rel_def reflp_def)

lemma conn_rel_if:
  "(b \<Longrightarrow> conn_rel R f) \<Longrightarrow> (\<not> b \<Longrightarrow> conn_rel R g) \<Longrightarrow> conn_rel R (\<lambda>s. if b then f s else g s)"
  by (simp add: conn_rel_def)

lemma conn_rel_bind:
  assumes "transp R" and "conn_rel R f" and "\<And>e. conn_rel R (h e)" and "\<And>a. conn_rel R (k a)"
  shows "conn_rel R (\<lambda>s. case f s of (s, Inl e) \<Rightarrow> h e s | (s, Inr a) \<Rightarrow> k a s)"
  unfolding conn_rel_def
proof
  fix s
  obtain s' r where f: "f s = (s', r)" by fastforce
  show "R (db s) (db (fst (case f s of (s, Inl e) \<Rightarrow> h e s | (s, Inr a) \<Rightarrow> k a s)))"
    using conn_relD [OF assms(2) f] assms(3,4) transpD [OF assms(1), of "db s" "db s'"]
    by (cases r) (auto simp: f conn_rel_def)
qed

lemma conn_rel_pair:
  assumes "conn_rel R f"
  shows "conn_rel R (\<lambda>s. case f s of (s, a) \<Rightarrow> (s, g a s))"
  using assms by (auto simp: conn_rel_def split: prod.splits dest: conn_relD) (metis fst_conv)

lemma conn_rel_case_prod: "(\<And>a b. conn_rel R (k a b)) \<Longrightarrow> conn_rel R (\<lambda>s. case p of (a, b) \<Rightarrow> k a b s)"
  by (simp add: conn_rel_def split: prod.splits)

lemma conn_rel_case_option:
  "conn_rel R f \<Longrightarrow> (\<And>a. conn_rel R (g a)) \<Longrightarrow> conn_rel R (\<lambda>s. case x of None \<Rightarrow> f s | Some a \<Rightarrow> g a s)"
  by (cases x) simp_all

lemmas conn_rel_rules = conn_rel_bind conn_rel_if conn_rel_case_prod conn_rel_case_option
  conn_rel_transact conn_rel_return conn_rel_pair

section \<open>Relating whole connections\<close>

text \<open>
  The same for relations that also look at the supply of generated ids. Such a relation must
  ignore the environment's script and survive a rollback.
\<close>

definition pg_rel :: "('db pg \<Rightarrow> 'db pg \<Rightarrow> bool) \<Rightarrow> ('db pg \<Rightarrow> 'db pg \<times> 'a) \<Rightarrow> bool" where
  "pg_rel R f \<longleftrightarrow> (\<forall>s. R s (fst (f s)))"

definition pg_preorder :: "('db pg \<Rightarrow> 'db pg \<Rightarrow> bool) \<Rightarrow> bool" where
  "pg_preorder R \<longleftrightarrow> transp R \<and> (\<forall>s fs. R s (s\<lparr>faults := fs\<rparr>)) \<and>
     (\<forall>s s'. R s s' \<longrightarrow> R s (s'\<lparr>db := db s\<rparr>))"

lemma pg_relD: "pg_rel R f \<Longrightarrow> f s = (s', r) \<Longrightarrow> R s s'"
  by (metis pg_rel_def fst_conv)

lemma pg_preorder_refl: "pg_preorder R \<Longrightarrow> R s s"
proof -
  assume "pg_preorder R"
  then have "R s (s\<lparr>faults := faults s\<rparr>)" by (simp only: pg_preorder_def)
  then show "R s s" by simp
qed

lemma pg_preorder_trans: "pg_preorder R \<Longrightarrow> R s t \<Longrightarrow> R t u \<Longrightarrow> R s u"
  unfolding pg_preorder_def by (elim conjE) (rule transpD)

lemma next_fault_only: "next_fault s = (f, s') \<Longrightarrow> s' = s\<lparr>faults := faults s'\<rparr>"
  by (cases "faults s") (auto simp: next_fault_def)

lemma next_fault_rel: "pg_preorder R \<Longrightarrow> next_fault s = (f, s') \<Longrightarrow> R s s'"
proof -
  assume R: "pg_preorder R" and nf: "next_fault s = (f, s')"
  have "R s (s\<lparr>faults := faults s'\<rparr>)" using R by (simp only: pg_preorder_def)
  then show "R s s'" by (simp only: next_fault_only [OF nf, symmetric])
qed

lemma run_sql_rel:
  assumes R: "pg_preorder R" and r: "run_sql q s = (s', r)"
    and q: "\<And>d a fs. q (db s) (clock s) = Inr (d, a) \<Longrightarrow> R s (s\<lparr>faults := fs, db := d\<rparr>)"
  shows "R s s'"
proof -
  obtain f s1 where nf: "next_fault s = (f, s1)" by fastforce
  have s1: "s1 = s\<lparr>faults := faults s1\<rparr>" by (rule next_fault_only [OF nf])
  have "R s s1" by (rule next_fault_rel [OF R nf])
  moreover have "R s (s1\<lparr>db := d\<rparr>)" if "q (db s) (clock s) = Inr (d, a)" for d a
    using q [OF that, of "faults s1"] s1 by metis
  moreover have "db s1 = db s" "clock s1 = clock s" using next_fault_db [OF nf] by auto
  ultimately show ?thesis
    using r nf by (cases f) (auto simp: run_sql_def split: sum.splits prod.splits)
qed

lemma pg_rel_run_sql:
  assumes "pg_preorder R"
    and "\<And>s d a fs. q (db s) (clock s) = Inr (d, a) \<Longrightarrow> R s (s\<lparr>faults := fs, db := d\<rparr>)"
  shows "pg_rel R (run_sql q)"
  unfolding pg_rel_def
proof
  fix s
  show "R s (fst (run_sql q s))"
    by (rule run_sql_rel [OF assms(1) prod.collapse [symmetric] assms(2)])
qed

lemma pg_rel_select:
  assumes "pg_preorder R"
  shows "pg_rel R (run_sql (select f))" "pg_rel R (run_sql (select_row g))"
  by (rule pg_rel_run_sql [OF assms]; use assms in \<open>auto simp: select_def select_row_def pg_preorder_def split: list.splits\<close>)+

lemma pg_rel_bind:
  assumes "pg_preorder R" and "pg_rel R f" and "\<And>e. pg_rel R (h e)" and "\<And>a. pg_rel R (k a)"
  shows "pg_rel R (\<lambda>s. case f s of (s, Inl e) \<Rightarrow> h e s | (s, Inr a) \<Rightarrow> k a s)"
  unfolding pg_rel_def
proof
  fix s
  obtain s' r where f: "f s = (s', r)" by fastforce
  show "R s (fst (case f s of (s, Inl e) \<Rightarrow> h e s | (s, Inr a) \<Rightarrow> k a s))"
    using pg_relD [OF assms(2) f] assms(3,4) pg_preorder_trans [OF assms(1), of s s']
    by (cases r) (auto simp: f pg_rel_def)
qed

lemma pg_rel_return: "pg_preorder R \<Longrightarrow> pg_rel R (\<lambda>s. (s, r s))"
  by (simp add: pg_rel_def pg_preorder_refl)

lemma pg_rel_if:
  "(b \<Longrightarrow> pg_rel R f) \<Longrightarrow> (\<not> b \<Longrightarrow> pg_rel R g) \<Longrightarrow> pg_rel R (\<lambda>s. if b then f s else g s)"
  by (simp add: pg_rel_def)

lemma transact_rel:
  assumes R: "pg_preorder R" and body: "\<And>s. R s (fst (body s))"
  shows "pg_rel R (transact infra body)"
  unfolding pg_rel_def
proof
  fix s
  have keep: "R s (t\<lparr>db := db s\<rparr>)" if "R s t" for t using R that by (simp add: pg_preorder_def)
  obtain s1 r1 where b: "run_sql (\<lambda>d now. Inr (d, ())) s = (s1, r1)" by fastforce
  have r1: "R s s1" by (rule run_sql_rel [OF R b]) (use R in \<open>auto simp: pg_preorder_def\<close>)
  obtain s2 r2 where bd: "body s1 = (s2, r2)" by fastforce
  have r2: "R s s2" using body [of s1] bd pg_preorder_trans [OF R r1] by simp
  obtain f s3 where nf: "next_fault s2 = (f, s3)" by fastforce
  have r3: "R s s3" by (rule pg_preorder_trans [OF R r2 next_fault_rel [OF R nf]])
  show "R s (fst (transact infra body s))"
    using b bd nf r1 keep [OF r2] r3 keep [OF r3]
    by (cases r1; cases r2; cases f) (auto simp: transact_def)
qed

lemmas pg_rel_rules = pg_rel_bind pg_rel_if pg_rel_return pg_rel_select transact_rel

end
