(* ===== verification/Identity_Db.thy ===== *)
theory Identity_Db
  imports Postgres
begin

text \<open>
  The identity schema of \<open>identity/migrate/migrations\<close>: the tables the repositories read and
  write, and the constraints the server checks on them. The statements of the repositories
  are in the theories of those repositories; what is here is the effect of an INSERT or an
  UPDATE on a table, with the violation it reports when a constraint fails.
\<close>

section \<open>Rows\<close>

record household_row =
  hh_id :: uuid
  hh_name :: string
  hh_created :: time
  hh_updated :: time

record member_row =
  m_id :: uuid
  m_household :: uuid
  m_name :: string
  m_role :: string
  m_email :: "string option"
  m_hash :: "string option"
  m_active :: bool
  m_created :: time
  m_updated :: time

record mfa_row =
  f_member :: uuid
  f_household :: uuid
  f_secret :: bytes
  f_confirmed :: "time option"
  f_step :: "int option"
  f_created :: time
  f_updated :: time

record code_row =
  c_id :: uuid
  c_member :: uuid
  c_hash :: string
  c_used :: "time option"
  c_created :: time

record passkey_row =
  k_id :: uuid
  k_household :: uuid
  k_member :: uuid
  k_credential_id :: bytes
  k_public_key :: bytes
  k_sign_count :: int
  k_transports :: "string list option"
  k_aaguid :: "uuid option"
  k_nickname :: string
  k_user_handle :: bytes
  k_created :: time
  k_last_used :: "time option"

text \<open>\<open>lower_fn\<close> is the server's \<open>lower()\<close> under the database's collation, which citext
  comparison uses too.\<close>

record identity_db =
  households :: "household_row list"
  members :: "member_row list"
  mfas :: "mfa_row list"
  codes :: "code_row list"
  passkeys :: "passkey_row list"
  lower_fn :: "string \<Rightarrow> string"

section \<open>SQLSTATE codes and constraint names\<close>

definition uniqueViolation :: string where "uniqueViolation = ''23505''"
definition foreignKeyViolation :: string where "foreignKeyViolation = ''23503''"
definition checkViolation :: string where "checkViolation = ''23514''"
definition memberEmailUnique :: string where "memberEmailUnique = ''member_email_unique''"
definition memberHouseholdNameUniq :: string where "memberHouseholdNameUniq = ''member_household_name_uniq''"
definition memberHouseholdFK :: string where "memberHouseholdFK = ''member_household_id_fkey''"
definition mfaMemberFK :: string where "mfaMemberFK = ''member_mfa_member_fk''"
definition mfaHouseholdFK :: string where "mfaHouseholdFK = ''member_mfa_household_id_fkey''"
definition mfaMemberPK :: string where "mfaMemberPK = ''member_mfa_pkey''"
definition webauthnCredentialHouseholdFK :: string where
  "webauthnCredentialHouseholdFK = ''member_credential_household_id_fkey''"
definition webauthnCredentialMemberFK :: string where
  "webauthnCredentialMemberFK = ''member_credential_member_fk''"
definition webauthnCredentialIDUnique :: string where
  "webauthnCredentialIDUnique = ''member_credential_credential_id_key''"

lemmas constraint_names = uniqueViolation_def foreignKeyViolation_def checkViolation_def
  memberEmailUnique_def memberHouseholdNameUniq_def memberHouseholdFK_def mfaMemberFK_def
  mfaHouseholdFK_def mfaMemberPK_def webauthnCredentialHouseholdFK_def
  webauthnCredentialMemberFK_def webauthnCredentialIDUnique_def

section \<open>Table constraints\<close>

definition role_check :: "string \<Rightarrow> bool" where
  "role_check r \<longleftrightarrow> r \<in> {''owner'', ''adult'', ''child''}"

definition name_key :: "(string \<Rightarrow> string) \<Rightarrow> member_row \<Rightarrow> uuid \<times> string" where
  "name_key low m = (m_household m, low (m_name m))"

definition emails :: "(string \<Rightarrow> string) \<Rightarrow> member_row list \<Rightarrow> string list" where
  "emails low ms = map low (List.map_filter m_email ms)"

definition household_exists :: "identity_db \<Rightarrow> uuid \<Rightarrow> bool" where
  "household_exists d h \<longleftrightarrow> list_ex (\<lambda>r. hh_id r = h) (households d)"

definition member_in :: "identity_db \<Rightarrow> uuid \<Rightarrow> uuid \<Rightarrow> bool" where
  "member_in d h m \<longleftrightarrow> list_ex (\<lambda>r. m_id r = m \<and> m_household r = h) (members d)"

definition insert_household :: "household_row \<Rightarrow> identity_db \<Rightarrow> pg_error + identity_db" where
  "insert_household r d =
     (if household_exists d (hh_id r) then Inl (PgError uniqueViolation ''household_pkey'')
      else Inr (d\<lparr>households := households d @ [r]\<rparr>))"

text \<open>Replacing the member table, if the new contents satisfy its constraints.\<close>

definition put_members :: "member_row list \<Rightarrow> identity_db \<Rightarrow> pg_error + identity_db" where
  "put_members ms d =
     (if \<not> list_all (\<lambda>m. role_check (m_role m)) ms then Inl (PgError checkViolation ''member_role_check'')
      else if \<not> list_all (\<lambda>m. (m_email m = None) = (m_hash m = None)) ms
      then Inl (PgError checkViolation ''member_credentials_complete'')
      else if \<not> distinct (map m_id ms) then Inl (PgError uniqueViolation ''member_pkey'')
      else if \<not> distinct (emails (lower_fn d) ms) then Inl (PgError uniqueViolation memberEmailUnique)
      else if \<not> distinct (map (name_key (lower_fn d)) ms)
      then Inl (PgError uniqueViolation memberHouseholdNameUniq)
      else if \<not> list_all (\<lambda>m. household_exists d (m_household m)) ms
      then Inl (PgError foreignKeyViolation memberHouseholdFK)
      else Inr (d\<lparr>members := ms\<rparr>))"

definition insert_mfa :: "mfa_row \<Rightarrow> identity_db \<Rightarrow> pg_error + identity_db" where
  "insert_mfa r d =
     (if f_secret r = [] then Inl (PgError checkViolation ''member_mfa_totp_secret_enc_check'')
      else if f_member r \<in> set (map f_member (mfas d)) then Inl (PgError uniqueViolation mfaMemberPK)
      else if \<not> household_exists d (f_household r) then Inl (PgError foreignKeyViolation mfaHouseholdFK)
      else if \<not> member_in d (f_household r) (f_member r) then Inl (PgError foreignKeyViolation mfaMemberFK)
      else Inr (d\<lparr>mfas := mfas d @ [r]\<rparr>))"

definition update_mfas :: "(mfa_row \<Rightarrow> bool) \<Rightarrow> (mfa_row \<Rightarrow> mfa_row) \<Rightarrow> identity_db \<Rightarrow> pg_error + identity_db \<times> nat" where
  "update_mfas P f d =
     (let rows = update_where P f (mfas d)
      in if \<not> list_all (\<lambda>r. f_secret r \<noteq> []) rows
         then Inl (PgError checkViolation ''member_mfa_totp_secret_enc_check'')
         else Inr (d\<lparr>mfas := rows\<rparr>, count_where P (mfas d)))"

text \<open>Deleting an enrollment cascades to its recovery codes.\<close>

definition delete_mfas :: "(mfa_row \<Rightarrow> bool) \<Rightarrow> identity_db \<Rightarrow> identity_db \<times> nat" where
  "delete_mfas P d =
     (let gone = map f_member (filter P (mfas d))
      in (d\<lparr>mfas := delete_where P (mfas d),
            codes := delete_where (\<lambda>c. c_member c \<in> set gone) (codes d)\<rparr>,
          count_where P (mfas d)))"

definition insert_code :: "code_row \<Rightarrow> identity_db \<Rightarrow> pg_error + identity_db" where
  "insert_code r d =
     (if c_id r \<in> set (map c_id (codes d)) then Inl (PgError uniqueViolation ''member_recovery_code_pkey'')
      else if c_member r \<notin> set (map f_member (mfas d))
      then Inl (PgError foreignKeyViolation ''member_recovery_code_member_id_fkey'')
      else Inr (d\<lparr>codes := codes d @ [r]\<rparr>))"

definition insert_passkey :: "passkey_row \<Rightarrow> identity_db \<Rightarrow> pg_error + identity_db" where
  "insert_passkey r d =
     (if k_id r \<in> set (map k_id (passkeys d)) then Inl (PgError uniqueViolation ''member_credential_pkey'')
      else if k_credential_id r \<in> set (map k_credential_id (passkeys d))
      then Inl (PgError uniqueViolation webauthnCredentialIDUnique)
      else if \<not> household_exists d (k_household r)
      then Inl (PgError foreignKeyViolation webauthnCredentialHouseholdFK)
      else if \<not> member_in d (k_household r) (k_member r)
      then Inl (PgError foreignKeyViolation webauthnCredentialMemberFK)
      else Inr (d\<lparr>passkeys := passkeys d @ [r]\<rparr>))"

section \<open>What the constraints guarantee\<close>

definition members_ok :: "identity_db \<Rightarrow> bool" where
  "members_ok d \<longleftrightarrow>
     (\<forall>m \<in> set (members d). role_check (m_role m)) \<and>
     (\<forall>m \<in> set (members d). (m_email m = None) = (m_hash m = None)) \<and>
     distinct (map m_id (members d)) \<and>
     distinct (emails (lower_fn d) (members d)) \<and>
     distinct (map (name_key (lower_fn d)) (members d)) \<and>
     (\<forall>m \<in> set (members d). household_exists d (m_household m))"

definition mfas_ok :: "identity_db \<Rightarrow> bool" where
  "mfas_ok d \<longleftrightarrow>
     distinct (map f_member (mfas d)) \<and> (\<forall>r \<in> set (mfas d). f_secret r \<noteq> []) \<and>
     (\<forall>r \<in> set (mfas d). member_in d (f_household r) (f_member r))"

definition codes_ok :: "identity_db \<Rightarrow> bool" where
  "codes_ok d \<longleftrightarrow>
     distinct (map c_id (codes d)) \<and> (\<forall>r \<in> set (codes d). c_member r \<in> f_member ` set (mfas d))"

definition passkeys_ok :: "identity_db \<Rightarrow> bool" where
  "passkeys_ok d \<longleftrightarrow>
     distinct (map k_id (passkeys d)) \<and> distinct (map k_credential_id (passkeys d)) \<and>
     (\<forall>r \<in> set (passkeys d). member_in d (k_household r) (k_member r))"

definition db_ok :: "identity_db \<Rightarrow> bool" where
  "db_ok d \<longleftrightarrow>
     distinct (map hh_id (households d)) \<and> members_ok d \<and> mfas_ok d \<and> codes_ok d \<and> passkeys_ok d"

lemma household_exists_iff: "household_exists d h \<longleftrightarrow> h \<in> hh_id ` set (households d)"
  by (auto simp: household_exists_def list_ex_iff)

lemma member_in_iff: "member_in d h m \<longleftrightarrow> (m, h) \<in> (\<lambda>r. (m_id r, m_household r)) ` set (members d)"
  by (auto simp: member_in_def list_ex_iff)

lemma insert_household_ok [invariants]:
  assumes "db_ok d" and "insert_household r d = Inr d'"
  shows "db_ok d'"
proof -
  have d': "d' = d\<lparr>households := households d @ [r]\<rparr>" "hh_id r \<notin> hh_id ` set (households d)"
    using assms(2) by (auto simp: insert_household_def household_exists_iff split: if_splits)
  then show ?thesis
    using assms(1)
    by (simp add: db_ok_def members_ok_def mfas_ok_def codes_ok_def passkeys_ok_def
        member_in_iff household_exists_iff)
qed

lemma put_members_ok [invariants]:
  assumes "db_ok d" and "put_members ms d = Inr d'"
    and "(\<lambda>r. (m_id r, m_household r)) ` set (members d) \<subseteq> (\<lambda>r. (m_id r, m_household r)) ` set ms"
  shows "db_ok d'"
proof -
  have d': "d' = d\<lparr>members := ms\<rparr>" and ok': "members_ok d'"
    using assms(2) by (auto simp: put_members_def members_ok_def list_all_iff household_exists_iff split: if_splits)
  have "member_in d' h m" if "member_in d h m" for h m
    using that assms(3) by (auto simp: member_in_iff d')
  then show ?thesis
    using assms(1) ok' by (auto simp: db_ok_def mfas_ok_def codes_ok_def passkeys_ok_def d')
qed

lemma insert_mfa_ok [invariants]:
  assumes "db_ok d" and "insert_mfa r d = Inr d'"
  shows "db_ok d'"
proof -
  have "d' = d\<lparr>mfas := mfas d @ [r]\<rparr>" "f_member r \<notin> f_member ` set (mfas d)"
      "member_in d (f_household r) (f_member r)" "f_secret r \<noteq> []"
    using assms(2) by (auto simp: insert_mfa_def split: if_splits)
  then show ?thesis
    using assms(1)
    by (auto simp: db_ok_def members_ok_def mfas_ok_def codes_ok_def passkeys_ok_def
        member_in_iff household_exists_iff)
qed

lemma update_mfas_ok [invariants]:
  assumes d: "db_ok d" and u: "update_mfas P f d = Inr (d', n)"
    and f: "\<And>r. P r \<Longrightarrow> f_member (f r) = f_member r \<and> f_household (f r) = f_household r"
  shows "db_ok d'"
proof -
  have d': "d' = d\<lparr>mfas := update_where P f (mfas d)\<rparr>"
      and secrets: "\<forall>r \<in> set (update_where P f (mfas d)). f_secret r \<noteq> []"
    using u by (auto simp: update_mfas_def Let_def list_all_iff split: if_splits)
  have mem: "map f_member (update_where P f (mfas d)) = map f_member (mfas d)"
    using f by (simp add: map_update_where)
  then have set: "f_member ` set (update_where P f (mfas d)) = f_member ` set (mfas d)"
    by (metis set_map)
  have "member_in d (f_household r) (f_member r)" if "r \<in> set (update_where P f (mfas d))" for r
    using that d f by (auto simp: set_update_where db_ok_def mfas_ok_def split: if_splits)
  then show ?thesis
    using d mem set secrets
    by (simp add: d' db_ok_def members_ok_def mfas_ok_def codes_ok_def passkeys_ok_def
        member_in_iff household_exists_iff)
qed

lemma delete_mfas_ok [invariants]:
  assumes "db_ok d" and "delete_mfas P d = (d', n)"
  shows "db_ok d'"
proof -
  have d': "d' = d\<lparr>mfas := delete_where P (mfas d),
      codes := delete_where (\<lambda>c. c_member c \<in> f_member ` set (filter P (mfas d))) (codes d)\<rparr>"
    using assms(2) by (simp add: delete_mfas_def Let_def)
  have "c_member c \<in> f_member ` set (delete_where P (mfas d))"
    if "c \<in> set (codes d)" "c_member c \<notin> f_member ` set (filter P (mfas d))" for c
    using that assms(1) by (force simp: db_ok_def codes_ok_def delete_where_def)
  then have "codes_ok d'"
    using assms(1) by (auto simp: d' db_ok_def codes_ok_def delete_where_def distinct_map_filter)
  moreover have "mfas_ok d'"
    using assms(1) by (auto simp: d' db_ok_def mfas_ok_def delete_where_def distinct_map_filter member_in_iff)
  ultimately show ?thesis
    using assms(1)
    by (simp add: d' db_ok_def members_ok_def passkeys_ok_def member_in_iff household_exists_iff)
qed

lemma insert_code_ok [invariants]:
  assumes "db_ok d" and "insert_code r d = Inr d'"
  shows "db_ok d'"
proof -
  have "d' = d\<lparr>codes := codes d @ [r]\<rparr>" "c_id r \<notin> c_id ` set (codes d)" "c_member r \<in> f_member ` set (mfas d)"
    using assms(2) by (auto simp: insert_code_def split: if_splits)
  then show ?thesis
    using assms(1)
    by (auto simp: db_ok_def members_ok_def mfas_ok_def codes_ok_def passkeys_ok_def
        member_in_iff household_exists_iff)
qed

lemma insert_passkey_ok [invariants]:
  assumes "db_ok d" and "insert_passkey r d = Inr d'"
  shows "db_ok d'"
proof -
  have "d' = d\<lparr>passkeys := passkeys d @ [r]\<rparr>" "k_id r \<notin> k_id ` set (passkeys d)"
      "k_credential_id r \<notin> k_credential_id ` set (passkeys d)" "member_in d (k_household r) (k_member r)"
    using assms(2) by (auto simp: insert_passkey_def split: if_splits)
  then show ?thesis
    using assms(1)
    by (auto simp: db_ok_def members_ok_def mfas_ok_def codes_ok_def passkeys_ok_def
        member_in_iff household_exists_iff)
qed

text \<open>A table whose rows are changed in their payload only.\<close>

lemma update_codes_ok [invariants]:
  assumes d: "db_ok d" and f: "\<And>r. c_id (f r) = c_id r \<and> c_member (f r) = c_member r"
  shows "db_ok (d\<lparr>codes := update_where P f (codes d)\<rparr>)"
proof -
  have "map c_id (update_where P f (codes d)) = map c_id (codes d)"
    using f by (simp add: map_update_where)
  moreover have "c_member r \<in> f_member ` set (mfas d)" if "r \<in> set (update_where P f (codes d))" for r
    using that d f by (auto simp: set_update_where db_ok_def codes_ok_def split: if_splits)
  ultimately show ?thesis
    using d by (simp add: db_ok_def members_ok_def mfas_ok_def codes_ok_def passkeys_ok_def
        member_in_iff household_exists_iff)
qed

lemma delete_codes_ok [invariants]:
  "db_ok d \<Longrightarrow> db_ok (d\<lparr>codes := delete_where P (codes d)\<rparr>)"
  by (auto simp: db_ok_def members_ok_def mfas_ok_def codes_ok_def passkeys_ok_def delete_where_def
      distinct_map_filter member_in_iff household_exists_iff)

lemma update_passkeys_ok [invariants]:
  assumes d: "db_ok d"
    and f: "\<And>r. k_id (f r) = k_id r \<and> k_credential_id (f r) = k_credential_id r \<and>
                 k_household (f r) = k_household r \<and> k_member (f r) = k_member r"
  shows "db_ok (d\<lparr>passkeys := update_where P f (passkeys d)\<rparr>)"
proof -
  have "map k_id (update_where P f (passkeys d)) = map k_id (passkeys d)"
      "map k_credential_id (update_where P f (passkeys d)) = map k_credential_id (passkeys d)"
    using f by (simp_all add: map_update_where)
  moreover have "member_in d (k_household r) (k_member r)" if "r \<in> set (update_where P f (passkeys d))" for r
    using that d f by (auto simp: set_update_where db_ok_def passkeys_ok_def split: if_splits)
  ultimately show ?thesis
    using d by (simp add: db_ok_def members_ok_def mfas_ok_def codes_ok_def passkeys_ok_def
        member_in_iff household_exists_iff)
qed

lemma delete_passkeys_ok [invariants]:
  "db_ok d \<Longrightarrow> db_ok (d\<lparr>passkeys := delete_where P (passkeys d)\<rparr>)"
  by (auto simp: db_ok_def members_ok_def mfas_ok_def codes_ok_def passkeys_ok_def delete_where_def
      distinct_map_filter member_in_iff household_exists_iff)

definition empty_db :: "(string \<Rightarrow> string) \<Rightarrow> identity_db" where
  "empty_db low = \<lparr>households = [], members = [], mfas = [], codes = [], passkeys = [], lower_fn = low\<rparr>"

lemma empty_db_ok: "db_ok (empty_db low)"
  by (simp add: empty_db_def db_ok_def members_ok_def mfas_ok_def codes_ok_def passkeys_ok_def
      emails_def List.map_filter_def)

end
