(* ===== verification/Identity_Domain.thy ===== *)
theory Identity_Domain
  imports Prelude
begin

text \<open>
  The identity domain of \<open>identity/domain\<close>: ids, roles, households, members, credentials, MFA
  enrollments and recovery codes, and the sentinel errors of its ports. A Go error is one
  of the sentinels (which the callers recognise with \<open>errors.Is\<close>, through any wrapping) or
  something else, \<open>ErrOther\<close>.
\<close>

section \<open>Errors\<close>

datatype id_error =
    ErrHouseholdNotFound
  | ErrMemberNotFound
  | ErrDuplicateMember
  | ErrLastActiveOwner
  | ErrInvalidCredentials
  | ErrEmailAlreadyInUse
  | ErrMFAAlreadyEnrolled
  | ErrMFANotEnrolled
  | ErrInvalidTOTPCode
  | ErrRecoveryCodeInvalid
  | ErrMFAVerificationRequired
  | ErrWebAuthnCredentialNotFound
  | ErrWebAuthnVerificationFailed
  | ErrWebAuthnCredentialExists
  | ErrOther

section \<open>Ids\<close>

text \<open>The id types are UUIDs. Formatting one and parsing the text gives it back, so the text
  forms that cross the driver are left out; parsing anything else fails.\<close>

datatype household_id = HouseholdID uuid
datatype member_id = MemberID uuid
datatype recovery_code_id = RecoveryCodeID uuid
datatype webauthn_credential_id = WebAuthnCredentialID uuid

fun hid :: "household_id \<Rightarrow> uuid" where "hid (HouseholdID u) = u"
fun mid :: "member_id \<Rightarrow> uuid" where "mid (MemberID u) = u"
fun rid :: "recovery_code_id \<Rightarrow> uuid" where "rid (RecoveryCodeID u) = u"
fun wid :: "webauthn_credential_id \<Rightarrow> uuid" where "wid (WebAuthnCredentialID u) = u"

definition parse_id :: "(uuid \<Rightarrow> 'i) \<Rightarrow> (string \<Rightarrow> uuid option) \<Rightarrow> string \<Rightarrow> id_error + 'i" where
  "parse_id mk uuid_parse s = (case uuid_parse s of None \<Rightarrow> Inl ErrOther | Some u \<Rightarrow> Inr (mk u))"

definition ParseHouseholdID :: "(string \<Rightarrow> uuid option) \<Rightarrow> string \<Rightarrow> id_error + household_id" where
  "ParseHouseholdID = parse_id HouseholdID"

definition ParseMemberID :: "(string \<Rightarrow> uuid option) \<Rightarrow> string \<Rightarrow> id_error + member_id" where
  "ParseMemberID = parse_id MemberID"

definition ParseRecoveryCodeID :: "(string \<Rightarrow> uuid option) \<Rightarrow> string \<Rightarrow> id_error + recovery_code_id" where
  "ParseRecoveryCodeID = parse_id RecoveryCodeID"

definition ParseWebAuthnCredentialID ::
    "(string \<Rightarrow> uuid option) \<Rightarrow> string \<Rightarrow> id_error + webauthn_credential_id" where
  "ParseWebAuthnCredentialID = parse_id WebAuthnCredentialID"

lemma hid_eq_iff [simp]: "hid a = hid b \<longleftrightarrow> a = b" by (cases a; cases b) simp
lemma mid_eq_iff [simp]: "mid a = mid b \<longleftrightarrow> a = b" by (cases a; cases b) simp
lemma rid_eq_iff [simp]: "rid a = rid b \<longleftrightarrow> a = b" by (cases a; cases b) simp
lemma wid_eq_iff [simp]: "wid a = wid b \<longleftrightarrow> a = b" by (cases a; cases b) simp

section \<open>Roles\<close>

type_synonym role = string

definition RoleOwner :: role where "RoleOwner = ''owner''"
definition RoleAdult :: role where "RoleAdult = ''adult''"
definition RoleChild :: role where "RoleChild = ''child''"

lemmas roles = RoleOwner_def RoleAdult_def RoleChild_def

definition Valid_role :: "role \<Rightarrow> bool" where
  "Valid_role r \<longleftrightarrow> r = RoleOwner \<or> r = RoleAdult \<or> r = RoleChild"

definition CanAdminister :: "role \<Rightarrow> bool" where
  "CanAdminister r \<longleftrightarrow> r = RoleOwner \<or> r = RoleAdult"

definition ParseRole :: "string \<Rightarrow> id_error + role" where
  "ParseRole s = (if \<not> Valid_role s then Inl ErrOther else Inr s)"

section \<open>Entities\<close>

record household =
  household_id :: household_id
  household_name :: string
  household_created :: time
  household_updated :: time

record member =
  member_id :: member_id
  member_household :: household_id
  member_name :: string
  member_role :: role
  member_active :: bool
  member_created :: time
  member_updated :: time

record credential =
  cred_member :: member_id
  cred_hash :: string

record mfa_enrollment =
  enr_member :: member_id
  enr_household :: household_id
  enr_secret :: bytes
  enr_confirmed_at :: "time option"
  enr_last_step :: "int option"
  enr_created :: time
  enr_updated :: time

definition Confirmed :: "mfa_enrollment option \<Rightarrow> bool" where
  "Confirmed e = (case e of None \<Rightarrow> False | Some e \<Rightarrow> enr_confirmed_at e \<noteq> None)"

record recovery_code =
  rc_id :: recovery_code_id
  rc_member :: member_id
  rc_hash :: string
  rc_used_at :: "time option"
  rc_created :: time

definition Used :: "recovery_code \<Rightarrow> bool" where
  "Used c \<longleftrightarrow> rc_used_at c \<noteq> None"

end
