(* ===== verification/Member_Store.thy ===== *)
theory Member_Store
  imports Identity_Db Identity_Domain
begin

text \<open>
  The household, member and credential repositories of \<open>identity/adapter\<close>
  (\<open>household_postgres.go\<close>, \<open>member_postgres.go\<close>, \<open>credential_postgres.go\<close>): every method, as
  a function of the connection, with its statements over the schema of \<open>Identity_Db\<close>.

  The theory proves that the methods keep the schema's constraints and, whatever faults the
  connection has, every household's active owner; that the profile update does exactly what
  its port promises on every branch; and that a stored credential is found by its email
  exactly while its member is active.
\<close>

type_synonym conn = "identity_db pg"

section \<open>Households\<close>

definition sql_insert_household :: "uuid \<Rightarrow> string \<Rightarrow> (identity_db, time \<times> time) sql" where
  "sql_insert_household i name d now =
     (case insert_household \<lparr>hh_id = i, hh_name = name, hh_created = now, hh_updated = now\<rparr> d of
        Inl e \<Rightarrow> Inl e | Inr d \<Rightarrow> Inr (d, now, now))"

definition CreateHousehold :: "household option \<Rightarrow> conn \<Rightarrow> conn \<times> (id_error + household)" where
  "CreateHousehold ho s =
     (case ho of None \<Rightarrow> (s, Inl ErrOther)
      | Some h \<Rightarrow>
          (case run_sql (sql_insert_household (hid (household_id h)) (household_name h)) s of
             (s, Inl _) \<Rightarrow> (s, Inl ErrOther)
           | (s, Inr (created, updated)) \<Rightarrow>
               (s, Inr (h\<lparr>household_created := created, household_updated := updated\<rparr>))))"

definition GetHousehold :: "household_id \<Rightarrow> conn \<Rightarrow> conn \<times> (id_error + household)" where
  "GetHousehold i s =
     (case run_sql (select_row (\<lambda>d. filter (\<lambda>r. hh_id r = hid i) (households d))) s of
        (s, Inl e) \<Rightarrow> (s, Inl (if e = ErrNoRows then ErrHouseholdNotFound else ErrOther))
      | (s, Inr r) \<Rightarrow>
          (s, Inr \<lparr>household_id = HouseholdID (hh_id r), household_name = hh_name r,
                  household_created = hh_created r, household_updated = hh_updated r\<rparr>))"

section \<open>Members\<close>

definition sql_insert_member ::
    "uuid \<Rightarrow> uuid \<Rightarrow> string \<Rightarrow> string \<Rightarrow> (identity_db, bool \<times> time \<times> time) sql" where
  "sql_insert_member i h name role d now =
     (case put_members (members d @
        [\<lparr>m_id = i, m_household = h, m_name = name, m_role = role, m_email = None, m_hash = None,
          m_active = True, m_created = now, m_updated = now\<rparr>]) d of
        Inl e \<Rightarrow> Inl e | Inr d \<Rightarrow> Inr (d, True, now, now))"

definition CreateMember :: "member option \<Rightarrow> conn \<Rightarrow> conn \<times> (id_error + member)" where
  "CreateMember mo s =
     (case mo of None \<Rightarrow> (s, Inl ErrOther)
      | Some m \<Rightarrow>
          if \<not> Valid_role (member_role m) then (s, Inl ErrOther)
          else case run_sql (sql_insert_member (mid (member_id m)) (hid (member_household m))
                 (member_name m) (member_role m)) s of
             (s, Inl e) \<Rightarrow>
               (s, Inl (if is_violation e uniqueViolation memberHouseholdNameUniq then ErrDuplicateMember
                        else if is_violation e foreignKeyViolation memberHouseholdFK then ErrHouseholdNotFound
                        else ErrOther))
           | (s, Inr (active, created, updated)) \<Rightarrow>
               (s, Inr (m\<lparr>member_active := active, member_created := created, member_updated := updated\<rparr>)))"

definition scanMember :: "member_row \<Rightarrow> id_error + member" where
  "scanMember r =
     (case ParseRole (m_role r) of
        Inl e \<Rightarrow> Inl e
      | Inr role \<Rightarrow>
          Inr \<lparr>member_id = MemberID (m_id r), member_household = HouseholdID (m_household r),
               member_name = m_name r, member_role = role, member_active = m_active r,
               member_created = m_created r, member_updated = m_updated r\<rparr>)"

definition GetMember :: "member_id \<Rightarrow> conn \<Rightarrow> conn \<times> (id_error + member)" where
  "GetMember i s =
     (case run_sql (select_row (\<lambda>d. filter (\<lambda>r. m_id r = mid i) (members d))) s of
        (s, Inl e) \<Rightarrow> (s, Inl (if e = ErrNoRows then ErrMemberNotFound else ErrOther))
      | (s, Inr r) \<Rightarrow> (s, case scanMember r of Inl _ \<Rightarrow> Inl ErrOther | Inr m \<Rightarrow> Inr m))"

fun scan_all :: "member_row list \<Rightarrow> id_error + member list" where
  "scan_all [] = Inr []"
| "scan_all (r # rs) =
     (case scanMember r of Inl _ \<Rightarrow> Inl ErrOther
      | Inr m \<Rightarrow> (case scan_all rs of Inl e \<Rightarrow> Inl e | Inr ms \<Rightarrow> Inr (m # ms)))"

definition ListMembers :: "household_id \<Rightarrow> conn \<Rightarrow> conn \<times> (id_error + member list)" where
  "ListMembers h s =
     (case run_sql (select (\<lambda>d. sort_key (\<lambda>r. (m_created r, m_id r))
              (filter (\<lambda>r. m_household r = hid h) (members d)))) s of
        (s, Inl _) \<Rightarrow> (s, Inl ErrOther)
      | (s, Inr rows) \<Rightarrow> (s, scan_all rows))"

text \<open>The advisory lock is its own statement; it serialises transactions and reads and writes
  nothing.\<close>

definition lockHousehold :: "household_id \<Rightarrow> conn \<Rightarrow> conn \<times> (pg_error + unit)" where
  "lockHousehold h s = run_sql (\<lambda>d now. Inr (d, ())) s"

text \<open>\<open>lastActiveOwnerGuardSQL\<close>: no other member of the household is an active owner.\<close>

definition last_active_owner_guard :: "identity_db \<Rightarrow> uuid \<Rightarrow> uuid \<Rightarrow> bool" where
  "last_active_owner_guard d i h \<longleftrightarrow>
     \<not> list_ex (\<lambda>other. m_household other = h \<and> m_id other \<noteq> i \<and> m_role other = ''owner'' \<and> m_active other)
         (members d)"

definition sql_update_profile :: "uuid \<Rightarrow> uuid \<Rightarrow> string \<Rightarrow> string \<Rightarrow> (identity_db, nat) sql" where
  "sql_update_profile i h name role d now =
     (let P = (\<lambda>m. m_id m = i \<and> m_household m = h \<and>
                \<not> (m_role m = ''owner'' \<and> m_active m \<and> role \<noteq> ''owner'' \<and> last_active_owner_guard d i h))
      in case put_members (update_where P (\<lambda>m. m\<lparr>m_name := name, m_role := role, m_updated := now\<rparr>) (members d)) d of
           Inl e \<Rightarrow> Inl e | Inr d' \<Rightarrow> Inr (d', count_where P (members d)))"

definition sql_set_active :: "uuid \<Rightarrow> uuid \<Rightarrow> bool \<Rightarrow> (identity_db, nat) sql" where
  "sql_set_active i h active d now =
     (let P = (\<lambda>m. m_id m = i \<and> m_household m = h \<and>
                \<not> (active = False \<and> m_role m = ''owner'' \<and> m_active m \<and> last_active_owner_guard d i h))
      in case put_members (update_where P (\<lambda>m. m\<lparr>m_active := active, m_updated := now\<rparr>) (members d)) d of
           Inl e \<Rightarrow> Inl e | Inr d' \<Rightarrow> Inr (d', count_where P (members d)))"

definition memberWriteFailureReason :: "household_id \<Rightarrow> member_id \<Rightarrow> conn \<Rightarrow> conn \<times> id_error" where
  "memberWriteFailureReason h i s =
     (case run_sql (select_row (\<lambda>d. filter (\<lambda>r. m_id r = mid i \<and> m_household r = hid h) (members d))) s of
        (s, Inl e) \<Rightarrow> (s, if e = ErrNoRows then ErrMemberNotFound else ErrOther)
      | (s, Inr _) \<Rightarrow> (s, ErrLastActiveOwner))"

text \<open>The bodies between \<open>Begin\<close> and \<open>Commit\<close>.\<close>

definition update_profile_tx :: "household_id \<Rightarrow> member_id \<Rightarrow> string \<Rightarrow> role \<Rightarrow> conn \<Rightarrow> conn \<times> (id_error + unit)" where
  "update_profile_tx h i name role s =
     (case lockHousehold h s of
        (s, Inl _) \<Rightarrow> (s, Inl ErrOther)
      | (s, Inr _) \<Rightarrow>
          (case run_sql (sql_update_profile (mid i) (hid h) name role) s of
             (s, Inl e) \<Rightarrow>
               (s, Inl (if is_violation e uniqueViolation memberHouseholdNameUniq then ErrDuplicateMember
                        else ErrOther))
           | (s, Inr n) \<Rightarrow>
               if n = 0 then (case memberWriteFailureReason h i s of (s, e) \<Rightarrow> (s, Inl e))
               else (s, Inr ())))"

definition UpdateMemberProfile ::
    "household_id \<Rightarrow> member_id \<Rightarrow> string \<Rightarrow> role \<Rightarrow> conn \<Rightarrow> conn \<times> (id_error + unit)" where
  "UpdateMemberProfile h i name role s =
     (if \<not> Valid_role role then (s, Inl ErrOther)
      else transact ErrOther (update_profile_tx h i name role) s)"

definition set_active_tx :: "household_id \<Rightarrow> member_id \<Rightarrow> bool \<Rightarrow> conn \<Rightarrow> conn \<times> (id_error + unit)" where
  "set_active_tx h i active s =
     (case lockHousehold h s of
        (s, Inl _) \<Rightarrow> (s, Inl ErrOther)
      | (s, Inr _) \<Rightarrow>
          (case run_sql (sql_set_active (mid i) (hid h) active) s of
             (s, Inl _) \<Rightarrow> (s, Inl ErrOther)
           | (s, Inr n) \<Rightarrow>
               if n = 0 then (case memberWriteFailureReason h i s of (s, e) \<Rightarrow> (s, Inl e))
               else (s, Inr ())))"

definition SetMemberActive :: "household_id \<Rightarrow> member_id \<Rightarrow> bool \<Rightarrow> conn \<Rightarrow> conn \<times> (id_error + unit)" where
  "SetMemberActive h i active s = transact ErrOther (set_active_tx h i active) s"

section \<open>Credentials\<close>

definition email_eq :: "identity_db \<Rightarrow> string \<Rightarrow> string \<Rightarrow> bool" where
  "email_eq d a b \<longleftrightarrow> lower_fn d a = lower_fn d b"

definition sql_find_by_email :: "string \<Rightarrow> identity_db \<Rightarrow> (uuid \<times> string) list" where
  "sql_find_by_email email d =
     map (\<lambda>m. (m_id m, the (m_hash m)))
       (filter (\<lambda>m. (case m_email m of None \<Rightarrow> False | Some e \<Rightarrow> email_eq d e email) \<and>
                    m_hash m \<noteq> None \<and> m_active m) (members d))"

definition FindByEmail :: "string \<Rightarrow> conn \<Rightarrow> conn \<times> (id_error + credential)" where
  "FindByEmail email s =
     (case run_sql (select_row (sql_find_by_email email)) s of
        (s, Inl e) \<Rightarrow> (s, Inl (if e = ErrNoRows then ErrInvalidCredentials else ErrOther))
      | (s, Inr (i, h)) \<Rightarrow> (s, Inr \<lparr>cred_member = MemberID i, cred_hash = h\<rparr>))"

definition sql_set_credential :: "uuid \<Rightarrow> string \<Rightarrow> string \<Rightarrow> (identity_db, nat) sql" where
  "sql_set_credential i email hash d now =
     (let P = (\<lambda>m. m_id m = i)
      in case put_members (update_where P (\<lambda>m. m\<lparr>m_email := Some email, m_hash := Some hash, m_updated := now\<rparr>)
                (members d)) d of
           Inl e \<Rightarrow> Inl e | Inr d' \<Rightarrow> Inr (d', count_where P (members d)))"

definition SetCredential :: "member_id \<Rightarrow> string \<Rightarrow> string \<Rightarrow> conn \<Rightarrow> conn \<times> (id_error + unit)" where
  "SetCredential i email hash s =
     (case run_sql (sql_set_credential (mid i) email hash) s of
        (s, Inl e) \<Rightarrow>
          (s, Inl (if is_violation e uniqueViolation memberEmailUnique then ErrEmailAlreadyInUse else ErrOther))
      | (s, Inr n) \<Rightarrow> (s, if n = 0 then Inl ErrMemberNotFound else Inr ()))"

section \<open>Calls\<close>

datatype member_call =
    Create_household "household option"
  | Get_household household_id
  | Create_member "member option"
  | Get_member member_id
  | List_members household_id
  | Update_profile household_id member_id string role
  | Set_active household_id member_id bool
  | Find_by_email string
  | Set_credential member_id string string

fun apply_member_call :: "member_call \<Rightarrow> conn \<Rightarrow> conn" where
  "apply_member_call (Create_household h) s = fst (CreateHousehold h s)"
| "apply_member_call (Get_household h) s = fst (GetHousehold h s)"
| "apply_member_call (Create_member m) s = fst (CreateMember m s)"
| "apply_member_call (Get_member i) s = fst (GetMember i s)"
| "apply_member_call (List_members h) s = fst (ListMembers h s)"
| "apply_member_call (Update_profile h i name role) s = fst (UpdateMemberProfile h i name role s)"
| "apply_member_call (Set_active h i active) s = fst (SetMemberActive h i active s)"
| "apply_member_call (Find_by_email e) s = fst (FindByEmail e s)"
| "apply_member_call (Set_credential i e h) s = fst (SetCredential i e h s)"

text \<open>A method relates the databases before and after as its writing statements do.\<close>

definition writes_related :: "(identity_db \<Rightarrow> identity_db \<Rightarrow> bool) \<Rightarrow> bool" where
  "writes_related R \<longleftrightarrow> reflp R \<and>
     (\<forall>i n. sql_rel R (sql_insert_household i n)) \<and>
     (\<forall>i h n r. Valid_role r \<longrightarrow> sql_rel R (sql_insert_member i h n r)) \<and>
     (\<forall>i h n r. Valid_role r \<longrightarrow> sql_rel R (sql_update_profile i h n r)) \<and>
     (\<forall>i h a. sql_rel R (sql_set_active i h a)) \<and>
     (\<forall>i e h. sql_rel R (sql_set_credential i e h))"

lemma member_call_related:
  assumes R: "writes_related R" and trans: "transp R"
  shows "R (db s) (db (apply_member_call c s))"
proof -
  have refl: "reflp R" using R by (simp add: writes_related_def)
  note run = conn_rel_run_sql [OF refl]
  note sel = run [OF sql_rel_select_row [OF refl]] run [OF sql_rel_select [OF refl]]
  note bind = conn_rel_bind [OF trans]
  note rules = bind conn_rel_if conn_rel_case_prod conn_rel_case_option
    conn_rel_return [OF refl] conn_rel_transact [OF refl] sel
  have lock: "conn_rel R (lockHousehold h)" for h
    unfolding lockHousehold_def [abs_def] by (rule run) (simp add: sql_rel_def reflpD [OF refl])
  have fail: "conn_rel R (memberWriteFailureReason h i)" for h i
    unfolding memberWriteFailureReason_def [abs_def] by (intro rules)
  have q: "conn_rel R (run_sql (sql_insert_household i n))"
      "Valid_role r \<Longrightarrow> conn_rel R (run_sql (sql_insert_member i h n r))"
      "Valid_role r \<Longrightarrow> conn_rel R (run_sql (sql_update_profile i h n r))"
      "conn_rel R (run_sql (sql_set_active i h a))"
      "conn_rel R (run_sql (sql_set_credential i n r))" for i h n r a
    using R by (auto intro!: run simp: writes_related_def)
  have 1: "conn_rel R (CreateHousehold ho)" for ho
    unfolding CreateHousehold_def [abs_def] by (intro rules q)
  have 2: "conn_rel R (CreateMember mo)" for mo
    unfolding CreateMember_def [abs_def]
    by (intro rules q) simp
  have 3: "conn_rel R (UpdateMemberProfile h i name role)" for h i name role
    unfolding UpdateMemberProfile_def [abs_def] update_profile_tx_def [abs_def]
    by (intro rules q lock conn_rel_pair fail) simp
  have 4: "conn_rel R (SetMemberActive h i active)" for h i active
    unfolding SetMemberActive_def [abs_def] set_active_tx_def [abs_def]
    by (intro rules q lock conn_rel_pair fail)
  have 5: "conn_rel R (SetCredential i e h)" for i e h
    unfolding SetCredential_def [abs_def] by (intro rules q)
  have 6: "conn_rel R (GetHousehold h)" "conn_rel R (GetMember i)" "conn_rel R (ListMembers h)"
      "conn_rel R (FindByEmail e)" for h i e
    unfolding GetHousehold_def [abs_def] GetMember_def [abs_def] ListMembers_def [abs_def]
      FindByEmail_def [abs_def]
    by (intro rules)+
  show ?thesis
    using 1 2 3 4 5 6 by (cases c) (simp_all add: conn_rel_def)
qed

section \<open>Constraints and active owners\<close>

definition run_member_calls :: "member_call list \<Rightarrow> conn \<Rightarrow> conn" where
  "run_member_calls cs s = fold apply_member_call cs s"

lemma run_member_calls_related:
  assumes "writes_related R" and "transp R"
  shows "R (db s) (db (run_member_calls cs s))"
  unfolding run_member_calls_def
proof (induction cs arbitrary: s)
  case Nil
  show ?case using assms(1) by (simp add: writes_related_def reflpD)
next
  case (Cons c cs)
  show ?case using member_call_related [OF assms, of s c] Cons [of "apply_member_call c s"]
    by (auto dest: transpD [OF assms(2)])
qed

definition has_active_owner :: "identity_db \<Rightarrow> uuid \<Rightarrow> bool" where
  "has_active_owner d h \<longleftrightarrow>
     list_ex (\<lambda>m. m_household m = h \<and> m_role m = ''owner'' \<and> m_active m) (members d)"

lemma has_active_owner_iff:
  "has_active_owner d h \<longleftrightarrow> (\<exists>m \<in> set (members d). m_household m = h \<and> m_role m = ''owner'' \<and> m_active m)"
  by (auto simp: has_active_owner_def list_ex_iff)

lemma put_members_members: "put_members ms d = Inr d' \<Longrightarrow> d' = d\<lparr>members := ms\<rparr>"
  by (auto simp: put_members_def split: if_splits)

text \<open>A guarded update leaves an active owner behind: the one it would have removed has a
  colleague, and it touches no one else.\<close>

definition active_owner :: "member_row \<Rightarrow> bool" where
  "active_owner m \<longleftrightarrow> m_role m = ''owner'' \<and> m_active m"

lemma guarded_update_keeps_owner:
  assumes upd: "members d' = update_where P f (members d)"
    and P: "\<And>m. P m \<Longrightarrow> m_id m = i"
    and guard: "\<And>m. m \<in> set (members d) \<Longrightarrow> P m \<Longrightarrow> active_owner m \<Longrightarrow> \<not> active_owner (f m) \<Longrightarrow>
                  \<not> last_active_owner_guard d i (m_household m)"
    and f: "\<And>m. m_household (f m) = m_household m"
    and own: "has_active_owner d g"
  shows "has_active_owner d' g"
proof -
  have mem: "(if P m then f m else m) \<in> set (members d')" if "m \<in> set (members d)" for m
    using that by (auto simp: upd set_update_where)
  obtain m where m: "m \<in> set (members d)" "m_household m = g" "active_owner m"
    using own by (auto simp: has_active_owner_iff active_owner_def)
  have "\<exists>o' \<in> set (members d'). m_household o' = g \<and> active_owner o'"
  proof (cases "P m \<and> \<not> active_owner (f m)")
    case True
    with guard [of m] m obtain o' where o': "o' \<in> set (members d)" "m_household o' = g" "m_id o' \<noteq> i"
        "active_owner o'"
      by (auto simp: last_active_owner_guard_def list_ex_iff active_owner_def)
    then have "\<not> P o'" using P [of o'] by auto
    with mem [OF o'(1)] o' show ?thesis by auto
  next
    case False
    with mem [OF m(1)] m f [of m] show ?thesis by (cases "P m") auto
  qed
  then show ?thesis by (auto simp: has_active_owner_iff active_owner_def)
qed

definition store_kept :: "identity_db \<Rightarrow> identity_db \<Rightarrow> bool" where
  "store_kept d d' \<longleftrightarrow> (db_ok d \<longrightarrow> db_ok d') \<and> (\<forall>h. has_active_owner d h \<longrightarrow> has_active_owner d' h)"

lemma store_kept_refl: "reflp store_kept"
  by (simp add: reflp_def store_kept_def)

lemma store_kept_trans: "transp store_kept"
  by (auto simp: transp_def store_kept_def)

lemma update_where_ids:
  assumes "\<And>m. m_id (f m) = m_id m \<and> m_household (f m) = m_household m"
  shows "(\<lambda>r. (m_id r, m_household r)) ` set (members d) \<subseteq>
         (\<lambda>r. (m_id r, m_household r)) ` set (update_where P f (members d))"
proof
  fix x assume "x \<in> (\<lambda>r. (m_id r, m_household r)) ` set (members d)"
  then obtain m where "m \<in> set (members d)" "x = (m_id m, m_household m)" by auto
  then show "x \<in> (\<lambda>r. (m_id r, m_household r)) ` set (update_where P f (members d))"
    using assms by (intro image_eqI [of _ _ "if P m then f m else m"]) (auto simp: set_update_where)
qed

lemma insert_household_kept: "sql_rel store_kept (sql_insert_household i n)"
  unfolding sql_rel_def store_kept_def
proof (intro allI impI conjI)
  fix d now d' a h assume q: "sql_insert_household i n d now = Inr (d', a)"
  show "db_ok d \<Longrightarrow> db_ok d'"
    using q by (auto simp: sql_insert_household_def split: sum.splits intro: insert_household_ok)
  have "members d' = members d"
    using q by (auto simp: sql_insert_household_def insert_household_def split: sum.splits if_splits)
  then show "has_active_owner d h \<Longrightarrow> has_active_owner d' h" by (simp add: has_active_owner_def)
qed

lemma insert_member_kept: "sql_rel store_kept (sql_insert_member i h n r)"
  unfolding sql_rel_def store_kept_def
proof (intro allI impI conjI)
  fix d now d' a g assume q: "sql_insert_member i h n r d now = Inr (d', a)"
  then obtain m where m: "put_members (members d @ [m]) d = Inr d'"
    by (auto simp: sql_insert_member_def split: sum.splits)
  show "db_ok d \<Longrightarrow> db_ok d'" using put_members_ok [OF _ m] by auto
  show "has_active_owner d g \<Longrightarrow> has_active_owner d' g"
    using put_members_members [OF m] by (auto simp: has_active_owner_def)
qed

lemma guarded_update_kept:
  assumes q: "put_members (update_where P f (members d)) d = Inr d'"
    and f: "\<And>m. m_id (f m) = m_id m \<and> m_household (f m) = m_household m"
    and P: "\<And>m. P m \<Longrightarrow> m_id m = i"
    and g: "\<And>m. P m \<Longrightarrow> active_owner m \<Longrightarrow> \<not> active_owner (f m) \<Longrightarrow>
              \<not> last_active_owner_guard d i (m_household m)"
  shows "store_kept d d'"
proof -
  have "db_ok d \<Longrightarrow> db_ok d'"
    using put_members_ok [OF _ q] update_where_ids [of f d P] f by blast
  moreover have "has_active_owner d h \<Longrightarrow> has_active_owner d' h" for h
    using guarded_update_keeps_owner [of d' P f d i h] put_members_members [OF q] f P g by simp
  ultimately show ?thesis by (simp add: store_kept_def)
qed

lemma writes_store_kept: "writes_related store_kept"
proof -
  have prof: "sql_rel store_kept (sql_update_profile i h n r)" for i h n r
    unfolding sql_rel_def sql_update_profile_def Let_def
    by (auto split: sum.splits intro!: guarded_update_kept [where i = i] simp: active_owner_def)
  have act: "sql_rel store_kept (sql_set_active i h a)" for i h a
    unfolding sql_rel_def sql_set_active_def Let_def
    by (auto split: sum.splits intro!: guarded_update_kept [where i = i] simp: active_owner_def)
  have cred: "sql_rel store_kept (sql_set_credential i e hs)" for i e hs
    unfolding sql_rel_def sql_set_credential_def Let_def
    by (auto split: sum.splits intro!: guarded_update_kept [where i = i] simp: active_owner_def)
  show ?thesis
    using insert_household_kept insert_member_kept prof act cred store_kept_refl by (simp add: writes_related_def)
qed

text \<open>C6: whatever methods are called in whatever order, and whatever faults the connection
  has, a household that has an active owner keeps one, and the tables keep satisfying every
  constraint of the schema.\<close>

theorem active_owner_kept:
  assumes "db_ok (db s)" and "has_active_owner (db s) h"
  shows "has_active_owner (db (run_member_calls cs s)) h \<and> db_ok (db (run_member_calls cs s))"
  using run_member_calls_related [OF writes_store_kept store_kept_trans, of s cs] assms
  by (auto simp: store_kept_def)

section \<open>The profile update, branch by branch\<close>

lemma update_where_absent: "i \<notin> m_id ` set ms \<Longrightarrow> update_where (\<lambda>m. m_id m = i) f ms = ms"
  by (rule update_where_none) auto

lemma distinct_update_unique:
  assumes "distinct (map m_id ms)" and "distinct (map K ms)" and "m \<in> set ms" and "m_id m = i"
  shows "distinct (map K (update_where (\<lambda>m. m_id m = i) f ms)) \<longleftrightarrow>
         K (f m) \<notin> K ` {x \<in> set ms. m_id x \<noteq> i}"
  using assms
proof (induction ms)
  case (Cons a ms)
  show ?case
  proof (cases "m_id a = i")
    case True
    then have a: "a = m" using Cons.prems by (auto simp: image_iff)
    then have abs: "i \<notin> m_id ` set ms" using Cons.prems by auto
    then have "{x \<in> set (a # ms). m_id x \<noteq> i} = set ms" using True by (auto simp: image_iff)
    moreover have "update_where (\<lambda>m. m_id m = i) f (a # ms) = f m # ms"
      using a True update_where_absent [OF abs, of f] by (simp add: update_where_def)
    ultimately show ?thesis using Cons.prems(2) by simp
  next
    case False
    then have m: "m \<in> set ms" using Cons.prems by auto
    have set: "{x \<in> set (a # ms). m_id x \<noteq> i} = insert a {x \<in> set ms. m_id x \<noteq> i}" using False by auto
    have img: "K ` set (update_where (\<lambda>m. m_id m = i) f ms) = insert (K (f m)) (K ` {x \<in> set ms. m_id x \<noteq> i})"
    proof -
      have "x = m" if "x \<in> set ms" "m_id x = i" for x
        using that m Cons.prems by (auto simp: distinct_map inj_on_def)
      then show ?thesis using m Cons.prems(4) by (force simp: set_update_where)
    qed
    have ih: "distinct (map K (update_where (\<lambda>m. m_id m = i) f ms)) \<longleftrightarrow>
         K (f m) \<notin> K ` {x \<in> set ms. m_id x \<noteq> i}"
      using Cons m by simp
    have "K a \<notin> K ` {x \<in> set ms. m_id x \<noteq> i}" using Cons.prems(2) by auto
    moreover have "update_where (\<lambda>m. m_id m = i) f (a # ms) = a # update_where (\<lambda>m. m_id m = i) f ms"
      using False by (simp add: update_where_def)
    ultimately show ?thesis by (simp only: list.map distinct.simps set_map ih img set image_insert) auto
  qed
qed simp

lemma update_same_key:
  "(\<And>m. K (f m) = K m) \<Longrightarrow> map K (update_where P f ms) = map K ms"
  by (simp add: map_update_where)

lemma emails_same: "(\<And>m. m_email (f m) = m_email m) \<Longrightarrow> emails low (update_where P f ms) = emails low ms"
proof -
  assume f: "\<And>m. m_email (f m) = m_email m"
  have "List.map_filter m_email (update_where P f ms) = List.map_filter m_email ms"
    by (induction ms) (simp_all add: update_where_def map_filter_simps f split: option.splits)
  then show ?thesis by (simp add: emails_def)
qed

text \<open>What the constraints say to an update of one member's name and role.\<close>

lemma put_profile:
  fixes name :: string and t :: time
  assumes ok: "db_ok d" and m: "m \<in> set (members d)" "m_id m = i" and role: "role_check role"
  defines "ms \<equiv> update_where (\<lambda>m. m_id m = i) (\<lambda>m. m\<lparr>m_name := name, m_role := role, m_updated := t\<rparr>) (members d)"
  shows "put_members ms d =
    (if \<exists>o' \<in> set (members d). m_id o' \<noteq> i \<and> m_household o' = m_household m \<and>
          lower_fn d (m_name o') = lower_fn d name
     then Inl (PgError uniqueViolation memberHouseholdNameUniq) else Inr (d\<lparr>members := ms\<rparr>))"
proof -
  have mok: "members_ok d" using ok by (simp add: db_ok_def)
  have 1: "list_all (\<lambda>m. role_check (m_role m)) ms"
      "list_all (\<lambda>m. (m_email m = None) = (m_hash m = None)) ms"
      "list_all (\<lambda>m. household_exists d (m_household m)) ms"
    using mok role by (auto simp: ms_def members_ok_def list_all_iff set_update_where)
  have 2: "map m_id ms = map m_id (members d)" "emails (lower_fn d) ms = emails (lower_fn d) (members d)"
    by (simp_all add: ms_def update_same_key emails_same)
  have 3: "distinct (map (name_key (lower_fn d)) ms) \<longleftrightarrow>
      \<not> (\<exists>o' \<in> set (members d). m_id o' \<noteq> i \<and> m_household o' = m_household m \<and>
          lower_fn d (m_name o') = lower_fn d name)"
  proof -
    have "distinct (map (name_key (lower_fn d)) ms) \<longleftrightarrow>
        (m_household m, lower_fn d name) \<notin> name_key (lower_fn d) ` {x \<in> set (members d). m_id x \<noteq> i}"
      unfolding ms_def using mok m
      by (subst distinct_update_unique [of "members d" _ m]) (simp_all add: members_ok_def name_key_def)
    then show ?thesis by (auto simp: name_key_def image_iff) metis
  qed
  show ?thesis
    using mok unfolding put_members_def 3 by (auto simp: 1 2 members_ok_def)
qed

lemma unique_member:
  assumes "db_ok d" and "m \<in> set (members d)" and "x \<in> set (members d)" and "m_id x = m_id m"
  shows "x = m"
  using assms by (metis db_ok_def members_ok_def distinct_map inj_onD)

lemma guarded_is_plain:
  assumes "db_ok d" and "m \<in> set (members d)" and "m_id m = i" and "m_household m = h" and "G m"
  shows "update_where (\<lambda>m. m_id m = i \<and> m_household m = h \<and> G m) f (members d) =
         update_where (\<lambda>m. m_id m = i) f (members d)"
    and "count_where (\<lambda>m. m_id m = i \<and> m_household m = h \<and> G m) (members d) \<noteq> 0"
proof -
  have only: "x = m" if "x \<in> set (members d)" "m_id x = i" for x
    using unique_member [OF assms(1,2) that(1)] that(2) assms(3) by simp
  show "update_where (\<lambda>m. m_id m = i \<and> m_household m = h \<and> G m) f (members d) =
         update_where (\<lambda>m. m_id m = i) f (members d)"
    unfolding update_where_def
  proof (rule map_cong [OF refl])
    fix x assume "x \<in> set (members d)"
    with only assms(4,5)
    show "(if m_id x = i \<and> m_household x = h \<and> G x then f x else x) = (if m_id x = i then f x else x)"
      by metis
  qed
  show "count_where (\<lambda>m. m_id m = i \<and> m_household m = h \<and> G m) (members d) \<noteq> 0"
    using assms by (auto simp: count_where_0)
qed

lemma put_members_same: "db_ok d \<Longrightarrow> put_members (members d) d = Inr d"
  by (auto simp: put_members_def db_ok_def members_ok_def list_all_iff)

lemma memberWriteFailureReason_eval:
  assumes "faults s = []"
  shows "memberWriteFailureReason h i s =
    (s, if member_in (db s) (hid h) (mid i) then ErrLastActiveOwner else ErrMemberNotFound)"
proof (cases "filter (\<lambda>r. m_id r = mid i \<and> m_household r = hid h) (members (db s))")
  case Nil
  then have "\<not> member_in (db s) (hid h) (mid i)"
    unfolding member_in_def list_ex_iff filter_empty_conv by blast
  with Nil assms show ?thesis
    by (simp add: memberWriteFailureReason_def run_sql_no_faults select_row_def)
next
  case (Cons r rs)
  then have "r \<in> set (filter (\<lambda>r. m_id r = mid i \<and> m_household r = hid h) (members (db s)))" by simp
  then have "member_in (db s) (hid h) (mid i)" unfolding member_in_def list_ex_iff by auto
  with Cons assms show ?thesis
    by (simp add: memberWriteFailureReason_def run_sql_no_faults select_row_def)
qed

definition removes_owner :: "identity_db \<Rightarrow> uuid \<Rightarrow> uuid \<Rightarrow> role \<Rightarrow> bool" where
  "removes_owner d i h role \<longleftrightarrow>
     (\<exists>m \<in> set (members d). m_id m = i \<and> active_owner m) \<and> role \<noteq> ''owner'' \<and> last_active_owner_guard d i h"

definition name_taken :: "identity_db \<Rightarrow> uuid \<Rightarrow> uuid \<Rightarrow> string \<Rightarrow> bool" where
  "name_taken d i h name \<longleftrightarrow>
     (\<exists>o' \<in> set (members d). m_id o' \<noteq> i \<and> m_household o' = h \<and> lower_fn d (m_name o') = lower_fn d name)"

text \<open>The row the guarded statement updates, and the two outcomes of the transaction.\<close>

definition profile_target :: "identity_db \<Rightarrow> uuid \<Rightarrow> uuid \<Rightarrow> string \<Rightarrow> member_row \<Rightarrow> bool" where
  "profile_target d i h role m \<longleftrightarrow> m_id m = i \<and> m_household m = h \<and>
     \<not> (m_role m = ''owner'' \<and> m_active m \<and> role \<noteq> ''owner'' \<and> last_active_owner_guard d i h)"

abbreviation with_profile :: "uuid \<Rightarrow> string \<Rightarrow> string \<Rightarrow> time \<Rightarrow> identity_db \<Rightarrow> identity_db" where
  "with_profile i name role t d \<equiv> d\<lparr>members := update_where (\<lambda>m. m_id m = i)
     (\<lambda>m. m\<lparr>m_name := name, m_role := role, m_updated := t\<rparr>) (members d)\<rparr>"

lemma update_profile_no_target:
  assumes "faults s = []" and "db_ok (db s)" and none: "\<not> (\<exists>m \<in> set (members (db s)). profile_target (db s) (mid i) (hid h) role m)"
  shows "update_profile_tx h i name role s =
      (s, Inl (if member_in (db s) (hid h) (mid i) then ErrLastActiveOwner else ErrMemberNotFound))"
    and "member_in (db s) (hid h) (mid i) \<Longrightarrow> removes_owner (db s) (mid i) (hid h) role"
proof -
  let ?P = "\<lambda>m. m_id m = mid i \<and> m_household m = hid h \<and>
    \<not> (m_role m = ''owner'' \<and> m_active m \<and> role \<noteq> ''owner'' \<and> last_active_owner_guard (db s) (mid i) (hid h))"
  have "update_where ?P f (members (db s)) = members (db s)" "count_where ?P (members (db s)) = 0" for f
    using none by (auto simp: update_where_none count_where_0 profile_target_def)
  moreover have "run_sql (\<lambda>d now. Inr (d, ())) s = (s, Inr ())"
    using assms(1) by (simp add: run_sql_no_faults)
  ultimately show "update_profile_tx h i name role s =
      (s, Inl (if member_in (db s) (hid h) (mid i) then ErrLastActiveOwner else ErrMemberNotFound))"
    using assms(1,2) memberWriteFailureReason_eval [OF assms(1), of h i]
    by (simp add: update_profile_tx_def lockHousehold_def run_sql_no_faults sql_update_profile_def
        Let_def put_members_same)
  show "removes_owner (db s) (mid i) (hid h) role" if "member_in (db s) (hid h) (mid i)"
    using that none by (force simp: removes_owner_def member_in_def list_ex_iff active_owner_def profile_target_def)
qed

lemma update_profile_target:
  assumes "faults s = []" and "db_ok (db s)" and role: "role_check role"
    and m: "m \<in> set (members (db s))" "profile_target (db s) (mid i) (hid h) role m"
  shows "update_profile_tx h i name role s =
      (if name_taken (db s) (mid i) (hid h) name then (s, Inl ErrDuplicateMember)
       else (s\<lparr>db := with_profile (mid i) name role (clock s) (db s)\<rparr>, Inr ()))"
    and "member_in (db s) (hid h) (mid i)" and "\<not> removes_owner (db s) (mid i) (hid h) role"
proof -
  let ?d = "db s" and ?i = "mid i" and ?h = "hid h"
  let ?f = "\<lambda>m. m\<lparr>m_name := name, m_role := role, m_updated := clock s\<rparr>"
  let ?P = "\<lambda>m. m_id m = ?i \<and> m_household m = ?h \<and>
    \<not> (m_role m = ''owner'' \<and> m_active m \<and> role \<noteq> ''owner'' \<and> last_active_owner_guard ?d ?i ?h)"
  have t: "m_id m = ?i" "m_household m = ?h" "?P m" using m(2) by (simp_all add: profile_target_def)
  then show "member_in ?d ?h ?i" using m(1) by (auto simp: member_in_def list_ex_iff)
  have uniq: "x = m" if "x \<in> set (members ?d)" "m_id x = ?i" for x
    using unique_member [OF assms(2) m(1) that(1)] that(2) t(1) by simp
  show "\<not> removes_owner ?d ?i ?h role"
    unfolding removes_owner_def active_owner_def using t(3) uniq by metis
  have plain: "update_where ?P ?f (members ?d) = update_where (\<lambda>m. m_id m = ?i) ?f (members ?d)"
    using m(1) t by (intro guarded_is_plain(1) [OF assms(2)]) auto
  have some: "count_where ?P (members ?d) \<noteq> 0"
    using m(1) t by (intro guarded_is_plain(2) [OF assms(2)]) auto
  have taken: "name_taken ?d ?i ?h name \<longleftrightarrow> (\<exists>o' \<in> set (members ?d). m_id o' \<noteq> ?i \<and>
      m_household o' = m_household m \<and> lower_fn ?d (m_name o') = lower_fn ?d name)"
    by (simp add: name_taken_def t(2))
  have "sql_update_profile ?i ?h name role ?d (clock s) =
      (if name_taken ?d ?i ?h name then Inl (PgError uniqueViolation memberHouseholdNameUniq)
       else Inr (with_profile ?i name role (clock s) ?d, count_where ?P (members ?d)))"
    unfolding sql_update_profile_def Let_def plain
      put_profile [OF assms(2) m(1) t(1) role, where name = name and t = "clock s"] taken by auto
  with some assms(1) show "update_profile_tx h i name role s =
      (if name_taken ?d ?i ?h name then (s, Inl ErrDuplicateMember)
       else (s\<lparr>db := with_profile ?i name role (clock s) ?d\<rparr>, Inr ()))"
    by (simp add: update_profile_tx_def lockHousehold_def run_sql_no_faults is_violation_def)
qed

text \<open>On a working connection the profile update has exactly the branches its port
  promises: an unknown pair of member and household changes nothing and says so; the demotion
  of the only active owner is refused; a display name another member of the household has, up
  to case, is refused; otherwise the member's name, role and update time change and nothing
  else does.\<close>

theorem update_profile_exact:
  assumes "faults s = []" and "db_ok (db s)" and "Valid_role role"
  shows "UpdateMemberProfile h i name role s =
    (if \<not> member_in (db s) (hid h) (mid i) then (s, Inl ErrMemberNotFound)
     else if removes_owner (db s) (mid i) (hid h) role then (s, Inl ErrLastActiveOwner)
     else if name_taken (db s) (mid i) (hid h) name then (s, Inl ErrDuplicateMember)
     else (s\<lparr>db := (db s)\<lparr>members := update_where (\<lambda>m. m_id m = mid i)
              (\<lambda>m. m\<lparr>m_name := name, m_role := role, m_updated := clock s\<rparr>) (members (db s))\<rparr>\<rparr>, Inr ()))"
proof -
  let ?d = "db s"
  have role: "role_check role" using assms(3) by (auto simp: Valid_role_def role_check_def roles)
  have body: "update_profile_tx h i name role s =
    (if \<not> member_in ?d (hid h) (mid i) then (s, Inl ErrMemberNotFound)
     else if removes_owner ?d (mid i) (hid h) role then (s, Inl ErrLastActiveOwner)
     else if name_taken ?d (mid i) (hid h) name then (s, Inl ErrDuplicateMember)
     else (s\<lparr>db := with_profile (mid i) name role (clock s) ?d\<rparr>, Inr ()))"
  proof (cases "\<exists>m \<in> set (members ?d). profile_target ?d (mid i) (hid h) role m")
    case False
    from update_profile_no_target [OF assms(1,2) this] show ?thesis by simp
  next
    case True
    then obtain m where "m \<in> set (members ?d)" "profile_target ?d (mid i) (hid h) role m" by (elim bexE)
    from update_profile_target [OF assms(1,2) role this] show ?thesis by simp
  qed
  have keep: "s\<lparr>db := ?d\<rparr> = s" by simp
  show ?thesis
    using assms(1,3) transact_no_faults [OF assms(1), of "update_profile_tx h i name role" ErrOther] keep
    unfolding UpdateMemberProfile_def body by (auto split: if_splits)
qed

section \<open>Credentials\<close>

lemma emails_Cons:
  "emails low (c # ms) = (case m_email c of None \<Rightarrow> emails low ms | Some e \<Rightarrow> low e # emails low ms)"
  by (simp add: emails_def map_filter_simps split: option.split)

lemma emails_mem: "y \<in> set ms \<Longrightarrow> m_email y = Some e \<Longrightarrow> low e \<in> set (emails low ms)"
  by (induction ms) (auto simp: emails_Cons split: option.splits)

lemma emails_unique_list:
  assumes "distinct (emails low ms)" and "m \<in> set ms" and "x \<in> set ms"
    and "m_email m = Some a" and "m_email x = Some b" and "low a = low b"
  shows "x = m"
  using assms(1-3)
proof (induction ms)
  case (Cons c ms)
  have sub: "distinct (emails low ms)"
    using Cons.prems(1) by (simp add: emails_Cons split: option.splits)
  have out: "low e \<notin> set (emails low ms)" if "m_email c = Some e" for e
    using Cons.prems(1) that by (simp add: emails_Cons)
  consider "m = c" "x = c" | "m = c" "x \<in> set ms" | "x = c" "m \<in> set ms" | "m \<in> set ms" "x \<in> set ms"
    using Cons.prems(2,3) by auto
  then show ?case
  proof cases
    case 2
    with out [of a] emails_mem [of x ms b low] assms(4-6) show ?thesis by simp
  next
    case 3
    with out [of b] emails_mem [of m ms a low] assms(4-6) show ?thesis by simp
  next
    case 4
    with Cons.IH sub show ?thesis by simp
  qed simp
qed simp

lemma emails_unique:
  assumes "db_ok d" and "m \<in> set (members d)" and "x \<in> set (members d)"
    and "m_email m = Some a" and "m_email x = Some b" and "lower_fn d a = lower_fn d b"
  shows "x = m"
  using assms(1) by (intro emails_unique_list [OF _ assms(2-6)]) (simp add: db_ok_def members_ok_def)

text \<open>The member with an email is the only one a lookup by it can name.\<close>

lemma email_finds:
  assumes "faults s = []" and "db_ok (db s)" and m: "m \<in> set (members (db s))"
    and e: "m_email m = Some email" "m_hash m = Some hash" and low: "lower_fn (db s) email' = lower_fn (db s) email"
  shows "FindByEmail email' s =
    (s, if m_active m then Inr \<lparr>cred_member = MemberID (m_id m), cred_hash = hash\<rparr> else Inl ErrInvalidCredentials)"
proof -
  let ?Q = "\<lambda>x. (case m_email x of None \<Rightarrow> False | Some e \<Rightarrow> email_eq (db s) e email') \<and>
                    m_hash x \<noteq> None \<and> m_active x"
  have only: "x = m" if xin: "x \<in> set (members (db s))" and xq: "?Q x" for x
  proof -
    obtain e' where e': "m_email x = Some e'" "lower_fn (db s) e' = lower_fn (db s) email'"
      using xq by (cases "m_email x") (simp_all add: email_eq_def)
    have "lower_fn (db s) email = lower_fn (db s) e'" using e'(2) low by simp
    then show ?thesis by (rule emails_unique [OF assms(2) m xin e(1) e'(1)])
  qed
  show ?thesis
  proof (cases "m_active m")
    case True
    then have Q: "?Q m" using e low by (simp add: email_eq_def)
    define F where F: "F = filter ?Q (members (db s))"
    have "m \<in> set F" unfolding F using m Q by (rule in_filterI)
    then obtain r rs where r: "F = r # rs" by (cases F) simp_all
    then have rin: "r \<in> set (filter ?Q (members (db s)))" by (simp only: F [symmetric] list.set insertI1)
    have "r = m" by (rule only [OF in_filterD1 [OF rin] in_filterD2 [OF rin]])
    note r = r [unfolded F]
    with \<open>r = m\<close> r assms(1) True e show ?thesis
      by (simp add: FindByEmail_def run_sql_no_faults select_row_def sql_find_by_email_def)
  next
    case False
    have "\<not> ?Q x" if "x \<in> set (members (db s))" for x
      using only [OF that] False by blast
    then have "filter ?Q (members (db s)) = []" unfolding filter_empty_conv by (rule ballI)
    with assms(1) False show ?thesis
      by (simp add: FindByEmail_def run_sql_no_faults select_row_def sql_find_by_email_def)
  qed
qed

lemma set_credential_stores:
  assumes "faults s = []" and "db_ok (db s)" and "SetCredential i email hash s = (s', Inr ())"
  shows "faults s' = [] \<and> db_ok (db s') \<and> lower_fn (db s') = lower_fn (db s) \<and>
    (\<exists>m \<in> set (members (db s)). m_id m = mid i \<and>
       m\<lparr>m_email := Some email, m_hash := Some hash, m_updated := clock s\<rparr> \<in> set (members (db s')))"
proof -
  let ?f = "\<lambda>m. m\<lparr>m_email := Some email, m_hash := Some hash, m_updated := clock s\<rparr>"
  let ?ms = "update_where (\<lambda>m. m_id m = mid i) ?f (members (db s))"
  let ?n = "count_where (\<lambda>m. m_id m = mid i) (members (db s))"
  have ev: "SetCredential i email hash s =
    (case put_members ?ms (db s) of
       Inl e \<Rightarrow> (s, Inl (if is_violation e uniqueViolation memberEmailUnique then ErrEmailAlreadyInUse else ErrOther))
     | Inr d \<Rightarrow> (s\<lparr>db := d\<rparr>, if ?n = 0 then Inl ErrMemberNotFound else Inr ()))"
    using assms(1)
    by (cases "put_members ?ms (db s)")
      (simp_all only: SetCredential_def run_sql_no_faults sql_set_credential_def Let_def sum.case prod.case)
  obtain d where put: "put_members ?ms (db s) = Inr d"
    using assms(3) unfolding ev by (cases "put_members ?ms (db s)") auto
  have s': "s' = s\<lparr>db := d\<rparr>" and some: "?n \<noteq> 0"
    using assms(3) unfolding ev put by (simp_all split: if_splits)
  have d: "d = (db s)\<lparr>members := ?ms\<rparr>" using put by (rule put_members_members)
  have "db_ok d" using put_members_ok [OF assms(2) put] update_where_ids [of ?f "db s"] by simp
  moreover obtain m where m: "m \<in> set (members (db s))" "m_id m = mid i"
    using some by (auto simp: count_where_0)
  moreover have "?f m \<in> set (members d)" using m by (auto simp: d set_update_where)
  ultimately show ?thesis using assms(1) by (auto simp: s' d)
qed

lemma set_then_find:
  assumes "faults s = []" and "db_ok (db s)" and "SetCredential i email hash s = (s', Inr ())"
    and "lower_fn (db s) email' = lower_fn (db s) email"
  shows "FindByEmail email' s' =
    (s', if \<exists>m \<in> set (members (db s)). m_id m = mid i \<and> m_active m
         then Inr \<lparr>cred_member = i, cred_hash = hash\<rparr> else Inl ErrInvalidCredentials)"
proof -
  note st = set_credential_stores [OF assms(1-3)]
  then obtain m where m: "m \<in> set (members (db s))" "m_id m = mid i"
      "m\<lparr>m_email := Some email, m_hash := Some hash, m_updated := clock s\<rparr> \<in> set (members (db s'))" by blast
  have "x = m" if "x \<in> set (members (db s))" "m_id x = mid i" for x
    using unique_member [OF assms(2) m(1) that(1)] that(2) m(2) by simp
  then have act: "(\<exists>m \<in> set (members (db s)). m_id m = mid i \<and> m_active m) \<longleftrightarrow> m_active m" using m by blast
  have "FindByEmail email' s' =
      (s', if m_active m then Inr \<lparr>cred_member = MemberID (m_id m), cred_hash = hash\<rparr> else Inl ErrInvalidCredentials)"
    using email_finds [OF _ _ m(3), of email hash email'] st assms(4) by simp
  then show ?thesis unfolding act using m(2) by (cases i) simp
qed

text \<open>A stored credential is found again by its email, in any letter case, with the stored
  hash and the right member, exactly while that member is active; a deactivated member's email
  is answered like an unknown one.\<close>

theorem credential_roundtrip:
  assumes "faults s = []" and "db_ok (db s)" and "SetCredential i email hash s = (s', Inr ())"
    and "lower_fn (db s) email' = lower_fn (db s) email"
  shows "FindByEmail email' s' =
    (s', if \<exists>m \<in> set (members (db s)). m_id m = mid i \<and> m_active m
         then Inr \<lparr>cred_member = i, cred_hash = hash\<rparr> else Inl ErrInvalidCredentials)"
  by (rule set_then_find [OF assms])

section \<open>Inputs for the witnesses\<close>

definition demo_member :: "uuid \<Rightarrow> string \<Rightarrow> string \<Rightarrow> member_row" where
  "demo_member i name role =
     \<lparr>m_id = i, m_household = 1, m_name = name, m_role = role, m_email = None, m_hash = None,
      m_active = True, m_created = 0, m_updated = 0\<rparr>"

definition demo_db :: identity_db where
  "demo_db = (empty_db id)\<lparr>households := [\<lparr>hh_id = 1, hh_name = ''h'', hh_created = 0, hh_updated = 0\<rparr>],
     members := [demo_member 2 ''ann'' ''owner'', demo_member 3 ''bob'' ''adult'']\<rparr>"

definition demo_conn :: conn where
  "demo_conn = \<lparr>db = demo_db, clock = 9, faults = [], uuids = (\<lambda>n. of_nat (n + 100)), uuids_used = 0\<rparr>"

lemma demo_db_ok: "db_ok demo_db"
  by (simp add: demo_db_def demo_member_def empty_db_def db_ok_def members_ok_def mfas_ok_def codes_ok_def
      passkeys_ok_def role_check_def emails_def List.map_filter_def name_key_def household_exists_def)

theorem active_owner_kept_witness:
  "has_active_owner (db (run_member_calls
      [Set_active (HouseholdID 1) (MemberID 2) False,
       Update_profile (HouseholdID 1) (MemberID 2) ''ann'' RoleChild]
      (demo_conn\<lparr>faults := [NoFault, NoFault, FailAfter]\<rparr>))) 1"
  by (rule active_owner_kept [THEN conjunct1])
    (simp_all add: demo_conn_def demo_db_ok, simp add: demo_db_def demo_member_def has_active_owner_def)

end
