(* ===== verification/Owner_Guard.thy ===== *)
theory Owner_Guard
  imports Member_Store
begin

text \<open>
  The race the two guarded member updates of \<open>identity/adapter/member_postgres.go\<close> close: two
  transactions that each demote or deactivate one of a household's last two active owners.
  The transactions of any number of sessions interleave statement by statement under
  READ COMMITTED: a statement sees what was committed when the statement began, and nobody
  sees a transaction's write before its commit. The advisory lock, keyed by a hash of the
  household id under which households may collide, is held from the statement that takes it
  to the end of the transaction.

  The theory proves that no interleaving leaves a household without an active owner. The
  invariant is that a guard's answer cannot go stale before its transaction commits, because
  whoever could change it needs the lock.
\<close>

section \<open>Sessions\<close>

datatype member_write =
    Write_profile household_id member_id string role
  | Write_active household_id member_id bool

fun write_household :: "member_write \<Rightarrow> household_id" where
  "write_household (Write_profile h i name role) = h"
| "write_household (Write_active h i active) = h"

fun write_member :: "member_write \<Rightarrow> member_id" where
  "write_member (Write_profile h i name role) = i"
| "write_member (Write_active h i active) = i"

text \<open>The guarded UPDATE as a statement on a snapshot, and what it does to the row it matched.\<close>

fun guarded_update :: "member_write \<Rightarrow> (identity_db, nat) sql" where
  "guarded_update (Write_profile h i name role) = sql_update_profile (mid i) (hid h) name role"
| "guarded_update (Write_active h i active) = sql_set_active (mid i) (hid h) active"

fun row_change :: "member_write \<Rightarrow> time \<Rightarrow> member_row \<Rightarrow> member_row" where
  "row_change (Write_profile h i name role) t m = m\<lparr>m_name := name, m_role := role, m_updated := t\<rparr>"
| "row_change (Write_active h i active) t m = m\<lparr>m_active := active, m_updated := t\<rparr>"

datatype phase =
    Idle
  | Begun member_write            \<comment> \<open>after \<open>Begin\<close>\<close>
  | Holding member_write          \<comment> \<open>after \<open>lockHousehold\<close>\<close>
  | Written member_write time     \<comment> \<open>after the UPDATE matched its row\<close>

record world =
  committed :: identity_db
  lock_holder :: "int \<Rightarrow> nat option"
  phase_of :: "nat \<Rightarrow> phase"

definition lock_key :: "(uuid \<Rightarrow> int) \<Rightarrow> member_write \<Rightarrow> int" where
  "lock_key hash op = hash (hid (write_household op))"

definition release :: "nat \<Rightarrow> world \<Rightarrow> world" where
  "release n w = w\<lparr>lock_holder := (\<lambda>k. if lock_holder w k = Some n then None else lock_holder w k),
                   phase_of := (phase_of w)(n := Idle)\<rparr>"

definition publish :: "member_write \<Rightarrow> time \<Rightarrow> identity_db \<Rightarrow> identity_db" where
  "publish op t d =
     d\<lparr>members := update_where (\<lambda>m. m_id m = mid (write_member op) \<and> m_household m = hid (write_household op))
         (row_change op t) (members d)\<rparr>"

inductive session_step :: "(uuid \<Rightarrow> int) \<Rightarrow> world \<Rightarrow> world \<Rightarrow> bool" for hash where
  start_tx: "phase_of w n = Idle \<Longrightarrow>
    session_step hash w (w\<lparr>phase_of := (phase_of w)(n := Begun op)\<rparr>)"
| take_lock: "phase_of w n = Begun op \<Longrightarrow> lock_holder w (lock_key hash op) = None \<Longrightarrow>
    session_step hash w (w\<lparr>lock_holder := (lock_holder w)(lock_key hash op \<mapsto> n),
                           phase_of := (phase_of w)(n := Holding op)\<rparr>)"
| write_row: "phase_of w n = Holding op \<Longrightarrow>
    guarded_update op (committed w) t = Inr (d', Suc rows) \<Longrightarrow>
    session_step hash w (w\<lparr>phase_of := (phase_of w)(n := Written op t)\<rparr>)"
| commit_tx: "phase_of w n = Written op t \<Longrightarrow>
    session_step hash w (release n (w\<lparr>committed := publish op t (committed w)\<rparr>))"
| abort_tx: "session_step hash w (release n w)"
| add_member: "put_members (members (committed w) @ [m]) (committed w) = Inr d' \<Longrightarrow>
    session_step hash w (w\<lparr>committed := d'\<rparr>)"

inductive_cases session_stepE: "session_step hash w w'"

section \<open>The invariant\<close>

text \<open>A write that would take away an active owner still has, among what is committed, another
  active owner of the household: the guard's answer does not go stale.\<close>

definition guard_holds :: "identity_db \<Rightarrow> member_write \<Rightarrow> time \<Rightarrow> bool" where
  "guard_holds d op t \<longleftrightarrow>
     (\<forall>m \<in> set (members d). m_id m = mid (write_member op) \<and> m_household m = hid (write_household op) \<and>
        active_owner m \<and> \<not> active_owner (row_change op t m) \<longrightarrow>
        \<not> last_active_owner_guard d (mid (write_member op)) (hid (write_household op)))"

definition row_exists :: "identity_db \<Rightarrow> member_write \<Rightarrow> bool" where
  "row_exists d op \<longleftrightarrow> mid (write_member op) \<in> m_id ` set (members d)"

fun holds_lock :: "phase \<Rightarrow> member_write option" where
  "holds_lock (Holding op) = Some op"
| "holds_lock (Written op t) = Some op"
| "holds_lock _ = None"

definition world_ok :: "(uuid \<Rightarrow> int) \<Rightarrow> world \<Rightarrow> bool" where
  "world_ok hash w \<longleftrightarrow>
     (\<forall>n op. holds_lock (phase_of w n) = Some op \<longrightarrow> lock_holder w (lock_key hash op) = Some n) \<and>
     (\<forall>n op t. phase_of w n = Written op t \<longrightarrow> guard_holds (committed w) op t \<and> row_exists (committed w) op) \<and>
     distinct (map m_id (members (committed w)))"

lemma row_unique:
  "distinct (map m_id ms) \<Longrightarrow> m \<in> set ms \<Longrightarrow> x \<in> set ms \<Longrightarrow> m_id x = m_id m \<Longrightarrow> x = m"
  by (metis distinct_map inj_onD)

lemma matched_row:
  assumes "count_where P ms = Suc rows"
  obtains m where "m \<in> set ms" "P m"
  using assms count_where_0 [of P ms] by (metis Zero_not_Suc)

lemma guarded_update_guard:
  assumes u: "guarded_update op d t = Inr (d', Suc rows)" and "distinct (map m_id (members d))"
  shows "guard_holds d op t" "row_exists d op"
proof -
  have "\<exists>m \<in> set (members d). m_id m = mid (write_member op) \<and>
      (active_owner m \<and> \<not> active_owner (row_change op t m) \<longrightarrow>
       \<not> last_active_owner_guard d (mid (write_member op)) (hid (write_household op)))"
  proof (cases op)
    case (Write_profile h i name role)
    with u have "count_where (\<lambda>m. m_id m = mid i \<and> m_household m = hid h \<and>
        \<not> (m_role m = ''owner'' \<and> m_active m \<and> role \<noteq> ''owner'' \<and> last_active_owner_guard d (mid i) (hid h)))
        (members d) = Suc rows"
      by (auto simp: sql_update_profile_def Let_def split: sum.splits)
    then show ?thesis by (rule matched_row) (auto simp: Write_profile active_owner_def)
  next
    case (Write_active h i active)
    with u have "count_where (\<lambda>m. m_id m = mid i \<and> m_household m = hid h \<and>
        \<not> (active = False \<and> m_role m = ''owner'' \<and> m_active m \<and> last_active_owner_guard d (mid i) (hid h)))
        (members d) = Suc rows"
      by (auto simp: sql_set_active_def Let_def split: sum.splits)
    then show ?thesis by (rule matched_row) (auto simp: Write_active active_owner_def)
  qed
  then obtain m where m: "m \<in> set (members d)" "m_id m = mid (write_member op)"
      "active_owner m \<and> \<not> active_owner (row_change op t m) \<longrightarrow>
       \<not> last_active_owner_guard d (mid (write_member op)) (hid (write_household op))" by blast
  from m(1,2) show "row_exists d op" unfolding row_exists_def by (metis imageI)
  show "guard_holds d op t"
    unfolding guard_holds_def
  proof (intro ballI impI)
    fix x assume x: "x \<in> set (members d)" and *: "m_id x = mid (write_member op) \<and>
      m_household x = hid (write_household op) \<and> active_owner x \<and> \<not> active_owner (row_change op t x)"
    have "x = m" using * m(2) by (intro row_unique [OF assms(2) m(1) x]) simp
    with * m(3) show "\<not> last_active_owner_guard d (mid (write_member op)) (hid (write_household op))" by simp
  qed
qed

lemma row_change_keys [simp]:
  "m_id (row_change op t m) = m_id m" "m_household (row_change op t m) = m_household m"
  by (cases op; simp)+

text \<open>A commit in one household does not change another household's owners.\<close>

lemma publish_other:
  assumes "hid (write_household op) \<noteq> h"
  shows "{m \<in> set (members (publish op t d)). m_household m = h} = {m \<in> set (members d). m_household m = h}"
  using assms by (auto simp: publish_def set_update_where)

lemma guard_holds_cong:
  assumes "{m \<in> set (members d'). m_household m = hid (write_household op)} =
           {m \<in> set (members d). m_household m = hid (write_household op)}"
    and "guard_holds d op t"
  shows "guard_holds d' op t"
proof -
  have mem: "m \<in> set (members d') \<longleftrightarrow> m \<in> set (members d)" if "m_household m = hid (write_household op)" for m
    using assms(1) that by blast
  then have "last_active_owner_guard d' i (hid (write_household op)) = last_active_owner_guard d i (hid (write_household op))" for i
    by (auto simp: last_active_owner_guard_def list_ex_iff)
  with assms(2) mem show ?thesis by (auto simp: guard_holds_def)
qed

lemma publish_keeps_owner:
  assumes "guard_holds d op t" and "has_active_owner d h"
  shows "has_active_owner (publish op t d) h"
  using assms
  by (intro guarded_update_keeps_owner [of "publish op t d"
        "\<lambda>m. m_id m = mid (write_member op) \<and> m_household m = hid (write_household op)"
        "row_change op t" d "mid (write_member op)" h])
    (auto simp: publish_def guard_holds_def set_update_where update_where_def split: if_splits)

lemma put_member_grows:
  assumes "put_members (members d @ [m]) d = Inr d'"
  shows "members d' = members d @ [m]" "m_id m \<notin> m_id ` set (members d)" "distinct (map m_id (members d'))"
  using put_members_members [OF assms] assms by (auto simp: put_members_def split: if_splits)

lemma guard_holds_grows:
  assumes "put_members (members d @ [m]) d = Inr d'" and "guard_holds d op t" and "row_exists d op"
  shows "guard_holds d' op t"
proof -
  have "m_id m \<noteq> mid (write_member op)"
    using put_member_grows(2) [OF assms(1)] assms(3) by (auto simp: row_exists_def)
  with assms(2) put_member_grows(1) [OF assms(1)] show ?thesis
    by (auto simp: guard_holds_def last_active_owner_guard_def)
qed

lemma map_publish_ids [simp]: "map m_id (members (publish op t d)) = map m_id (members d)"
  by (simp add: publish_def map_update_where)

lemma publish_row_exists [simp]: "row_exists (publish op t d) op' = row_exists d op'"
  unfolding row_exists_def by (metis map_publish_ids set_map)

lemma release_fields [simp]:
  "committed (release n w) = committed w"
  "phase_of (release n w) = (phase_of w)(n := Idle)"
  "lock_holder (release n w) k = (if lock_holder w k = Some n then None else lock_holder w k)"
  by (simp_all add: release_def)

lemma world_ok_step:
  assumes "session_step hash w w'" and "world_ok hash w"
  shows "world_ok hash w'"
  using assms
proof (induction rule: session_step.induct)
  case (write_row w n op t d' rows)
  have "guard_holds (committed w) op t" "row_exists (committed w) op"
    using guarded_update_guard [of op "committed w" t d' rows] write_row by (auto simp: world_ok_def)
  with write_row show ?case by (auto simp: world_ok_def)
next
  case (commit_tx w n op t)
  have lock: "lock_holder w (lock_key hash op) = Some n"
    using commit_tx by (auto simp: world_ok_def)
  have "guard_holds (publish op t (committed w)) op' t'" if "phase_of w k = Written op' t'" "k \<noteq> n" for k op' t'
  proof -
    have "lock_holder w (lock_key hash op') = Some k"
      using that commit_tx by (auto simp: world_ok_def)
    then have "hid (write_household op) \<noteq> hid (write_household op')"
      using lock that(2) by (auto simp: lock_key_def)
    then show ?thesis
      using that commit_tx by (intro guard_holds_cong [OF publish_other]) (auto simp: world_ok_def)
  qed
  with commit_tx show ?case by (auto simp: world_ok_def split: if_splits)
next
  case (add_member w m d')
  with guard_holds_grows [OF add_member(1)] put_member_grows [OF add_member(1)] show ?case
    by (auto simp: world_ok_def row_exists_def)
next
  case (take_lock w n op)
  then show ?case by (fastforce simp: world_ok_def split: if_splits)
next
  case (start_tx w n op)
  then show ?case by (auto simp: world_ok_def split: if_splits)
next
  case (abort_tx w n)
  then show ?case by (auto simp: world_ok_def split: if_splits)
qed

lemma step_keeps_owner:
  assumes "session_step hash w w'" and "world_ok hash w" and "has_active_owner (committed w) h"
  shows "has_active_owner (committed w') h"
  using assms
proof (cases rule: session_step.cases)
  case (commit_tx n op t)
  with assms show ?thesis by (auto simp: world_ok_def intro: publish_keeps_owner)
next
  case (add_member m d')
  with assms put_member_grows(1) [OF add_member(2)] show ?thesis by (simp add: has_active_owner_def)
qed auto

text \<open>A world in which no transaction is open.\<close>

definition quiet :: "identity_db \<Rightarrow> world" where
  "quiet d = \<lparr>committed = d, lock_holder = (\<lambda>_. None), phase_of = (\<lambda>_. Idle)\<rparr>"

lemma reachable_ok:
  assumes "(session_step hash)\<^sup>*\<^sup>* w w'" and "world_ok hash w"
  shows "world_ok hash w' \<and> (has_active_owner (committed w) h \<longrightarrow> has_active_owner (committed w') h)"
  using assms by (induction rule: rtranclp_induct) (auto intro: world_ok_step dest: step_keeps_owner)

text \<open>C1: no interleaving of any number of concurrent profile updates, activations and member
  creations, statement by statement under READ COMMITTED, takes a household's last active
  owner: what is committed always has an active owner for every household that had one.\<close>

theorem no_race_loses_last_owner:
  assumes "db_ok d" and "(session_step hash)\<^sup>*\<^sup>* (quiet d) w" and "has_active_owner d h"
  shows "has_active_owner (committed w) h"
proof -
  have "world_ok hash (quiet d)"
    using assms(1) by (simp add: world_ok_def quiet_def db_ok_def members_ok_def)
  with reachable_ok [OF assms(2), of h] assms(3) show ?thesis by (simp add: quiet_def)
qed

definition demo_demotion :: member_write where
  "demo_demotion = Write_profile (HouseholdID 1) (MemberID 3) ''bob'' RoleChild"

theorem no_race_loses_last_owner_witness:
  "has_active_owner (publish demo_demotion 5 demo_db) 1"
proof -
  let ?op = demo_demotion and ?key = "\<lambda>_. 0 :: int"
  let ?w1 = "(quiet demo_db)\<lparr>phase_of := (\<lambda>_. Idle)(7 := Begun ?op)\<rparr>"
  let ?w2 = "?w1\<lparr>lock_holder := (\<lambda>_. None)(0 \<mapsto> 7), phase_of := (\<lambda>_. Idle)(7 := Holding ?op)\<rparr>"
  let ?w3 = "?w2\<lparr>phase_of := (\<lambda>_. Idle)(7 := Written ?op 5)\<rparr>"
  let ?w4 = "release 7 (?w3\<lparr>committed := publish ?op 5 demo_db\<rparr>)"
  have "session_step ?key (quiet demo_db) ?w1"
    using start_tx [of "quiet demo_db" 7 ?key ?op] by (simp add: quiet_def)
  moreover have "session_step ?key ?w1 ?w2"
    using take_lock [of ?w1 7 ?op ?key] by (simp add: quiet_def lock_key_def)
  moreover have "session_step ?key ?w2 ?w3"
  proof -
    have "(case guarded_update ?op demo_db 5 of Inl _ \<Rightarrow> False | Inr (_, n) \<Rightarrow> n = 1)" by code_simp
    then obtain d' where "guarded_update ?op demo_db 5 = Inr (d', Suc 0)"
      by (auto split: sum.splits)
    then show ?thesis using write_row [of ?w2 7 ?op 5 d' 0 ?key] by (simp add: quiet_def)
  qed
  moreover have "session_step ?key ?w3 ?w4"
    using commit_tx [of ?w3 7 ?op 5 ?key] by (simp add: quiet_def)
  ultimately have "(session_step ?key)\<^sup>*\<^sup>* (quiet demo_db) ?w4"
    by (meson converse_rtranclp_into_rtranclp rtranclp.rtrancl_refl)
  moreover have "has_active_owner demo_db 1"
    by (simp add: demo_db_def demo_member_def has_active_owner_def)
  ultimately show ?thesis using no_race_loses_last_owner [OF demo_db_ok] by fastforce
qed

end
