(* ===== verification/Mfa_Store.thy ===== *)
theory Mfa_Store
  imports Member_Store
begin

text \<open>
  The MFA repository, \<open>identity/adapter/mfa_postgres.go\<close>: every method over the schema of
  \<open>Identity_Db\<close>, transactions included.

  The theory proves, for any sequence of calls and any connection faults, that a member's
  accepted login steps only ever increase and that no recovery code is accepted twice; that a
  confirmation is all or nothing; and that a method never touches another member's rows.
\<close>

section \<open>Enrollments\<close>

definition to_enrollment :: "member_id \<Rightarrow> mfa_row \<Rightarrow> mfa_enrollment" where
  "to_enrollment m r =
     \<lparr>enr_member = m, enr_household = HouseholdID (f_household r), enr_secret = f_secret r,
      enr_confirmed_at = f_confirmed r, enr_last_step = f_step r, enr_created = f_created r,
      enr_updated = f_updated r\<rparr>"

definition mfa_rows :: "member_id \<Rightarrow> identity_db \<Rightarrow> mfa_row list" where
  "mfa_rows m d = filter (\<lambda>r. f_member r = mid m) (mfas d)"

definition GetEnrollment :: "member_id \<Rightarrow> conn \<Rightarrow> conn \<times> (id_error + mfa_enrollment)" where
  "GetEnrollment m s =
     (case run_sql (select_row (mfa_rows m)) s of
        (s, Inl e) \<Rightarrow> (s, Inl (if e = ErrNoRows then ErrMFANotEnrolled else ErrOther))
      | (s, Inr r) \<Rightarrow> (s, Inr (to_enrollment m r)))"

text \<open>\<open>errMFAEnrollmentRaced\<close> is internal to the two begin methods.\<close>

datatype begin_error = Raced | Begin_failed id_error

definition sql_insert_mfa :: "member_id \<Rightarrow> household_id \<Rightarrow> bytes \<Rightarrow> (identity_db, unit) sql" where
  "sql_insert_mfa m h secret d now =
     (case insert_mfa \<lparr>f_member = mid m, f_household = hid h, f_secret = secret, f_confirmed = None,
                       f_step = None, f_created = now, f_updated = now\<rparr> d of
        Inl e \<Rightarrow> Inl e | Inr d \<Rightarrow> Inr (d, ()))"

definition sql_replace_secret :: "member_id \<Rightarrow> bytes \<Rightarrow> (identity_db, nat) sql" where
  "sql_replace_secret m secret d now =
     update_mfas (\<lambda>r. f_member r = mid m)
       (\<lambda>r. r\<lparr>f_secret := secret, f_confirmed := None, f_updated := now\<rparr>) d"

definition begin_tx :: "member_id \<Rightarrow> household_id \<Rightarrow> bytes \<Rightarrow> conn \<Rightarrow> conn \<times> (begin_error + unit)" where
  "begin_tx m h secret s =
     (case run_sql (select_row (mfa_rows m)) s of
        (s, Inl e) \<Rightarrow>
          if e = ErrNoRows then
            (case run_sql (sql_insert_mfa m h secret) s of
               (s, Inl e) \<Rightarrow>
                 (s, Inl (if is_violation e foreignKeyViolation mfaMemberFK \<or>
                             is_violation e foreignKeyViolation mfaHouseholdFK
                          then Begin_failed ErrMemberNotFound
                          else if is_violation e uniqueViolation mfaMemberPK then Raced
                          else Begin_failed ErrOther))
             | (s, Inr _) \<Rightarrow> (s, Inr ()))
          else (s, Inl (Begin_failed ErrOther))
      | (s, Inr r) \<Rightarrow>
          if f_household r \<noteq> hid h then (s, Inl (Begin_failed ErrMemberNotFound))
          else if f_confirmed r \<noteq> None then (s, Inl (Begin_failed ErrMFAAlreadyEnrolled))
          else (case run_sql (sql_replace_secret m secret) s of
                  (s, Inl _) \<Rightarrow> (s, Inl (Begin_failed ErrOther))
                | (s, Inr _) \<Rightarrow> (s, Inr ())))"

definition beginEnrollmentOnce ::
    "member_id \<Rightarrow> household_id \<Rightarrow> bytes \<Rightarrow> conn \<Rightarrow> conn \<times> (begin_error + unit)" where
  "beginEnrollmentOnce m h secret s = transact (Begin_failed ErrOther) (begin_tx m h secret) s"

definition BeginEnrollment ::
    "member_id \<Rightarrow> household_id \<Rightarrow> bytes \<Rightarrow> conn \<Rightarrow> conn \<times> (id_error + unit)" where
  "BeginEnrollment m h secret s =
     (case beginEnrollmentOnce m h secret s of
        (s, Inl e) \<Rightarrow>
          (case e of
             Begin_failed e \<Rightarrow> (s, Inl e)
           | Raced \<Rightarrow>
               (case beginEnrollmentOnce m h secret s of
                  (s, Inl e) \<Rightarrow> (s, Inl (case e of Raced \<Rightarrow> ErrOther | Begin_failed e \<Rightarrow> e))
                | (s, Inr _) \<Rightarrow> (s, Inr ())))
      | (s, Inr _) \<Rightarrow> (s, Inr ()))"

section \<open>Confirming\<close>

definition sql_confirm :: "member_id \<Rightarrow> (identity_db, nat) sql" where
  "sql_confirm m d now =
     update_mfas (\<lambda>r. f_member r = mid m) (\<lambda>r. r\<lparr>f_confirmed := Some now, f_updated := now\<rparr>) d"

definition sql_delete_codes :: "member_id \<Rightarrow> (identity_db, nat) sql" where
  "sql_delete_codes m d now =
     Inr (d\<lparr>codes := delete_where (\<lambda>c. c_member c = mid m) (codes d)\<rparr>,
          count_where (\<lambda>c. c_member c = mid m) (codes d))"

definition sql_insert_code :: "uuid \<Rightarrow> member_id \<Rightarrow> string \<Rightarrow> (identity_db, unit) sql" where
  "sql_insert_code i m hash d now =
     (case insert_code \<lparr>c_id = i, c_member = mid m, c_hash = hash, c_used = None, c_created = now\<rparr> d of
        Inl e \<Rightarrow> Inl e | Inr d \<Rightarrow> Inr (d, ()))"

fun insert_codes :: "member_id \<Rightarrow> string list \<Rightarrow> conn \<Rightarrow> conn \<times> (id_error + unit)" where
  "insert_codes m [] s = (s, Inr ())"
| "insert_codes m (hash # hashes) s =
     (case new_uuid s of (i, s) \<Rightarrow>
       (case run_sql (sql_insert_code i m hash) s of
          (s, Inl _) \<Rightarrow> (s, Inl ErrOther)
        | (s, Inr _) \<Rightarrow> insert_codes m hashes s))"

definition confirm_tx :: "household_id \<Rightarrow> member_id \<Rightarrow> string list \<Rightarrow> conn \<Rightarrow> conn \<times> (id_error + unit)" where
  "confirm_tx h m hashes s =
     (case run_sql (select_row (mfa_rows m)) s of
        (s, Inl e) \<Rightarrow> (s, Inl (if e = ErrNoRows then ErrMFANotEnrolled else ErrOther))
      | (s, Inr r) \<Rightarrow>
          if f_household r \<noteq> hid h then (s, Inl ErrMFANotEnrolled)
          else if f_confirmed r \<noteq> None then (s, Inl ErrMFAAlreadyEnrolled)
          else (case run_sql (sql_confirm m) s of
                  (s, Inl _) \<Rightarrow> (s, Inl ErrOther)
                | (s, Inr _) \<Rightarrow>
                    (case run_sql (sql_delete_codes m) s of
                       (s, Inl _) \<Rightarrow> (s, Inl ErrOther)
                     | (s, Inr _) \<Rightarrow> insert_codes m hashes s)))"

definition ConfirmEnrollmentWithCodes ::
    "household_id \<Rightarrow> member_id \<Rightarrow> string list \<Rightarrow> conn \<Rightarrow> conn \<times> (id_error + unit)" where
  "ConfirmEnrollmentWithCodes h m hashes s = transact ErrOther (confirm_tx h m hashes) s"

section \<open>Single statements\<close>

definition sql_delete_mfa :: "household_id \<Rightarrow> member_id \<Rightarrow> (identity_db, nat) sql" where
  "sql_delete_mfa h m d now = Inr (delete_mfas (\<lambda>r. f_member r = mid m \<and> f_household r = hid h) d)"

definition DeleteEnrollment :: "household_id \<Rightarrow> member_id \<Rightarrow> conn \<Rightarrow> conn \<times> (id_error + unit)" where
  "DeleteEnrollment h m s =
     (case run_sql (sql_delete_mfa h m) s of
        (s, Inl _) \<Rightarrow> (s, Inl ErrOther)
      | (s, Inr n) \<Rightarrow> (s, if n = 0 then Inl ErrMFANotEnrolled else Inr ()))"

definition unused_codes :: "member_id \<Rightarrow> identity_db \<Rightarrow> recovery_code list" where
  "unused_codes m d =
     map (\<lambda>c. \<lparr>rc_id = RecoveryCodeID (c_id c), rc_member = m, rc_hash = c_hash c, rc_used_at = None,
               rc_created = c_created c\<rparr>)
       (sort_key (\<lambda>c. (c_created c, c_id c))
          (filter (\<lambda>c. c_member c = mid m \<and> c_used c = None) (codes d)))"

definition ListUnusedRecoveryCodes :: "member_id \<Rightarrow> conn \<Rightarrow> conn \<times> (id_error + recovery_code list)" where
  "ListUnusedRecoveryCodes m s =
     (case run_sql (select (unused_codes m)) s of
        (s, Inl _) \<Rightarrow> (s, Inl ErrOther)
      | (s, Inr cs) \<Rightarrow> (s, Inr cs))"

definition sql_mark_used :: "recovery_code_id \<Rightarrow> (identity_db, nat) sql" where
  "sql_mark_used i d now =
     (let P = (\<lambda>c. c_id c = rid i \<and> c_used c = None)
      in Inr (d\<lparr>codes := update_where P (\<lambda>c. c\<lparr>c_used := Some now\<rparr>) (codes d)\<rparr>, count_where P (codes d)))"

definition MarkRecoveryCodeUsed :: "recovery_code_id \<Rightarrow> conn \<Rightarrow> conn \<times> (id_error + unit)" where
  "MarkRecoveryCodeUsed i s =
     (case run_sql (sql_mark_used i) s of
        (s, Inl _) \<Rightarrow> (s, Inl ErrOther)
      | (s, Inr n) \<Rightarrow> (s, if n = 0 then Inl ErrRecoveryCodeInvalid else Inr ()))"

definition sql_record_step :: "member_id \<Rightarrow> int \<Rightarrow> (identity_db, nat) sql" where
  "sql_record_step m step d now =
     update_mfas (\<lambda>r. f_member r = mid m \<and> (case f_step r of None \<Rightarrow> True | Some prev \<Rightarrow> prev < step))
       (\<lambda>r. r\<lparr>f_step := Some step, f_updated := now\<rparr>) d"

definition RecordLoginStep :: "member_id \<Rightarrow> int \<Rightarrow> conn \<Rightarrow> conn \<times> (id_error + unit)" where
  "RecordLoginStep m step s =
     (case run_sql (sql_record_step m step) s of
        (s, Inl _) \<Rightarrow> (s, Inl ErrOther)
      | (s, Inr n) \<Rightarrow> (s, if n = 0 then Inl ErrInvalidTOTPCode else Inr ()))"

section \<open>Calls\<close>

datatype mfa_call =
    Get_enrollment member_id
  | Begin_enrollment member_id household_id bytes
  | Confirm_enrollment household_id member_id "string list"
  | Delete_enrollment household_id member_id
  | List_codes member_id
  | Mark_used recovery_code_id
  | Record_step member_id int

definition drop_value :: "conn \<times> (id_error + 'a) \<Rightarrow> conn \<times> (id_error + unit)" where
  "drop_value x = (fst x, case snd x of Inl e \<Rightarrow> Inl e | Inr _ \<Rightarrow> Inr ())"

fun apply_mfa_call :: "mfa_call \<Rightarrow> conn \<Rightarrow> conn \<times> (id_error + unit)" where
  "apply_mfa_call (Get_enrollment m) s = drop_value (GetEnrollment m s)"
| "apply_mfa_call (Begin_enrollment m h secret) s = BeginEnrollment m h secret s"
| "apply_mfa_call (Confirm_enrollment h m hashes) s = ConfirmEnrollmentWithCodes h m hashes s"
| "apply_mfa_call (Delete_enrollment h m) s = DeleteEnrollment h m s"
| "apply_mfa_call (List_codes m) s = drop_value (ListUnusedRecoveryCodes m s)"
| "apply_mfa_call (Mark_used i) s = MarkRecoveryCodeUsed i s"
| "apply_mfa_call (Record_step m step) s = RecordLoginStep m step s"

section \<open>What every method does to the tables\<close>

text \<open>A method relates the databases before and after as its writing statements do, when those
  are about members that satisfy \<open>P\<close> and codes that satisfy \<open>Q\<close>.\<close>

definition mfa_writes_related ::
    "(identity_db \<Rightarrow> identity_db \<Rightarrow> bool) \<Rightarrow> (member_id \<Rightarrow> bool) \<Rightarrow> (recovery_code_id \<Rightarrow> bool) \<Rightarrow>
     (member_id \<Rightarrow> bool) \<Rightarrow> bool" where
  "mfa_writes_related R P Q D \<longleftrightarrow> reflp R \<and> transp R \<and>
     (\<forall>m h b. P m \<longrightarrow> sql_rel R (sql_insert_mfa m h b)) \<and>
     (\<forall>m b. P m \<longrightarrow> sql_rel R (sql_replace_secret m b)) \<and>
     (\<forall>m. P m \<longrightarrow> sql_rel R (sql_confirm m)) \<and>
     (\<forall>m. P m \<longrightarrow> sql_rel R (sql_delete_codes m)) \<and>
     (\<forall>i m h. P m \<longrightarrow> sql_rel R (sql_insert_code i m h)) \<and>
     (\<forall>h m. D m \<longrightarrow> sql_rel R (sql_delete_mfa h m)) \<and>
     (\<forall>i. Q i \<longrightarrow> sql_rel R (sql_mark_used i)) \<and>
     (\<forall>m n. P m \<longrightarrow> sql_rel R (sql_record_step m n))"

fun call_within :: "(member_id \<Rightarrow> bool) \<Rightarrow> (recovery_code_id \<Rightarrow> bool) \<Rightarrow> (member_id \<Rightarrow> bool) \<Rightarrow> mfa_call \<Rightarrow> bool" where
  "call_within P Q D (Begin_enrollment m h secret) = P m"
| "call_within P Q D (Confirm_enrollment h m hashes) = P m"
| "call_within P Q D (Delete_enrollment h m) = D m"
| "call_within P Q D (Mark_used i) = Q i"
| "call_within P Q D (Record_step m step) = P m"
| "call_within P Q D (Get_enrollment m) = True"
| "call_within P Q D (List_codes m) = True"

lemma conn_rel_new_uuid:
  assumes "\<And>i. conn_rel R (k i)"
  shows "conn_rel R (\<lambda>s. case new_uuid s of (i, s) \<Rightarrow> k i s)"
  using assms by (simp add: conn_rel_def new_uuid_def) (metis pg.select_convs(1) pg.simps(7) pg.surjective pg.update_convs(5))

lemma mfa_call_related:
  assumes R: "mfa_writes_related R P Q D" and c: "call_within P Q D c"
  shows "R (db s) (db (fst (apply_mfa_call c s)))"
proof -
  have refl: "reflp R" and trans: "transp R" using R by (simp_all add: mfa_writes_related_def)
  note run = conn_rel_run_sql [OF refl]
  note sel = run [OF sql_rel_select_row [OF refl]] run [OF sql_rel_select [OF refl]]
  note bind = conn_rel_bind [OF trans]
  note rules = bind conn_rel_if conn_rel_case_prod conn_rel_case_option
    conn_rel_return [OF refl] conn_rel_transact [OF refl] sel
  have q: "P m \<Longrightarrow> conn_rel R (run_sql (sql_insert_mfa m h b))" "P m \<Longrightarrow> conn_rel R (run_sql (sql_replace_secret m b))"
      "P m \<Longrightarrow> conn_rel R (run_sql (sql_confirm m))" "P m \<Longrightarrow> conn_rel R (run_sql (sql_delete_codes m))"
      "P m \<Longrightarrow> conn_rel R (run_sql (sql_insert_code i m hash))" "D m \<Longrightarrow> conn_rel R (run_sql (sql_delete_mfa h m))"
      "Q ci \<Longrightarrow> conn_rel R (run_sql (sql_mark_used ci))" "P m \<Longrightarrow> conn_rel R (run_sql (sql_record_step m n))"
    for i m h b n hash ci
    using R by (auto intro!: run simp: mfa_writes_related_def)
  have ins: "conn_rel R (insert_codes m hs)" if "P m" for m hs
  proof (induction hs)
    case (Cons h hs)
    then show ?case
      unfolding insert_codes.simps(2) [abs_def] by (intro conn_rel_new_uuid rules q that)
  qed (simp add: conn_rel_return [OF refl])
  have once: "conn_rel R (beginEnrollmentOnce m h b)" if "P m" for m h b
    unfolding beginEnrollmentOnce_def [abs_def] begin_tx_def [abs_def]
    by (intro rules q that)
  have beg: "conn_rel R (BeginEnrollment m h b)" if "P m" for m h b
    unfolding BeginEnrollment_def [abs_def]
    apply (rule bind [OF once [OF that]])
     apply (case_tac e; simp)
      apply (intro rules once that)+
    done
  have conf: "conn_rel R (ConfirmEnrollmentWithCodes h m hs)" if "P m" for h m hs
    unfolding ConfirmEnrollmentWithCodes_def [abs_def] confirm_tx_def [abs_def]
    by (intro rules q ins that)
  have rest: "D m \<Longrightarrow> conn_rel R (DeleteEnrollment h m)" "Q ci \<Longrightarrow> conn_rel R (MarkRecoveryCodeUsed ci)"
      "P m \<Longrightarrow> conn_rel R (RecordLoginStep m n)" "conn_rel R (GetEnrollment m)" "conn_rel R (ListUnusedRecoveryCodes m)"
    for m h ci n
    unfolding DeleteEnrollment_def [abs_def] MarkRecoveryCodeUsed_def [abs_def] RecordLoginStep_def [abs_def]
      GetEnrollment_def [abs_def] ListUnusedRecoveryCodes_def [abs_def]
    by (intro rules q; assumption)+
  show ?thesis
    using beg conf rest c by (cases c) (simp_all add: conn_rel_def drop_value_def)
qed

section \<open>Accepted login steps\<close>

text \<open>The login steps of a member that a run of calls accepts, and the recovery codes it
  accepts, in order.\<close>

fun accepted_steps :: "member_id \<Rightarrow> mfa_call list \<Rightarrow> conn \<Rightarrow> int list" where
  "accepted_steps m [] s = []"
| "accepted_steps m (c # cs) s =
     (case apply_mfa_call c s of (s', r) \<Rightarrow>
       (case (c, r) of
          (Record_step m' step, Inr _) \<Rightarrow> if m' = m then [step] else []
        | _ \<Rightarrow> []) @ accepted_steps m cs s')"

definition run_mfa_calls :: "mfa_call list \<Rightarrow> conn \<Rightarrow> conn" where
  "run_mfa_calls cs s = fold (\<lambda>c s. fst (apply_mfa_call c s)) cs s"

fun accepted_codes :: "mfa_call list \<Rightarrow> conn \<Rightarrow> recovery_code_id list" where
  "accepted_codes [] s = []"
| "accepted_codes (c # cs) s =
     (case apply_mfa_call c s of (s', r) \<Rightarrow>
       (case (c, r) of (Mark_used i, Inr _) \<Rightarrow> [i] | _ \<Rightarrow> []) @ accepted_codes cs s')"

definition stepped_to :: "member_id \<Rightarrow> int \<Rightarrow> identity_db \<Rightarrow> bool" where
  "stepped_to m x d \<longleftrightarrow>
     mid m \<in> f_member ` set (mfas d) \<and>
     (\<forall>r \<in> set (mfas d). f_member r = mid m \<longrightarrow> (\<exists>y. f_step r = Some y \<and> x \<le> y))"

definition step_kept :: "member_id \<Rightarrow> int \<Rightarrow> identity_db \<Rightarrow> identity_db \<Rightarrow> bool" where
  "step_kept m x d d' \<longleftrightarrow> (stepped_to m x d \<longrightarrow> stepped_to m x d')"

lemma update_mfas_Inr:
  assumes "update_mfas P f d = Inr (d', n)"
  shows "d' = d\<lparr>mfas := update_where P f (mfas d)\<rparr>" "n = count_where P (mfas d)"
  using assms by (auto simp: update_mfas_def Let_def split: if_splits)

lemma update_keeps_steps:
  assumes "update_mfas P f d = Inr (d', n)"
    and "\<And>r. f_member (f r) = f_member r"
    and "\<And>r y. r \<in> set (mfas d) \<Longrightarrow> f_member r = mid m \<Longrightarrow> P r \<Longrightarrow> f_step r = Some y \<Longrightarrow> x \<le> y \<Longrightarrow>
           \<exists>z. f_step (f r) = Some z \<and> x \<le> z"
  shows "step_kept m x d d'"
proof -
  have "f_member ` set (mfas d') = f_member ` set (mfas d)"
    unfolding update_mfas_Inr(1) [OF assms(1)] using assms(2) by (simp add: image_update_where)
  moreover have "\<exists>y. f_step r = Some y \<and> x \<le> y"
    if r: "r \<in> set (mfas d')" "f_member r = mid m"
      and all: "\<forall>r \<in> set (mfas d). f_member r = mid m \<longrightarrow> (\<exists>y. f_step r = Some y \<and> x \<le> y)" for r
  proof -
    obtain r0 where r0: "r0 \<in> set (mfas d)" "r = (if P r0 then f r0 else r0)"
      using r(1) by (auto simp: update_mfas_Inr(1) [OF assms(1)] set_update_where)
    then have "f_member r0 = mid m" using r(2) assms(2) by (simp split: if_splits)
    with all r0(1) obtain y where "f_step r0 = Some y" "x \<le> y" by blast
    with assms(3) [OF r0(1) \<open>f_member r0 = mid m\<close>] show ?thesis using r0(2) by simp
  qed
  ultimately show ?thesis unfolding step_kept_def stepped_to_def by simp
qed

lemma insert_mfa_Inr:
  "insert_mfa r d = Inr d' \<Longrightarrow> d' = d\<lparr>mfas := mfas d @ [r]\<rparr> \<and> f_member r \<notin> f_member ` set (mfas d)"
  by (auto simp: insert_mfa_def split: if_splits)

lemma writes_step_kept: "mfa_writes_related (step_kept m x) (\<lambda>_. True) (\<lambda>_. True) (\<lambda>m'. m' \<noteq> m)"
  unfolding mfa_writes_related_def
proof (intro conjI allI impI)
  show "reflp (step_kept m x)" "transp (step_kept m x)"
    by (auto simp: step_kept_def reflp_def transp_def)
  show "sql_rel (step_kept m x) (sql_insert_mfa m' h b)" for m' h b
    unfolding sql_rel_def sql_insert_mfa_def
    by (auto split: sum.splits dest!: insert_mfa_Inr simp: step_kept_def stepped_to_def)
  show "sql_rel (step_kept m x) (sql_replace_secret m' b)" for m' b
    unfolding sql_rel_def sql_replace_secret_def by (auto intro!: update_keeps_steps)
  show "sql_rel (step_kept m x) (sql_confirm m')" for m'
    unfolding sql_rel_def sql_confirm_def by (auto intro!: update_keeps_steps)
  show "sql_rel (step_kept m x) (sql_delete_codes m')" for m'
    by (auto simp: sql_rel_def sql_delete_codes_def step_kept_def stepped_to_def)
  show "sql_rel (step_kept m x) (sql_insert_code i m' h)" for i m' h
    by (auto simp: sql_rel_def sql_insert_code_def insert_code_def step_kept_def stepped_to_def
        split: sum.splits if_splits)
  show "sql_rel (step_kept m x) (sql_delete_mfa h m')" if "m' \<noteq> m" for h m'
    using that by (auto simp: sql_rel_def sql_delete_mfa_def delete_mfas_def Let_def step_kept_def stepped_to_def
        delete_where_def image_iff)
  show "sql_rel (step_kept m x) (sql_mark_used i)" for i
    by (auto simp: sql_rel_def sql_mark_used_def Let_def step_kept_def stepped_to_def)
  show "sql_rel (step_kept m x) (sql_record_step m' n)" for m' n
    unfolding sql_rel_def sql_record_step_def by (auto intro!: update_keeps_steps)
qed

lemma record_step_accepted:
  assumes "RecordLoginStep m step s = (s', Inr u)"
  shows "stepped_to m step (db s')" and "stepped_to m x (db s) \<Longrightarrow> x < step"
proof -
  let ?P = "\<lambda>r. f_member r = mid m \<and> (case f_step r of None \<Rightarrow> True | Some prev \<Rightarrow> prev < step)"
  obtain n where "run_sql (sql_record_step m step) s = (s', Inr n)" "n \<noteq> 0"
    using assms by (auto simp: RecordLoginStep_def split: sum.splits prod.splits if_splits)
  then have q: "sql_record_step m step (db s) (clock s) = Inr (db s', n)" and n: "n \<noteq> 0"
    by (auto dest: run_sql_Inr)
  note u = update_mfas_Inr [OF q [unfolded sql_record_step_def]]
  obtain r where r: "r \<in> set (mfas (db s))" "?P r"
    using n by (auto simp: u(2) count_where_0)
  show "stepped_to m step (db s')"
    unfolding stepped_to_def
  proof
    show "mid m \<in> f_member ` set (mfas (db s'))"
      using r by (simp add: u(1) image_update_where image_iff) metis
    show "\<forall>r \<in> set (mfas (db s')). f_member r = mid m \<longrightarrow> (\<exists>y. f_step r = Some y \<and> step \<le> y)"
      by (auto simp: u(1) set_update_where split: option.splits)
  qed
  show "x < step" if "stepped_to m x (db s)"
    using that r by (fastforce simp: stepped_to_def)
qed

lemma accepted_steps_above:
  assumes "\<forall>c \<in> set cs. \<forall>h. c \<noteq> Delete_enrollment h m"
  shows "sorted_wrt (<) (accepted_steps m cs s) \<and>
         (stepped_to m x (db s) \<longrightarrow> (\<forall>y \<in> set (accepted_steps m cs s). x < y))"
  using assms
proof (induction cs arbitrary: s x)
  case (Cons c cs)
  obtain s' r where c: "apply_mfa_call c s = (s', r)" by fastforce
  have within: "call_within (\<lambda>_. True) (\<lambda>_. True) (\<lambda>m'. m' \<noteq> m) c"
    using Cons.prems by (cases c) auto
  have kept: "stepped_to m y (db s) \<Longrightarrow> stepped_to m y (db s')" for y
    using mfa_call_related [OF writes_step_kept within, where s = s] by (simp add: c step_kept_def)
  have ih: "sorted_wrt (<) (accepted_steps m cs s')"
      "stepped_to m y (db s') \<Longrightarrow> \<forall>z \<in> set (accepted_steps m cs s'). y < z" for y
    using Cons by auto
  show ?case
  proof (cases "\<exists>step u. c = Record_step m step \<and> r = Inr u")
    case True
    then obtain step u where cr: "c = Record_step m step" "r = Inr u" by blast
    then have "RecordLoginStep m step s = (s', Inr u)" using c by simp
    note acc = record_step_accepted [OF this]
    have "x < step" if "stepped_to m x (db s)" using acc(2) [OF that] .
    then show ?thesis using cr c ih(1) ih(2) [OF acc(1)] by fastforce
  next
    case False
    then have "accepted_steps m (c # cs) s = accepted_steps m cs s'"
      using c by (cases c; cases r) auto
    then show ?thesis using ih kept by simp
  qed
qed simp

text \<open>Over any calls of the repository and any connection faults, as long as the member's
  enrollment is not deleted, the login steps accepted for the member strictly increase. In
  particular no step is accepted twice.\<close>

theorem login_steps_increase:
  assumes "\<forall>c \<in> set cs. \<forall>h. c \<noteq> Delete_enrollment h m"
  shows "sorted_wrt (<) (accepted_steps m cs s)"
  using accepted_steps_above [OF assms] by blast

section \<open>Accepted recovery codes\<close>

text \<open>The id generator's next results up to its \<open>L\<close>-th are all different and name no code that
  exists.\<close>

definition ids_left :: "nat \<Rightarrow> conn \<Rightarrow> uuid set" where
  "ids_left L s = uuids s ` {uuids_used s..<L}"

definition ids_fresh :: "nat \<Rightarrow> conn \<Rightarrow> bool" where
  "ids_fresh L s \<longleftrightarrow> inj_on (uuids s) {..<L} \<and>
     (\<forall>c \<in> set (codes (db s)). c_id c \<notin> ids_left L s)"

definition burnt :: "nat \<Rightarrow> recovery_code_id \<Rightarrow> conn \<Rightarrow> bool" where
  "burnt L i s \<longleftrightarrow>
     rid i \<notin> ids_left L s \<and> (\<forall>c \<in> set (codes (db s)). c_id c = rid i \<longrightarrow> c_used c \<noteq> None)"

definition codes_rel :: "nat \<Rightarrow> recovery_code_id \<Rightarrow> conn \<Rightarrow> conn \<Rightarrow> bool" where
  "codes_rel L i s s' \<longleftrightarrow> uuids s' = uuids s \<and> uuids_used s \<le> uuids_used s' \<and>
     (ids_fresh L s \<and> uuids_used s' \<le> L \<longrightarrow> ids_fresh L s' \<and> (burnt L i s \<longrightarrow> burnt L i s'))"

lemma ids_left_mono: "uuids s' = uuids s \<Longrightarrow> uuids_used s \<le> uuids_used s' \<Longrightarrow> ids_left L s' \<subseteq> ids_left L s"
  by (auto simp: ids_left_def)

lemma ids_left_update [simp]: "ids_left L (s\<lparr>faults := fs\<rparr>) = ids_left L s" "ids_left L (s\<lparr>db := d\<rparr>) = ids_left L s"
  by (simp_all add: ids_left_def)

lemma codes_rel_preorder: "pg_preorder (codes_rel L i)"
  unfolding pg_preorder_def
proof (intro conjI allI impI)
  show "transp (codes_rel L i)" by (auto simp: transp_def codes_rel_def)
  show "codes_rel L i s (s\<lparr>faults := fs\<rparr>)" for s fs by (simp add: codes_rel_def ids_fresh_def burnt_def)
  show "codes_rel L i s (s'\<lparr>db := db s\<rparr>)" if "codes_rel L i s s'" for s s'
  proof -
    have u: "uuids s' = uuids s" "uuids_used s \<le> uuids_used s'" using that by (simp_all add: codes_rel_def)
    note sub = ids_left_mono [OF u, of L, THEN subsetD]
    have "ids_fresh L (s'\<lparr>db := db s\<rparr>)" if "ids_fresh L s"
      using that sub u by (auto simp: ids_fresh_def)
    moreover have "burnt L i (s'\<lparr>db := db s\<rparr>)" if "burnt L i s"
      using that sub by (auto simp: burnt_def)
    ultimately show ?thesis using u by (simp add: codes_rel_def)
  qed
qed

text \<open>A statement that only keeps codes, or marks them used.\<close>

definition codes_shrink :: "identity_db \<Rightarrow> identity_db \<Rightarrow> bool" where
  "codes_shrink d d' \<longleftrightarrow>
     (\<forall>c \<in> set (codes d'). \<exists>c' \<in> set (codes d). c_id c' = c_id c \<and> (c_used c' \<noteq> None \<longrightarrow> c_used c \<noteq> None))"

lemma run_shrink:
  assumes "\<And>d now d' a. q d now = Inr (d', a) \<Longrightarrow> codes_shrink d d'"
  shows "pg_rel (codes_rel L i) (run_sql q)"
proof (rule pg_rel_run_sql [OF codes_rel_preorder])
  fix s :: conn and d a fs assume "q (db s) (clock s) = Inr (d, a)"
  then have "codes_shrink (db s) d" by (rule assms)
  then show "codes_rel L i s (s\<lparr>faults := fs, db := d\<rparr>)"
    unfolding codes_rel_def ids_fresh_def burnt_def codes_shrink_def by simp metis
qed

lemma codes_shrink_same: "codes d' = codes d \<Longrightarrow> codes_shrink d d'"
  by (auto simp: codes_shrink_def)

lemma sql_insert_code_Inr:
  assumes "sql_insert_code j m h d now = Inr (d', a)"
  shows "d' = d\<lparr>codes := codes d @ [\<lparr>c_id = j, c_member = mid m, c_hash = h, c_used = None, c_created = now\<rparr>]\<rparr>"
  using assms by (auto simp: sql_insert_code_def insert_code_def split: sum.splits if_splits)

lemma insert_code_step:
  fixes s :: conn
  assumes "new_uuid s = (j, s1)" and "run_sql (sql_insert_code j m h) s1 = (s2, r)"
  shows "codes_rel L i s s2"
proof -
  have j: "j = uuids s (uuids_used s)" and s1: "uuids s1 = uuids s" "db s1 = db s" "uuids_used s1 = Suc (uuids_used s)"
    using assms(1) by (auto simp: new_uuid_def)
  note fr = run_sql_frame [OF assms(2)]
  have new: "c \<in> set (codes (db s)) \<or> c_id c = j" if "c \<in> set (codes (db s2))" for c
    using run_sql_db [OF assms(2)]
  proof (elim disjE exE conjE)
    fix d a assume q: "sql_insert_code j m h (db s1) (clock s1) = Inr (d, a)" and d: "db s2 = d"
    from sql_insert_code_Inr [OF q] that show ?thesis by (auto simp: d s1)
    from sql_insert_code_Inr [OF q] that show ?thesis by (auto simp: d s1)
  qed (use that s1 in auto)
  have left: "ids_left L s2 = uuids s ` {Suc (uuids_used s)..<L}" using fr s1 by (simp add: ids_left_def)
  have sub: "ids_left L s2 \<subseteq> ids_left L s" unfolding left by (auto simp: ids_left_def)
  have gone: "j \<notin> ids_left L s2" if "ids_fresh L s"
  proof
    assume "j \<in> ids_left L s2"
    then obtain n where n: "n \<in> {Suc (uuids_used s)..<L}" "j = uuids s n" unfolding left by blast
    then have "uuids_used s = n" using that j by (intro inj_onD [of "uuids s" "{..<L}"]) (auto simp: ids_fresh_def)
    with n show False by simp
  qed
  have ids: "c_id c \<notin> ids_left L s2" if "ids_fresh L s" "c \<in> set (codes (db s2))" for c
    using new [OF that(2)]
  proof
    assume "c \<in> set (codes (db s))"
    then show ?thesis using that(1) sub by (auto simp: ids_fresh_def)
  next
    assume "c_id c = j"
    then show ?thesis using gone [OF that(1)] by simp
  qed
  have used: "c_used c \<noteq> None" if b: "burnt L i s" "uuids_used s < L" and c: "c \<in> set (codes (db s2))" "c_id c = rid i" for c
  proof -
    have "c_id c \<noteq> j" using b c(2) by (auto simp: burnt_def j ids_left_def)
    with new [OF c(1)] have "c \<in> set (codes (db s))" by blast
    with b(1) c(2) show ?thesis unfolding burnt_def by blast
  qed
  show ?thesis
    unfolding codes_rel_def
  proof (intro conjI impI)
    assume L: "ids_fresh L s \<and> uuids_used s2 \<le> L"
    then show "ids_fresh L s2" using ids fr s1 by (simp add: ids_fresh_def)
    assume b: "burnt L i s"
    have "uuids_used s < L" using L fr s1 by simp
    with used [OF b] b sub show "burnt L i s2" by (auto simp: burnt_def)
  qed (use fr s1 in simp_all)
qed

lemma insert_codes_rel: "pg_rel (codes_rel L i) (insert_codes m hs)"
proof (induction hs)
  case Nil
  show ?case by (simp add: pg_rel_return [OF codes_rel_preorder])
next
  case (Cons h hs)
  show ?case
    unfolding pg_rel_def
  proof
    fix s :: conn
    obtain j s1 where j: "new_uuid s = (j, s1)" by fastforce
    obtain s2 r where r: "run_sql (sql_insert_code j m h) s1 = (s2, r)" by fastforce
    have 1: "codes_rel L i s s2" by (rule insert_code_step [OF j r])
    have "codes_rel L i s2 (fst (insert_codes m hs s2))" using Cons by (simp add: pg_rel_def)
    then have "codes_rel L i s (fst (insert_codes m hs s2))"
      by (rule pg_preorder_trans [OF codes_rel_preorder 1])
    with 1 show "codes_rel L i s (fst (insert_codes m (h # hs) s))"
      by (cases r) (simp_all add: j r)
  qed
qed

text \<open>The rules for \<open>codes_rel\<close>, and the statements that respect it.\<close>

lemmas codes_rel_rules = pg_rel_bind [OF codes_rel_preorder] pg_rel_if
  pg_rel_return [OF codes_rel_preorder] pg_rel_select [OF codes_rel_preorder]

lemma transact_codes_rel: "pg_rel (codes_rel L i) body \<Longrightarrow> pg_rel (codes_rel L i) (transact infra body)"
  by (rule transact_rel [OF codes_rel_preorder]) (simp add: pg_rel_def)

lemma run_codes_rel:
  "pg_rel (codes_rel L i) (run_sql (sql_insert_mfa m h b))" "pg_rel (codes_rel L i) (run_sql (sql_replace_secret m b))"
  "pg_rel (codes_rel L i) (run_sql (sql_confirm m))" "pg_rel (codes_rel L i) (run_sql (sql_delete_codes m))"
  "pg_rel (codes_rel L i) (run_sql (sql_delete_mfa h m))" "pg_rel (codes_rel L i) (run_sql (sql_mark_used ci))"
  "pg_rel (codes_rel L i) (run_sql (sql_record_step m n))"
proof -
  show "pg_rel (codes_rel L i) (run_sql (sql_insert_mfa m h b))"
    by (rule run_shrink, rule codes_shrink_same)
      (auto simp: sql_insert_mfa_def split: sum.splits dest!: insert_mfa_Inr)
  show "pg_rel (codes_rel L i) (run_sql (sql_replace_secret m b))" "pg_rel (codes_rel L i) (run_sql (sql_confirm m))"
      "pg_rel (codes_rel L i) (run_sql (sql_record_step m n))"
    by (rule run_shrink, rule codes_shrink_same,
        auto simp: sql_replace_secret_def sql_confirm_def sql_record_step_def dest!: update_mfas_Inr(1))+
  show "pg_rel (codes_rel L i) (run_sql (sql_delete_codes m))"
    by (rule run_shrink) (auto simp: sql_delete_codes_def codes_shrink_def delete_where_def)
  show "pg_rel (codes_rel L i) (run_sql (sql_delete_mfa h m))"
    by (rule run_shrink) (auto simp: sql_delete_mfa_def delete_mfas_def Let_def codes_shrink_def delete_where_def)
  show "pg_rel (codes_rel L i) (run_sql (sql_mark_used ci))"
    by (rule run_shrink) (force simp: sql_mark_used_def Let_def codes_shrink_def set_update_where)
qed

lemma mfa_call_codes_rel: "codes_rel L i s (fst (apply_mfa_call c s))"
proof -
  note rules = codes_rel_rules run_codes_rel insert_codes_rel transact_codes_rel
  have once: "pg_rel (codes_rel L i) (beginEnrollmentOnce m h b)" for m h b
    unfolding beginEnrollmentOnce_def [abs_def] begin_tx_def [abs_def] by (intro rules)
  have "pg_rel (codes_rel L i) (BeginEnrollment m h b)" for m h b
    unfolding BeginEnrollment_def [abs_def]
    apply (rule pg_rel_bind [OF codes_rel_preorder once])
     apply (case_tac e; simp)
      apply (intro rules once)+
    done
  moreover have "pg_rel (codes_rel L i) (ConfirmEnrollmentWithCodes h m hs)" "pg_rel (codes_rel L i) (DeleteEnrollment h m)"
      "pg_rel (codes_rel L i) (MarkRecoveryCodeUsed ci)" "pg_rel (codes_rel L i) (RecordLoginStep m n)"
      "pg_rel (codes_rel L i) (GetEnrollment m)" "pg_rel (codes_rel L i) (ListUnusedRecoveryCodes m)"
    for h m hs ci n
    unfolding ConfirmEnrollmentWithCodes_def [abs_def] confirm_tx_def [abs_def] DeleteEnrollment_def [abs_def]
      MarkRecoveryCodeUsed_def [abs_def] RecordLoginStep_def [abs_def]
      GetEnrollment_def [abs_def] ListUnusedRecoveryCodes_def [abs_def]
    by (intro rules)+
  ultimately show ?thesis
    by (cases c) (simp_all add: pg_rel_def drop_value_def)
qed

lemma mark_used_accepted:
  assumes "MarkRecoveryCodeUsed i s = (s', Inr u)" and "ids_fresh L s"
  shows "burnt L i s'" and "\<not> burnt L i s"
proof -
  let ?P = "\<lambda>c. c_id c = rid i \<and> c_used c = None"
  obtain n where r: "run_sql (sql_mark_used i) s = (s', Inr n)" and n: "n \<noteq> 0"
    using assms by (auto simp: MarkRecoveryCodeUsed_def split: sum.splits prod.splits if_splits)
  from run_sql_Inr [OF r] have cs: "codes (db s') = update_where ?P (\<lambda>c. c\<lparr>c_used := Some (clock s)\<rparr>) (codes (db s))"
      and "n = count_where ?P (codes (db s))"
    by (auto simp: sql_mark_used_def Let_def dest!: sym [of _ "db s'"])
  then obtain c where c: "c \<in> set (codes (db s))" "?P c" using n by (auto simp: count_where_0)
  then show "\<not> burnt L i s" by (auto simp: burnt_def)
  have "rid i \<notin> ids_left L s" using assms(2) c by (auto simp: ids_fresh_def)
  then show "burnt L i s'"
    using run_sql_frame [OF r] by (auto simp: burnt_def ids_left_def cs set_update_where)
qed

lemma run_mfa_calls_ids: "uuids s' = uuids s \<and> uuids_used s \<le> uuids_used s'" if "run_mfa_calls cs s = s'"
  using that
proof (induction cs arbitrary: s)
  case (Cons c cs)
  have "codes_rel 0 (RecoveryCodeID 0) s (fst (apply_mfa_call c s))" by (rule mfa_call_codes_rel)
  with Cons.IH [of "fst (apply_mfa_call c s)"] Cons.prems show ?case
    by (auto simp: run_mfa_calls_def codes_rel_def)
qed (simp add: run_mfa_calls_def)

lemma accepted_codes_not_burnt:
  assumes "ids_fresh L s" and "uuids_used (run_mfa_calls cs s) \<le> L"
  shows "distinct (accepted_codes cs s) \<and> (\<forall>i \<in> set (accepted_codes cs s). \<not> burnt L i s)"
  using assms
proof (induction cs arbitrary: s)
  case (Cons c cs)
  obtain s' r where c: "apply_mfa_call c s = (s', r)" by fastforce
  have rel: "codes_rel L i s s'" for i using mfa_call_codes_rel [of L i s c] by (simp add: c)
  have run: "run_mfa_calls (c # cs) s = run_mfa_calls cs s'" by (simp add: run_mfa_calls_def c)
  have L: "uuids_used s' \<le> L" using run_mfa_calls_ids [OF refl, of cs s'] Cons.prems(2) run by simp
  then have fresh': "ids_fresh L s'" using rel Cons.prems by (simp add: codes_rel_def)
  have burnt': "burnt L i s \<Longrightarrow> burnt L i s'" for i using rel [of i] Cons.prems L by (simp add: codes_rel_def)
  note ih = Cons.IH [OF fresh' Cons.prems(2) [unfolded run]]
  show ?case
  proof (cases "\<exists>i u. c = Mark_used i \<and> r = Inr u")
    case True
    then obtain i u where cr: "c = Mark_used i" "r = Inr u" by blast
    then have "MarkRecoveryCodeUsed i s = (s', Inr u)" using c by simp
    note acc = mark_used_accepted [OF this Cons.prems(1)]
    have "accepted_codes (c # cs) s = i # accepted_codes cs s'" using cr c by simp
    then show ?thesis using ih acc burnt' by auto
  next
    case False
    then have "accepted_codes (c # cs) s = accepted_codes cs s'"
      using c by (cases c; cases r) auto
    then show ?thesis using ih burnt' by auto
  qed
qed simp

text \<open>Over any calls of the repository and any connection faults no recovery code is
  accepted twice, when the id generator does not repeat itself during the run.\<close>

theorem recovery_codes_single_use:
  assumes "ids_fresh (uuids_used (run_mfa_calls cs s)) s"
  shows "distinct (accepted_codes cs s)"
  using accepted_codes_not_burnt [OF assms order_refl] by blast

section \<open>Confirmation\<close>

definition pending :: "household_id \<Rightarrow> member_id \<Rightarrow> identity_db \<Rightarrow> bool" where
  "pending h m d \<longleftrightarrow> (\<exists>r \<in> set (mfas d). f_member r = mid m \<and> f_household r = hid h \<and> f_confirmed r = None)"

definition enrolled_in :: "household_id \<Rightarrow> member_id \<Rightarrow> identity_db \<Rightarrow> bool" where
  "enrolled_in h m d \<longleftrightarrow> (\<exists>r \<in> set (mfas d). f_member r = mid m \<and> f_household r = hid h)"

fun code_rows :: "member_id \<Rightarrow> time \<Rightarrow> (nat \<Rightarrow> uuid) \<Rightarrow> nat \<Rightarrow> string list \<Rightarrow> code_row list" where
  "code_rows m now ids n [] = []"
| "code_rows m now ids n (h # hs) =
     \<lparr>c_id = ids n, c_member = mid m, c_hash = h, c_used = None, c_created = now\<rparr> #
       code_rows m now ids (Suc n) hs"

text \<open>What a successful confirmation makes of the database.\<close>

definition confirmed_db :: "member_id \<Rightarrow> string list \<Rightarrow> conn \<Rightarrow> identity_db" where
  "confirmed_db m hashes s =
     (db s)\<lparr>mfas := update_where (\<lambda>r. f_member r = mid m)
              (\<lambda>r. r\<lparr>f_confirmed := Some (clock s), f_updated := clock s\<rparr>) (mfas (db s)),
            codes := delete_where (\<lambda>c. c_member c = mid m) (codes (db s)) @
              code_rows m (clock s) (uuids s) (uuids_used s) hashes\<rparr>"

lemma mfa_row_unique:
  "db_ok d \<Longrightarrow> r \<in> set (mfas d) \<Longrightarrow> r' \<in> set (mfas d) \<Longrightarrow> f_member r' = f_member r \<Longrightarrow> r' = r"
  by (auto simp: db_ok_def mfas_ok_def distinct_map dest: inj_onD)

lemma mfa_rows_unique:
  assumes "db_ok d" and "mfa_rows m d = r # rs"
  shows "r \<in> set (mfas d)" "f_member r = mid m"
    "\<And>r'. r' \<in> set (mfas d) \<Longrightarrow> f_member r' = mid m \<Longrightarrow> r' = r"
proof -
  have "r \<in> set (mfa_rows m d)" by (simp add: assms(2))
  then show r: "r \<in> set (mfas d)" "f_member r = mid m" by (auto simp: mfa_rows_def)
  show "r' = r" if "r' \<in> set (mfas d)" "f_member r' = mid m" for r'
    using mfa_row_unique [OF assms(1) r(1) that(1)] that(2) r(2) by simp
qed

lemma mfa_rows_none: "mfa_rows m d = [] \<Longrightarrow> r \<in> set (mfas d) \<Longrightarrow> f_member r \<noteq> mid m"
  by (auto simp: mfa_rows_def filter_empty_conv)

lemma insert_codes_Inr:
  assumes "insert_codes m hs s = (s', Inr u)"
  shows "db s' = (db s)\<lparr>codes := codes (db s) @ code_rows m (clock s) (uuids s) (uuids_used s) hs\<rparr>"
  using assms
proof (induction hs arbitrary: s)
  case (Cons h hs)
  obtain j s1 where j: "new_uuid s = (j, s1)" by fastforce
  then have s1: "j = uuids s (uuids_used s)" "db s1 = db s" "clock s1 = clock s" "uuids s1 = uuids s"
      "uuids_used s1 = Suc (uuids_used s)"
    by (auto simp: new_uuid_def)
  obtain s2 r where r: "run_sql (sql_insert_code j m h) s1 = (s2, r)" by fastforce
  with Cons.prems j obtain v where v: "r = Inr v" "insert_codes m hs s2 = (s', Inr u)"
    by (cases r) auto
  have "db s2 = (db s1)\<lparr>codes := codes (db s1) @
      [\<lparr>c_id = j, c_member = mid m, c_hash = h, c_used = None, c_created = clock s1\<rparr>]\<rparr>"
    using r v(1) by (intro sql_insert_code_Inr) (auto dest: run_sql_Inr)
  with Cons.IH [OF v(2)] run_sql_frame [OF r] s1 show ?case by simp
qed simp

lemma insert_codes_succeed:
  fixes s :: conn
  assumes "faults s = []" and "ids_fresh (uuids_used s + length hs) s" and "mid m \<in> f_member ` set (mfas (db s))"
  shows "\<exists>s'. insert_codes m hs s = (s', Inr ()) \<and> faults s' = []"
  using assms
proof (induction hs arbitrary: s)
  case (Cons h hs)
  obtain j s1 where j: "new_uuid s = (j, s1)" by fastforce
  then have s1: "j = uuids s (uuids_used s)" "db s1 = db s" "faults s1 = []"
    using Cons.prems(1) by (auto simp: new_uuid_def)
  have "j \<notin> c_id ` set (codes (db s1))"
    using Cons.prems(2) by (force simp: ids_fresh_def ids_left_def s1)
  then have ok: "run_sql (sql_insert_code j m h) s1 =
      (s1\<lparr>db := (db s)\<lparr>codes := codes (db s) @
        [\<lparr>c_id = j, c_member = mid m, c_hash = h, c_used = None, c_created = clock s1\<rparr>]\<rparr>\<rparr>, Inr ())"
      (is "_ = (?s2, _)")
    using Cons.prems(3) by (simp add: run_sql_no_faults s1 sql_insert_code_def insert_code_def)
  have u2: "uuids_used ?s2 = Suc (uuids_used s)" using j by (auto simp: new_uuid_def)
  have "ids_fresh (uuids_used ?s2 + length hs) ?s2"
    using insert_code_step [OF j ok, of "uuids_used s + length (h # hs)"] Cons.prems(2) u2
    by (simp add: codes_rel_def)
  then have "\<exists>s'. insert_codes m hs ?s2 = (s', Inr ()) \<and> faults s' = []"
    using Cons.prems(3) s1 by (intro Cons.IH) simp_all
  then show ?case by (simp add: j ok)
qed simp

lemma confirm_tx_Inr:
  assumes "db_ok (db s)" and "confirm_tx h m hashes s = (s', Inr u)"
  shows "pending h m (db s) \<and> db s' = confirmed_db m hashes s"
proof -
  obtain s1 r where sel: "run_sql (select_row (mfa_rows m)) s = (s1, r)" by fastforce
  then obtain row where row: "r = Inr row" "f_household row = hid h" "f_confirmed row = None"
    using assms(2) by (cases r) (auto simp: confirm_tx_def split: if_splits)
  obtain s2 r2 where c: "run_sql (sql_confirm m) s1 = (s2, r2)" by fastforce
  then obtain n2 where n2: "r2 = Inr n2"
    using assms(2) sel row by (cases r2) (auto simp: confirm_tx_def)
  obtain s3 r3 where x: "run_sql (sql_delete_codes m) s2 = (s3, r3)" by fastforce
  then obtain n3 where n3: "r3 = Inr n3"
    using assms(2) sel row c n2 by (cases r3) (auto simp: confirm_tx_def)
  have ins: "insert_codes m hashes s3 = (s', Inr u)"
    using assms(2) sel row c n2 x n3 by (simp add: confirm_tx_def)
  have d1: "db s1 = db s" using select_row_db [OF sel] .
  note d2 = update_mfas_Inr(1) [OF run_sql_Inr [OF c [unfolded n2], unfolded sql_confirm_def]]
  have d3: "db s3 = (db s2)\<lparr>codes := delete_where (\<lambda>c. c_member c = mid m) (codes (db s2))\<rparr>"
    using run_sql_Inr [OF x [unfolded n3]] by (simp add: sql_delete_codes_def)
  obtain rest where "mfa_rows m (db s) = row # rest"
    using select_row_Inr [OF sel [unfolded row(1)]] by blast
  note ur = mfa_rows_unique [OF assms(1) this]
  have "pending h m (db s)" using ur(1,2) row by (auto simp: pending_def)
  moreover have "db s' = confirmed_db m hashes s"
    unfolding insert_codes_Inr [OF ins] confirmed_db_def d3 d2 d1
    using run_sql_frame [OF sel] run_sql_frame [OF c] run_sql_frame [OF x] by simp
  ultimately show ?thesis ..
qed

lemma confirm_Inr:
  assumes "db_ok (db s)" and "ConfirmEnrollmentWithCodes h m hashes s = (s', Inr u)"
  shows "pending h m (db s) \<and> db s' = confirmed_db m hashes s"
  using assms(2) unfolding ConfirmEnrollmentWithCodes_def
proof (cases rule: transact_Inr)
  case (1 s1 s2)
  have "confirmed_db m hashes s1 = confirmed_db m hashes s" by (simp add: confirmed_db_def 1)
  with confirm_tx_Inr [OF _ 1(5)] assms(1) 1 show ?thesis by simp
qed

lemma confirm_tx_no_faults:
  assumes ok: "db_ok (db s)" and fresh: "ids_fresh (uuids_used s + length hashes) s" and nf: "faults s = []"
  shows "(if pending h m (db s) then \<exists>s'. confirm_tx h m hashes s = (s', Inr ()) \<and> faults s' = []
     else confirm_tx h m hashes s =
       (s, Inl (if enrolled_in h m (db s) then ErrMFAAlreadyEnrolled else ErrMFANotEnrolled)))"
proof (cases "mfa_rows m (db s)")
  case Nil
  then have "\<not> pending h m (db s)" "\<not> enrolled_in h m (db s)"
    using mfa_rows_none by (auto simp: pending_def enrolled_in_def)
  then show ?thesis
    using Nil nf by (simp add: confirm_tx_def run_sql_no_faults select_row_def)
next
  case (Cons row rest)
  note ur = mfa_rows_unique [OF ok Cons]
  have sel: "run_sql (select_row (mfa_rows m)) s = (s, Inr row)"
    using nf Cons by (simp add: run_sql_no_faults select_row_def)
  have one: "(\<exists>r \<in> set (mfas (db s)). f_member r = mid m \<and> Q r) \<longleftrightarrow> Q row" for Q
    using ur by metis
  note iff = one [of "\<lambda>r. f_household r = hid h \<and> f_confirmed r = None", folded pending_def]
    one [of "\<lambda>r. f_household r = hid h", folded enrolled_in_def]
  show ?thesis
  proof (cases "pending h m (db s)")
    case False
    then show ?thesis using sel iff by (auto simp: confirm_tx_def)
  next
    case True
    define rows where "rows = update_where (\<lambda>r. f_member r = mid m)
      (\<lambda>r. r\<lparr>f_confirmed := Some (clock s), f_updated := clock s\<rparr>) (mfas (db s))"
    have "\<forall>r \<in> set rows. f_secret r \<noteq> []"
      using ok by (auto simp: rows_def set_update_where db_ok_def mfas_ok_def)
    then have c: "run_sql (sql_confirm m) s =
        (s\<lparr>db := (db s)\<lparr>mfas := rows\<rparr>\<rparr>, Inr (count_where (\<lambda>r. f_member r = mid m) (mfas (db s))))"
      using nf by (simp add: run_sql_no_faults sql_confirm_def update_mfas_def rows_def list_all_iff Let_def)
    define s3 where "s3 = s\<lparr>db := (db s)\<lparr>mfas := rows, codes := delete_where (\<lambda>c. c_member c = mid m) (codes (db s))\<rparr>\<rparr>"
    have x: "\<exists>n. run_sql (sql_delete_codes m) (s\<lparr>db := (db s)\<lparr>mfas := rows\<rparr>\<rparr>) = (s3, Inr n)"
      using nf by (simp add: run_sql_no_faults sql_delete_codes_def s3_def)
    have "f_member ` set rows = f_member ` set (mfas (db s))"
      unfolding rows_def by (rule image_update_where) simp
    moreover have "mid m \<in> f_member ` set (mfas (db s))"
      using ur(1,2) by (metis image_eqI)
    ultimately have "mid m \<in> f_member ` set (mfas (db s3))" by (simp add: s3_def)
    moreover have "ids_fresh (uuids_used s3 + length hashes) s3" using fresh by (auto simp: ids_fresh_def ids_left_def s3_def delete_where_def)
    ultimately have "\<exists>s'. insert_codes m hashes s3 = (s', Inr ()) \<and> faults s' = []"
      using nf by (intro insert_codes_succeed) (simp_all add: s3_def)
    then show ?thesis using sel True iff c x by (auto simp: confirm_tx_def)
  qed
qed

text \<open>C3: confirming an enrollment is all or nothing. Whatever faults the connection has, either
  the database is untouched and the caller gets an error, or the pending enrollment of that
  household is confirmed and its recovery codes are exactly the hashes given; a caller who
  gets no error is in the second case. Without faults a pending enrollment is confirmed, and
  otherwise the error says whether there was one at all.\<close>

theorem confirm_all_or_nothing:
  assumes "db_ok (db s)" and "ids_fresh (uuids_used s + length hashes) s" and "ConfirmEnrollmentWithCodes h m hashes s = (s', r)"
  shows "(db s' = db s \<and> (\<exists>e. r = Inl e) \<or>
          db s' = confirmed_db m hashes s \<and> pending h m (db s) \<and> (r = Inr () \<or> r = Inl ErrOther)) \<and>
         (faults s = [] \<longrightarrow>
          r = (if pending h m (db s) then Inr ()
               else Inl (if enrolled_in h m (db s) then ErrMFAAlreadyEnrolled else ErrMFANotEnrolled)))"
proof
  show "db s' = db s \<and> (\<exists>e. r = Inl e) \<or>
          db s' = confirmed_db m hashes s \<and> pending h m (db s) \<and> (r = Inr () \<or> r = Inl ErrOther)"
    using assms(3) unfolding ConfirmEnrollmentWithCodes_def
  proof (cases rule: transact_db)
    case (Done s1 s2 u)
    have "confirmed_db m hashes s1 = confirmed_db m hashes s"
      by (simp add: confirmed_db_def Done)
    with confirm_tx_Inr [OF _ Done(5)] assms(1) Done show ?thesis by simp
  qed simp
  show "faults s = [] \<longrightarrow>
          r = (if pending h m (db s) then Inr ()
               else Inl (if enrolled_in h m (db s) then ErrMFAAlreadyEnrolled else ErrMFANotEnrolled))"
  proof
    assume nf: "faults s = []"
    note tx = confirm_tx_no_faults [OF assms(1,2) nf, of h m]
    have "transact ErrOther (confirm_tx h m hashes) s =
        (case confirm_tx h m hashes s of (s2, Inl e) \<Rightarrow> (s2\<lparr>db := db s\<rparr>, Inl e) | (s2, Inr a) \<Rightarrow> (s2, Inr a))"
    proof (rule transact_no_faults [OF nf])
      fix s2 u assume "confirm_tx h m hashes s = (s2, Inr u)"
      with tx show "faults s2 = []" by (cases "pending h m (db s)") auto
    qed
    with tx assms(3) show "r = (if pending h m (db s) then Inr ()
               else Inl (if enrolled_in h m (db s) then ErrMFAAlreadyEnrolled else ErrMFANotEnrolled))"
      by (cases "pending h m (db s)") (auto simp: ConfirmEnrollmentWithCodes_def)
  qed
qed

section \<open>Isolation\<close>

text \<open>Everything in the database except the enrollment of one member, the codes of that member
  and one code.\<close>

definition rest_of :: "member_id \<Rightarrow> recovery_code_id \<Rightarrow> identity_db \<Rightarrow>
    household_row list \<times> member_row list \<times> mfa_row list \<times> code_row list \<times> passkey_row list" where
  "rest_of m i d =
     (households d, members d, filter (\<lambda>r. f_member r \<noteq> mid m) (mfas d),
      filter (\<lambda>c. c_member c \<noteq> mid m \<and> c_id c \<noteq> rid i) (codes d), passkeys d)"

definition isolated :: "member_id \<Rightarrow> recovery_code_id \<Rightarrow> identity_db \<Rightarrow> identity_db \<Rightarrow> bool" where
  "isolated m i d d' \<longleftrightarrow> rest_of m i d' = rest_of m i d \<and> (db_ok d \<longrightarrow> db_ok d')"

lemma filter_update_where:
  assumes "\<And>r. P r \<Longrightarrow> \<not> Q r \<and> \<not> Q (f r)"
  shows "filter Q (update_where P f rows) = filter Q rows"
  using assms by (induction rows) (auto simp: update_where_def)

lemma filter_delete_where:
  assumes "\<And>r. P r \<Longrightarrow> \<not> Q r"
  shows "filter Q (delete_where P rows) = filter Q rows"
  using assms by (induction rows) (auto simp: delete_where_def)

lemma isolated_update_mfas:
  assumes "update_mfas P f d = Inr (d', n)" and "\<And>r. P r \<Longrightarrow> f_member r = mid m"
    and "\<And>r. f_member (f r) = f_member r \<and> f_household (f r) = f_household r"
  shows "isolated m i d d'"
  using update_mfas_ok [OF _ assms(1)] assms(2,3)
  by (simp add: isolated_def rest_of_def update_mfas_Inr(1) [OF assms(1)] filter_update_where)

lemma writes_isolated:
  "mfa_writes_related (isolated m i) (\<lambda>m'. m' = m) (\<lambda>i'. i' = i) (\<lambda>m'. m' = m)"
  unfolding mfa_writes_related_def
proof (intro conjI allI impI)
  show "reflp (isolated m i)" "transp (isolated m i)" by (auto simp: isolated_def reflp_def transp_def)
  show "sql_rel (isolated m i) (sql_insert_mfa m' h b)" if "m' = m" for m' h b
    unfolding sql_rel_def
  proof (intro allI impI)
    fix d :: identity_db and now d' a assume "sql_insert_mfa m' h b d now = Inr (d', a)"
    then have ins: "insert_mfa \<lparr>f_member = mid m', f_household = hid h, f_secret = b, f_confirmed = None,
        f_step = None, f_created = now, f_updated = now\<rparr> d = Inr d'" (is "insert_mfa ?row d = _")
      by (auto simp: sql_insert_mfa_def split: sum.splits)
    have row: "insert_mfa ?row d = Inr d'" "f_member ?row = mid m" using ins that by simp_all
    with insert_mfa_ok [OF _ row(1)] insert_mfa_Inr [OF row(1)] show "isolated m i d d'"
      by (simp add: isolated_def rest_of_def)
  qed
  show "sql_rel (isolated m i) (sql_replace_secret m' b)" if "m' = m" for m' b
    unfolding sql_rel_def sql_replace_secret_def by (auto intro!: isolated_update_mfas simp: that)
  show "sql_rel (isolated m i) (sql_confirm m')" if "m' = m" for m'
    unfolding sql_rel_def sql_confirm_def by (auto intro!: isolated_update_mfas simp: that)
  show "sql_rel (isolated m i) (sql_record_step m' n)" if "m' = m" for m' n
    unfolding sql_rel_def sql_record_step_def by (auto intro!: isolated_update_mfas simp: that)
  show "sql_rel (isolated m i) (sql_delete_codes m')" if "m' = m" for m'
    by (auto simp: sql_rel_def sql_delete_codes_def isolated_def rest_of_def that filter_delete_where
        delete_codes_ok)
  show "sql_rel (isolated m i) (sql_insert_code j m' h)" if "m' = m" for j m' h
    using insert_code_ok
    by (auto simp: sql_rel_def sql_insert_code_def isolated_def that rest_of_def split: sum.splits)
      (auto simp: insert_code_def split: if_splits)
  show "sql_rel (isolated m i) (sql_delete_mfa h m')" if "m' = m" for h m'
    unfolding sql_rel_def
  proof (intro allI impI)
    fix d :: identity_db and now d' and a :: nat
    assume "sql_delete_mfa h m' d now = Inr (d', a)"
    then have "delete_mfas (\<lambda>r. f_member r = mid m \<and> f_household r = hid h) d = (d', a)"
      by (simp add: sql_delete_mfa_def that)
    note del = this
    have "rest_of m i d' = rest_of m i d"
      using del unfolding delete_mfas_def Let_def rest_of_def
      by (intro prod_eqI) (auto intro!: filter_delete_where)
    with delete_mfas_ok [OF _ del] show "isolated m i d d'" by (simp add: isolated_def)
  qed
  show "sql_rel (isolated m i) (sql_mark_used j)" if "j = i" for j
    by (auto simp: sql_rel_def sql_mark_used_def Let_def isolated_def rest_of_def that update_codes_ok
        intro!: filter_update_where)
qed

text \<open>A caller from another household than the enrollment's gets nowhere.\<close>

lemma foreign_select:
  assumes "db_ok (db s)" and row: "row \<in> set (mfas (db s))" "f_member row = mid m"
    and "run_sql (select_row (mfa_rows m)) s = (s1, r)"
  shows "db s1 = db s \<and> (r = Inr row \<or> (\<exists>e. r = Inl e \<and> e \<noteq> ErrNoRows))"
proof (cases r)
  case (Inl e)
  have "mfa_rows m (db s) \<noteq> []" using mfa_rows_none row by blast
  then have "e \<noteq> ErrNoRows" using assms(4) Inl select_row_none by blast
  then show ?thesis using Inl select_row_db [OF assms(4)] by simp
next
  case (Inr a)
  obtain rest where rest: "mfa_rows m (db s) = a # rest"
    using select_row_Inr [OF assms(4) [unfolded Inr]] by (elim exE)
  have "row = a" by (rule mfa_rows_unique(3) [OF assms(1) rest row])
  then show ?thesis using Inr select_row_db [OF assms(4)] by simp
qed

lemma transact_refuses:
  assumes "transact infra body s = (s', r)"
    and "\<And>s1. db s1 = db s \<Longrightarrow> \<exists>s2 e. body s1 = (s2, Inl e) \<and> e \<in> E" and "infra \<in> E"
  shows "db s' = db s \<and> r \<in> Inl ` E"
proof -
  obtain s1 r1 where b: "run_sql (\<lambda>d now. Inr (d, ())) s = (s1, r1)" by fastforce
  have "db s1 = db s" using run_sql_db [OF b] by auto
  moreover from assms(2) [OF this] obtain s2 e where "body s1 = (s2, Inl e)" "e \<in> E" by blast
  ultimately show ?thesis using assms(1,3) b by (cases r1) (auto simp: transact_def)
qed

lemma foreign_calls_refused:
  assumes ok: "db_ok (db s)" and row: "row \<in> set (mfas (db s))" "f_member row = mid m" "f_household row \<noteq> hid h"
    and c: "c \<in> {Begin_enrollment m h b, Confirm_enrollment h m hs, Delete_enrollment h m}"
    and r: "apply_mfa_call c s = (s', r)"
  shows "db s' = db s \<and> r \<in> Inl ` {ErrMemberNotFound, ErrMFANotEnrolled, ErrOther}"
proof -
  have begin_tx: "\<exists>s2 e. begin_tx m h b s1 = (s2, Inl e) \<and> e \<in> {Begin_failed ErrMemberNotFound, Begin_failed ErrOther}"
    if "db s1 = db s" for s1
  proof -
    obtain s2 q where q: "run_sql (select_row (mfa_rows m)) s1 = (s2, q)" by fastforce
    with foreign_select [of s1 row m s2 q] that ok row show ?thesis by (auto simp: begin_tx_def)
  qed
  have confirm_tx: "\<exists>s2 e. confirm_tx h m hs s1 = (s2, Inl e) \<and> e \<in> {ErrMFANotEnrolled, ErrOther}"
    if "db s1 = db s" for s1
  proof -
    obtain s2 q where q: "run_sql (select_row (mfa_rows m)) s1 = (s2, q)" by fastforce
    with foreign_select [of s1 row m s2 q] that ok row show ?thesis by (auto simp: confirm_tx_def)
  qed
  from c consider (B) "c = Begin_enrollment m h b" | (C) "c = Confirm_enrollment h m hs"
    | (D) "c = Delete_enrollment h m" by blast
  then show ?thesis
  proof cases
    case B
    obtain s2 q where q: "beginEnrollmentOnce m h b s = (s2, q)" by fastforce
    have "db s2 = db s \<and> q \<in> Inl ` {Begin_failed ErrMemberNotFound, Begin_failed ErrOther}"
      by (rule transact_refuses [OF q [unfolded beginEnrollmentOnce_def]]) (use begin_tx in auto)
    with r q show ?thesis by (auto simp: B BeginEnrollment_def)
  next
    case C
    have "db s' = db s \<and> r \<in> Inl ` {ErrMFANotEnrolled, ErrOther}"
      using r unfolding C apply_mfa_call.simps ConfirmEnrollmentWithCodes_def
      by (rule transact_refuses) (use confirm_tx in auto)
    then show ?thesis by auto
  next
    case D
    have none: "\<not> (f_member r' = mid m \<and> f_household r' = hid h)" if "r' \<in> set (mfas (db s))" for r'
      using mfa_row_unique [OF ok row(1) that] row by auto
    have "delete_mfas (\<lambda>r. f_member r = mid m \<and> f_household r = hid h) (db s) = (db s, 0)"
    proof -
      have "filter (\<lambda>r. f_member r = mid m \<and> f_household r = hid h) (mfas (db s)) = []"
        using none by (simp add: filter_empty_conv)
      moreover have "filter (\<lambda>r. \<not> (f_member r = mid m \<and> f_household r = hid h)) (mfas (db s)) = mfas (db s)"
        using none by (simp add: filter_id_conv)
      ultimately show ?thesis by (simp add: delete_mfas_def delete_where_def count_where_def)
    qed
    then have q: "sql_delete_mfa h m (db s) (clock s) = Inr (db s, 0)" by (simp add: sql_delete_mfa_def)
    obtain s2 a where run: "run_sql (sql_delete_mfa h m) s = (s2, a)" by fastforce
    have "db s2 = db s \<and> (a = Inr 0 \<or> (\<exists>e. a = Inl e))"
      using run_sql_db [OF run] run_sql_Inr [of _ s s2] run q by (cases a) auto
    with r run show ?thesis by (auto simp: D DeleteEnrollment_def)
  qed
qed

text \<open>C5: whatever a call does and wherever it fails, a method about a member touches nothing but
  that member's enrollment and codes (or the one code it names), keeps every constraint of
  the schema, and does nothing at all when the member's enrollment is in another household
  than the caller's.\<close>

theorem mfa_calls_isolated:
  assumes "call_within (\<lambda>m'. m' = m) (\<lambda>i'. i' = i) (\<lambda>m'. m' = m) c" and "apply_mfa_call c s = (s', r)"
    and "db_ok (db s)"
  shows "rest_of m i (db s') = rest_of m i (db s) \<and> db_ok (db s') \<and>
    (\<forall>h row. row \<in> set (mfas (db s)) \<longrightarrow> f_member row = mid m \<longrightarrow> f_household row \<noteq> hid h \<longrightarrow>
       (\<exists>b hs. c \<in> {Begin_enrollment m h b, Confirm_enrollment h m hs, Delete_enrollment h m}) \<longrightarrow>
       db s' = db s \<and> r \<in> Inl ` {ErrMemberNotFound, ErrMFANotEnrolled, ErrOther})"
proof (intro conjI allI impI)
  have rel: "isolated m i (db s) (db s')"
    using mfa_call_related [OF writes_isolated assms(1), of s] by (simp add: assms(2))
  then show "rest_of m i (db s') = rest_of m i (db s)" "db_ok (db s')"
    using assms(3) by (simp_all add: isolated_def)
next
  fix h row
  assume row: "row \<in> set (mfas (db s))" "f_member row = mid m" "f_household row \<noteq> hid h"
    and "\<exists>b hs. c \<in> {Begin_enrollment m h b, Confirm_enrollment h m hs, Delete_enrollment h m}"
  then obtain b hs where "c \<in> {Begin_enrollment m h b, Confirm_enrollment h m hs, Delete_enrollment h m}" by blast
  from foreign_calls_refused [OF assms(3) row this assms(2)]
  show "db s' = db s" "r \<in> Inl ` {ErrMemberNotFound, ErrMFANotEnrolled, ErrOther}" by simp_all
qed

section \<open>Inputs for the witnesses\<close>

definition demo_mfa_conn :: conn where
  "demo_mfa_conn = demo_conn\<lparr>db := demo_db\<lparr>mfas := [\<lparr>f_member = 2, f_household = 1, f_secret = [7],
     f_confirmed = None, f_step = None, f_created = 0, f_updated = 0\<rparr>]\<rparr>,
     uuids := of_nat, uuids_used := 5\<rparr>"

lemmas demo_mfa_simps = demo_mfa_conn_def demo_conn_def demo_db_def demo_member_def empty_db_def

lemma demo_mfa_ok: "db_ok (db demo_mfa_conn)"
  by (simp add: demo_mfa_simps db_ok_def members_ok_def mfas_ok_def codes_ok_def passkeys_ok_def member_in_def
      role_check_def emails_def List.map_filter_def name_key_def household_exists_def)

lemma demo_mfa_fresh: "L < 2 ^ 128 \<Longrightarrow> ids_fresh L demo_mfa_conn"
proof -
  assume L: "L < 2 ^ 128"
  have "inj_on (of_nat :: nat \<Rightarrow> uuid) {..<L}"
  proof (rule inj_onI)
    fix x y assume "x \<in> {..<L}" "y \<in> {..<L}" "(of_nat x :: uuid) = of_nat y"
    then show "x = y" using L by (intro of_nat_inverse [of x "of_nat y :: uuid", symmetric, THEN trans]) (auto simp: unat_of_nat take_bit_nat_eq_self)
  qed
  then show ?thesis by (simp add: ids_fresh_def demo_mfa_simps)
qed

theorem confirm_all_or_nothing_witness:
  "snd (ConfirmEnrollmentWithCodes (HouseholdID 1) (MemberID 2) [''h''] demo_mfa_conn) = Inr ()"
proof -
  have "pending (HouseholdID 1) (MemberID 2) (db demo_mfa_conn)" "faults demo_mfa_conn = []"
    by (simp_all add: pending_def demo_mfa_simps)
  moreover have "ids_fresh (uuids_used demo_mfa_conn + length [''h'']) demo_mfa_conn"
    by (rule demo_mfa_fresh) (simp add: demo_mfa_conn_def)
  ultimately show ?thesis
    using confirm_all_or_nothing [OF demo_mfa_ok, of "[''h'']" "HouseholdID 1" "MemberID 2"
        "fst (ConfirmEnrollmentWithCodes (HouseholdID 1) (MemberID 2) [''h''] demo_mfa_conn)"
        "snd (ConfirmEnrollmentWithCodes (HouseholdID 1) (MemberID 2) [''h''] demo_mfa_conn)"]
    by simp
qed

theorem mfa_calls_isolated_witness:
  "db (fst (apply_mfa_call (Begin_enrollment (MemberID 2) (HouseholdID 9) [1]) demo_mfa_conn)) = db demo_mfa_conn"
proof -
  have row: "\<exists>row \<in> set (mfas (db demo_mfa_conn)). f_member row = mid (MemberID 2) \<and> f_household row \<noteq> hid (HouseholdID 9)"
    by (simp add: demo_mfa_simps)
  have "call_within (\<lambda>m'. m' = MemberID 2) (\<lambda>i'. i' = RecoveryCodeID 0) (\<lambda>m'. m' = MemberID 2)
      (Begin_enrollment (MemberID 2) (HouseholdID 9) [1])" by simp
  from mfa_calls_isolated [OF this prod.collapse [symmetric] demo_mfa_ok] row show ?thesis by blast
qed

end
