(* ===== verification/Go_Strings.thy ===== *)
theory Go_Strings
  imports Prelude
begin

text \<open>
  What the program uses of Go's \<open>strings\<close>, \<open>unicode\<close> and \<open>unicode/utf8\<close>. A string is a list of
  bytes (Isabelle's 8-bit characters); ranging over it decodes UTF-8, an invalid byte giving
  \<open>RuneError\<close> with width one.
\<close>

section \<open>UTF-8\<close>

abbreviation byte_at :: "char \<Rightarrow> nat" where
  "byte_at c \<equiv> of_char c"

definition RuneError :: nat where
  "RuneError = 0xFFFD"

definition continuation :: "char \<Rightarrow> bool" where
  "continuation c \<longleftrightarrow> 0x80 \<le> byte_at c \<and> byte_at c \<le> 0xBF"

definition between :: "nat \<Rightarrow> nat \<Rightarrow> char \<Rightarrow> bool" where
  "between lo hi c \<longleftrightarrow> lo \<le> byte_at c \<and> byte_at c \<le> hi"

text \<open>\<open>utf8.DecodeRuneInString\<close>: the rune and its width.\<close>

fun decode_rune :: "string \<Rightarrow> nat \<times> nat" where
  "decode_rune [] = (RuneError, 0)"
| "decode_rune (a # s) =
     (let n = byte_at a
      in if n < 0x80 then (n, 1)
         else if 0xC2 \<le> n \<and> n \<le> 0xDF then
           (case s of b # _ \<Rightarrow>
              if continuation b then ((n - 0xC0) * 64 + (byte_at b - 0x80), 2) else (RuneError, 1)
            | _ \<Rightarrow> (RuneError, 1))
         else if 0xE0 \<le> n \<and> n \<le> 0xEF then
           (case s of b # c # _ \<Rightarrow>
              if between (if n = 0xE0 then 0xA0 else 0x80) (if n = 0xED then 0x9F else 0xBF) b \<and> continuation c
              then ((n - 0xE0) * 4096 + (byte_at b - 0x80) * 64 + (byte_at c - 0x80), 3) else (RuneError, 1)
            | _ \<Rightarrow> (RuneError, 1))
         else if 0xF0 \<le> n \<and> n \<le> 0xF4 then
           (case s of b # c # d # _ \<Rightarrow>
              if between (if n = 0xF0 then 0x90 else 0x80) (if n = 0xF4 then 0x8F else 0xBF) b \<and>
                 continuation c \<and> continuation d
              then ((n - 0xF0) * 262144 + (byte_at b - 0x80) * 4096 + (byte_at c - 0x80) * 64 + (byte_at d - 0x80), 4)
              else (RuneError, 1)
            | _ \<Rightarrow> (RuneError, 1))
         else (RuneError, 1))"

lemma decode_rune_width: "s \<noteq> [] \<Longrightarrow> 0 < snd (decode_rune s)"
  by (cases s) (auto simp: Let_def split: list.splits)

text \<open>\<open>for i, r := range s\<close>: each rune with the bytes it was decoded from.\<close>

function runes :: "string \<Rightarrow> (nat \<times> string) list" where
  "runes s =
     (if s = [] then []
      else let (r, w) = decode_rune s in (r, take w s) # runes (drop w s))"
  by pat_completeness auto
termination
  by (relation "measure length") (use decode_rune_width in \<open>auto, metis snd_conv length_greater_0_conv diff_less\<close>)

declare runes.simps [simp del]

text \<open>\<open>utf8.AppendRune\<close>.\<close>

definition encode_rune :: "nat \<Rightarrow> string" where
  "encode_rune r0 =
     (let r = (if r0 > 0x10FFFF \<or> (0xD800 \<le> r0 \<and> r0 \<le> 0xDFFF) then RuneError else r0)
      in map char_of
           (if r < 0x80 then [r]
            else if r < 0x800 then [0xC0 + r div 64, 0x80 + r mod 64]
            else if r < 0x10000 then [0xE0 + r div 4096, 0x80 + r div 64 mod 64, 0x80 + r mod 64]
            else [0xF0 + r div 262144, 0x80 + r div 4096 mod 64, 0x80 + r div 64 mod 64, 0x80 + r mod 64]))"

section \<open>strings\<close>

text \<open>\<open>strings.Map\<close>; a negative rune, here \<open>None\<close>, is dropped.\<close>

definition strings_Map :: "(nat \<Rightarrow> nat option) \<Rightarrow> string \<Rightarrow> string" where
  "strings_Map f s = concat (map (\<lambda>(r, _). case f r of None \<Rightarrow> [] | Some q \<Rightarrow> encode_rune q) (runes s))"

text \<open>\<open>unicode.IsSpace\<close>.\<close>

definition is_space :: "nat \<Rightarrow> bool" where
  "is_space r \<longleftrightarrow>
     (9 \<le> r \<and> r \<le> 13) \<or> r = 0x20 \<or> r = 0x85 \<or> r = 0xA0 \<or> r = 0x1680 \<or>
     (0x2000 \<le> r \<and> r \<le> 0x200A) \<or> r = 0x2028 \<or> r = 0x2029 \<or> r = 0x202F \<or> r = 0x205F \<or> r = 0x3000"

text \<open>
  \<open>strings.TrimSpace\<close>. Decoding from the end finds the same runes as decoding from the start,
  since no rune's first byte is a continuation byte.
\<close>

definition trim_space :: "string \<Rightarrow> string" where
  "trim_space s =
     (let rs = dropWhile (\<lambda>p. is_space (fst p)) (runes s)
      in concat (map snd (rev (dropWhile (\<lambda>p. is_space (fst p)) (rev rs)))))"

text \<open>
  \<open>strings.ToLower\<close>, as far as a comparison with ASCII text can see it: besides the ASCII letters
  exactly two runes have a lower case in ASCII, the dotted capital I (U+0130) and the Kelvin
  sign (U+212A). Every other rune's lower case is outside ASCII, and is here the rune itself.
\<close>

definition lower_rune :: "nat \<Rightarrow> nat" where
  "lower_rune r =
     (if 0x41 \<le> r \<and> r \<le> 0x5A then r + 0x20
      else if r = 0x130 then 0x69
      else if r = 0x212A then 0x6B
      else r)"

definition to_lower :: "string \<Rightarrow> string" where
  "to_lower s = strings_Map (\<lambda>r. Some (lower_rune r)) s"

text \<open>\<open>utf8.RuneCountInString\<close>.\<close>

definition rune_count :: "string \<Rightarrow> nat" where
  "rune_count s = length (runes s)"

text \<open>\<open>s[i] == c\<close> membership, \<open>strings.ContainsRune\<close> for an ASCII set.\<close>

definition contains_rune :: "string \<Rightarrow> nat \<Rightarrow> bool" where
  "contains_rune s r \<longleftrightarrow> r \<in> set (map fst (runes s))"

text \<open>\<open>strings.Split(s, sep)\<close> for a one-byte separator.\<close>

fun split_on :: "char \<Rightarrow> string \<Rightarrow> string list" where
  "split_on c [] = [[]]"
| "split_on c (x # xs) =
     (if x = c then [] # split_on c xs
      else (case split_on c xs of [] \<Rightarrow> [[x]] | y # ys \<Rightarrow> (x # y) # ys))"

text \<open>\<open>[]byte(s)\<close> and \<open>string(b)\<close>.\<close>

definition bytes_of :: "string \<Rightarrow> bytes" where
  "bytes_of s = map (\<lambda>c. of_nat (byte_at c)) s"

definition string_of :: "bytes \<Rightarrow> string" where
  "string_of b = map (\<lambda>x. char_of (unat x)) b"

lemma string_of_bytes_of [simp]: "string_of (bytes_of s) = s"
proof -
  have "char_of (unat (of_nat (byte_at c) :: byte)) = c" for c :: char
    by (simp add: unat_of_nat take_bit_nat_eq_self)
  then show ?thesis by (simp add: string_of_def bytes_of_def map_idI)
qed

section \<open>ASCII\<close>

definition is_ascii :: "string \<Rightarrow> bool" where
  "is_ascii s \<longleftrightarrow> (\<forall>c \<in> set s. byte_at c < 0x80)"

lemma runes_Cons_ascii: "byte_at c < 0x80 \<Longrightarrow> runes (c # s) = (byte_at c, [c]) # runes s"
  by (subst runes.simps) simp

lemma runes_Nil [simp]: "runes [] = []"
  by (simp add: runes.simps)

lemma runes_ascii: "is_ascii s \<Longrightarrow> runes s = map (\<lambda>c. (byte_at c, [c])) s"
  by (induction s) (simp_all add: is_ascii_def runes_Cons_ascii)

lemma encode_ascii: "r < 0x80 \<Longrightarrow> encode_rune r = [char_of r]"
  by (simp add: encode_rune_def)

lemma concat_runes: "concat (map snd (runes s)) = s"
proof (induction s rule: runes.induct)
  case (1 s)
  show ?case
  proof (cases "s = []")
    case False
    obtain r w where rw: "decode_rune s = (r, w)" by fastforce
    have "concat (map snd (runes (drop w s))) = drop w s" using "1" False rw by simp
    then show ?thesis using False rw by (subst runes.simps) simp
  qed simp
qed

lemma trim_space_plain:
  assumes "is_ascii s" and "\<forall>c \<in> set s. \<not> is_space (byte_at c)"
  shows "trim_space s = s"
proof -
  have no: "\<forall>p \<in> set (runes s). \<not> is_space (fst p)"
    using assms by (auto simp: runes_ascii)
  have "dropWhile (\<lambda>p. is_space (fst p)) rs = rs" if "\<forall>p \<in> set rs. \<not> is_space (fst p)" for rs :: "(nat \<times> string) list"
    using that by (cases rs) simp_all
  from this [of "runes s"] this [of "rev (runes s)"] no show ?thesis
    by (simp add: trim_space_def concat_runes)
qed

lemma split_on_append: "c \<notin> set xs \<Longrightarrow> split_on c (xs @ c # ys) = xs # split_on c ys"
  by (induction xs) auto

lemma split_on_none: "c \<notin> set xs \<Longrightarrow> split_on c xs = [xs]"
  by (induction xs) auto

lemma to_lower_ascii:
  assumes "is_ascii s"
  shows "to_lower s = map (\<lambda>c. if 0x41 \<le> byte_at c \<and> byte_at c \<le> 0x5A then char_of (byte_at c + 0x20) else c) s"
proof -
  have "concat (map (\<lambda>c. encode_rune (lower_rune (byte_at c))) s) =
      map (\<lambda>c. if 0x41 \<le> byte_at c \<and> byte_at c \<le> 0x5A then char_of (byte_at c + 0x20) else c) s"
    using assms by (induction s) (auto simp: is_ascii_def lower_rune_def encode_ascii)
  then show ?thesis by (simp add: to_lower_def strings_Map_def runes_ascii [OF assms] comp_def)
qed

section \<open>Encoded runes decode to themselves\<close>

definition valid_rune :: "nat \<Rightarrow> bool" where
  "valid_rune r \<longleftrightarrow> r \<le> 0x10FFFF \<and> \<not> (0xD800 \<le> r \<and> r \<le> 0xDFFF)"

lemma byte_at_char_of: "n < 256 \<Longrightarrow> byte_at (char_of n) = n"
  by (simp add: take_bit_nat_eq_self)

lemma decode_3:
  assumes "x < 16" and "y < 64" and "z < 64" and "x = 0 \<Longrightarrow> 32 \<le> y" and "x = 13 \<Longrightarrow> y < 32"
  shows "decode_rune (char_of (0xE0 + x) # char_of (0x80 + y) # char_of (0x80 + z) # t) =
         (x * 4096 + y * 64 + z, 3)"
proof -
  have b: "byte_at (char_of (0xE0 + x)) = 0xE0 + x" "byte_at (char_of (0x80 + y)) = 0x80 + y"
      "byte_at (char_of (0x80 + z)) = 0x80 + z"
    using assms by (simp_all only: byte_at_char_of)
  have "between (if x = 0 then 0xA0 else 0x80) (if x = 13 then 0x9F else 0xBF) (char_of (0x80 + y))"
      "continuation (char_of (0x80 + z))"
    using assms unfolding between_def continuation_def b by auto
  then show ?thesis
    using assms(1-4) by (simp add: Let_def)
qed

lemma decode_4:
  assumes "x < 5" and "y < 64" and "z < 64" and "w < 64" and "x = 0 \<Longrightarrow> 16 \<le> y" and "x = 4 \<Longrightarrow> y < 16"
  shows "decode_rune (char_of (0xF0 + x) # char_of (0x80 + y) # char_of (0x80 + z) # char_of (0x80 + w) # t) =
         (x * 262144 + y * 4096 + z * 64 + w, 4)"
proof -
  have b: "byte_at (char_of (0xF0 + x)) = 0xF0 + x" "byte_at (char_of (0x80 + y)) = 0x80 + y"
      "byte_at (char_of (0x80 + z)) = 0x80 + z" "byte_at (char_of (0x80 + w)) = 0x80 + w"
    using assms by (simp_all only: byte_at_char_of)
  have "between (if x = 0 then 0x90 else 0x80) (if x = 4 then 0x8F else 0xBF) (char_of (0x80 + y))"
      "continuation (char_of (0x80 + z))" "continuation (char_of (0x80 + w))"
    using assms unfolding between_def continuation_def b by auto
  then show ?thesis
    using assms(1-4) by (simp add: Let_def)
qed

lemma encode_valid:
  assumes "valid_rune r"
  shows "encode_rune r = map char_of
    (if r < 0x80 then [r]
     else if r < 0x800 then [0xC0 + r div 64, 0x80 + r mod 64]
     else if r < 0x10000 then [0xE0 + r div 4096, 0x80 + r div 64 mod 64, 0x80 + r mod 64]
     else [0xF0 + r div 262144, 0x80 + r div 4096 mod 64, 0x80 + r div 64 mod 64, 0x80 + r mod 64])"
proof -
  have "\<not> (r > 0x10FFFF \<or> (0xD800 \<le> r \<and> r \<le> 0xDFFF))"
    using assms by (auto simp: valid_rune_def)
  then show ?thesis unfolding encode_rune_def Let_def by (simp only: if_False)
qed

lemma decode_encode:
  assumes "valid_rune r"
  shows "decode_rune (encode_rune r @ t) = (r, length (encode_rune r))"
proof -
  consider "r < 0x80" | "0x80 \<le> r" "r < 0x800" | "0x800 \<le> r" "r < 0x10000" | "0x10000 \<le> r" by linarith
  then show ?thesis
  proof cases
    case 1
    then show ?thesis by (simp add: encode_ascii byte_at_char_of)
  next
    case 2
    then have d: "2 \<le> r div 64" "r div 64 < 32" "\<not> r < 0x80" "r mod 64 \<le> 63" by simp_all
    moreover have "encode_rune r = [char_of (0xC0 + r div 64), char_of (0x80 + r mod 64)]"
      using 2 by (simp add: encode_rune_def)
    ultimately show ?thesis by (simp add: byte_at_char_of continuation_def)
  next
    case 3
    define x y z where "x = r div 4096" and "y = r div 64 mod 64" and "z = r mod 64"
    have r: "r = x * 4096 + y * 64 + z"
    proof -
      have "r div 64 div 64 = r div 4096" by (simp flip: div_mult2_eq)
      then show ?thesis
        using div_mult_mod_eq [of r 64] div_mult_mod_eq [of "r div 64" 64]
        unfolding x_def y_def z_def by linarith
    qed
    have bounds: "x < 16" "y < 64" "z < 64" using 3 by (simp_all add: x_def y_def z_def)
    have "x = 0 \<Longrightarrow> 32 \<le> y" using 3(1) r bounds by simp
    moreover have "y < 32" if "x = 13" using assms r bounds that by (simp add: valid_rune_def)
    moreover have "encode_rune r = [char_of (0xE0 + x), char_of (0x80 + y), char_of (0x80 + z)]"
      using 3 by (simp add: encode_valid [OF assms] x_def y_def z_def)
    ultimately show ?thesis using decode_3 [OF bounds, of t] r by simp
  next
    case 4
    define x y z w where "x = r div 262144" and "y = r div 4096 mod 64" and "z = r div 64 mod 64" and "w = r mod 64"
    have r: "r = x * 262144 + y * 4096 + z * 64 + w"
    proof -
      have "r div 64 div 64 = r div 4096" "r div 4096 div 64 = r div 262144" by (simp_all flip: div_mult2_eq)
      then show ?thesis
        using div_mult_mod_eq [of r 64] div_mult_mod_eq [of "r div 64" 64] div_mult_mod_eq [of "r div 4096" 64]
        unfolding x_def y_def z_def w_def by linarith
    qed
    have "r < 5 * 262144" using assms by (simp add: valid_rune_def)
    then have bounds: "x < 5" "y < 64" "z < 64" "w < 64"
      unfolding x_def y_def z_def w_def by (rule less_mult_imp_div_less) simp_all
    have "x = 0 \<Longrightarrow> 16 \<le> y" using 4 r bounds by simp
    moreover have "y < 16" if "x = 4" using assms r bounds that by (simp add: valid_rune_def)
    moreover have "encode_rune r = [char_of (0xF0 + x), char_of (0x80 + y), char_of (0x80 + z), char_of (0x80 + w)]"
      using 4 by (simp add: encode_valid [OF assms] x_def y_def z_def w_def)
    ultimately show ?thesis using decode_4 [OF bounds, of t] r by simp
  qed
qed

lemma encode_rune_nonempty: "encode_rune r \<noteq> []"
  by (simp add: encode_rune_def)

lemma runes_encode: "valid_rune r \<Longrightarrow> runes (encode_rune r @ t) = (r, encode_rune r) # runes t"
  using decode_encode [of r t] encode_rune_nonempty [of r] by (subst runes.simps) simp

lemma runes_concat_encode:
  "(\<forall>r \<in> set rs. valid_rune r) \<Longrightarrow> map fst (runes (concat (map encode_rune rs))) = rs"
  by (induction rs) (simp_all add: runes_encode)

lemma valid_2: "x < 32 \<Longrightarrow> y < 64 \<Longrightarrow> valid_rune (x * 64 + y)"
  by (simp add: valid_rune_def)

lemma valid_3:
  assumes "x < 16" and "y < 64" and "z < 64" and "x = 13 \<Longrightarrow> y < 32"
  shows "valid_rune (x * 4096 + y * 64 + z)"
proof -
  consider "x < 13" | "x = 13" | "13 < x" by linarith
  then show ?thesis
    using assms by cases (simp_all add: valid_rune_def)
qed

lemma valid_4:
  assumes "x < 5" and "y < 64" and "z < 64" and "w < 64" and "x = 0 \<Longrightarrow> 16 \<le> y" and "x = 4 \<Longrightarrow> y < 16"
  shows "valid_rune (x * 262144 + y * 4096 + z * 64 + w)"
proof -
  consider "x = 0" | "0 < x" "x < 4" | "x = 4" using assms(1) by linarith
  then show ?thesis
    using assms by cases (simp_all add: valid_rune_def)
qed

lemma valid_RuneError: "valid_rune RuneError"
  by (simp add: valid_rune_def RuneError_def)

lemma decode_rune_valid: "valid_rune (fst (decode_rune s))"
proof (cases s)
  case (Cons a t)
  let ?n = "byte_at a"
  consider (1) "?n < 0x80" | (2) "0xC2 \<le> ?n" "?n \<le> 0xDF" | (3) "0xE0 \<le> ?n" "?n \<le> 0xEF"
    | (4) "0xF0 \<le> ?n" "?n \<le> 0xF4"
    | (bad) "\<not> ?n < 0x80" "\<not> (0xC2 \<le> ?n \<and> ?n \<le> 0xDF)" "\<not> (0xE0 \<le> ?n \<and> ?n \<le> 0xEF)"
        "\<not> (0xF0 \<le> ?n \<and> ?n \<le> 0xF4)"
    by linarith
  then show ?thesis
  proof cases
    case 1
    then show ?thesis by (simp add: Cons valid_rune_def)
  next
    case 2
    have "valid_rune ((?n - 0xC0) * 64 + (byte_at b - 0x80))" if "continuation b" for b
      using that 2 by (intro valid_2) (auto simp: continuation_def)
    with 2 valid_RuneError show ?thesis by (cases t) (simp_all add: Cons Let_def)
  next
    case 3
    have "valid_rune ((?n - 0xE0) * 4096 + (byte_at b - 0x80) * 64 + (byte_at c - 0x80))"
      if "between (if ?n = 0xE0 then 0xA0 else 0x80) (if ?n = 0xED then 0x9F else 0xBF) b" "continuation c" for b c
      using that 3 by (intro valid_3) (auto simp: between_def continuation_def split: if_splits)
    with 3 valid_RuneError show ?thesis
      by (cases t; cases "tl t") (simp_all add: Cons Let_def)
  next
    case 4
    have "valid_rune ((?n - 0xF0) * 262144 + (byte_at b - 0x80) * 4096 + (byte_at c - 0x80) * 64 + (byte_at d - 0x80))"
      if "between (if ?n = 0xF0 then 0x90 else 0x80) (if ?n = 0xF4 then 0x8F else 0xBF) b"
        "continuation c" "continuation d" for b c d
      using that 4 by (intro valid_4) (auto simp: between_def continuation_def split: if_splits)
    with 4 valid_RuneError show ?thesis
      by (cases t; cases "tl t"; cases "tl (tl t)") (simp_all add: Cons Let_def)
  next
    case bad
    then have "decode_rune s = (RuneError, 1)"
      unfolding Cons decode_rune.simps Let_def by (simp only: if_False)
    then show ?thesis using valid_RuneError by simp
  qed
qed (simp add: valid_RuneError)

lemma runes_valid: "(r, bs) \<in> set (runes s) \<Longrightarrow> valid_rune r"
proof (induction s rule: runes.induct)
  case (1 s)
  show ?case
  proof (cases "s = []")
    case False
    obtain q w where rw: "decode_rune s = (q, w)" by fastforce
    have "valid_rune q" using decode_rune_valid [of s] rw by simp
    moreover have "(r, bs) \<in> set (runes (drop w s)) \<Longrightarrow> valid_rune r"
      using "1.IH" False rw by simp
    ultimately show ?thesis using "1.prems" False rw by (subst (asm) runes.simps) auto
  qed (use 1 in simp)
qed

end
