(* ===== verification/Go_Fmt.thy ===== *)
theory Go_Fmt
  imports Go_Strings
begin

text \<open>
  What the program uses of Go's \<open>fmt\<close>, \<open>strconv\<close> and \<open>encoding/base64\<close>: \<open>%d\<close>, \<open>Sscanf\<close> with
  literals and \<open>%d\<close>, \<open>Atoi\<close>, and \<open>RawStdEncoding\<close>; with the facts that reading undoes writing.
\<close>

section \<open>Decimal numbers\<close>

definition digit_char :: "nat \<Rightarrow> char" where
  "digit_char n = char_of (48 + n)"

definition is_digit :: "nat \<Rightarrow> bool" where
  "is_digit r \<longleftrightarrow> 48 \<le> r \<and> r \<le> 57"

fun decimal :: "nat \<Rightarrow> string" where
  "decimal n = (if n < 10 then [digit_char n] else decimal (n div 10) @ [digit_char (n mod 10)])"

declare decimal.simps [simp del]

definition digits_value :: "nat list \<Rightarrow> nat" where
  "digits_value ds = foldl (\<lambda>v d. v * 10 + (d - 48)) 0 ds"

lemma byte_at_digit: "n < 10 \<Longrightarrow> byte_at (digit_char n) = 48 + n"
  unfolding digit_char_def by (rule byte_at_char_of) simp

lemma decimal_digits: "c \<in> set (decimal n) \<Longrightarrow> is_digit (byte_at c)"
proof (induction n rule: decimal.induct)
  case (1 n)
  show ?case
  proof (cases "n < 10")
    case True
    with 1(2) have "c = digit_char n" by (subst (asm) decimal.simps) simp
    with True show ?thesis by (simp add: byte_at_digit is_digit_def)
  next
    case False
    with 1(2) have "c \<in> set (decimal (n div 10)) \<or> c = digit_char (n mod 10)"
      by (subst (asm) decimal.simps) auto
    with 1(1) [OF False] show ?thesis by (auto simp: byte_at_digit is_digit_def)
  qed
qed

lemma decimal_nonempty: "decimal n \<noteq> []"
  by (subst decimal.simps) simp

lemma decimal_value: "digits_value (map byte_at (decimal n)) = n"
proof (induction n rule: decimal.induct)
  case (1 n)
  show ?case
  proof (cases "n < 10")
    case True
    then show ?thesis by (subst decimal.simps) (simp add: digits_value_def byte_at_digit)
  next
    case False
    have "n div 10 * 10 + n mod 10 = n" by simp
    moreover have "byte_at (digit_char (n mod 10)) - 48 = n mod 10" by (simp add: byte_at_digit)
    ultimately show ?thesis using 1 False by (subst decimal.simps) (simp add: digits_value_def)
  qed
qed

text \<open>\<open>strconv.Atoi\<close>: an optional sign and digits, within 64 bits.\<close>

definition in_int64 :: "int \<Rightarrow> bool" where
  "in_int64 v \<longleftrightarrow> - (2 ^ 63) \<le> v \<and> v < 2 ^ 63"

fun take_sign :: "nat list \<Rightarrow> int \<times> nat list" where
  "take_sign (r # rs) = (if r = 45 then (- 1, rs) else if r = 43 then (1, rs) else (1, r # rs))"
| "take_sign [] = (1, [])"

definition Atoi :: "string \<Rightarrow> int option" where
  "Atoi s =
     (case take_sign (map byte_at s) of
        (sign, ds) \<Rightarrow>
          if ds = [] \<or> \<not> list_all is_digit ds then None
          else let v = sign * int (digits_value ds) in if in_int64 v then Some v else None)"

section \<open>Sscanf\<close>

text \<open>
  \<open>fmt.Sscanf\<close> for formats of literal characters, \<open>%d\<close> into an \<open>int\<close> and \<open>%d\<close> into an unsigned
  integer of some width. White space is skipped before a number, a newline is an error, and
  input left over when the format is used up is ignored.
\<close>

datatype directive = Lit nat | Scan_int | Scan_uint nat

fun skip_space :: "nat list \<Rightarrow> nat list option" where
  "skip_space [] = Some []"
| "skip_space (r # rs) =
     (if r = 10 then None else if is_space r then skip_space rs else Some (r # rs))"

definition scan_digits :: "nat list \<Rightarrow> (nat \<times> nat list) option" where
  "scan_digits rs =
     (let ds = takeWhile is_digit rs
      in if ds = [] then None else Some (digits_value ds, dropWhile is_digit rs))"

definition scan_int :: "nat list \<Rightarrow> (int \<times> nat list) option" where
  "scan_int rs =
     (case take_sign rs of (sign, rs) \<Rightarrow>
       (case scan_digits rs of None \<Rightarrow> None
        | Some (v, rs) \<Rightarrow> if in_int64 (sign * int v) then Some (sign * int v, rs) else None))"

definition scan_uint :: "nat \<Rightarrow> nat list \<Rightarrow> (int \<times> nat list) option" where
  "scan_uint bits rs =
     (case scan_digits rs of None \<Rightarrow> None
      | Some (v, rs) \<Rightarrow> if v < 2 ^ 64 \<and> v < 2 ^ bits then Some (int v, rs) else None)"

fun scan_directives :: "directive list \<Rightarrow> nat list \<Rightarrow> int list option" where
  "scan_directives [] rs = Some []"
| "scan_directives (Lit c # fs) rs =
     (case rs of [] \<Rightarrow> None | r # rs \<Rightarrow> if r = c then scan_directives fs rs else None)"
| "scan_directives (Scan_int # fs) rs =
     (case skip_space rs of None \<Rightarrow> None
      | Some rs \<Rightarrow> (case scan_int rs of None \<Rightarrow> None
          | Some (v, rs) \<Rightarrow> map_option ((#) v) (scan_directives fs rs)))"
| "scan_directives (Scan_uint bits # fs) rs =
     (case skip_space rs of None \<Rightarrow> None
      | Some rs \<Rightarrow> (case scan_uint bits rs of None \<Rightarrow> None
          | Some (v, rs) \<Rightarrow> map_option ((#) v) (scan_directives fs rs)))"

definition Sscanf :: "string \<Rightarrow> directive list \<Rightarrow> int list option" where
  "Sscanf s fs = scan_directives fs (map fst (runes s))"

definition lits :: "string \<Rightarrow> directive list" where
  "lits s = map (\<lambda>c. Lit (byte_at c)) s"

lemma scan_lits: "scan_directives (lits s @ fs) (map byte_at s @ rs) = scan_directives fs rs"
  by (induction s) (simp_all add: lits_def)

lemma scan_digits_decimal:
  assumes "rs = [] \<or> \<not> is_digit (hd rs)"
  shows "scan_digits (map byte_at (decimal n) @ rs) = Some (n, rs)"
proof -
  have all: "\<forall>d \<in> set (map byte_at (decimal n)). is_digit d" using decimal_digits by auto
  have "takeWhile is_digit (map byte_at (decimal n) @ rs) = map byte_at (decimal n) @ takeWhile is_digit rs"
    using all by (intro takeWhile_append2) blast
  moreover have "dropWhile is_digit (map byte_at (decimal n) @ rs) = dropWhile is_digit rs"
    using all by (intro dropWhile_append2) blast
  moreover have "takeWhile is_digit rs = []" "dropWhile is_digit rs = rs"
    using assms by (cases rs; auto)+
  ultimately show ?thesis by (simp add: scan_digits_def decimal_nonempty decimal_value)
qed

lemma skip_space_decimal: "skip_space (map byte_at (decimal n) @ rs) = Some (map byte_at (decimal n) @ rs)"
proof -
  obtain c cs where c: "decimal n = c # cs" using decimal_nonempty [of n] by (cases "decimal n") auto
  then have "is_digit (byte_at c)" using decimal_digits [of c n] by simp
  then have "byte_at c \<noteq> 10 \<and> \<not> is_space (byte_at c)" by (auto simp: is_digit_def is_space_def)
  then show ?thesis by (simp add: c)
qed

lemma take_sign_decimal: "take_sign (map byte_at (decimal n) @ rs) = (1, map byte_at (decimal n) @ rs)"
proof -
  obtain c cs where c: "decimal n = c # cs" using decimal_nonempty [of n] by (cases "decimal n") auto
  then have "is_digit (byte_at c)" using decimal_digits [of c n] by simp
  then have "byte_at c \<noteq> 45 \<and> byte_at c \<noteq> 43" by (auto simp: is_digit_def)
  then show ?thesis by (simp add: c)
qed

lemma scan_uint_decimal:
  assumes "rs = [] \<or> \<not> is_digit (hd rs)" and "n < 2 ^ bits" and "bits \<le> 64"
  shows "scan_directives (Scan_uint bits # fs) (map byte_at (decimal n) @ rs) =
    map_option ((#) (int n)) (scan_directives fs rs)"
proof -
  have "(2 :: nat) ^ bits \<le> 2 ^ 64" using assms(3) by (rule power_increasing) simp
  then have "n < 2 ^ 64" using assms(2) by linarith
  then show ?thesis
    using assms by (simp add: skip_space_decimal scan_uint_def scan_digits_decimal)
qed

lemma scan_int_decimal:
  assumes "rs = [] \<or> \<not> is_digit (hd rs)" and "n < 2 ^ 63"
  shows "scan_directives (Scan_int # fs) (map byte_at (decimal n) @ rs) =
    map_option ((#) (int n)) (scan_directives fs rs)"
  using assms
  by (simp add: skip_space_decimal scan_int_def take_sign_decimal scan_digits_decimal in_int64_def)

section \<open>Base64 without padding\<close>

definition b64_alphabet :: string where
  "b64_alphabet = ''ABCDEFGHIJKLMNOPQRSTUVWXYZabcdefghijklmnopqrstuvwxyz0123456789+/''"

definition b64_symbol :: "nat \<Rightarrow> char" where
  "b64_symbol i = b64_alphabet ! i"

text \<open>The six-bit indices of a byte string; the last group may be short.\<close>

fun b64_indices :: "byte list \<Rightarrow> nat list" where
  "b64_indices [] = []"
| "b64_indices [a] = (let v = unat a * 65536 in [v div 262144, v div 4096 mod 64])"
| "b64_indices [a, b] =
     (let v = unat a * 65536 + unat b * 256 in [v div 262144, v div 4096 mod 64, v div 64 mod 64])"
| "b64_indices (a # b # c # bs) =
     (let v = unat a * 65536 + unat b * 256 + unat c
      in [v div 262144, v div 4096 mod 64, v div 64 mod 64, v mod 64] @ b64_indices bs)"

definition b64_encode :: "byte list \<Rightarrow> string" where
  "b64_encode bs = map b64_symbol (b64_indices bs)"

definition b64_index :: "char \<Rightarrow> nat option" where
  "b64_index c = (let i = length (takeWhile (\<lambda>d. d \<noteq> c) b64_alphabet) in if i < 64 then Some i else None)"

fun b64_quads :: "nat list \<Rightarrow> byte list option" where
  "b64_quads [] = Some []"
| "b64_quads [i] = None"
| "b64_quads [i, j] = (let v = i * 262144 + j * 4096 in Some [of_nat (v div 65536)])"
| "b64_quads [i, j, k] =
     (let v = i * 262144 + j * 4096 + k * 64 in Some [of_nat (v div 65536), of_nat (v div 256)])"
| "b64_quads (i # j # k # l # is) =
     (let v = i * 262144 + j * 4096 + k * 64 + l
      in map_option (\<lambda>bs. [of_nat (v div 65536), of_nat (v div 256), of_nat v] @ bs) (b64_quads is))"

text \<open>\<open>DecodeString\<close> skips carriage returns and newlines, and is not strict about trailing bits.\<close>

definition b64_decode :: "string \<Rightarrow> byte list option" where
  "b64_decode s =
     (let ds = map b64_index (filter (\<lambda>c. byte_at c \<noteq> 10 \<and> byte_at c \<noteq> 13) s)
      in if None \<in> set ds then None else b64_quads (map the ds))"

lemma b64_symbols:
  "\<forall>i \<in> set [0..<64]. b64_index (b64_symbol i) = Some i \<and> byte_at (b64_symbol i) \<notin> {10, 13, 36}"
  by code_simp

lemma b64_index_symbol: "i < 64 \<Longrightarrow> b64_index (b64_symbol i) = Some i"
  using b64_symbols by simp

lemma b64_symbol_plain: "i < 64 \<Longrightarrow> byte_at (b64_symbol i) \<notin> {10, 13, 36}"
  using b64_symbols by simp

lemma unat_byte_less: "unat (b :: byte) < 256"
  using unsigned_less [of b] by simp

lemma b64_indices_less: "i \<in> set (b64_indices bs) \<Longrightarrow> i < 64"
proof (induction bs rule: b64_indices.induct)
  case (2 a)
  then show ?case using unat_byte_less [of a] by (auto simp: Let_def)
next
  case (3 a b)
  then show ?case using unat_byte_less [of a] unat_byte_less [of b] by (auto simp: Let_def)
next
  case (4 a b c bs)
  then show ?case using unat_byte_less [of a] unat_byte_less [of b] unat_byte_less [of c] by (auto simp: Let_def)
qed simp

lemma b64_value: "v div 262144 * 262144 + v div 4096 mod 64 * 4096 + v div 64 mod 64 * 64 + v mod 64 = (v :: nat)"
proof -
  have 1: "v div 64 * 64 + v mod 64 = v" by simp
  have 2: "v div 4096 * 64 + v div 64 mod 64 = v div 64"
    using div_mult_mod_eq [of "v div 64" 64] by (simp add: div_mult2_eq [symmetric])
  have 3: "v div 262144 * 64 + v div 4096 mod 64 = v div 4096"
    using div_mult_mod_eq [of "v div 4096" 64] by (simp add: div_mult2_eq [symmetric])
  from 1 2 3 show ?thesis by linarith
qed

lemma b64_bytes:
  fixes a b c :: byte
  defines "v \<equiv> unat a * 65536 + unat b * 256 + unat c"
  shows "of_nat (v div 65536) = a" "of_nat (v div 256) = b" "of_nat v = c"
proof -
  have lt: "unat b * 256 + unat c < 65536" "unat c < 256"
    using unat_byte_less [of b] unat_byte_less [of c] by simp_all
  have "v div 65536 = unat a" using lt by (simp add: v_def)
  then show "of_nat (v div 65536) = a" by simp
  have "v div 256 = unat a * 256 + unat b" using lt by (simp add: v_def)
  moreover have z: "(of_nat 256 :: byte) = 0" "(of_nat 65536 :: byte) = 0" by simp_all
  ultimately show "of_nat (v div 256) = b" by (simp only: of_nat_add of_nat_mult mult_zero_right) simp
  show "of_nat v = c" unfolding v_def by (simp only: of_nat_add of_nat_mult z mult_zero_right) simp
qed

lemma b64_quads_indices: "b64_quads (b64_indices bs) = Some bs"
proof (induction bs rule: b64_indices.induct)
  case (2 a)
  define v where "v = unat a * 65536 + unat (0 :: byte) * 256 + unat (0 :: byte)"
  have "v div 262144 * 262144 + v div 4096 mod 64 * 4096 = v"
    using b64_value [of v] by (simp add: v_def)
  then show ?case using b64_bytes(1) [of a 0 0] by (simp add: Let_def v_def)
next
  case (3 a b)
  define v where "v = unat a * 65536 + unat b * 256 + unat (0 :: byte)"
  have "v mod 64 = 0" by (simp add: v_def mod_add_eq [symmetric] mod_mult_eq [symmetric])
  then have "v div 262144 * 262144 + v div 4096 mod 64 * 4096 + v div 64 mod 64 * 64 = v"
    using b64_value [of v] by simp
  then show ?case using b64_bytes(1,2) [of a b 0] by (simp add: Let_def v_def)
next
  case (4 a b c bs)
  show ?case
    using b64_value [of "unat a * 65536 + unat b * 256 + unat c"] b64_bytes [of a b c] 4
    by (simp add: Let_def)
qed simp

lemma b64_roundtrip: "b64_decode (b64_encode bs) = Some bs"
proof -
  have less: "\<forall>i \<in> set (b64_indices bs). i < 64" using b64_indices_less by blast
  have "filter (\<lambda>c. byte_at c \<noteq> 10 \<and> byte_at c \<noteq> 13) (b64_encode bs) = b64_encode bs"
    using less b64_symbol_plain by (auto simp: b64_encode_def filter_id_conv)
  moreover have "map b64_index (b64_encode bs) = map Some (b64_indices bs)"
    using less by (auto simp: b64_encode_def b64_index_symbol)
  ultimately show ?thesis
    by (simp add: b64_decode_def comp_def b64_quads_indices image_iff)
qed

lemma b64_no_dollar: "CHR ''$'' \<notin> set (b64_encode bs)"
proof
  assume "CHR ''$'' \<in> set (b64_encode bs)"
  then obtain i where "i \<in> set (b64_indices bs)" "b64_symbol i = CHR ''$''"
    by (auto simp: b64_encode_def)
  then have "i < 64" "b64_symbol i = CHR ''$''" using b64_indices_less by blast+
  with b64_symbol_plain [of i] show False by simp
qed

end
