(* ===== verification/Recovery_Codes.thy ===== *)
theory Recovery_Codes
  imports Go_Strings
begin

text \<open>
  Recovery codes: \<open>identity/domain/recovery_code_gen.go\<close>. A code is ten random bytes in
  Crockford's Base32, in four groups of four; what a member types back is normalised before
  it is hashed or compared. The random source is the list of bytes it will yield.

  The theory proves that generating loses none of the eighty bits, that normalising a
  generated code gives its symbols, and that the normal form of anything a member types is
  its alphabet symbols up to letter case and the O/0, I/1, L/1 confusions.
\<close>

definition recoveryCodeAlphabet :: string where
  "recoveryCodeAlphabet = ''0123456789ABCDEFGHJKMNPQRSTVWXYZ''"

definition recoveryCodeBytes :: nat where "recoveryCodeBytes = 10"
definition recoveryCodeGroupSize :: nat where "recoveryCodeGroupSize = 4"

section \<open>Base32\<close>

text \<open>\<open>encoding/base32\<close> on whole groups: five bytes, read as one big-endian number, are eight
  symbols of five bits each. Ten bytes are two groups, so no group is ever partial.\<close>

fun group_value :: "nat list \<Rightarrow> nat" where
  "group_value bs = foldl (\<lambda>v b. v * 256 + b) 0 bs"

definition group_symbols :: "nat \<Rightarrow> string" where
  "group_symbols v = map (\<lambda>i. recoveryCodeAlphabet ! (v div 32 ^ (7 - i) mod 32)) [0..<8]"

fun recoveryCodeEncoding :: "byte list \<Rightarrow> string" where
  "recoveryCodeEncoding (a # b # c # d # e # bs) =
     group_symbols (group_value (map unat [a, b, c, d, e])) @ recoveryCodeEncoding bs"
| "recoveryCodeEncoding _ = []"

section \<open>Generating\<close>

text \<open>\<open>rand.Read\<close>: the next \<open>n\<close> bytes of the source, or an error.\<close>

definition rand_read :: "nat \<Rightarrow> byte list \<Rightarrow> (byte list \<times> byte list) option" where
  "rand_read n source = (if n \<le> length source then Some (take n source, drop n source) else None)"

text \<open>The loop that writes the encoded runes with a dash before every fourth.\<close>

fun group_dashes :: "nat \<Rightarrow> string \<Rightarrow> string" where
  "group_dashes i [] = []"
| "group_dashes i (c # cs) =
     (if i > 0 \<and> i mod recoveryCodeGroupSize = 0 then [CHR ''-''] else []) @ c # group_dashes (i + 1) cs"

definition GenerateRecoveryCode :: "byte list \<Rightarrow> (string \<times> byte list) option" where
  "GenerateRecoveryCode source =
     (case rand_read recoveryCodeBytes source of
        None \<Rightarrow> None
      | Some (b, rest) \<Rightarrow> Some (group_dashes 0 (recoveryCodeEncoding b), rest))"

section \<open>Normalising\<close>

text \<open>
  \<open>unicode.ToUpper\<close>, as far as the normalisation can see it: besides the ASCII letters,
  exactly two runes have an upper case in ASCII, dotless i (U+0131) and long s (U+017F).
  Every other rune's upper case is outside ASCII, so it is dropped whatever it is, and is
  here the rune itself.
\<close>

definition upper_rune :: "nat \<Rightarrow> nat" where
  "upper_rune r =
     (if 0x61 \<le> r \<and> r \<le> 0x7A then r - 0x20
      else if r = 0x131 then 0x49
      else if r = 0x17F then 0x53
      else r)"

definition to_upper :: "string \<Rightarrow> string" where
  "to_upper s = strings_Map (\<lambda>r. Some (upper_rune r)) s"

text \<open>\<open>strings.NewReplacer("O", "0", "I", "1", "L", "1")\<close>: one-byte patterns, one-byte results.\<close>

definition recoveryCodeAliases :: "char \<Rightarrow> char" where
  "recoveryCodeAliases c =
     (if c = CHR ''O'' then CHR ''0'' else if c = CHR ''I'' then CHR ''1''
      else if c = CHR ''L'' then CHR ''1'' else c)"

definition NormalizeRecoveryCode :: "string \<Rightarrow> string" where
  "NormalizeRecoveryCode s =
     (let s = map recoveryCodeAliases (to_upper s)
      in strings_Map (\<lambda>r. if contains_rune recoveryCodeAlphabet r then Some r else None) s)"

section \<open>One pass\<close>

text \<open>What one rune contributes to the normal form.\<close>

definition fold_rune :: "nat \<Rightarrow> string" where
  "fold_rune r =
     (let u = upper_rune r
      in if u < 0x80 \<and> recoveryCodeAliases (char_of u) \<in> set recoveryCodeAlphabet
         then [recoveryCodeAliases (char_of u)] else [])"

lemma is_ascii_alphabet: "is_ascii recoveryCodeAlphabet"
  by (simp add: is_ascii_def recoveryCodeAlphabet_def)

lemma contains_alphabet:
  "contains_rune recoveryCodeAlphabet r \<longleftrightarrow> r \<in> byte_at ` set recoveryCodeAlphabet"
  by (simp add: contains_rune_def runes_ascii [OF is_ascii_alphabet] comp_def)

lemma contains_alphabet_char:
  "contains_rune recoveryCodeAlphabet (byte_at c) \<longleftrightarrow> c \<in> set recoveryCodeAlphabet"
  by (auto simp: contains_alphabet)

lemma contains_alphabet_ascii: "contains_rune recoveryCodeAlphabet r \<Longrightarrow> r < 0x80"
  using is_ascii_alphabet by (auto simp: contains_alphabet is_ascii_def)

lemma aliases_ascii: "byte_at c < 0x80 \<Longrightarrow> byte_at (recoveryCodeAliases c) < 0x80"
  by (simp add: recoveryCodeAliases_def)

lemma alphabet_upper: "c \<in> set recoveryCodeAlphabet \<Longrightarrow> fold_rune (byte_at c) = [c]"
proof -
  have "list_all (\<lambda>c. fold_rune (byte_at c) = [c]) recoveryCodeAlphabet" by code_simp
  then show "c \<in> set recoveryCodeAlphabet \<Longrightarrow> fold_rune (byte_at c) = [c]" by (simp add: list_all_iff)
qed

lemma length_alphabet: "length recoveryCodeAlphabet = 32"
  by (simp add: recoveryCodeAlphabet_def)

lemma distinct_alphabet: "distinct recoveryCodeAlphabet"
  by (simp add: recoveryCodeAlphabet_def)

text \<open>The three passes over the string, rune by rune.\<close>

definition alias_rune :: "nat \<Rightarrow> nat" where
  "alias_rune r = (if r < 0x80 then byte_at (recoveryCodeAliases (char_of r)) else r)"

lemma upper_valid: "valid_rune r \<Longrightarrow> valid_rune (upper_rune r)"
  by (auto simp: valid_rune_def upper_rune_def)

lemma alias_ascii: "r < 0x80 \<Longrightarrow> alias_rune r < 0x80"
  by (simp add: alias_rune_def recoveryCodeAliases_def byte_at_char_of)

lemma alias_valid: "valid_rune r \<Longrightarrow> valid_rune (alias_rune r)"
  using alias_ascii [of r] by (cases "r < 0x80") (auto simp: valid_rune_def alias_rune_def)

text \<open>The replacer works on bytes; the bytes of a rune outside ASCII are not its patterns.\<close>

lemma aliases_high: "0x80 \<le> (n::nat) \<Longrightarrow> n < 256 \<Longrightarrow> recoveryCodeAliases (char_of n) = char_of n"
proof -
  assume n: "0x80 \<le> (n::nat)" "n < 256"
  then have "byte_at (char_of n) = n" by (simp only: byte_at_char_of)
  with n(1) have "char_of n \<noteq> c" if "byte_at c < 0x80" for c
    using that by (metis not_less)
  from this [of "CHR ''O''"] this [of "CHR ''I''"] this [of "CHR ''L''"]
  have "char_of n \<noteq> CHR ''O''" "char_of n \<noteq> CHR ''I''" "char_of n \<noteq> CHR ''L''" by simp_all
  then show ?thesis by (simp add: recoveryCodeAliases_def)
qed

lemma map_aliases_encode:
  assumes "valid_rune r"
  shows "map recoveryCodeAliases (encode_rune r) = encode_rune (alias_rune r)"
proof (cases "r < 0x80")
  case True
  then show ?thesis
    using alias_ascii [of r] by (simp add: encode_ascii alias_rune_def)
next
  case False
  have "r < 5 * 262144" using assms by (simp add: valid_rune_def)
  then have "r div 262144 < 5" by (rule less_mult_imp_div_less)
  moreover have "r < 0x800 \<longrightarrow> r div 64 < 64" "r < 0x10000 \<longrightarrow> r div 4096 < 32"
    by (auto intro: less_mult_imp_div_less)
  moreover have "x mod 64 < 128" for x :: nat by (rule less_trans [OF mod_less_divisor]) simp_all
  ultimately have "\<forall>n \<in> set (if r < 0x800 then [0xC0 + r div 64, 0x80 + r mod 64]
     else if r < 0x10000 then [0xE0 + r div 4096, 0x80 + r div 64 mod 64, 0x80 + r mod 64]
     else [0xF0 + r div 262144, 0x80 + r div 4096 mod 64, 0x80 + r div 64 mod 64, 0x80 + r mod 64]).
     0x80 \<le> n \<and> n < 256"
    by simp
  then show ?thesis
    using False by (simp add: encode_valid [OF assms] alias_rune_def aliases_high del: char_of_def)
qed

lemma strings_Map_runes:
  "strings_Map f s = concat (map encode_rune (List.map_filter f (map fst (runes s))))"
proof -
  have "concat (map (\<lambda>(r, _). case f r of None \<Rightarrow> [] | Some q \<Rightarrow> encode_rune q) rs) =
      concat (map encode_rune (List.map_filter f (map fst rs)))" for rs :: "(nat \<times> string) list"
    by (induction rs) (auto simp: map_filter_simps split: option.splits)
  then show ?thesis by (simp add: strings_Map_def)
qed

lemma runes_valid_list: "\<forall>r \<in> set (map fst (runes s)). valid_rune r"
  using runes_valid by auto

lemma aliases_upper:
  "map recoveryCodeAliases (to_upper s) =
     concat (map encode_rune (map (\<lambda>r. alias_rune (upper_rune r)) (map fst (runes s))))"
proof -
  have "map recoveryCodeAliases (concat (map encode_rune (map upper_rune rs))) =
      concat (map encode_rune (map (\<lambda>r. alias_rune (upper_rune r)) rs))"
    if "\<forall>r \<in> set rs. valid_rune r" for rs
    using that by (induction rs) (simp_all add: map_aliases_encode upper_valid)
  moreover have "List.map_filter (\<lambda>r. Some (upper_rune r)) rs = map upper_rune rs" for rs
    by (induction rs) (simp_all add: map_filter_simps)
  ultimately show ?thesis
    using runes_valid_list [of s] by (simp only: to_upper_def strings_Map_runes)
qed

lemma fold_rune_alias:
  "fold_rune r = (if contains_rune recoveryCodeAlphabet (alias_rune (upper_rune r))
                  then encode_rune (alias_rune (upper_rune r)) else [])"
proof (cases "upper_rune r < 0x80")
  case True
  then show ?thesis
    using alias_ascii [of "upper_rune r"]
    by (simp add: fold_rune_def alias_rune_def contains_alphabet_char encode_ascii)
next
  case False
  then have "\<not> contains_rune recoveryCodeAlphabet (upper_rune r)"
    using contains_alphabet_ascii by blast
  with False show ?thesis by (simp add: fold_rune_def alias_rune_def)
qed

text \<open>The normal form is what one pass over the runes keeps.\<close>

lemma normalize_one_pass: "NormalizeRecoveryCode s = concat (map fold_rune (map fst (runes s)))"
proof -
  let ?us = "map (\<lambda>r. alias_rune (upper_rune r)) (map fst (runes s))"
  have "map fst (runes (concat (map encode_rune ?us))) = ?us"
    using runes_valid_list [of s] by (intro runes_concat_encode) (auto intro: alias_valid upper_valid)
  then have "NormalizeRecoveryCode s = concat (map encode_rune
      (List.map_filter (\<lambda>r. if contains_rune recoveryCodeAlphabet r then Some r else None) ?us))"
    by (simp only: NormalizeRecoveryCode_def Let_def aliases_upper strings_Map_runes)
  also have "\<dots> = concat (map fold_rune rs)" if "rs = map fst (runes s)" for rs
    unfolding that [symmetric] by (induction rs) (simp_all add: map_filter_simps fold_rune_alias)
  finally show ?thesis by simp
qed

section \<open>Generated codes\<close>

lemma five:
  assumes "length xs = 5"
  obtains a b c d e where "xs = [a, b, c, d, e]"
proof -
  obtain a xs1 where 1: "xs = a # xs1" "length xs1 = 4" using assms by (cases xs) simp_all
  obtain b xs2 where 2: "xs1 = b # xs2" "length xs2 = 3" using 1(2) by (cases xs1) simp_all
  obtain c xs3 where 3: "xs2 = c # xs3" "length xs3 = 2" using 2(2) by (cases xs2) simp_all
  obtain d xs4 where 4: "xs3 = d # xs4" "length xs4 = 1" using 3(2) by (cases xs3) simp_all
  obtain e where 5: "xs4 = [e]" using 4(2) by (cases xs4) simp_all
  show ?thesis using that 1 2 3 4 5 by simp
qed

lemma foldl_inj:
  assumes "length as = length bs" and "\<forall>a \<in> set as. a < 256" and "\<forall>b \<in> set bs. b < 256"
    and "foldl (\<lambda>v b. v * 256 + b) v as = foldl (\<lambda>v b. v * 256 + b) w bs"
  shows "v = w \<and> as = (bs :: nat list)"
  using assms
proof (induction as bs arbitrary: v w rule: list_induct2)
  case (Cons a as b bs)
  have *: "v * 256 + a = w * 256 + b \<and> as = bs"
    by (rule Cons.IH) (use Cons.prems in simp_all)
  have ab: "a < 256" "b < 256" using Cons.prems by simp_all
  have "a = (v * 256 + a) mod 256" using ab by simp
  also have "\<dots> = (w * 256 + b) mod 256" using * by simp
  also have "\<dots> = b" using ab by simp
  finally show ?case using * by simp
qed simp

lemma group_value_inj:
  assumes "length as = 5" and "length bs = 5" and "\<forall>a \<in> set as. a < 256" and "\<forall>b \<in> set bs. b < 256"
    and "group_value as = group_value bs"
  shows "as = bs"
  using foldl_inj [of as bs 0 0] assms by simp

lemma group_value_less:
  assumes "length bs = 5" and "\<forall>b \<in> set bs. b < 256"
  shows "group_value bs < 32 ^ 8"
proof -
  obtain a b c d e where "bs = [a, b, c, d, e]" using assms(1) by (rule five)
  with assms(2) show ?thesis by simp
qed

text \<open>Base-32 digits determine a number below \<open>32 ^ n\<close>.\<close>

lemma digits_inj:
  "v < 32 ^ n \<Longrightarrow> w < 32 ^ n \<Longrightarrow> (\<forall>i < n. v div 32 ^ i mod 32 = w div 32 ^ i mod 32) \<Longrightarrow> v = (w :: nat)"
proof (induction n arbitrary: v w)
  case (Suc n)
  have "v div 32 = w div 32"
  proof (rule Suc.IH)
    show "\<forall>i < n. v div 32 div 32 ^ i mod 32 = w div 32 div 32 ^ i mod 32"
      using Suc.prems(3) by (auto simp flip: div_mult2_eq power_Suc)
  qed (use Suc.prems in \<open>auto simp: less_mult_imp_div_less mult.commute\<close>)
  moreover have "v mod 32 = w mod 32" using Suc.prems(3) by (metis div_by_1 power_0 zero_less_Suc)
  ultimately show ?case by (metis div_mult_mod_eq)
qed simp

lemma group_symbols_inj:
  assumes "v < 32 ^ 8" and "w < 32 ^ 8" and "group_symbols v = group_symbols w"
  shows "v = w"
proof (rule digits_inj [OF assms(1,2)], intro allI impI)
  fix i :: nat assume i: "i < 8"
  have "group_symbols v ! (7 - i) = group_symbols w ! (7 - i)" using assms(3) by simp
  then have "recoveryCodeAlphabet ! (v div 32 ^ i mod 32) = recoveryCodeAlphabet ! (w div 32 ^ i mod 32)"
    using i nth_upt [of 0 "7 - i" 8] by (simp add: group_symbols_def del: upt_Suc)
  moreover have "v div 32 ^ i mod 32 < length recoveryCodeAlphabet" "w div 32 ^ i mod 32 < length recoveryCodeAlphabet"
    by (simp_all add: length_alphabet)
  ultimately show "v div 32 ^ i mod 32 = w div 32 ^ i mod 32"
    using distinct_alphabet nth_eq_iff_index_eq by blast
qed

lemma length_group_symbols [simp]: "length (group_symbols v) = 8"
  by (simp add: group_symbols_def)

lemma set_group_symbols: "set (group_symbols v) \<subseteq> set recoveryCodeAlphabet"
proof -
  have "recoveryCodeAlphabet ! (n mod 32) \<in> set recoveryCodeAlphabet" for n
    by (rule nth_mem) (simp add: length_alphabet)
  then show ?thesis by (auto simp: group_symbols_def)
qed

lemma ten_bytes:
  assumes "length bs = 10"
  obtains xs ys where "bs = xs @ ys" "length xs = 5" "length ys = 5"
    "recoveryCodeEncoding bs = group_symbols (group_value (map unat xs)) @ group_symbols (group_value (map unat ys))"
proof -
  have len: "length (take 5 bs) = 5" "length (drop 5 bs) = 5" using assms by simp_all
  obtain a1 a2 a3 a4 a5 where as: "take 5 bs = [a1, a2, a3, a4, a5]"
    using len(1) by (rule five)
  obtain b1 b2 b3 b4 b5 where bs: "drop 5 bs = [b1, b2, b3, b4, b5]"
    using len(2) by (rule five)
  have "bs = take 5 bs @ drop 5 bs" by simp
  moreover have "recoveryCodeEncoding (take 5 bs @ drop 5 bs) =
      group_symbols (group_value (map unat (take 5 bs))) @ group_symbols (group_value (map unat (drop 5 bs)))"
    unfolding as bs by simp
  ultimately show ?thesis using len that by metis
qed

lemma unat_byte: "\<forall>b \<in> set (map unat (xs :: byte list)). b < 256"
proof -
  have "unat x < 256" for x :: byte using unsigned_less [of x, where ?'a = nat] by simp
  then show ?thesis by simp
qed

lemma encoding_inj:
  assumes "length as = 10" and "length bs = 10" and "recoveryCodeEncoding as = recoveryCodeEncoding bs"
  shows "as = bs"
proof -
  obtain a1 a2 where a: "as = a1 @ a2" "length a1 = 5" "length a2 = 5"
      "recoveryCodeEncoding as = group_symbols (group_value (map unat a1)) @ group_symbols (group_value (map unat a2))"
    using ten_bytes [OF assms(1)] .
  obtain b1 b2 where b: "bs = b1 @ b2" "length b1 = 5" "length b2 = 5"
      "recoveryCodeEncoding bs = group_symbols (group_value (map unat b1)) @ group_symbols (group_value (map unat b2))"
    using ten_bytes [OF assms(2)] .
  have same: "xs = ys" if "group_symbols (group_value (map unat xs)) = group_symbols (group_value (map unat ys))"
      "length xs = 5" "length ys = 5" for xs ys :: "byte list"
  proof -
    have "group_value (map unat xs) = group_value (map unat ys)"
      by (rule group_symbols_inj [OF group_value_less group_value_less that(1)]) (use that unat_byte in simp_all)
    then have "map unat xs = map unat ys"
      by (rule group_value_inj [rotated -1]) (use that unat_byte in simp_all)
    moreover have "inj (unat :: byte \<Rightarrow> nat)" by (simp add: inj_def word_unat_eq_iff)
    ultimately show ?thesis by (simp add: inj_map_eq_map)
  qed
  show ?thesis using assms(3) a b same [of a1 b1] same [of a2 b2] by simp
qed

lemma normalize_dashes:
  assumes "set cs \<subseteq> set recoveryCodeAlphabet"
  shows "NormalizeRecoveryCode (group_dashes i cs) = cs"
proof -
  have asc: "is_ascii (group_dashes i cs)"
    using assms is_ascii_alphabet by (induction cs arbitrary: i) (auto simp: is_ascii_def)
  have dash: "fold_rune 45 = []" by code_simp
  have "concat (map (\<lambda>c. fold_rune (byte_at c)) (group_dashes i cs)) = cs"
    using assms by (induction cs arbitrary: i) (simp_all add: dash alphabet_upper)
  then show ?thesis by (simp add: normalize_one_pass runes_ascii [OF asc] comp_def)
qed

lemma encoding_symbols:
  assumes "length bs = 10"
  shows "set (recoveryCodeEncoding bs) \<subseteq> set recoveryCodeAlphabet" "length (recoveryCodeEncoding bs) = 16"
  using ten_bytes [OF assms] set_group_symbols by (metis set_append Un_subset_iff, metis length_append length_group_symbols numeral_Bit0)

lemma normalize_alphabet:
  assumes "set cs \<subseteq> set recoveryCodeAlphabet"
  shows "NormalizeRecoveryCode cs = cs"
proof -
  have asc: "is_ascii cs" using assms is_ascii_alphabet by (auto simp: is_ascii_def)
  have "concat (map (\<lambda>c. fold_rune (byte_at c)) cs) = cs"
    using assms by (induction cs) (simp_all add: alphabet_upper)
  then show ?thesis by (simp add: normalize_one_pass runes_ascii [OF asc] comp_def)
qed

lemma generate_normal:
  assumes "GenerateRecoveryCode src = Some (cd, rs)"
  shows "length (take 10 src) = 10 \<and> NormalizeRecoveryCode cd = recoveryCodeEncoding (take 10 src)"
  using assms normalize_dashes [OF encoding_symbols(1), of "take 10 src" 0]
  by (auto simp: GenerateRecoveryCode_def rand_read_def recoveryCodeBytes_def split: if_splits)

lemma generate_nonempty: "GenerateRecoveryCode src = Some (cd, rs) \<Longrightarrow> NormalizeRecoveryCode cd \<noteq> []"
  using generate_normal [of src cd rs] encoding_symbols(2) [of "take 10 src"] by force

lemma normalize_Nil: "NormalizeRecoveryCode [] = []"
  by (simp add: normalize_one_pass)

text \<open>A generated recovery code normalises to its sixteen alphabet symbols, which is what
  is hashed; and different random bytes always give different normal forms, so none of the
  eighty bits is lost to the encoding, the dashes or the normalisation.\<close>

theorem recovery_code_roundtrip:
  assumes "GenerateRecoveryCode source = Some (code, rest)"
  shows "NormalizeRecoveryCode code = recoveryCodeEncoding (take 10 source) \<and>
         length (NormalizeRecoveryCode code) = 16 \<and>
         set (NormalizeRecoveryCode code) \<subseteq> set recoveryCodeAlphabet \<and>
         (\<forall>source' code' rest'. GenerateRecoveryCode source' = Some (code', rest') \<longrightarrow>
            NormalizeRecoveryCode code' = NormalizeRecoveryCode code \<longrightarrow> take 10 source' = take 10 source)"
proof -
  note g = generate_normal [OF assms]
  show ?thesis
    using g encoding_symbols [of "take 10 source"] encoding_inj generate_normal by (metis (no_types, lifting))
qed

text \<open>Normalisation is one pass that keeps, of any string whatever (valid UTF-8 or not),
  exactly the alphabet symbols, up to letter case and the O/0, I/1 and L/1 confusions, and it is
  idempotent.\<close>

theorem normalize_characterised:
  "NormalizeRecoveryCode s = concat (map fold_rune (map fst (runes s))) \<and>
   NormalizeRecoveryCode (NormalizeRecoveryCode s) = NormalizeRecoveryCode s \<and>
   set (NormalizeRecoveryCode s) \<subseteq> set recoveryCodeAlphabet"
proof -
  have fold: "set (fold_rune r) \<subseteq> set recoveryCodeAlphabet" for r
    by (auto simp: fold_rune_def Let_def)
  then have sub: "set (NormalizeRecoveryCode s) \<subseteq> set recoveryCodeAlphabet"
    unfolding normalize_one_pass by auto
  with normalize_alphabet [OF sub] show ?thesis by (simp add: normalize_one_pass)
qed

end
