(* ===== verification/Password_Hash.thy ===== *)
theory Password_Hash
  imports Go_Fmt Recovery_Codes
begin

text \<open>
  Password hashing, \<open>crypto/argon2.go\<close>: the PHC string a hash is stored as, its parser, and
  \<open>Verify\<close>. The key derivation is \<open>golang.org/x/crypto/argon2\<close>'s \<open>IDKey\<close>, a parameter that
  gives the key or panics; \<open>argon2_ok\<close> states what its documentation promises.

  The theory proves that parsing undoes formatting for every parameter, salt and key, that
  \<open>Verify\<close> accepts exactly the passwords whose derivation gives the stored key, and which
  strings it refuses before deriving anything.
\<close>

definition defaultArgonTime :: "32 word" where "defaultArgonTime = 1"
definition defaultArgonMemory :: "32 word" where "defaultArgonMemory = 64 * 1024"
definition defaultArgonThreads :: "8 word" where "defaultArgonThreads = 4"
definition argonKeyLen :: nat where "argonKeyLen = 32"
definition argonSaltLen :: nat where "argonSaltLen = 16"
definition argonVersion :: nat where "argonVersion = 19"

record params =
  p_time :: "32 word"
  p_memory :: "32 word"
  p_threads :: "8 word"

definition DefaultParams :: params where
  "DefaultParams = \<lparr>p_time = defaultArgonTime, p_memory = defaultArgonMemory, p_threads = defaultArgonThreads\<rparr>"

datatype hash_error = ErrMalformedHash | HashOther | HashPanic

text \<open>\<open>IDKey(password, salt, time, memory, threads, argonKeyLen)\<close>; a panic is \<open>None\<close>.\<close>

type_synonym id_key = "string \<Rightarrow> bytes \<Rightarrow> params \<Rightarrow> bytes option"

definition format_params :: "params \<Rightarrow> string" where
  "format_params p =
     ''m='' @ decimal (unat (p_memory p)) @ '',t='' @ decimal (unat (p_time p)) @ '',p='' @ decimal (unat (p_threads p))"

definition format_phc :: "params \<Rightarrow> bytes \<Rightarrow> bytes \<Rightarrow> string" where
  "format_phc p salt key =
     ''$argon2id$v='' @ decimal argonVersion @ ''$'' @ format_params p @ ''$'' @
     b64_encode salt @ ''$'' @ b64_encode key"

definition Hash :: "id_key \<Rightarrow> params \<Rightarrow> string \<Rightarrow> bytes \<Rightarrow> hash_error + string \<times> bytes" where
  "Hash idkey p password entropy =
     (case rand_read argonSaltLen entropy of
        None \<Rightarrow> Inl HashOther
      | Some (salt, entropy) \<Rightarrow>
          (case idkey password salt p of
             None \<Rightarrow> Inl HashPanic
           | Some key \<Rightarrow> Inr (format_phc p salt key, entropy)))"

definition parsePHC :: "string \<Rightarrow> hash_error + bytes \<times> bytes \<times> params" where
  "parsePHC encoded =
     (let parts = split_on (CHR ''$'') encoded
      in if length parts \<noteq> 6 \<or> parts ! 0 \<noteq> [] \<or> parts ! 1 \<noteq> ''argon2id'' then Inl ErrMalformedHash
         else case Sscanf (parts ! 2) (lits ''v='' @ [Scan_int]) of
           None \<Rightarrow> Inl ErrMalformedHash
         | Some vs \<Rightarrow>
             if vs ! 0 \<noteq> int argonVersion then Inl ErrMalformedHash
             else case Sscanf (parts ! 3)
                    (lits ''m='' @ Scan_uint 32 # lits '',t='' @ Scan_uint 32 # lits '',p='' @ [Scan_uint 8]) of
               None \<Rightarrow> Inl ErrMalformedHash
             | Some ns \<Rightarrow>
                 (let p = \<lparr>p_time = of_int (ns ! 1), p_memory = of_int (ns ! 0), p_threads = of_int (ns ! 2)\<rparr>
                  in case b64_decode (parts ! 4) of
                       None \<Rightarrow> Inl ErrMalformedHash
                     | Some salt \<Rightarrow>
                         (case b64_decode (parts ! 5) of
                            None \<Rightarrow> Inl ErrMalformedHash
                          | Some key \<Rightarrow> Inr (salt, key, p))))"

definition Verify :: "id_key \<Rightarrow> string \<Rightarrow> string \<Rightarrow> hash_error + bool" where
  "Verify idkey password encoded =
     (case parsePHC encoded of
        Inl e \<Rightarrow> Inl e
      | Inr (salt, key, p) \<Rightarrow>
          if length key \<noteq> argonKeyLen then Inl ErrMalformedHash
          else case idkey password salt p of
                 None \<Rightarrow> Inl HashPanic
               | Some candidate \<Rightarrow> Inr (key = candidate))"

section \<open>Parsing undoes formatting\<close>

lemma is_ascii_decimal: "is_ascii (decimal n)"
  using decimal_digits by (fastforce simp: is_ascii_def is_digit_def)

lemma is_ascii_append: "is_ascii (xs @ ys) \<longleftrightarrow> is_ascii xs \<and> is_ascii ys"
  by (auto simp: is_ascii_def)

lemma is_ascii_literals: "is_ascii ''v=''" "is_ascii ''m=''" "is_ascii '',t=''" "is_ascii '',p=''"
  by (simp_all add: is_ascii_def)

lemmas is_ascii_rules = is_ascii_append is_ascii_literals is_ascii_decimal
lemmas scan_int_end = scan_int_decimal [where rs = "[]", unfolded append_Nil2]
lemmas scan_uint_end = scan_uint_decimal [where rs = "[]", unfolded append_Nil2]

lemma runes_of_ascii: "is_ascii s \<Longrightarrow> map fst (runes s) = map byte_at s"
  by (simp add: runes_ascii)

lemma decimal_no_dollar: "CHR ''$'' \<notin> set (decimal n)"
  using decimal_digits [of "CHR ''$''" n] by (auto simp: is_digit_def)

lemma format_params_no_dollar: "CHR ''$'' \<notin> set (format_params p)"
  by (simp add: format_params_def decimal_no_dollar)

lemma split_phc:
  "split_on (CHR ''$'') (format_phc p salt key) =
     [[], ''argon2id'', ''v='' @ decimal argonVersion, format_params p, b64_encode salt, b64_encode key]"
proof -
  have "format_phc p salt key = [] @ CHR ''$'' # (''argon2id'' @ CHR ''$'' # ((''v='' @ decimal argonVersion) @
      CHR ''$'' # (format_params p @ CHR ''$'' # (b64_encode salt @ CHR ''$'' # b64_encode key))))"
    by (simp add: format_phc_def)
  moreover have "CHR ''$'' \<notin> set ''argon2id''" "CHR ''$'' \<notin> set (''v='' @ decimal argonVersion)"
    using decimal_no_dollar by simp_all
  ultimately show ?thesis
    by (simp only: split_on_append split_on_none b64_no_dollar format_params_no_dollar list.set empty_iff
        not_False_eq_True)
qed

lemma scan_version: "Sscanf (''v='' @ decimal n) (lits ''v='' @ [Scan_int]) = Some [int n]" if "n < 2 ^ 63"
proof -
  have "is_ascii (''v='' @ decimal n)" by (simp only: is_ascii_rules)
  then have "Sscanf (''v='' @ decimal n) (lits ''v='' @ [Scan_int]) =
      scan_directives (lits ''v='' @ [Scan_int]) (map byte_at ''v='' @ map byte_at (decimal n))"
    unfolding Sscanf_def by (simp only: runes_of_ascii map_append)
  also have "\<dots> = Some [int n]"
    unfolding scan_lits by (subst scan_int_end) (use that in simp_all)
  finally show ?thesis .
qed

lemma scan_params:
  "Sscanf (format_params p)
     (lits ''m='' @ Scan_uint 32 # lits '',t='' @ Scan_uint 32 # lits '',p='' @ [Scan_uint 8]) =
   Some [int (unat (p_memory p)), int (unat (p_time p)), int (unat (p_threads p))]"
proof -
  have bounds: "unat (p_memory p) < 2 ^ 32" "unat (p_time p) < 2 ^ 32" "unat (p_threads p) < 2 ^ 8"
    using unsigned_less [of "p_memory p"] unsigned_less [of "p_time p"] unsigned_less [of "p_threads p"] by simp_all
  have stop: "map byte_at '',t='' @ rs = [] \<or> \<not> is_digit (hd (map byte_at '',t='' @ rs))"
      "map byte_at '',p='' @ rs = [] \<or> \<not> is_digit (hd (map byte_at '',p='' @ rs))" for rs
    by (simp_all add: is_digit_def)
  have "is_ascii (format_params p)" unfolding format_params_def by (simp only: is_ascii_rules)
  then have "Sscanf (format_params p) fs = scan_directives fs (map byte_at ''m='' @ map byte_at (decimal (unat (p_memory p))) @
      map byte_at '',t='' @ map byte_at (decimal (unat (p_time p))) @ map byte_at '',p='' @
      map byte_at (decimal (unat (p_threads p))))" for fs
    unfolding Sscanf_def by (simp only: runes_of_ascii format_params_def map_append)
  then show ?thesis
    unfolding scan_lits
    apply (simp only:)
    apply (subst scan_lits)
    apply (subst scan_uint_decimal, rule stop, rule bounds, simp)
    apply (subst scan_lits)
    apply (subst scan_uint_decimal, rule stop, rule bounds, simp)
    apply (subst scan_lits)
    apply (subst scan_uint_end, simp, rule bounds, simp)
    apply simp
    done
qed

lemma parse_format: "parsePHC (format_phc p salt key) = Inr (salt, key, p)"
proof -
  have nth: "[a, b, c, d, e, f] ! 2 = c" "[a, b, c, d, e, f] ! 3 = d" "[a, b, c, d, e, f] ! 4 = e"
      "[a, b, c, d, e, f] ! 5 = f" for a b c d e f :: string
    by (simp_all add: numeral_2_eq_2 numeral_3_eq_3 eval_nat_numeral)
  have v: "Sscanf (''v='' @ decimal argonVersion) (lits ''v='' @ [Scan_int]) = Some [int argonVersion]"
    by (rule scan_version) (simp add: argonVersion_def)
  show ?thesis
    unfolding parsePHC_def split_phc Let_def nth v scan_params b64_roundtrip
    by simp
qed

section \<open>Verifying\<close>

text \<open>What the derivation promises: a key of the requested length, and a panic exactly for zero
  passes or zero threads.\<close>

definition argon2_ok :: "id_key \<Rightarrow> bool" where
  "argon2_ok idkey \<longleftrightarrow>
     (\<forall>pw salt p key. idkey pw salt p = Some key \<longrightarrow> length key = argonKeyLen) \<and>
     (\<forall>pw salt p. idkey pw salt p = None \<longleftrightarrow> p_time p = 0 \<or> p_threads p = 0)"

lemma verify_hash:
  assumes "argon2_ok idkey" and "Hash idkey p pw entropy = Inr (encoded, entropy')"
  shows "Verify idkey pw' encoded = Inr (idkey pw' (take argonSaltLen entropy) p = idkey pw (take argonSaltLen entropy) p) \<and>
         entropy' = drop argonSaltLen entropy \<and>
         (\<exists>key. idkey pw (take argonSaltLen entropy) p = Some key \<and>
            parsePHC encoded = Inr (take argonSaltLen entropy, key, p))"
proof -
  obtain key where key: "idkey pw (take argonSaltLen entropy) p = Some key"
      "encoded = format_phc p (take argonSaltLen entropy) key" "entropy' = drop argonSaltLen entropy"
    using assms(2) by (auto simp: Hash_def rand_read_def split: option.splits if_splits)
  then have len: "length key = argonKeyLen" "p_time p \<noteq> 0" "p_threads p \<noteq> 0"
    using assms(1) by (auto simp: argon2_ok_def) (metis option.distinct(1))+
  then obtain key' where "idkey pw' (take argonSaltLen entropy) p = Some key'"
    using assms(1) by (auto simp: argon2_ok_def) (metis not_Some_eq)
  with key len show ?thesis by (auto simp: Verify_def parse_format)
qed

text \<open>C15: a hash verifies exactly the passwords that derive the same key under its own salt and
  parameters, the hashed password among them, whatever parameters the verifier was built
  with; and parsing a stored hash gives back the salt, key and parameters it was made of.\<close>

theorem hash_verify_roundtrip:
  assumes "argon2_ok idkey" and "Hash idkey p pw entropy = Inr (encoded, entropy')"
  shows "Verify idkey pw' encoded = Inr (idkey pw' (take argonSaltLen entropy) p = idkey pw (take argonSaltLen entropy) p) \<and>
         entropy' = drop argonSaltLen entropy \<and>
         (\<exists>key. idkey pw (take argonSaltLen entropy) p = Some key \<and>
            parsePHC encoded = Inr (take argonSaltLen entropy, key, p))"
  by (rule verify_hash [OF assms])

text \<open>On any string whatever, \<open>Verify\<close> reports a malformed hash, unless the string parses to a
  32-byte key; then it derives one key and compares, or, for zero passes or zero threads,
  takes the derivation's panic.\<close>

theorem verify_any_string:
  assumes "argon2_ok idkey"
  shows "Verify idkey pw encoded =
    (case parsePHC encoded of
       Inl _ \<Rightarrow> Inl ErrMalformedHash
     | Inr (salt, key, p) \<Rightarrow>
         if length key \<noteq> 32 then Inl ErrMalformedHash
         else if p_time p = 0 \<or> p_threads p = 0 then Inl HashPanic
         else Inr (key = the (idkey pw salt p)))"
proof -
  have "parsePHC encoded \<noteq> Inl HashOther" "parsePHC encoded \<noteq> Inl HashPanic"
    by (auto simp: parsePHC_def Let_def split: option.splits)
  then have e: "parsePHC encoded = Inl e \<Longrightarrow> e = ErrMalformedHash" for e by (cases e) auto
  show ?thesis
  proof (cases "parsePHC encoded")
    case (Inl x)
    with e show ?thesis by (simp add: Verify_def)
  next
    case (Inr t)
    obtain salt key p where t: "t = (salt, key, p)" by (cases t)
    have "idkey pw salt p = None \<longleftrightarrow> p_time p = 0 \<or> p_threads p = 0"
      using assms by (simp add: argon2_ok_def)
    with Inr t show ?thesis
      by (cases "idkey pw salt p") (simp_all add: Verify_def argonKeyLen_def)
  qed
qed

definition toy_idkey :: id_key where
  "toy_idkey pw salt p =
     (if p_time p = 0 \<or> p_threads p = 0 then None
      else Some (take 32 (map (\<lambda>c. of_nat (byte_at c)) pw @ salt @ replicate 32 0)))"

lemma toy_idkey_ok: "argon2_ok toy_idkey"
  by (auto simp: argon2_ok_def toy_idkey_def argonKeyLen_def split: if_splits)

theorem hash_verify_roundtrip_witness:
  "\<exists>encoded entropy'. Hash toy_idkey DefaultParams ''pw'' (replicate 20 7) = Inr (encoded, entropy') \<and>
     Verify toy_idkey ''pw'' encoded = Inr True \<and> Verify toy_idkey ''pv'' encoded = Inr False"
proof -
  obtain encoded entropy' where h: "Hash toy_idkey DefaultParams ''pw'' (replicate 20 7) = Inr (encoded, entropy')"
    by (simp add: Hash_def rand_read_def toy_idkey_def DefaultParams_def defaultArgonTime_def
        defaultArgonThreads_def argonSaltLen_def)
  have "toy_idkey ''pv'' s DefaultParams \<noteq> toy_idkey ''pw'' s DefaultParams" for s
    by (simp add: toy_idkey_def DefaultParams_def defaultArgonTime_def defaultArgonThreads_def)
  with hash_verify_roundtrip [OF toy_idkey_ok h, of "''pw''"] hash_verify_roundtrip [OF toy_idkey_ok h, of "''pv''"] h
  show ?thesis by auto
qed

text \<open>A stored hash with zero passes is not reported as malformed: deriving its key panics.\<close>

definition zero_pass_hash :: string where
  "zero_pass_hash = format_phc \<lparr>p_time = 0, p_memory = 8, p_threads = 1\<rparr> [] (replicate 32 0)"

end
