(* ===== verification/Authenticator.thy ===== *)
theory Authenticator
  imports Member_Store Password_Hash
begin

text \<open>
  Password login, \<open>identity/app/authenticator.go\<close>. The service sees a credential repository and
  a password hasher through their interfaces, here records of operations; the locale
  \<open>credential_store\<close> states what the service relies on of a repository, and is interpreted on
  the pgx repository of \<open>Member_Store\<close>.
\<close>

section \<open>The interfaces\<close>

record 's credential_repository =
  find_by_email :: "string \<Rightarrow> 's \<Rightarrow> 's \<times> (id_error + credential)"
  set_credential :: "member_id \<Rightarrow> string \<Rightarrow> string \<Rightarrow> 's \<Rightarrow> 's \<times> (id_error + unit)"

text \<open>\<open>Hash\<close> consumes the system's randomness, and fails when it runs dry; \<open>Verify\<close> fails on a
  hash it cannot parse.\<close>

record password_hasher =
  hash_password :: "string \<Rightarrow> bytes \<Rightarrow> (string \<times> bytes) option"
  verify_password :: "string \<Rightarrow> string \<Rightarrow> bool option"

text \<open>A hash can be verified against any password, and verifies the one it was made of.\<close>

definition hasher_ok :: "password_hasher \<Rightarrow> bool" where
  "hasher_ok H \<longleftrightarrow>
     (\<forall>pw e h e'. hash_password H pw e = Some (h, e') \<longrightarrow>
        verify_password H pw h = Some True \<and> (\<forall>pw'. verify_password H pw' h \<noteq> None))"

section \<open>The service\<close>

record 's authenticator =
  auth_repo :: "'s credential_repository"
  auth_hasher :: password_hasher
  dummy_hash :: string

text \<open>The constructor panics without the system's randomness.\<close>

definition NewAuthenticator ::
    "'s credential_repository \<Rightarrow> password_hasher \<Rightarrow> bytes \<Rightarrow> ('s authenticator \<times> bytes) option" where
  "NewAuthenticator repo H entropy =
     (case hash_password H ''nestcore-timing-equalizer'' entropy of
        None \<Rightarrow> None
      | Some (dummy, entropy) \<Rightarrow> Some (\<lparr>auth_repo = repo, auth_hasher = H, dummy_hash = dummy\<rparr>, entropy))"

text \<open>\<open>Login\<close> also reports the calls it makes to \<open>Verify\<close>, in order: they are what its timing
  depends on.\<close>

definition Login ::
    "'s authenticator \<Rightarrow> string \<Rightarrow> string \<Rightarrow> 's \<Rightarrow> 's \<times> (string \<times> string) list \<times> (id_error + member_id)" where
  "Login a email password s =
     (case find_by_email (auth_repo a) email s of
        (s, Inl e) \<Rightarrow>
          if e = ErrInvalidCredentials
          then (s, [(password, dummy_hash a)], Inl ErrInvalidCredentials)
          else (s, [], Inl e)
      | (s, Inr cred) \<Rightarrow>
          (s, [(password, cred_hash cred)],
           case verify_password (auth_hasher a) password (cred_hash cred) of
             None \<Rightarrow> Inl ErrOther
           | Some match \<Rightarrow> if match then Inr (cred_member cred) else Inl ErrInvalidCredentials))"

section \<open>The repository's contract\<close>

locale credential_store =
  fixes repo :: "'s credential_repository"
    and ready :: "'s \<Rightarrow> bool"                      \<comment> \<open>the connection works, the tables are consistent\<close>
    and active_member :: "member_id \<Rightarrow> 's \<Rightarrow> bool"
    and same_email :: "string \<Rightarrow> string \<Rightarrow> 's \<Rightarrow> bool"
  assumes find_after_set:
    "ready s \<Longrightarrow> set_credential repo i email h s = (s', Inr ()) \<Longrightarrow> same_email email' email s \<Longrightarrow>
     find_by_email repo email' s' =
       (s', if active_member i s then Inr \<lparr>cred_member = i, cred_hash = h\<rparr> else Inl ErrInvalidCredentials)"
    and find_unknown: "ready s \<Longrightarrow> find_by_email repo email s = (s', Inl e) \<Longrightarrow> e = ErrInvalidCredentials"
begin

lemma login_after_set:
  assumes "ready s" and "hasher_ok (auth_hasher a)" and "auth_repo a = repo"
    and "hash_password (auth_hasher a) pw entropy = Some (h, entropy')"
    and "set_credential repo i email h s = (s', Inr ())" and "same_email email' email s"
  shows "snd (snd (Login a email' pw' s')) =
    (if active_member i s \<and> verify_password (auth_hasher a) pw' h = Some True then Inr i
     else Inl ErrInvalidCredentials)"
proof -
  have "verify_password (auth_hasher a) pw' h \<noteq> None" using assms(2,4) unfolding hasher_ok_def by blast
  then obtain b where "verify_password (auth_hasher a) pw' h = Some b" by blast
  then show ?thesis using find_after_set [OF assms(1,5,6)] assms(3) by (simp add: Login_def)
qed

text \<open>Whoever the email belongs to, and whether or not anyone, one hash is verified.\<close>

lemma login_one_verification:
  assumes "ready s" and "auth_repo a = repo"
  shows "length (fst (snd (Login a email pw s))) = 1"
  using assms find_unknown [of s email]
  by (cases "find_by_email repo email s"; cases "snd (find_by_email repo email s)") (auto simp: Login_def)

end

section \<open>The pgx repository\<close>

definition pg_credentials :: "conn credential_repository" where
  "pg_credentials = \<lparr>find_by_email = FindByEmail, set_credential = SetCredential\<rparr>"

definition pg_ready :: "conn \<Rightarrow> bool" where
  "pg_ready s \<longleftrightarrow> faults s = [] \<and> db_ok (db s)"

definition pg_active :: "member_id \<Rightarrow> conn \<Rightarrow> bool" where
  "pg_active i s \<longleftrightarrow> (\<exists>m \<in> set (members (db s)). m_id m = mid i \<and> m_active m)"

definition pg_same_email :: "string \<Rightarrow> string \<Rightarrow> conn \<Rightarrow> bool" where
  "pg_same_email a b s \<longleftrightarrow> email_eq (db s) a b"

interpretation pg: credential_store pg_credentials pg_ready pg_active pg_same_email
proof
  fix s i email h s' email'
  assume "pg_ready s" "set_credential pg_credentials i email h s = (s', Inr ())" "pg_same_email email' email s"
  then show "find_by_email pg_credentials email' s' =
      (s', if pg_active i s then Inr \<lparr>cred_member = i, cred_hash = h\<rparr> else Inl ErrInvalidCredentials)"
    using set_then_find [of s i email h s' email']
    by (simp add: pg_credentials_def pg_ready_def pg_active_def pg_same_email_def email_eq_def)
next
  fix s email s' e
  assume "pg_ready s" "find_by_email pg_credentials email s = (s', Inl e)"
  then show "e = ErrInvalidCredentials"
    by (auto simp: pg_credentials_def pg_ready_def FindByEmail_def run_sql_no_faults select_row_def
        split: list.splits prod.splits)
qed

text \<open>The argon2id hasher as the service's \<open>passwordHasher\<close> keeps its contract.\<close>

definition argon2_hasher :: "id_key \<Rightarrow> params \<Rightarrow> password_hasher" where
  "argon2_hasher idkey p =
     \<lparr>hash_password = (\<lambda>pw e. case Hash idkey p pw e of Inl _ \<Rightarrow> None | Inr r \<Rightarrow> Some r),
      verify_password = (\<lambda>pw h. case Verify idkey pw h of Inl _ \<Rightarrow> None | Inr b \<Rightarrow> Some b)\<rparr>"

lemma argon2_hasher_ok:
  assumes "argon2_ok idkey"
  shows "hasher_ok (argon2_hasher idkey p)"
  unfolding hasher_ok_def
proof (intro allI impI)
  fix pw e h e'
  assume "hash_password (argon2_hasher idkey p) pw e = Some (h, e')"
  then have h: "Hash idkey p pw e = Inr (h, e')"
    by (simp add: argon2_hasher_def split: sum.splits)
  from verify_hash [OF assms h, THEN conjunct1]
  show "verify_password (argon2_hasher idkey p) pw h = Some True \<and>
      (\<forall>pw'. verify_password (argon2_hasher idkey p) pw' h \<noteq> None)"
    by (simp add: argon2_hasher_def)
qed

text \<open>C14: after a member's credential is set to an argon2id hash of a password, logging in with that
  email in any letter case succeeds exactly when the member is active and the given password
  derives the same key as the one set, under the salt and cost of the hash; it then names
  that member. Every other attempt gets the one generic error.\<close>

theorem login_correct:
  assumes "faults s = []" and "db_ok (db s)" and "argon2_ok idkey"
    and "NewAuthenticator pg_credentials (argon2_hasher idkey p') e0 = Some (a, e1)"
    and "Hash idkey p pw entropy = Inr (h, entropy')"
    and "SetCredential i email h s = (s', Inr ())" and "lower_fn (db s) email' = lower_fn (db s) email"
  shows "snd (snd (Login a email' pw' s')) =
    (if (\<exists>m \<in> set (members (db s)). m_id m = mid i \<and> m_active m) \<and>
        idkey pw' (take argonSaltLen entropy) p = idkey pw (take argonSaltLen entropy) p
     then Inr i else Inl ErrInvalidCredentials)"
proof -
  have a: "auth_repo a = pg_credentials" "auth_hasher a = argon2_hasher idkey p'"
    using assms(4) by (auto simp: NewAuthenticator_def split: option.splits)
  have v: "verify_password (argon2_hasher idkey p') pw' h =
      Some (idkey pw' (take argonSaltLen entropy) p = idkey pw (take argonSaltLen entropy) p)"
    using verify_hash [OF assms(3,5), THEN conjunct1, of pw'] by (simp add: argon2_hasher_def)
  have "find_by_email pg_credentials email' s' =
      (s', if pg_active i s then Inr \<lparr>cred_member = i, cred_hash = h\<rparr> else Inl ErrInvalidCredentials)"
    using assms(1,2,6,7)
    by (intro pg.find_after_set) (simp_all add: pg_ready_def pg_same_email_def pg_credentials_def email_eq_def)
  then show ?thesis using a v by (simp add: Login_def pg_active_def)
qed

text \<open>A login attempt verifies exactly one hash whatever its outcome (unknown email, inactive
  member, wrong password, success), so that the number of key derivations does not tell
  whether an email is registered.\<close>

theorem login_uniform_work:
  assumes "faults s = []" and "db_ok (db s)" and "NewAuthenticator pg_credentials H e0 = Some (a, e1)"
  shows "length (fst (snd (Login a email pw s))) = 1"
proof -
  have "auth_repo a = pg_credentials"
    using assms(3) by (auto simp: NewAuthenticator_def split: option.splits)
  then show ?thesis using pg.login_one_verification assms by (simp add: pg_ready_def)
qed

section \<open>Inputs for the witnesses\<close>

definition demo_hash :: string where
  "demo_hash = format_phc DefaultParams (replicate 16 7) (the (toy_idkey ''pw'' (replicate 16 7) DefaultParams))"

lemma demo_hash: "Hash toy_idkey DefaultParams ''pw'' (replicate 16 7) = Inr (demo_hash, [])"
  by (simp add: Hash_def rand_read_def argonSaltLen_def demo_hash_def toy_idkey_def DefaultParams_def
      defaultArgonTime_def defaultArgonThreads_def)

definition demo_auth :: "conn authenticator" where
  "demo_auth = fst (the (NewAuthenticator pg_credentials (argon2_hasher toy_idkey DefaultParams) (replicate 16 7)))"

lemma demo_auth_new:
  "\<exists>e. NewAuthenticator pg_credentials (argon2_hasher toy_idkey DefaultParams) (replicate 16 7) = Some (demo_auth, e)"
  by (simp add: demo_auth_def NewAuthenticator_def argon2_hasher_def Hash_def rand_read_def argonSaltLen_def
      toy_idkey_def DefaultParams_def defaultArgonTime_def defaultArgonThreads_def)

theorem login_correct_witness:
  "snd (snd (Login demo_auth ''a@x'' ''pw'' (fst (SetCredential (MemberID 2) ''a@x'' demo_hash demo_conn)))) =
     Inr (MemberID 2)"
proof -
  obtain e where auth: "NewAuthenticator pg_credentials (argon2_hasher toy_idkey DefaultParams) (replicate 16 7) =
      Some (demo_auth, e)"
    using demo_auth_new by blast
  have "snd (SetCredential (MemberID 2) ''a@x'' h demo_conn) = Inr ()" for h
    by (simp add: SetCredential_def run_sql_no_faults demo_conn_def demo_db_def demo_member_def empty_db_def
        sql_set_credential_def put_members_def update_where_def count_where_def role_check_def emails_def
        List.map_filter_def name_key_def household_exists_def Let_def)
  then have set: "SetCredential (MemberID 2) ''a@x'' demo_hash demo_conn =
      (fst (SetCredential (MemberID 2) ''a@x'' demo_hash demo_conn), Inr ())"
    by (metis prod.collapse)
  have "faults demo_conn = []" "db_ok (db demo_conn)" "\<exists>m \<in> set (members (db demo_conn)). m_id m = mid (MemberID 2) \<and> m_active m"
    by (simp_all add: demo_conn_def demo_db_ok) (simp add: demo_db_def demo_member_def)
  with login_correct [OF this(1,2) toy_idkey_ok auth demo_hash set refl, of "''pw''"]
  show ?thesis by simp
qed

end
