(* ===== verification/Totp.thy ===== *)
theory Totp
  imports Prelude "HOL-Library.Signed_Division"
begin

text \<open>
  The TOTP provider of \<open>totp/totp.go\<close>. The RFC 6238 code of a secret at an instant is the
  library's (\<open>github.com/pquerna/otp\<close>), a parameter which may fail on a secret it cannot
  decode; what is here is the window \<open>MatchStep\<close> searches and which of several matching steps
  it reports.
\<close>

definition period :: int where "period = 30"
definition skew :: int where "skew = 1"

text \<open>\<open>otp_generate\<close> reads the system's randomness; the key is its secret and URL.\<close>

record otp_lib =
  otp_generate :: "string \<Rightarrow> string \<Rightarrow> bytes \<Rightarrow> ((string \<times> string) \<times> bytes) option"
  otp_validate :: "int \<Rightarrow> string \<Rightarrow> string \<Rightarrow> bool"
  otp_code_at :: "string \<Rightarrow> int \<Rightarrow> int \<Rightarrow> string option"

definition GenerateSecret :: "otp_lib \<Rightarrow> string \<Rightarrow> string \<Rightarrow> bytes \<Rightarrow> ((string \<times> string) \<times> bytes) option" where
  "GenerateSecret lib issuer account entropy =
     (case otp_generate lib issuer account entropy of
        None \<Rightarrow> None
      | Some ((secret, url), entropy) \<Rightarrow> Some ((secret, url), entropy))"

definition Validate :: "otp_lib \<Rightarrow> int \<Rightarrow> string \<Rightarrow> string \<Rightarrow> bool" where
  "Validate lib unix code secret = otp_validate lib unix code secret"

text \<open>One round of the loop: \<open>continue\<close> on a generation error, otherwise keep the higher match.
  \<open>unix / period\<close> truncates toward zero.\<close>

definition match_round :: "otp_lib \<Rightarrow> string \<Rightarrow> string \<Rightarrow> int \<Rightarrow> int \<times> bool \<Rightarrow> int \<times> bool" where
  "match_round lib code secret candidate r =
     (case r of (step, found) \<Rightarrow>
       (case otp_code_at lib secret (candidate * period) period of
          None \<Rightarrow> (step, found)
        | Some want \<Rightarrow>
            if want = code \<and> (\<not> found \<or> candidate > step) then (candidate, True) else (step, found)))"

definition MatchStep :: "otp_lib \<Rightarrow> int \<Rightarrow> string \<Rightarrow> string \<Rightarrow> int \<times> bool" where
  "MatchStep lib unix code secret =
     (let current = unix sdiv period
      in fold (\<lambda>i. match_round lib code secret (current + i)) [- skew..skew] (0, False))"

section \<open>The step it reports\<close>

definition matching_steps :: "otp_lib \<Rightarrow> int \<Rightarrow> string \<Rightarrow> string \<Rightarrow> int set" where
  "matching_steps lib unix code secret =
     {c \<in> {unix sdiv period - skew..unix sdiv period + skew}.
        otp_code_at lib secret (c * period) period = Some code}"

lemma window: "{c - skew..c + skew} = {c - 1, c, c + 1}"
  by (auto simp: skew_def)

lemma skew_range: "[- skew..skew] = [- 1, 0, 1]"
  by (simp add: skew_def upto.simps)

lemma match_step_window:
  "MatchStep lib unix code secret =
     (let S = matching_steps lib unix code secret in if S = {} then (0, False) else (Max S, True))"
proof -
  define cur where "cur = unix sdiv period"
  define hit where "hit c \<longleftrightarrow> otp_code_at lib secret (c * period) period = Some code" for c
  have round_eq: "match_round lib code secret c (s, b) = (if hit c \<and> (\<not> b \<or> c > s) then (c, True) else (s, b))"
    for c s b
    by (auto simp: match_round_def hit_def split: option.splits)
  have S: "matching_steps lib unix code secret = {c \<in> {cur - 1, cur, cur + 1}. hit c}"
    unfolding matching_steps_def hit_def cur_def window by blast
  have "Max {c \<in> {cur - 1, cur, cur + 1}. hit c} =
      (if hit (cur + 1) then cur + 1 else if hit cur then cur else cur - 1)"
    if "\<exists>c \<in> {cur - 1, cur, cur + 1}. hit c"
    by (rule Max_eqI) (use that in \<open>auto split: if_splits\<close>)
  moreover have "{c \<in> {cur - 1, cur, cur + 1}. hit c} = {} \<longleftrightarrow> \<not> (hit (cur - 1) \<or> hit cur \<or> hit (cur + 1))"
    by auto
  ultimately show ?thesis
    unfolding S Let_def MatchStep_def cur_def [symmetric] skew_range
    by (simp add: round_eq)
qed

lemma match_step_hit:
  "MatchStep lib unix code secret = (step, True) \<Longrightarrow> otp_code_at lib secret (step * period) period = Some code"
proof -
  assume m: "MatchStep lib unix code secret = (step, True)"
  let ?S = "matching_steps lib unix code secret"
  have "?S \<noteq> {}" "step = Max ?S"
    using m unfolding match_step_window Let_def by (auto split: if_splits)
  moreover have "finite ?S"
    unfolding matching_steps_def by (rule finite_subset [of _ "{unix sdiv period - skew..unix sdiv period + skew}"]) auto
  ultimately have "step \<in> ?S" by simp
  then show ?thesis by (simp add: matching_steps_def)
qed

text \<open>C23: \<open>MatchStep\<close> reports a match exactly when the code is the secret's at one of the three
  steps around now, and then the highest of the steps it matches.\<close>

theorem match_step_highest:
  "MatchStep lib unix code secret =
     (let S = matching_steps lib unix code secret in if S = {} then (0, False) else (Max S, True))"
  by (rule match_step_window)

end
