(* ===== verification/Aes_Gcm.thy ===== *)
theory Aes_Gcm
  imports Prelude Recovery_Codes
begin

text \<open>
  The symmetric cipher of \<open>crypto/aesgcm.go\<close>. AES-GCM itself is the standard library's
  \<open>cipher.AEAD\<close>, a record of its operations; \<open>aead_ok\<close> states what
  \<open>crypto/cipher\<close> documents of it. What is here is the framing: a fresh nonce before the sealed
  bytes, and how a ciphertext is taken apart.
\<close>

record aead =
  nonce_size :: nat
  aead_seal :: "bytes \<Rightarrow> bytes \<Rightarrow> bytes"          \<comment> \<open>nonce, plaintext\<close>
  aead_open :: "bytes \<Rightarrow> bytes \<Rightarrow> bytes option"   \<comment> \<open>nonce, sealed\<close>

datatype cipher_error = ErrInvalidKey | ErrMalformedCiphertext | CipherOther

definition keyLen :: nat where "keyLen = 32"

definition NewCipher :: "(bytes \<Rightarrow> aead option) \<Rightarrow> bytes \<Rightarrow> cipher_error + aead" where
  "NewCipher aes_gcm key =
     (if length key \<noteq> keyLen then Inl ErrInvalidKey
      else case aes_gcm key of None \<Rightarrow> Inl CipherOther | Some a \<Rightarrow> Inr a)"

text \<open>\<open>entropy\<close> is what \<open>rand.Reader\<close> will deliver.\<close>

definition Encrypt :: "aead \<Rightarrow> bytes \<Rightarrow> bytes \<Rightarrow> (bytes \<times> bytes) option" where
  "Encrypt c plaintext entropy =
     (case rand_read (nonce_size c) entropy of
        None \<Rightarrow> None
      | Some (nonce, entropy) \<Rightarrow> Some (nonce @ aead_seal c nonce plaintext, entropy))"

definition Decrypt :: "aead \<Rightarrow> bytes \<Rightarrow> cipher_error + bytes" where
  "Decrypt c ciphertext =
     (if length ciphertext < nonce_size c then Inl ErrMalformedCiphertext
      else case aead_open c (take (nonce_size c) ciphertext) (drop (nonce_size c) ciphertext) of
             None \<Rightarrow> Inl ErrMalformedCiphertext
           | Some plaintext \<Rightarrow> Inr plaintext)"

section \<open>The AEAD contract\<close>

text \<open>\<open>Open\<close> gives back what \<open>Seal\<close> sealed under the same nonce, and accepts nothing that was not
  sealed (with negligible probability).\<close>

definition aead_ok :: "aead \<Rightarrow> bool" where
  "aead_ok a \<longleftrightarrow>
     (\<forall>n p. length n = nonce_size a \<longrightarrow> aead_open a n (aead_seal a n p) = Some p) \<and>
     (\<forall>n c p. length n = nonce_size a \<longrightarrow> aead_open a n c = Some p \<longrightarrow> c = aead_seal a n p)"

lemma decrypt_iff:
  assumes "aead_ok a"
  shows "Decrypt a x = Inr p \<longleftrightarrow> (\<exists>n. length n = nonce_size a \<and> x = n @ aead_seal a n p)"
proof
  assume d: "Decrypt a x = Inr p"
  let ?n = "take (nonce_size a) x"
  have n: "length ?n = nonce_size a" "aead_open a ?n (drop (nonce_size a) x) = Some p"
    using d by (auto simp: Decrypt_def split: if_splits option.splits)
  then have "drop (nonce_size a) x = aead_seal a ?n p" using assms by (simp add: aead_ok_def)
  with n show "\<exists>n. length n = nonce_size a \<and> x = n @ aead_seal a n p"
    by (metis append_take_drop_id)
next
  assume "\<exists>n. length n = nonce_size a \<and> x = n @ aead_seal a n p"
  then show "Decrypt a x = Inr p" using assms by (auto simp: Decrypt_def aead_ok_def)
qed

lemma encrypt_frame:
  "Encrypt a p e = Some (x, e') \<longleftrightarrow>
     (\<exists>n. length n = nonce_size a \<and> e = n @ e' \<and> x = n @ aead_seal a n p)"
proof
  assume "Encrypt a p e = Some (x, e')"
  then have "nonce_size a \<le> length e" "x = take (nonce_size a) e @ aead_seal a (take (nonce_size a) e) p"
      "e' = drop (nonce_size a) e"
    by (auto simp: Encrypt_def rand_read_def split: if_splits)
  then show "\<exists>n. length n = nonce_size a \<and> e = n @ e' \<and> x = n @ aead_seal a n p"
    by (intro exI [of _ "take (nonce_size a) e"]) simp
qed (auto simp: Encrypt_def rand_read_def)

lemma decrypt_encrypt: "aead_ok a \<Longrightarrow> Encrypt a p e = Some (x, e') \<Longrightarrow> Decrypt a x = Inr p"
  unfolding encrypt_frame by (simp add: decrypt_iff) blast

text \<open>A function with the contract's shape, for the witnesses: it prefixes the plaintext with the
  byte sum of the nonce and the plaintext.\<close>

definition checksum :: "bytes \<Rightarrow> byte" where
  "checksum xs = sum_list xs"

definition toy_aead :: aead where
  "toy_aead = \<lparr>nonce_size = 2, aead_seal = (\<lambda>n p. checksum (n @ p) # p),
     aead_open = (\<lambda>n c. case c of [] \<Rightarrow> None | k # p \<Rightarrow> if k = checksum (n @ p) then Some p else None)\<rparr>"

lemma toy_aead_ok: "aead_ok toy_aead"
  by (auto simp: aead_ok_def toy_aead_def split: list.splits if_splits)

text \<open>With an AEAD that keeps its contract, decryption inverts encryption under every nonce
  the system's randomness may deliver, and it accepts nothing else: whatever decrypts is a
  nonce followed by what sealing the plaintext under that nonce gives. Encryption fails only
  when the randomness does.\<close>

theorem cipher_roundtrip:
  assumes "aead_ok a"
  shows "(\<forall>p e x e'. Encrypt a p e = Some (x, e') \<longrightarrow> Decrypt a x = Inr p) \<and>
         (\<forall>x p. Decrypt a x = Inr p \<longleftrightarrow> (\<exists>n. length n = nonce_size a \<and> x = n @ aead_seal a n p)) \<and>
         (\<forall>p e. Encrypt a p e = None \<longleftrightarrow> length e < nonce_size a)"
  using decrypt_encrypt [OF assms] decrypt_iff [OF assms]
  by (simp add: Encrypt_def rand_read_def)

end
