(* ===== verification/Mfa_Service.thy ===== *)
theory Mfa_Service
  imports Mfa_Store Authenticator Totp Aes_Gcm
begin

text \<open>
  The MFA use cases, \<open>identity/app/mfa.go\<close>: enrollment, confirmation with its recovery codes,
  and the two verification flows. The service reaches its repository, cipher, TOTP provider
  and password hasher through interfaces, here records of operations. A state of the service
  is the repository's state, the system's randomness and the clock.

  The locale \<open>mfa_repository_contract\<close> states what the replay guarantees need of a
  repository; the service's lemmas are proved in it, and it is interpreted on the pgx
  repository of \<open>Mfa_Store\<close>. The logger is left out, except that a verified login reports
  which log line it writes: the route it was verified by.
\<close>

section \<open>Interfaces\<close>

record 's mfa_repository =
  mr_get :: "member_id \<Rightarrow> 's \<Rightarrow> 's \<times> (id_error + mfa_enrollment)"
  mr_begin :: "member_id \<Rightarrow> household_id \<Rightarrow> bytes \<Rightarrow> 's \<Rightarrow> 's \<times> (id_error + unit)"
  mr_confirm :: "household_id \<Rightarrow> member_id \<Rightarrow> string list \<Rightarrow> 's \<Rightarrow> 's \<times> (id_error + unit)"
  mr_delete :: "household_id \<Rightarrow> member_id \<Rightarrow> 's \<Rightarrow> 's \<times> (id_error + unit)"
  mr_list_unused :: "member_id \<Rightarrow> 's \<Rightarrow> 's \<times> (id_error + recovery_code list)"
  mr_mark_used :: "recovery_code_id \<Rightarrow> 's \<Rightarrow> 's \<times> (id_error + unit)"
  mr_record_step :: "member_id \<Rightarrow> int \<Rightarrow> 's \<Rightarrow> 's \<times> (id_error + unit)"

record secret_cipher =
  sc_encrypt :: "bytes \<Rightarrow> bytes \<Rightarrow> (bytes \<times> bytes) option"
  sc_decrypt :: "bytes \<Rightarrow> bytes option"

record totp_provider =
  tp_generate :: "string \<Rightarrow> string \<Rightarrow> bytes \<Rightarrow> ((string \<times> string) \<times> bytes) option"
  tp_validate :: "int \<Rightarrow> string \<Rightarrow> string \<Rightarrow> bool"
  tp_match_step :: "int \<Rightarrow> string \<Rightarrow> string \<Rightarrow> int \<times> bool"

record 's mfa_service =
  svc_repo :: "'s mfa_repository"
  svc_cipher :: secret_cipher
  svc_totp :: totp_provider
  svc_hasher :: password_hasher

record 's svc_state =
  store :: 's
  entropy :: bytes
  unix_now :: int

definition on_store :: "('s \<Rightarrow> 's \<times> (id_error + 'a)) \<Rightarrow> 's svc_state \<Rightarrow> 's svc_state \<times> (id_error + 'a)" where
  "on_store f st = (case f (store st) of (s, r) \<Rightarrow> (st\<lparr>store := s\<rparr>, r))"

text \<open>The constructor refuses a nil dependency.\<close>

definition NewMFAService ::
    "'s mfa_repository option \<Rightarrow> secret_cipher option \<Rightarrow> totp_provider option \<Rightarrow> password_hasher option \<Rightarrow>
     unit option \<Rightarrow> id_error + 's mfa_service" where
  "NewMFAService repo cipher totp hasher logger =
     (case repo of None \<Rightarrow> Inl ErrOther | Some repo \<Rightarrow>
       (case cipher of None \<Rightarrow> Inl ErrOther | Some cipher \<Rightarrow>
         (case totp of None \<Rightarrow> Inl ErrOther | Some totp \<Rightarrow>
           (case hasher of None \<Rightarrow> Inl ErrOther | Some hasher \<Rightarrow>
             (case logger of None \<Rightarrow> Inl ErrOther | Some _ \<Rightarrow>
               Inr \<lparr>svc_repo = repo, svc_cipher = cipher, svc_totp = totp, svc_hasher = hasher\<rparr>)))))"

section \<open>Enrollment\<close>

definition recoveryCodeCount :: nat where "recoveryCodeCount = 10"

definition Status ::
    "'s mfa_service \<Rightarrow> member_id \<Rightarrow> 's svc_state \<Rightarrow> 's svc_state \<times> (id_error + mfa_enrollment option)" where
  "Status svc m st =
     (case on_store (mr_get (svc_repo svc) m) st of
        (st, Inl e) \<Rightarrow> (st, if e = ErrMFANotEnrolled then Inr None else Inl e)
      | (st, Inr enrollment) \<Rightarrow> (st, Inr (Some enrollment)))"

definition svc_BeginEnrollment ::
    "'s mfa_service \<Rightarrow> member_id \<Rightarrow> household_id \<Rightarrow> string \<Rightarrow> string \<Rightarrow> 's svc_state \<Rightarrow>
     's svc_state \<times> (id_error + string \<times> string)" where
  "svc_BeginEnrollment svc m h issuer account st =
     (case tp_generate (svc_totp svc) issuer account (entropy st) of
        None \<Rightarrow> (st, Inl ErrOther)
      | Some ((secret, url), e1) \<Rightarrow>
          (case sc_encrypt (svc_cipher svc) (bytes_of secret) e1 of
             None \<Rightarrow> (st\<lparr>entropy := e1\<rparr>, Inl ErrOther)
           | Some (secret_enc, e2) \<Rightarrow>
               (case on_store (mr_begin (svc_repo svc) m h secret_enc) (st\<lparr>entropy := e2\<rparr>) of
                  (st, Inl e) \<Rightarrow> (st, Inl e)
                | (st, Inr _) \<Rightarrow> (st, Inr (secret, url)))))"

text \<open>\<open>generateRecoveryCodes\<close>: raw codes for display, and their hashes.\<close>

fun generate_codes :: "password_hasher \<Rightarrow> nat \<Rightarrow> bytes \<Rightarrow> ((string list \<times> string list) \<times> bytes) option" where
  "generate_codes H 0 e = Some (([], []), e)"
| "generate_codes H (Suc n) e =
     (case GenerateRecoveryCode e of
        None \<Rightarrow> None
      | Some (raw, e) \<Rightarrow>
          (case hash_password H (NormalizeRecoveryCode raw) e of
             None \<Rightarrow> None
           | Some (hash, e) \<Rightarrow>
               (case generate_codes H n e of
                  None \<Rightarrow> None
                | Some ((raws, hashes), e) \<Rightarrow> Some ((raw # raws, hash # hashes), e))))"

definition generateRecoveryCodes ::
    "'s mfa_service \<Rightarrow> 's svc_state \<Rightarrow> 's svc_state \<times> (id_error + string list \<times> string list)" where
  "generateRecoveryCodes svc st =
     (case generate_codes (svc_hasher svc) recoveryCodeCount (entropy st) of
        None \<Rightarrow> (st, Inl ErrOther)
      | Some (r, e) \<Rightarrow> (st\<lparr>entropy := e\<rparr>, Inr r))"

definition svc_ConfirmEnrollment ::
    "'s mfa_service \<Rightarrow> member_id \<Rightarrow> household_id \<Rightarrow> string \<Rightarrow> 's svc_state \<Rightarrow>
     's svc_state \<times> (id_error + string list)" where
  "svc_ConfirmEnrollment svc m h code st =
     (case on_store (mr_get (svc_repo svc) m) st of
        (st, Inl e) \<Rightarrow> (st, Inl e)
      | (st, Inr enrollment) \<Rightarrow>
          if Confirmed (Some enrollment) then (st, Inl ErrMFAAlreadyEnrolled)
          else case sc_decrypt (svc_cipher svc) (enr_secret enrollment) of
                 None \<Rightarrow> (st, Inl ErrOther)
               | Some secret \<Rightarrow>
                   if \<not> tp_validate (svc_totp svc) (unix_now st) (trim_space code) (string_of secret)
                   then (st, Inl ErrInvalidTOTPCode)
                   else case generateRecoveryCodes svc st of
                          (st, Inl e) \<Rightarrow> (st, Inl e)
                        | (st, Inr r) \<Rightarrow>
                            (case on_store (mr_confirm (svc_repo svc) h m (snd r)) st of
                               (st, Inl e) \<Rightarrow> (st, Inl e)
                             | (st, Inr _) \<Rightarrow> (st, Inr (fst r))))"

section \<open>Verification\<close>

definition requireConfirmedEnrollment ::
    "'s mfa_service \<Rightarrow> member_id \<Rightarrow> 's svc_state \<Rightarrow> 's svc_state \<times> (id_error + mfa_enrollment)" where
  "requireConfirmedEnrollment svc m st =
     (case on_store (mr_get (svc_repo svc) m) st of
        (st, Inl e) \<Rightarrow> (st, Inl e)
      | (st, Inr enrollment) \<Rightarrow>
          if \<not> Confirmed (Some enrollment) then (st, Inl ErrMFANotEnrolled) else (st, Inr enrollment))"

text \<open>The scan of the unused codes; a hash that cannot be parsed is skipped.\<close>

fun first_match :: "password_hasher \<Rightarrow> string \<Rightarrow> recovery_code list \<Rightarrow> recovery_code_id option" where
  "first_match H normalized [] = None"
| "first_match H normalized (c # cs) =
     (case verify_password H normalized (rc_hash c) of
        None \<Rightarrow> first_match H normalized cs
      | Some matched \<Rightarrow> if matched then Some (rc_id c) else first_match H normalized cs)"

definition matchRecoveryCode ::
    "'s mfa_service \<Rightarrow> member_id \<Rightarrow> string \<Rightarrow> 's svc_state \<Rightarrow> 's svc_state \<times> (id_error + recovery_code_id option)" where
  "matchRecoveryCode svc m raw st =
     (let normalized = NormalizeRecoveryCode raw
      in if normalized = [] then (st, Inr None)
         else case on_store (mr_list_unused (svc_repo svc) m) st of
                (st, Inl e) \<Rightarrow> (st, Inl e)
              | (st, Inr unused) \<Rightarrow> (st, Inr (first_match (svc_hasher svc) normalized unused)))"

definition consumeRecoveryCode ::
    "'s mfa_service \<Rightarrow> member_id \<Rightarrow> string \<Rightarrow> 's svc_state \<Rightarrow> 's svc_state \<times> (id_error + recovery_code_id)" where
  "consumeRecoveryCode svc m raw st =
     (case matchRecoveryCode svc m raw st of
        (st, Inl e) \<Rightarrow> (st, Inl e)
      | (st, Inr found) \<Rightarrow>
          (case found of
             None \<Rightarrow> (st, Inl ErrRecoveryCodeInvalid)
           | Some i \<Rightarrow>
               (case on_store (mr_mark_used (svc_repo svc) i) st of
                  (st, Inl e) \<Rightarrow> (st, Inl e)
                | (st, Inr _) \<Rightarrow> (st, Inr i))))"

definition verifyTOTPOrRecovery ::
    "'s mfa_service \<Rightarrow> member_id \<Rightarrow> string \<Rightarrow> string \<Rightarrow> 's svc_state \<Rightarrow> 's svc_state \<times> (id_error + unit)" where
  "verifyTOTPOrRecovery svc m totp recovery st =
     (let totp = trim_space totp; recovery = trim_space recovery
      in if totp = [] \<and> recovery = [] then (st, Inl ErrMFAVerificationRequired)
         else case requireConfirmedEnrollment svc m st of
           (st, Inl e) \<Rightarrow> (st, Inl e)
         | (st, Inr enrollment) \<Rightarrow>
             if totp \<noteq> [] then
               (case sc_decrypt (svc_cipher svc) (enr_secret enrollment) of
                  None \<Rightarrow> (st, Inl ErrOther)
                | Some secret \<Rightarrow>
                    if tp_validate (svc_totp svc) (unix_now st) totp (string_of secret) then (st, Inr ())
                    else if recovery = [] then (st, Inl ErrInvalidTOTPCode)
                    else case consumeRecoveryCode svc m recovery st of
                           (st, Inl e) \<Rightarrow> (st, Inl e) | (st, Inr _) \<Rightarrow> (st, Inr ()))
             else case consumeRecoveryCode svc m recovery st of
                    (st, Inl e) \<Rightarrow> (st, Inl e) | (st, Inr _) \<Rightarrow> (st, Inr ()))"

definition Disenroll ::
    "'s mfa_service \<Rightarrow> member_id \<Rightarrow> household_id \<Rightarrow> string \<Rightarrow> string \<Rightarrow> 's svc_state \<Rightarrow>
     's svc_state \<times> (id_error + unit)" where
  "Disenroll svc m h totp recovery st =
     (case verifyTOTPOrRecovery svc m totp recovery st of
        (st, Inl e) \<Rightarrow> (st, Inl e)
      | (st, Inr _) \<Rightarrow> on_store (mr_delete (svc_repo svc) h m) st)"

text \<open>A login's TOTP check reports the step it recorded.\<close>

definition verifyLoginTOTP ::
    "'s mfa_service \<Rightarrow> member_id \<Rightarrow> mfa_enrollment \<Rightarrow> string \<Rightarrow> 's svc_state \<Rightarrow> 's svc_state \<times> (id_error + int)" where
  "verifyLoginTOTP svc m enrollment code st =
     (case sc_decrypt (svc_cipher svc) (enr_secret enrollment) of
        None \<Rightarrow> (st, Inl ErrOther)
      | Some secret \<Rightarrow>
          (let r = tp_match_step (svc_totp svc) (unix_now st) code (string_of secret); step = fst r
           in if \<not> snd r then (st, Inl ErrInvalidTOTPCode)
              else if (case enr_last_step enrollment of None \<Rightarrow> False | Some prev \<Rightarrow> step \<le> prev)
              then (st, Inl ErrInvalidTOTPCode)
              else case on_store (mr_record_step (svc_repo svc) m step) st of
                     (st, Inl e) \<Rightarrow> (st, Inl e)
                   | (st, Inr _) \<Rightarrow> (st, Inr step)))"

datatype login_route = Via_totp int | Via_recovery recovery_code_id

definition VerifyLoginCode ::
    "'s mfa_service \<Rightarrow> member_id \<Rightarrow> string \<Rightarrow> string \<Rightarrow> 's svc_state \<Rightarrow> 's svc_state \<times> (id_error + login_route)" where
  "VerifyLoginCode svc m totp recovery st =
     (let totp = trim_space totp; recovery = trim_space recovery
      in if totp = [] \<and> recovery = [] then (st, Inl ErrMFAVerificationRequired)
         else case requireConfirmedEnrollment svc m st of
           (st, Inl e) \<Rightarrow> (st, Inl e)
         | (st, Inr enrollment) \<Rightarrow>
             if totp \<noteq> [] then
               (case verifyLoginTOTP svc m enrollment totp st of
                  (st, Inl e) \<Rightarrow>
                    if e \<noteq> ErrInvalidTOTPCode \<or> recovery = [] then (st, Inl e)
                    else (case consumeRecoveryCode svc m recovery st of
                            (st, Inl e) \<Rightarrow> (st, Inl e) | (st, Inr i) \<Rightarrow> (st, Inr (Via_recovery i)))
                | (st, Inr step) \<Rightarrow> (st, Inr (Via_totp step)))
             else case consumeRecoveryCode svc m recovery st of
                    (st, Inl e) \<Rightarrow> (st, Inl e) | (st, Inr i) \<Rightarrow> (st, Inr (Via_recovery i)))"

section \<open>Calls\<close>

datatype svc_call =
    Call_status member_id
  | Call_begin member_id household_id string string
  | Call_confirm member_id household_id string
  | Call_disenroll member_id household_id string string
  | Call_login member_id string string
  | Call_clock int

text \<open>A call's result is reduced to the route of a verified login.\<close>

definition no_route :: "'s svc_state \<times> 'a \<Rightarrow> 's svc_state \<times> login_route option" where
  "no_route x = (fst x, None)"

fun svc_step :: "'s mfa_service \<Rightarrow> svc_call \<Rightarrow> 's svc_state \<Rightarrow> 's svc_state \<times> login_route option" where
  "svc_step svc (Call_status m) st = no_route (Status svc m st)"
| "svc_step svc (Call_begin m h issuer account) st = no_route (svc_BeginEnrollment svc m h issuer account st)"
| "svc_step svc (Call_confirm m h code) st = no_route (svc_ConfirmEnrollment svc m h code st)"
| "svc_step svc (Call_disenroll m h totp recovery) st = no_route (Disenroll svc m h totp recovery st)"
| "svc_step svc (Call_login m totp recovery) st =
     (case VerifyLoginCode svc m totp recovery st of
        (st, Inl _) \<Rightarrow> (st, None) | (st, Inr route) \<Rightarrow> (st, Some route))"
| "svc_step svc (Call_clock t) st = (st\<lparr>unix_now := t\<rparr>, None)"

fun svc_run :: "'s mfa_service \<Rightarrow> svc_call list \<Rightarrow> 's svc_state \<Rightarrow> 's svc_state" where
  "svc_run svc [] st = st"
| "svc_run svc (c # cs) st = svc_run svc cs (fst (svc_step svc c st))"

fun totp_logins :: "'s mfa_service \<Rightarrow> member_id \<Rightarrow> svc_call list \<Rightarrow> 's svc_state \<Rightarrow> int list" where
  "totp_logins svc m [] st = []"
| "totp_logins svc m (c # cs) st =
     (case svc_step svc c st of (st', route) \<Rightarrow>
       (case (c, route) of
          (Call_login m' totp recovery, Some (Via_totp step)) \<Rightarrow> if m' = m then [step] else []
        | _ \<Rightarrow> []) @ totp_logins svc m cs st')"

fun recovery_logins :: "'s mfa_service \<Rightarrow> svc_call list \<Rightarrow> 's svc_state \<Rightarrow> recovery_code_id list" where
  "recovery_logins svc [] st = []"
| "recovery_logins svc (c # cs) st =
     (case svc_step svc c st of (st', route) \<Rightarrow>
       (case route of Some (Via_recovery i) \<Rightarrow> [i] | _ \<Rightarrow> []) @ recovery_logins svc cs st')"

section \<open>How the service moves the repository\<close>

text \<open>\<open>svc_rel R f\<close>: the operation relates the repository's states before and after by \<open>R\<close>.\<close>

definition svc_rel :: "('s \<Rightarrow> 's \<Rightarrow> bool) \<Rightarrow> ('s svc_state \<Rightarrow> 's svc_state \<times> 'a) \<Rightarrow> bool" where
  "svc_rel R f \<longleftrightarrow> (\<forall>st. R (store st) (store (fst (f st))))"

lemma svc_relD: "svc_rel R f \<Longrightarrow> f st = (st', r) \<Longrightarrow> R (store st) (store st')"
  by (metis svc_rel_def fst_conv)

lemma svc_rel_bind:
  assumes "transp R" and "svc_rel R f" and "\<And>e. svc_rel R (h e)" and "\<And>a. svc_rel R (k a)"
  shows "svc_rel R (\<lambda>st. case f st of (st, Inl e) \<Rightarrow> h e st | (st, Inr a) \<Rightarrow> k a st)"
  unfolding svc_rel_def
proof
  fix st
  obtain st' r where f: "f st = (st', r)" by fastforce
  show "R (store st) (store (fst (case f st of (st, Inl e) \<Rightarrow> h e st | (st, Inr a) \<Rightarrow> k a st)))"
    using svc_relD [OF assms(2) f] assms(3,4) transpD [OF assms(1), of "store st" "store st'"]
    by (cases r) (auto simp: f svc_rel_def)
qed

lemma svc_rel_return: "reflp R \<Longrightarrow> svc_rel R (\<lambda>st. (st, r st))"
  by (simp add: svc_rel_def reflpD)

lemma svc_rel_if:
  "(b \<Longrightarrow> svc_rel R f) \<Longrightarrow> (\<not> b \<Longrightarrow> svc_rel R g) \<Longrightarrow> svc_rel R (\<lambda>st. if b then f st else g st)"
  by (simp add: svc_rel_def)

lemma svc_rel_if_st:
  "svc_rel R f \<Longrightarrow> svc_rel R g \<Longrightarrow> svc_rel R (\<lambda>st. if b st then f st else g st)"
  by (simp add: svc_rel_def)

lemma svc_rel_case_option:
  "svc_rel R f \<Longrightarrow> (\<And>a. svc_rel R (g a)) \<Longrightarrow> svc_rel R (\<lambda>st. case x of None \<Rightarrow> f st | Some a \<Rightarrow> g a st)"
  by (cases x) simp_all

lemma svc_rel_on_store: "(\<And>s. R s (fst (f s))) \<Longrightarrow> svc_rel R (on_store f)"
  by (simp add: svc_rel_def on_store_def split: prod.splits) (metis fst_conv)

fun repo_call :: "'s mfa_repository \<Rightarrow> mfa_call \<Rightarrow> 's \<Rightarrow> 's" where
  "repo_call repo (Get_enrollment m) s = fst (mr_get repo m s)"
| "repo_call repo (Begin_enrollment m h secret) s = fst (mr_begin repo m h secret s)"
| "repo_call repo (Confirm_enrollment h m hashes) s = fst (mr_confirm repo h m hashes s)"
| "repo_call repo (Delete_enrollment h m) s = fst (mr_delete repo h m s)"
| "repo_call repo (List_codes m) s = fst (mr_list_unused repo m s)"
| "repo_call repo (Mark_used i) s = fst (mr_mark_used repo i s)"
| "repo_call repo (Record_step m step) s = fst (mr_record_step repo m step s)"

definition repo_related :: "'s mfa_repository \<Rightarrow> (member_id \<Rightarrow> bool) \<Rightarrow> ('s \<Rightarrow> 's \<Rightarrow> bool) \<Rightarrow> bool" where
  "repo_related repo D R \<longleftrightarrow> reflp R \<and> transp R \<and>
     (\<forall>c s. (\<forall>h m. c = Delete_enrollment h m \<longrightarrow> D m) \<longrightarrow> R s (repo_call repo c s))"

lemma repo_relatedD:
  assumes "repo_related repo D R"
  shows "svc_rel R (on_store (mr_get repo m))" "svc_rel R (on_store (mr_begin repo m h secret))"
    "svc_rel R (on_store (mr_confirm repo h m hashes))" "svc_rel R (on_store (mr_list_unused repo m))"
    "svc_rel R (on_store (mr_mark_used repo i))" "svc_rel R (on_store (mr_record_step repo m n))"
    "D m \<Longrightarrow> svc_rel R (on_store (mr_delete repo h m))"
proof -
  have "R s (repo_call repo c s)" if "\<forall>h m. c = Delete_enrollment h m \<longrightarrow> D m" for c s
    using assms that unfolding repo_related_def by blast
  from this [of "Get_enrollment m"] this [of "Begin_enrollment m h secret"] this [of "Confirm_enrollment h m hashes"]
    this [of "List_codes m"] this [of "Mark_used i"] this [of "Record_step m n"] this [of "Delete_enrollment h m"]
  show "svc_rel R (on_store (mr_get repo m))" "svc_rel R (on_store (mr_begin repo m h secret))"
    "svc_rel R (on_store (mr_confirm repo h m hashes))" "svc_rel R (on_store (mr_list_unused repo m))"
    "svc_rel R (on_store (mr_mark_used repo i))" "svc_rel R (on_store (mr_record_step repo m n))"
    "D m \<Longrightarrow> svc_rel R (on_store (mr_delete repo h m))"
    by (auto intro!: svc_rel_on_store)
qed

lemma consume_related:
  assumes R: "repo_related (svc_repo svc) D R"
  shows "svc_rel R (consumeRecoveryCode svc m raw)"
proof -
  have refl: "reflp R" and trans: "transp R" using R by (simp_all add: repo_related_def)
  note rules = svc_rel_bind [OF trans] svc_rel_if svc_rel_case_option svc_rel_return [OF refl] repo_relatedD [OF R]
  show ?thesis
    unfolding consumeRecoveryCode_def [abs_def] matchRecoveryCode_def [abs_def] Let_def by (intro rules)
qed

lemma svc_step_related:
  assumes R: "repo_related (svc_repo svc) D R"
    and c: "\<And>m h totp recovery. c = Call_disenroll m h totp recovery \<Longrightarrow> D m"
  shows "R (store st) (store (fst (svc_step svc c st)))"
proof -
  have refl: "reflp R" and trans: "transp R" using R by (simp_all add: repo_related_def)
  note rules = svc_rel_bind [OF trans] svc_rel_if svc_rel_if_st svc_rel_case_option svc_rel_return [OF refl]
    repo_relatedD [OF R] consume_related [OF R]
  have 1: "svc_rel R (Status svc m)" for m
    unfolding Status_def [abs_def] by (intro rules)
  have 2: "R (store st) (store (fst (svc_BeginEnrollment svc m h i a st)))" for m h i a st
    using svc_relD [OF repo_relatedD(2) [OF R], of m h] reflpD [OF refl]
    by (auto simp: svc_BeginEnrollment_def split: option.splits prod.splits sum.splits) fastforce+
  have gen: "svc_rel R (generateRecoveryCodes svc)"
    using reflpD [OF refl] by (auto simp: svc_rel_def generateRecoveryCodes_def split: option.splits)
  have 3: "svc_rel R (svc_ConfirmEnrollment svc m h code)" for m h code
    unfolding svc_ConfirmEnrollment_def [abs_def] by (intro rules gen)
  have req: "svc_rel R (requireConfirmedEnrollment svc m)" for m
    unfolding requireConfirmedEnrollment_def [abs_def] by (intro rules)
  have ver: "svc_rel R (verifyTOTPOrRecovery svc m totp recovery)" for m totp recovery
    unfolding verifyTOTPOrRecovery_def [abs_def] Let_def by (intro rules req)
  have 4: "svc_rel R (Disenroll svc m h totp recovery)" if "D m" for m h totp recovery
    unfolding Disenroll_def [abs_def] by (intro rules ver that)
  have totp: "svc_rel R (verifyLoginTOTP svc m enrollment code)" for m enrollment code
  proof -
    have at: "svc_rel R (\<lambda>st. case sc_decrypt (svc_cipher svc) (enr_secret enrollment) of
        None \<Rightarrow> (st, Inl ErrOther)
      | Some secret \<Rightarrow>
          (let r = tp_match_step (svc_totp svc) t code (string_of secret); step = fst r
           in if \<not> snd r then (st, Inl ErrInvalidTOTPCode)
              else if (case enr_last_step enrollment of None \<Rightarrow> False | Some prev \<Rightarrow> step \<le> prev)
              then (st, Inl ErrInvalidTOTPCode)
              else case on_store (mr_record_step (svc_repo svc) m step) st of
                     (st, Inl e) \<Rightarrow> (st, Inl e)
                   | (st, Inr _) \<Rightarrow> (st, Inr step)))" for t
      unfolding Let_def by (intro rules)
    show ?thesis
      unfolding svc_rel_def
    proof
      fix st
      show "R (store st) (store (fst (verifyLoginTOTP svc m enrollment code st)))"
        using at [of "unix_now st", unfolded svc_rel_def, THEN spec [of _ st]] by (simp only: verifyLoginTOTP_def)
    qed
  qed
  have 5: "svc_rel R (VerifyLoginCode svc m totp recovery)" for m totp recovery
    unfolding VerifyLoginCode_def [abs_def] Let_def by (intro rules req totp)
  show ?thesis
  proof (cases c)
    case (Call_login m totp recovery)
    have "fst (svc_step svc c st) = fst (VerifyLoginCode svc m totp recovery st)"
      by (simp add: Call_login split: prod.split sum.split)
    then show ?thesis using 5 by (simp add: svc_rel_def)
  next
    case (Call_disenroll m h totp recovery)
    then have "D m" by (rule c)
    from 4 [OF this] show ?thesis by (simp add: Call_disenroll svc_rel_def no_route_def)
  qed (use 1 2 3 reflpD [OF refl] in \<open>simp_all add: svc_rel_def no_route_def\<close>)
qed

section \<open>What a verified login did\<close>

text \<open>Reaching one repository state from another by calls that delete no enrollment.\<close>

definition moved_to :: "'s mfa_repository \<Rightarrow> 's \<Rightarrow> 's \<Rightarrow> bool" where
  "moved_to repo s s' \<longleftrightarrow> (\<forall>R. repo_related repo (\<lambda>_. False) R \<longrightarrow> R s s')"

lemma moved_toD: "moved_to repo s s' \<Longrightarrow> repo_related repo (\<lambda>_. False) R \<Longrightarrow> R s s'"
  unfolding moved_to_def by (drule spec, erule mp)

lemma on_store_Inr: "on_store f st = (st', Inr a) \<Longrightarrow> f (store st) = (store st', Inr a)"
  by (auto simp: on_store_def split: prod.splits)

lemma match_moved: "matchRecoveryCode svc m raw st = (st1, r) \<Longrightarrow> moved_to (svc_repo svc) (store st) (store st1)"
  unfolding moved_to_def
proof (intro allI impI)
  fix R assume m: "matchRecoveryCode svc m raw st = (st1, r)" and R: "repo_related (svc_repo svc) (\<lambda>_. False) R"
  have refl: "reflp R" and trans: "transp R" using R by (simp_all add: repo_related_def)
  have "svc_rel R (matchRecoveryCode svc m raw)"
    unfolding matchRecoveryCode_def [abs_def] Let_def
    by (intro svc_rel_bind [OF trans] svc_rel_if svc_rel_return [OF refl] repo_relatedD [OF R])
  from svc_relD [OF this m] show "R (store st) (store st1)" .
qed

lemma require_moved:
  "requireConfirmedEnrollment svc m st = (st1, r) \<Longrightarrow> moved_to (svc_repo svc) (store st) (store st1)"
  unfolding moved_to_def
proof (intro allI impI)
  fix R assume m: "requireConfirmedEnrollment svc m st = (st1, r)" and R: "repo_related (svc_repo svc) (\<lambda>_. False) R"
  have refl: "reflp R" and trans: "transp R" using R by (simp_all add: repo_related_def)
  have "svc_rel R (requireConfirmedEnrollment svc m)"
    unfolding requireConfirmedEnrollment_def [abs_def]
    by (intro svc_rel_bind [OF trans] svc_rel_if svc_rel_return [OF refl] repo_relatedD [OF R])
  from svc_relD [OF this m] show "R (store st) (store st1)" .
qed

lemma login_totp_moved:
  "verifyLoginTOTP svc m enrollment code st = (st1, r) \<Longrightarrow> moved_to (svc_repo svc) (store st) (store st1)"
  unfolding moved_to_def
proof (intro allI impI)
  fix R assume m: "verifyLoginTOTP svc m enrollment code st = (st1, r)" and R: "repo_related (svc_repo svc) (\<lambda>_. False) R"
  have "reflp R" using R by (simp add: repo_related_def)
  then show "R (store st) (store st1)"
    using m svc_relD [OF repo_relatedD(6) [OF R], of m _ st]
    by (auto simp: verifyLoginTOTP_def Let_def dest: reflpD split: option.splits if_splits prod.splits sum.splits)
qed

lemma moved_trans:
  assumes "moved_to repo s s'" and "moved_to repo s' s''"
  shows "moved_to repo s s''"
  unfolding moved_to_def
proof (intro allI impI)
  fix R assume R: "repo_related repo (\<lambda>_. False) R"
  then have "transp R" by (simp add: repo_related_def)
  from transpD [OF this moved_toD [OF assms(1) R] moved_toD [OF assms(2) R]] show "R s s''" .
qed

lemma consume_Inr:
  assumes "consumeRecoveryCode svc m raw st = (st', Inr i)"
  obtains st1 u where "matchRecoveryCode svc m raw st = (st1, Inr (Some i))"
    "mr_mark_used (svc_repo svc) i (store st1) = (store st', Inr u)"
proof -
  obtain st1 r where m: "matchRecoveryCode svc m raw st = (st1, r)" by fastforce
  with assms obtain found where r: "r = Inr found" by (cases r) (auto simp: consumeRecoveryCode_def)
  with assms m have "found \<noteq> None" by (cases found) (auto simp: consumeRecoveryCode_def)
  then obtain j where j: "found = Some j" by blast
  obtain st2 q where q: "on_store (mr_mark_used (svc_repo svc) j) st1 = (st2, q)" by fastforce
  with assms m r j obtain u where "q = Inr u" "j = i" "st2 = st'"
    by (cases q) (auto simp: consumeRecoveryCode_def)
  with m r j q that show ?thesis by (auto dest: on_store_Inr)
qed

lemma login_Inr:
  fixes st :: "'s svc_state"
  assumes "VerifyLoginCode svc m totp recovery st = (st', Inr route)"
  obtains (Totp) step and st1 :: "'s svc_state" and u where "route = Via_totp step" "moved_to (svc_repo svc) (store st) (store st1)"
      "mr_record_step (svc_repo svc) m step (store st1) = (store st', Inr u)"
  | (Recovery) i and st1 :: "'s svc_state" and u where "route = Via_recovery i" "moved_to (svc_repo svc) (store st) (store st1)"
      "mr_mark_used (svc_repo svc) i (store st1) = (store st', Inr u)"
proof -
  let ?t = "trim_space totp" and ?r = "trim_space recovery"
  have some: "\<not> (?t = [] \<and> ?r = [])" using assms by (auto simp: VerifyLoginCode_def Let_def)
  obtain st1 q where q: "requireConfirmedEnrollment svc m st = (st1, q)" by fastforce
  then obtain enr where enr: "q = Inr enr"
    using assms some by (cases q) (simp_all add: VerifyLoginCode_def)
  note moved1 = require_moved [OF q]
  have consume: thesis
    if c: "consumeRecoveryCode svc m ?r st2 = (st', Inr i)" and r: "route = Via_recovery i"
      and mv: "moved_to (svc_repo svc) (store st) (store st2)" for st2 i
    using c
  proof (rule consume_Inr)
    fix st3 u assume "matchRecoveryCode svc m ?r st2 = (st3, Inr (Some i))"
      and m: "mr_mark_used (svc_repo svc) i (store st3) = (store st', Inr u)"
    from moved_trans [OF mv match_moved [OF this(1)]] r m show thesis by (intro Recovery [of i st3 u])
  qed
  show thesis
  proof (cases "?t = []")
    case True
    obtain st2 p where p: "consumeRecoveryCode svc m ?r st1 = (st2, p)" by fastforce
    with assms some q enr True obtain i where "p = Inr i" "route = Via_recovery i" "st2 = st'"
      by (cases p) (simp_all add: VerifyLoginCode_def)
    with p consume moved1 show thesis by blast
  next
    case False
    obtain st2 v where v: "verifyLoginTOTP svc m enr ?t st1 = (st2, v)" by fastforce
    show thesis
    proof (cases v)
      case (Inr step)
      then have "route = Via_totp step" "st2 = st'"
        using assms some q enr False v by (simp_all add: VerifyLoginCode_def)
      moreover obtain secret where "sc_decrypt (svc_cipher svc) (enr_secret enr) = Some secret"
        using v Inr by (cases "sc_decrypt (svc_cipher svc) (enr_secret enr)") (simp_all add: verifyLoginTOTP_def)
      then obtain u where "on_store (mr_record_step (svc_repo svc) m step) st1 = (st2, Inr u)"
        using v Inr by (auto simp: verifyLoginTOTP_def Let_def split: if_splits prod.splits sum.splits)
      ultimately show thesis using moved1 by (intro Totp) (auto dest: on_store_Inr)
    next
      case (Inl e)
      obtain st3 p where p: "consumeRecoveryCode svc m ?r st2 = (st3, p)" by fastforce
      have "e = ErrInvalidTOTPCode \<and> ?r \<noteq> []"
        using assms some q enr False v Inl by (auto simp: VerifyLoginCode_def Let_def split: if_splits)
      with assms some q enr False v Inl p obtain i where "p = Inr i" "route = Via_recovery i" "st3 = st'"
        by (cases p) (simp_all add: VerifyLoginCode_def)
      with p consume moved_trans [OF moved1 login_totp_moved [OF v]] show thesis by blast
    qed
  qed
qed

section \<open>The repository's contract\<close>

text \<open>
  \<open>stepped m x s\<close>: the member's last accepted step is at least \<open>x\<close>. \<open>spent i s\<close>: the recovery
  code will never be accepted again. \<open>fresh\<close> and \<open>within\<close> say that the ids a repository will
  still generate are new, up to the end of its supply.
\<close>

locale mfa_repository_contract =
  fixes repo :: "'s mfa_repository"
    and stepped :: "member_id \<Rightarrow> int \<Rightarrow> 's \<Rightarrow> bool"
    and spent :: "recovery_code_id \<Rightarrow> 's \<Rightarrow> bool"
    and fresh :: "'s \<Rightarrow> bool"
    and within :: "'s \<Rightarrow> bool"
  assumes step_recorded: "mr_record_step repo m n s = (s', Inr u) \<Longrightarrow> stepped m n s'"
    and step_increases: "mr_record_step repo m n s = (s', Inr u) \<Longrightarrow> stepped m x s \<Longrightarrow> x < n"
    and step_kept: "(\<And>h. c \<noteq> Delete_enrollment h m) \<Longrightarrow> stepped m x s \<Longrightarrow> stepped m x (repo_call repo c s)"
    and mark_spends: "mr_mark_used repo i s = (s', Inr u) \<Longrightarrow> fresh s \<Longrightarrow> \<not> spent i s \<and> spent i s'"
    and within_before: "within (repo_call repo c s) \<Longrightarrow> within s"
    and fresh_kept: "fresh s \<Longrightarrow> within (repo_call repo c s) \<Longrightarrow> fresh (repo_call repo c s)"
    and spent_kept: "fresh s \<Longrightarrow> within (repo_call repo c s) \<Longrightarrow> spent i s \<Longrightarrow> spent i (repo_call repo c s)"
begin

definition step_rel :: "member_id \<Rightarrow> int \<Rightarrow> 's \<Rightarrow> 's \<Rightarrow> bool" where
  "step_rel m x s s' \<longleftrightarrow> (stepped m x s \<longrightarrow> stepped m x s')"

definition code_rel :: "recovery_code_id \<Rightarrow> 's \<Rightarrow> 's \<Rightarrow> bool" where
  "code_rel i s s' \<longleftrightarrow> (within s' \<longrightarrow> within s \<and> (fresh s \<longrightarrow> fresh s' \<and> (spent i s \<longrightarrow> spent i s')))"

lemma step_related: "repo_related repo (\<lambda>m'. m' \<noteq> m) (step_rel m x)"
proof -
  have "step_rel m x s (repo_call repo c s)" if "\<forall>h m'. c = Delete_enrollment h m' \<longrightarrow> m' \<noteq> m" for c s
    using step_kept [of c m x s] that by (auto simp: step_rel_def)
  then show ?thesis unfolding repo_related_def by (auto simp: reflp_def transp_def step_rel_def)
qed

lemma code_related: "repo_related repo (\<lambda>_. True) (code_rel i)"
  using within_before fresh_kept spent_kept
  by (auto simp: repo_related_def reflp_def transp_def code_rel_def)

lemma related_mono: "repo_related repo D R \<Longrightarrow> repo_related repo (\<lambda>_. False) R"
  by (simp add: repo_related_def)

lemma totp_logins_increase:
  assumes svc: "svc_repo svc = repo"
    and no_delete: "\<forall>c \<in> set cs. \<forall>h totp recovery. c \<noteq> Call_disenroll m h totp recovery"
  shows "sorted_wrt (<) (totp_logins svc m cs st) \<and>
         (stepped m x (store st) \<longrightarrow> (\<forall>y \<in> set (totp_logins svc m cs st). x < y))"
  using no_delete
proof (induction cs arbitrary: st x)
  case (Cons c cs)
  obtain st' r where c: "svc_step svc c st = (st', r)" by fastforce
  have kept: "stepped m y (store st')" if "stepped m y (store st)" for y
    using svc_step_related [OF step_related [folded svc], of c m y st] Cons.prems that c
    by (auto simp: step_rel_def)
  have ih: "sorted_wrt (<) (totp_logins svc m cs st')"
      "stepped m y (store st') \<Longrightarrow> \<forall>z \<in> set (totp_logins svc m cs st'). y < z" for y
    using Cons by auto
  show ?case
  proof (cases "\<exists>totp recovery step. c = Call_login m totp recovery \<and> r = Some (Via_totp step)")
    case True
    then obtain totp recovery step where cr: "c = Call_login m totp recovery" "r = Some (Via_totp step)" by blast
    then have "VerifyLoginCode svc m totp recovery st = (st', Inr (Via_totp step))"
      using c by (auto split: prod.splits sum.splits)
    then show ?thesis
    proof (cases rule: login_Inr)
      case (Totp step' st1 u)
      have rec: "mr_record_step repo m step (store st1) = (store st', Inr u)" using Totp svc by simp
      have "x < step" if "stepped m x (store st)"
        using moved_toD [OF Totp(2) related_mono [OF step_related, folded svc]] that
          step_increases [OF rec] by (auto simp: step_rel_def)
      then show ?thesis using cr c ih(1) ih(2) [OF step_recorded [OF rec]] by fastforce
    qed simp
  next
    case False
    then have "totp_logins svc m (c # cs) st = totp_logins svc m cs st'"
      using c by (cases c) (auto split: option.splits login_route.splits)
    then show ?thesis using ih kept by simp
  qed
qed simp

lemma recovery_logins_distinct:
  assumes svc: "svc_repo svc = repo"
    and "fresh (store st)" and "within (store (svc_run svc cs st))"
  shows "distinct (recovery_logins svc cs st) \<and> within (store st) \<and>
         (\<forall>i \<in> set (recovery_logins svc cs st). \<not> spent i (store st))"
  using assms(2,3)
proof (induction cs arbitrary: st)
  case (Cons c cs)
  obtain st' r where c: "svc_step svc c st = (st', r)" by fastforce
  have rel: "code_rel i (store st) (store st')" for i
    using svc_step_related [OF code_related [folded svc], of c i st] c by simp
  have win: "within (store (svc_run svc cs st'))" using Cons.prems c by simp
  have run: "within (store st'')" if "within (store (svc_run svc cs st''))" for st''
    using that
  proof (induction cs arbitrary: st'')
    case (Cons a as)
    have "code_rel i (store st'') (store (fst (svc_step svc a st'')))" for i
      using svc_step_related [OF code_related [folded svc], of a i st''] by simp
    with Cons show ?case by (auto simp: code_rel_def)
  qed simp
  have fresh': "fresh (store st')" and win0: "within (store st)"
    using rel run [OF win] Cons.prems by (auto simp: code_rel_def)
  have spent': "spent i (store st) \<Longrightarrow> spent i (store st')" for i
    using rel [of i] run [OF win] Cons.prems by (simp add: code_rel_def)
  note ih = Cons.IH [OF fresh' win]
  show ?case
  proof (cases "\<exists>i. r = Some (Via_recovery i)")
    case True
    then obtain i where i: "r = Some (Via_recovery i)" by blast
    then obtain m totp recovery where "VerifyLoginCode svc m totp recovery st = (st', Inr (Via_recovery i))"
      using c by (cases c) (auto simp: no_route_def split: prod.splits sum.splits)
    then have "\<not> spent i (store st) \<and> spent i (store st')"
    proof (cases rule: login_Inr)
      case (Recovery j st1 u)
      have rel1: "code_rel i (store st) (store st1)"
        using moved_toD [OF Recovery(2) related_mono [OF code_related, folded svc]] .
      have mark: "mr_mark_used repo i (store st1) = (store st', Inr u)" using Recovery svc by simp
      then have "within (store st1)"
        using within_before [of "Mark_used i" "store st1"] run [OF win] by simp
      with rel1 Cons.prems mark_spends [OF mark] show ?thesis by (auto simp: code_rel_def)
    qed simp
    moreover have "recovery_logins svc (c # cs) st = i # recovery_logins svc cs st'" using i c by simp
    ultimately show ?thesis using ih spent' win0 by auto
  next
    case False
    then have "recovery_logins svc (c # cs) st = recovery_logins svc cs st'"
      using c by (auto split: option.splits login_route.splits)
    then show ?thesis using ih spent' win0 by auto
  qed
qed simp

end

section \<open>The pgx repository\<close>

definition pg_mfa :: "conn mfa_repository" where
  "pg_mfa = \<lparr>mr_get = GetEnrollment, mr_begin = BeginEnrollment, mr_confirm = ConfirmEnrollmentWithCodes,
     mr_delete = DeleteEnrollment, mr_list_unused = ListUnusedRecoveryCodes,
     mr_mark_used = MarkRecoveryCodeUsed, mr_record_step = RecordLoginStep\<rparr>"

definition pg_stepped :: "member_id \<Rightarrow> int \<Rightarrow> conn \<Rightarrow> bool" where
  "pg_stepped m x s \<longleftrightarrow> stepped_to m x (db s)"

definition pg_within :: "nat \<Rightarrow> conn \<Rightarrow> bool" where
  "pg_within L s \<longleftrightarrow> uuids_used s \<le> L"

lemma pg_repo_call: "repo_call pg_mfa c s = fst (apply_mfa_call c s)"
  by (cases c) (simp_all add: pg_mfa_def drop_value_def)

interpretation pg_mfa: mfa_repository_contract pg_mfa pg_stepped "burnt L" "ids_fresh L" "pg_within L" for L
proof
  fix m n s s' u x
  assume "mr_record_step pg_mfa m n s = (s', Inr u)"
  then have r: "RecordLoginStep m n s = (s', Inr u)" by (simp add: pg_mfa_def)
  show "pg_stepped m n s'" using record_step_accepted(1) [OF r] by (simp add: pg_stepped_def)
  show "x < n" if "pg_stepped m x s" using record_step_accepted(2) [OF r] that by (simp add: pg_stepped_def)
next
  fix c m x s assume d: "\<And>h. c \<noteq> Delete_enrollment h m" and "pg_stepped m x s"
  moreover have "call_within (\<lambda>_. True) (\<lambda>_. True) (\<lambda>m'. m' \<noteq> m) c" using d by (cases c) auto
  ultimately show "pg_stepped m x (repo_call pg_mfa c s)"
    using mfa_call_related [OF writes_step_kept] by (simp add: pg_stepped_def step_kept_def pg_repo_call)
next
  fix i s s' u assume "mr_mark_used pg_mfa i s = (s', Inr u)" "ids_fresh L s"
  then show "\<not> burnt L i s \<and> burnt L i s'" using mark_used_accepted [of i s s' u L] by (simp add: pg_mfa_def)
next
  fix c i and s :: conn
  note rel = mfa_call_codes_rel [of L i s c, unfolded codes_rel_def]
  show "pg_within L (repo_call pg_mfa c s) \<Longrightarrow> pg_within L s"
    using rel by (simp add: pg_within_def pg_repo_call)
  show "ids_fresh L s \<Longrightarrow> pg_within L (repo_call pg_mfa c s) \<Longrightarrow> ids_fresh L (repo_call pg_mfa c s)"
    "ids_fresh L s \<Longrightarrow> pg_within L (repo_call pg_mfa c s) \<Longrightarrow> burnt L i s \<Longrightarrow> burnt L i (repo_call pg_mfa c s)"
    using rel by (simp_all add: pg_within_def pg_repo_call)
qed

section \<open>From confirmation to a recovery login\<close>

lemma generate_codes_hashes:
  assumes "generate_codes H n e = Some ((raws, hashes), e')"
  shows "length raws = n \<and> length hashes = n \<and>
    (\<forall>raw \<in> set raws. NormalizeRecoveryCode raw \<noteq> [] \<and>
       (\<exists>hash \<in> set hashes. \<exists>e e'. hash_password H (NormalizeRecoveryCode raw) e = Some (hash, e')))"
  using assms
proof (induction n arbitrary: e raws hashes)
  case (Suc n)
  obtain raw e1 where g: "GenerateRecoveryCode e = Some (raw, e1)"
    using Suc.prems by (auto split: option.splits)
  then obtain hash e2 where h: "hash_password H (NormalizeRecoveryCode raw) e1 = Some (hash, e2)"
    using Suc.prems by (auto split: option.splits)
  then obtain raws' hashes' where r: "generate_codes H n e2 = Some ((raws', hashes'), e')"
      "raws = raw # raws'" "hashes = hash # hashes'"
    using Suc.prems g by (auto split: option.splits)
  from Suc.IH [OF r(1)] r(2,3) h generate_nonempty [OF g] show ?case by auto
qed simp

lemma svc_confirm_Inr:
  fixes st :: "conn svc_state"
  assumes "svc_repo svc = pg_mfa" and "svc_ConfirmEnrollment svc m h code st = (st1, Inr raws)"
  obtains s hashes e e' u where "db s = db (store st)" "ConfirmEnrollmentWithCodes h m hashes s = (store st1, Inr u)"
    "generate_codes (svc_hasher svc) recoveryCodeCount e = Some ((raws, hashes), e')"
proof -
  obtain sa qa where a: "on_store (GetEnrollment m) st = (sa, qa)" by fastforce
  with assms obtain enr where enr: "qa = Inr enr" by (cases qa) (auto simp: svc_ConfirmEnrollment_def pg_mfa_def)
  have dba: "db (store sa) = db (store st)"
  proof -
    obtain s1 r1 where run: "run_sql (select_row (mfa_rows m)) (store st) = (s1, r1)" by fastforce
    have "store sa = s1" using a run by (cases r1) (auto simp: on_store_def GetEnrollment_def)
    then show ?thesis using select_row_db [OF run] by simp
  qed
  obtain sb qb where b: "generateRecoveryCodes svc sa = (sb, qb)" by fastforce
  obtain r where r: "qb = Inr r"
    using assms a enr b by (cases qb) (auto simp: svc_ConfirmEnrollment_def pg_mfa_def split: if_splits option.splits)
  have gen: "store sb = store sa" "\<exists>e'. generate_codes (svc_hasher svc) recoveryCodeCount (entropy sa) = Some (r, e')"
    using b r by (auto simp: generateRecoveryCodes_def split: option.splits)
  obtain sc qc where c: "on_store (ConfirmEnrollmentWithCodes h m (snd r)) sb = (sc, qc)" by fastforce
  obtain u where u: "qc = Inr u" "st1 = sc" "raws = fst r"
    using assms a enr b r c
    by (cases qc) (auto simp: svc_ConfirmEnrollment_def pg_mfa_def split: if_splits option.splits)
  show thesis
  proof -
    obtain e' where e': "generate_codes (svc_hasher svc) recoveryCodeCount (entropy sa) = Some (r, e')"
      using gen(2) by blast
    have call: "ConfirmEnrollmentWithCodes h m (snd r) (store sa) = (store st1, Inr u)"
      using on_store_Inr [OF c [unfolded u(1)]] gen(1) u(2) by simp
    have "r = (raws, snd r)" using u(3) by simp
    with e' have "generate_codes (svc_hasher svc) recoveryCodeCount (entropy sa) = Some ((raws, snd r), e')" by simp
    with dba call show thesis by (rule that)
  qed
qed

lemma first_match_found:
  assumes "\<exists>c \<in> set cs. verify_password H n (rc_hash c) = Some True"
  shows "\<exists>c \<in> set cs. first_match H n cs = Some (rc_id c)"
  using assms by (induction cs) (auto split: option.splits)

lemma code_rows_hash: "h \<in> set hs \<Longrightarrow> \<exists>r \<in> set (code_rows m now ids n hs). c_hash r = h"
  by (induction hs arbitrary: n) auto

lemma code_rows_shape: "r \<in> set (code_rows m now ids n hs) \<Longrightarrow> c_member r = mid m \<and> c_used r = None"
  by (induction hs arbitrary: n) auto

lemma length_code_rows [simp]: "length (code_rows m now ids n hs) = length hs"
  by (induction hs arbitrary: n) auto

lemma unused_confirmed:
  "unused_codes m (confirmed_db m hashes s) =
     map (\<lambda>c. \<lparr>rc_id = RecoveryCodeID (c_id c), rc_member = m, rc_hash = c_hash c, rc_used_at = None,
               rc_created = c_created c\<rparr>)
       (sort_key (\<lambda>c. (c_created c, c_id c)) (code_rows m (clock s) (uuids s) (uuids_used s) hashes))"
proof -
  have "filter (\<lambda>c. c_member c = mid m \<and> c_used c = None)
      (delete_where (\<lambda>c. c_member c = mid m) (codes (db s)) @ code_rows m (clock s) (uuids s) (uuids_used s) hashes) =
      code_rows m (clock s) (uuids s) (uuids_used s) hashes"
    using code_rows_shape by (auto simp: delete_where_def filter_empty_conv filter_id_conv)
  then show ?thesis by (simp add: unused_codes_def confirmed_db_def)
qed

lemma mark_used_no_faults:
  assumes "faults s = []" and "i \<in> rc_id ` set (unused_codes m (db s))"
  shows "\<exists>s'. MarkRecoveryCodeUsed i s = (s', Inr ()) \<and>
    unused_codes m (db s') = filter (\<lambda>c. rc_id c \<noteq> i) (unused_codes m (db s))"
proof -
  let ?P = "\<lambda>c. c_id c = rid i \<and> c_used c = None"
  let ?f = "\<lambda>c. c\<lparr>c_used := Some (clock s)\<rparr>"
  let ?U = "\<lambda>c. c_member c = mid m \<and> c_used c = None"
  let ?K = "\<lambda>c. (c_created c, c_id c)"
  let ?M = "\<lambda>c. \<lparr>rc_id = RecoveryCodeID (c_id c), rc_member = m, rc_hash = c_hash c, rc_used_at = None,
               rc_created = c_created c\<rparr>"
  obtain c where "c \<in> set (codes (db s))" "?P c"
    using assms(2) by (auto simp: unused_codes_def)
  then have n: "count_where ?P (codes (db s)) \<noteq> 0" by (auto simp: count_where_0)
  define s' where "s' = s\<lparr>db := (db s)\<lparr>codes := update_where ?P ?f (codes (db s))\<rparr>\<rparr>"
  have call: "MarkRecoveryCodeUsed i s = (s', Inr ())"
    using assms(1) n by (simp add: MarkRecoveryCodeUsed_def run_sql_no_faults sql_mark_used_def Let_def s'_def)
  have codes': "codes (db s') = update_where ?P ?f (codes (db s))" by (simp add: s'_def)
  have filt: "filter ?U (update_where ?P ?f cs) = filter (\<lambda>c. c_id c \<noteq> rid i) (filter ?U cs)" for cs
    by (induction cs) (auto simp: update_where_def)
  have "unused_codes m (db s') = map ?M (sort_key ?K (filter (\<lambda>c. c_id c \<noteq> rid i) (filter ?U (codes (db s)))))"
    unfolding unused_codes_def codes' filt ..
  also have "\<dots> = map ?M (filter (\<lambda>c. c_id c \<noteq> rid i) (sort_key ?K (filter ?U (codes (db s)))))"
    by (simp only: filter_sort)
  also have "\<dots> = filter (\<lambda>c. rc_id c \<noteq> i) (unused_codes m (db s))"
    by (cases i) (simp add: unused_codes_def filter_map comp_def)
  finally show ?thesis using call by blast
qed

text \<open>Without faults, a recovery code that some unused hash of the member verifies logs in.\<close>

lemma recovery_login_succeeds:
  fixes st :: "conn svc_state"
  assumes svc: "svc_repo svc = pg_mfa" and nf: "faults (store st) = []"
    and confirmed: "\<exists>r rest. mfa_rows m (db (store st)) = r # rest \<and> f_confirmed r \<noteq> None"
    and norm: "NormalizeRecoveryCode (trim_space given) \<noteq> []"
    and hit: "\<exists>c \<in> set (unused_codes m (db (store st))).
      verify_password (svc_hasher svc) (NormalizeRecoveryCode (trim_space given)) (rc_hash c) = Some True"
  shows "\<exists>i st'. VerifyLoginCode svc m [] given st = (st', Inr (Via_recovery i)) \<and>
    i \<in> rc_id ` set (unused_codes m (db (store st))) \<and>
    unused_codes m (db (store st')) = filter (\<lambda>c. rc_id c \<noteq> i) (unused_codes m (db (store st)))"
proof -
  let ?g = "trim_space given"
  obtain c where c: "c \<in> set (unused_codes m (db (store st)))"
      "first_match (svc_hasher svc) (NormalizeRecoveryCode ?g) (unused_codes m (db (store st))) = Some (rc_id c)"
    using first_match_found [OF hit] by blast
  obtain s' where s': "MarkRecoveryCodeUsed (rc_id c) (store st) = (s', Inr ())"
      "unused_codes m (db s') = filter (\<lambda>x. rc_id x \<noteq> rc_id c) (unused_codes m (db (store st)))"
    using mark_used_no_faults [OF nf, of "rc_id c" m] c(1) by blast
  obtain r rest where r: "mfa_rows m (db (store st)) = r # rest" "f_confirmed r \<noteq> None" using confirmed by blast
  have st: "st\<lparr>store := store st\<rparr> = st" by simp
  have get: "requireConfirmedEnrollment svc m st = (st, Inr (to_enrollment m r))"
    using nf r svc
    by (simp add: requireConfirmedEnrollment_def on_store_def pg_mfa_def GetEnrollment_def run_sql_no_faults
        select_row_def Confirmed_def to_enrollment_def)
  have list: "on_store (ListUnusedRecoveryCodes m) st = (st, Inr (unused_codes m (db (store st))))"
    using nf by (simp add: on_store_def ListUnusedRecoveryCodes_def run_sql_no_faults select_def)
  have "consumeRecoveryCode svc m ?g st = (st\<lparr>store := s'\<rparr>, Inr (rc_id c))"
    using norm svc list c(2) s'(1)
    by (simp add: consumeRecoveryCode_def matchRecoveryCode_def pg_mfa_def on_store_def)
  moreover have "?g \<noteq> []" using norm normalize_Nil by auto
  moreover have "trim_space [] = []" by (simp add: trim_space_def)
  ultimately have "VerifyLoginCode svc m [] given st = (st\<lparr>store := s'\<rparr>, Inr (Via_recovery (rc_id c)))"
    using get by (simp add: VerifyLoginCode_def Let_def)
  then show ?thesis using c(1) s'(2) by auto
qed



text \<open>C13: every recovery code a confirmation shows its member logs the member in, however the member
  types it (any letter case, dashes or not, O for 0 and the like), on a connection that
  works; and the login uses up one of the ten codes.\<close>

theorem shown_recovery_code_logs_in:
  fixes st :: "conn svc_state"
  assumes "svc_repo svc = pg_mfa" and "hasher_ok (svc_hasher svc)" and "db_ok (db (store st))"
    and "svc_ConfirmEnrollment svc m h code st = (st1, Inr raws)" and "faults (store st1) = []"
    and "raw \<in> set raws" and "NormalizeRecoveryCode (trim_space given) = NormalizeRecoveryCode raw"
  shows "length raws = 10 \<and> length (unused_codes m (db (store st1))) = 10 \<and>
    (\<exists>i st2. VerifyLoginCode svc m [] given st1 = (st2, Inr (Via_recovery i)) \<and>
       i \<in> rc_id ` set (unused_codes m (db (store st1))) \<and>
       unused_codes m (db (store st2)) = filter (\<lambda>c. rc_id c \<noteq> i) (unused_codes m (db (store st1))))"
proof -
  obtain s hashes e e' u where c: "db s = db (store st)" "ConfirmEnrollmentWithCodes h m hashes s = (store st1, Inr u)"
      "generate_codes (svc_hasher svc) recoveryCodeCount e = Some ((raws, hashes), e')"
    by (rule svc_confirm_Inr [OF assms(1,4)])
  have conf: "pending h m (db s)" "db (store st1) = confirmed_db m hashes s"
    using confirm_Inr [OF _ c(2)] assms(3) c(1) by simp_all
  note gen = generate_codes_hashes [OF c(3)]
  obtain hash e1 e2 where hash: "hash \<in> set hashes" "NormalizeRecoveryCode raw \<noteq> []"
      "hash_password (svc_hasher svc) (NormalizeRecoveryCode raw) e1 = Some (hash, e2)"
    using gen assms(6) by blast
  then have ver: "verify_password (svc_hasher svc) (NormalizeRecoveryCode raw) hash = Some True"
    using assms(2) unfolding hasher_ok_def by blast
  obtain row where row: "row \<in> set (code_rows m (clock s) (uuids s) (uuids_used s) hashes)" "c_hash row = hash"
    using code_rows_hash [OF hash(1)] by blast
  have hit: "\<exists>c \<in> set (unused_codes m (db (store st1))).
      verify_password (svc_hasher svc) (NormalizeRecoveryCode (trim_space given)) (rc_hash c) = Some True"
    unfolding conf(2) unused_confirmed using row ver assms(7) by force
  have "\<exists>r rest. mfa_rows m (db (store st1)) = r # rest \<and> f_confirmed r \<noteq> None"
  proof -
    have rows: "mfa_rows m (db (store st1)) = map (\<lambda>r. r\<lparr>f_confirmed := Some (clock s), f_updated := clock s\<rparr>) (mfa_rows m (db s))"
    proof -
      have "filter (\<lambda>r. f_member r = mid m) (update_where (\<lambda>r. f_member r = mid m) f rs) =
          map f (filter (\<lambda>r. f_member r = mid m) rs)" if "\<And>r. f_member (f r) = f_member r" for f and rs :: "mfa_row list"
        using that by (induction rs) (simp_all add: update_where_def)
      then show ?thesis by (simp add: conf(2) confirmed_db_def mfa_rows_def)
    qed
    have "mfa_rows m (db s) \<noteq> []" using conf(1) mfa_rows_none by (auto simp: pending_def)
    then obtain r rest where "mfa_rows m (db s) = r # rest" by (meson list.exhaust)
    then show ?thesis by (simp add: rows)
  qed
  from recovery_login_succeeds [OF assms(1,5) this _ hit] hash(2) assms(7)
  have "\<exists>i st2. VerifyLoginCode svc m [] given st1 = (st2, Inr (Via_recovery i)) \<and>
       i \<in> rc_id ` set (unused_codes m (db (store st1))) \<and>
       unused_codes m (db (store st2)) = filter (\<lambda>c. rc_id c \<noteq> i) (unused_codes m (db (store st1)))"
    by simp
  moreover have "length (unused_codes m (db (store st1))) = 10"
    using gen by (simp add: conf(2) unused_confirmed recoveryCodeCount_def)
  ultimately show ?thesis using gen by (simp add: recoveryCodeCount_def)
qed

section \<open>A TOTP login, branch by branch\<close>

definition recorded :: "member_id \<Rightarrow> int \<Rightarrow> conn \<Rightarrow> identity_db" where
  "recorded m step s =
     (db s)\<lparr>mfas := update_where (\<lambda>r. f_member r = mid m) (\<lambda>r. r\<lparr>f_step := Some step, f_updated := clock s\<rparr>) (mfas (db s))\<rparr>"

lemma record_step_no_faults:
  assumes ok: "db_ok (db s)" and nf: "faults s = []" and r: "mfa_rows m (db s) = r # rest"
    and step: "\<And>p. f_step r = Some p \<Longrightarrow> p < step"
  shows "\<exists>s'. RecordLoginStep m step s = (s', Inr ()) \<and> db s' = recorded m step s"
proof -
  let ?P = "\<lambda>r. f_member r = mid m \<and> (case f_step r of None \<Rightarrow> True | Some prev \<Rightarrow> prev < step)"
  let ?f = "\<lambda>r. r\<lparr>f_step := Some step, f_updated := clock s\<rparr>"
  note ur = mfa_rows_unique [OF ok r]
  have Pr: "?P r" using ur(2) step by (auto split: option.splits)
  have same: "?P x \<longleftrightarrow> f_member x = mid m" if x: "x \<in> set (mfas (db s))" for x
  proof
    assume "f_member x = mid m"
    from ur(3) [OF x this] Pr show "?P x" by (rule ssubst)
  qed blast
  have upd: "update_where ?P ?f (mfas (db s)) = update_where (\<lambda>r. f_member r = mid m) ?f (mfas (db s))"
    unfolding update_where_def by (rule map_cong [OF refl]) (use same in auto)
  have "\<forall>x \<in> set (update_where (\<lambda>r. f_member r = mid m) ?f (mfas (db s))). f_secret x \<noteq> []"
    using ok by (auto simp: set_update_where db_ok_def mfas_ok_def)
  then have q: "sql_record_step m step (db s) (clock s) = Inr (recorded m step s, count_where ?P (mfas (db s)))"
    unfolding sql_record_step_def update_mfas_def Let_def upd by (simp add: recorded_def list_all_iff)
  have "count_where ?P (mfas (db s)) \<noteq> 0" using ur(1) Pr by (simp only: count_where_0) blast
  then show ?thesis using nf q by (simp add: RecordLoginStep_def run_sql_no_faults)
qed

text \<open>On a working connection a login with a TOTP code alone has exactly these outcomes: no
  confirmed enrollment, a secret that does not decrypt, a code that matches no step or none
  later than the last accepted one, and otherwise success at the matched step, which is
  recorded; nothing else changes, and a failed login changes nothing.\<close>

theorem totp_login_outcomes:
  fixes st :: "conn svc_state"
  assumes "svc_repo svc = pg_mfa" and "faults (store st) = []" and "db_ok (db (store st))"
    and "trim_space totp \<noteq> []" and "trim_space recovery = []" and "VerifyLoginCode svc m totp recovery st = (st', r)"
  shows "r = (case mfa_rows m (db (store st)) of
       [] \<Rightarrow> Inl ErrMFANotEnrolled
     | row # _ \<Rightarrow>
         if f_confirmed row = None then Inl ErrMFANotEnrolled
         else case sc_decrypt (svc_cipher svc) (f_secret row) of
                None \<Rightarrow> Inl ErrOther
              | Some secret \<Rightarrow>
                  (case tp_match_step (svc_totp svc) (unix_now st) (trim_space totp) (string_of secret) of
                     (step, matched) \<Rightarrow>
                       if matched \<and> (\<forall>p. f_step row = Some p \<longrightarrow> p < step) then Inr (Via_totp step)
                       else Inl ErrInvalidTOTPCode)) \<and>
     db (store st') = (case r of Inr (Via_totp step) \<Rightarrow> recorded m step (store st) | _ \<Rightarrow> db (store st))"
proof (cases "mfa_rows m (db (store st))")
  case Nil
  then show ?thesis
    using assms
    by (auto simp: VerifyLoginCode_def requireConfirmedEnrollment_def on_store_def pg_mfa_def GetEnrollment_def
        run_sql_no_faults select_row_def)
next
  case (Cons row rest)
  have get: "on_store (mr_get (svc_repo svc) m) st = (st, Inr (to_enrollment m row))"
    using assms(1,2) Cons by (simp add: on_store_def pg_mfa_def GetEnrollment_def run_sql_no_faults select_row_def)
  show ?thesis
  proof (cases "f_confirmed row = None")
    case True
    then show ?thesis
      using assms(4-6) get Cons
      by (auto simp: VerifyLoginCode_def requireConfirmedEnrollment_def Confirmed_def to_enrollment_def)
  next
    case False
    have req: "requireConfirmedEnrollment svc m st = (st, Inr (to_enrollment m row))"
      using get False by (simp add: requireConfirmedEnrollment_def Confirmed_def to_enrollment_def)
    obtain v st1 where v: "verifyLoginTOTP svc m (to_enrollment m row) (trim_space totp) st = (st1, v)" by fastforce
    have r: "st' = st1 \<and> r = (case v of Inl e \<Rightarrow> Inl e | Inr step \<Rightarrow> Inr (Via_totp step))"
      using assms(4-6) req v by (cases v) (simp_all add: VerifyLoginCode_def)
    show ?thesis
    proof (cases "sc_decrypt (svc_cipher svc) (f_secret row)")
      case None
      then have "st1 = st" "v = Inl ErrOther" using v by (simp_all add: verifyLoginTOTP_def to_enrollment_def)
      then show ?thesis using r Cons False None by (elim conjE) (simp del: not_None_eq)
    next
      case (Some secret)
      obtain step matched where sm: "tp_match_step (svc_totp svc) (unix_now st) (trim_space totp) (string_of secret) = (step, matched)"
        by fastforce
      show ?thesis
      proof (cases "matched \<and> (\<forall>p. f_step row = Some p \<longrightarrow> p < step)")
        case True
        then obtain s' where s': "RecordLoginStep m step (store st) = (s', Inr ())" "db s' = recorded m step (store st)"
          using record_step_no_faults [OF assms(3,2) Cons] by blast
        then have "v = Inr step \<and> st1 = st\<lparr>store := s'\<rparr>"
          using v Some sm True assms(1)
          by (auto simp: verifyLoginTOTP_def to_enrollment_def on_store_def pg_mfa_def split: option.splits)
        then show ?thesis using r Cons False Some sm True s'(2) by simp
      next
        case F: False
        have "enr_last_step (to_enrollment m row) = f_step row" "enr_secret (to_enrollment m row) = f_secret row"
          by (simp_all add: to_enrollment_def)
        then have "v = Inl ErrInvalidTOTPCode \<and> st1 = st"
          using v Some sm F by (cases "f_step row") (auto simp: verifyLoginTOTP_def split: if_splits)
        then show ?thesis using r Cons False Some sm F by (auto split: option.splits)
      qed
    qed
  qed
qed

section \<open>The crypto packages behind the interfaces\<close>

definition gcm_cipher :: "aead \<Rightarrow> secret_cipher" where
  "gcm_cipher a = \<lparr>sc_encrypt = Encrypt a, sc_decrypt = (\<lambda>x. case Decrypt a x of Inl _ \<Rightarrow> None | Inr p \<Rightarrow> Some p)\<rparr>"

definition otp_provider :: "otp_lib \<Rightarrow> totp_provider" where
  "otp_provider lib = \<lparr>tp_generate = GenerateSecret lib, tp_validate = Validate lib, tp_match_step = MatchStep lib\<rparr>"

section \<open>Inputs for the witnesses\<close>

definition toy_otp :: otp_lib where
  "toy_otp = \<lparr>otp_generate = (\<lambda>_ _ e. Some ((''S'', ''url''), e)), otp_validate = (\<lambda>_ code _. code = ''1''),
     otp_code_at = (\<lambda>_ t _. if 90 \<le> t then Some ''2'' else Some ''1'')\<rparr>"

definition toy_hasher :: password_hasher where
  "toy_hasher = \<lparr>hash_password = (\<lambda>pw e. Some (CHR ''#'' # pw, e)),
     verify_password = (\<lambda>pw h. Some (h = CHR ''#'' # pw))\<rparr>"

lemma toy_hasher_ok: "hasher_ok toy_hasher"
  by (auto simp: hasher_ok_def toy_hasher_def)

definition demo_svc :: "conn mfa_service" where
  "demo_svc = \<lparr>svc_repo = pg_mfa, svc_cipher = gcm_cipher toy_aead, svc_totp = otp_provider toy_otp,
     svc_hasher = toy_hasher\<rparr>"

text \<open>The demo member, with a pending enrollment of the secret \<open>S\<close>, and the same confirmed.\<close>

definition demo_pending :: "conn svc_state" where
  "demo_pending = \<lparr>store = demo_mfa_conn\<lparr>db := demo_db\<lparr>mfas := [\<lparr>f_member = 2, f_household = 1,
     f_secret = [0, 0, 83, 83], f_confirmed = None, f_step = None, f_created = 0, f_updated = 0\<rparr>]\<rparr>\<rparr>,
     entropy = replicate 100 0, unix_now = 60\<rparr>"

definition demo_confirmed :: "conn svc_state" where
  "demo_confirmed = demo_pending\<lparr>store := demo_mfa_conn\<lparr>db := demo_db\<lparr>mfas := [\<lparr>f_member = 2, f_household = 1,
     f_secret = [0, 0, 83, 83], f_confirmed = Some 0, f_step = None, f_created = 0, f_updated = 0\<rparr>]\<rparr>\<rparr>\<rparr>"

text \<open>The same code twice, and a later one.\<close>

definition demo_logins :: "svc_call list" where
  "demo_logins = [Call_login (MemberID 2) ''1'' [], Call_login (MemberID 2) ''1'' [], Call_clock 90,
     Call_login (MemberID 2) ''2'' []]"

lemma demo_ok: "db_ok (db (store demo_pending))" "db_ok (db (store demo_confirmed))"
  by (simp_all add: demo_pending_def demo_confirmed_def demo_mfa_simps db_ok_def members_ok_def mfas_ok_def codes_ok_def
      passkeys_ok_def member_in_def role_check_def emails_def List.map_filter_def name_key_def household_exists_def)

lemma demo_nf: "faults (store demo_pending) = []" "faults (store demo_confirmed) = []"
  by (simp_all add: demo_pending_def demo_confirmed_def demo_mfa_simps)

lemma demo_decrypt: "sc_decrypt (svc_cipher demo_svc) [0, 0, 83, 83] = Some [83]"
  by (simp add: demo_svc_def gcm_cipher_def Decrypt_def toy_aead_def checksum_def numeral_2_eq_2)

lemma demo_trim: "trim_space [c] = [c]" if "c \<in> {CHR ''1'', CHR ''2''}"
  using that by (intro trim_space_plain) (auto simp: is_ascii_def is_space_def)

lemma demo_match: "tp_match_step (svc_totp demo_svc) 60 ''1'' s = (2, True)"
proof -
  have "matching_steps toy_otp 60 ''1'' s = {1, 2}"
    by (auto simp: matching_steps_def toy_otp_def skew_def period_def signed_divide_int_def split: if_splits)
  then show ?thesis
    unfolding demo_svc_def otp_provider_def by (simp add: match_step_window Let_def)
qed



lemma confirm_no_faults:
  assumes "db_ok (db s)" and "ids_fresh (uuids_used s + length hashes) s" and "faults s = []" and "pending h m (db s)"
  obtains s' where "ConfirmEnrollmentWithCodes h m hashes s = (s', Inr ())" "faults s' = []"
proof -
  obtain s' where tx: "confirm_tx h m hashes s = (s', Inr ())" "faults s' = []"
    using confirm_tx_no_faults [OF assms(1-3), of h m] assms(4) by auto
  have "ConfirmEnrollmentWithCodes h m hashes s = (s', Inr ())"
    unfolding ConfirmEnrollmentWithCodes_def by (subst transact_no_faults [OF assms(3)]) (auto simp: tx)
  then show thesis using tx(2) that by blast
qed

lemma toy_codes:
  "10 * n \<le> length e \<Longrightarrow> \<exists>raws hashes e'. generate_codes toy_hasher n e = Some ((raws, hashes), e')"
proof (induction n arbitrary: e)
  case (Suc n)
  have "\<exists>raws hashes e'. generate_codes toy_hasher n (drop 10 e) = Some ((raws, hashes), e')"
    by (rule Suc.IH) (use Suc.prems in simp)
  then show ?case
    using Suc.prems
    by (auto simp: GenerateRecoveryCode_def rand_read_def recoveryCodeBytes_def toy_hasher_def split: option.splits)
qed simp

lemma demo_confirms:
  obtains st1 raws where "svc_ConfirmEnrollment demo_svc (MemberID 2) (HouseholdID 1) ''1'' demo_pending = (st1, Inr raws)"
    "faults (store st1) = []" "length raws = 10"
proof -
  obtain raws hashes e' where gen: "generate_codes toy_hasher recoveryCodeCount (replicate 100 0) = Some ((raws, hashes), e')"
    using toy_codes [of recoveryCodeCount "replicate 100 0"] by (auto simp: recoveryCodeCount_def)
  have len: "length raws = 10 \<and> length hashes = 10"
    using generate_codes_hashes [OF gen] by (simp add: recoveryCodeCount_def)
  have "ids_fresh (uuids_used (store demo_pending) + length hashes) (store demo_pending)"
    using demo_mfa_fresh [of 15] len
    by (simp add: ids_fresh_def ids_left_def demo_mfa_conn_def demo_pending_def)
  moreover have "pending (HouseholdID 1) (MemberID 2) (db (store demo_pending))"
    by (simp add: pending_def demo_pending_def demo_mfa_simps)
  ultimately obtain s' where s': "ConfirmEnrollmentWithCodes (HouseholdID 1) (MemberID 2) hashes (store demo_pending) = (s', Inr ())"
      "faults s' = []"
    by (rule confirm_no_faults [OF demo_ok(1) _ demo_nf(1)])
  have rows: "mfa_rows (MemberID 2) (db (store demo_pending)) = [\<lparr>f_member = 2, f_household = 1,
     f_secret = [0, 0, 83, 83], f_confirmed = None, f_step = None, f_created = 0, f_updated = 0\<rparr>]"
    by (simp add: mfa_rows_def demo_pending_def demo_mfa_simps)
  have get: "on_store (mr_get (svc_repo demo_svc) (MemberID 2)) demo_pending =
      (demo_pending, Inr (to_enrollment (MemberID 2) (hd (mfa_rows (MemberID 2) (db (store demo_pending))))))"
    using rows demo_nf(1) by (simp add: on_store_def demo_svc_def pg_mfa_def GetEnrollment_def run_sql_no_faults select_row_def)
  have val: "tp_validate (svc_totp demo_svc) t ''1'' x" for t x
    by (simp add: demo_svc_def otp_provider_def Validate_def toy_otp_def)
  have codes: "generateRecoveryCodes demo_svc demo_pending = (demo_pending\<lparr>entropy := e'\<rparr>, Inr (raws, hashes))"
    using gen by (simp add: generateRecoveryCodes_def demo_svc_def demo_pending_def)
  have conf: "on_store (mr_confirm (svc_repo demo_svc) (HouseholdID 1) (MemberID 2) hashes) (demo_pending\<lparr>entropy := e'\<rparr>) =
      (demo_pending\<lparr>entropy := e', store := s'\<rparr>, Inr ())"
    using s'(1) by (simp add: on_store_def demo_svc_def pg_mfa_def)
  have "svc_ConfirmEnrollment demo_svc (MemberID 2) (HouseholdID 1) ''1'' demo_pending =
      (demo_pending\<lparr>entropy := e', store := s'\<rparr>, Inr raws)"
    using rows by (simp add: svc_ConfirmEnrollment_def get to_enrollment_def Confirmed_def demo_decrypt demo_trim val codes conf)
  then show thesis using that s'(2) len by simp
qed

lemma alphabet_plain: "c \<in> set recoveryCodeAlphabet \<Longrightarrow> \<not> is_space (byte_at c)"
  unfolding recoveryCodeAlphabet_def is_space_def by auto

lemma shown_plain: "NormalizeRecoveryCode (trim_space (NormalizeRecoveryCode raw)) = NormalizeRecoveryCode raw"
proof -
  have sub: "set (NormalizeRecoveryCode raw) \<subseteq> set recoveryCodeAlphabet"
    unfolding normalize_one_pass fold_rune_def by (auto simp: Let_def split: if_splits)
  then have "trim_space (NormalizeRecoveryCode raw) = NormalizeRecoveryCode raw"
    by (intro trim_space_plain) (use is_ascii_alphabet alphabet_plain in \<open>auto simp: is_ascii_def\<close>)
  then show ?thesis using normalize_alphabet [OF sub] by simp
qed

theorem shown_recovery_code_logs_in_witness:
  "\<exists>st1 st2 raw i. fst (svc_ConfirmEnrollment demo_svc (MemberID 2) (HouseholdID 1) ''1'' demo_pending) = st1 \<and>
     VerifyLoginCode demo_svc (MemberID 2) [] raw st1 = (st2, Inr (Via_recovery i)) \<and>
     length (unused_codes (MemberID 2) (db (store st1))) = 10"
proof -
  obtain st1 raws where c: "svc_ConfirmEnrollment demo_svc (MemberID 2) (HouseholdID 1) ''1'' demo_pending = (st1, Inr raws)"
      "faults (store st1) = []" "length raws = 10"
    by (rule demo_confirms)
  have repo: "svc_repo demo_svc = pg_mfa" and hash: "hasher_ok (svc_hasher demo_svc)"
    using toy_hasher_ok by (simp_all add: demo_svc_def)
  obtain raw where raw: "raw \<in> set raws" using c(3) by (metis list.set_sel(1) list.size(3) zero_neq_numeral)
  from shown_recovery_code_logs_in [OF repo hash demo_ok(1) c(1,2) raw shown_plain] c(1)
  show ?thesis by (metis fst_conv)
qed

end
