(* ===== verification/Mfa_Race.thy ===== *)
theory Mfa_Race
  imports Mfa_Service
begin

text \<open>
  Concurrent sessions on the MFA tables. The transactions of \<open>identity/adapter/mfa_postgres.go\<close>
  interleave statement by statement under READ COMMITTED: a statement sees what was committed when it
  began and its own transaction's writes, and nobody else sees those before the commit.
  \<open>SELECT ... FOR UPDATE\<close> waits for the lock on the member's row and holds it to the end of the
  transaction; where there is no row it locks nothing. An INSERT of a member's row waits for another
  session's uncommitted one, and a single-statement UPDATE or DELETE of the row waits for the lock.
  A mark of a recovery code waits for nothing here, where the database would make it wait for a
  confirmation that has deleted the code and not yet committed: the relation allows more
  than the database does. Any transaction may be rolled back at any time, so failures of statements and
  connections, refused calls and deadlocks are among the runs.

  The theory proves that every interleaving has the outcome of the committed calls run one after
  another by the repository's methods, so that what the other theories show of sequences of calls
  holds of concurrent ones; and it shows what the service's check of the code does not cover, a
  secret replaced between the check and the confirmation.
\<close>

section \<open>Transactions statement by statement\<close>

datatype mfa_tx =
    Begin_tx member_id household_id bytes
  | Confirm_tx household_id member_id "(uuid \<times> string) list"   \<comment> \<open>the new codes' ids and hashes\<close>

fun tx_member :: "mfa_tx \<Rightarrow> member_id" where
  "tx_member (Begin_tx m h secret) = m"
| "tx_member (Confirm_tx h m batch) = m"

fun tx_household :: "mfa_tx \<Rightarrow> household_id" where
  "tx_household (Begin_tx m h secret) = h"
| "tx_household (Confirm_tx h m batch) = h"

type_synonym db_write = "identity_db \<Rightarrow> time \<Rightarrow> pg_error + identity_db"

definition write_of :: "(identity_db, 'a) sql \<Rightarrow> db_write" where
  "write_of q d now = (case q d now of Inl e \<Rightarrow> Inl e | Inr (d, _) \<Rightarrow> Inr d)"

text \<open>The writing statements after the lookup, which found a row or none.\<close>

fun tx_writes :: "bool \<Rightarrow> mfa_tx \<Rightarrow> db_write list" where
  "tx_writes found (Begin_tx m h secret) =
     [if found then write_of (sql_replace_secret m secret) else write_of (sql_insert_mfa m h secret)]"
| "tx_writes found (Confirm_tx h m batch) =
     write_of (sql_confirm m) # write_of (sql_delete_codes m) #
     map (\<lambda>(i, hash). write_of (sql_insert_code i m hash)) batch"

fun run_writes :: "db_write list \<Rightarrow> time \<Rightarrow> identity_db \<Rightarrow> pg_error + identity_db" where
  "run_writes [] t d = Inr d"
| "run_writes (q # qs) t d = (case q d t of Inl e \<Rightarrow> Inl e | Inr d \<Rightarrow> run_writes qs t d)"

datatype mfa_phase =
    Resting
  | Opened mfa_tx time
  | Writing mfa_tx bool time nat   \<comment> \<open>whether the lookup found a row, \<open>now()\<close>, statements done\<close>

record mfa_world =
  mx_db :: identity_db
  mx_lock :: "member_id \<Rightarrow> nat option"
  mx_phase :: "nat \<Rightarrow> mfa_phase"

text \<open>What a session has committed: the call, its time and the ids it drew.\<close>

type_synonym mfa_event = "time \<times> uuid list \<times> mfa_call"

definition connection_at :: "time \<Rightarrow> uuid list \<Rightarrow> identity_db \<Rightarrow> conn" where
  "connection_at t ids d = \<lparr>db = d, clock = t, faults = [], uuids = (\<lambda>k. ids ! k), uuids_used = 0\<rparr>"

lemma db_connection_at [simp]: "db (connection_at t ids d) = d"
  by (simp add: connection_at_def)

fun tx_event :: "mfa_tx \<Rightarrow> time \<Rightarrow> mfa_event" where
  "tx_event (Begin_tx m h secret) t = (t, [], Begin_enrollment m h secret)"
| "tx_event (Confirm_tx h m batch) t = (t, map fst batch, Confirm_enrollment h m (map snd batch))"

definition finish :: "nat \<Rightarrow> mfa_world \<Rightarrow> mfa_world" where
  "finish n w = w\<lparr>mx_lock := (\<lambda>m. if mx_lock w m = Some n then None else mx_lock w m),
                  mx_phase := (mx_phase w)(n := Resting)\<rparr>"

text \<open>The member whose row a call writes.\<close>

fun row_written :: "mfa_call \<Rightarrow> member_id option" where
  "row_written (Begin_enrollment m h secret) = Some m"
| "row_written (Confirm_enrollment h m hashes) = Some m"
| "row_written (Delete_enrollment h m) = Some m"
| "row_written (Record_step m step) = Some m"
| "row_written _ = None"

inductive race_step :: "mfa_world \<Rightarrow> mfa_event list \<Rightarrow> mfa_world \<Rightarrow> bool" where
  mfa_open: "mx_phase w n = Resting \<Longrightarrow> race_step w [] (w\<lparr>mx_phase := (mx_phase w)(n := Opened op t)\<rparr>)"
| mfa_lock: "mx_phase w n = Opened op t \<Longrightarrow> mx_lock w (tx_member op) = None \<Longrightarrow>
    mfa_rows (tx_member op) (mx_db w) = r # rs \<Longrightarrow> f_household r = hid (tx_household op) \<Longrightarrow> f_confirmed r = None \<Longrightarrow>
    race_step w [] (w\<lparr>mx_lock := (mx_lock w)(tx_member op \<mapsto> n), mx_phase := (mx_phase w)(n := Writing op True t 0)\<rparr>)"
| mfa_no_row: "mx_phase w n = Opened (Begin_tx m h secret) t \<Longrightarrow> mfa_rows m (mx_db w) = [] \<Longrightarrow>
    race_step w [] (w\<lparr>mx_phase := (mx_phase w)(n := Writing (Begin_tx m h secret) False t 0)\<rparr>)"
| mfa_write: "mx_phase w n = Writing op found t k \<Longrightarrow> k < length (tx_writes found op) \<Longrightarrow>
    mx_lock w (tx_member op) \<in> {None, Some n} \<Longrightarrow>
    run_writes (take (Suc k) (tx_writes found op)) t (mx_db w) = Inr view \<Longrightarrow>
    race_step w [] (w\<lparr>mx_lock := (mx_lock w)(tx_member op \<mapsto> n), mx_phase := (mx_phase w)(n := Writing op found t (Suc k))\<rparr>)"
| mfa_commit: "mx_phase w n = Writing op found t (length (tx_writes found op)) \<Longrightarrow>
    run_writes (tx_writes found op) t (mx_db w) = Inr d \<Longrightarrow>
    race_step w [tx_event op t] (finish n (w\<lparr>mx_db := d\<rparr>))"
| mfa_rollback: "race_step w [] (finish n w)"
| mfa_single: "c \<in> {Delete_enrollment h m, Record_step m step, Mark_used i} \<Longrightarrow>
    (case row_written c of None \<Rightarrow> True | Some m \<Rightarrow> mx_lock w m = None) \<Longrightarrow>
    apply_mfa_call c (connection_at t [] (mx_db w)) = (s, Inr ()) \<Longrightarrow>
    race_step w [(t, [], c)] (w\<lparr>mx_db := db s\<rparr>)"

inductive race_run :: "mfa_world \<Rightarrow> mfa_event list \<Rightarrow> mfa_world \<Rightarrow> bool" where
  race_start: "race_run w [] w"
| race_more: "race_run w es w1 \<Longrightarrow> race_step w1 es' w2 \<Longrightarrow> race_run w (es @ es') w2"

text \<open>The calls one after another, each successful on a working connection.\<close>

fun serial :: "mfa_event list \<Rightarrow> identity_db \<Rightarrow> identity_db option" where
  "serial [] d = Some d"
| "serial ((t, ids, c) # es) d =
     (case apply_mfa_call c (connection_at t ids d) of
        (s, Inl _) \<Rightarrow> None
      | (s, Inr _) \<Rightarrow> serial es (db s))"

lemma serial_append: "serial (es @ es') d = (case serial es d of None \<Rightarrow> None | Some d \<Rightarrow> serial es' d)"
  by (induction es d rule: serial.induct) (auto split: sum.split prod.split)

section \<open>A committed transaction is the method\<close>

lemma write_of_Inr: "write_of q d t = Inr d' \<longleftrightarrow> (\<exists>a. q d t = Inr (d', a))"
  by (auto simp: write_of_def split: sum.splits)

lemma insert_codes_run:
  "run_writes (map (\<lambda>(i, hash). write_of (sql_insert_code i m hash)) batch) t d = Inr d' \<Longrightarrow>
   (\<And>k. k < length batch \<Longrightarrow> u (j + k) = fst (batch ! k)) \<Longrightarrow>
   \<exists>j'. insert_codes m (map snd batch) \<lparr>db = d, clock = t, faults = [], uuids = u, uuids_used = j\<rparr> =
     (\<lparr>db = d', clock = t, faults = [], uuids = u, uuids_used = j'\<rparr>, Inr ())"
proof (induction batch arbitrary: d j)
  case (Cons b batch)
  obtain i hash where b: "b = (i, hash)" by fastforce
  obtain d1 where d1: "sql_insert_code i m hash d t = Inr (d1, ())"
      "run_writes (map (\<lambda>(i, hash). write_of (sql_insert_code i m hash)) batch) t d1 = Inr d'"
    using Cons.prems(1) by (auto simp: b write_of_Inr split: sum.splits)
  have "u j = i" using Cons.prems(2) [of 0] by (simp add: b)
  moreover have "u (Suc j + k) = fst (batch ! k)" if "k < length batch" for k
    using Cons.prems(2) [of "Suc k"] that by simp
  from Cons.IH [OF d1(2) this] obtain j' where
    "insert_codes m (map snd batch) \<lparr>db = d1, clock = t, faults = [], uuids = u, uuids_used = Suc j\<rparr> =
      (\<lparr>db = d', clock = t, faults = [], uuids = u, uuids_used = j'\<rparr>, Inr ())" by blast
  ultimately show ?case using d1(1) by (simp add: b new_uuid_def run_sql_no_faults)
qed simp

lemma confirm_committed:
  assumes "mfa_rows m d = r # rs" and "f_household r = hid h" and "f_confirmed r = None"
    and "run_writes (tx_writes found (Confirm_tx h m batch)) t d = Inr d'"
  shows "\<exists>s. ConfirmEnrollmentWithCodes h m (map snd batch) (connection_at t (map fst batch) d) = (s, Inr ()) \<and> db s = d'"
proof -
  obtain d1 n1 d2 n2 where w: "sql_confirm m d t = Inr (d1, n1)" "sql_delete_codes m d1 t = Inr (d2, n2)"
      "run_writes (map (\<lambda>(i, hash). write_of (sql_insert_code i m hash)) batch) t d2 = Inr d'"
    using assms(4) by (auto simp: write_of_Inr split: sum.splits)
  obtain j' where "insert_codes m (map snd batch) \<lparr>db = d2, clock = t, faults = [], uuids = (!) (map fst batch), uuids_used = 0\<rparr> =
      (\<lparr>db = d', clock = t, faults = [], uuids = (!) (map fst batch), uuids_used = j'\<rparr>, Inr ())"
    using insert_codes_run [OF w(3), of "(!) (map fst batch)" 0] by auto
  then have "confirm_tx h m (map snd batch) (connection_at t (map fst batch) d) =
      (\<lparr>db = d', clock = t, faults = [], uuids = (!) (map fst batch), uuids_used = j'\<rparr>, Inr ())"
    using assms(1-3) w(1,2) by (simp add: confirm_tx_def connection_at_def run_sql_no_faults select_row_def)
  then show ?thesis
    unfolding ConfirmEnrollmentWithCodes_def
    by (subst transact_no_faults) (auto simp: connection_at_def)
qed

lemma begin_found_committed:
  assumes "mfa_rows m d = r # rs" and "f_household r = hid h" and "f_confirmed r = None"
    and "run_writes (tx_writes True (Begin_tx m h secret)) t d = Inr d'"
  shows "\<exists>s. BeginEnrollment m h secret (connection_at t ids d) = (s, Inr ()) \<and> db s = d'"
proof -
  obtain n where "sql_replace_secret m secret d t = Inr (d', n)"
    using assms(4) by (auto simp: write_of_Inr split: sum.splits)
  then have tx: "begin_tx m h secret (connection_at t ids d) = ((connection_at t ids d)\<lparr>db := d'\<rparr>, Inr ())"
    using assms(1-3) by (simp add: begin_tx_def connection_at_def run_sql_no_faults select_row_def)
  have "beginEnrollmentOnce m h secret (connection_at t ids d) = ((connection_at t ids d)\<lparr>db := d'\<rparr>, Inr ())"
    unfolding beginEnrollmentOnce_def by (subst transact_no_faults) (auto simp: tx, auto simp: connection_at_def)
  then show ?thesis by (simp add: BeginEnrollment_def)
qed

lemma begin_fresh_committed:
  assumes "run_writes (tx_writes False (Begin_tx m h secret)) t d = Inr d'"
  shows "\<exists>s. BeginEnrollment m h secret (connection_at t ids d) = (s, Inr ()) \<and> db s = d'"
proof -
  have ins: "sql_insert_mfa m h secret d t = Inr (d', ())"
    using assms by (auto simp: write_of_Inr split: sum.splits)
  then have "mfa_rows m d = []"
    by (force simp: sql_insert_mfa_def insert_mfa_def mfa_rows_def filter_empty_conv image_iff split: if_splits sum.splits)
  with ins have tx: "begin_tx m h secret (connection_at t ids d) = ((connection_at t ids d)\<lparr>db := d'\<rparr>, Inr ())"
    by (simp add: begin_tx_def connection_at_def run_sql_no_faults select_row_def)
  have "beginEnrollmentOnce m h secret (connection_at t ids d) = ((connection_at t ids d)\<lparr>db := d'\<rparr>, Inr ())"
    unfolding beginEnrollmentOnce_def by (subst transact_no_faults) (auto simp: tx, auto simp: connection_at_def)
  then show ?thesis by (simp add: BeginEnrollment_def)
qed

section \<open>The lock keeps the lookup's answer\<close>

definition can_proceed :: "mfa_tx \<Rightarrow> identity_db \<Rightarrow> bool" where
  "can_proceed op d \<longleftrightarrow>
     (\<exists>r rs. mfa_rows (tx_member op) d = r # rs \<and> f_household r = hid (tx_household op) \<and> f_confirmed r = None)"

definition phase_ok :: "mfa_world \<Rightarrow> nat \<Rightarrow> bool" where
  "phase_ok w n \<longleftrightarrow>
     (\<forall>op t k. mx_phase w n = Writing op True t k \<longrightarrow>
        mx_lock w (tx_member op) = Some n \<and> can_proceed op (mx_db w)) \<and>
     (\<forall>op t k. mx_phase w n = Writing op False t k \<longrightarrow>
        (\<exists>m h secret. op = Begin_tx m h secret) \<and> (0 < k \<longrightarrow> mx_lock w (tx_member op) = Some n))"

definition race_ok :: "mfa_world \<Rightarrow> bool" where
  "race_ok w \<longleftrightarrow> (\<forall>n. phase_ok w n)"

lemma found_locked:
  assumes "race_ok w" and "mx_phase w n = Writing op True t k"
  shows "mx_lock w (tx_member op) = Some n" "can_proceed op (mx_db w)"
  using assms unfolding race_ok_def phase_ok_def by blast+

lemma fresh_locked:
  assumes "race_ok w" and "mx_phase w n = Writing op False t k"
  shows "\<exists>m h secret. op = Begin_tx m h secret" "0 < k \<Longrightarrow> mx_lock w (tx_member op) = Some n"
  using assms unfolding race_ok_def phase_ok_def by blast+

lemma tx_event_row: "tx_event op t = (t', ids, c) \<Longrightarrow> row_written c = Some (tx_member op)"
  by (cases op) auto

lemma committed_call:
  assumes "race_ok w" and "mx_phase w n = Writing op found t k"
    and "run_writes (tx_writes found op) t (mx_db w) = Inr d" and "tx_event op t = (t', ids, c)"
  shows "\<exists>s. apply_mfa_call c (connection_at t' ids (mx_db w)) = (s, Inr ()) \<and> db s = d"
proof (cases found)
  case True
  then have "can_proceed op (mx_db w)" using found_locked(2) [OF assms(1)] assms(2) by simp
  then obtain r rs where r: "mfa_rows (tx_member op) (mx_db w) = r # rs" "f_household r = hid (tx_household op)"
      "f_confirmed r = None" unfolding can_proceed_def by (elim exE conjE)
  show ?thesis
  proof (cases op)
    case (Begin_tx m h secret)
    with True r assms(3,4) begin_found_committed [of m "mx_db w" r rs h secret t d ids] show ?thesis by auto
  next
    case (Confirm_tx h m batch)
    with r assms(3,4) confirm_committed [of m "mx_db w" r rs h found batch t d] show ?thesis by auto
  qed
next
  case False
  then have "\<exists>m h secret. op = Begin_tx m h secret"
    using fresh_locked(1) [OF assms(1)] assms(2) by simp
  then obtain m h secret where "op = Begin_tx m h secret" by (elim exE)
  with False assms(3,4) begin_fresh_committed [of m h secret t "mx_db w" d ids] show ?thesis by auto
qed

lemma call_keeps_other:
  assumes "row_written c \<noteq> Some m"
  shows "mfa_rows m (db (fst (apply_mfa_call c s))) = mfa_rows m (db s)"
proof -
  have other: "MemberID (mid m + 1) \<noteq> m" by (cases m) simp
  obtain m' i where m': "m' \<noteq> m" and c: "call_within (\<lambda>x. x = m') (\<lambda>x. x = i) (\<lambda>x. x = m') c"
    using assms other by (cases c) auto
  have "mid m' \<noteq> mid m" using m' by (simp add: mid_eq_iff)
  have "rest_of m' i (db (fst (apply_mfa_call c s))) = rest_of m' i (db s)"
    using mfa_call_related [OF writes_isolated c, of s] by (simp add: isolated_def)
  then have same: "filter (\<lambda>r. f_member r \<noteq> mid m') (mfas (db (fst (apply_mfa_call c s)))) =
      filter (\<lambda>r. f_member r \<noteq> mid m') (mfas (db s))"
    by (simp add: rest_of_def)
  have "mfa_rows m d = filter (\<lambda>r. f_member r = mid m) (filter (\<lambda>r. f_member r \<noteq> mid m') (mfas d))" for d
    unfolding mfa_rows_def filter_filter using \<open>mid m' \<noteq> mid m\<close> by (intro filter_cong) auto
  note keep = this
  show ?thesis unfolding keep [of "db (fst (apply_mfa_call c s))"] same by (rule keep [symmetric])
qed

lemma locked_by_writer:
  assumes "race_ok w" and "mx_phase w n = Writing op found t (length (tx_writes found op))"
  shows "mx_lock w (tx_member op) = Some n"
proof (cases found)
  case True
  then show ?thesis using found_locked(1) [OF assms(1)] assms(2) by simp
next
  case False
  have "0 < length (tx_writes found op)" by (cases op) auto
  then show ?thesis using fresh_locked(2) [OF assms(1)] assms(2) False by simp
qed

lemma can_proceed_cong: "mfa_rows (tx_member op) d' = mfa_rows (tx_member op) d \<Longrightarrow> can_proceed op d' = can_proceed op d"
  by (simp add: can_proceed_def)

lemma committed_keeps_phase:
  assumes "race_ok w" and "apply_mfa_call c (connection_at t ids (mx_db w)) = (s, r)"
    and "\<And>m. row_written c = Some m \<Longrightarrow> mx_lock w m \<noteq> Some n"
    and "mx_phase w n = Writing op True t' k"
  shows "can_proceed op (db s)"
proof -
  have lock: "mx_lock w (tx_member op) = Some n" "can_proceed op (mx_db w)"
    using found_locked [OF assms(1,4)] .
  then have "row_written c \<noteq> Some (tx_member op)" using assms(3) by metis
  from call_keeps_other [OF this, of "connection_at t ids (mx_db w)"]
  have "mfa_rows (tx_member op) (db s) = mfa_rows (tx_member op) (mx_db w)"
    unfolding assms(2) fst_conv db_connection_at .
  from can_proceed_cong [OF this] lock(2) show ?thesis by blast
qed

lemma step_serial:
  assumes "race_step w es w'" and "race_ok w"
  shows "serial es (mx_db w) = Some (mx_db w')"
  using assms
proof (induction rule: race_step.induct)
  case (mfa_commit w n op found t d)
  obtain t' ids c where ev: "tx_event op t = (t', ids, c)" by (cases "tx_event op t")
  with committed_call [OF mfa_commit(3,1,2)] show ?case by (fastforce simp: finish_def)
qed (auto simp: finish_def)

lemma step_race_ok:
  assumes "race_step w es w'" and "race_ok w"
  shows "race_ok w'"
  using assms
proof (induction rule: race_step.induct)
  case (mfa_commit w n op found t d)
  obtain t' ids c where ev: "tx_event op t = (t', ids, c)" by (cases "tx_event op t")
  obtain s where s: "apply_mfa_call c (connection_at t' ids (mx_db w)) = (s, Inr ())" "db s = d"
    using committed_call [OF mfa_commit(3,1,2) ev] by (elim exE conjE)
  have lock: "mx_lock w (tx_member op) = Some n" by (rule locked_by_writer [OF mfa_commit(3,1)])
  have "can_proceed op' d" if "mx_phase w k = Writing op' True tk j" "k \<noteq> n" for k op' tk j
    using committed_keeps_phase [OF mfa_commit(3) s(1) _ that(1)] s(2) lock that(2) tx_event_row [OF ev] by simp
  with mfa_commit(3) show ?case by (auto simp: race_ok_def phase_ok_def finish_def)
next
  case (mfa_single c h m step i w t s)
  have "can_proceed op' (db s)" if "mx_phase w k = Writing op' True tk j" for k op' tk j
    by (rule committed_keeps_phase [OF mfa_single(4) mfa_single(3) _ that]) (use mfa_single(2) in simp)
  with mfa_single(4) show ?case by (auto simp: race_ok_def phase_ok_def)
next
  case (mfa_lock w n op t r rs)
  then show ?case by (fastforce simp: race_ok_def phase_ok_def can_proceed_def split: if_splits)
next
  case (mfa_write w n op found t k view)
  then show ?case by (fastforce simp: race_ok_def phase_ok_def split: if_splits)
qed (auto simp: race_ok_def phase_ok_def finish_def split: if_splits)

definition idle_world :: "identity_db \<Rightarrow> mfa_world" where
  "idle_world d = \<lparr>mx_db = d, mx_lock = (\<lambda>_. None), mx_phase = (\<lambda>_. Resting)\<rparr>"

lemma run_serial:
  assumes "race_run w es w'" and "race_ok w"
  shows "race_ok w' \<and> serial es (mx_db w) = Some (mx_db w')"
  using assms
proof (induction rule: race_run.induct)
  case (race_more w es w1 es' w2)
  with step_serial [OF race_more(2)] step_race_ok [OF race_more(2)] show ?case by (simp add: serial_append)
qed simp

section \<open>One winner\<close>

definition hashes_of :: "member_id \<Rightarrow> identity_db \<Rightarrow> string list" where
  "hashes_of m d = map c_hash (filter (\<lambda>c. c_member c = mid m) (codes d))"

text \<open>The member's enrollment is confirmed, and these are the hashes of its recovery codes.\<close>

definition confirmed_with :: "member_id \<Rightarrow> string list \<Rightarrow> identity_db \<Rightarrow> bool" where
  "confirmed_with m hs d \<longleftrightarrow> db_ok d \<and> hashes_of m d = hs \<and> (\<exists>r rs. mfa_rows m d = r # rs \<and> f_confirmed r \<noteq> None)"

definition hashes_kept :: "member_id \<Rightarrow> identity_db \<Rightarrow> identity_db \<Rightarrow> bool" where
  "hashes_kept m d d' \<longleftrightarrow> hashes_of m d' = hashes_of m d"

lemma hashes_kept_same: "codes d' = codes d \<Longrightarrow> hashes_kept m d d'"
  by (simp add: hashes_kept_def hashes_of_def)

lemma hashes_update:
  "map c_hash (filter (\<lambda>c. c_member c = x) (update_where P (\<lambda>c. c\<lparr>c_used := u\<rparr>) cs)) =
   map c_hash (filter (\<lambda>c. c_member c = x) cs)"
  by (induction cs) (auto simp: update_where_def)

lemma writes_hashes_kept: "mfa_writes_related (hashes_kept m) (\<lambda>m'. m' \<noteq> m) (\<lambda>_. True) (\<lambda>m'. m' \<noteq> m)"
  unfolding mfa_writes_related_def
proof (intro conjI allI impI)
  show "reflp (hashes_kept m)" "transp (hashes_kept m)" by (auto simp: hashes_kept_def reflp_def transp_def)
  show "sql_rel (hashes_kept m) (sql_insert_mfa m' h b)" for m' h b
    unfolding sql_rel_def sql_insert_mfa_def
    by (auto split: sum.splits dest!: insert_mfa_Inr intro!: hashes_kept_same)
  show "sql_rel (hashes_kept m) (sql_replace_secret m' b)" for m' b
    unfolding sql_rel_def sql_replace_secret_def by (auto dest!: update_mfas_Inr(1) intro!: hashes_kept_same)
  show "sql_rel (hashes_kept m) (sql_confirm m')" for m'
    unfolding sql_rel_def sql_confirm_def by (auto dest!: update_mfas_Inr(1) intro!: hashes_kept_same)
  show "sql_rel (hashes_kept m) (sql_record_step m' n)" for m' n
    unfolding sql_rel_def sql_record_step_def by (auto dest!: update_mfas_Inr(1) intro!: hashes_kept_same)
  show "sql_rel (hashes_kept m) (sql_delete_codes m')" if "m' \<noteq> m" for m'
    using that
    by (auto simp: sql_rel_def sql_delete_codes_def hashes_kept_def hashes_of_def delete_where_def mid_eq_iff
        intro!: arg_cong [where f = "map c_hash"] filter_cong)
  show "sql_rel (hashes_kept m) (sql_insert_code j m' h)" if "m' \<noteq> m" for j m' h
    using that by (auto simp: sql_rel_def hashes_kept_def hashes_of_def mid_eq_iff dest!: sql_insert_code_Inr)
  show "sql_rel (hashes_kept m) (sql_delete_mfa h m')" if "m' \<noteq> m" for h m'
    using that
    by (auto simp: sql_rel_def sql_delete_mfa_def delete_mfas_def Let_def hashes_kept_def hashes_of_def
        delete_where_def mid_eq_iff intro!: arg_cong [where f = "map c_hash"] filter_cong)
  show "sql_rel (hashes_kept m) (sql_mark_used i)" for i
    by (auto simp: sql_rel_def sql_mark_used_def Let_def hashes_kept_def hashes_of_def hashes_update)
qed

lemma call_keeps_ok:
  assumes "db_ok d" and "apply_mfa_call c (connection_at t ids d) = (s, r)"
  shows "db_ok (db s)"
proof -
  have "call_within (\<lambda>x. x = the (row_written c)) (\<lambda>x. c = Mark_used x) (\<lambda>x. x = the (row_written c)) c"
    by (cases c) auto
  then obtain m' i where "call_within (\<lambda>x. x = m') (\<lambda>x. x = i) (\<lambda>x. x = m') c" by (cases c) auto
  from mfa_call_related [OF writes_isolated this, of "connection_at t ids d"] assms(1) show ?thesis
    by (simp add: isolated_def assms(2))
qed

lemma other_row_keeps:
  assumes "confirmed_with m hs d" and "row_written c \<noteq> Some m" and "apply_mfa_call c (connection_at t ids d) = (s, r)"
  shows "confirmed_with m hs (db s)"
proof -
  have "call_within (\<lambda>m'. m' \<noteq> m) (\<lambda>_. True) (\<lambda>m'. m' \<noteq> m) c" using assms(2) by (cases c) auto
  from mfa_call_related [OF writes_hashes_kept this, of "connection_at t ids d"]
  have "hashes_of m (db s) = hashes_of m d" by (simp add: hashes_kept_def assms(3))
  moreover have "mfa_rows m (db s) = mfa_rows m d"
    using call_keeps_other [OF assms(2), of "connection_at t ids d"] by (simp add: assms(3))
  ultimately show ?thesis using assms(1) call_keeps_ok [OF _ assms(3)] by (simp add: confirmed_with_def)
qed

lemma rows_updated:
  assumes "\<And>r. f_member (f r) = f_member r"
  shows "mfa_rows m (d\<lparr>mfas := update_where P f (mfas d)\<rparr>) = map (\<lambda>r. if P r then f r else r) (mfa_rows m d)"
proof -
  have "filter (\<lambda>r. f_member r = mid m) (update_where P f rows) =
      map (\<lambda>r. if P r then f r else r) (filter (\<lambda>r. f_member r = mid m) rows)" for rows
    using assms by (induction rows) (auto simp: update_where_def)
  then show ?thesis by (simp add: mfa_rows_def)
qed

lemma hashes_code_rows: "map c_hash (filter (\<lambda>c. c_member c = mid m) (code_rows m now ids n hs)) = hs"
  by (induction hs arbitrary: n) simp_all

lemma confirmation_wins:
  assumes "db_ok d" and "ConfirmEnrollmentWithCodes h m hs (connection_at t ids d) = (s, Inr u)"
  shows "confirmed_with m hs (db s)"
proof -
  have d: "pending h m d" "db s = confirmed_db m hs (connection_at t ids d)"
    using confirm_Inr [of "connection_at t ids d" h m hs s u] assms by simp_all
  have "db_ok (db s)"
    using call_keeps_ok [OF assms(1), of "Confirm_enrollment h m hs"] assms(2) by simp
  moreover have "hashes_of m (db s) = hs"
    by (simp add: d(2) hashes_of_def confirmed_db_def delete_where_def hashes_code_rows)
  moreover have "\<exists>r rs. mfa_rows m (db s) = r # rs \<and> f_confirmed r \<noteq> None"
  proof -
    obtain r rs where r: "mfa_rows m d = r # rs"
      using d(1) mfa_rows_none [of m d] unfolding pending_def by (metis neq_Nil_conv)
    have "f_member r = mid m" by (rule mfa_rows_unique(2) [OF assms(1) r])
    moreover have "mfa_rows m (db s) = mfa_rows m (d\<lparr>mfas := update_where (\<lambda>r. f_member r = mid m)
        (\<lambda>r. r\<lparr>f_confirmed := Some t, f_updated := t\<rparr>) (mfas d)\<rparr>)"
      by (simp add: d(2) mfa_rows_def confirmed_db_def) (simp add: connection_at_def)
    ultimately show ?thesis by (simp add: rows_updated r)
  qed
  ultimately show ?thesis by (simp add: confirmed_with_def)
qed

lemma begin_once_Inr:
  assumes "beginEnrollmentOnce m h secret s = (s', Inr u)" and "mfa_rows m (db s) = r # rs"
  shows "f_confirmed r = None"
  using assms(1) unfolding beginEnrollmentOnce_def
proof (cases rule: transact_Inr)
  case (1 s1 s2)
  obtain s3 q where sel: "run_sql (select_row (mfa_rows m)) s1 = (s3, q)" by fastforce
  have "q \<noteq> Inl ErrNoRows" using select_row_none [of "mfa_rows m" s1 s3] sel 1 assms(2) by auto
  then obtain r' where r': "q = Inr r'" "f_confirmed r' = None"
    using 1 sel by (cases q) (auto simp: begin_tx_def split: if_splits)
  with select_row_Inr [of "mfa_rows m" s1 s3 r'] sel 1 assms(2) show ?thesis by simp
qed

lemma begin_Inr:
  assumes "BeginEnrollment m h secret s = (s', Inr u)" and "mfa_rows m (db s) = r # rs"
  shows "f_confirmed r = None"
proof -
  obtain s1 q where q: "beginEnrollmentOnce m h secret s = (s1, q)" by fastforce
  show ?thesis
  proof (cases q)
    case (Inr a)
    with begin_once_Inr q assms(2) show ?thesis by blast
  next
    case (Inl e)
    with assms(1) q have e: "e = Raced" by (cases e) (simp_all add: BeginEnrollment_def)
    have "db s1 = db s"
      using q [unfolded Inl e beginEnrollmentOnce_def] by (cases rule: transact_db) auto
    moreover obtain s2 v where "beginEnrollmentOnce m h secret s1 = (s2, Inr v)"
      using assms(1) q by (auto simp: BeginEnrollment_def Inl e split: prod.splits sum.splits)
    ultimately show ?thesis using begin_once_Inr assms(2) by metis
  qed
qed

lemma record_keeps:
  assumes "confirmed_with m hs d" and "RecordLoginStep m' step (connection_at t ids d) = (s, r)"
  shows "confirmed_with m hs (db s)"
proof -
  obtain q where "run_sql (sql_record_step m' step) (connection_at t ids d) = (s, q)"
    using assms(2) by (auto simp: RecordLoginStep_def split: prod.splits sum.splits)
  from run_sql_db [OF this] have "db s = d \<or> (\<exists>n. sql_record_step m' step d t = Inr (db s, n))"
    by (auto simp: connection_at_def)
  then show ?thesis
  proof
    assume "\<exists>n. sql_record_step m' step d t = Inr (db s, n)"
    then obtain P where d': "db s = d\<lparr>mfas := update_where P (\<lambda>r. r\<lparr>f_step := Some step, f_updated := t\<rparr>) (mfas d)\<rparr>"
      using update_mfas_Inr(1) unfolding sql_record_step_def by blast
    obtain x xs where x: "mfa_rows m d = x # xs" "f_confirmed x \<noteq> None"
      using assms(1) unfolding confirmed_with_def by (elim conjE exE)
    have "db_ok (db s)"
      using call_keeps_ok [of d "Record_step m' step"] assms by (simp add: confirmed_with_def)
    moreover have "hashes_of m (db s) = hs" using assms(1) by (simp add: d' hashes_of_def confirmed_with_def)
    moreover have "\<exists>y ys. mfa_rows m (db s) = y # ys \<and> f_confirmed y \<noteq> None"
      unfolding d' using x by (simp add: rows_updated)
    ultimately show ?thesis by (simp add: confirmed_with_def)
  qed (simp add: assms(1))
qed

text \<open>A call that replaces or confirms a member's enrollment.\<close>

fun enrolls :: "member_id \<Rightarrow> mfa_call \<Rightarrow> bool" where
  "enrolls m (Begin_enrollment m' h secret) = (m' = m)"
| "enrolls m (Confirm_enrollment h m' hashes) = (m' = m)"
| "enrolls m _ = False"

fun disenrolls :: "member_id \<Rightarrow> mfa_call \<Rightarrow> bool" where
  "disenrolls m (Delete_enrollment h m') = (m' = m)"
| "disenrolls m _ = False"

lemma winner_stands:
  assumes "confirmed_with m hs d" and "\<not> disenrolls m c" and "apply_mfa_call c (connection_at t ids d) = (s, Inr u)"
  shows "confirmed_with m hs (db s) \<and> \<not> enrolls m c"
proof (cases "row_written c = Some m")
  case False
  then have "\<not> enrolls m c" by (cases c) auto
  with other_row_keeps [OF assms(1) False assms(3)] show ?thesis by simp
next
  case True
  obtain r rs where r: "mfa_rows m d = r # rs" "f_confirmed r \<noteq> None" and ok: "db_ok d"
    using assms(1) unfolding confirmed_with_def by (elim conjE exE)
  from True assms(2) consider (B) h x where "c = Begin_enrollment m h x" | (C) h hs' where "c = Confirm_enrollment h m hs'"
    | (R) step where "c = Record_step m step" by (cases c) auto
  then show ?thesis
  proof cases
    case B
    with assms(3) r begin_Inr [of m h x "connection_at t ids d" s u] show ?thesis by simp
  next
    case C
    then have "pending h m d" using confirm_Inr [of "connection_at t ids d" h m hs' s u] ok assms(3) by simp
    with mfa_rows_unique(3) [OF ok r(1)] r(2) show ?thesis by (auto simp: pending_def)
  next
    case R
    with record_keeps [OF assms(1)] assms(3) show ?thesis by simp
  qed
qed

lemma winner_stands_serially:
  assumes "serial es d = Some d'" and "confirmed_with m hs d" and "\<And>t ids c. (t, ids, c) \<in> set es \<Longrightarrow> \<not> disenrolls m c"
  shows "confirmed_with m hs d' \<and> (\<forall>(t, ids, c) \<in> set es. \<not> enrolls m c)"
  using assms
proof (induction es d rule: serial.induct)
  case (2 t ids c es d)
  obtain s u where s: "apply_mfa_call c (connection_at t ids d) = (s, Inr u)" "serial es (db s) = Some d'"
    using 2(2) by (auto split: prod.splits sum.splits)
  have first: "confirmed_with m hs (db s) \<and> \<not> enrolls m c"
    by (rule winner_stands [OF 2(3) _ s(1)]) (use 2(4) in auto)
  then have "confirmed_with m hs d' \<and> (\<forall>(t, ids, c) \<in> set es. \<not> enrolls m c)"
    by (intro 2(1) [OF s(1) [symmetric] refl s(2)]) (use 2(4) in auto)
  with first show ?case by simp
qed simp

lemma serial_keeps_ok: "serial es d = Some d' \<Longrightarrow> db_ok d \<Longrightarrow> db_ok d'"
proof (induction es d rule: serial.induct)
  case (2 t ids c es d)
  obtain s u where s: "apply_mfa_call c (connection_at t ids d) = (s, Inr u)" "serial es (db s) = Some d'"
    using 2(2) by (auto split: prod.splits sum.splits)
  with 2(1) [OF s(1) [symmetric]] call_keeps_ok [OF 2(3) s(1)] show ?case by simp
qed simp

lemma run_writes_take:
  assumes "run_writes qs t d = Inr d'"
  shows "\<exists>view. run_writes (take k qs) t d = Inr view"
  using assms
proof (induction qs arbitrary: d k)
  case (Cons q qs)
  then show ?case by (cases k) (auto split: sum.splits)
qed simp

text \<open>Whoever has the lock can always go on to the commit.\<close>

lemma holder_commits:
  assumes "race_run w0 es w" and "mx_phase w n = Writing op True t 0" and "mx_lock w (tx_member op) = Some n"
    and "run_writes (tx_writes True op) t (mx_db w) = Inr d"
  shows "\<exists>w'. race_run w0 (es @ [tx_event op t]) w' \<and> mx_db w' = d"
proof -
  have "\<exists>w'. race_run w0 es w' \<and> mx_phase w' n = Writing op True t k \<and> mx_lock w' (tx_member op) = Some n \<and> mx_db w' = mx_db w"
    if "k \<le> length (tx_writes True op)" for k
    using that
  proof (induction k)
    case 0
    with assms show ?case by blast
  next
    case (Suc k)
    then obtain w' where w': "race_run w0 es w'" "mx_phase w' n = Writing op True t k"
        "mx_lock w' (tx_member op) = Some n" "mx_db w' = mx_db w" by auto
    obtain view where "run_writes (take (Suc k) (tx_writes True op)) t (mx_db w') = Inr view"
      using run_writes_take [OF assms(4)] w'(4) by metis
    from race_more [OF w'(1) mfa_write [OF w'(2) _ _ this]] Suc.prems w' show ?case by fastforce
  qed
  from this [OF order_refl] obtain w' where w': "race_run w0 es w'" "mx_db w' = mx_db w"
      "mx_phase w' n = Writing op True t (length (tx_writes True op))" by blast
  from race_more [OF w'(1) mfa_commit [OF w'(3), of d]] assms(4) w'(2) show ?thesis by (fastforce simp: finish_def)
qed

text \<open>C2: whatever the interleaving of any number of sessions, what the database holds is what the committed
  calls make of it one after another in the order of their commits, each successful; and once a
  confirmation of a member's enrollment has committed, no other confirmation of it and no new
  enrollment commits before the enrollment is deleted: the recovery codes stored are the
  winner's, and none of a loser's.\<close>

theorem one_confirmation_wins:
  assumes "db_ok d" and "race_run (idle_world d) es w"
  shows "serial es d = Some (mx_db w) \<and>
    (\<forall>earlier t ids h m hs later. es = earlier @ (t, ids, Confirm_enrollment h m hs) # later \<longrightarrow>
       (\<forall>(t, ids, c) \<in> set later. \<not> disenrolls m c) \<longrightarrow>
       confirmed_with m hs (mx_db w) \<and> (\<forall>(t, ids, c) \<in> set later. \<not> enrolls m c))"
proof (intro conjI allI impI)
  have ok: "race_ok (idle_world d)" by (simp add: race_ok_def phase_ok_def idle_world_def)
  show ser: "serial es d = Some (mx_db w)"
    using run_serial [OF assms(2) ok] by (simp add: idle_world_def)
  fix earlier t ids h m hs later
  assume es: "es = earlier @ (t, ids, Confirm_enrollment h m hs) # later"
    and kept: "\<forall>(t, ids, c) \<in> set later. \<not> disenrolls m c"
  obtain d1 where d1: "serial earlier d = Some d1" "serial ((t, ids, Confirm_enrollment h m hs) # later) d1 = Some (mx_db w)"
    using ser by (auto simp: es serial_append split: option.splits)
  obtain s u where s: "ConfirmEnrollmentWithCodes h m hs (connection_at t ids d1) = (s, Inr u)" "serial later (db s) = Some (mx_db w)"
    using d1(2) by (auto split: prod.splits sum.splits)
  have win: "confirmed_with m hs (db s)"
    by (rule confirmation_wins [OF serial_keeps_ok [OF d1(1) assms(1)] s(1)])
  have "confirmed_with m hs (mx_db w) \<and> (\<forall>(t, ids, c) \<in> set later. \<not> enrolls m c)"
    by (rule winner_stands_serially [OF s(2) win]) (use kept in auto)
  then show "confirmed_with m hs (mx_db w)" "\<forall>(t, ids, c) \<in> set later. \<not> enrolls m c" by simp_all
qed

section \<open>What the service's check does not cover\<close>

text \<open>\<open>MFAService.ConfirmEnrollment\<close> checks the code against the secret it read, and the repository then
  confirms whatever secret the row has. Here another request of the same member begins an
  enrollment between the two, before the confirmation takes its lock.\<close>

definition begins_between :: "household_id \<Rightarrow> bytes \<Rightarrow> conn mfa_repository \<Rightarrow> conn mfa_repository" where
  "begins_between h other repo =
     repo\<lparr>mr_confirm := (\<lambda>h' m hashes s. mr_confirm repo h' m hashes (fst (mr_begin repo m h other s)))\<rparr>"

text \<open>The demo service with a provider that accepts codes for the secret \<open>S\<close> only.\<close>

definition strict_svc :: "conn mfa_service" where
  "strict_svc = demo_svc\<lparr>svc_repo := begins_between (HouseholdID 1) [0, 0, 84, 84] pg_mfa,
     svc_totp := (svc_totp demo_svc)\<lparr>tp_validate := (\<lambda>t code secret. secret = ''S'')\<rparr>\<rparr>"

definition replaced :: conn where
  "replaced = demo_mfa_conn\<lparr>db := demo_db\<lparr>mfas := [\<lparr>f_member = 2, f_household = 1, f_secret = [0, 0, 84, 84],
     f_confirmed = None, f_step = None, f_created = 0, f_updated = clock demo_mfa_conn\<rparr>]\<rparr>\<rparr>"

lemma replaced_ok: "db_ok (db replaced)"
  by (simp add: replaced_def demo_mfa_simps db_ok_def members_ok_def mfas_ok_def codes_ok_def passkeys_ok_def
      member_in_def role_check_def emails_def List.map_filter_def name_key_def household_exists_def)

lemma begin_replaces:
  "BeginEnrollment (MemberID 2) (HouseholdID 1) [0, 0, 84, 84] (store demo_pending) = (replaced, Inr ())"
proof -
  have tx: "begin_tx (MemberID 2) (HouseholdID 1) [0, 0, 84, 84] (store demo_pending) = (replaced, Inr ())"
    by (simp add: begin_tx_def run_sql_no_faults select_row_def mfa_rows_def sql_replace_secret_def update_mfas_def
        update_where_def replaced_def demo_pending_def demo_mfa_simps)
  have "beginEnrollmentOnce (MemberID 2) (HouseholdID 1) [0, 0, 84, 84] (store demo_pending) = (replaced, Inr ())"
    unfolding beginEnrollmentOnce_def
    by (subst transact_no_faults [OF demo_nf(1)]) (auto simp: tx, simp add: replaced_def demo_mfa_simps)
  then show ?thesis by (simp add: BeginEnrollment_def)
qed

theorem unchecked_secret_confirmed:
  "\<exists>st raws r. svc_ConfirmEnrollment strict_svc (MemberID 2) (HouseholdID 1) ''1'' demo_pending = (st, Inr raws) \<and>
     mfa_rows (MemberID 2) (db (store st)) = [r] \<and> f_confirmed r \<noteq> None \<and>
     sc_decrypt (svc_cipher strict_svc) (f_secret r) = Some [84] \<and>
     (\<forall>t code. \<not> tp_validate (svc_totp strict_svc) t code (string_of [84]))"
proof -
  obtain raws hashes e' where gen: "generate_codes toy_hasher recoveryCodeCount (replicate 100 0) = Some ((raws, hashes), e')"
    using toy_codes [of recoveryCodeCount "replicate 100 0"] by (auto simp: recoveryCodeCount_def)
  have "length hashes = 10" using generate_codes_hashes [OF gen] by (simp add: recoveryCodeCount_def)
  then have fresh: "ids_fresh (uuids_used replaced + length hashes) replaced"
    using demo_mfa_fresh [of 15] by (simp add: ids_fresh_def ids_left_def demo_mfa_conn_def replaced_def)
  have "faults replaced = []" "pending (HouseholdID 1) (MemberID 2) (db replaced)"
    by (simp_all add: pending_def replaced_def demo_mfa_simps)
  from confirm_no_faults [OF replaced_ok fresh this]
  obtain s' where s': "ConfirmEnrollmentWithCodes (HouseholdID 1) (MemberID 2) hashes replaced = (s', Inr ())" by blast
  have get: "on_store (mr_get (svc_repo strict_svc) (MemberID 2)) demo_pending =
      (demo_pending, Inr (to_enrollment (MemberID 2) \<lparr>f_member = 2, f_household = 1,
        f_secret = [0, 0, 83, 83], f_confirmed = None, f_step = None, f_created = 0, f_updated = 0\<rparr>))"
    by (simp add: on_store_def strict_svc_def begins_between_def pg_mfa_def GetEnrollment_def run_sql_no_faults
        select_row_def mfa_rows_def demo_pending_def demo_mfa_simps)
  have codes: "generateRecoveryCodes strict_svc demo_pending = (demo_pending\<lparr>entropy := e'\<rparr>, Inr (raws, hashes))"
    using gen by (simp add: generateRecoveryCodes_def strict_svc_def demo_svc_def demo_pending_def)
  have conf: "on_store (mr_confirm (svc_repo strict_svc) (HouseholdID 1) (MemberID 2) hashes) (demo_pending\<lparr>entropy := e'\<rparr>) =
      (demo_pending\<lparr>entropy := e', store := s'\<rparr>, Inr ())"
    using s' begin_replaces by (simp add: on_store_def strict_svc_def begins_between_def pg_mfa_def)
  have cipher: "sc_decrypt (svc_cipher strict_svc) [0, 0, 83, 83] = Some [83]" "sc_decrypt (svc_cipher strict_svc) [0, 0, 84, 84] = Some [84]"
    by (simp_all add: strict_svc_def demo_svc_def gcm_cipher_def Decrypt_def toy_aead_def checksum_def numeral_2_eq_2)
  have val: "tp_validate (svc_totp strict_svc) t code x \<longleftrightarrow> x = ''S''" for t code x
    by (simp add: strict_svc_def)
  have secrets: "string_of [83] = ''S''" "string_of [84] = ''T''" by code_simp+
  have "svc_ConfirmEnrollment strict_svc (MemberID 2) (HouseholdID 1) ''1'' demo_pending =
      (demo_pending\<lparr>entropy := e', store := s'\<rparr>, Inr raws)"
    by (simp add: svc_ConfirmEnrollment_def get to_enrollment_def Confirmed_def cipher val secrets codes conf)
  moreover have "db s' = confirmed_db (MemberID 2) hashes replaced" using confirm_Inr [OF replaced_ok s'] by simp
  then have "mfa_rows (MemberID 2) (db s') = [\<lparr>f_member = 2, f_household = 1, f_secret = [0, 0, 84, 84],
      f_confirmed = Some (clock replaced), f_step = None, f_created = 0, f_updated = clock replaced\<rparr>]"
    by (simp add: mfa_rows_def confirmed_db_def update_where_def) (simp add: replaced_def)
  ultimately show ?thesis by (auto simp: cipher val secrets)
qed

section \<open>Inputs for the witnesses\<close>

text \<open>Two sessions confirm the demo member's enrollment at once, and session 7 has the lock first.\<close>

definition demo_confirm :: mfa_tx where
  "demo_confirm = Confirm_tx (HouseholdID 1) (MemberID 2) [(9, ''h'')]"

lemma demo_confirm_runs: "\<exists>d. run_writes (tx_writes True demo_confirm) 5 (db demo_mfa_conn) = Inr d"
proof -
  have "(case run_writes (tx_writes True demo_confirm) 5 (db demo_mfa_conn) of Inl _ \<Rightarrow> False | Inr _ \<Rightarrow> True)"
    by code_simp
  then show ?thesis by (simp split: sum.splits)
qed

lemma demo_race: "\<exists>w. race_run (idle_world (db demo_mfa_conn)) [tx_event demo_confirm 5] w"
proof -
  let ?d = "db demo_mfa_conn" and ?op = demo_confirm and ?op' = "Confirm_tx (HouseholdID 1) (MemberID 2) [(11, ''k'')]"
  let ?w1 = "(idle_world ?d)\<lparr>mx_phase := (\<lambda>_. Resting)(7 := Opened ?op 5)\<rparr>"
  let ?w2 = "?w1\<lparr>mx_phase := (mx_phase ?w1)(8 := Opened ?op' 6)\<rparr>"
  let ?w3 = "?w2\<lparr>mx_lock := (mx_lock ?w2)(MemberID 2 \<mapsto> 7), mx_phase := (mx_phase ?w2)(7 := Writing ?op True 5 0)\<rparr>"
  have "race_step (idle_world ?d) [] ?w1" using mfa_open [of "idle_world ?d" 7 ?op 5] by (simp add: idle_world_def)
  moreover have "race_step ?w1 [] ?w2" using mfa_open [of ?w1 8 ?op' 6] by (simp add: idle_world_def)
  moreover have "race_step ?w2 [] ?w3"
    using mfa_lock [of ?w2 7 ?op 5] by (simp add: idle_world_def demo_confirm_def mfa_rows_def demo_mfa_simps)
  ultimately have run: "race_run (idle_world ?d) [] ?w3"
    using race_more [OF race_more [OF race_more [OF race_start]]] by fastforce
  obtain d where "run_writes (tx_writes True ?op) 5 ?d = Inr d" using demo_confirm_runs by blast
  then have w: "run_writes (tx_writes True ?op) 5 (mx_db ?w3) = Inr d" by (simp add: idle_world_def)
  have "mx_phase ?w3 7 = Writing ?op True 5 0" "mx_lock ?w3 (tx_member ?op) = Some 7"
    by (simp_all add: demo_confirm_def)
  from holder_commits [OF run this w] show ?thesis by auto
qed

theorem one_confirmation_wins_witness:
  "\<exists>w. race_run (idle_world (db demo_mfa_conn)) [tx_event demo_confirm 5] w \<and>
     confirmed_with (MemberID 2) [''h''] (mx_db w)"
proof -
  obtain w where w: "race_run (idle_world (db demo_mfa_conn)) [tx_event demo_confirm 5] w"
    using demo_race by blast
  from one_confirmation_wins [OF demo_mfa_ok this]
  have "confirmed_with (MemberID 2) [''h''] (mx_db w)"
    by (auto simp: demo_confirm_def append_eq_Cons_conv dest: spec [of _ "[]"])
  with w show ?thesis by blast
qed

end
