(* ===== verification/Passkey_Store.thy ===== *)
theory Passkey_Store
  imports Member_Store "HOL-Library.Option_ord"
begin

text \<open>
  The passkey repository, \<open>identity/adapter/webauthn_postgres.go\<close>, over the table
  \<open>identity.member_credential\<close>, and the credential entity of \<open>identity/domain/webauthn.go\<close>.
  A sign count is a \<open>uint32\<close> in the program and a \<open>bigint\<close> in the table; scanning a count that
  does not fit fails. Instants are the database's, in microseconds.

  The theory proves that a passkey keeps its identity for life and that the bookkeeping of its
  assertions (last use and sign count) never goes back, and it computes what any sequence of
  successful assertions leaves in the table, which does not depend on their order.
\<close>

section \<open>The entity\<close>

record webauthn_credential =
  wc_id :: webauthn_credential_id
  wc_member :: member_id
  wc_household :: household_id
  wc_credential_id :: bytes
  wc_public_key :: bytes
  wc_sign_count :: "32 word"
  wc_transports :: "string list option"  \<comment> \<open>\<open>None\<close> is the nil slice\<close>
  wc_aaguid :: "uuid option"
  wc_nickname :: string
  wc_user_handle :: bytes
  wc_created :: time
  wc_last_used :: "time option"

section \<open>Reading\<close>

text \<open>\<open>rows.Scan\<close> into the entity; \<open>m\<close> is the member it is filed under.\<close>

definition scan_passkey :: "member_id \<Rightarrow> passkey_row \<Rightarrow> webauthn_credential option" where
  "scan_passkey m r =
     (if 0 \<le> k_sign_count r \<and> k_sign_count r < 2 ^ 32
      then Some \<lparr>wc_id = WebAuthnCredentialID (k_id r), wc_member = m, wc_household = HouseholdID (k_household r),
                 wc_credential_id = k_credential_id r, wc_public_key = k_public_key r,
                 wc_sign_count = word_of_int (k_sign_count r), wc_transports = k_transports r,
                 wc_aaguid = k_aaguid r, wc_nickname = k_nickname r, wc_user_handle = k_user_handle r,
                 wc_created = k_created r, wc_last_used = k_last_used r\<rparr>
      else None)"

fun scan_passkeys :: "member_id \<Rightarrow> passkey_row list \<Rightarrow> webauthn_credential list option" where
  "scan_passkeys m [] = Some []"
| "scan_passkeys m (r # rs) =
     (case scan_passkey m r of
        None \<Rightarrow> None
      | Some c \<Rightarrow> (case scan_passkeys m rs of None \<Rightarrow> None | Some cs \<Rightarrow> Some (c # cs)))"

definition passkey_order :: "passkey_row \<Rightarrow> time \<times> uuid" where
  "passkey_order r = (k_created r, k_id r)"

definition ListByMember ::
    "household_id \<Rightarrow> member_id \<Rightarrow> conn \<Rightarrow> conn \<times> (id_error + webauthn_credential list)" where
  "ListByMember h m s =
     (case run_sql (select (\<lambda>d. sort_key passkey_order
              (filter (\<lambda>r. k_member r = mid m \<and> k_household r = hid h) (passkeys d)))) s of
        (s, Inl _) \<Rightarrow> (s, Inl ErrOther)
      | (s, Inr rows) \<Rightarrow> (s, case scan_passkeys m rows of None \<Rightarrow> Inl ErrOther | Some cs \<Rightarrow> Inr cs))"

text \<open>The loop of \<open>FindByUserHandle\<close>; a second member among the rows is an error.\<close>

fun collect_handle ::
    "passkey_row list \<Rightarrow> member_id \<Rightarrow> webauthn_credential list \<Rightarrow> (member_id \<times> webauthn_credential list) option" where
  "collect_handle [] m creds = Some (m, creds)"
| "collect_handle (r # rs) m creds =
     (let parsed = MemberID (k_member r)
      in case scan_passkey parsed r of
           None \<Rightarrow> None
         | Some c \<Rightarrow> if creds \<noteq> [] \<and> parsed \<noteq> m then None else collect_handle rs parsed (creds @ [c]))"

definition FindByUserHandle ::
    "bytes \<Rightarrow> conn \<Rightarrow> conn \<times> (id_error + member_id \<times> webauthn_credential list)" where
  "FindByUserHandle handle s =
     (case run_sql (select (\<lambda>d. sort_key passkey_order (filter (\<lambda>r. k_user_handle r = handle) (passkeys d)))) s of
        (s, Inl _) \<Rightarrow> (s, Inl ErrOther)
      | (s, Inr rows) \<Rightarrow>
          (case collect_handle rows (MemberID 0) [] of
             None \<Rightarrow> (s, Inl ErrOther)
           | Some (m, creds) \<Rightarrow> if creds = [] then (s, Inl ErrMemberNotFound) else (s, Inr (m, creds))))"

section \<open>Writing\<close>

definition sql_insert_passkey :: "household_id \<Rightarrow> webauthn_credential \<Rightarrow> (identity_db, unit) sql" where
  "sql_insert_passkey h c d now =
     (case insert_passkey
             \<lparr>k_id = wid (wc_id c), k_household = hid h, k_member = mid (wc_member c),
              k_credential_id = wc_credential_id c, k_public_key = wc_public_key c,
              k_sign_count = uint (wc_sign_count c), k_transports = wc_transports c,
              k_aaguid = wc_aaguid c, k_nickname = wc_nickname c, k_user_handle = wc_user_handle c,
              k_created = now, k_last_used = None\<rparr> d of
        Inl e \<Rightarrow> Inl e | Inr d \<Rightarrow> Inr (d, ()))"

definition mapWebAuthnCredentialViolation :: "pg_error \<Rightarrow> id_error option" where
  "mapWebAuthnCredentialViolation e =
     (if is_violation e foreignKeyViolation webauthnCredentialHouseholdFK then Some ErrHouseholdNotFound
      else if is_violation e foreignKeyViolation webauthnCredentialMemberFK then Some ErrMemberNotFound
      else if is_violation e uniqueViolation webauthnCredentialIDUnique then Some ErrWebAuthnCredentialExists
      else None)"

definition Create_passkey :: "household_id \<Rightarrow> webauthn_credential \<Rightarrow> conn \<Rightarrow> conn \<times> (id_error + unit)" where
  "Create_passkey h c s =
     (case run_sql (sql_insert_passkey h c) s of
        (s, Inl e) \<Rightarrow> (s, Inl (case mapWebAuthnCredentialViolation e of Some mapped \<Rightarrow> mapped | None \<Rightarrow> ErrOther))
      | (s, Inr _) \<Rightarrow> (s, Inr ()))"

definition owned_passkey :: "household_id \<Rightarrow> member_id \<Rightarrow> webauthn_credential_id \<Rightarrow> passkey_row \<Rightarrow> bool" where
  "owned_passkey h m i r \<longleftrightarrow> k_id r = wid i \<and> k_member r = mid m \<and> k_household r = hid h"

definition sql_rename_passkey ::
    "household_id \<Rightarrow> member_id \<Rightarrow> webauthn_credential_id \<Rightarrow> string \<Rightarrow> (identity_db, nat) sql" where
  "sql_rename_passkey h m i nickname d now =
     Inr (d\<lparr>passkeys := update_where (owned_passkey h m i) (\<lambda>r. r\<lparr>k_nickname := nickname\<rparr>) (passkeys d)\<rparr>,
          count_where (owned_passkey h m i) (passkeys d))"

definition Rename_passkey ::
    "household_id \<Rightarrow> member_id \<Rightarrow> webauthn_credential_id \<Rightarrow> string \<Rightarrow> conn \<Rightarrow> conn \<times> (id_error + unit)" where
  "Rename_passkey h m i nickname s =
     (case run_sql (sql_rename_passkey h m i nickname) s of
        (s, Inl _) \<Rightarrow> (s, Inl ErrOther)
      | (s, Inr n) \<Rightarrow> (s, if n = 0 then Inl ErrWebAuthnCredentialNotFound else Inr ()))"

definition sql_delete_passkey ::
    "household_id \<Rightarrow> member_id \<Rightarrow> webauthn_credential_id \<Rightarrow> (identity_db, nat) sql" where
  "sql_delete_passkey h m i d now =
     Inr (d\<lparr>passkeys := delete_where (owned_passkey h m i) (passkeys d)\<rparr>,
          count_where (owned_passkey h m i) (passkeys d))"

definition Delete_passkey ::
    "household_id \<Rightarrow> member_id \<Rightarrow> webauthn_credential_id \<Rightarrow> conn \<Rightarrow> conn \<times> (id_error + unit)" where
  "Delete_passkey h m i s =
     (case run_sql (sql_delete_passkey h m i) s of
        (s, Inl _) \<Rightarrow> (s, Inl ErrOther)
      | (s, Inr n) \<Rightarrow> (s, if n = 0 then Inl ErrWebAuthnCredentialNotFound else Inr ()))"

text \<open>The monotonic guard of \<open>UpdateAfterAssertion\<close>.\<close>

definition assertion_applies :: "bytes \<Rightarrow> 32 word \<Rightarrow> time \<Rightarrow> passkey_row \<Rightarrow> bool" where
  "assertion_applies cid sign_count used r \<longleftrightarrow>
     k_credential_id r = cid \<and>
     (case k_last_used r of
        None \<Rightarrow> True
      | Some prev \<Rightarrow> prev < used \<or> (prev = used \<and> k_sign_count r \<le> uint sign_count))"

definition sql_after_assertion :: "bytes \<Rightarrow> 32 word \<Rightarrow> time \<Rightarrow> (identity_db, nat) sql" where
  "sql_after_assertion cid sign_count used d now =
     (let P = assertion_applies cid sign_count used
      in Inr (d\<lparr>passkeys := update_where P (\<lambda>r. r\<lparr>k_sign_count := uint sign_count, k_last_used := Some used\<rparr>)
                  (passkeys d)\<rparr>,
              count_where P (passkeys d)))"

definition UpdateAfterAssertion :: "bytes \<Rightarrow> 32 word \<Rightarrow> time \<Rightarrow> conn \<Rightarrow> conn \<times> (id_error + unit)" where
  "UpdateAfterAssertion cid sign_count used s =
     (case run_sql (sql_after_assertion cid sign_count used) s of
        (s, Inl _) \<Rightarrow> (s, Inl ErrOther)
      | (s, Inr n) \<Rightarrow>
          if n > 0 then (s, Inr ())
          else (case run_sql (select (\<lambda>d. [list_ex (\<lambda>r. k_credential_id r = cid) (passkeys d)])) s of
                  (s, Inl _) \<Rightarrow> (s, Inl ErrOther)
                | (s, Inr exs) \<Rightarrow> (s, if \<not> hd exs then Inl ErrWebAuthnCredentialNotFound else Inr ())))"

section \<open>Calls\<close>

datatype passkey_call =
    List_passkeys household_id member_id
  | Find_handle bytes
  | Create_call household_id webauthn_credential
  | Rename_call household_id member_id webauthn_credential_id string
  | Delete_call household_id member_id webauthn_credential_id
  | After_assertion bytes "32 word" time

fun apply_passkey_call :: "passkey_call \<Rightarrow> conn \<Rightarrow> conn" where
  "apply_passkey_call (List_passkeys h m) s = fst (ListByMember h m s)"
| "apply_passkey_call (Find_handle handle) s = fst (FindByUserHandle handle s)"
| "apply_passkey_call (Create_call h c) s = fst (Create_passkey h c s)"
| "apply_passkey_call (Rename_call h m i n) s = fst (Rename_passkey h m i n s)"
| "apply_passkey_call (Delete_call h m i) s = fst (Delete_passkey h m i s)"
| "apply_passkey_call (After_assertion cid n used) s = fst (UpdateAfterAssertion cid n used s)"

definition run_passkey_calls :: "passkey_call list \<Rightarrow> conn \<Rightarrow> conn" where
  "run_passkey_calls cs s = fold apply_passkey_call cs s"

text \<open>A call relates the databases before and after as its writing statement does.\<close>

fun call_writes :: "(identity_db \<Rightarrow> identity_db \<Rightarrow> bool) \<Rightarrow> passkey_call \<Rightarrow> bool" where
  "call_writes R (Create_call h c) = sql_rel R (sql_insert_passkey h c)"
| "call_writes R (Rename_call h m i n) = sql_rel R (sql_rename_passkey h m i n)"
| "call_writes R (Delete_call h m i) = sql_rel R (sql_delete_passkey h m i)"
| "call_writes R (After_assertion cid n used) = sql_rel R (sql_after_assertion cid n used)"
| "call_writes R (List_passkeys h m) = True"
| "call_writes R (Find_handle handle) = True"

lemma passkey_call_related:
  assumes refl: "reflp R" and trans: "transp R" and w: "call_writes R c"
  shows "R (db s) (db (apply_passkey_call c s))"
proof -
  note run = conn_rel_run_sql [OF refl]
  note sel = run [OF sql_rel_select_row [OF refl]] run [OF sql_rel_select [OF refl]]
  note rules = conn_rel_bind [OF trans] conn_rel_if conn_rel_case_prod conn_rel_case_option
    conn_rel_return [OF refl] sel run
  show ?thesis
  proof (cases c)
    case (List_passkeys h m)
    have "conn_rel R (ListByMember h m)" unfolding ListByMember_def [abs_def] by (intro rules)
    with List_passkeys show ?thesis by (simp add: conn_rel_def)
  next
    case (Find_handle handle)
    have "conn_rel R (FindByUserHandle handle)" unfolding FindByUserHandle_def [abs_def] by (intro rules)
    with Find_handle show ?thesis by (simp add: conn_rel_def)
  next
    case (Create_call h k)
    then have "conn_rel R (Create_passkey h k)"
      unfolding Create_passkey_def [abs_def] by (intro rules) (use w in simp)
    with Create_call show ?thesis by (simp add: conn_rel_def)
  next
    case (Rename_call h m i n)
    then have "conn_rel R (Rename_passkey h m i n)"
      unfolding Rename_passkey_def [abs_def] by (intro rules) (use w in simp)
    with Rename_call show ?thesis by (simp add: conn_rel_def)
  next
    case (Delete_call h m i)
    then have "conn_rel R (Delete_passkey h m i)"
      unfolding Delete_passkey_def [abs_def] by (intro rules) (use w in simp)
    with Delete_call show ?thesis by (simp add: conn_rel_def)
  next
    case (After_assertion cid n used)
    then have "conn_rel R (UpdateAfterAssertion cid n used)"
      unfolding UpdateAfterAssertion_def [abs_def] by (intro rules) (use w in simp)
    with After_assertion show ?thesis by (simp add: conn_rel_def)
  qed
qed

lemma run_passkey_calls_related:
  assumes "reflp R" and "transp R" and "\<And>c. c \<in> set cs \<Longrightarrow> call_writes R c"
  shows "R (db s) (db (run_passkey_calls cs s))"
  unfolding run_passkey_calls_def using assms(3)
proof (induction cs arbitrary: s)
  case Nil
  show ?case using assms(1) by (simp add: reflpD)
next
  case (Cons c cs)
  show ?case using passkey_call_related [OF assms(1,2), of c s] Cons.IH [of "apply_passkey_call c s"] Cons.prems
    by (auto dest: transpD [OF assms(2)])
qed

section \<open>A passkey over its life\<close>

text \<open>What of a row its assertions move, ordered by last use and then by count; and what never
  changes.\<close>

definition stamp :: "passkey_row \<Rightarrow> time option \<times> int" where
  "stamp r = (k_last_used r, k_sign_count r)"

definition identity_of :: "passkey_row \<Rightarrow> uuid \<times> uuid \<times> uuid \<times> bytes \<times> bytes \<times> bytes \<times> time" where
  "identity_of r = (k_id r, k_household r, k_member r, k_credential_id r, k_public_key r, k_user_handle r, k_created r)"

lemma assertion_applies_iff:
  "assertion_applies cid n used r \<longleftrightarrow> k_credential_id r = cid \<and> stamp r \<le> (Some used, uint n)"
  by (cases "k_last_used r") (auto simp: assertion_applies_def stamp_def less_eq_prod_def)

definition grown :: "uuid \<Rightarrow> identity_db \<Rightarrow> identity_db \<Rightarrow> bool" where
  "grown i d d' \<longleftrightarrow> (\<forall>r' \<in> set (passkeys d'). k_id r' = i \<longrightarrow>
     (\<exists>r \<in> set (passkeys d). identity_of r = identity_of r' \<and> stamp r \<le> stamp r'))"

lemma grown_refl: "reflp (grown i)"
  by (auto simp: reflp_def grown_def)

lemma grown_trans: "transp (grown i)"
proof (rule transpI)
  fix a b c assume ab: "grown i a b" and bc: "grown i b c"
  show "grown i a c"
    unfolding grown_def
  proof (intro ballI impI)
    fix r'' assume r'': "r'' \<in> set (passkeys c)" "k_id r'' = i"
    then obtain r' where r': "r' \<in> set (passkeys b)" "identity_of r' = identity_of r''" "stamp r' \<le> stamp r''"
      using bc by (auto simp: grown_def)
    then have "k_id r' = i" using r''(2) by (simp add: identity_of_def)
    with r'(1) ab obtain r where "r \<in> set (passkeys a)" "identity_of r = identity_of r'" "stamp r \<le> stamp r'"
      by (auto simp: grown_def)
    with r' show "\<exists>r \<in> set (passkeys a). identity_of r = identity_of r'' \<and> stamp r \<le> stamp r''"
      by (metis order_trans)
  qed
qed

fun creates_id :: "uuid \<Rightarrow> passkey_call \<Rightarrow> bool" where
  "creates_id i (Create_call h c) = (wid (wc_id c) = i)"
| "creates_id i _ = False"

lemma grown_update:
  assumes "\<And>r. P r \<Longrightarrow> identity_of (f r) = identity_of r \<and> stamp r \<le> stamp (f r)"
  shows "grown i d (d\<lparr>passkeys := update_where P f (passkeys d)\<rparr>)"
  using assms by (auto simp: grown_def set_update_where)

lemma call_grows: "\<not> creates_id i c \<Longrightarrow> call_writes (grown i) c"
proof (cases c)
  case (Create_call h k)
  moreover assume "\<not> creates_id i c"
  ultimately show ?thesis
    by (auto simp: sql_rel_def sql_insert_passkey_def insert_passkey_def grown_def split: if_splits)
next
  case (Rename_call h m j n)
  then show ?thesis
    by (auto simp: sql_rel_def sql_rename_passkey_def identity_of_def stamp_def intro!: grown_update)
next
  case (Delete_call h m j)
  then show ?thesis by (auto simp: sql_rel_def sql_delete_passkey_def grown_def delete_where_def)
next
  case (After_assertion cid n used)
  have "grown i d (d\<lparr>passkeys := update_where (assertion_applies cid n used)
      (\<lambda>r. r\<lparr>k_sign_count := uint n, k_last_used := Some used\<rparr>) (passkeys d)\<rparr>)" for d
    by (rule grown_update, unfold assertion_applies_iff) (simp add: identity_of_def stamp_def)
  with After_assertion show ?thesis by (auto simp: sql_rel_def sql_after_assertion_def Let_def)
qed simp_all


section \<open>What assertions leave behind\<close>

text \<open>The bookkeeping of a passkey after a set of assertions \<open>(credential id, count, instant)\<close>: the
  greatest of its own and of those made with it.\<close>

definition latest_stamp :: "(bytes \<times> 32 word \<times> time) set \<Rightarrow> passkey_row \<Rightarrow> time option \<times> int" where
  "latest_stamp A r = Max (insert (stamp r) {(Some used, uint n) | n used. (k_credential_id r, n, used) \<in> A})"

definition set_stamp :: "time option \<times> int \<Rightarrow> passkey_row \<Rightarrow> passkey_row" where
  "set_stamp st r = r\<lparr>k_last_used := fst st, k_sign_count := snd st\<rparr>"

definition run_assertions :: "(bytes \<times> 32 word \<times> time) list \<Rightarrow> conn \<Rightarrow> conn" where
  "run_assertions as s = fold (\<lambda>(cid, n, used). apply_passkey_call (After_assertion cid n used)) as s"

lemma set_stamp_simps [simp]:
  "stamp (set_stamp st r) = st" "k_credential_id (set_stamp st r) = k_credential_id r"
  "set_stamp st' (set_stamp st r) = set_stamp st' r" "set_stamp (stamp r) r = r"
  by (simp_all add: set_stamp_def stamp_def)

definition asserted :: "bytes \<times> 32 word \<times> time \<Rightarrow> identity_db \<Rightarrow> identity_db" where
  "asserted a d = d\<lparr>passkeys := map (\<lambda>r. set_stamp (latest_stamp {a} r) r) (passkeys d)\<rparr>"

lemma latest_stamp_one:
  "latest_stamp {(cid, n, used)} r =
     (if assertion_applies cid n used r then (Some used, uint n) else stamp r)"
proof -
  have "{(Some used', uint n') | n' used'. (k_credential_id r, n', used') \<in> {(cid, n, used)}} =
      (if k_credential_id r = cid then {(Some used, uint n)} else {})"
    by auto
  then show ?thesis
    by (auto simp: latest_stamp_def assertion_applies_iff max_def)
qed

lemma after_assertion_update:
  "update_where (assertion_applies cid n used) (\<lambda>r. r\<lparr>k_sign_count := uint n, k_last_used := Some used\<rparr>) rows =
     map (\<lambda>r. set_stamp (latest_stamp {(cid, n, used)} r) r) rows"
  by (auto simp: update_where_def latest_stamp_one set_stamp_def stamp_def)

lemma after_assertion_db:
  assumes "faults s = []"
  shows "faults (apply_passkey_call (After_assertion cid n used) s) = [] \<and>
    db (apply_passkey_call (After_assertion cid n used) s) = asserted (cid, n, used) (db s)"
  using assms
  by (simp add: UpdateAfterAssertion_def run_sql_no_faults sql_after_assertion_def Let_def after_assertion_update
      asserted_def select_def)

lemma finite_stamps: "finite A \<Longrightarrow> finite {(Some used, uint n) | n used. (c, n, used) \<in> A}"
proof -
  assume "finite A"
  moreover have "{(Some used, uint n) | n used. (c, n, used) \<in> A} \<subseteq> (\<lambda>(_, n, used). (Some used, uint n)) ` A"
    by force
  ultimately show ?thesis by (meson finite_imageI finite_subset)
qed

lemma Max_insert_Max:
  fixes T :: "'a :: linorder set"
  shows "finite T \<Longrightarrow> T \<noteq> {} \<Longrightarrow> finite U \<Longrightarrow> Max (insert (Max T) U) = Max (T \<union> U)"
  by (cases "U = {}") (simp_all add: Max.union)

lemma latest_stamp_insert:
  assumes "finite A"
  shows "latest_stamp A (set_stamp (latest_stamp {a} r) r) = latest_stamp (insert a A) r"
proof -
  obtain cid n used where a: "a = (cid, n, used)" by (cases a) auto
  let ?S = "\<lambda>A. {(Some used, uint n) | n used. (k_credential_id r, n, used) \<in> A}"
  have S: "?S (insert a A) = ?S {a} \<union> ?S A" by auto
  have fin: "finite (?S A)" "finite (?S {a})" using finite_stamps [OF assms] finite_stamps [of "{a}"] by auto
  have "Max (insert (Max (insert (stamp r) (?S {a}))) (?S A)) = Max (insert (stamp r) (?S {a}) \<union> ?S A)"
    using fin by (intro Max_insert_Max) auto
  then show ?thesis unfolding latest_stamp_def S set_stamp_simps by simp
qed

lemma run_assertions_db:
  "faults s = [] \<Longrightarrow>
   db (run_assertions as s) = (db s)\<lparr>passkeys := map (\<lambda>r. set_stamp (latest_stamp (set as) r) r) (passkeys (db s))\<rparr>"
proof (induction as arbitrary: s)
  case Nil
  then show ?case by (simp add: run_assertions_def latest_stamp_def)
next
  case (Cons a as)
  obtain cid n used where a: "a = (cid, n, used)" by (cases a) auto
  let ?s = "apply_passkey_call (After_assertion cid n used) s"
  note one = after_assertion_db [OF Cons.prems, of cid n used]
  have "db (run_assertions (a # as) s) = db (run_assertions as ?s)"
    by (simp add: run_assertions_def a)
  also have "\<dots> = (db ?s)\<lparr>passkeys := map (\<lambda>r. set_stamp (latest_stamp (set as) r) r) (passkeys (db ?s))\<rparr>"
    by (rule Cons.IH) (use one in simp)
  finally show ?case using one latest_stamp_insert [of "set as" a] by (simp add: asserted_def a)
qed

text \<open>C19: successful assertions may report in any order, and more than once: on a working connection
  the table ends up with the greatest bookkeeping each passkey had or was given, and nothing
  else changes.\<close>

theorem assertions_any_order:
  assumes "faults s = []"
  shows "db (run_assertions as s) =
    (db s)\<lparr>passkeys := map (\<lambda>r. set_stamp (latest_stamp (set as) r) r) (passkeys (db s))\<rparr>"
  by (rule run_assertions_db [OF assms])

section \<open>Inputs for the witnesses\<close>

text \<open>The demo member's passkey, used once.\<close>

definition demo_passkey :: passkey_row where
  "demo_passkey = \<lparr>k_id = 9, k_household = 1, k_member = 2, k_credential_id = [1, 2], k_public_key = [3],
     k_sign_count = 4, k_transports = None, k_aaguid = None, k_nickname = ''Phone'', k_user_handle = [5],
     k_created = 0, k_last_used = Some 100\<rparr>"

definition demo_passkey_conn :: conn where
  "demo_passkey_conn = demo_conn\<lparr>db := demo_db\<lparr>passkeys := [demo_passkey]\<rparr>\<rparr>"

lemmas demo_passkey_simps = demo_passkey_conn_def demo_conn_def demo_db_def demo_member_def empty_db_def demo_passkey_def

lemma demo_passkey_ok: "db_ok (db demo_passkey_conn)"
  by (simp add: demo_passkey_simps db_ok_def members_ok_def mfas_ok_def codes_ok_def passkeys_ok_def
      member_in_def role_check_def emails_def List.map_filter_def name_key_def household_exists_def)

lemma demo_assertions:
  "passkeys (db (run_assertions [([1, 2], 6, 300), ([1, 2], 5, 200)] demo_passkey_conn)) =
     [demo_passkey\<lparr>k_sign_count := 6, k_last_used := Some 300\<rparr>]"
  by (simp add: run_assertions_def UpdateAfterAssertion_def run_sql_no_faults demo_passkey_simps sql_after_assertion_def
      Let_def update_where_def assertion_applies_def select_def count_where_def)


theorem assertions_any_order_witness:
  "latest_stamp {([1, 2], 6, 300), ([1, 2], 5, 200)} demo_passkey = (Some 300, 6)"
proof -
  have "faults demo_passkey_conn = []" by (simp add: demo_passkey_simps)
  from assertions_any_order [OF this, of "[([1, 2], 6, 300), ([1, 2], 5, 200)]"] demo_assertions
  have "demo_passkey\<lparr>k_sign_count := 6, k_last_used := Some 300\<rparr> =
      set_stamp (latest_stamp {([1, 2], 6, 300), ([1, 2], 5, 200)} demo_passkey) demo_passkey"
    by (simp add: demo_passkey_conn_def)
  then have "stamp (demo_passkey\<lparr>k_sign_count := 6, k_last_used := Some 300\<rparr>) =
      latest_stamp {([1, 2], 6, 300), ([1, 2], 5, 200)} demo_passkey"
    by (metis set_stamp_simps(1))
  then show ?thesis by (simp add: stamp_def)
qed

end
