(* ===== verification/Go_Uuid.thy ===== *)
theory Go_Uuid
  imports Prelude
begin

text \<open>
  The byte and text forms of a UUID, as \<open>github.com/google/uuid\<close> documents them (sixteen bytes
  in big-endian order; the canonical lower-case text), and \<open>encoding/hex\<close>.
\<close>

section \<open>Bytes\<close>

definition be_digits :: "nat \<Rightarrow> nat \<Rightarrow> bytes" where
  "be_digits n N = map (\<lambda>i. word_of_nat (N div 256 ^ (n - 1 - i))) [0..<n]"

definition big_endian :: "bytes \<Rightarrow> nat" where
  "big_endian b = foldl (\<lambda>acc x. acc * 256 + unat x) 0 b"

definition uuid_bytes :: "uuid \<Rightarrow> bytes" where
  "uuid_bytes u = be_digits 16 (unat u)"

definition uuid_of_bytes :: "bytes \<Rightarrow> uuid" where
  "uuid_of_bytes b = word_of_nat (big_endian b)"

lemma length_be_digits [simp]: "length (be_digits n N) = n"
  by (simp add: be_digits_def)

lemma length_uuid_bytes [simp]: "length (uuid_bytes u) = 16"
  by (simp add: uuid_bytes_def)

lemma be_digits_Suc: "be_digits (Suc n) N = be_digits n (N div 256) @ [word_of_nat N]"
proof -
  have "N div 256 ^ (n - i) = N div 256 div 256 ^ (n - 1 - i)" if "i < n" for i
  proof -
    have "(256 :: nat) ^ (n - i) = 256 * 256 ^ (n - 1 - i)"
      using that by (metis Suc_diff_Suc diff_Suc_eq_diff_pred power_Suc)
    then show ?thesis by (metis div_mult2_eq)
  qed
  then have "map (\<lambda>i. word_of_nat (N div 256 ^ (n - i)) :: byte) [0..<n] =
      map (\<lambda>i. word_of_nat (N div 256 div 256 ^ (n - 1 - i))) [0..<n]"
    by (intro map_cong) simp_all
  then show ?thesis by (simp add: be_digits_def)
qed

lemma big_endian_snoc: "big_endian (b @ [x]) = big_endian b * 256 + unat x"
  by (simp add: big_endian_def)

lemma unat_8_less: "unat (x :: byte) < 256"
  using unsigned_less [of x] by simp

lemma big_endian_less: "big_endian b < 256 ^ length b"
proof (induction b rule: rev_induct)
  case (snoc x b)
  then show ?case using unat_8_less [of x] by (simp add: big_endian_snoc)
qed (simp add: big_endian_def)

lemma big_endian_digits: "be_digits (length b) (big_endian b) = b"
proof (induction b rule: rev_induct)
  case (snoc x b)
  have "(big_endian b * 256 + unat x) div 256 = big_endian b" using unat_8_less [of x] by simp
  moreover have "(word_of_nat (big_endian b * 256 + unat x) :: byte) = x"
    using unat_8_less [of x] by (simp only: word_unat_eq_iff unat_of_nat take_bit_eq_mod) (simp add: mod_mult_self3)
  ultimately show ?case using snoc by (simp add: be_digits_Suc big_endian_snoc)
qed (simp add: be_digits_def)

lemma big_endian_of_digits: "big_endian (be_digits n N) = N mod 256 ^ n"
proof (induction n arbitrary: N)
  case (Suc n)
  have "unat (word_of_nat N :: byte) = N mod 256" by (simp add: unat_of_nat take_bit_eq_mod)
  then show ?case
    using Suc [of "N div 256"] by (simp add: be_digits_Suc big_endian_snoc mod_mult2_eq)
qed (simp add: be_digits_def big_endian_def)

lemma uuid_bytes_of_bytes: "length b = 16 \<Longrightarrow> uuid_bytes (uuid_of_bytes b) = b"
proof -
  assume len: "length b = 16"
  have "big_endian b < 2 ^ 128" using big_endian_less [of b] len by simp
  then have "unat (uuid_of_bytes b) = big_endian b"
    by (simp add: uuid_of_bytes_def unat_of_nat take_bit_nat_eq_self)
  then show ?thesis using big_endian_digits [of b] by (simp add: uuid_bytes_def len)
qed

lemma uuid_of_bytes_bytes: "uuid_of_bytes (uuid_bytes u) = u"
proof -
  have "unat u < 256 ^ 16" using unsigned_less [of u] by simp
  then show ?thesis by (simp add: uuid_of_bytes_def uuid_bytes_def big_endian_of_digits)
qed

lemma uuid_bytes_inj: "uuid_bytes u = uuid_bytes v \<longleftrightarrow> u = v"
  by (metis uuid_of_bytes_bytes)

lemma uuid_bytes_0: "uuid_bytes 0 = replicate 16 0"
  by (simp add: uuid_bytes_def be_digits_def map_replicate_const)

section \<open>Text\<close>

definition hex_digit :: "nat \<Rightarrow> char" where
  "hex_digit n = ''0123456789abcdef'' ! n"

definition is_hex :: "char \<Rightarrow> bool" where
  "is_hex c \<longleftrightarrow> c \<in> set ''0123456789abcdef''"

text \<open>\<open>hex.EncodeToString\<close>.\<close>

definition hex_encode :: "bytes \<Rightarrow> string" where
  "hex_encode b = concat (map (\<lambda>x. [hex_digit (unat x div 16), hex_digit (unat x mod 16)]) b)"

text \<open>\<open>uuid.UUID.String\<close>: groups of 8, 4, 4, 4 and 12 digits.\<close>

definition uuid_text :: "uuid \<Rightarrow> string" where
  "uuid_text u =
     (let h = hex_encode (uuid_bytes u)
      in take 8 h @ ''-'' @ take 4 (drop 8 h) @ ''-'' @ take 4 (drop 12 h) @ ''-'' @ take 4 (drop 16 h) @ ''-'' @ drop 20 h)"

lemma hex_digit_inj: "a < 16 \<Longrightarrow> b < 16 \<Longrightarrow> hex_digit a = hex_digit b \<Longrightarrow> a = b"
proof -
  have "distinct ''0123456789abcdef''" by simp
  moreover assume "a < 16" "b < 16" "hex_digit a = hex_digit b"
  ultimately show "a = b" unfolding hex_digit_def by (subst (asm) nth_eq_iff_index_eq) simp_all
qed

lemma hex_digit_is_hex: "a < 16 \<Longrightarrow> is_hex (hex_digit a)"
  unfolding is_hex_def hex_digit_def by (rule nth_mem) simp

lemma length_hex_encode [simp]: "length (hex_encode b) = 2 * length b"
  by (induction b) (simp_all add: hex_encode_def)

lemma hex_encode_is_hex: "c \<in> set (hex_encode b) \<Longrightarrow> is_hex c"
proof -
  have "unat (x :: byte) div 16 < 16" "unat x mod 16 < 16" for x
    using unat_8_less [of x] by simp_all
  then show "c \<in> set (hex_encode b) \<Longrightarrow> is_hex c"
    by (auto simp: hex_encode_def intro: hex_digit_is_hex)
qed

lemma hex_encode_inj: "hex_encode a = hex_encode b \<Longrightarrow> a = b"
proof (induction a arbitrary: b)
  case Nil
  then show ?case by (cases b) (simp_all add: hex_encode_def)
next
  case (Cons x a)
  obtain y b' where b: "b = y # b'" using Cons.prems by (cases b) (simp_all add: hex_encode_def)
  have e: "hex_digit (unat x div 16) = hex_digit (unat y div 16)" "hex_digit (unat x mod 16) = hex_digit (unat y mod 16)"
      "hex_encode a = hex_encode b'"
    using Cons.prems by (simp_all add: b hex_encode_def)
  have "unat x div 16 < 16" "unat y div 16 < 16" using unat_8_less [of x] unat_8_less [of y] by simp_all
  then have "unat x div 16 = unat y div 16" "unat x mod 16 = unat y mod 16"
    using e hex_digit_inj by (blast, metis hex_digit_inj mod_less_divisor zero_less_numeral)
  then have "unat x = unat y" by (metis div_mult_mod_eq)
  then show ?case using Cons.IH [OF e(3)] by (simp add: b word_unat_eq_iff)
qed

lemma uuid_text_chars: "c \<in> set (uuid_text u) \<Longrightarrow> is_hex c \<or> c = CHR ''-''"
  by (auto simp: uuid_text_def Let_def dest!: in_set_takeD in_set_dropD hex_encode_is_hex)

lemma uuid_text_inj: "uuid_text u = uuid_text v \<longleftrightarrow> u = v"
proof
  assume eq: "uuid_text u = uuid_text v"
  have split: "h = take 8 h @ take 4 (drop 8 h) @ take 4 (drop 12 h) @ take 4 (drop 16 h) @ drop 20 h" for h :: string
  proof -
    have "drop 8 h = take 4 (drop 8 h) @ drop 12 h" "drop 12 h = take 4 (drop 12 h) @ drop 16 h"
      "drop 16 h = take 4 (drop 16 h) @ drop 20 h"
      using append_take_drop_id [of 4 "drop 8 h"] append_take_drop_id [of 4 "drop 12 h"]
        append_take_drop_id [of 4 "drop 16 h"] by simp_all
    then show ?thesis using append_take_drop_id [of 8 h] by (simp only: append_assoc)
  qed
  define h k where "h = hex_encode (uuid_bytes u)" and "k = hex_encode (uuid_bytes v)"
  have l: "length h = 32" "length k = 32" by (simp_all add: h_def k_def)
  have "take 8 h @ ''-'' @ take 4 (drop 8 h) @ ''-'' @ take 4 (drop 12 h) @ ''-'' @ take 4 (drop 16 h) @ ''-'' @ drop 20 h =
      take 8 k @ ''-'' @ take 4 (drop 8 k) @ ''-'' @ take 4 (drop 12 k) @ ''-'' @ take 4 (drop 16 k) @ ''-'' @ drop 20 k"
    using eq by (simp add: uuid_text_def Let_def h_def k_def)
  then have "take 8 h = take 8 k" "take 4 (drop 8 h) = take 4 (drop 8 k)" "take 4 (drop 12 h) = take 4 (drop 12 k)"
      "take 4 (drop 16 h) = take 4 (drop 16 k)" "drop 20 h = drop 20 k"
    using l by simp_all
  then have "h = k" by (subst split [of h], subst split [of k]) simp
  then have "hex_encode (uuid_bytes u) = hex_encode (uuid_bytes v)" by (simp add: h_def k_def)
  then show "u = v" by (metis hex_encode_inj uuid_bytes_inj)
qed simp

lemma uuid_text_nonempty: "uuid_text u \<noteq> []"
  by (simp add: uuid_text_def Let_def)

end
