(* ===== verification/Passkey_Service.thy ===== *)
theory Passkey_Service
  imports Passkey_Store Go_Strings Go_Uuid
begin

text \<open>
  The passkey service, \<open>identity/app/webauthn.go\<close>, and the derivation of user handles,
  \<open>identity/app/webauthn_user_handle.go\<close>. The WebAuthn library
  (\<open>github.com/go-webauthn/webauthn\<close>) is a parameter: its ceremonies, its opaque session
  data and parsed responses. HMAC-SHA256 is a parameter of the deriver.

  The theory proves whom a passkey login can name, that a registered passkey logs its member
  in, what a nickname can be, and that a stored credential reads back as the library made it.
\<close>

section \<open>User handles\<close>

record handle_deriver =
  hd_mac :: "bytes \<Rightarrow> bytes \<Rightarrow> bytes"   \<comment> \<open>HMAC-SHA256 of a key and a message\<close>
  hd_key :: bytes

definition NewWebAuthnUserHandleDeriver :: "(bytes \<Rightarrow> bytes \<Rightarrow> bytes) \<Rightarrow> bytes \<Rightarrow> handle_deriver option" where
  "NewWebAuthnUserHandleDeriver mac key = (if key = [] then None else Some \<lparr>hd_mac = mac, hd_key = key\<rparr>)"

definition NewWebAuthnUserHandleDeriverFromSecret ::
    "(bytes \<Rightarrow> bytes \<Rightarrow> bytes) \<Rightarrow> bytes \<Rightarrow> string \<Rightarrow> handle_deriver option" where
  "NewWebAuthnUserHandleDeriverFromSecret mac secret purpose =
     (if secret = [] then None
      else if purpose = [] then None
      else NewWebAuthnUserHandleDeriver mac (mac secret (bytes_of purpose)))"

definition Derive :: "handle_deriver \<Rightarrow> member_id \<Rightarrow> bytes" where
  "Derive d m = hd_mac d (hd_key d) (uuid_bytes (mid m))"

section \<open>Nicknames\<close>

definition defaultCredentialNickname :: string where "defaultCredentialNickname = ''Passkey''"
definition maxCredentialNicknameLen :: nat where "maxCredentialNicknameLen = 64"

definition normalizeNickname :: "string \<Rightarrow> string" where
  "normalizeNickname nickname =
     (let nickname = trim_space nickname
      in if nickname = [] then defaultCredentialNickname
         else let rs = map fst (runes nickname)
              in if length rs > maxCredentialNicknameLen
                 then concat (map encode_rune (take maxCredentialNicknameLen rs))
                 else nickname)"

section \<open>The library's types\<close>

datatype requirement = VerificationRequired | Preferred | Discouraged

definition webauthnRegistrationResidentKey :: requirement where "webauthnRegistrationResidentKey = Preferred"
definition webauthnUserVerification :: requirement where "webauthnUserVerification = VerificationRequired"

record wa_credential =
  wa_id :: bytes
  wa_public_key :: bytes
  wa_transports :: "string list"
  wa_aaguid :: bytes
  wa_sign_count :: "32 word"

record webauthn_user =
  wu_id :: bytes
  wu_display_name :: string
  wu_credentials :: "wa_credential list"

record registration_options =
  ro_resident_key :: requirement
  ro_require_resident_key :: bool
  ro_user_verification :: requirement
  ro_exclusions :: "wa_credential list"

text \<open>
  A ceremony may fail for reasons of its own. \<open>wl_validate\<close> is \<open>ValidatePasskeyLogin\<close>: it fails
  outright or asks the handler once, for the response's user handle, and then decides on the
  user the handler found; a handler's error makes it fail.
\<close>

record ('ses, 'opt, 'cr, 'ar) webauthn_lib =
  wl_begin_registration ::
    "webauthn_user \<Rightarrow> registration_options \<Rightarrow> time \<Rightarrow> bytes \<Rightarrow> (('opt \<times> 'ses) \<times> bytes) option"
  wl_create_credential :: "webauthn_user \<Rightarrow> time \<Rightarrow> 'ses \<Rightarrow> 'cr \<Rightarrow> wa_credential option"
  wl_begin_login :: "requirement \<Rightarrow> time \<Rightarrow> bytes \<Rightarrow> (('opt \<times> 'ses) \<times> bytes) option"
  wl_validate :: "time \<Rightarrow> 'ses \<Rightarrow> 'ar \<Rightarrow> (bytes \<times> (webauthn_user \<Rightarrow> wa_credential option)) option"
  wl_raw_id :: "'ar \<Rightarrow> bytes"
  wl_counter :: "'ar \<Rightarrow> 32 word"

section \<open>Conversions\<close>

definition toWebAuthnCredential :: "webauthn_credential \<Rightarrow> wa_credential" where
  "toWebAuthnCredential c =
     \<lparr>wa_id = wc_credential_id c, wa_public_key = wc_public_key c,
      wa_transports = (case wc_transports c of None \<Rightarrow> [] | Some ts \<Rightarrow> ts),
      wa_aaguid = (case wc_aaguid c of None \<Rightarrow> [] | Some u \<Rightarrow> uuid_bytes u),
      wa_sign_count = wc_sign_count c\<rparr>"

definition transportsToStrings :: "string list \<Rightarrow> string list option" where
  "transportsToStrings ts = (if ts = [] then None else Some ts)"

definition aaguidToUUID :: "bytes \<Rightarrow> uuid option" where
  "aaguidToUUID raw =
     (if length raw \<noteq> 16 then None
      else let i = uuid_of_bytes raw in if i = 0 then None else Some i)"

section \<open>The service\<close>

record 's passkey_repository =
  pr_list :: "household_id \<Rightarrow> member_id \<Rightarrow> 's \<Rightarrow> 's \<times> (id_error + webauthn_credential list)"
  pr_create :: "household_id \<Rightarrow> webauthn_credential \<Rightarrow> 's \<Rightarrow> 's \<times> (id_error + unit)"
  pr_rename :: "household_id \<Rightarrow> member_id \<Rightarrow> webauthn_credential_id \<Rightarrow> string \<Rightarrow> 's \<Rightarrow> 's \<times> (id_error + unit)"
  pr_delete :: "household_id \<Rightarrow> member_id \<Rightarrow> webauthn_credential_id \<Rightarrow> 's \<Rightarrow> 's \<times> (id_error + unit)"
  pr_find :: "bytes \<Rightarrow> 's \<Rightarrow> 's \<times> (id_error + member_id \<times> webauthn_credential list)"
  pr_after_assertion :: "bytes \<Rightarrow> 32 word \<Rightarrow> time \<Rightarrow> 's \<Rightarrow> 's \<times> (id_error + unit)"

record ('s, 'ses, 'opt, 'cr, 'ar) webauthn_service =
  ws_repo :: "'s passkey_repository"
  ws_lib :: "('ses, 'opt, 'cr, 'ar) webauthn_lib"
  ws_handles :: handle_deriver

text \<open>The warnings that tell an operator of a cloned authenticator, or of a defect.\<close>

datatype passkey_warning = Missing_credential member_id | Count_decreased member_id

record 's passkey_state =
  pk_store :: 's
  pk_now :: time
  pk_entropy :: bytes
  pk_ids :: "nat \<Rightarrow> uuid"     \<comment> \<open>what the id generator will return\<close>
  pk_ids_used :: nat
  pk_warnings :: "passkey_warning list"

definition on_pk :: "('s \<Rightarrow> 's \<times> 'a) \<Rightarrow> 's passkey_state \<Rightarrow> 's passkey_state \<times> 'a" where
  "on_pk f st = (case f (pk_store st) of (s, r) \<Rightarrow> (st\<lparr>pk_store := s\<rparr>, r))"

definition warn :: "passkey_warning \<Rightarrow> 's passkey_state \<Rightarrow> 's passkey_state" where
  "warn w st = st\<lparr>pk_warnings := pk_warnings st @ [w]\<rparr>"

definition NewWebAuthnService ::
    "'s passkey_repository option \<Rightarrow> ('ses, 'opt, 'cr, 'ar) webauthn_lib option \<Rightarrow> handle_deriver option \<Rightarrow>
     unit option \<Rightarrow> id_error + ('s, 'ses, 'opt, 'cr, 'ar) webauthn_service" where
  "NewWebAuthnService repo wa handles logger =
     (case repo of None \<Rightarrow> Inl ErrOther | Some repo \<Rightarrow>
       (case wa of None \<Rightarrow> Inl ErrOther | Some wa \<Rightarrow>
         (case handles of None \<Rightarrow> Inl ErrOther | Some handles \<Rightarrow>
           (case logger of None \<Rightarrow> Inl ErrOther | Some _ \<Rightarrow>
             Inr \<lparr>ws_repo = repo, ws_lib = wa, ws_handles = handles\<rparr>))))"

definition newUser ::
    "('s, 'ses, 'opt, 'cr, 'ar) webauthn_service \<Rightarrow> member_id \<Rightarrow> string \<Rightarrow> webauthn_credential list \<Rightarrow> webauthn_user" where
  "newUser svc m display_name existing =
     \<lparr>wu_id = Derive (ws_handles svc) m, wu_display_name = display_name,
      wu_credentials = map toWebAuthnCredential existing\<rparr>"

definition ListDevices where
  "ListDevices svc h m st = on_pk (pr_list (ws_repo svc) h m) st"

definition BeginRegistration ::
    "('s, 'ses, 'opt, 'cr, 'ar) webauthn_service \<Rightarrow> household_id \<Rightarrow> member_id \<Rightarrow> string \<Rightarrow> 's passkey_state \<Rightarrow>
     's passkey_state \<times> (id_error + 'opt \<times> 'ses)" where
  "BeginRegistration svc h m display_name st =
     (case on_pk (pr_list (ws_repo svc) h m) st of
        (st, Inl e) \<Rightarrow> (st, Inl e)
      | (st, Inr existing) \<Rightarrow>
          (let user = newUser svc m display_name existing
           in case wl_begin_registration (ws_lib svc) user
                     \<lparr>ro_resident_key = webauthnRegistrationResidentKey, ro_require_resident_key = False,
                      ro_user_verification = webauthnUserVerification, ro_exclusions = wu_credentials user\<rparr>
                     (pk_now st) (pk_entropy st) of
                None \<Rightarrow> (st, Inl ErrOther)
              | Some (r, e) \<Rightarrow> (st\<lparr>pk_entropy := e\<rparr>, Inr r)))"

definition FinishRegistration ::
    "('s, 'ses, 'opt, 'cr, 'ar) webauthn_service \<Rightarrow> member_id \<Rightarrow> household_id \<Rightarrow> string \<Rightarrow> string \<Rightarrow> 'ses \<Rightarrow> 'cr \<Rightarrow>
     's passkey_state \<Rightarrow> 's passkey_state \<times> (id_error + unit)" where
  "FinishRegistration svc m h display_name nickname session response st =
     (case on_pk (pr_list (ws_repo svc) h m) st of
        (st, Inl e) \<Rightarrow> (st, Inl e)
      | (st, Inr existing) \<Rightarrow>
          (let user = newUser svc m display_name existing
           in case wl_create_credential (ws_lib svc) user (pk_now st) session response of
                None \<Rightarrow> (st, Inl ErrWebAuthnVerificationFailed)
              | Some cred \<Rightarrow>
                  on_pk (pr_create (ws_repo svc) h
                     \<lparr>wc_id = WebAuthnCredentialID (pk_ids st (pk_ids_used st)), wc_member = m, wc_household = h,
                      wc_credential_id = wa_id cred, wc_public_key = wa_public_key cred,
                      wc_sign_count = wa_sign_count cred, wc_transports = transportsToStrings (wa_transports cred),
                      wc_aaguid = aaguidToUUID (wa_aaguid cred), wc_nickname = normalizeNickname nickname,
                      wc_user_handle = wu_id user, wc_created = zero_time, wc_last_used = None\<rparr>)
                    (st\<lparr>pk_ids_used := pk_ids_used st + 1\<rparr>)))"

definition Rename ::
    "('s, 'ses, 'opt, 'cr, 'ar) webauthn_service \<Rightarrow> household_id \<Rightarrow> member_id \<Rightarrow> webauthn_credential_id \<Rightarrow> string \<Rightarrow>
     's passkey_state \<Rightarrow> 's passkey_state \<times> (id_error + unit)" where
  "Rename svc h m i nickname st = on_pk (pr_rename (ws_repo svc) h m i (normalizeNickname nickname)) st"

definition Revoke ::
    "('s, 'ses, 'opt, 'cr, 'ar) webauthn_service \<Rightarrow> household_id \<Rightarrow> member_id \<Rightarrow> webauthn_credential_id \<Rightarrow>
     's passkey_state \<Rightarrow> 's passkey_state \<times> (id_error + unit)" where
  "Revoke svc h m i st = on_pk (pr_delete (ws_repo svc) h m i) st"

definition BeginLogin ::
    "('s, 'ses, 'opt, 'cr, 'ar) webauthn_service \<Rightarrow> 's passkey_state \<Rightarrow> 's passkey_state \<times> (id_error + 'opt \<times> 'ses)" where
  "BeginLogin svc st =
     (case wl_begin_login (ws_lib svc) webauthnUserVerification (pk_now st) (pk_entropy st) of
        None \<Rightarrow> (st, Inl ErrOther)
      | Some (r, e) \<Rightarrow> (st\<lparr>pk_entropy := e\<rparr>, Inr r))"

definition signCountSuspicious :: "32 word \<Rightarrow> 32 word \<Rightarrow> bool" where
  "signCountSuspicious new_count stored_count \<longleftrightarrow> new_count \<noteq> 0 \<and> new_count < stored_count"

text \<open>The loop that looks the asserted credential up.\<close>

fun stored_count_of :: "bytes \<Rightarrow> webauthn_credential list \<Rightarrow> (32 word) option" where
  "stored_count_of raw_id [] = None"
| "stored_count_of raw_id (c # cs) =
     (if wc_credential_id c = raw_id then Some (wc_sign_count c) else stored_count_of raw_id cs)"

definition applyAssertionResult ::
    "('s, 'ses, 'opt, 'cr, 'ar) webauthn_service \<Rightarrow> member_id \<Rightarrow> webauthn_credential list \<Rightarrow> 'ar \<Rightarrow>
     's passkey_state \<Rightarrow> 's passkey_state \<times> (id_error + unit)" where
  "applyAssertionResult svc m credentials response st =
     (let new_count = wl_counter (ws_lib svc) response;
          found = stored_count_of (wl_raw_id (ws_lib svc) response) credentials;
          stored_count = (case found of None \<Rightarrow> 0 | Some n \<Rightarrow> n);
          st = (if found = None then warn (Missing_credential m) st else st)
      in case on_pk (pr_after_assertion (ws_repo svc) (wl_raw_id (ws_lib svc) response) new_count (pk_now st)) st of
           (st, Inl e) \<Rightarrow> (st, Inl e)
         | (st, Inr _) \<Rightarrow>
             (if signCountSuspicious new_count stored_count then warn (Count_decreased m) st else st, Inr ()))"

definition FinishLogin ::
    "('s, 'ses, 'opt, 'cr, 'ar) webauthn_service \<Rightarrow> 'ses \<Rightarrow> 'ar \<Rightarrow> 's passkey_state \<Rightarrow>
     's passkey_state \<times> (id_error + member_id)" where
  "FinishLogin svc session response st =
     (case wl_validate (ws_lib svc) (pk_now st) session response of
        None \<Rightarrow> (st, Inl ErrWebAuthnVerificationFailed)
      | Some (handle, decide) \<Rightarrow>
          (case on_pk (pr_find (ws_repo svc) handle) st of
             (st, Inl e) \<Rightarrow> (st, Inl (if e = ErrMemberNotFound then ErrWebAuthnVerificationFailed else e))
           | (st, Inr r) \<Rightarrow>
               (case r of (m, creds) \<Rightarrow>
                 (case decide (newUser svc m [] creds) of
                    None \<Rightarrow> (st, Inl ErrWebAuthnVerificationFailed)
                  | Some _ \<Rightarrow>
                      (case applyAssertionResult svc m creds response st of
                         (st, Inl e) \<Rightarrow> (st, Inl e)
                       | (st, Inr _) \<Rightarrow> (st, Inr m))))))"

section \<open>Nicknames are bounded\<close>

text \<open>A nickname that reaches the repository is never empty and has at most 64 characters; it
  is the trimmed input, or the default for a blank one, cut after 64 characters.\<close>

theorem nickname_bounded:
  "normalizeNickname n \<noteq> [] \<and> rune_count (normalizeNickname n) \<le> 64 \<and>
   map fst (runes (normalizeNickname n)) =
     take 64 (map fst (runes (if trim_space n = [] then ''Passkey'' else trim_space n)))"
proof -
  let ?rs = "map fst (runes (trim_space n))"
  have cut: "map fst (runes (concat (map encode_rune (take 64 ?rs)))) = take 64 ?rs"
    by (rule runes_concat_encode) (auto dest!: in_set_takeD runes_valid)
  have ne: "rs \<noteq> [] \<Longrightarrow> concat (map encode_rune rs) \<noteq> []" for rs
    using encode_rune_nonempty by (cases rs) auto
  have pk: "rune_count ''Passkey'' \<le> 64" "map fst (runes ''Passkey'') = take 64 (map fst (runes ''Passkey''))"
    by (simp_all add: rune_count_def runes_ascii is_ascii_def)
  have len: "rune_count s = length (map fst (runes s))" for s by (simp add: rune_count_def)
  show ?thesis
  proof (cases "trim_space n = []")
    case True
    then show ?thesis using pk by (simp add: normalizeNickname_def defaultCredentialNickname_def)
  next
    case False
    show ?thesis
    proof (cases "length ?rs > 64")
      case True
      then have "normalizeNickname n = concat (map encode_rune (take 64 ?rs))"
        using False by (simp add: normalizeNickname_def maxCredentialNicknameLen_def Let_def)
      moreover have "take 64 ?rs \<noteq> []" using True by auto
      ultimately show ?thesis using cut ne [of "take 64 ?rs"] False by (simp add: len)
    next
      case False
      then have "normalizeNickname n = trim_space n"
        using \<open>trim_space n \<noteq> []\<close> by (simp add: normalizeNickname_def maxCredentialNicknameLen_def Let_def)
      then show ?thesis using False \<open>trim_space n \<noteq> []\<close> by (simp add: len)
    qed
  qed
qed

section \<open>The repository's contract\<close>

text \<open>
  \<open>holds s c\<close>: the credential \<open>c\<close> is on file; \<open>calm s\<close>: the store answers, now and for the next
  calls. \<open>same_passkey\<close> is what filing keeps of the credential it is given.
\<close>

definition same_passkey :: "webauthn_credential \<Rightarrow> webauthn_credential \<Rightarrow> bool" where
  "same_passkey c c' \<longleftrightarrow>
     wc_id c' = wc_id c \<and> wc_member c' = wc_member c \<and> wc_credential_id c' = wc_credential_id c \<and>
     wc_public_key c' = wc_public_key c \<and> wc_sign_count c' = wc_sign_count c \<and> wc_transports c' = wc_transports c \<and>
     wc_aaguid c' = wc_aaguid c \<and> wc_nickname c' = wc_nickname c \<and> wc_user_handle c' = wc_user_handle c"

locale passkey_contract =
  fixes repo :: "'s passkey_repository"
    and holds :: "'s \<Rightarrow> webauthn_credential \<Rightarrow> bool"
    and calm :: "'s \<Rightarrow> bool"
  assumes list_keeps: "pr_list repo h m s = (s', r) \<Longrightarrow> holds s' = holds s \<and> (calm s \<longrightarrow> calm s')"
    and find_keeps: "pr_find repo handle s = (s', q) \<Longrightarrow> holds s' = holds s \<and> (calm s \<longrightarrow> calm s')"
    and find_sound: "pr_find repo handle s = (s', Inr (m, cs)) \<Longrightarrow> c \<in> set cs \<Longrightarrow>
      holds s c \<and> wc_member c = m \<and> wc_user_handle c = handle"
    and find_complete: "calm s \<Longrightarrow> holds s c \<Longrightarrow>
      (\<And>c'. holds s c' \<Longrightarrow> wc_user_handle c' = wc_user_handle c \<Longrightarrow> wc_member c' = wc_member c) \<Longrightarrow>
      \<exists>cs. snd (pr_find repo (wc_user_handle c) s) = Inr (wc_member c, cs) \<and> c \<in> set cs"
    and create_files: "pr_create repo h c s = (s', Inr ()) \<Longrightarrow>
      \<exists>c'. same_passkey c c' \<and> wc_household c' = h \<and> holds s' c' \<and> (\<forall>x. holds s' x \<longrightarrow> x = c' \<or> holds s x) \<and> (calm s \<longrightarrow> calm s')"
    and after_known: "calm s \<Longrightarrow> holds s c \<Longrightarrow> snd (pr_after_assertion repo (wc_credential_id c) n used s) = Inr ()"

text \<open>What the service relies on of the library: a login it accepts carries the user's own handle
  and an assertion by one of the user's credentials, which \<open>verifies\<close> under its public key.\<close>

definition webauthn_ok ::
    "('ses, 'opt, 'cr, 'ar) webauthn_lib \<Rightarrow> (bytes \<Rightarrow> 'ses \<Rightarrow> 'ar \<Rightarrow> bool) \<Rightarrow> bool" where
  "webauthn_ok lib verifies \<longleftrightarrow>
     (\<forall>now session response handle decide user cred.
        wl_validate lib now session response = Some (handle, decide) \<and> decide user = Some cred \<longrightarrow>
        wu_id user = handle \<and>
        (\<exists>k \<in> set (wu_credentials user). wa_id k = wl_raw_id lib response \<and> verifies (wa_public_key k) session response))"

context passkey_contract
begin

lemma finish_login_Inr:
  assumes svc: "ws_repo svc = repo" and lib: "webauthn_ok (ws_lib svc) verifies"
    and fin: "FinishLogin svc session response st = (st', Inr m)"
  shows "\<exists>c. holds (pk_store st) c \<and> wc_member c = m \<and> wc_credential_id c = wl_raw_id (ws_lib svc) response \<and>
      wc_user_handle c = Derive (ws_handles svc) m \<and> verifies (wc_public_key c) session response"
proof -
  obtain handle decide where v: "wl_validate (ws_lib svc) (pk_now st) session response = Some (handle, decide)"
    using fin by (auto simp: FinishLogin_def split: option.splits)
  obtain s1 r where f: "pr_find repo handle (pk_store st) = (s1, r)" by fastforce
  obtain m' cs where r: "r = Inr (m', cs)"
    using fin v f svc by (cases r) (auto simp: FinishLogin_def on_pk_def)
  obtain cred where d: "decide (newUser svc m' [] cs) = Some cred"
    using fin v f r svc by (auto simp: FinishLogin_def on_pk_def split: option.splits)
  have "m' = m"
    using fin v f r svc d by (auto simp: FinishLogin_def on_pk_def split: prod.splits sum.splits)
  obtain k where k: "wu_id (newUser svc m' [] cs) = handle" "k \<in> set (wu_credentials (newUser svc m' [] cs))"
      "wa_id k = wl_raw_id (ws_lib svc) response" "verifies (wa_public_key k) session response"
    using lib v d unfolding webauthn_ok_def by blast
  obtain c where c: "c \<in> set cs" "k = toWebAuthnCredential c" using k(2) by (auto simp: newUser_def)
  have "holds (pk_store st) c \<and> wc_member c = m' \<and> wc_user_handle c = handle"
    using find_sound [OF f [unfolded r] c(1)] .
  with k c(2) \<open>m' = m\<close> show ?thesis
    by (auto simp: newUser_def toWebAuthnCredential_def)
qed

lemma finish_registration_Inr:
  assumes svc: "ws_repo svc = repo"
    and fin: "FinishRegistration svc m h dn nick session response st = (st', Inr ())"
  obtains user cred c where
    "wl_create_credential (ws_lib svc) user (pk_now st) session response = Some cred"
    "wu_id user = Derive (ws_handles svc) m"
    "holds (pk_store st') c" "wc_member c = m" "wc_household c = h" "wc_user_handle c = Derive (ws_handles svc) m"
    "wc_credential_id c = wa_id cred" "wc_public_key c = wa_public_key cred" "wc_sign_count c = wa_sign_count cred"
    "wc_transports c = transportsToStrings (wa_transports cred)" "wc_aaguid c = aaguidToUUID (wa_aaguid cred)"
    "wc_nickname c = normalizeNickname nick"
    "\<forall>x. holds (pk_store st') x \<longrightarrow> x = c \<or> holds (pk_store st) x" "calm (pk_store st) \<longrightarrow> calm (pk_store st')"
proof -
  obtain s1 r where l: "pr_list repo h m (pk_store st) = (s1, r)" by fastforce
  obtain existing where r: "r = Inr existing"
    using fin l svc by (cases r) (auto simp: FinishRegistration_def on_pk_def)
  obtain cred where cred: "wl_create_credential (ws_lib svc) (newUser svc m dn existing) (pk_now st) session response = Some cred"
    using fin l r svc by (auto simp: FinishRegistration_def on_pk_def Let_def split: option.splits)
  define c0 where "c0 = \<lparr>wc_id = WebAuthnCredentialID (pk_ids st (pk_ids_used st)), wc_member = m, wc_household = h,
      wc_credential_id = wa_id cred, wc_public_key = wa_public_key cred,
      wc_sign_count = wa_sign_count cred, wc_transports = transportsToStrings (wa_transports cred),
      wc_aaguid = aaguidToUUID (wa_aaguid cred), wc_nickname = normalizeNickname nick,
      wc_user_handle = Derive (ws_handles svc) m, wc_created = zero_time, wc_last_used = None\<rparr>"
  obtain s2 r2 where cr: "pr_create repo h c0 s1 = (s2, r2)" by fastforce
  have st': "pk_store st' = s2" "r2 = Inr ()"
    using fin l r cred cr svc by (auto simp: FinishRegistration_def on_pk_def Let_def newUser_def c0_def)
  obtain c where c: "same_passkey c0 c" "wc_household c = h" "holds s2 c" "\<And>x. holds s2 x \<Longrightarrow> x = c \<or> holds s1 x"
      "calm s1 \<Longrightarrow> calm s2"
    using create_files [OF cr [unfolded st'(2)]] by blast
  have s1: "holds s1 = holds (pk_store st)" "calm (pk_store st) \<Longrightarrow> calm s1" using list_keeps [OF l] by simp_all
  show thesis
  proof (rule that [OF cred])
    show "wu_id (newUser svc m dn existing) = Derive (ws_handles svc) m" by (simp add: newUser_def)
  qed (use c s1 st' in \<open>auto simp: same_passkey_def c0_def\<close>)
qed

text \<open>A credential on file logs its member in, when no one else has its handle and the library
  accepts a user who carries it.\<close>

lemma held_passkey_logs_in:
  assumes svc: "ws_repo svc = repo" and calm: "calm (pk_store st)" and c: "holds (pk_store st) c"
    and handle: "wc_user_handle c = Derive (ws_handles svc) (wc_member c)"
    and alone: "\<And>x. holds (pk_store st) x \<Longrightarrow> wc_user_handle x = wc_user_handle c \<Longrightarrow> wc_member x = wc_member c"
    and v: "wl_validate (ws_lib svc) (pk_now st) session response = Some (wc_user_handle c, decide)"
    and acc: "\<And>user. wu_id user = wc_user_handle c \<Longrightarrow> toWebAuthnCredential c \<in> set (wu_credentials user) \<Longrightarrow>
      decide user \<noteq> None"
    and raw: "wl_raw_id (ws_lib svc) response = wc_credential_id c"
  shows "snd (FinishLogin svc session response st) = Inr (wc_member c)"
proof -
  obtain cs where cs: "snd (pr_find repo (wc_user_handle c) (pk_store st)) = Inr (wc_member c, cs)" "c \<in> set cs"
    using find_complete [OF calm c alone] by blast
  then obtain s1 where f: "pr_find repo (wc_user_handle c) (pk_store st) = (s1, Inr (wc_member c, cs))"
    by (metis prod.collapse)
  have s1: "holds s1 c" "calm s1" using find_keeps [OF f] c calm by simp_all
  obtain cred where d: "decide (newUser svc (wc_member c) [] cs) = Some cred"
    using acc [of "newUser svc (wc_member c) [] cs"] handle cs(2) by (auto simp: newUser_def)
  have "snd (applyAssertionResult svc (wc_member c) cs response (st\<lparr>pk_store := s1\<rparr>)) = Inr ()"
  proof -
    obtain s2 where "pr_after_assertion repo (wc_credential_id c) (wl_counter (ws_lib svc) response) (pk_now st) s1 = (s2, Inr ())"
      using after_known [OF s1(2,1)] by (metis prod.collapse)
    then show ?thesis
      using svc raw by (simp add: applyAssertionResult_def Let_def on_pk_def warn_def)
  qed
  then show ?thesis
    using v f d svc by (auto simp: FinishLogin_def on_pk_def split: prod.splits)
qed

end

section \<open>The repository of the model provides it\<close>

definition pg_passkeys :: "conn passkey_repository" where
  "pg_passkeys = \<lparr>pr_list = ListByMember, pr_create = Create_passkey, pr_rename = Rename_passkey,
     pr_delete = Delete_passkey, pr_find = FindByUserHandle, pr_after_assertion = UpdateAfterAssertion\<rparr>"

definition pg_holds :: "conn \<Rightarrow> webauthn_credential \<Rightarrow> bool" where
  "pg_holds s c \<longleftrightarrow> (\<exists>r \<in> set (passkeys (db s)). scan_passkey (MemberID (k_member r)) r = Some c)"

text \<open>The counts in the table are those of 32-bit counters, as they are when the service wrote them.\<close>

definition counts_ok :: "identity_db \<Rightarrow> bool" where
  "counts_ok d \<longleftrightarrow> (\<forall>r \<in> set (passkeys d). 0 \<le> k_sign_count r \<and> k_sign_count r < 2 ^ 32)"

definition pg_calm :: "conn \<Rightarrow> bool" where
  "pg_calm s \<longleftrightarrow> faults s = [] \<and> counts_ok (db s)"

lemma collect_sound:
  assumes "collect_handle rows m0 creds0 = Some (m, creds)" and "\<forall>c \<in> set creds0. wc_member c = m0"
  shows "\<forall>c \<in> set creds. wc_member c = m \<and> (c \<in> set creds0 \<or> (\<exists>r \<in> set rows. scan_passkey (MemberID (k_member r)) r = Some c))"
  using assms
proof (induction rows arbitrary: m0 creds0)
  case (Cons r rows)
  let ?p = "MemberID (k_member r)"
  obtain c where c: "scan_passkey ?p r = Some c" "creds0 = [] \<or> ?p = m0"
      "collect_handle rows ?p (creds0 @ [c]) = Some (m, creds)"
    using Cons.prems(1) by (auto simp: Let_def split: option.splits if_splits)
  have "wc_member c = ?p" using c(1) by (auto simp: scan_passkey_def split: if_splits)
  then have "\<forall>c' \<in> set (creds0 @ [c]). wc_member c' = ?p" using c(2) Cons.prems(2) by auto
  from Cons.IH [OF c(3) this] show ?case using c(1) by auto
qed simp

lemma collect_complete:
  assumes "\<forall>r \<in> set rows. \<exists>c. scan_passkey (MemberID (k_member r)) r = Some c"
    and "\<forall>r \<in> set rows. MemberID (k_member r) = m" and "creds0 = [] \<or> m0 = m" and "rows \<noteq> [] \<or> m0 = m"
  shows "\<exists>creds. collect_handle rows m0 creds0 = Some (m, creds0 @ creds) \<and>
    set creds = {c. \<exists>r \<in> set rows. scan_passkey (MemberID (k_member r)) r = Some c}"
  using assms
proof (induction rows arbitrary: m0 creds0)
  case (Cons r rows)
  obtain c where c: "scan_passkey (MemberID (k_member r)) r = Some c" using Cons.prems(1) by auto
  have m: "MemberID (k_member r) = m" using Cons.prems(2) by simp
  obtain creds where "collect_handle rows m (creds0 @ [c]) = Some (m, (creds0 @ [c]) @ creds)"
      "set creds = {c. \<exists>r \<in> set rows. scan_passkey (MemberID (k_member r)) r = Some c}"
    using Cons.IH [of "creds0 @ [c]" m] Cons.prems(1,2) by auto
  then show ?case using c m Cons.prems(3) by (intro exI [of _ "c # creds"]) auto
qed simp

lemma pg_holds_cong: "passkeys (db s') = passkeys (db s) \<Longrightarrow> pg_holds s' = pg_holds s"
  by (simp add: pg_holds_def fun_eq_iff)

lemma scan_total: "counts_ok d \<Longrightarrow> r \<in> set (passkeys d) \<Longrightarrow> \<exists>c. scan_passkey m r = Some c"
  by (auto simp: counts_ok_def scan_passkey_def)

lemma list_reads:
  assumes "ListByMember h m s = (s', r)"
  shows "db s' = db s \<and> (faults s = [] \<longrightarrow> faults s' = [])"
proof -
  obtain s1 q where q: "run_sql (select (\<lambda>d. sort_key passkey_order
      (filter (\<lambda>r. k_member r = mid m \<and> k_household r = hid h) (passkeys d)))) s = (s1, q)"
    by fastforce
  then have "s' = s1" using assms by (cases q) (auto simp: ListByMember_def)
  with select_db [OF q] run_sql_no_faults_left [OF _ q] show ?thesis by simp
qed

lemma find_reads:
  assumes "FindByUserHandle handle s = (s', r)"
  shows "db s' = db s \<and> (faults s = [] \<longrightarrow> faults s' = [])"
    and "r = Inr (m, cs) \<Longrightarrow>
      collect_handle (sort_key passkey_order (filter (\<lambda>r. k_user_handle r = handle) (passkeys (db s)))) (MemberID 0) [] = Some (m, cs)"
proof -
  obtain s1 q where q: "run_sql (select (\<lambda>d. sort_key passkey_order
      (filter (\<lambda>r. k_user_handle r = handle) (passkeys d)))) s = (s1, q)"
    by fastforce
  then have "s' = s1" using assms by (cases q) (auto simp: FindByUserHandle_def split: option.splits if_splits)
  with select_db [OF q] run_sql_no_faults_left [OF _ q]
  show "db s' = db s \<and> (faults s = [] \<longrightarrow> faults s' = [])" by simp
  assume "r = Inr (m, cs)"
  with q assms obtain rows where "q = Inr rows" "collect_handle rows (MemberID 0) [] = Some (m, cs)"
    by (cases q) (auto simp: FindByUserHandle_def split: option.splits if_splits)
  then show "collect_handle (sort_key passkey_order (filter (\<lambda>r. k_user_handle r = handle) (passkeys (db s)))) (MemberID 0) [] = Some (m, cs)"
    using select_Inr [OF q [unfolded \<open>q = Inr rows\<close>]] by simp
qed

lemma find_held:
  assumes calm: "pg_calm s" and c: "pg_holds s c"
    and alone: "\<And>c'. pg_holds s c' \<Longrightarrow> wc_user_handle c' = wc_user_handle c \<Longrightarrow> wc_member c' = wc_member c"
  shows "\<exists>cs. snd (FindByUserHandle (wc_user_handle c) s) = Inr (wc_member c, cs) \<and> c \<in> set cs"
proof -
  define rows where "rows = sort_key passkey_order (filter (\<lambda>r. k_user_handle r = wc_user_handle c) (passkeys (db s)))"
  have total: "\<exists>c'. scan_passkey (MemberID (k_member r)) r = Some c'" if "r \<in> set (passkeys (db s))" for r
    using scan_total [OF _ that] calm by (simp add: pg_calm_def)
  obtain r where r: "r \<in> set (passkeys (db s))" "scan_passkey (MemberID (k_member r)) r = Some c"
    using c by (auto simp: pg_holds_def)
  have "k_user_handle r = wc_user_handle c" using r(2) by (auto simp: scan_passkey_def split: if_splits)
  then have rr: "r \<in> set rows" using r(1) by (simp add: rows_def)
  have same: "MemberID (k_member q) = wc_member c" if q: "q \<in> set rows" for q
  proof -
    have q': "q \<in> set (passkeys (db s))" "k_user_handle q = wc_user_handle c" using q by (simp_all add: rows_def)
    obtain c' where c': "scan_passkey (MemberID (k_member q)) q = Some c'" using total [OF q'(1)] by blast
    then have "wc_user_handle c' = wc_user_handle c" "wc_member c' = MemberID (k_member q)"
      using q'(2) by (auto simp: scan_passkey_def split: if_splits)
    moreover have "pg_holds s c'" using q'(1) c' by (auto simp: pg_holds_def)
    ultimately show ?thesis using alone by metis
  qed
  have "\<exists>creds. collect_handle rows (MemberID 0) [] = Some (wc_member c, [] @ creds) \<and>
      set creds = {c. \<exists>r \<in> set rows. scan_passkey (MemberID (k_member r)) r = Some c}"
  proof (rule collect_complete)
    show "\<forall>r \<in> set rows. \<exists>c. scan_passkey (MemberID (k_member r)) r = Some c"
      using total by (simp add: rows_def)
  qed (use same rr in auto)
  then obtain creds where creds: "collect_handle rows (MemberID 0) [] = Some (wc_member c, creds)"
      "set creds = {c. \<exists>r \<in> set rows. scan_passkey (MemberID (k_member r)) r = Some c}"
    by auto
  have "c \<in> set creds" using creds(2) rr r(2) by blast
  moreover have "snd (FindByUserHandle (wc_user_handle c) s) = Inr (wc_member c, creds)"
    using calm creds(1) \<open>c \<in> set creds\<close>
    by (auto simp: FindByUserHandle_def pg_calm_def run_sql_no_faults select_def rows_def)
  ultimately show ?thesis by blast
qed

lemma create_files_pg:
  assumes "Create_passkey h c s = (s', Inr ())"
  shows "\<exists>c'. same_passkey c c' \<and> wc_household c' = h \<and> pg_holds s' c' \<and>
    (\<forall>x. pg_holds s' x \<longrightarrow> x = c' \<or> pg_holds s x) \<and> (pg_calm s \<longrightarrow> pg_calm s')"
proof -
  obtain q where q: "run_sql (sql_insert_passkey h c) s = (s', q)" "q = Inr ()"
    using assms by (auto simp: Create_passkey_def split: prod.splits sum.splits)
  define row where "row = \<lparr>k_id = wid (wc_id c), k_household = hid h, k_member = mid (wc_member c),
      k_credential_id = wc_credential_id c, k_public_key = wc_public_key c,
      k_sign_count = uint (wc_sign_count c), k_transports = wc_transports c,
      k_aaguid = wc_aaguid c, k_nickname = wc_nickname c, k_user_handle = wc_user_handle c,
      k_created = clock s, k_last_used = None\<rparr>"
  have "db s\<lparr>passkeys := passkeys (db s) @ [row]\<rparr> = db s'"
    using run_sql_Inr [OF q(1) [unfolded q(2)]]
    by (auto simp: sql_insert_passkey_def insert_passkey_def row_def [symmetric] split: sum.splits if_splits)
  then have rows: "passkeys (db s') = passkeys (db s) @ [row]"
    by (metis identity_db.select_convs(5) identity_db.surjective identity_db.update_convs(5))
  have wraps: "WebAuthnCredentialID (wid i) = i" "MemberID (mid j) = j" "HouseholdID (hid l) = l" for i j l
    by (cases i, simp, cases j, simp, cases l, simp)
  have u: "0 \<le> uint (wc_sign_count c)" "uint (wc_sign_count c) < 2 ^ 32"
    using uint_lt2p [of "wc_sign_count c"] by simp_all
  then obtain c' where c': "scan_passkey (MemberID (k_member row)) row = Some c'" "same_passkey c c'" "wc_household c' = h"
    by (simp add: scan_passkey_def row_def same_passkey_def wraps)
  have "pg_holds s' x \<longleftrightarrow> x = c' \<or> pg_holds s x" for x
    using c'(1) by (auto simp: pg_holds_def rows)
  moreover have "pg_calm s \<longrightarrow> pg_calm s'"
    using rows u run_sql_no_faults_left [OF _ q(1)] by (auto simp: pg_calm_def counts_ok_def row_def)
  ultimately show ?thesis using c'(2,3) by blast
qed

lemma after_held:
  assumes "pg_calm s" and "pg_holds s c"
  shows "snd (UpdateAfterAssertion (wc_credential_id c) n used s) = Inr ()"
proof -
  obtain r where r: "r \<in> set (passkeys (db s))" "scan_passkey (MemberID (k_member r)) r = Some c"
    using assms(2) by (auto simp: pg_holds_def)
  then have "k_credential_id r = wc_credential_id c" by (auto simp: scan_passkey_def split: if_splits)
  then have "list_ex (\<lambda>r. k_credential_id r = wc_credential_id c)
      (update_where P (\<lambda>r. r\<lparr>k_sign_count := i, k_last_used := t\<rparr>) (passkeys (db s)))" for P i t
  proof -
    have "k_credential_id ` set (update_where P (\<lambda>r. r\<lparr>k_sign_count := i, k_last_used := t\<rparr>) (passkeys (db s))) =
        k_credential_id ` set (passkeys (db s))"
      by (rule image_update_where) simp
    then have "k_credential_id r \<in> k_credential_id `
        set (update_where P (\<lambda>r. r\<lparr>k_sign_count := i, k_last_used := t\<rparr>) (passkeys (db s)))"
      using r(1) by simp
    with \<open>k_credential_id r = wc_credential_id c\<close> show ?thesis by (auto simp: list_ex_iff simp del: set_update_where)
  qed
  then show ?thesis
    using assms(1)
    by (simp add: UpdateAfterAssertion_def pg_calm_def run_sql_no_faults sql_after_assertion_def Let_def select_def)
qed

interpretation pg_pk: passkey_contract pg_passkeys pg_holds pg_calm
proof unfold_locales
  fix repo_h m s s' r
  assume "pr_list pg_passkeys repo_h m s = (s', r)"
  then have "ListByMember repo_h m s = (s', r)" by (simp add: pg_passkeys_def)
  note reads = list_reads [OF this]
  have "pg_holds s' = pg_holds s" by (rule pg_holds_cong) (use reads in simp)
  then show "pg_holds s' = pg_holds s \<and> (pg_calm s \<longrightarrow> pg_calm s')" using reads by (simp add: pg_calm_def)
next
  fix handle s s' q
  assume "pr_find pg_passkeys handle s = (s', q)"
  then have "FindByUserHandle handle s = (s', q)" by (simp add: pg_passkeys_def)
  note reads = find_reads(1) [OF this]
  have "pg_holds s' = pg_holds s" by (rule pg_holds_cong) (use reads in simp)
  then show "pg_holds s' = pg_holds s \<and> (pg_calm s \<longrightarrow> pg_calm s')" using reads by (simp add: pg_calm_def)
next
  fix handle s s' m cs c
  assume "pr_find pg_passkeys handle s = (s', Inr (m, cs))" and c: "c \<in> set cs"
  then have "FindByUserHandle handle s = (s', Inr (m, cs))" by (simp add: pg_passkeys_def)
  from collect_sound [OF find_reads(2) [OF this refl]] c
  obtain r where "r \<in> set (passkeys (db s))" "k_user_handle r = handle" "wc_member c = m"
      "scan_passkey (MemberID (k_member r)) r = Some c"
    by auto
  moreover from this have "wc_user_handle c = handle" by (auto simp: scan_passkey_def split: if_splits)
  ultimately show "pg_holds s c \<and> wc_member c = m \<and> wc_user_handle c = handle"
    by (auto simp: pg_holds_def)
next
  fix s c
  assume "pg_calm s" and "pg_holds s c"
    and "\<And>c'. pg_holds s c' \<Longrightarrow> wc_user_handle c' = wc_user_handle c \<Longrightarrow> wc_member c' = wc_member c"
  from find_held [OF this] show "\<exists>cs. snd (pr_find pg_passkeys (wc_user_handle c) s) = Inr (wc_member c, cs) \<and> c \<in> set cs"
    by (simp add: pg_passkeys_def)
next
  fix h c s s'
  assume "pr_create pg_passkeys h c s = (s', Inr ())"
  then have "Create_passkey h c s = (s', Inr ())" by (simp add: pg_passkeys_def)
  from create_files_pg [OF this]
  show "\<exists>c'. same_passkey c c' \<and> wc_household c' = h \<and> pg_holds s' c' \<and>
      (\<forall>x. pg_holds s' x \<longrightarrow> x = c' \<or> pg_holds s x) \<and> (pg_calm s \<longrightarrow> pg_calm s')" .
next
  fix s c n used
  assume "pg_calm s" and "pg_holds s c"
  from after_held [OF this] show "snd (pr_after_assertion pg_passkeys (wc_credential_id c) n used s) = Inr ()"
    by (simp add: pg_passkeys_def)
qed

section \<open>Stored credentials\<close>

text \<open>What storing keeps of a credential the library made: all of it, except that an authenticator
  model that is not sixteen bytes, or all zero, is stored as none.\<close>

definition stored_form :: "wa_credential \<Rightarrow> wa_credential" where
  "stored_form cred =
     cred\<lparr>wa_aaguid := if length (wa_aaguid cred) = 16 \<and> wa_aaguid cred \<noteq> replicate 16 0 then wa_aaguid cred else []\<rparr>"

lemma aaguid_roundtrip:
  "(case aaguidToUUID raw of None \<Rightarrow> [] | Some u \<Rightarrow> uuid_bytes u) =
     (if length raw = 16 \<and> raw \<noteq> replicate 16 0 then raw else [])"
proof (cases "length raw = 16")
  case True
  have "uuid_of_bytes raw = 0 \<longleftrightarrow> raw = replicate 16 0"
    using uuid_bytes_of_bytes [OF True] uuid_bytes_0 uuid_of_bytes_bytes [of 0] by metis
  then show ?thesis using True uuid_bytes_of_bytes by (simp add: aaguidToUUID_def Let_def)
qed (simp add: aaguidToUUID_def)

lemma stored_form_back:
  assumes "wc_credential_id c = wa_id cred" "wc_public_key c = wa_public_key cred" "wc_sign_count c = wa_sign_count cred"
    "wc_transports c = transportsToStrings (wa_transports cred)" "wc_aaguid c = aaguidToUUID (wa_aaguid cred)"
  shows "toWebAuthnCredential c = stored_form cred"
  using assms by (simp add: toWebAuthnCredential_def stored_form_def transportsToStrings_def aaguid_roundtrip)

section \<open>Whom a login names\<close>

text \<open>C16: a passkey login that succeeds, whatever the faults, names the owner of a passkey on file
  that has the asserted credential id, the user handle derived for that member, and a public
  key under which the assertion verifies for the pending session.\<close>

theorem passkey_login_names_owner:
  assumes "ws_repo svc = pg_passkeys" and "webauthn_ok (ws_lib svc) verifies"
    and "FinishLogin svc session response st = (st', Inr m)"
  shows "\<exists>r \<in> set (passkeys (db (pk_store st))).
    k_member r = mid m \<and> k_credential_id r = wl_raw_id (ws_lib svc) response \<and>
    k_user_handle r = Derive (ws_handles svc) m \<and> verifies (k_public_key r) session response"
proof -
  obtain c where c: "pg_holds (pk_store st) c" "wc_member c = m" "wc_credential_id c = wl_raw_id (ws_lib svc) response"
      "wc_user_handle c = Derive (ws_handles svc) m" "verifies (wc_public_key c) session response"
    using pg_pk.finish_login_Inr [OF assms] by blast
  then obtain r where "r \<in> set (passkeys (db (pk_store st)))" "scan_passkey (MemberID (k_member r)) r = Some c"
    by (auto simp: pg_holds_def)
  with c show ?thesis by (intro bexI [of _ r]) (auto simp: scan_passkey_def split: if_splits)
qed

text \<open>C17: a passkey that was registered logs its member in: once \<open>FinishRegistration\<close> has
  succeeded, \<open>FinishLogin\<close> on a working connection accepts, and names that member for, every
  assertion by this credential that the library accepts of a user who carries the credential
  as the library made it (its authenticator model aside when unknown).\<close>

theorem registered_passkey_logs_in:
  assumes "ws_repo svc = pg_passkeys" and "faults (pk_store st) = []" and "counts_ok (db (pk_store st))"
    and "\<And>r. r \<in> set (passkeys (db (pk_store st))) \<Longrightarrow> k_user_handle r = Derive (ws_handles svc) m \<Longrightarrow> k_member r = mid m"
    and "FinishRegistration svc m h dn nick session response st = (st', Inr ())"
    and "\<And>user. wl_create_credential (ws_lib svc) user (pk_now st) session response \<in> {None, Some cred}"
    and "wl_validate (ws_lib svc) (pk_now st') session' response' = Some (Derive (ws_handles svc) m, decide)"
    and "\<And>user. wu_id user = Derive (ws_handles svc) m \<Longrightarrow> stored_form cred \<in> set (wu_credentials user) \<Longrightarrow> decide user \<noteq> None"
    and "wl_raw_id (ws_lib svc) response' = wa_id cred"
  shows "snd (FinishLogin svc session' response' st') = Inr m"
proof -
  obtain user cred' c where *:
      "wl_create_credential (ws_lib svc) user (pk_now st) session response = Some cred'"
      "wu_id user = Derive (ws_handles svc) m"
      "pg_holds (pk_store st') c" "wc_member c = m" "wc_household c = h" "wc_user_handle c = Derive (ws_handles svc) m"
      "wc_credential_id c = wa_id cred'" "wc_public_key c = wa_public_key cred'" "wc_sign_count c = wa_sign_count cred'"
      "wc_transports c = transportsToStrings (wa_transports cred')" "wc_aaguid c = aaguidToUUID (wa_aaguid cred')"
      "wc_nickname c = normalizeNickname nick"
      "\<forall>x. pg_holds (pk_store st') x \<longrightarrow> x = c \<or> pg_holds (pk_store st) x"
      "pg_calm (pk_store st) \<longrightarrow> pg_calm (pk_store st')"
    by (rule pg_pk.finish_registration_Inr [OF assms(1,5)])
  have cred: "cred' = cred" using assms(6) [of user] *(1) by simp
  have alone: "wc_member x = m"
    if x: "pg_holds (pk_store st') x" "wc_user_handle x = Derive (ws_handles svc) m" for x
  proof (cases "x = c")
    case False
    then obtain r where r: "r \<in> set (passkeys (db (pk_store st)))" "scan_passkey (MemberID (k_member r)) r = Some x"
      using *(13) x(1) by (auto simp: pg_holds_def)
    then have "k_user_handle r = Derive (ws_handles svc) m" "wc_member x = MemberID (k_member r)"
      using x(2) by (auto simp: scan_passkey_def split: if_splits)
    with assms(4) [OF r(1)] show ?thesis by (cases m) simp
  qed (use *(4) in simp)
  have "snd (FinishLogin svc session' response' st') = Inr (wc_member c)"
  proof (rule pg_pk.held_passkey_logs_in [OF assms(1)])
    show "pg_calm (pk_store st')" using *(14) assms(2,3) by (simp add: pg_calm_def)
    show "toWebAuthnCredential c \<in> set (wu_credentials user) \<Longrightarrow> wu_id user = wc_user_handle c \<Longrightarrow> decide user \<noteq> None" for user
      using assms(8) stored_form_back [OF *(7-11)] *(6) cred by simp
  qed (use * assms(7,9) alone cred in simp_all)
  then show ?thesis using *(4) by simp
qed

section \<open>Inputs for the witnesses\<close>

text \<open>A response of the toy library is a credential id, a user handle and the key that signed it.\<close>

definition toy_webauthn :: "(unit, unit, wa_credential, bytes \<times> bytes \<times> bytes) webauthn_lib" where
  "toy_webauthn =
     \<lparr>wl_begin_registration = (\<lambda>_ _ _ e. Some (((), ()), e)), wl_create_credential = (\<lambda>_ _ _ cr. Some cr),
      wl_begin_login = (\<lambda>_ _ e. Some (((), ()), e)),
      wl_validate = (\<lambda>_ _ (raw, handle, key). Some (handle, \<lambda>user.
        if wu_id user = handle then find (\<lambda>k. wa_id k = raw \<and> wa_public_key k = key) (wu_credentials user) else None)),
      wl_raw_id = fst, wl_counter = (\<lambda>_. 7)\<rparr>"

lemma toy_webauthn_ok: "webauthn_ok toy_webauthn (\<lambda>pk _ (_, _, key). pk = key)"
  by (auto simp: webauthn_ok_def toy_webauthn_def find_Some_iff split: if_splits)

definition demo_wa_svc :: "(conn, unit, unit, wa_credential, bytes \<times> bytes \<times> bytes) webauthn_service" where
  "demo_wa_svc = \<lparr>ws_repo = pg_passkeys, ws_lib = toy_webauthn, ws_handles = \<lparr>hd_mac = (@), hd_key = [9]\<rparr>\<rparr>"

definition demo_wa_state :: "conn passkey_state" where
  "demo_wa_state = \<lparr>pk_store = demo_conn, pk_now = 50, pk_entropy = [], pk_ids = of_nat, pk_ids_used = 9, pk_warnings = []\<rparr>"

definition demo_wa_cred :: wa_credential where
  "demo_wa_cred = \<lparr>wa_id = [1, 2], wa_public_key = [3], wa_transports = [], wa_aaguid = [], wa_sign_count = 4\<rparr>"

definition demo_registered :: "conn passkey_state" where
  "demo_registered = fst (FinishRegistration demo_wa_svc (MemberID 2) (HouseholdID 1) ''ann'' [] () demo_wa_cred demo_wa_state)"

definition demo_assertion :: "bytes \<times> bytes \<times> bytes" where
  "demo_assertion = ([1, 2], Derive (ws_handles demo_wa_svc) (MemberID 2), [3])"

lemma demo_registers:
  "FinishRegistration demo_wa_svc (MemberID 2) (HouseholdID 1) ''ann'' [] () demo_wa_cred demo_wa_state = (demo_registered, Inr ())"
proof -
  have "snd (FinishRegistration demo_wa_svc (MemberID 2) (HouseholdID 1) ''ann'' [] () demo_wa_cred demo_wa_state) = Inr ()"
    by (simp add: FinishRegistration_def demo_wa_svc_def demo_wa_state_def on_pk_def pg_passkeys_def ListByMember_def
        Create_passkey_def run_sql_no_faults select_def demo_conn_def demo_db_def demo_member_def empty_db_def
        toy_webauthn_def demo_wa_cred_def sql_insert_passkey_def insert_passkey_def household_exists_def member_in_def
        Let_def)
  then show ?thesis by (simp add: demo_registered_def prod_eq_iff)
qed

theorem registered_passkey_logs_in_witness:
  "snd (FinishLogin demo_wa_svc () demo_assertion demo_registered) = Inr (MemberID 2)"
proof (rule registered_passkey_logs_in [OF _ _ _ _ demo_registers])
  show "ws_repo demo_wa_svc = pg_passkeys" by (simp add: demo_wa_svc_def)
  show "faults (pk_store demo_wa_state) = []" "counts_ok (db (pk_store demo_wa_state))"
    by (simp_all add: demo_wa_state_def demo_conn_def demo_db_def empty_db_def counts_ok_def)
  show "r \<in> set (passkeys (db (pk_store demo_wa_state))) \<Longrightarrow> k_member r = mid (MemberID 2)" for r
    by (simp add: demo_wa_state_def demo_conn_def demo_db_def empty_db_def)
  show "wl_create_credential (ws_lib demo_wa_svc) user (pk_now demo_wa_state) () demo_wa_cred \<in> {None, Some demo_wa_cred}" for user
    by (simp add: demo_wa_svc_def toy_webauthn_def)
  show "wl_validate (ws_lib demo_wa_svc) (pk_now demo_registered) () demo_assertion =
      Some (Derive (ws_handles demo_wa_svc) (MemberID 2), \<lambda>user.
        if wu_id user = Derive (ws_handles demo_wa_svc) (MemberID 2)
        then find (\<lambda>k. wa_id k = [1, 2] \<and> wa_public_key k = [3]) (wu_credentials user) else None)"
    by (simp add: demo_wa_svc_def toy_webauthn_def demo_assertion_def)
  show "stored_form demo_wa_cred \<in> set (wu_credentials user) \<Longrightarrow> wu_id user = Derive (ws_handles demo_wa_svc) (MemberID 2) \<Longrightarrow>
      (if wu_id user = Derive (ws_handles demo_wa_svc) (MemberID 2)
       then find (\<lambda>k. wa_id k = [1, 2] \<and> wa_public_key k = [3]) (wu_credentials user) else None) \<noteq> None" for user
    by (simp add: find_None_iff) (rule exI [of _ "stored_form demo_wa_cred"], simp add: stored_form_def demo_wa_cred_def)
  show "wl_raw_id (ws_lib demo_wa_svc) demo_assertion = wa_id demo_wa_cred"
    by (simp add: demo_wa_svc_def toy_webauthn_def demo_assertion_def demo_wa_cred_def)
qed

lemma demo_logs_in: "\<exists>st'. FinishLogin demo_wa_svc () demo_assertion demo_registered = (st', Inr (MemberID 2))"
proof -
  have "snd (FinishLogin demo_wa_svc () demo_assertion demo_registered) = Inr (MemberID 2)"
    by (simp add: demo_registered_def FinishLogin_def FinishRegistration_def demo_wa_svc_def demo_wa_state_def on_pk_def
        pg_passkeys_def ListByMember_def FindByUserHandle_def UpdateAfterAssertion_def applyAssertionResult_def
        sql_after_assertion_def assertion_applies_def update_where_def count_where_def scan_passkey_def newUser_def
        toWebAuthnCredential_def Create_passkey_def run_sql_no_faults select_def demo_conn_def demo_db_def demo_member_def
        empty_db_def toy_webauthn_def demo_wa_cred_def sql_insert_passkey_def insert_passkey_def household_exists_def
        member_in_def demo_assertion_def Let_def)
  then show ?thesis by (metis prod.collapse)
qed

theorem passkey_login_names_owner_witness:
  "\<exists>r \<in> set (passkeys (db (pk_store demo_registered))). k_member r = 2 \<and> k_public_key r = [3]"
proof -
  obtain st' where "FinishLogin demo_wa_svc () demo_assertion demo_registered = (st', Inr (MemberID 2))"
    using demo_logs_in by blast
  moreover have "ws_repo demo_wa_svc = pg_passkeys" "webauthn_ok (ws_lib demo_wa_svc) (\<lambda>pk _ (_, _, key). pk = key)"
    using toy_webauthn_ok by (simp_all add: demo_wa_svc_def)
  ultimately show ?thesis
    using passkey_login_names_owner [of demo_wa_svc "\<lambda>pk _ (_, _, key). pk = key" "()" demo_assertion demo_registered st' "MemberID 2"]
    by (auto simp: demo_assertion_def)
qed

end
