(* ===== verification/Go_Path.thy ===== *)
theory Go_Path
  imports Go_Strings
begin

text \<open>
  What the program uses of Go's \<open>path\<close> and \<open>path/filepath\<close> on a Unix system: lexical cleaning,
  joining, extensions and absolute paths.
\<close>

section \<open>Cleaning and joining\<close>

fun join_slash :: "string list \<Rightarrow> string" where
  "join_slash [] = []"
| "join_slash [c] = c"
| "join_slash (c # cs) = c @ CHR ''/'' # join_slash cs"

definition rooted :: "string \<Rightarrow> bool" where
  "rooted s \<longleftrightarrow> s \<noteq> [] \<and> hd s = CHR ''/''"

text \<open>The components of a path with \<open>.\<close>, \<open>..\<close> and empty ones resolved; above the root there is
  nothing, and \<open>..\<close> at the start of a relative path stays.\<close>

fun clean_loop :: "bool \<Rightarrow> string list \<Rightarrow> string list \<Rightarrow> string list" where
  "clean_loop r st [] = rev st"
| "clean_loop r st (c # cs) =
     (if c = [] \<or> c = ''.'' then clean_loop r st cs
      else if c = ''..'' then
        (case st of
           [] \<Rightarrow> clean_loop r (if r then [] else [''..'']) cs
         | x # xs \<Rightarrow> clean_loop r (if x = ''..'' then ''..'' # st else xs) cs)
      else clean_loop r (c # st) cs)"

definition path_clean :: "string \<Rightarrow> string" where
  "path_clean s =
     (let cs = clean_loop (rooted s) [] (split_on (CHR ''/'') s)
      in if rooted s then CHR ''/'' # join_slash cs
         else if cs = [] then ''.'' else join_slash cs)"

definition path_join :: "string list \<Rightarrow> string" where
  "path_join es = (let es = filter (\<lambda>e. e \<noteq> []) es in if es = [] then [] else path_clean (join_slash es))"

text \<open>\<open>filepath.Abs\<close>; the working directory may be unavailable.\<close>

definition path_abs :: "string option \<Rightarrow> string \<Rightarrow> string option" where
  "path_abs cwd s =
     (if rooted s then Some (path_clean s)
      else case cwd of None \<Rightarrow> None | Some d \<Rightarrow> Some (path_join [d, s]))"

text \<open>\<open>filepath.Dir\<close> and \<open>filepath.Ext\<close>.\<close>

definition path_dir :: "string \<Rightarrow> string" where
  "path_dir s = path_clean (rev (dropWhile (\<lambda>c. c \<noteq> CHR ''/'') (rev s)))"

definition path_ext :: "string \<Rightarrow> string" where
  "path_ext s =
     (let tl_part = takeWhile (\<lambda>c. c \<noteq> CHR ''/'') (rev s)
      in if CHR ''.'' \<in> set tl_part then CHR ''.'' # rev (takeWhile (\<lambda>c. c \<noteq> CHR ''.'') tl_part) else [])"

section \<open>Absolute paths as components\<close>

text \<open>Where the operating system looks a path up, without symbolic links.\<close>

definition abs_comps :: "string \<Rightarrow> string list" where
  "abs_comps s = clean_loop True [] (split_on (CHR ''/'') s)"

definition plain_comp :: "string \<Rightarrow> bool" where
  "plain_comp c \<longleftrightarrow> c \<noteq> [] \<and> c \<noteq> ''.'' \<and> c \<noteq> ''..'' \<and> CHR ''/'' \<notin> set c"

lemma split_on_nonempty: "split_on c xs \<noteq> []"
  by (induction xs) (auto split: list.splits)

lemma split_on_two: "split_on c (xs @ c # ys) = split_on c xs @ split_on c ys"
proof (induction xs)
  case (Cons x xs)
  then show ?case using split_on_nonempty [of c xs] by (cases "split_on c xs") auto
qed simp

lemma split_on_sep: "x \<in> set (split_on c xs) \<Longrightarrow> c \<notin> set x"
proof (induction xs arbitrary: x)
  case (Cons a xs)
  then show ?case by (cases "split_on c xs") (auto split: if_splits)
qed simp

lemma split_join:
  "cs \<noteq> [] \<Longrightarrow> \<forall>c \<in> set cs. CHR ''/'' \<notin> set c \<Longrightarrow> split_on (CHR ''/'') (join_slash cs) = cs"
proof (induction cs rule: join_slash.induct)
  case (2 c)
  then show ?case using split_on_none by simp
next
  case (3 c d cs)
  then show ?case by (simp add: split_on_append)
qed simp

lemma clean_loop_plain: "\<forall>c \<in> set cs. plain_comp c \<Longrightarrow> clean_loop r st cs = rev st @ cs"
  by (induction cs arbitrary: st) (auto simp: plain_comp_def)

lemma clean_loop_append:
  "\<forall>c \<in> set st. c \<noteq> ''..'' \<Longrightarrow> clean_loop True st (a @ b) = clean_loop True (rev (clean_loop True st a)) b"
proof (induction a arbitrary: st)
  case (Cons x a)
  consider (skip) "x = [] \<or> x = ''.''" | (up) "x = ''..''" | (name) "x \<noteq> []" "x \<noteq> ''.''" "x \<noteq> ''..''" by blast
  then show ?case
  proof cases
    case skip
    then show ?thesis using Cons.IH [OF Cons.prems] by auto
  next
    case up
    show ?thesis
    proof (cases st)
      case Nil
      then show ?thesis using Cons.IH [of "[]"] up by simp
    next
      case st: (Cons y ys)
      then have "y \<noteq> ''..''" "\<forall>c \<in> set ys. c \<noteq> ''..''" using Cons.prems by simp_all
      then show ?thesis using Cons.IH [of ys] up st by simp
    qed
  next
    case name
    then have "\<forall>c \<in> set (x # st). c \<noteq> ''..''" using Cons.prems by simp
    from Cons.IH [OF this] show ?thesis using name by simp
  qed
qed simp

lemma clean_loop_result:
  assumes "\<forall>c \<in> set st. plain_comp c" and "\<forall>c \<in> set cs. CHR ''/'' \<notin> set c"
  shows "\<forall>c \<in> set (clean_loop True st cs). plain_comp c"
  using assms
proof (induction cs arbitrary: st)
  case (Cons x cs)
  have IH: "\<forall>c \<in> set st'. plain_comp c \<Longrightarrow> \<forall>c \<in> set (clean_loop True st' cs). plain_comp c" for st'
    using Cons.IH [of st'] Cons.prems(2) by simp
  consider (skip) "x = [] \<or> x = ''.''" | (up) "x = ''..''" | (name) "x \<noteq> []" "x \<noteq> ''.''" "x \<noteq> ''..''" by blast
  then show ?case
  proof cases
    case skip
    then show ?thesis using IH [OF Cons.prems(1)] by auto
  next
    case up
    show ?thesis
    proof (cases st)
      case Nil
      then show ?thesis using IH [of "[]"] up by simp
    next
      case st: (Cons y ys)
      then have "y \<noteq> ''..''" "\<forall>c \<in> set ys. plain_comp c" using Cons.prems(1) by (simp_all add: plain_comp_def)
      then show ?thesis using IH [of ys] up st by simp
    qed
  next
    case name
    then have "\<forall>c \<in> set (x # st). plain_comp c" using Cons.prems by (simp add: plain_comp_def)
    from IH [OF this] show ?thesis using name by simp
  qed
qed simp

lemma abs_comps_plain: "\<forall>c \<in> set (abs_comps s). plain_comp c"
  unfolding abs_comps_def using clean_loop_result [of "[]"] split_on_sep by auto

lemma abs_comps_join: "\<forall>c \<in> set cs. plain_comp c \<Longrightarrow> abs_comps (CHR ''/'' # join_slash cs) = cs"
proof -
  assume p: "\<forall>c \<in> set cs. plain_comp c"
  show ?thesis
  proof (cases cs)
    case (Cons c cs')
    then have "split_on (CHR ''/'') (join_slash cs) = cs" using p by (intro split_join) (auto simp: plain_comp_def)
    then show ?thesis using clean_loop_plain [OF p] by (simp add: abs_comps_def)
  qed (simp add: abs_comps_def)
qed

lemma path_clean_rooted: "rooted s \<Longrightarrow> path_clean s = CHR ''/'' # join_slash (abs_comps s)"
  by (simp add: path_clean_def abs_comps_def Let_def)

lemma abs_comps_clean: "rooted s \<Longrightarrow> abs_comps (path_clean s) = abs_comps s"
  by (simp add: path_clean_rooted abs_comps_join abs_comps_plain)

lemma join_slash_snoc: "cs \<noteq> [] \<Longrightarrow> join_slash (cs @ [c]) = join_slash cs @ CHR ''/'' # c"
  by (induction cs rule: join_slash.induct) simp_all

lemma join_slash_append: "as \<noteq> [] \<Longrightarrow> bs \<noteq> [] \<Longrightarrow> join_slash (as @ bs) = join_slash as @ CHR ''/'' # join_slash bs"
  by (induction as rule: join_slash.induct) (cases bs; simp)+

text \<open>Two clean absolute paths of which one starts with the other and a slash.\<close>

lemma prefix_comps:
  assumes "\<forall>c \<in> set cs. plain_comp c" and "\<forall>c \<in> set rs. plain_comp c" and "rs \<noteq> []"
  shows "prefix (CHR ''/'' # join_slash rs @ ''/'') (CHR ''/'' # join_slash cs) \<longleftrightarrow> strict_prefix rs cs"
proof
  assume "prefix (CHR ''/'' # join_slash rs @ ''/'') (CHR ''/'' # join_slash cs)"
  then obtain t where t: "join_slash cs = join_slash rs @ CHR ''/'' # t" by (auto simp: prefix_def)
  have "cs \<noteq> []" using t by auto
  have "cs = split_on (CHR ''/'') (join_slash cs)"
    using split_join [OF \<open>cs \<noteq> []\<close>] assms(1) by (simp add: plain_comp_def)
  also have "\<dots> = rs @ split_on (CHR ''/'') t"
    unfolding t split_on_two using split_join [OF assms(3)] assms(2) by (simp add: plain_comp_def)
  finally show "strict_prefix rs cs"
    using split_on_nonempty [of "CHR ''/''" t] by (auto simp: strict_prefix_def prefix_def)
next
  assume "strict_prefix rs cs"
  then obtain t where t: "cs = rs @ t" "t \<noteq> []" by (auto simp: strict_prefix_def prefix_def)
  then show "prefix (CHR ''/'' # join_slash rs @ ''/'') (CHR ''/'' # join_slash cs)"
    using join_slash_append [OF assms(3) t(2)] by (auto simp: prefix_def)
qed

section \<open>Cleaning changes no location\<close>

text \<open>A clean relative path resolves, from any directory, where the original does.\<close>

lemma clean_loop_relative:
  assumes "\<forall>c \<in> set st. c \<noteq> ''..''" and "\<forall>c \<in> set acc. c \<noteq> [] \<and> c \<noteq> ''.''"
  shows "clean_loop True st (clean_loop False acc cs) = clean_loop True (rev (clean_loop True st (rev acc))) cs"
  using assms(2)
proof (induction cs arbitrary: acc)
  case Nil
  then show ?case by simp
next
  case (Cons x cs)
  note app = clean_loop_append [OF assms(1)]
  consider (skip) "x = [] \<or> x = ''.''" | (up) "x = ''..''" | (name) "x \<noteq> []" "x \<noteq> ''.''" "x \<noteq> ''..''" by blast
  then show ?case
  proof cases
    case skip
    then show ?thesis using Cons.IH [OF Cons.prems] by auto
  next
    case up
    show ?thesis
    proof (cases "acc \<noteq> [] \<and> hd acc \<noteq> ''..''")
      case True
      then obtain y ys where acc: "acc = y # ys" "y \<noteq> ''..''" by (cases acc) auto
      then have y: "y \<noteq> []" "y \<noteq> ''.''" "\<forall>c \<in> set ys. c \<noteq> [] \<and> c \<noteq> ''.''" using Cons.prems by simp_all
      have "clean_loop True st (rev acc) = clean_loop True st (rev ys) @ [y]"
        using acc y by (simp add: app)
      then show ?thesis using Cons.IH [OF y(3)] acc up by simp
    next
      case False
      then have "clean_loop False acc (x # cs) = clean_loop False (''..'' # acc) cs"
        using up by (cases acc) auto
      moreover have "\<forall>c \<in> set (''..'' # acc). c \<noteq> [] \<and> c \<noteq> ''.''" using Cons.prems by simp
      moreover have "clean_loop True (rev (clean_loop True st (rev (''..'' # acc)))) cs =
          clean_loop True (rev (clean_loop True st (rev acc))) (x # cs)"
        using up by (simp add: app split: list.splits)
      ultimately show ?thesis using Cons.IH by metis
    qed
  next
    case name
    have "\<forall>c \<in> set (x # acc). c \<noteq> [] \<and> c \<noteq> ''.''" using Cons.prems name by simp
    moreover have "clean_loop True st (rev (x # acc)) = clean_loop True st (rev acc) @ [x]"
      using name by (simp add: app)
    ultimately show ?thesis using Cons.IH [of "x # acc"] name by simp
  qed
qed

lemma clean_loop_all:
  "P ''..'' \<Longrightarrow> \<forall>c \<in> set st. P c \<Longrightarrow> \<forall>c \<in> set cs. c = [] \<or> P c \<Longrightarrow> c \<in> set (clean_loop r st cs) \<Longrightarrow> P c"
proof (induction cs arbitrary: st)
  case (Cons x cs)
  have IH: "\<forall>c \<in> set st'. P c \<Longrightarrow> c \<in> set (clean_loop r st' cs) \<Longrightarrow> P c" for st'
    using Cons.IH [of st'] Cons.prems(1,3) by simp
  consider (skip) "x = [] \<or> x = ''.''" | (up) "x = ''..''" | (name) "x \<noteq> []" "x \<noteq> ''.''" "x \<noteq> ''..''" by blast
  then show ?case
  proof cases
    case skip
    then show ?thesis using IH [OF Cons.prems(2)] Cons.prems(4) by auto
  next
    case up
    let ?st = "case st of [] \<Rightarrow> if r then [] else [''..''] | y # ys \<Rightarrow> if y = ''..'' then ''..'' # st else ys"
    have "\<forall>c \<in> set ?st. P c" using Cons.prems(1,2) by (cases st) simp_all
    moreover have "c \<in> set (clean_loop r ?st cs)" using Cons.prems(4) up by (cases st) simp_all
    ultimately show ?thesis by (rule IH)
  next
    case name
    then have "\<forall>c \<in> set (x # st). P c" using Cons.prems by simp
    from IH [OF this] show ?thesis using name Cons.prems(4) by simp
  qed
qed simp

definition name_like :: "string \<Rightarrow> bool" where
  "name_like c \<longleftrightarrow> c \<noteq> [] \<and> CHR ''/'' \<notin> set c"

lemma cleaned_name_like: "c \<in> set (clean_loop r [] (split_on (CHR ''/'') y)) \<Longrightarrow> name_like c"
  by (rule clean_loop_all [of name_like]) (use split_on_sep in \<open>auto simp: name_like_def\<close>)

lemma relative_clean:
  assumes "\<not> rooted y" and "\<forall>c \<in> set st. c \<noteq> ''..''"
  shows "clean_loop True st (split_on (CHR ''/'') (path_clean y)) = clean_loop True st (split_on (CHR ''/'') y)"
proof -
  define cs where "cs = clean_loop False [] (split_on (CHR ''/'') y)"
  have eq: "clean_loop True st cs = clean_loop True st (split_on (CHR ''/'') y)"
    using clean_loop_relative [OF assms(2), of "[]"] by (simp add: cs_def)
  show ?thesis
  proof (cases "cs = []")
    case True
    then have "path_clean y = ''.''" using assms(1) by (simp add: path_clean_def cs_def [symmetric])
    then show ?thesis using eq True by simp
  next
    case False
    have "\<forall>c \<in> set cs. CHR ''/'' \<notin> set c"
      unfolding cs_def using cleaned_name_like by (auto simp: name_like_def)
    then have "split_on (CHR ''/'') (path_clean y) = cs"
      using False assms(1) split_join [OF False] by (simp add: path_clean_def cs_def [symmetric])
    then show ?thesis using eq by simp
  qed
qed

lemma abs_comps_path_clean: "abs_comps (path_clean s) = abs_comps s"
  using abs_comps_clean [of s] relative_clean [of s "[]"] by (cases "rooted s") (simp_all add: abs_comps_def)

lemma abs_comps_sub: "abs_comps (x @ CHR ''/'' # y) = clean_loop True (rev (abs_comps x)) (split_on (CHR ''/'') y)"
  unfolding abs_comps_def split_on_two by (rule clean_loop_append) simp

lemma abs_comps_under:
  "cs \<noteq> [] \<Longrightarrow> \<forall>c \<in> set cs. plain_comp c \<Longrightarrow> abs_comps (x @ CHR ''/'' # join_slash cs) = abs_comps x @ cs"
  using split_join [of cs] clean_loop_plain [of cs] by (simp add: abs_comps_sub plain_comp_def)

lemma abs_comps_no_up: "\<forall>c \<in> set (rev (abs_comps x)). c \<noteq> ''..''"
  using abs_comps_plain by (auto simp: plain_comp_def)

lemma abs_comps_sub_clean: "\<not> rooted y \<Longrightarrow> abs_comps (x @ CHR ''/'' # path_clean y) = abs_comps (x @ CHR ''/'' # y)"
  unfolding abs_comps_sub by (rule relative_clean [OF _ abs_comps_no_up])

lemma join_slash_head: "cs \<noteq> [] \<Longrightarrow> name_like (hd cs) \<Longrightarrow> join_slash cs \<noteq> [] \<and> hd (join_slash cs) = hd (hd cs)"
  by (cases cs rule: join_slash.cases) (auto simp: name_like_def)

lemma path_clean_nonempty: "path_clean y \<noteq> []"
  using cleaned_name_like [of _ "rooted y" y] join_slash_head
  by (auto simp: path_clean_def Let_def)

lemma path_clean_relative: "\<not> rooted y \<Longrightarrow> \<not> rooted (path_clean y)"
proof -
  assume y: "\<not> rooted y"
  define cs where "cs = clean_loop False [] (split_on (CHR ''/'') y)"
  show ?thesis
  proof (cases "cs = []")
    case True
    then have "path_clean y = ''.''" using y by (simp add: path_clean_def cs_def [symmetric])
    then show ?thesis by (simp add: rooted_def)
  next
    case False
    then have n: "name_like (hd cs)" unfolding cs_def by (intro cleaned_name_like [of _ False y]) simp
    then have "hd (hd cs) \<noteq> CHR ''/''" by (cases "hd cs") (auto simp: name_like_def)
    moreover have "path_clean y = join_slash cs" using y False by (simp add: path_clean_def cs_def [symmetric])
    ultimately show ?thesis using join_slash_head [OF False n] by (simp add: rooted_def)
  qed
qed

lemma clean_loop_snoc: "plain_comp c \<Longrightarrow> clean_loop r st (a @ [c]) = clean_loop r st a @ [c]"
proof (induction a arbitrary: st)
  case Nil
  then show ?case by (simp add: plain_comp_def)
next
  case (Cons x a)
  consider (skip) "x = [] \<or> x = ''.''" | (up) "x = ''..''" | (name) "x \<noteq> []" "x \<noteq> ''.''" "x \<noteq> ''..''" by blast
  then show ?case by cases (use Cons in \<open>auto split: list.splits\<close>)
qed

lemma rooted_append: "s \<noteq> [] \<Longrightarrow> rooted (s @ t) \<longleftrightarrow> rooted s"
  by (cases s) (simp_all add: rooted_def)

lemma path_clean_snoc:
  assumes "plain_comp c" and "s \<noteq> []" and "clean_loop (rooted s) [] (split_on (CHR ''/'') s) \<noteq> []"
  shows "path_clean (s @ CHR ''/'' # c) = path_clean s @ CHR ''/'' # c"
proof -
  have "split_on (CHR ''/'') c = [c]" using assms(1) by (intro split_on_none) (simp add: plain_comp_def)
  then have "clean_loop (rooted s) [] (split_on (CHR ''/'') (s @ CHR ''/'' # c)) =
      clean_loop (rooted s) [] (split_on (CHR ''/'') s) @ [c]"
    using clean_loop_snoc [OF assms(1)] by (simp add: split_on_two)
  then show ?thesis
    using assms(2,3) by (cases "rooted s") (simp_all add: path_clean_def Let_def rooted_append join_slash_snoc)
qed

lemma path_dir_snoc: "CHR ''/'' \<notin> set c \<Longrightarrow> path_dir (x @ CHR ''/'' # c) = path_clean (x @ ''/'')"
  by (simp add: path_dir_def) (subst dropWhile_append2; auto)

end
