(* ===== verification/Photo_Domain.thy ===== *)
theory Photo_Domain
  imports Identity_Domain Go_Path Go_Uuid
begin

text \<open>
  The media domain, \<open>media/domain\<close>: photos, storage backends, the registry of photo classes and
  the sentinel errors of the ports. A storage ref is its text.
\<close>

section \<open>Errors\<close>

datatype media_error =
    ErrPhotoNotFound
  | ErrInvalidPhoto
  | ErrUnsupportedMediaType
  | ErrPhotoTooLarge
  | ErrDuplicatePhoto
  | ErrStoreNotConfigured
  | Media_identity id_error     \<comment> \<open>a sentinel of the identity domain\<close>
  | Media_other

section \<open>Ids, backends, classes\<close>

datatype photo_id = PhotoID uuid

fun pid :: "photo_id \<Rightarrow> uuid" where "pid (PhotoID u) = u"

lemma pid_eq_iff [simp]: "pid a = pid b \<longleftrightarrow> a = b" by (cases a; cases b) simp

definition ParsePhotoID :: "(string \<Rightarrow> uuid option) \<Rightarrow> string \<Rightarrow> photo_id option" where
  "ParsePhotoID uuid_parse s = map_option PhotoID (uuid_parse s)"

type_synonym storage_ref = string
type_synonym storage_backend = string

definition StorageBackendLocal :: storage_backend where "StorageBackendLocal = ''local''"
definition StorageBackendS3 :: storage_backend where "StorageBackendS3 = ''s3''"

definition Valid_backend :: "storage_backend \<Rightarrow> bool" where
  "Valid_backend b \<longleftrightarrow> b = StorageBackendLocal \<or> b = StorageBackendS3"

definition ParseStorageBackend :: "string \<Rightarrow> storage_backend option" where
  "ParseStorageBackend s = (let b = to_lower (trim_space s) in if Valid_backend b then Some b else None)"

text \<open>A photo class is its registered name, empty for the zero value; the registry is the list of
  names registered so far. Registering panics, here \<open>None\<close>, on a malformed or a taken name.\<close>

type_synonym photo_class = string

definition classIdentifier :: "string \<Rightarrow> bool" where
  "classIdentifier s \<longleftrightarrow>
     s \<noteq> [] \<and> (let lower = \<lambda>c. byte_at (CHR ''a'') \<le> byte_at c \<and> byte_at c \<le> byte_at (CHR ''z'')
               in lower (hd s) \<and> list_all (\<lambda>c. lower c \<or> (byte_at (CHR ''0'') \<le> byte_at c \<and> byte_at c \<le> byte_at (CHR ''9'')) \<or> c = CHR ''_'') (tl s))"

definition RegisterPhotoClass :: "string \<Rightarrow> string list \<Rightarrow> (photo_class \<times> string list) option" where
  "RegisterPhotoClass name registered =
     (if \<not> classIdentifier name then None
      else if name \<in> set registered then None
      else Some (name, registered @ [name]))"

definition Valid_class :: "string list \<Rightarrow> photo_class \<Rightarrow> bool" where
  "Valid_class registered c \<longleftrightarrow> c \<noteq> [] \<and> c \<in> set registered"

definition class_String :: "photo_class \<Rightarrow> string" where
  "class_String c = (if c = [] then ''unspecified'' else c)"

section \<open>Photos\<close>

definition ContentTypeJPEG :: string where "ContentTypeJPEG = ''image/jpeg''"
definition ContentTypePNG :: string where "ContentTypePNG = ''image/png''"
definition ContentTypeWebP :: string where "ContentTypeWebP = ''image/webp''"

lemmas content_types = ContentTypeJPEG_def ContentTypePNG_def ContentTypeWebP_def

definition acceptedContentTypes :: "string list" where
  "acceptedContentTypes = [ContentTypeJPEG, ContentTypePNG, ContentTypeWebP]"

text \<open>\<open>^[0-9a-f]{64}$\<close>.\<close>

definition ValidContentHash :: "string \<Rightarrow> bool" where
  "ValidContentHash h \<longleftrightarrow> length h = 64 \<and> list_all is_hex h"

record photo =
  ph_id :: photo_id
  ph_household :: household_id
  ph_ref :: storage_ref
  ph_hash :: string
  ph_size :: int
  ph_type :: string
  ph_taken_at :: "time option"
  ph_uploaded_by :: "member_id option"
  ph_created :: time
  ph_backend :: storage_backend

definition Validate_photo :: "photo \<Rightarrow> media_error + unit" where
  "Validate_photo p =
     (if trim_space (ph_ref p) = [] then Inl ErrInvalidPhoto
      else if \<not> ValidContentHash (ph_hash p) then Inl ErrInvalidPhoto
      else if ph_size p \<le> 0 then Inl ErrInvalidPhoto
      else if ph_type p \<notin> set acceptedContentTypes then Inl ErrInvalidPhoto
      else Inr ())"

record put_result =
  pu_ref :: storage_ref
  pu_hash :: string
  pu_size :: int
  pu_type :: string

record object_info =
  oi_key :: storage_ref
  oi_modified :: time

section \<open>The photo store port\<close>

text \<open>
  \<open>domain.PhotoStore\<close> over a world \<open>'w\<close>. An upload is what its reader yields, and whether it then
  fails instead of ending; an opened photo is its bytes, or a handle whose reads fail. \<open>st_list\<close> is \<open>domain.ObjectLister\<close>,
  which only an object store implements.
\<close>

record upload =
  up_bytes :: bytes
  up_fails :: bool

datatype photo_reader = Reader bytes | Unreadable

record 'w photo_store =
  st_put :: "household_id \<Rightarrow> photo_class \<Rightarrow> upload \<Rightarrow> 'w \<Rightarrow> 'w \<times> (media_error + put_result)"
  st_open :: "storage_ref \<Rightarrow> 'w \<Rightarrow> 'w \<times> (media_error + photo_reader)"
  st_delete :: "storage_ref \<Rightarrow> 'w \<Rightarrow> 'w \<times> (media_error + unit)"
  st_url :: "storage_ref \<Rightarrow> duration \<Rightarrow> 'w \<Rightarrow> 'w \<times> (media_error + string)"
  st_direct :: bool
  st_list :: "(photo_class \<Rightarrow> 'w \<Rightarrow> 'w \<times> (media_error + object_info list)) option"

section \<open>Facts\<close>

lemma hash_of_digest: "length b = 32 \<Longrightarrow> ValidContentHash (hex_encode b)"
  using hex_encode_is_hex by (auto simp: ValidContentHash_def list_all_iff)

lemma hex_no_slash: "is_hex c \<Longrightarrow> c \<noteq> CHR ''/'' \<and> c \<noteq> CHR ''.''"
  by (auto simp: is_hex_def)

lemma class_no_slash: "classIdentifier s \<Longrightarrow> c \<in> set s \<Longrightarrow> c \<noteq> CHR ''/'' \<and> c \<noteq> CHR ''.''"
proof -
  assume s: "classIdentifier s" "c \<in> set s"
  obtain x xs where "s = x # xs" using s by (cases s) auto
  with s show ?thesis
    by (auto simp: classIdentifier_def Let_def list_all_iff )
qed

lemma backend_text: "Valid_backend b \<Longrightarrow> ParseStorageBackend b = Some b"
proof -
  assume b: "Valid_backend b"
  have "is_ascii b" "\<forall>c \<in> set b. \<not> is_space (byte_at c)"
    using b by (auto simp: Valid_backend_def StorageBackendLocal_def StorageBackendS3_def is_ascii_def is_space_def)
  then have "trim_space b = b" "to_lower b = map (\<lambda>c. if 0x41 \<le> byte_at c \<and> byte_at c \<le> 0x5A then char_of (byte_at c + 0x20) else c) b"
    by (simp_all only: trim_space_plain to_lower_ascii)
  moreover have "map (\<lambda>c. if 0x41 \<le> byte_at c \<and> byte_at c \<le> 0x5A then char_of (byte_at c + 0x20) else c) b = b"
    using b by (auto simp: Valid_backend_def StorageBackendLocal_def StorageBackendS3_def)
  ultimately show ?thesis using b by (simp add: ParseStorageBackend_def)
qed

end
