(* ===== verification/Photo_Repository.thy ===== *)
theory Photo_Repository
  imports Photo_Domain Identity_Db
begin

text \<open>
  The photo repository, \<open>media/adapter/photo_postgres.go\<close> and \<open>constraints.go\<close>, over the table
  shape that \<open>media/adapter/doc.go\<close> prescribes to every application. The table stands beside
  the identity schema its foreign keys refer to.
\<close>

section \<open>The table\<close>

record photo_row =
  p_id :: uuid
  p_household :: uuid
  p_ref :: string
  p_backend :: string
  p_hash :: "string option"
  p_size :: int
  p_type :: string
  p_taken :: "time option"
  p_uploaded :: "uuid option"
  p_created :: time

record media_db =
  photo_identity :: identity_db
  photo_rows :: "photo_row list"

type_synonym media_conn = "media_db pg"

definition photoHouseholdFK :: string where "photoHouseholdFK = ''photo_household_id_fkey''"
definition photoUploaderFK :: string where "photoUploaderFK = ''photo_uploaded_by_fkey''"
definition photoHouseholdContentHashUniq :: string where
  "photoHouseholdContentHashUniq = ''photo_household_content_hash_uniq''"

lemmas photo_constraint_names = photoHouseholdFK_def photoUploaderFK_def photoHouseholdContentHashUniq_def

definition hash_keys :: "photo_row list \<Rightarrow> (uuid \<times> string) list" where
  "hash_keys ps = List.map_filter (\<lambda>p. map_option (Pair (p_household p)) (p_hash p)) ps"

definition uploader_ok :: "identity_db \<Rightarrow> photo_row \<Rightarrow> bool" where
  "uploader_ok d p \<longleftrightarrow> (case p_uploaded p of None \<Rightarrow> True | Some m \<Rightarrow> member_in d (p_household p) m)"

text \<open>Replacing the table, if the new contents satisfy its constraints.\<close>

definition put_photos :: "photo_row list \<Rightarrow> media_db \<Rightarrow> pg_error + media_db" where
  "put_photos ps d =
     (if \<not> list_all (\<lambda>p. Valid_backend (p_backend p)) ps
      then Inl (PgError checkViolation ''photo_storage_backend_check'')
      else if \<not> list_all (\<lambda>p. case p_hash p of None \<Rightarrow> True | Some h \<Rightarrow> ValidContentHash h) ps
      then Inl (PgError checkViolation ''photo_content_sha256_format'')
      else if \<not> distinct (map p_id ps) then Inl (PgError uniqueViolation ''photo_pkey'')
      else if \<not> distinct (hash_keys ps) then Inl (PgError uniqueViolation photoHouseholdContentHashUniq)
      else if \<not> list_all (\<lambda>p. household_exists (photo_identity d) (p_household p)) ps
      then Inl (PgError foreignKeyViolation photoHouseholdFK)
      else if \<not> list_all (uploader_ok (photo_identity d)) ps
      then Inl (PgError foreignKeyViolation photoUploaderFK)
      else Inr (d\<lparr>photo_rows := ps\<rparr>))"

definition mapFKViolation :: "pg_error \<Rightarrow> media_error option" where
  "mapFKViolation e =
     (if is_violation e foreignKeyViolation photoHouseholdFK then Some (Media_identity ErrHouseholdNotFound)
      else if is_violation e foreignKeyViolation photoUploaderFK then Some (Media_identity ErrMemberNotFound)
      else None)"

definition nullableText :: "string \<Rightarrow> string option" where
  "nullableText s = (let trimmed = trim_space s in if trimmed = [] then None else Some trimmed)"

definition memberArg :: "member_id option \<Rightarrow> uuid option" where
  "memberArg = map_option mid"

section \<open>Rows to photos\<close>

definition scanPhoto :: "photo_row \<Rightarrow> media_error + photo" where
  "scanPhoto r =
     (case ParseStorageBackend (p_backend r) of
        None \<Rightarrow> Inl Media_other
      | Some backend \<Rightarrow>
          Inr \<lparr>ph_id = PhotoID (p_id r), ph_household = HouseholdID (p_household r), ph_ref = p_ref r,
               ph_hash = (case p_hash r of None \<Rightarrow> [] | Some h \<Rightarrow> h), ph_size = p_size r, ph_type = p_type r,
               ph_taken_at = p_taken r, ph_uploaded_by = map_option MemberID (p_uploaded r),
               ph_created = p_created r, ph_backend = backend\<rparr>)"

fun scanPhotos :: "photo_row list \<Rightarrow> media_error + photo list" where
  "scanPhotos [] = Inr []"
| "scanPhotos (r # rows) =
     (case scanPhoto r of
        Inl e \<Rightarrow> Inl Media_other
      | Inr p \<Rightarrow> (case scanPhotos rows of Inl e \<Rightarrow> Inl e | Inr photos \<Rightarrow> Inr (p # photos)))"

section \<open>The repository\<close>

text \<open>The backend is the one every new row is stamped with; the constructor panics, here \<open>None\<close>,
  on an invalid one.\<close>

type_synonym photo_repository = storage_backend

definition NewPhotoRepository :: "storage_backend \<Rightarrow> photo_repository option" where
  "NewPhotoRepository backend = (if Valid_backend backend then Some backend else None)"

definition sql_insert_photo :: "photo \<Rightarrow> storage_backend \<Rightarrow> (media_db, time) sql" where
  "sql_insert_photo p backend d now =
     (case put_photos (photo_rows d @
        [\<lparr>p_id = pid (ph_id p), p_household = hid (ph_household p), p_ref = ph_ref p, p_backend = backend,
          p_hash = nullableText (ph_hash p), p_size = ph_size p, p_type = ph_type p, p_taken = ph_taken_at p,
          p_uploaded = memberArg (ph_uploaded_by p), p_created = now\<rparr>]) d of
        Inl e \<Rightarrow> Inl e | Inr d \<Rightarrow> Inr (d, now))"

definition Create :: "photo_repository \<Rightarrow> photo option \<Rightarrow> media_conn \<Rightarrow> media_conn \<times> (media_error + photo)" where
  "Create R po s =
     (case po of
        None \<Rightarrow> (s, Inl Media_other)
      | Some p \<Rightarrow>
          (case run_sql (sql_insert_photo p R) s of
             (s, Inl e) \<Rightarrow>
               (s, Inl (if is_violation e uniqueViolation photoHouseholdContentHashUniq then ErrDuplicatePhoto
                        else case mapFKViolation e of Some mapped \<Rightarrow> mapped | None \<Rightarrow> Media_other))
           | (s, Inr created) \<Rightarrow> (s, Inr (p\<lparr>ph_created := created, ph_backend := R\<rparr>))))"

definition scan_row :: "media_conn \<times> (pg_error + photo_row) \<Rightarrow> media_conn \<times> (media_error + photo)" where
  "scan_row q =
     (case q of
        (s, Inl e) \<Rightarrow> (s, Inl (if e = ErrNoRows then ErrPhotoNotFound else Media_other))
      | (s, Inr r) \<Rightarrow> (s, case scanPhoto r of Inl _ \<Rightarrow> Inl Media_other | Inr p \<Rightarrow> Inr p))"

definition Get :: "photo_id \<Rightarrow> media_conn \<Rightarrow> media_conn \<times> (media_error + photo)" where
  "Get i s = scan_row (run_sql (select_row (\<lambda>d. filter (\<lambda>r. p_id r = pid i) (photo_rows d))) s)"

definition FindByContentHash :: "household_id \<Rightarrow> string \<Rightarrow> media_conn \<Rightarrow> media_conn \<times> (media_error + photo)" where
  "FindByContentHash h hash s =
     (if trim_space hash = [] then (s, Inl ErrPhotoNotFound)
      else scan_row (run_sql (select_row (\<lambda>d.
             filter (\<lambda>r. p_household r = hid h \<and> p_hash r = Some hash) (photo_rows d))) s))"

definition scan_rows :: "media_conn \<times> (pg_error + photo_row list) \<Rightarrow> media_conn \<times> (media_error + photo list)" where
  "scan_rows q =
     (case q of (s, Inl e) \<Rightarrow> (s, Inl Media_other) | (s, Inr rows) \<Rightarrow> (s, scanPhotos rows))"

definition ListByHousehold :: "household_id \<Rightarrow> media_conn \<Rightarrow> media_conn \<times> (media_error + photo list)" where
  "ListByHousehold h s =
     scan_rows (run_sql (select (\<lambda>d. sort_key (\<lambda>r. (p_created r, p_id r))
       (filter (\<lambda>r. p_household r = hid h) (photo_rows d)))) s)"

definition sql_delete_photo :: "uuid \<Rightarrow> (media_db, nat) sql" where
  "sql_delete_photo i d now =
     Inr (d\<lparr>photo_rows := delete_where (\<lambda>r. p_id r = i) (photo_rows d)\<rparr>,
          count_where (\<lambda>r. p_id r = i) (photo_rows d))"

definition DeletePhoto :: "photo_id \<Rightarrow> media_conn \<Rightarrow> media_conn \<times> (media_error + unit)" where
  "DeletePhoto i s =
     (case run_sql (sql_delete_photo (pid i)) s of
        (s, Inl _) \<Rightarrow> (s, Inl Media_other)
      | (s, Inr n) \<Rightarrow> (s, if n = 0 then Inl ErrPhotoNotFound else Inr ()))"

definition ListAllStorageRefs :: "storage_backend \<Rightarrow> media_conn \<Rightarrow> media_conn \<times> (media_error + storage_ref list)" where
  "ListAllStorageRefs backend s =
     (case run_sql (select (\<lambda>d. map p_ref (filter (\<lambda>r. p_backend r = backend) (photo_rows d)))) s of
        (s, Inl _) \<Rightarrow> (s, Inl Media_other)
      | (s, Inr refs) \<Rightarrow> (s, Inr refs))"

definition ExistsByStorageRef ::
    "storage_ref \<Rightarrow> storage_backend \<Rightarrow> media_conn \<Rightarrow> media_conn \<times> (media_error + bool)" where
  "ExistsByStorageRef ref backend s =
     (case run_sql (select_row (\<lambda>d. [list_ex (\<lambda>r. p_ref r = ref \<and> p_backend r = backend) (photo_rows d)])) s of
        (s, Inl _) \<Rightarrow> (s, Inl Media_other)
      | (s, Inr b) \<Rightarrow> (s, Inr b))"

definition ListByBackend ::
    "storage_backend \<Rightarrow> photo_id \<Rightarrow> int \<Rightarrow> media_conn \<Rightarrow> media_conn \<times> (media_error + photo list)" where
  "ListByBackend backend after limit s =
     (if limit \<le> 0 then (s, Inl Media_other)
      else scan_rows (run_sql (select (\<lambda>d. take (nat limit) (sort_key p_id
             (filter (\<lambda>r. p_backend r = backend \<and> pid after < p_id r) (photo_rows d))))) s))"

definition sql_migrate_photo :: "uuid \<Rightarrow> string \<Rightarrow> storage_backend \<Rightarrow> string option \<Rightarrow> (media_db, nat) sql" where
  "sql_migrate_photo i ref backend hash d now =
     (let hit = (\<lambda>r. p_id r = i \<and> p_backend r = StorageBackendLocal);
          move = (\<lambda>r. r\<lparr>p_ref := ref, p_backend := backend,
                        p_hash := (case p_hash r of None \<Rightarrow> hash | Some h \<Rightarrow> Some h)\<rparr>)
      in case put_photos (update_where hit move (photo_rows d)) d of
           Inl e \<Rightarrow> Inl e
         | Inr d' \<Rightarrow> Inr (d', count_where hit (photo_rows d)))"

definition MigrateStorageBackend ::
    "photo_id \<Rightarrow> storage_ref \<Rightarrow> storage_backend \<Rightarrow> string \<Rightarrow> media_conn \<Rightarrow> media_conn \<times> (media_error + bool)" where
  "MigrateStorageBackend i ref backend hash s =
     (if \<not> Valid_backend backend then (s, Inl Media_other)
      else if hash \<noteq> [] \<and> \<not> ValidContentHash hash then (s, Inl Media_other)
      else case run_sql (sql_migrate_photo (pid i) ref backend (nullableText hash)) s of
             (s, Inl _) \<Rightarrow> (s, Inl Media_other)
           | (s, Inr n) \<Rightarrow> (s, Inr (n > 0)))"

section \<open>The table's invariant\<close>

definition photos_wf :: "media_db \<Rightarrow> bool" where
  "photos_wf d \<longleftrightarrow>
     (\<forall>p \<in> set (photo_rows d). Valid_backend (p_backend p) \<and> (\<forall>h. p_hash p = Some h \<longrightarrow> ValidContentHash h) \<and>
        household_exists (photo_identity d) (p_household p) \<and> uploader_ok (photo_identity d) p) \<and>
     distinct (map p_id (photo_rows d)) \<and> distinct (hash_keys (photo_rows d))"

lemma put_photos_Inr:
  "put_photos ps d = Inr d' \<longleftrightarrow> d' = d\<lparr>photo_rows := ps\<rparr> \<and> photos_wf (d\<lparr>photo_rows := ps\<rparr>)"
proof -
  have "list_all (\<lambda>p. case p_hash p of None \<Rightarrow> True | Some h \<Rightarrow> ValidContentHash h) ps \<longleftrightarrow>
      (\<forall>p \<in> set ps. \<forall>h. p_hash p = Some h \<longrightarrow> ValidContentHash h)"
    by (auto simp: list_all_iff split: option.splits)
  then show ?thesis by (auto simp: put_photos_def photos_wf_def list_all_iff)
qed

lemma in_hash_keys: "(h, sm) \<in> set (hash_keys ps) \<longleftrightarrow> (\<exists>p \<in> set ps. p_household p = h \<and> p_hash p = Some sm)"
  by (force simp: hash_keys_def map_filter_def)

lemma hash_keys_simps [simp]:
  "hash_keys [] = []"
  "hash_keys (p # ps) = (case p_hash p of None \<Rightarrow> hash_keys ps | Some sm \<Rightarrow> (p_household p, sm) # hash_keys ps)"
  by (auto simp: hash_keys_def map_filter_simps split: option.split)

lemma hash_unique:
  assumes "distinct (hash_keys ps)" and "p \<in> set ps" and "q \<in> set ps"
    and "p_household p = p_household q" and "p_hash p = Some sm" and "p_hash q = Some sm"
  shows "p = q"
  using assms
proof (induction ps)
  case (Cons a ps)
  have "(p_household a, sm) \<notin> set (hash_keys ps)" if "p_hash a = Some sm"
    using Cons.prems(1) that by simp
  then have no: "x \<in> set ps \<Longrightarrow> p_hash x = Some sm \<Longrightarrow> p_hash a = Some sm \<Longrightarrow> p_household x \<noteq> p_household a" for x
    by (auto simp: in_hash_keys)
  have "distinct (hash_keys ps)" using Cons.prems(1) by (auto split: option.splits)
  then show ?case using Cons.IH Cons.prems(2-6) no [of p] no [of q] by (cases "p = a"; cases "q = a") auto
qed simp

lemma hash_keys_delete: "distinct (hash_keys ps) \<Longrightarrow> distinct (hash_keys (delete_where P ps))"
proof (induction ps)
  case (Cons a ps)
  have "set (hash_keys (delete_where P ps)) \<subseteq> set (hash_keys ps)" by (auto simp: in_hash_keys delete_where_def)
  then show ?case using Cons by (auto simp: delete_where_def split: option.splits)
qed (simp add: delete_where_def)

lemma delete_photos_wf: "photos_wf d \<Longrightarrow> photos_wf (d\<lparr>photo_rows := delete_where P (photo_rows d)\<rparr>)"
  by (auto simp: photos_wf_def hash_keys_delete distinct_map_filter) (auto simp: delete_where_def distinct_map_filter)

abbreviation keeps_photos :: "media_db \<Rightarrow> media_db \<Rightarrow> bool" where
  "keeps_photos d d' \<equiv> (photos_wf d \<longrightarrow> photos_wf d') \<and> photo_identity d' = photo_identity d"

lemma keeps_photos_preorder: "reflp keeps_photos" "transp keeps_photos"
  by (auto simp: reflp_def transp_def)

lemma keeps_sql:
  "sql_rel keeps_photos (sql_insert_photo p b)" "sql_rel keeps_photos (sql_delete_photo i)"
  "sql_rel keeps_photos (sql_migrate_photo i ref b sm)"
  by (auto simp: sql_rel_def sql_insert_photo_def sql_delete_photo_def sql_migrate_photo_def Let_def put_photos_Inr
      delete_photos_wf split: sum.splits)

text \<open>The reading methods only read.\<close>

lemma scan_row_fst [simp]: "fst (scan_row q) = fst q"
  by (auto simp: scan_row_def split: prod.splits sum.splits)

lemma scan_rows_fst [simp]: "fst (scan_rows q) = fst q"
  by (auto simp: scan_rows_def split: prod.splits sum.splits)

lemma select_fst [simp]: "db (fst (run_sql (select f) s)) = db s" "db (fst (run_sql (select_row g) s)) = db s"
  by (metis prod.collapse select_db, metis prod.collapse select_row_db)

lemma reads_db [simp]:
  "db (fst (Get i s)) = db s" "db (fst (FindByContentHash h hash s)) = db s" "db (fst (ListByHousehold h s)) = db s"
  "db (fst (ListByBackend b i n s)) = db s"
  by (simp_all add: Get_def FindByContentHash_def ListByHousehold_def ListByBackend_def)

lemma ref_reads_db [simp]:
  "db (fst (ListAllStorageRefs b s)) = db s" "db (fst (ExistsByStorageRef ref b s)) = db s"
proof -
  show "db (fst (ListAllStorageRefs b s)) = db s"
    unfolding ListAllStorageRefs_def by (auto split: prod.splits sum.splits dest: select_db)
  show "db (fst (ExistsByStorageRef ref b s)) = db s"
    unfolding ExistsByStorageRef_def by (auto split: prod.splits sum.splits dest: select_row_db)
qed

lemma run_keeps: "sql_rel keeps_photos q \<Longrightarrow> run_sql q s = (s', r) \<Longrightarrow> keeps_photos (db s) (db s')"
  by (rule conn_relD [OF conn_rel_run_sql [OF keeps_photos_preorder(1)]])

lemma writes_keep:
  "keeps_photos (db s) (db (fst (Create R po s)))" "keeps_photos (db s) (db (fst (DeletePhoto i s)))"
  "keeps_photos (db s) (db (fst (MigrateStorageBackend i ref b hash s)))"
proof -
  show "keeps_photos (db s) (db (fst (Create R po s)))"
    by (cases po) (auto simp: Create_def split: prod.splits sum.splits dest: run_keeps [OF keeps_sql(1)])
  show "keeps_photos (db s) (db (fst (DeletePhoto i s)))"
    by (auto simp: DeletePhoto_def split: prod.splits sum.splits dest: run_keeps [OF keeps_sql(2)])
  show "keeps_photos (db s) (db (fst (MigrateStorageBackend i ref b hash s)))"
    by (auto simp: MigrateStorageBackend_def split: prod.splits sum.splits dest: run_keeps [OF keeps_sql(3)])
qed



section \<open>What the methods find and store\<close>

lemma scan_valid: "Valid_backend (p_backend r) \<Longrightarrow> scanPhoto r = Inr
    \<lparr>ph_id = PhotoID (p_id r), ph_household = HouseholdID (p_household r), ph_ref = p_ref r,
     ph_hash = (case p_hash r of None \<Rightarrow> [] | Some h \<Rightarrow> h), ph_size = p_size r, ph_type = p_type r,
     ph_taken_at = p_taken r, ph_uploaded_by = map_option MemberID (p_uploaded r),
     ph_created = p_created r, ph_backend = p_backend r\<rparr>"
  by (simp add: scanPhoto_def backend_text)

lemma scan_fields: "scanPhoto r = Inr p \<Longrightarrow> Valid_backend (p_backend r) \<Longrightarrow>
    ph_id p = PhotoID (p_id r) \<and> ph_household p = HouseholdID (p_household r) \<and> ph_ref p = p_ref r \<and>
    ph_backend p = p_backend r \<and> ph_type p = p_type r"
  by (auto simp: scan_valid)

text \<open>A found photo is a row of the table.\<close>

lemma get_row:
  assumes "Get i s = (s', Inr p)"
  shows "\<exists>r \<in> set (photo_rows (db s)). p_id r = pid i \<and> scanPhoto r = Inr p"
proof -
  obtain s1 q where q: "run_sql (select_row (\<lambda>d. filter (\<lambda>r. p_id r = pid i) (photo_rows d))) s = (s1, q)" by fastforce
  then obtain r where r: "q = Inr r" "scanPhoto r = Inr p"
    using assms by (auto simp: Get_def scan_row_def split: sum.splits)
  obtain rest where "filter (\<lambda>r. p_id r = pid i) (photo_rows (db s)) = r # rest"
    using select_row_Inr [OF q [unfolded r(1)]] by blast
  then have "r \<in> set (filter (\<lambda>r. p_id r = pid i) (photo_rows (db s)))" by simp
  then show ?thesis using r(2) by auto
qed

lemma find_row:
  assumes "FindByContentHash h hash s = (s', Inr p)"
  shows "\<exists>r \<in> set (photo_rows (db s)). p_household r = hid h \<and> p_hash r = Some hash \<and> scanPhoto r = Inr p"
proof -
  obtain s1 q where q: "run_sql (select_row (\<lambda>d. filter (\<lambda>r. p_household r = hid h \<and> p_hash r = Some hash) (photo_rows d))) s = (s1, q)"
    by fastforce
  then obtain r where r: "q = Inr r" "scanPhoto r = Inr p"
    using assms by (auto simp: FindByContentHash_def scan_row_def split: sum.splits if_splits)
  obtain rest where "filter (\<lambda>r. p_household r = hid h \<and> p_hash r = Some hash) (photo_rows (db s)) = r # rest"
    using select_row_Inr [OF q [unfolded r(1)]] by blast
  then have "r \<in> set (filter (\<lambda>r. p_household r = hid h \<and> p_hash r = Some hash) (photo_rows (db s)))" by simp
  then show ?thesis using r(2) by auto
qed

lemma filter_id_row:
  "distinct (map p_id ps) \<Longrightarrow> row \<in> set ps \<Longrightarrow> filter (\<lambda>r. p_id r = p_id row) ps = [row]"
proof (induction ps)
  case (Cons a ps)
  have "filter (\<lambda>r. p_id r = p_id a) ps = []" using Cons.prems(1) by (simp add: filter_empty_conv image_iff) metis
  moreover have "p_id a \<noteq> p_id row" if "row \<in> set ps" using that Cons.prems(1) by (metis distinct.simps(2) imageI list.set_map list.simps(9))
  ultimately show ?case using Cons by (cases "row = a") auto
qed simp

lemma get_exact:
  assumes "photos_wf (db s)" and "row \<in> set (photo_rows (db s))" and "p_id row = pid i" and "Get i s = (s', r)"
  shows "db s' = db s \<and> (faults s = [] \<longrightarrow> faults s' = []) \<and> (r = scanPhoto row \<or> r = Inl Media_other \<and> faults s \<noteq> [])"
proof -
  let ?q = "select_row (\<lambda>d. filter (\<lambda>r. p_id r = pid i) (photo_rows d))"
  have f: "filter (\<lambda>r. p_id r = pid i) (photo_rows (db s)) = [row]"
    using filter_id_row [OF _ assms(2)] assms(1,3) by (simp add: photos_wf_def)
  have sc: "\<exists>p. scanPhoto row = Inr p" using assms(1,2) scan_valid by (fastforce simp: photos_wf_def)
  obtain s1 x where q: "run_sql ?q s = (s1, x)" by fastforce
  have s': "s' = s1" using assms(4) q by (simp add: Get_def scan_row_def split: sum.splits)
  have x: "x = Inr row \<or> (\<exists>e. x = Inl e \<and> e \<noteq> ErrNoRows \<and> faults s \<noteq> [])"
  proof (cases x)
    case (Inl e)
    have "e \<noteq> ErrNoRows" using select_row_none q f Inl by fastforce
    moreover have "faults s \<noteq> []" using run_sql_no_faults [of s ?q] q f Inl by (auto simp: select_row_def)
    ultimately show ?thesis using Inl by simp
  next
    case (Inr r')
    then show ?thesis using select_row_Inr [of "\<lambda>d. filter (\<lambda>r. p_id r = pid i) (photo_rows d)" s s1 r'] q f by simp
  qed
  have "db s1 = db s" using select_row_db [OF q] .
  moreover have "faults s = [] \<longrightarrow> faults s1 = []" using run_sql_no_faults_left q by blast
  ultimately show ?thesis using s' x sc assms(4) q by (auto simp: Get_def scan_row_def)
qed

definition row_of :: "photo \<Rightarrow> storage_backend \<Rightarrow> time \<Rightarrow> photo_row" where
  "row_of p backend now =
     \<lparr>p_id = pid (ph_id p), p_household = hid (ph_household p), p_ref = ph_ref p, p_backend = backend,
      p_hash = nullableText (ph_hash p), p_size = ph_size p, p_type = ph_type p, p_taken = ph_taken_at p,
      p_uploaded = memberArg (ph_uploaded_by p), p_created = now\<rparr>"

lemma create_row:
  assumes "Create R (Some p) s = (s', Inr p')"
  shows "p' = p\<lparr>ph_created := clock s, ph_backend := R\<rparr> \<and> photos_wf (db s') \<and>
    photo_rows (db s') = photo_rows (db s) @ [row_of p R (clock s)]"
proof -
  obtain now where c: "run_sql (sql_insert_photo p R) s = (s', Inr now)" "p' = p\<lparr>ph_created := now, ph_backend := R\<rparr>"
    using assms by (auto simp: Create_def split: prod.splits sum.splits)
  from run_sql_Inr [OF c(1)]
  have "put_photos (photo_rows (db s) @ [row_of p R (clock s)]) (db s) = Inr (db s') \<and> now = clock s"
    by (auto simp: sql_insert_photo_def row_of_def split: sum.splits)
  then show ?thesis using c(2) by (auto simp: put_photos_Inr)
qed

lemma create_duplicate: "Create R (Some p) s = (s', Inl ErrDuplicatePhoto) \<Longrightarrow> db s' = db s"
proof -
  assume a: "Create R (Some p) s = (s', Inl ErrDuplicatePhoto)"
  obtain s1 q where q: "run_sql (sql_insert_photo p R) s = (s1, q)" by fastforce
  then obtain e where e: "q = Inl e" "is_violation e uniqueViolation photoHouseholdContentHashUniq" "s' = s1"
    using a by (auto simp: Create_def mapFKViolation_def split: sum.splits if_splits)
  then have "e \<noteq> ConnError" by (auto simp: is_violation_def)
  then show "db s' = db s" using run_sql_Inl q e by blast
qed

lemma hash_text: "ValidContentHash sm \<Longrightarrow> trim_space sm = sm \<and> nullableText sm = Some sm"
proof -
  assume v: "ValidContentHash sm"
  have "is_hex c \<Longrightarrow> byte_at c < 0x80 \<and> \<not> is_space (byte_at c)" for c
    by (auto simp: is_hex_def is_space_def)
  then have "trim_space sm = sm"
    using v by (intro trim_space_plain) (auto simp: ValidContentHash_def is_ascii_def list_all_iff)
  moreover have "sm \<noteq> []" using v by (auto simp: ValidContentHash_def)
  ultimately show ?thesis by (simp add: nullableText_def)
qed

lemma id_collapse [simp]: "PhotoID (pid i) = i" "HouseholdID (hid h) = h" "MemberID (mid m) = m"
  by (cases i, simp) (cases h, simp, cases m, simp)

lemma scan_row_of:
  assumes "Valid_backend R" and "ValidContentHash (ph_hash p)"
  shows "scanPhoto (row_of p R now) = Inr (p\<lparr>ph_created := now, ph_backend := R\<rparr>)"
proof -
  have "map_option (MemberID \<circ> mid) x = x" for x by (cases x) simp_all
  then show ?thesis
    using assms hash_text [OF assms(2)] by (cases p) (simp add: scan_valid row_of_def memberArg_def option.map_comp)
qed

end
