(* ===== verification/Go_Os.thy ===== *)
theory Go_Os
  imports Go_Path Go_Fmt
begin

text \<open>
  What the photo store uses of Go's \<open>os\<close>: a tree of directories and regular files without
  symbolic links. Every call may fail for reasons outside the tree; the environment's script
  says which calls do. \<open>os.CreateTemp\<close> draws the random part of its names from a supply.
\<close>

datatype node = Dir | File bytes

datatype os_error = NotExist | OsOther

type_synonym tree = "(string list \<times> node) list"

record disk =
  nodes :: tree
  cwd :: "string option"
  os_faults :: "bool list"
  temp_names :: "nat \<Rightarrow> nat"
  temps :: nat

text \<open>A call: it may fail outright; otherwise it fails by itself or changes the tree.\<close>

definition os_call :: "(tree \<Rightarrow> os_error + tree \<times> 'a) \<Rightarrow> disk \<Rightarrow> disk \<times> (os_error + 'a)" where
  "os_call f d =
     (let failing = (os_faults d \<noteq> [] \<and> hd (os_faults d)); d = d\<lparr>os_faults := tl (os_faults d)\<rparr>
      in if failing then (d, Inl OsOther)
         else case f (nodes d) of
                Inl e \<Rightarrow> (d, Inl e)
              | Inr (t, a) \<Rightarrow> (d\<lparr>nodes := t\<rparr>, Inr a))"

text \<open>Where the system looks for a path; nowhere if it is relative and there is no working
  directory.\<close>

definition locate :: "disk \<Rightarrow> string \<Rightarrow> string list option" where
  "locate d p = map_option abs_comps (path_abs (cwd d) p)"

definition blocked :: "tree \<Rightarrow> string list \<Rightarrow> bool" where
  "blocked t p \<longleftrightarrow> list_ex (\<lambda>k. case map_of t (take k p) of Some (File _) \<Rightarrow> True | _ \<Rightarrow> False) [1..<length p]"

definition lookup_node :: "tree \<Rightarrow> string list \<Rightarrow> os_error + node" where
  "lookup_node t p =
     (if p = [] then Inr Dir
      else if blocked t p then Inl OsOther
      else case map_of t p of None \<Rightarrow> Inl NotExist | Some n \<Rightarrow> Inr n)"

definition is_dir :: "tree \<Rightarrow> string list \<Rightarrow> bool" where
  "is_dir t p \<longleftrightarrow> lookup_node t p = Inr Dir"

text \<open>\<open>Open\<close> and \<open>Stat\<close>.\<close>

definition os_lookup :: "string list \<Rightarrow> tree \<Rightarrow> os_error + tree \<times> node" where
  "os_lookup p t = (case lookup_node t p of Inl e \<Rightarrow> Inl e | Inr n \<Rightarrow> Inr (t, n))"

text \<open>\<open>Remove\<close> deletes a file or an empty directory.\<close>

definition os_remove :: "string list \<Rightarrow> tree \<Rightarrow> os_error + tree \<times> unit" where
  "os_remove p t =
     (case lookup_node t p of
        Inl e \<Rightarrow> Inl e
      | Inr (File _) \<Rightarrow> Inr (AList.delete p t, ())
      | Inr Dir \<Rightarrow>
          if p = [] \<or> list_ex (\<lambda>(q, _). strict_prefix p q) t then Inl OsOther else Inr (AList.delete p t, ()))"

text \<open>\<open>MkdirAll\<close>.\<close>

fun mkdirs :: "string list list \<Rightarrow> tree \<Rightarrow> os_error + tree \<times> unit" where
  "mkdirs [] t = Inr (t, ())"
| "mkdirs (p # ps) t =
     (case map_of t p of
        None \<Rightarrow> mkdirs ps (AList.update p Dir t)
      | Some Dir \<Rightarrow> mkdirs ps t
      | Some (File _) \<Rightarrow> Inl OsOther)"

definition os_mkdir_all :: "string list \<Rightarrow> tree \<Rightarrow> os_error + tree \<times> unit" where
  "os_mkdir_all p = mkdirs (map (\<lambda>k. take k p) [1..<length p + 1])"

definition os_create :: "string list \<Rightarrow> tree \<Rightarrow> os_error + tree \<times> unit" where
  "os_create p t =
     (if is_dir t (butlast p) \<and> map_of t p = None then Inr (AList.update p (File []) t, ()) else Inl OsOther)"

definition os_write :: "string list \<Rightarrow> bytes \<Rightarrow> tree \<Rightarrow> os_error + tree \<times> unit" where
  "os_write p b t = Inr (AList.update p (File b) t, ())"

text \<open>\<open>Rename\<close> of a file, replacing a file.\<close>

definition os_rename :: "string list \<Rightarrow> string list \<Rightarrow> tree \<Rightarrow> os_error + tree \<times> unit" where
  "os_rename p q t =
     (case lookup_node t p of
        Inr (File b) \<Rightarrow>
          if is_dir t (butlast q) \<and> (case lookup_node t q of Inr Dir \<Rightarrow> False | _ \<Rightarrow> True)
          then Inr (AList.update q (File b) (AList.delete p t), ())
          else Inl OsOther
      | Inr Dir \<Rightarrow> Inl OsOther
      | Inl e \<Rightarrow> Inl e)"

text \<open>\<open>CreateTemp\<close> with the pattern \<open>upload-*.tmp\<close>: the path of the new empty file.\<close>

definition temp_name :: "nat \<Rightarrow> string" where
  "temp_name n = ''upload-'' @ decimal n @ ''.tmp''"

definition os_create_temp :: "string \<Rightarrow> disk \<Rightarrow> disk \<times> (os_error + string)" where
  "os_create_temp dir d =
     (let path = path_join [dir, temp_name (temp_names d (temps d))]; d = d\<lparr>temps := temps d + 1\<rparr>
      in case locate d path of
           None \<Rightarrow> (d, Inl OsOther)
         | Some p \<Rightarrow>
             (case os_call (os_create p) d of
                (d, Inl e) \<Rightarrow> (d, Inl e)
              | (d, Inr _) \<Rightarrow> (d, Inr path)))"

text \<open>A call on the file at a path.\<close>

definition os_at :: "(string list \<Rightarrow> tree \<Rightarrow> os_error + tree \<times> 'a) \<Rightarrow> string \<Rightarrow> disk \<Rightarrow> disk \<times> (os_error + 'a)" where
  "os_at f path d = (case locate d path of None \<Rightarrow> (d, Inl OsOther) | Some p \<Rightarrow> os_call (f p) d)"

text \<open>A call that only can fail, as \<open>Seek\<close>.\<close>

definition os_seek :: "disk \<Rightarrow> disk \<times> (os_error + unit)" where
  "os_seek d = os_call (\<lambda>t. Inr (t, ())) d"

section \<open>Facts\<close>

lemma os_call_calm:
  "os_faults d = [] \<Longrightarrow> os_call f d = (case f (nodes d) of Inl e \<Rightarrow> (d, Inl e) | Inr (t, a) \<Rightarrow> (d\<lparr>nodes := t\<rparr>, Inr a))"
  by (simp add: os_call_def Let_def split: sum.splits)

lemma os_call_frame:
  "os_call f d = (d', r) \<Longrightarrow> cwd d' = cwd d \<and> temp_names d' = temp_names d \<and> temps d' = temps d"
  by (auto simp: os_call_def Let_def split: if_splits sum.splits)

lemma os_call_nodes:
  "os_call f d = (d', r) \<Longrightarrow> nodes d' = nodes d \<or> (\<exists>a. f (nodes d) = Inr (nodes d', a) \<and> r = Inr a)"
  by (auto simp: os_call_def Let_def split: if_splits sum.splits)

lemma os_call_Inr: "os_call f d = (d', Inr a) \<Longrightarrow> f (nodes d) = Inr (nodes d', a)"
  by (auto simp: os_call_def Let_def split: if_splits sum.splits)

lemma os_call_calm_left: "os_call f d = (d', r) \<Longrightarrow> os_faults d = [] \<Longrightarrow> os_faults d' = []"
  by (auto simp: os_call_def Let_def split: if_splits sum.splits)

lemma locate_cong: "cwd d' = cwd d \<Longrightarrow> locate d' p = locate d p"
  by (simp add: locate_def)

lemma temp_name_plain: "plain_comp (temp_name n)"
proof -
  have "CHR ''/'' \<notin> set (decimal n)"
  proof
    assume "CHR ''/'' \<in> set (decimal n)"
    from decimal_digits [OF this] show False by (simp add: is_digit_def)
  qed
  then show ?thesis by (simp add: plain_comp_def temp_name_def)
qed

lemma locate_eq:
  "s \<noteq> [] \<Longrightarrow> locate d s =
     (if rooted s then Some (abs_comps s)
      else map_option (\<lambda>w. if w = [] then abs_comps s else abs_comps (w @ CHR ''/'' # s)) (cwd d))"
  by (auto simp: locate_def path_abs_def path_join_def abs_comps_path_clean split: option.splits)

lemma locate_path_clean: "s \<noteq> [] \<Longrightarrow> locate d (path_clean s) = locate d s"
proof (cases "rooted s")
  case True
  moreover have "rooted (path_clean s)" using True by (simp add: path_clean_rooted rooted_def)
  moreover assume "s \<noteq> []"
  ultimately show ?thesis using path_clean_nonempty [of s] by (simp add: locate_eq abs_comps_path_clean)
next
  case False
  moreover assume "s \<noteq> []"
  ultimately show ?thesis
    using path_clean_relative [OF False] path_clean_nonempty [of s] abs_comps_sub_clean [OF False]
    by (cases "cwd d") (simp_all add: locate_eq abs_comps_path_clean)
qed

lemma locate_sub:
  assumes "s \<noteq> []"
  shows "locate d (s @ CHR ''/'' # t) =
     map_option (\<lambda>p. clean_loop True (rev p) (split_on (CHR ''/'') t)) (locate d s)"
proof (cases "rooted s")
  case True
  then show ?thesis using assms by (simp add: locate_eq rooted_append abs_comps_sub)
next
  case False
  then show ?thesis
    using assms abs_comps_sub [of s t] abs_comps_sub [of "w @ CHR ''/'' # s" t for w]
    by (cases "cwd d") (simp_all add: locate_eq rooted_append)
qed

text \<open>A path inside a directory is found under it, and so is its directory.\<close>

lemma locate_under:
  assumes "locate d root = Some r" and "root \<noteq> []" and "cs \<noteq> []" and "\<forall>c \<in> set cs. plain_comp c"
  shows "locate d (root @ CHR ''/'' # join_slash cs) = Some (r @ cs)"
  using assms clean_loop_plain [OF assms(4)] split_join [OF assms(3)] by (simp add: locate_sub plain_comp_def)

lemma join_slash_plain_nonempty: "cs \<noteq> [] \<Longrightarrow> \<forall>c \<in> set cs. plain_comp c \<Longrightarrow> join_slash cs \<noteq> []"
  by (cases cs rule: join_slash.cases) (auto simp: plain_comp_def)

lemma locate_join:
  assumes "locate d root = Some r" and "root \<noteq> []" and "cs \<noteq> []" and "\<forall>c \<in> set cs. plain_comp c"
  shows "locate d (path_join [root, join_slash cs]) = Some (r @ cs)"
  using locate_under [OF assms] join_slash_plain_nonempty [OF assms(3,4)] assms(2)
  by (simp add: path_join_def locate_path_clean)

lemma locate_dir:
  assumes "locate d root = Some r" and "root \<noteq> []" and "cs \<noteq> []" and "\<forall>c \<in> set (cs @ [c]). plain_comp c"
  shows "locate d (path_dir (path_join [root, join_slash (cs @ [c])])) = Some (r @ cs)"
proof -
  let ?s = "root @ CHR ''/'' # join_slash cs"
  have p: "\<forall>c \<in> set cs. plain_comp c" "plain_comp c" using assms(4) by simp_all
  have "clean_loop (rooted ?s) [] (split_on (CHR ''/'') ?s) \<noteq> []"
  proof -
    have "split_on (CHR ''/'') ?s = split_on (CHR ''/'') root @ butlast cs @ [last cs]"
      using split_join [OF assms(3)] p assms(3) by (simp add: split_on_two plain_comp_def)
    then have "clean_loop (rooted ?s) [] (split_on (CHR ''/'') ?s) =
        clean_loop (rooted ?s) [] (split_on (CHR ''/'') root @ butlast cs) @ [last cs]"
      using clean_loop_snoc [of "last cs" _ "[]" "split_on (CHR ''/'') root @ butlast cs"] p assms(3) by simp
    then show ?thesis by simp
  qed
  then have "path_clean (?s @ CHR ''/'' # c) = path_clean ?s @ CHR ''/'' # c"
    by (intro path_clean_snoc [OF p(2)]) simp_all
  then have "path_join [root, join_slash (cs @ [c])] = path_clean ?s @ CHR ''/'' # c"
    using assms(2,3) join_slash_plain_nonempty [OF _ assms(4)] by (simp add: path_join_def join_slash_snoc)
  then have "path_dir (path_join [root, join_slash (cs @ [c])]) = path_clean (path_clean ?s @ ''/'')"
    using p(2) by (simp add: path_dir_snoc plain_comp_def)
  moreover have "locate d (path_clean ?s) = Some (r @ cs)"
    using locate_under [OF assms(1-3) p(1)] by (simp add: locate_path_clean)
  ultimately show ?thesis
    using locate_sub [OF path_clean_nonempty, of d ?s "[]"] by (simp add: locate_path_clean)
qed

section \<open>Files\<close>

definition files :: "tree \<Rightarrow> string list \<Rightarrow> bytes option" where
  "files t p = (case map_of t p of Some (File b) \<Rightarrow> Some b | _ \<Rightarrow> None)"

lemma files_update [simp]: "files (AList.update p (File b) t) = (files t)(p \<mapsto> b)"
  by (simp add: files_def fun_eq_iff)

lemma files_update_dir: "files t p = None \<Longrightarrow> files (AList.update p Dir t) = files t"
  by (auto simp: files_def fun_eq_iff)

lemma files_delete [simp]: "files (AList.delete p t) = (files t)(p := None)"
  by (simp add: files_def fun_eq_iff)

lemma files_None: "map_of t p = None \<Longrightarrow> files t p = None"
  by (simp add: files_def)

lemma mkdirs_files: "mkdirs ps t = Inr (t', u) \<Longrightarrow> files t' = files t"
proof (induction ps arbitrary: t)
  case (Cons p ps)
  show ?case
  proof (cases "map_of t p")
    case None
    then have "mkdirs ps (AList.update p Dir t) = Inr (t', u)" using Cons.prems by simp
    from Cons.IH [OF this] show ?thesis using files_update_dir [OF files_None [OF None]] by simp
  next
    case (Some n)
    then show ?thesis using Cons by (cases n) auto
  qed
qed simp

lemma remove_files: "os_remove p t = Inr (t', u) \<Longrightarrow> files t' = (files t)(p := None) \<and> (\<forall>x. x \<noteq> p \<longrightarrow> map_of t' x = map_of t x)"
  by (auto simp: os_remove_def split: sum.splits node.splits if_splits)

lemma rename_files:
  assumes "os_rename p q t = Inr (t', u)"
  shows "\<exists>b. files t p = Some b \<and> files t' = (files t)(p := None, q := Some b)"
proof -
  obtain b where b: "lookup_node t p = Inr (File b)"
    using assms by (auto simp: os_rename_def split: sum.splits node.splits)
  then have "map_of t p = Some (File b)"
    by (auto simp: lookup_node_def split: if_splits option.splits)
  moreover have "t' = AList.update q (File b) (AList.delete p t)"
    using assms b by (auto simp: os_rename_def split: if_splits)
  ultimately show ?thesis by (simp add: files_def [of t p])
qed

lemma create_files: "os_create p t = Inr (t', u) \<Longrightarrow> map_of t p = None \<and> files t' = (files t)(p \<mapsto> [])"
  by (auto simp: os_create_def split: if_splits)

text \<open>The tree after a call: as it was, or as the call leaves it when it succeeds.\<close>

lemma os_at_effect:
  assumes "os_at f path d = (d', r)"
  shows "nodes d' = nodes d \<or> (\<exists>p a. locate d path = Some p \<and> f p (nodes d) = Inr (nodes d', a) \<and> r = Inr a)"
proof (cases "locate d path")
  case (Some p)
  then show ?thesis using assms os_call_nodes [of "f p" d d' r] by (simp add: os_at_def)
qed (use assms in \<open>simp add: os_at_def\<close>)

lemma os_at_frame:
  "os_at f path d = (d', r) \<Longrightarrow> cwd d' = cwd d \<and> (\<forall>p. locate d' p = locate d p) \<and> (os_faults d = [] \<longrightarrow> os_faults d' = [])"
  by (cases "locate d path") (auto simp: os_at_def dest: os_call_frame os_call_calm_left intro: locate_cong)

lemma os_at_Inr: "os_at f path d = (d', Inr a) \<Longrightarrow> \<exists>p. locate d path = Some p \<and> f p (nodes d) = Inr (nodes d', a)"
  by (cases "locate d path") (auto simp: os_at_def dest: os_call_Inr)

lemma os_at_calm:
  "os_faults d = [] \<Longrightarrow> locate d path = Some p \<Longrightarrow>
   os_at f path d = (case f p (nodes d) of Inl e \<Rightarrow> (d, Inl e) | Inr (t, a) \<Rightarrow> (d\<lparr>nodes := t\<rparr>, Inr a))"
  by (simp add: os_at_def os_call_calm)

lemma blocked_iff: "blocked t p \<longleftrightarrow> (\<exists>k b. 1 \<le> k \<and> k < length p \<and> map_of t (take k p) = Some (File b))"
proof -
  have "(case x of Some (File _) \<Rightarrow> True | _ \<Rightarrow> False) \<longleftrightarrow> (\<exists>b. x = Some (File b))" for x
    by (auto split: option.split node.split)
  then show ?thesis by (auto simp: blocked_def list_ex_iff)
qed

lemma lookup_below_dir:
  assumes "is_dir t r" and "map_of t (r @ [c]) = Some n"
  shows "lookup_node t (r @ [c]) = Inr n"
proof -
  have "\<not> blocked t (r @ [c])"
  proof (cases "r = []")
    case False
    then have "\<not> blocked t r" "map_of t r = Some Dir"
      using assms(1) by (auto simp: is_dir_def lookup_node_def split: if_splits option.splits)
    then show ?thesis by (auto simp: blocked_iff less_Suc_eq)
  qed (simp add: blocked_def)
  then show ?thesis using assms(2) by (simp add: lookup_node_def)
qed

lemma files_Some: "files t p = Some b \<longleftrightarrow> map_of t p = Some (File b)"
  by (auto simp: files_def split: option.split node.split)

lemma blocked_files: "blocked t p \<longleftrightarrow> (\<exists>k. 1 \<le> k \<and> k < length p \<and> files t (take k p) \<noteq> None)"
  by (auto simp: blocked_iff files_Some)

lemma lookup_file: "lookup_node t p = Inr (File b) \<longleftrightarrow> p \<noteq> [] \<and> \<not> blocked t p \<and> files t p = Some b"
  by (auto simp: lookup_node_def files_Some split: option.splits)

lemma remove_file: "p \<noteq> [] \<Longrightarrow> \<not> blocked t p \<Longrightarrow> files t p = Some b \<Longrightarrow> os_remove p t = Inr (AList.delete p t, ())"
  using lookup_file [of t p b] by (simp add: os_remove_def)

lemma is_dir_not_blocked: "is_dir t r \<Longrightarrow> \<not> blocked t r \<and> files t r = None \<or> r = []"
  by (auto simp: is_dir_def lookup_node_def files_def split: if_splits option.splits)

lemma dir_unblocks: "is_dir t r \<Longrightarrow> \<not> blocked t (r @ [c])"
  using is_dir_not_blocked [of t r] by (auto simp: blocked_files less_Suc_eq)

lemma create_temp_effect:
  assumes c: "os_create_temp dir d = (d', res)" and r: "locate d dir = Some r" and ne: "dir \<noteq> []"
  shows "cwd d' = cwd d \<and> (os_faults d = [] \<longrightarrow> os_faults d' = []) \<and>
    (case res of
       Inl e \<Rightarrow> nodes d' = nodes d
     | Inr path \<Rightarrow> \<exists>n. locate d path = Some (r @ [temp_name n]) \<and> path \<noteq> [] \<and> \<not> blocked (nodes d) (r @ [temp_name n]) \<and>
         files (nodes d) (r @ [temp_name n]) = None \<and> files (nodes d') = (files (nodes d))(r @ [temp_name n] \<mapsto> []))"
proof -
  let ?n = "temp_names d (temps d)" and ?d = "d\<lparr>temps := temps d + 1\<rparr>"
  let ?path = "path_join [dir, temp_name ?n]"
  have l: "locate d ?path = Some (r @ [temp_name ?n])"
    using locate_join [OF r ne, of "[temp_name ?n]"] temp_name_plain [of ?n] by simp
  moreover have "locate ?d ?path = locate d ?path" by (rule locate_cong) simp
  ultimately have l': "locate ?d ?path = Some (r @ [temp_name ?n])" by simp
  have pne: "?path \<noteq> []" using ne path_clean_nonempty by (auto simp: path_join_def Let_def)
  obtain q where o: "os_call (os_create (r @ [temp_name ?n])) ?d = (d', q)" "res = (case q of Inl e \<Rightarrow> Inl e | Inr _ \<Rightarrow> Inr ?path)"
    using c l' by (auto simp: os_create_temp_def Let_def split: prod.splits sum.splits)
  have frame: "cwd d' = cwd d" "os_faults d = [] \<longrightarrow> os_faults d' = []"
    using os_call_frame [OF o(1)] os_call_calm_left [OF o(1)] by simp_all
  show ?thesis
  proof (cases q)
    case (Inl e)
    then show ?thesis using frame o os_call_nodes [OF o(1)] by auto
  next
    case (Inr u)
    have "os_create (r @ [temp_name ?n]) (nodes d) = Inr (nodes d', u)" using os_call_Inr [OF o(1) [unfolded Inr]] by simp
    moreover from this have "is_dir (nodes d) r" by (auto simp: os_create_def split: if_splits)
    ultimately show ?thesis
      using frame Inr o(2) l pne create_files [of "r @ [temp_name ?n]" "nodes d" "nodes d'" u] dir_unblocks
      by (auto simp: files_None)
  qed
qed

lemma lookup_same: "os_lookup p t = Inr (t', n) \<Longrightarrow> t' = t"
  by (auto simp: os_lookup_def split: sum.splits)

lemma rename_lookup:
  assumes "os_rename p q t = Inr (t', u)" and "p \<noteq> q" and "q \<noteq> []" and "files t p = Some b"
  shows "lookup_node t' q = Inr (File b)"
proof -
  have "is_dir t (butlast q)"
    using assms(1) by (auto simp: os_rename_def split: sum.splits node.splits if_splits)
  then have nb: "\<not> blocked t q" using dir_unblocks [of t "butlast q" "last q"] assms(3) by simp
  obtain b' where f: "files t p = Some b'" "files t' = (files t)(p := None, q := Some b')"
    using rename_files [OF assms(1)] by blast
  have "\<not> blocked t' q"
    using nb f(2) by (auto simp: blocked_files split: if_splits)
  then show ?thesis using f assms(3,4) by (simp add: lookup_file)
qed

text \<open>\<open>MkdirAll\<close> succeeds where no file is in the way, and makes every directory of the list.\<close>

lemma mkdirs_success:
  assumes "\<forall>p \<in> set ps. files t p = None"
  shows "\<exists>t'. mkdirs ps t = Inr (t', ()) \<and> (\<forall>p. map_of t' p = (if p \<in> set ps then Some Dir else map_of t p))"
  using assms
proof (induction ps arbitrary: t)
  case (Cons p ps)
  show ?case
  proof (cases "map_of t p")
    case None
    have "\<forall>q \<in> set ps. files (AList.update p Dir t) q = None"
      using Cons.prems files_update_dir [OF files_None [OF None]] by simp
    from Cons.IH [OF this] None show ?thesis by (auto simp: update_conv)
  next
    case (Some n)
    then have "n = Dir" using Cons.prems by (cases n) (auto simp: files_def)
    with Cons.IH [of t] Cons.prems Some show ?thesis by auto
  qed
qed simp

lemma mkdir_all_success:
  assumes "\<forall>k \<le> length p. files t (take k p) = None"
  shows "\<exists>t'. os_mkdir_all p t = Inr (t', ()) \<and> is_dir t' p \<and>
    (\<forall>q. map_of t' q = (if q \<noteq> [] \<and> prefix q p then Some Dir else map_of t q))"
proof -
  have s: "set (map (\<lambda>k. take k p) [1..<length p + 1]) = {q. q \<noteq> [] \<and> prefix q p}"
  proof -
    have "\<exists>k. 1 \<le> k \<and> k < length p + 1 \<and> q = take k p" if "q \<noteq> []" "prefix q p" for q
      using that by (intro exI [of _ "length q"]) (auto simp: prefix_def Suc_le_eq)
    moreover have "take k p \<noteq> [] \<and> prefix (take k p) p" if "1 \<le> k" "k < length p + 1" for k
      using that by (auto simp: take_is_prefix)
    ultimately show ?thesis by (auto simp: image_iff simp del: upt_Suc) (metis atLeastLessThan_iff)
  qed
  have "\<forall>q \<in> set (map (\<lambda>k. take k p) [1..<length p + 1]). files t q = None" using assms by auto
  from mkdirs_success [OF this] s
  obtain t' where t': "os_mkdir_all p t = Inr (t', ())" "\<forall>q. map_of t' q = (if q \<noteq> [] \<and> prefix q p then Some Dir else map_of t q)"
    by (auto simp: os_mkdir_all_def)
  have "\<not> blocked t' p" using t'(2) by (auto simp: blocked_iff take_is_prefix)
  then have "is_dir t' p" using t'(2) by (simp add: is_dir_def lookup_node_def)
  then show ?thesis using t' by blast
qed

lemma rename_success:
  assumes "p \<noteq> []" and "\<not> blocked t p" and "files t p = Some b" and "is_dir t (butlast q)" and "map_of t q \<noteq> Some Dir" and "q \<noteq> []"
  shows "os_rename p q t = Inr (AList.update q (File b) (AList.delete p t), ())"
proof -
  have "lookup_node t p = Inr (File b)" using assms(1-3) by (simp add: lookup_file)
  moreover have "\<not> (lookup_node t q = Inr Dir)" using assms(5,6) by (auto simp: lookup_node_def split: option.splits)
  then have "case lookup_node t q of Inr Dir \<Rightarrow> False | _ \<Rightarrow> True" by (auto split: sum.splits node.splits)
  ultimately show ?thesis using assms(4) by (simp add: os_rename_def)
qed

end
