(* ===== verification/Photo_Validation.thy ===== *)
theory Photo_Validation
  imports Photo_Domain Go_Os Jpeg_Scrub
begin

text \<open>
  Upload validation and storage keys, \<open>media/adapter/photo_validation.go\<close>. The image decoders
  and SHA-256 are parameters; of \<open>http.DetectContentType\<close> the three accepted signatures are
  modelled, every other answer being the one default type.
\<close>

section \<open>Types and sniffing\<close>

definition acceptedTypes :: "(string \<times> string) list" where
  "acceptedTypes = [(ContentTypeJPEG, ''jpg''), (ContentTypePNG, ''png''), (ContentTypeWebP, ''webp'')]"

definition formatToType :: "(string \<times> string) list" where
  "formatToType = [(''jpeg'', ContentTypeJPEG), (''png'', ContentTypePNG), (''webp'', ContentTypeWebP)]"

definition sniffLen :: nat where "sniffLen = 512"

text \<open>\<open>http.DetectContentType\<close>.\<close>

definition detect_content_type :: "bytes \<Rightarrow> string" where
  "detect_content_type b =
     (if prefix [0xFF, 0xD8, 0xFF] b then ContentTypeJPEG
      else if prefix [0x89, 0x50, 0x4E, 0x47, 0x0D, 0x0A, 0x1A, 0x0A] b then ContentTypePNG
      else if take 4 b = [0x52, 0x49, 0x46, 0x46] \<and> take 6 (drop 8 b) = [0x57, 0x45, 0x42, 0x50, 0x56, 0x50]
      then ContentTypeWebP
      else ''application/octet-stream'')"

definition canonicalType :: "string \<Rightarrow> string" where
  "canonicalType t = to_lower (trim_space (takeWhile (\<lambda>c. c \<noteq> CHR '';'') t))"

section \<open>Staging\<close>

record image_lib =
  il_config :: "bytes \<Rightarrow> (int \<times> int \<times> string) option"   \<comment> \<open>\<open>image.DecodeConfig\<close>: width, height, format\<close>
  il_decodes :: "bytes \<Rightarrow> bool"                         \<comment> \<open>\<open>image.Decode\<close> succeeds\<close>
  il_sha256 :: "bytes \<Rightarrow> bytes"

record staged_upload =
  su_path :: string
  su_type :: string
  su_hash :: string
  su_size :: int

text \<open>How many bytes \<open>io.LimitReader\<close> lets through: \<open>maxUploadBytes + 1\<close> in 64 bits, where a
  negative limit lets nothing through.\<close>

definition upload_limit :: "int \<Rightarrow> nat" where
  "upload_limit max_bytes = nat (sint (word_of_int (max_bytes + 1) :: 64 word))"

definition removeStaged :: "string \<Rightarrow> disk \<Rightarrow> disk" where
  "removeStaged path d = fst (os_at os_remove path d)"

text \<open>The checks on the staged file, from the copy to the full decode.\<close>

definition stage_body :: "image_lib \<Rightarrow> int \<Rightarrow> string \<Rightarrow> string \<Rightarrow> bytes \<Rightarrow> bool \<Rightarrow> disk \<Rightarrow> disk \<times> (media_error + unit)" where
  "stage_body lib max_bytes path sniffed b reader_fails d =
     (case os_at (\<lambda>p. os_write p b) path d of
        (d, Inl _) \<Rightarrow> (d, Inl Media_other)
      | (d, Inr _) \<Rightarrow>
          if reader_fails then (d, Inl Media_other)
          else if int (length b) > max_bytes then (d, Inl ErrPhotoTooLarge)
          else case os_seek d of
            (d, Inl _) \<Rightarrow> (d, Inl Media_other)
          | (d, Inr _) \<Rightarrow>
              (case il_config lib b of
                 None \<Rightarrow> (d, Inl ErrInvalidPhoto)
               | Some (w, h, format) \<Rightarrow>
                   if map_of formatToType format \<noteq> Some sniffed then (d, Inl ErrInvalidPhoto)
                   else if pixels64 w h > maxDecodePixels then (d, Inl ErrInvalidPhoto)
                   else case os_seek d of
                     (d, Inl _) \<Rightarrow> (d, Inl Media_other)
                   | (d, Inr _) \<Rightarrow> (d, if il_decodes lib b then Inr () else Inl ErrInvalidPhoto)))"

definition validateAndStage ::
    "image_lib \<Rightarrow> string \<Rightarrow> int \<Rightarrow> upload \<Rightarrow> disk \<Rightarrow> disk \<times> (media_error + staged_upload)" where
  "validateAndStage lib dir max_bytes up d =
     (let limit = upload_limit max_bytes;
          b = take limit (up_bytes up);
          reader_fails = (up_fails up \<and> length (up_bytes up) < limit);
          sniffed = canonicalType (detect_content_type (take sniffLen b))
      in if reader_fails \<and> length b < sniffLen then (d, Inl Media_other)
         else if map_of acceptedTypes sniffed = None then (d, Inl ErrUnsupportedMediaType)
         else case os_create_temp dir d of
           (d, Inl _) \<Rightarrow> (d, Inl Media_other)
         | (d, Inr path) \<Rightarrow>
             (case stage_body lib max_bytes path sniffed b reader_fails d of
                (d, Inl e) \<Rightarrow> (removeStaged path d, Inl e)
              | (d, Inr _) \<Rightarrow>
                  (d, Inr \<lparr>su_path = path, su_type = sniffed, su_hash = hex_encode (il_sha256 lib b),
                           su_size = int (length b)\<rparr>)))"

section \<open>Storage keys\<close>

definition classKeyPrefix :: "string list \<Rightarrow> photo_class \<Rightarrow> media_error + string" where
  "classKeyPrefix registered c = (if Valid_class registered c then Inr (class_String c) else Inl Media_other)"

definition validExtension :: "string \<Rightarrow> bool" where
  "validExtension ext \<longleftrightarrow> ext \<in> snd ` set acceptedTypes"

definition buildStorageKey ::
    "string list \<Rightarrow> household_id \<Rightarrow> photo_class \<Rightarrow> string \<Rightarrow> string \<Rightarrow> media_error + string" where
  "buildStorageKey registered h c sm ext =
     (case classKeyPrefix registered c of
        Inl e \<Rightarrow> Inl e
      | Inr class_prefix \<Rightarrow>
          if \<not> ValidContentHash sm then Inl Media_other
          else if \<not> validExtension ext then Inl Media_other
          else Inr (path_join [''households'', uuid_text (hid h), class_prefix, take 2 sm, sm @ ''.'' @ ext]))"

definition ExtensionForContentType :: "string \<Rightarrow> string option" where
  "ExtensionForContentType t = map_of acceptedTypes t"

section \<open>The keys\<close>

text \<open>Every registered class went through \<open>RegisterPhotoClass\<close>.\<close>

definition registry_ok :: "string list \<Rightarrow> bool" where
  "registry_ok registered \<longleftrightarrow> list_all classIdentifier registered \<and> distinct registered"

lemma register_ok: "registry_ok reg \<Longrightarrow> RegisterPhotoClass name reg = Some (c, reg') \<Longrightarrow> registry_ok reg' \<and> Valid_class reg' c"
  by (auto simp: registry_ok_def RegisterPhotoClass_def Valid_class_def classIdentifier_def split: if_splits)

definition key_comps :: "household_id \<Rightarrow> photo_class \<Rightarrow> string \<Rightarrow> string \<Rightarrow> string list" where
  "key_comps h c sm ext = [''households'', uuid_text (hid h), c, take 2 sm, sm @ ''.'' @ ext]"

lemma valid_ext_plain: "validExtension ext \<Longrightarrow> c \<in> set ext \<Longrightarrow> c \<noteq> CHR ''/'' \<and> c \<noteq> CHR ''.''"
  by (auto simp: validExtension_def acceptedTypes_def)

lemma plain_compI: "c \<noteq> [] \<Longrightarrow> \<forall>x \<in> set c. x \<noteq> CHR ''/'' \<and> x \<noteq> CHR ''.'' \<Longrightarrow> plain_comp c"
  unfolding plain_comp_def by (metis list.set_intros(1))

lemma key_comps_plain:
  assumes "classIdentifier c" and "ValidContentHash sm" and "validExtension ext"
  shows "\<forall>x \<in> set (key_comps h c sm ext). plain_comp x"
proof -
  have hx: "x \<noteq> CHR ''/'' \<and> x \<noteq> CHR ''.''" if "x \<in> set sm" for x
    using that assms(2) hex_no_slash by (auto simp: ValidContentHash_def list_all_iff)
  have sm: "length sm = 64" using assms(2) by (simp add: ValidContentHash_def)
  have "plain_comp ''households''" by (rule plain_compI) auto
  moreover have "plain_comp (uuid_text (hid h))"
    by (rule plain_compI [OF uuid_text_nonempty]) (use uuid_text_chars hex_no_slash in fastforce)
  moreover have "plain_comp c"
    by (rule plain_compI) (use assms(1) class_no_slash in \<open>auto simp: classIdentifier_def\<close>)
  moreover have "plain_comp (take 2 sm)"
    by (rule plain_compI) (use sm hx in \<open>auto dest: in_set_takeD\<close>)
  moreover have "plain_comp (sm @ ''.'' @ ext)"
  proof -
    have "sm @ ''.'' @ ext \<noteq> y" if "length y \<le> 2" for y using sm that by auto
    then have "sm @ ''.'' @ ext \<noteq> ''.''" "sm @ ''.'' @ ext \<noteq> ''..''" "sm @ ''.'' @ ext \<noteq> []" by simp_all
    moreover have "CHR ''/'' \<notin> set (sm @ ''.'' @ ext)" using hx valid_ext_plain [OF assms(3)] by auto
    ultimately show ?thesis by (simp add: plain_comp_def)
  qed
  ultimately show ?thesis by (simp add: key_comps_def)
qed

lemma path_clean_plain: "cs \<noteq> [] \<Longrightarrow> \<forall>c \<in> set cs. plain_comp c \<Longrightarrow> path_clean (join_slash cs) = join_slash cs"
proof -
  assume ne: "cs \<noteq> []" and p: "\<forall>c \<in> set cs. plain_comp c"
  have "\<not> rooted (join_slash cs)"
  proof -
    have n: "name_like (hd cs)" using ne p by (simp add: plain_comp_def name_like_def)
    then have "hd (hd cs) \<noteq> CHR ''/''" using hd_in_set [of "hd cs"] by (metis name_like_def)
    then show ?thesis using join_slash_head [OF ne n] by (simp add: rooted_def)
  qed
  moreover have "split_on (CHR ''/'') (join_slash cs) = cs"
    using split_join [OF ne] p by (simp add: plain_comp_def)
  ultimately show ?thesis using clean_loop_plain [OF p] ne by (simp add: path_clean_def)
qed

lemma storage_key_form:
  assumes "registry_ok registered" and "buildStorageKey registered h c sm ext = Inr key"
  shows "key = join_slash (key_comps h c sm ext)" "\<forall>x \<in> set (key_comps h c sm ext). plain_comp x"
proof -
  have v: "Valid_class registered c" "ValidContentHash sm" "validExtension ext"
    using assms(2) by (auto simp: buildStorageKey_def classKeyPrefix_def split: if_splits)
  then have "classIdentifier c" using assms(1) by (simp add: Valid_class_def registry_ok_def list_all_iff)
  then show p: "\<forall>x \<in> set (key_comps h c sm ext). plain_comp x" using v by (intro key_comps_plain)
  have "filter (\<lambda>e. e \<noteq> []) (key_comps h c sm ext) = key_comps h c sm ext"
    using p by (simp add: filter_id_conv plain_comp_def)
  then have "path_join (key_comps h c sm ext) = join_slash (key_comps h c sm ext)"
    using path_clean_plain [OF _ p] by (simp add: path_join_def key_comps_def)
  then show "key = join_slash (key_comps h c sm ext)"
    using assms(2) v
    by (simp add: buildStorageKey_def classKeyPrefix_def key_comps_def class_String_def Valid_class_def)
qed

text \<open>Storage keys do not collide: two uploads get the same key only if they are of the same
  household, class, content hash and type; and the class of a key can be read off it.\<close>

theorem storage_keys_distinct:
  assumes "registry_ok registered"
    and "buildStorageKey registered h c sm ext = Inr key" and "buildStorageKey registered h' c' sm' ext' = Inr key"
  shows "h = h' \<and> c = c' \<and> sm = sm' \<and> ext = ext'"
proof -
  note k = storage_key_form [OF assms(1,2)] and k' = storage_key_form [OF assms(1,3)]
  have split: "split_on (CHR ''/'') (join_slash cs) = cs" if "\<forall>x \<in> set cs. plain_comp x" "cs \<noteq> []" for cs
    using split_join [OF that(2)] that(1) by (simp add: plain_comp_def)
  have "key_comps h c sm ext = key_comps h' c' sm' ext'"
    using k(1) k'(1) split [OF k(2)] split [OF k'(2)] by (simp add: key_comps_def)
  moreover have "length sm = length sm'"
    using assms(2,3) by (auto simp: buildStorageKey_def ValidContentHash_def split: sum.splits if_splits)
  ultimately show ?thesis by (simp add: key_comps_def uuid_text_inj)
qed

section \<open>What staging does to the disk\<close>

text \<open>An upload that passes every check, as the type it was sniffed as.\<close>

definition acceptable :: "image_lib \<Rightarrow> int \<Rightarrow> string \<Rightarrow> bytes \<Rightarrow> bool" where
  "acceptable lib max_bytes sniffed b \<longleftrightarrow>
     int (length b) \<le> max_bytes \<and> il_decodes lib b \<and>
     (\<exists>w h f. il_config lib b = Some (w, h, f) \<and> map_of formatToType f = Some sniffed \<and> pixels64 w h \<le> maxDecodePixels)"

definition staging_path :: "string list \<Rightarrow> string list \<Rightarrow> bool" where
  "staging_path r p \<longleftrightarrow> (\<exists>n. p = r @ [temp_name n])"

lemma os_seek_effect: "os_seek d = (d', r) \<Longrightarrow> nodes d' = nodes d \<and> cwd d' = cwd d \<and> (os_faults d = [] \<longrightarrow> os_faults d' = [])"
  using os_call_nodes [of "\<lambda>t. Inr (t, ())" d d' r] os_call_frame os_call_calm_left by (auto simp: os_seek_def)

lemma stage_body_effect:
  assumes "stage_body lib max_bytes path sniffed b reader_fails d = (d', res)" and T: "locate d path = Some T"
  shows "cwd d' = cwd d \<and> (os_faults d = [] \<longrightarrow> os_faults d' = []) \<and>
    (files (nodes d') = files (nodes d) \<or> files (nodes d') = (files (nodes d))(T \<mapsto> b)) \<and>
    (res = Inr () \<longrightarrow> files (nodes d') = (files (nodes d))(T \<mapsto> b) \<and> \<not> reader_fails \<and> acceptable lib max_bytes sniffed b)"
proof -
  obtain d1 q where w: "os_at (\<lambda>p. os_write p b) path d = (d1, q)" by fastforce
  have f1: "cwd d1 = cwd d" "os_faults d = [] \<longrightarrow> os_faults d1 = []" using os_at_frame [OF w] by simp_all
  have n1: "files (nodes d1) = files (nodes d) \<or> files (nodes d1) = (files (nodes d))(T \<mapsto> b)"
  proof -
    have "nodes d1 = nodes d \<or> nodes d1 = AList.update T (File b) (nodes d)"
      using os_at_effect [OF w] T by (auto simp: os_write_def)
    then show ?thesis by (elim disjE) simp_all
  qed
  show ?thesis
  proof (cases q)
    case (Inl e)
    then show ?thesis using assms(1) w f1 n1 by (auto simp: stage_body_def)
  next
    case (Inr u)
    have n1': "files (nodes d1) = (files (nodes d))(T \<mapsto> b)"
    proof -
      have "nodes d1 = AList.update T (File b) (nodes d)"
        using os_at_Inr [OF w [unfolded Inr]] T by (auto simp: os_write_def)
      then show ?thesis by simp
    qed
    obtain d2 q2 where s2: "os_seek d1 = (d2, q2)" by fastforce
    obtain d3 q3 where s3: "os_seek d2 = (d3, q3)" by fastforce
    have "d' \<in> {d1, d2, d3} \<and> (res = Inr () \<longrightarrow> \<not> reader_fails \<and> acceptable lib max_bytes sniffed b)"
      using assms(1) w Inr s2 s3
      by (auto simp: stage_body_def acceptable_def split: if_splits option.splits sum.splits)
    then show ?thesis
      using f1 n1' os_seek_effect [OF s2] os_seek_effect [OF s3] by auto
  qed
qed

lemma removeStaged_effect:
  assumes T: "locate d path = Some T"
  shows "cwd (removeStaged path d) = cwd d \<and>
    (files (nodes (removeStaged path d)) = files (nodes d) \<or> files (nodes (removeStaged path d)) = (files (nodes d))(T := None)) \<and>
    (os_faults d = [] \<longrightarrow> T \<noteq> [] \<longrightarrow> \<not> blocked (nodes d) T \<longrightarrow> files (nodes d) T \<noteq> None \<longrightarrow>
      files (nodes (removeStaged path d)) = (files (nodes d))(T := None))"
proof -
  obtain d1 q where r: "os_at os_remove path d = (d1, q)" by fastforce
  have "os_faults d = [] \<Longrightarrow> T \<noteq> [] \<Longrightarrow> \<not> blocked (nodes d) T \<Longrightarrow> files (nodes d) T \<noteq> None \<Longrightarrow>
      files (nodes d1) = (files (nodes d))(T := None)"
    using os_at_calm [of d path T os_remove] T r remove_file [of T "nodes d"] by (auto simp: files_delete)
  then show ?thesis
    using os_at_frame [OF r] os_at_effect [OF r] T remove_files [of T "nodes d" "nodes d1"] r
    by (auto simp: removeStaged_def)
qed

lemma upload_limit: "0 < m \<Longrightarrow> m < 2 ^ 63 \<Longrightarrow> upload_limit m = (if m = 2 ^ 63 - 1 then 0 else nat (m + 1))"
proof -
  assume m: "0 < m" "m < 2 ^ 63"
  show ?thesis
  proof (cases "m = 2 ^ 63 - 1")
    case True
    have "sint (word_of_int (2 ^ 63) :: 64 word) = - (2 ^ 63)" by simp
    then show ?thesis using True by (simp add: upload_limit_def)
  next
    case False
    then have "m + 1 < 2 ^ 63" using m by simp
    then have "sint (word_of_int (m + 1) :: 64 word) = m + 1"
      using m unfolding int_word_sint by simp
    then show ?thesis using False by (simp add: upload_limit_def)
  qed
qed

lemma proper_take: "k < length p \<Longrightarrow> take k p \<noteq> p"
  by (metis length_take min.strict_order_iff min.commute)

lemma not_blocked_update:
  assumes "\<not> blocked t p" and "files t' = (files t)(p \<mapsto> b)"
  shows "\<not> blocked t' p"
  using assms proper_take by (auto simp: blocked_files)

lemma empty_not_accepted: "map_of acceptedTypes (canonicalType (detect_content_type [])) = None"
proof -
  have a: "is_ascii ''application/octet-stream''" by (simp add: is_ascii_def)
  have "trim_space ''application/octet-stream'' = ''application/octet-stream''"
    by (rule trim_space_plain [OF a]) (simp add: is_space_def)
  moreover have "to_lower ''application/octet-stream'' = ''application/octet-stream''"
    unfolding to_lower_ascii [OF a] by simp
  ultimately have "canonicalType ''application/octet-stream'' = ''application/octet-stream''"
    by (simp add: canonicalType_def)
  then show ?thesis
    by (simp add: detect_content_type_def acceptedTypes_def ContentTypeJPEG_def ContentTypePNG_def ContentTypeWebP_def)
qed

text \<open>An accepted body within the limit is the whole upload: the reader's own limit cut nothing off.\<close>

lemma whole_upload:
  assumes "0 < m" and "m < 2 ^ 63" and "b = take (upload_limit m) bytes" and "int (length b) \<le> m"
    and "map_of acceptedTypes (canonicalType (detect_content_type (take sniffLen b))) \<noteq> None"
  shows "b = bytes" and "length bytes < upload_limit m"
proof -
  have "upload_limit m \<noteq> 0" using assms(3,5) empty_not_accepted by (auto intro: ccontr)
  then have "upload_limit m = nat (m + 1)" using upload_limit [OF assms(1,2)] by (simp split: if_splits)
  then show "length bytes < upload_limit m" using assms(1,3,4) by auto
  then show "b = bytes" by (simp add: assms(3))
qed

text \<open>A staged file that is not needed any more is removed, and then the disk is as before.\<close>

lemma removed_again:
  assumes "locate d path = Some T" and "T \<noteq> []" and "\<not> blocked (nodes d) T" and "files (nodes d) T = None"
    and "files (nodes d2) = (files (nodes d))(T \<mapsto> x)" and "cwd d2 = cwd d" and "os_faults d = [] \<longrightarrow> os_faults d2 = []"
  defines "d' \<equiv> removeStaged path d2"
  shows "cwd d' = cwd d \<and> (os_faults d = [] \<longrightarrow> os_faults d' = []) \<and>
    (\<forall>p. p \<noteq> T \<longrightarrow> files (nodes d') p = files (nodes d) p) \<and> (os_faults d = [] \<longrightarrow> files (nodes d') = files (nodes d))"
proof -
  have "locate d2 path = Some T" using assms(1,6) locate_cong by metis
  note eff = removeStaged_effect [OF this]
  have "\<not> blocked (nodes d2) T" by (rule not_blocked_update [OF assms(3,5)])
  then have "os_faults d = [] \<longrightarrow> files (nodes d') = files (nodes d)"
    using eff assms(2,4,5,7) by (auto simp: d'_def fun_upd_idem)
  moreover have "\<forall>p. p \<noteq> T \<longrightarrow> files (nodes d') p = files (nodes d) p"
    using eff assms(5) by (auto simp: d'_def)
  moreover have "os_faults d = [] \<longrightarrow> os_faults d' = []"
    using assms(7) by (cases "os_at os_remove path d2") (auto simp: d'_def removeStaged_def dest: os_at_frame)
  ultimately show ?thesis using assms(6) eff by (simp add: d'_def)
qed

lemma staging_failed:
  assumes "stage_body lib max_bytes path sniffed b fails d1 = (d2, Inl e)" and T: "locate d path = Some T" "T \<noteq> []"
      "\<not> blocked (nodes d) T" "files (nodes d) T = None" and "files (nodes d1) = (files (nodes d))(T \<mapsto> [])"
    and "cwd d1 = cwd d" and "os_faults d = [] \<longrightarrow> os_faults d1 = []"
  defines "d' \<equiv> removeStaged path d2"
  shows "cwd d' = cwd d \<and> (os_faults d = [] \<longrightarrow> os_faults d' = []) \<and>
    (\<forall>p. p \<noteq> T \<longrightarrow> files (nodes d') p = files (nodes d) p) \<and> (os_faults d = [] \<longrightarrow> files (nodes d') = files (nodes d))"
proof -
  have "locate d1 path = Some T" using T(1) assms(7) locate_cong by metis
  note eff = stage_body_effect [OF assms(1) this]
  then obtain x where "files (nodes d2) = (files (nodes d))(T \<mapsto> x)" using assms(6) by auto
  from removed_again [OF T this] eff assms(7,8) show ?thesis unfolding d'_def by simp
qed

text \<open>Staging keeps to its own file, and a success means that the whole upload passed.\<close>

lemma validate_effect:
  assumes v: "validateAndStage lib dir max_bytes up d = (d', res)" and r: "locate d dir = Some r" and ne: "dir \<noteq> []"
    and m: "0 < max_bytes" "max_bytes < 2 ^ 63"
  shows "cwd d' = cwd d \<and> (os_faults d = [] \<longrightarrow> os_faults d' = []) \<and>
    (case res of
       Inl e \<Rightarrow> (\<forall>p. \<not> staging_path r p \<longrightarrow> files (nodes d') p = files (nodes d) p) \<and>
                (os_faults d = [] \<longrightarrow> files (nodes d') = files (nodes d))
     | Inr s \<Rightarrow> \<exists>T. staging_path r T \<and> locate d (su_path s) = Some T \<and> files (nodes d) T = None \<and> \<not> blocked (nodes d) T \<and>
         files (nodes d') = (files (nodes d))(T \<mapsto> up_bytes up) \<and>
         su_size s = int (length (up_bytes up)) \<and> su_hash s = hex_encode (il_sha256 lib (up_bytes up)) \<and>
         map_of acceptedTypes (su_type s) \<noteq> None \<and> \<not> up_fails up \<and> acceptable lib max_bytes (su_type s) (up_bytes up))"
proof -
  define b where "b = take (upload_limit max_bytes) (up_bytes up)"
  define fails where "fails = (up_fails up \<and> length (up_bytes up) < upload_limit max_bytes)"
  define sniffed where "sniffed = canonicalType (detect_content_type (take sniffLen b))"
  note v' = v [unfolded validateAndStage_def Let_def, folded b_def fails_def, folded sniffed_def]
  obtain d1 q1 where c: "os_create_temp dir d = (d1, q1)" by fastforce
  note eff1 = create_temp_effect [OF c r ne]
  consider (refused) "d' = d" "\<exists>e. res = Inl e" | (no_file) e where "d' = d1" "q1 = Inl e" "\<exists>e. res = Inl e"
    | (created) path where "map_of acceptedTypes sniffed \<noteq> None" "q1 = Inr path"
    using v' c by (cases q1) (auto split: if_splits)
  then show ?thesis
  proof cases
    case (created path)
    then obtain n where n: "locate d path = Some (r @ [temp_name n])" "\<not> blocked (nodes d) (r @ [temp_name n])"
        "files (nodes d) (r @ [temp_name n]) = None" "files (nodes d1) = (files (nodes d))(r @ [temp_name n] \<mapsto> [])"
      using eff1 by auto
    obtain d2 q2 where bd: "stage_body lib max_bytes path sniffed b fails d1 = (d2, q2)" by fastforce
    show ?thesis
    proof (cases q2)
      case (Inl e)
      then have "d' = d \<and> (\<exists>e. res = Inl e) \<or> d' = removeStaged path d2 \<and> (\<exists>e. res = Inl e)"
        using v' c created bd by (auto split: if_splits)
      then show ?thesis
        using staging_failed [OF bd [unfolded Inl] n(1) _ n(2,3,4)] eff1 by (auto simp: staging_path_def)
    next
      case (Inr u)
      have "locate d1 path = Some (r @ [temp_name n])" using n(1) eff1 locate_cong by metis
      note eff2 = stage_body_effect [OF bd this]
      have acc: "\<not> fails" "acceptable lib max_bytes sniffed b" using eff2 Inr by simp_all
      have d': "d' = d2" "res = Inr \<lparr>su_path = path, su_type = sniffed, su_hash = hex_encode (il_sha256 lib b), su_size = int (length b)\<rparr>"
        using v' c created bd Inr acc(1) by auto
      have "b = up_bytes up" "length (up_bytes up) < upload_limit max_bytes"
        using whole_upload [OF m b_def _ created(1) [unfolded sniffed_def]] acc(2) by (simp_all add: acceptable_def)
      then have "b = up_bytes up" "\<not> up_fails up" using acc(1) by (simp_all add: fails_def)
      then show ?thesis using d' acc eff1 eff2 Inr n created(1) by (auto simp: staging_path_def)
    qed
  qed (use eff1 in auto)
qed

section \<open>The verdict\<close>

lemma canonical_detect: "canonicalType (detect_content_type b) = detect_content_type b"
proof -
  have c: "canonicalType t = t" if "is_ascii t" "\<forall>x \<in> set t. \<not> is_space (byte_at x)" "CHR '';'' \<notin> set t"
    "map (\<lambda>x. if 0x41 \<le> byte_at x \<and> byte_at x \<le> 0x5A then char_of (byte_at x + 0x20) else x) t = t" for t
  proof -
    have "takeWhile (\<lambda>x. x \<noteq> CHR '';'') t = t" using that(3) by (auto simp: takeWhile_eq_all_conv)
    then show ?thesis using trim_space_plain [OF that(1,2)] to_lower_ascii [OF that(1)] that(4) by (simp only: canonicalType_def)
  qed
  have "canonicalType ContentTypeJPEG = ContentTypeJPEG" "canonicalType ContentTypePNG = ContentTypePNG"
    "canonicalType ContentTypeWebP = ContentTypeWebP"
    "canonicalType ''application/octet-stream'' = ''application/octet-stream''"
    by (intro c; simp add: content_types is_ascii_def is_space_def)+
  then show ?thesis by (simp add: detect_content_type_def)
qed

lemma accepted_ext: "map_of acceptedTypes t = Some ext \<Longrightarrow>
    (t, ext) \<in> {(ContentTypeJPEG, ''jpg''), (ContentTypePNG, ''png''), (ContentTypeWebP, ''webp'')}"
  by (auto simp: acceptedTypes_def split: if_splits)

text \<open>The type a store with the given size limit sniffs.\<close>

definition sniffed_type :: "int \<Rightarrow> bytes \<Rightarrow> string" where
  "sniffed_type max_bytes b = detect_content_type (take sniffLen (take (nat (max_bytes + 1)) b))"

lemma seek_calm: "os_faults d = [] \<Longrightarrow> os_seek d = (d, Inr ())"
  by (simp add: os_seek_def os_call_calm)

text \<open>On a disk that does not fail an upload is staged exactly when it is acceptable, and otherwise
  gets the error of the first check it fails.\<close>

lemma stage_verdict:
  assumes d: "os_faults d = []" and r: "locate d dir = Some r" "dir \<noteq> []" "is_dir (nodes d) r"
    and fresh: "map_of (nodes d) (r @ [temp_name (temp_names d (temps d))]) = None"
    and m: "0 < max_bytes" "max_bytes < 2 ^ 63 - 1" and up: "\<not> up_fails up"
    and v: "validateAndStage lib dir max_bytes up d = (d', res)"
  shows "res =
    (if map_of acceptedTypes (sniffed_type max_bytes (up_bytes up)) = None then Inl ErrUnsupportedMediaType
     else if int (length (up_bytes up)) > max_bytes then Inl ErrPhotoTooLarge
     else if \<not> acceptable lib max_bytes (sniffed_type max_bytes (up_bytes up)) (up_bytes up) then Inl ErrInvalidPhoto
     else Inr \<lparr>su_path = path_join [dir, temp_name (temp_names d (temps d))], su_type = sniffed_type max_bytes (up_bytes up),
               su_hash = hex_encode (il_sha256 lib (up_bytes up)), su_size = int (length (up_bytes up))\<rparr>) \<and>
    (\<forall>s. res = Inr s \<longrightarrow> nodes d' = AList.update (r @ [temp_name (temp_names d (temps d))]) (File (up_bytes up))
        (AList.update (r @ [temp_name (temp_names d (temps d))]) (File []) (nodes d)) \<and>
      temps d' = temps d + 1 \<and> temp_names d' = temp_names d)"
proof -
  let ?t = "sniffed_type max_bytes (up_bytes up)" and ?name = "temp_name (temp_names d (temps d))"
  let ?b = "take (nat (max_bytes + 1)) (up_bytes up)" and ?path = "path_join [dir, ?name]"
  have lim: "upload_limit max_bytes = nat (max_bytes + 1)" using upload_limit [of max_bytes] m by simp
  define d1 where "d1 = d\<lparr>temps := temps d + 1, nodes := AList.update (r @ [?name]) (File []) (nodes d)\<rparr>"
  have l: "locate d ?path = Some (r @ [?name])"
    using locate_join [OF r(1,2), of "[?name]"] temp_name_plain [of "temp_names d (temps d)"] by simp
  have l1: "locate x ?path = Some (r @ [?name])" if "cwd x = cwd d" for x using l locate_cong [OF that] by simp
  have c: "os_create_temp dir d = (d1, Inr ?path)"
    using l1 [of "d\<lparr>temps := temps d + 1\<rparr>"] d r(3) fresh by (simp add: os_create_temp_def os_call_calm os_create_def d1_def)
  define d2 where "d2 = d1\<lparr>nodes := AList.update (r @ [?name]) (File ?b) (nodes d1)\<rparr>"
  have w: "os_at (\<lambda>p. os_write p ?b) ?path d1 = (d2, Inr ())"
    using os_at_calm [of d1 ?path "r @ [?name]" "\<lambda>p. os_write p ?b"] d l1 [of d1] by (simp add: d1_def d2_def os_write_def)
  have f2: "os_faults d2 = []" using d by (simp add: d1_def d2_def)
  have s: "canonicalType (detect_content_type (take sniffLen ?b)) = ?t" by (simp only: canonical_detect sniffed_type_def)
  have "validateAndStage lib dir max_bytes up d =
    (if map_of acceptedTypes ?t = None then (d, Inl ErrUnsupportedMediaType)
     else case stage_body lib max_bytes ?path ?t ?b False d1 of
            (d, Inl e) \<Rightarrow> (removeStaged ?path d, Inl e)
          | (d, Inr _) \<Rightarrow>
              (d, Inr \<lparr>su_path = ?path, su_type = ?t, su_hash = hex_encode (il_sha256 lib ?b), su_size = int (length ?b)\<rparr>))"
    unfolding validateAndStage_def Let_def lim s c using up by simp
  moreover have "stage_body lib max_bytes ?path ?t ?b False d1 =
    (if int (length ?b) > max_bytes then (d2, Inl ErrPhotoTooLarge)
     else if acceptable lib max_bytes ?t ?b then (d2, Inr ()) else (d2, Inl ErrInvalidPhoto))"
    unfolding stage_body_def w using f2 by (auto simp: seek_calm acceptable_def split: option.splits)
  moreover have "int (length ?b) > max_bytes \<longleftrightarrow> int (length (up_bytes up)) > max_bytes" using m by auto
  moreover have "?b = up_bytes up" if "\<not> int (length (up_bytes up)) > max_bytes" using that m by simp
  ultimately show ?thesis using v by (auto simp: d1_def d2_def split: if_splits)
qed

end
