(* ===== verification/Local_Store.thy ===== *)
theory Local_Store
  imports Photo_Validation
begin

text \<open>
  The photo store on the local filesystem, \<open>media/adapter/photo_store.go\<close>, over the disk of
  \<open>Go_Os\<close>.
\<close>

section \<open>The store\<close>

record local_store =
  ls_root :: string
  ls_max_bytes :: int
  ls_images :: image_lib
  ls_classes :: "string list"   \<comment> \<open>the process-wide registry of photo classes\<close>

definition NewLocalPhotoStore ::
    "image_lib \<Rightarrow> string list \<Rightarrow> string \<Rightarrow> int \<Rightarrow> disk \<Rightarrow> disk \<times> (media_error + local_store)" where
  "NewLocalPhotoStore images registered root max_bytes d =
     (if trim_space root = [] then (d, Inl Media_other)
      else if max_bytes \<le> 0 then (d, Inl Media_other)
      else case os_at os_mkdir_all root d of
             (d, Inl _) \<Rightarrow> (d, Inl Media_other)
           | (d, Inr _) \<Rightarrow>
               (d, Inr \<lparr>ls_root = root, ls_max_bytes = max_bytes, ls_images = images, ls_classes = registered\<rparr>))"

definition resolve :: "local_store \<Rightarrow> string \<Rightarrow> disk \<Rightarrow> media_error + string" where
  "resolve S ref d =
     (let full = path_join [ls_root S, ref]
      in case path_abs (cwd d) (ls_root S) of
           None \<Rightarrow> Inl Media_other
         | Some root_abs \<Rightarrow>
             (case path_abs (cwd d) full of
                None \<Rightarrow> Inl Media_other
              | Some full_abs \<Rightarrow>
                  if full_abs \<noteq> root_abs \<and> \<not> prefix (root_abs @ ''/'') full_abs then Inl ErrInvalidPhoto
                  else Inr full))"

text \<open>\<open>Put\<close> after the upload is staged.\<close>

definition place_staged ::
    "local_store \<Rightarrow> household_id \<Rightarrow> photo_class \<Rightarrow> staged_upload \<Rightarrow> disk \<Rightarrow> disk \<times> (media_error + storage_ref)" where
  "place_staged S h c staged d =
     (case buildStorageKey (ls_classes S) h c (su_hash staged)
             (case map_of acceptedTypes (su_type staged) of None \<Rightarrow> [] | Some ext \<Rightarrow> ext) of
        Inl e \<Rightarrow> (d, Inl e)
      | Inr ref \<Rightarrow>
          (case resolve S ref d of
             Inl e \<Rightarrow> (d, Inl e)
           | Inr full \<Rightarrow>
               (case os_at os_mkdir_all (path_dir full) d of
                  (d, Inl _) \<Rightarrow> (d, Inl Media_other)
                | (d, Inr _) \<Rightarrow>
                    (case locate d (su_path staged) of
                       None \<Rightarrow> (d, Inl Media_other)
                     | Some p \<Rightarrow>
                         (case os_at (os_rename p) full d of
                            (d, Inl _) \<Rightarrow> (d, Inl Media_other)
                          | (d, Inr _) \<Rightarrow> (d, Inr ref))))))"

definition Put ::
    "local_store \<Rightarrow> household_id \<Rightarrow> photo_class \<Rightarrow> upload \<Rightarrow> disk \<Rightarrow> disk \<times> (media_error + put_result)" where
  "Put S h c up d =
     (case validateAndStage (ls_images S) (ls_root S) (ls_max_bytes S) up d of
        (d, Inl e) \<Rightarrow> (d, Inl e)
      | (d, Inr staged) \<Rightarrow>
          (case place_staged S h c staged d of
             (d, Inl e) \<Rightarrow> (removeStaged (su_path staged) d, Inl e)
           | (d, Inr ref) \<Rightarrow>
               (d, Inr \<lparr>pu_ref = ref, pu_hash = su_hash staged, pu_size = su_size staged, pu_type = su_type staged\<rparr>)))"

definition Open :: "local_store \<Rightarrow> storage_ref \<Rightarrow> disk \<Rightarrow> disk \<times> (media_error + photo_reader)" where
  "Open S ref d =
     (case resolve S ref d of
        Inl e \<Rightarrow> (d, Inl e)
      | Inr full \<Rightarrow>
          (case os_at os_lookup full d of
             (d, Inl e) \<Rightarrow> (d, Inl (if e = NotExist then ErrPhotoNotFound else Media_other))
           | (d, Inr n) \<Rightarrow> (d, Inr (case n of Dir \<Rightarrow> Unreadable | File b \<Rightarrow> Reader b))))"

definition Delete :: "local_store \<Rightarrow> storage_ref \<Rightarrow> disk \<Rightarrow> disk \<times> (media_error + unit)" where
  "Delete S ref d =
     (case resolve S ref d of
        Inl e \<Rightarrow> (d, Inl e)
      | Inr full \<Rightarrow>
          (case os_at os_remove full d of
             (d, Inl e) \<Rightarrow> (d, if e = NotExist then Inr () else Inl Media_other)
           | (d, Inr _) \<Rightarrow> (d, Inr ())))"

definition URL :: "local_store \<Rightarrow> storage_ref \<Rightarrow> duration \<Rightarrow> disk \<Rightarrow> disk \<times> (media_error + string)" where
  "URL S ref ttl d =
     (case resolve S ref d of
        Inl e \<Rightarrow> (d, Inl e)
      | Inr full \<Rightarrow>
          (case os_at os_lookup full d of
             (d, Inl e) \<Rightarrow> (d, Inl (if e = NotExist then ErrPhotoNotFound else Media_other))
           | (d, Inr Dir) \<Rightarrow> (d, Inl ErrPhotoNotFound)
           | (d, Inr (File _)) \<Rightarrow> (d, Inr ref)))"

definition SupportsDirectURL :: "local_store \<Rightarrow> bool" where
  "SupportsDirectURL S = False"

definition local_photo_store :: "local_store \<Rightarrow> disk photo_store" where
  "local_photo_store S =
     \<lparr>st_put = Put S, st_open = Open S, st_delete = Delete S, st_url = URL S, st_direct = SupportsDirectURL S,
      st_list = None\<rparr>"

section \<open>Staying inside the root\<close>

text \<open>What the constructor and the type of its size cap guarantee.\<close>

definition store_ok :: "local_store \<Rightarrow> bool" where
  "store_ok S \<longleftrightarrow> ls_root S \<noteq> [] \<and> 0 < ls_max_bytes S \<and> ls_max_bytes S < 2 ^ 63 \<and> registry_ok (ls_classes S)"

definition cwd_ok :: "disk \<Rightarrow> bool" where
  "cwd_ok d \<longleftrightarrow> (\<forall>w. cwd d = Some w \<longrightarrow> rooted w)"

lemma path_abs_form:
  assumes "cwd_ok d" and "s \<noteq> []" and "path_abs (cwd d) s = Some a"
  shows "a = CHR ''/'' # join_slash (abs_comps a)" "locate d s = Some (abs_comps a)"
proof -
  have r: "rooted x \<Longrightarrow> CHR ''/'' # join_slash (abs_comps (path_clean x)) = path_clean x" for x
    by (simp add: path_clean_rooted abs_comps_join abs_comps_plain)
  show "locate d s = Some (abs_comps a)" using assms(3) by (simp add: locate_def)
  show "a = CHR ''/'' # join_slash (abs_comps a)"
  proof (cases "rooted s")
    case True
    then show ?thesis using assms(3) r [OF True] by (simp add: path_abs_def)
  next
    case False
    then obtain w where w: "cwd d = Some w" "a = path_join [w, s]"
      using assms(3) by (cases "cwd d") (simp_all add: path_abs_def)
    have "rooted w" using assms(1) w(1) by (simp add: cwd_ok_def)
    moreover from this have "w \<noteq> []" by (auto simp: rooted_def)
    ultimately show ?thesis
      using w(2) assms(2) r [of "w @ CHR ''/'' # s"] by (simp add: path_join_def rooted_append)
  qed
qed

lemma resolve_inside:
  assumes "cwd_ok d" and "ls_root S \<noteq> []" and "resolve S ref d = Inr full"
  shows "full \<noteq> [] \<and> (\<exists>r p. locate d (ls_root S) = Some r \<and> locate d full = Some p \<and> prefix r p)"
proof -
  obtain ra fa where a: "path_abs (cwd d) (ls_root S) = Some ra" "path_abs (cwd d) full = Some fa"
      "fa = ra \<or> prefix (ra @ ''/'') fa" "full = path_join [ls_root S, ref]"
    using assms(3) by (auto simp: resolve_def Let_def split: option.splits if_splits)
  have ne: "full \<noteq> []" using a(4) assms(2) path_clean_nonempty by (auto simp: path_join_def Let_def)
  note r = path_abs_form [OF assms(1,2) a(1)] and f = path_abs_form [OF assms(1) ne a(2)]
  have "prefix (abs_comps ra) (abs_comps fa)"
  proof (cases "fa = ra \<or> abs_comps ra = []")
    case False
    then have "prefix (CHR ''/'' # join_slash (abs_comps ra) @ ''/'') (CHR ''/'' # join_slash (abs_comps fa))"
      using a(3) r(1) f(1) by (metis append_Cons)
    then show ?thesis
      using prefix_comps [OF abs_comps_plain abs_comps_plain] False by (auto simp: strict_prefix_def)
  qed auto
  then show ?thesis using ne r(2) f(2) by blast
qed

lemma resolve_cong:
  assumes "cwd d' = cwd d"
  shows "resolve S ref d' = resolve S ref d"
  unfolding resolve_def assms ..

lemma remove_nodes:
  assumes "os_at os_remove path d = (d', q)" and "map_of (nodes d') x \<noteq> map_of (nodes d) x"
  shows "locate d path = Some x"
proof -
  obtain p a where "locate d path = Some p" "os_remove p (nodes d) = Inr (nodes d', a)"
    using os_at_effect [OF assms(1)] assms(2) by auto
  then show ?thesis using remove_files assms(2) by metis
qed

lemma delete_nodes:
  assumes "Delete S ref d = (d', q)" and "map_of (nodes d') x \<noteq> map_of (nodes d) x"
  shows "\<exists>full. resolve S ref d = Inr full \<and> locate d full = Some x"
proof (cases "resolve S ref d")
  case (Inr full)
  obtain d1 q1 where r: "os_at os_remove full d = (d1, q1)" by fastforce
  then have "d' = d1" using assms(1) Inr by (auto simp: Delete_def split: sum.splits)
  then show ?thesis using remove_nodes [OF r] assms(2) Inr by simp
qed (use assms in \<open>simp add: Delete_def\<close>)

text \<open>C23: no storage ref, however it is written, leads outside the store's root: every path the
  store opens, stats or removes for it lies under the root, and a deletion leaves everything
  else on the disk as it was.\<close>

theorem refs_stay_inside_root:
  assumes "cwd_ok d" and "ls_root S \<noteq> []"
  shows "(\<forall>full. resolve S ref d = Inr full \<longrightarrow>
        (\<exists>r p. locate d (ls_root S) = Some r \<and> locate d full = Some p \<and> prefix r p)) \<and>
      (\<forall>d' q x. Delete S ref d = (d', q) \<longrightarrow> map_of (nodes d') x \<noteq> map_of (nodes d) x \<longrightarrow>
        (\<exists>r. locate d (ls_root S) = Some r \<and> prefix r x))"
proof (intro conjI allI impI)
  fix full assume "resolve S ref d = Inr full"
  from resolve_inside [OF assms this]
  show "\<exists>r p. locate d (ls_root S) = Some r \<and> locate d full = Some p \<and> prefix r p" by blast
next
  fix d' q x assume "Delete S ref d = (d', q)" "map_of (nodes d') x \<noteq> map_of (nodes d) x"
  then obtain full where "resolve S ref d = Inr full" "locate d full = Some x" using delete_nodes by blast
  with resolve_inside [OF assms this(1)]
  show "\<exists>r. locate d (ls_root S) = Some r \<and> prefix r x" by auto
qed

section \<open>What a put does to the disk\<close>

lemma resolve_full: "resolve S ref d = Inr full \<Longrightarrow> full = path_join [ls_root S, ref]"
  by (auto simp: resolve_def Let_def split: option.splits if_splits)

lemma place_effect:
  assumes pl: "place_staged S h c staged d = (d', res)" and ok: "registry_ok (ls_classes S)"
    and r: "locate d (ls_root S) = Some r" and ne: "ls_root S \<noteq> []"
    and T: "locate d (su_path staged) = Some (r @ [n])" and b: "files (nodes d) (r @ [n]) = Some b"
  shows "cwd d' = cwd d \<and> (os_faults d = [] \<longrightarrow> os_faults d' = []) \<and>
    (case res of
       Inl e \<Rightarrow> files (nodes d') = files (nodes d)
     | Inr ref \<Rightarrow> \<exists>cs full. ref = join_slash cs \<and> cs = key_comps h c (su_hash staged)
           (case map_of acceptedTypes (su_type staged) of None \<Rightarrow> [] | Some ext \<Rightarrow> ext) \<and>
         resolve S ref d = Inr full \<and> locate d full = Some (r @ cs) \<and>
         Inr ref = buildStorageKey (ls_classes S) h c (su_hash staged)
           (case map_of acceptedTypes (su_type staged) of None \<Rightarrow> [] | Some ext \<Rightarrow> ext) \<and>
         lookup_node (nodes d') (r @ cs) = Inr (File b) \<and>
         files (nodes d') = (files (nodes d))(r @ [n] := None, r @ cs := Some b))"
proof -
  define key where "key = buildStorageKey (ls_classes S) h c (su_hash staged)
     (case map_of acceptedTypes (su_type staged) of None \<Rightarrow> [] | Some ext \<Rightarrow> ext)"
  show ?thesis
  proof (cases "(\<exists>e. key = Inl e) \<or> (\<exists>ref e. key = Inr ref \<and> resolve S ref d = Inl e)")
    case True
    then have "d' = d \<and> (\<exists>e. res = Inl e)"
      using pl by (elim disjE exE conjE) (simp_all add: place_staged_def key_def [symmetric], metis+)
    then show ?thesis by auto
  next
    case False
    then obtain ref full where k: "key = Inr ref" "resolve S ref d = Inr full" by (cases key; cases "resolve S (projr key) d") auto
    define cs where "cs = key_comps h c (su_hash staged) (case map_of acceptedTypes (su_type staged) of None \<Rightarrow> [] | Some ext \<Rightarrow> ext)"
    have cs: "ref = join_slash cs" "\<forall>x \<in> set cs. plain_comp x" "cs \<noteq> []" "2 \<le> length cs"
      using storage_key_form [OF ok k(1) [unfolded key_def]] by (simp_all add: cs_def key_comps_def)
    have full: "locate d full = Some (r @ cs)"
      using locate_join [OF r ne cs(3,2)] resolve_full [OF k(2)] cs(1) by simp
    obtain d1 q1 where m: "os_at os_mkdir_all (path_dir full) d = (d1, q1)" by fastforce
    note fr1 = os_at_frame [OF m]
    have f1: "files (nodes d1) = files (nodes d)"
      using os_at_effect [OF m] mkdirs_files by (auto simp: os_mkdir_all_def)
    obtain d2 q2 where rn: "os_at (os_rename (r @ [n])) full d1 = (d2, q2)" by fastforce
    note fr2 = os_at_frame [OF rn]
    show ?thesis
    proof (cases "\<exists>u. q1 = Inr u \<and> q2 = Inr u")
      case True
      then have q: "q1 = Inr ()" "q2 = Inr ()" by simp_all
      have o: "d' = d2" "res = Inr ref"
        using pl k m q rn T fr1 by (auto simp: place_staged_def key_def [symmetric])
      have re: "os_rename (r @ [n]) (r @ cs) (nodes d1) = Inr (nodes d2, ())"
        using os_at_Inr [OF rn [unfolded q]] full fr1 by auto
      have b1: "files (nodes d1) (r @ [n]) = Some b" using f1 b by simp
      have "[n] \<noteq> cs" using cs(4) by auto
      then have "lookup_node (nodes d2) (r @ cs) = Inr (File b)"
        using rename_lookup [OF re _ _ b1] cs(3) by simp
      moreover have "files (nodes d2) = (files (nodes d))(r @ [n] := None, r @ cs := Some b)"
        using rename_files [OF re] b1 f1 by auto
      ultimately show ?thesis using o fr1 fr2 k cs full cs_def by (auto simp: key_def)
    next
      case fail: False
      have "files (nodes d') = files (nodes d) \<and> (d' = d1 \<or> d' = d2) \<and> (\<exists>e. res = Inl e)"
      proof (cases q1)
        case (Inl e)
        then show ?thesis using pl k m f1 by (auto simp: place_staged_def key_def [symmetric])
      next
        case (Inr u)
        then obtain e where e: "q2 = Inl e" using fail by (cases q2) auto
        have "nodes d2 = nodes d1" using os_at_effect [OF rn] e by auto
        then show ?thesis using pl k m Inr rn e T fr1 f1 by (auto simp: place_staged_def key_def [symmetric])
      qed
      then show ?thesis using fr1 fr2 by auto
    qed
  qed
qed

text \<open>A put, step by step: the upload is staged in a file that did not exist, then moved to its
  key, or the staged file is removed again.\<close>

lemma put_effect:
  assumes put: "Put S h c up d = (d', res)" and ok: "store_ok S" and r: "locate d (ls_root S) = Some r"
  shows "(os_faults d = [] \<longrightarrow> os_faults d' = []) \<and> cwd d' = cwd d \<and>
    (case res of
       Inl e \<Rightarrow> (\<forall>p. \<not> staging_path r p \<longrightarrow> files (nodes d') p = files (nodes d) p) \<and>
                (os_faults d = [] \<longrightarrow> files (nodes d') = files (nodes d))
     | Inr a \<Rightarrow> \<exists>ext full. map_of acceptedTypes (pu_type a) = Some ext \<and> \<not> up_fails up \<and>
         acceptable (ls_images S) (ls_max_bytes S) (pu_type a) (up_bytes up) \<and>
         pu_hash a = hex_encode (il_sha256 (ls_images S) (up_bytes up)) \<and> pu_size a = int (length (up_bytes up)) \<and>
         Inr (pu_ref a) = buildStorageKey (ls_classes S) h c (pu_hash a) ext \<and>
         resolve S (pu_ref a) d = Inr full \<and> locate d full = Some (r @ key_comps h c (pu_hash a) ext) \<and>
         lookup_node (nodes d') (r @ key_comps h c (pu_hash a) ext) = Inr (File (up_bytes up)) \<and>
         files (nodes d') = (files (nodes d))(r @ key_comps h c (pu_hash a) ext \<mapsto> up_bytes up))"
proof -
  have ne: "ls_root S \<noteq> []" and m: "0 < ls_max_bytes S" "ls_max_bytes S < 2 ^ 63" and reg: "registry_ok (ls_classes S)"
    using ok by (simp_all add: store_ok_def)
  obtain d1 q1 where v: "validateAndStage (ls_images S) (ls_root S) (ls_max_bytes S) up d = (d1, q1)" by fastforce
  note eff = validate_effect [OF v r ne m]
  show ?thesis
  proof (cases q1)
    case (Inl e)
    then have "d' = d1" "res = Inl e" using put v by (simp_all add: Put_def)
    then show ?thesis using eff Inl by simp
  next
    case (Inr s)
    then obtain n where T: "locate d (su_path s) = Some (r @ [temp_name n])" "files (nodes d) (r @ [temp_name n]) = None"
        "\<not> blocked (nodes d) (r @ [temp_name n])" "files (nodes d1) = (files (nodes d))(r @ [temp_name n] \<mapsto> up_bytes up)"
      using eff by (auto simp: staging_path_def)
    have T1: "locate d1 (su_path s) = Some (r @ [temp_name n])" and r1: "locate d1 (ls_root S) = Some r"
      using T(1) r eff locate_cong by metis+
    obtain d2 q2 where p: "place_staged S h c s d1 = (d2, q2)" by fastforce
    have "files (nodes d1) (r @ [temp_name n]) = Some (up_bytes up)" using T(4) by simp
    note eff2 = place_effect [OF p reg r1 ne T1 this]
    show ?thesis
    proof (cases q2)
      case (Inl e)
      then have o: "d' = removeStaged (su_path s) d2" "res = Inl e" using put v Inr p by (simp_all add: Put_def)
      have "files (nodes d2) = (files (nodes d))(r @ [temp_name n] \<mapsto> up_bytes up)" "cwd d2 = cwd d1"
        using eff2 Inl T(4) by simp_all
      from removed_again [OF T(1) _ T(3,2) this(1)] this(2) show ?thesis
        using eff eff2 by (auto simp: o staging_path_def)
    next
      case (Inr ref)
      then have o: "d' = d2" "res = Inr \<lparr>pu_ref = ref, pu_hash = su_hash s, pu_size = su_size s, pu_type = su_type s\<rparr>"
        using put v \<open>q1 = Inr s\<close> p by (simp_all add: Put_def)
      obtain ext where ext: "map_of acceptedTypes (su_type s) = Some ext" using eff \<open>q1 = Inr s\<close> by auto
      obtain full where f: "resolve S ref d1 = Inr full" "locate d1 full = Some (r @ key_comps h c (su_hash s) ext)"
          "Inr ref = buildStorageKey (ls_classes S) h c (su_hash s) ext"
          "lookup_node (nodes d2) (r @ key_comps h c (su_hash s) ext) = Inr (File (up_bytes up))"
          "files (nodes d2) = (files (nodes d1))(r @ [temp_name n] := None, r @ key_comps h c (su_hash s) ext := Some (up_bytes up))"
        using eff2 Inr ext by auto
      have "resolve S ref d = Inr full" "locate d full = Some (r @ key_comps h c (su_hash s) ext)"
        using f(1,2) eff resolve_cong locate_cong by metis+
      moreover have "files (nodes d2) = (files (nodes d))(r @ key_comps h c (su_hash s) ext \<mapsto> up_bytes up)"
        using f(5) T(2,4) by (simp add: fun_upd_idem)
      ultimately show ?thesis using eff eff2 \<open>q1 = Inr s\<close> f(3,4) ext o by auto
    qed
  qed
qed

text \<open>C22: a successful put stores the upload's bytes, whole and unchanged, under the key of its
  household, class, content hash and type; only an upload that is an image of an accepted type
  within the size and pixel limits is stored; no other file changes; and opening the returned
  ref on a disk that does not fail yields these bytes.\<close>

theorem put_then_open:
  assumes "store_ok S" and "locate d (ls_root S) = Some r" and "Put S h c up d = (d', Inr a)"
  shows "\<exists>ext. map_of acceptedTypes (pu_type a) = Some ext \<and>
    acceptable (ls_images S) (ls_max_bytes S) (pu_type a) (up_bytes up) \<and>
    pu_hash a = hex_encode (il_sha256 (ls_images S) (up_bytes up)) \<and> pu_size a = int (length (up_bytes up)) \<and>
    buildStorageKey (ls_classes S) h c (pu_hash a) ext = Inr (pu_ref a) \<and>
    files (nodes d') = (files (nodes d))(r @ key_comps h c (pu_hash a) ext \<mapsto> up_bytes up) \<and>
    (os_faults d' = [] \<longrightarrow> snd (Open S (pu_ref a) d') = Inr (Reader (up_bytes up)))"
proof -
  note eff = put_effect [OF assms(3,1,2)]
  then obtain ext full where f: "map_of acceptedTypes (pu_type a) = Some ext"
      "resolve S (pu_ref a) d = Inr full" "locate d full = Some (r @ key_comps h c (pu_hash a) ext)"
      "lookup_node (nodes d') (r @ key_comps h c (pu_hash a) ext) = Inr (File (up_bytes up))"
      "acceptable (ls_images S) (ls_max_bytes S) (pu_type a) (up_bytes up)"
      "pu_hash a = hex_encode (il_sha256 (ls_images S) (up_bytes up))" "pu_size a = int (length (up_bytes up))"
      "Inr (pu_ref a) = buildStorageKey (ls_classes S) h c (pu_hash a) ext"
      "files (nodes d') = (files (nodes d))(r @ key_comps h c (pu_hash a) ext \<mapsto> up_bytes up)"
    by auto
  have "resolve S (pu_ref a) d' = Inr full" "locate d' full = Some (r @ key_comps h c (pu_hash a) ext)"
    using f(2,3) eff resolve_cong locate_cong by metis+
  then have "snd (Open S (pu_ref a) d') = Inr (Reader (up_bytes up))" if "os_faults d' = []"
    using os_at_calm [OF that, where f = os_lookup and path = full] f(4) by (simp add: Open_def os_lookup_def)
  then show ?thesis using f(1,5-9) by auto
qed

text \<open>A rejected upload leaves no trace: no file outside the staging names changes whatever
  the disk does, and on a disk that does not fail no file changes at all.\<close>

theorem rejected_put_leaves_no_trace:
  assumes "store_ok S" and "locate d (ls_root S) = Some r" and "Put S h c up d = (d', Inl e)"
  shows "(\<forall>p. \<not> staging_path r p \<longrightarrow> files (nodes d') p = files (nodes d) p) \<and>
    (os_faults d = [] \<longrightarrow> files (nodes d') = files (nodes d))"
  using put_effect [OF assms(3,1,2)] by simp

section \<open>Which uploads are stored\<close>

lemma resolve_plain:
  assumes "cwd_ok d" and "ls_root S \<noteq> []" and r: "locate d (ls_root S) = Some r" "r \<noteq> []"
    and cs: "cs \<noteq> []" "\<forall>c \<in> set cs. plain_comp c"
  shows "resolve S (join_slash cs) d = Inr (path_join [ls_root S, join_slash cs])"
proof -
  let ?full = "path_join [ls_root S, join_slash cs]"
  have ne: "?full \<noteq> []" using assms(2) path_clean_nonempty by (auto simp: path_join_def Let_def)
  have l: "locate d ?full = Some (r @ cs)" by (rule locate_join [OF r(1) assms(2) cs])
  obtain ra fa where a: "path_abs (cwd d) (ls_root S) = Some ra" "path_abs (cwd d) ?full = Some fa"
    using r(1) l by (auto simp: locate_def)
  note ra = path_abs_form [OF assms(1,2) a(1)] and fa = path_abs_form [OF assms(1) ne a(2)]
  have "abs_comps ra = r" "abs_comps fa = r @ cs" using ra(2) fa(2) r(1) l by simp_all
  then have "fa = ra @ CHR ''/'' # join_slash cs" using ra(1) fa(1) join_slash_append [OF r(2) cs(1)] by simp
  then show ?thesis using a by (simp add: resolve_def Let_def)
qed

lemma temp_name_head: "temp_name n \<noteq> ''households''"
  by (simp add: temp_name_def)

lemma staging_no_key: "r @ [temp_name n] \<noteq> take k (r @ key_comps h c sm ext)"
proof
  assume e: "r @ [temp_name n] = take k (r @ key_comps h c sm ext)"
  then have "length (take k (r @ key_comps h c sm ext)) = length r + 1" by (metis length_append_singleton Suc_eq_plus1)
  then have "k = length r + 1" by (auto simp: key_comps_def min_def split: if_splits)
  then have "take k (r @ key_comps h c sm ext) = r @ [''households'']" by (simp add: key_comps_def)
  with e temp_name_head show False by simp
qed

definition room_for :: "string list \<Rightarrow> tree \<Rightarrow> bool" where
  "room_for p t \<longleftrightarrow> map_of t p \<noteq> Some Dir \<and> (\<forall>k < length p. files t (take k p) = None)"

text \<open>Everything but the staged file and the key is as before, but for the directories of the key.\<close>

definition placed :: "string list \<Rightarrow> string list \<Rightarrow> tree \<Rightarrow> tree \<Rightarrow> bool" where
  "placed staged key t t' \<longleftrightarrow> (\<forall>q. q \<noteq> staged \<longrightarrow> q \<noteq> key \<longrightarrow>
     map_of t' q = (if q \<noteq> [] \<and> prefix q (butlast key) then Some Dir else map_of t q))"

lemma place_success:
  assumes d: "os_faults d = []" "cwd_ok d" "ls_root S \<noteq> []" "registry_ok (ls_classes S)"
    and r: "locate d (ls_root S) = Some r" "r \<noteq> []"
    and key: "Valid_class (ls_classes S) c" "ValidContentHash (su_hash staged)" "map_of acceptedTypes (su_type staged) = Some ext"
    and T: "locate d (su_path staged) = Some (r @ [temp_name n])" "files (nodes d) (r @ [temp_name n]) = Some b"
    and room: "room_for (r @ key_comps h c (su_hash staged) ext) (nodes d)"
  shows "\<exists>d' ref. place_staged S h c staged d = (d', Inr ref) \<and> temps d' = temps d \<and> temp_names d' = temp_names d \<and>
    placed (r @ [temp_name n]) (r @ key_comps h c (su_hash staged) ext) (nodes d) (nodes d')"
proof -
  let ?cs = "key_comps h c (su_hash staged) ext" and ?T = "r @ [temp_name n]"
  have "validExtension ext" using accepted_ext [OF key(3)] by (auto simp: validExtension_def acceptedTypes_def)
  then obtain ref where ref: "buildStorageKey (ls_classes S) h c (su_hash staged) ext = Inr ref"
    using key by (simp add: buildStorageKey_def classKeyPrefix_def)
  note f = storage_key_form [OF d(4) ref]
  have ne: "?cs \<noteq> []" "butlast ?cs \<noteq> []" by (simp_all add: key_comps_def)
  have full: "resolve S ref d = Inr (path_join [ls_root S, ref])" "locate d (path_join [ls_root S, ref]) = Some (r @ ?cs)"
    using resolve_plain [OF d(2,3) r ne(1) f(2)] locate_join [OF r(1) d(3) ne(1) f(2)] f(1) by simp_all
  have bl: "?cs = butlast ?cs @ [last ?cs]" using ne(1) by simp
  have "locate d (path_dir (path_join [ls_root S, ref])) = Some (r @ butlast ?cs)"
    using locate_dir [OF r(1) d(3) ne(2), of "last ?cs"] f bl by simp
  moreover have "\<forall>k \<le> length (r @ butlast ?cs). files (nodes d) (take k (r @ butlast ?cs)) = None"
  proof (intro allI impI)
    fix k assume k: "k \<le> length (r @ butlast ?cs)"
    then have "k < length (r @ ?cs)" "take k (r @ butlast ?cs) = take k (r @ ?cs)"
      by (simp_all add: key_comps_def take_Cons' less_Suc_eq_le)
    then show "files (nodes d) (take k (r @ butlast ?cs)) = None" using room by (simp only: room_for_def)
  qed
  then obtain t' where t': "os_mkdir_all (r @ butlast ?cs) (nodes d) = Inr (t', ())" "is_dir t' (r @ butlast ?cs)"
      "\<forall>q. map_of t' q = (if q \<noteq> [] \<and> prefix q (r @ butlast ?cs) then Some Dir else map_of (nodes d) q)"
    using mkdir_all_success by blast
  ultimately have m: "os_at os_mkdir_all (path_dir (path_join [ls_root S, ref])) d = (d\<lparr>nodes := t'\<rparr>, Inr ())"
    using os_at_calm [OF d(1), where f = os_mkdir_all] by simp
  have fs: "files t' = files (nodes d)" using t'(1) mkdirs_files by (simp add: os_mkdir_all_def)
  have "\<not> blocked t' ?T"
  proof -
    have "files (nodes d) (take k r) = None" if "k \<le> length r" for k
    proof -
      have "k < length (r @ ?cs)" "take k (r @ ?cs) = take k r" using that by (simp_all add: key_comps_def)
      then show ?thesis using room unfolding room_for_def by metis
    qed
    then show ?thesis by (auto simp: blocked_files fs)
  qed
  moreover have "map_of t' (r @ ?cs) \<noteq> Some Dir"
  proof -
    have "\<not> prefix (r @ ?cs) (r @ butlast ?cs)" by (auto dest!: prefix_length_le simp: key_comps_def)
    then show ?thesis using t'(3) room by (simp add: room_for_def)
  qed
  moreover have bk: "butlast (r @ ?cs) = r @ butlast ?cs" using ne(1) by (simp add: butlast_append)
  ultimately have "os_rename ?T (r @ ?cs) t' = Inr (AList.update (r @ ?cs) (File b) (AList.delete ?T t'), ())"
    using rename_success [of ?T t' b "r @ ?cs"] T(2) fs t'(2) ne(1) by simp
  moreover have "locate (d\<lparr>nodes := t'\<rparr>) p = locate d p" for p by (rule locate_cong) simp
  ultimately have "os_at (os_rename ?T) (path_join [ls_root S, ref]) (d\<lparr>nodes := t'\<rparr>) =
      (d\<lparr>nodes := AList.update (r @ ?cs) (File b) (AList.delete ?T t')\<rparr>, Inr ())"
    using os_at_calm [of "d\<lparr>nodes := t'\<rparr>" _ _ "os_rename ?T"] d(1) full(2) by simp
  then show ?thesis
    using ref key(3) full(1) m T(1) locate_cong [of "d\<lparr>nodes := t'\<rparr>" d] t'(3) bk
    by (simp add: place_staged_def update_conv placed_def)
qed

lemma put_verdict:
  assumes "store_ok S" and "ls_max_bytes S < 2 ^ 63 - 1" and "\<And>b. length (il_sha256 (ls_images S) b) = 32"
    and "Valid_class (ls_classes S) c" and "os_faults d = []" and "cwd_ok d"
    and "locate d (ls_root S) = Some r" and "r \<noteq> []" and "is_dir (nodes d) r"
    and "map_of (nodes d) (r @ [temp_name (temp_names d (temps d))]) = None" and "\<not> up_fails up"
    and "\<And>ext. map_of acceptedTypes (sniffed_type (ls_max_bytes S) (up_bytes up)) = Some ext \<Longrightarrow>
      room_for (r @ key_comps h c (hex_encode (il_sha256 (ls_images S) (up_bytes up))) ext) (nodes d)"
  shows "\<exists>d' res. Put S h c up d = (d', res) \<and>
    (if map_of acceptedTypes (sniffed_type (ls_max_bytes S) (up_bytes up)) = None then res = Inl ErrUnsupportedMediaType
     else if int (length (up_bytes up)) > ls_max_bytes S then res = Inl ErrPhotoTooLarge
     else if \<not> acceptable (ls_images S) (ls_max_bytes S) (sniffed_type (ls_max_bytes S) (up_bytes up)) (up_bytes up)
     then res = Inl ErrInvalidPhoto
     else (\<exists>a. res = Inr a \<and> pu_type a = sniffed_type (ls_max_bytes S) (up_bytes up)) \<and> temps d' = temps d + 1 \<and> temp_names d' = temp_names d \<and>
       (\<exists>ext. placed (r @ [temp_name (temp_names d (temps d))])
          (r @ key_comps h c (hex_encode (il_sha256 (ls_images S) (up_bytes up))) ext) (nodes d) (nodes d')))"
proof -
  let ?t = "sniffed_type (ls_max_bytes S) (up_bytes up)" and ?name = "temp_name (temp_names d (temps d))"
  have ok: "ls_root S \<noteq> []" "0 < ls_max_bytes S" "ls_max_bytes S < 2 ^ 63" "registry_ok (ls_classes S)"
    using assms(1) by (simp_all add: store_ok_def)
  obtain d1 q where v: "validateAndStage (ls_images S) (ls_root S) (ls_max_bytes S) up d = (d1, q)" by fastforce
  note verdict = stage_verdict [OF assms(5,7) ok(1) assms(9,10) ok(2) assms(2,11) v]
  note eff = validate_effect [OF v assms(7) ok(1-3)]
  show ?thesis
  proof (cases q)
    case (Inl e)
    then show ?thesis using v verdict by (auto simp: Put_def split: if_splits)
  next
    case (Inr s)
    then have s: "su_path s = path_join [ls_root S, ?name]" "su_type s = ?t"
        "su_hash s = hex_encode (il_sha256 (ls_images S) (up_bytes up))" "\<exists>ext. map_of acceptedTypes ?t = Some ext"
        "acceptable (ls_images S) (ls_max_bytes S) ?t (up_bytes up)" "int (length (up_bytes up)) \<le> ls_max_bytes S"
      using verdict by (auto split: if_splits)
    have n: "nodes d1 = AList.update (r @ [?name]) (File (up_bytes up)) (AList.update (r @ [?name]) (File []) (nodes d))"
      using verdict Inr by blast
    obtain ext where ext: "map_of acceptedTypes ?t = Some ext" using s(4) by blast
    let ?key = "key_comps h c (su_hash s) ext"
    have "room_for (r @ ?key) (nodes d)" using assms(12) [OF ext] s(3) by simp
    moreover have "r @ [?name] \<noteq> take k (r @ ?key)" "r @ [?name] \<noteq> r @ ?key" for k
      using staging_no_key [of r _ k h c "su_hash s" ext] staging_no_key [of r _ "length (r @ ?key)" h c "su_hash s" ext]
      by simp_all
    ultimately have room: "room_for (r @ ?key) (nodes d1)"
      unfolding n room_for_def by (simp add: update_conv del: take_append) metis
    have c1: "cwd d1 = cwd d" "os_faults d1 = []" using eff assms(5) by simp_all
    have l1: "locate d1 p = locate d p" for p using c1 locate_cong by metis
    have T: "locate d1 (su_path s) = Some (r @ [?name])"
      using locate_join [OF assms(7) ok(1), of "[?name]"] temp_name_plain [of "temp_names d (temps d)"] s(1) l1 by simp
    have "ValidContentHash (su_hash s)" using s(3) assms(3) hash_of_digest by simp
    moreover have "files (nodes d1) (r @ [?name]) = Some (up_bytes up)" by (simp add: n)
    moreover have "cwd_ok d1" using assms(6) c1 by (simp add: cwd_ok_def)
    ultimately obtain d2 ref where p: "place_staged S h c s d1 = (d2, Inr ref)" "temps d2 = temps d1" "temp_names d2 = temp_names d1"
        "placed (r @ [?name]) (r @ ?key) (nodes d1) (nodes d2)"
      using place_success [OF c1(2) _ ok(1,4) _ assms(8,4) _ _ T _ room] ext s(2) assms(7) l1 by auto
    have "placed (r @ [?name]) (r @ ?key) (nodes d) (nodes d2)"
      using p(4) by (simp add: placed_def n update_conv)
    then show ?thesis using v Inr p(1-3) s ext verdict by (auto simp: Put_def)
  qed
qed

text \<open>On a working disk with room for it, an upload is stored exactly when it is acceptable
  (an image of an accepted type that decodes within the limits), and otherwise gets the error of
  the first check it fails: \<open>ErrUnsupportedMediaType\<close>, \<open>ErrPhotoTooLarge\<close>, \<open>ErrInvalidPhoto\<close>.\<close>

theorem upload_verdict:
  assumes "store_ok S" and "ls_max_bytes S < 2 ^ 63 - 1" and "\<And>b. length (il_sha256 (ls_images S) b) = 32"
    and "Valid_class (ls_classes S) c" and "os_faults d = []" and "cwd_ok d"
    and "locate d (ls_root S) = Some r" and "r \<noteq> []" and "is_dir (nodes d) r"
    and "map_of (nodes d) (r @ [temp_name (temp_names d (temps d))]) = None" and "\<not> up_fails up"
    and "\<And>ext. map_of acceptedTypes (sniffed_type (ls_max_bytes S) (up_bytes up)) = Some ext \<Longrightarrow>
      room_for (r @ key_comps h c (hex_encode (il_sha256 (ls_images S) (up_bytes up))) ext) (nodes d)"
  shows "\<exists>d' res. Put S h c up d = (d', res) \<and>
    (if map_of acceptedTypes (sniffed_type (ls_max_bytes S) (up_bytes up)) = None then res = Inl ErrUnsupportedMediaType
     else if int (length (up_bytes up)) > ls_max_bytes S then res = Inl ErrPhotoTooLarge
     else if \<not> acceptable (ls_images S) (ls_max_bytes S) (sniffed_type (ls_max_bytes S) (up_bytes up)) (up_bytes up)
     then res = Inl ErrInvalidPhoto
     else \<exists>a. res = Inr a)"
  using put_verdict [OF assms] by (fastforce split: if_splits)

section \<open>A concrete store\<close>

text \<open>A store at \<open>/r\<close> on an almost empty disk, with a decoder that takes everything for a pixel.\<close>

definition sample_images :: image_lib where
  "sample_images = \<lparr>il_config = (\<lambda>_. Some (1, 1, ''jpeg'')), il_decodes = (\<lambda>_. True), il_sha256 = (\<lambda>_. replicate 32 0)\<rparr>"

definition sample_disk :: disk where
  "sample_disk = \<lparr>nodes = [([''r''], Dir)], cwd = None, os_faults = [], temp_names = (\<lambda>n. n), temps = 0\<rparr>"

definition sample_store :: local_store where
  "sample_store = \<lparr>ls_root = ''/r'', ls_max_bytes = 10, ls_images = sample_images, ls_classes = [''photo'']\<rparr>"

definition sample_upload :: upload where
  "sample_upload = \<lparr>up_bytes = [0xFF, 0xD8, 0xFF], up_fails = False\<rparr>"

lemma sample_ok:
  "store_ok sample_store" "cwd_ok sample_disk" "locate sample_disk (ls_root sample_store) = Some [''r'']"
  "is_dir (nodes sample_disk) [''r'']" "os_faults sample_disk = []" "Valid_class (ls_classes sample_store) ''photo''"
  "length (il_sha256 (ls_images sample_store) b) = 32"
proof -
  show "store_ok sample_store" by (simp add: store_ok_def sample_store_def registry_ok_def) code_simp
  show "locate sample_disk (ls_root sample_store) = Some [''r'']"
    by (simp add: locate_eq rooted_def sample_store_def abs_comps_def)
qed (simp_all add: cwd_ok_def sample_disk_def sample_store_def is_dir_def lookup_node_def blocked_def Valid_class_def sample_images_def)

lemma sample_sniff: "sniffed_type 10 [0xFF, 0xD8, 0xFF] = ContentTypeJPEG"
  by (simp add: sniffed_type_def detect_content_type_def sniffLen_def)

lemma sample_accepted:
  "map_of acceptedTypes ContentTypeJPEG = Some ''jpg''"
  "acceptable (ls_images sample_store) (ls_max_bytes sample_store) ContentTypeJPEG (up_bytes sample_upload)"
  "sniffed_type (ls_max_bytes sample_store) (up_bytes sample_upload) = ContentTypeJPEG"
  using sample_sniff
  by (simp_all add: acceptedTypes_def acceptable_def sample_store_def sample_upload_def sample_images_def
      formatToType_def pixels64_def maxDecodePixels_def)

lemma sample_put: "\<exists>d a. Put sample_store h ''photo'' sample_upload sample_disk = (d, Inr a) \<and>
    temps d = 1 \<and> temp_names d = temp_names sample_disk \<and> is_dir (nodes d) [''r''] \<and>
    map_of (nodes d) [''r'', temp_name 1] = None \<and> pu_type a = ContentTypeJPEG"
proof -
  have "room_for ([''r''] @ key_comps h ''photo'' sm ext) (nodes sample_disk)" for sm ext
    by (auto simp: room_for_def sample_disk_def files_def key_comps_def)
  moreover have "map_of (nodes sample_disk) ([''r''] @ [temp_name n]) = None" for n by (simp add: sample_disk_def)
  moreover have "\<not> up_fails sample_upload" "ls_max_bytes sample_store < 2 ^ 63 - 1"
    by (simp_all add: sample_upload_def sample_store_def)
  ultimately obtain d a ext where p: "Put sample_store h ''photo'' sample_upload sample_disk = (d, Inr a)" "pu_type a = ContentTypeJPEG"
      "temps d = temps sample_disk + 1" "temp_names d = temp_names sample_disk"
      "placed ([''r''] @ [temp_name (temp_names sample_disk (temps sample_disk))])
         ([''r''] @ key_comps h ''photo'' (hex_encode (il_sha256 (ls_images sample_store) (up_bytes sample_upload))) ext)
         (nodes sample_disk) (nodes d)"
    using put_verdict [OF sample_ok(1) _ sample_ok(7,6,5,2,3) _ sample_ok(4), of sample_upload h] sample_accepted
    by (auto simp: sample_store_def sample_upload_def)
  let ?cs = "key_comps h ''photo'' (hex_encode (il_sha256 (ls_images sample_store) (up_bytes sample_upload))) ext"
  have cs: "\<exists>y z. ?cs = ''households'' # y # z" by (simp add: key_comps_def)
  have "map_of (nodes d) [''r''] = Some Dir" using p(5) cs by (auto simp: sample_disk_def placed_def)
  then have "is_dir (nodes d) [''r'']" by (simp add: is_dir_def lookup_node_def blocked_def)
  moreover have "temp_name 1 \<noteq> temp_name 0" by (simp add: temp_name_def decimal.simps digit_char_def)
  then have "map_of (nodes d) [''r'', temp_name 1] = None"
    using p(5) cs temp_name_head [of 1] by (auto simp: sample_disk_def placed_def)
  moreover have "temps d = 1" using p(3) by (simp add: sample_disk_def)
  ultimately show ?thesis using p(1,2,4) by blast
qed

text \<open>The same upload on the disk that already has it.\<close>

lemma sample_put_again:
  assumes p: "Put sample_store h ''photo'' sample_upload sample_disk = (d, Inr a)"
  shows "\<exists>d' a'. Put sample_store h ''photo'' sample_upload d = (d', Inr a')"
proof -
  have d: "temps d = 1" "temp_names d = temp_names sample_disk" "is_dir (nodes d) [''r'']"
      "map_of (nodes d) [''r'', temp_name 1] = None" "pu_type a = ContentTypeJPEG"
    using sample_put [of h] p by auto
  note eff = put_effect [OF p sample_ok(1,3)]
  let ?key = "[''r''] @ key_comps h ''photo'' (hex_encode (il_sha256 (ls_images sample_store) (up_bytes sample_upload))) ''jpg''"
  have f: "lookup_node (nodes d) ?key = Inr (File (up_bytes sample_upload))"
      "files (nodes d) = (files (nodes sample_disk))(?key \<mapsto> up_bytes sample_upload)"
    using eff d(5) sample_accepted(1) by auto
  have c: "cwd d = cwd sample_disk" "os_faults d = []" using eff sample_ok(5) by simp_all
  have "map_of (nodes d) ?key \<noteq> Some Dir" using f(1) by (auto simp: lookup_file files_Some)
  moreover have "files (nodes d) (take k ?key) = None" if "k < length ?key" for k
  proof -
    have "take k ?key \<noteq> ?key" by (rule proper_take [OF that])
    moreover have "files (nodes sample_disk) q = None" for q by (simp add: sample_disk_def files_def)
    ultimately show ?thesis unfolding f(2) by (metis fun_upd_apply)
  qed
  ultimately have room: "room_for ?key (nodes d)" unfolding room_for_def by blast
  have l: "locate d (ls_root sample_store) = Some [''r'']" using sample_ok(3) locate_cong [OF c(1)] by simp
  have "temp_names d (temps d) = 1" by (simp add: d(1,2)) (simp add: sample_disk_def)
  moreover have "cwd_ok d" using c(1) sample_ok(2) by (simp add: cwd_ok_def)
  moreover have "\<not> up_fails sample_upload" "ls_max_bytes sample_store < 2 ^ 63 - 1"
    by (simp_all add: sample_upload_def sample_store_def)
  ultimately show ?thesis
    using put_verdict [OF sample_ok(1) _ sample_ok(7,6) c(2) _ l _ d(3), of sample_upload h] sample_accepted room d(4)
    by (auto simp: sample_store_def sample_upload_def)
qed

lemma refs_stay_inside_root_witness:
  "\<exists>full p. resolve sample_store ''photo'' sample_disk = Inr full \<and> locate sample_disk full = Some p \<and> prefix [''r''] p"
proof -
  have ne: "ls_root sample_store \<noteq> []" using sample_ok(1) by (simp add: store_ok_def)
  have "resolve sample_store (join_slash [''photo'']) sample_disk = Inr (path_join [ls_root sample_store, join_slash [''photo'']])"
    by (rule resolve_plain [OF sample_ok(2) ne sample_ok(3)]) (simp_all add: plain_comp_def)
  then show ?thesis
    using conjunct1 [OF refs_stay_inside_root [OF sample_ok(2) ne, of "''photo''"]] sample_ok(3) by auto
qed

lemma put_then_open_witness:
  "\<exists>d a. Put sample_store (HouseholdID 7) ''photo'' sample_upload sample_disk = (d, Inr a) \<and>
     pu_size a = 3 \<and> snd (Open sample_store (pu_ref a) d) = Inr (Reader [0xFF, 0xD8, 0xFF])"
proof -
  obtain d a where p: "Put sample_store (HouseholdID 7) ''photo'' sample_upload sample_disk = (d, Inr a)"
    using sample_put by blast
  have "os_faults d = []" using put_effect [OF p sample_ok(1,3)] sample_ok(5) by simp
  then show ?thesis
    using put_then_open [OF sample_ok(1,3) p] p by (auto simp: sample_upload_def)
qed

end
