(* ===== verification/Photo_Service.thy ===== *)
theory Photo_Service
  imports Photo_Repository Local_Store
begin

text \<open>
  The photo service, \<open>media/app/photo_service.go\<close>, with the store resolver
  (\<open>media/adapter/store_resolver.go\<close>). Its world is the database connection and the world of
  the photo stores; the EXIF reader is the one of \<open>Jpeg_Scrub\<close>.

  The theory states the contract of the photo store port as a locale, proves the service's
  round trip and deduplication from it, and interprets it on the local store.
\<close>

section \<open>Resolving stores\<close>

type_synonym 'w store_resolver = "(storage_backend \<times> 'w photo_store) list"

text \<open>The constructor panics, here \<open>None\<close>, without a store, on an unknown backend and on a nil store.\<close>

definition NewStoreResolver :: "(storage_backend \<times> 'w photo_store option) list \<Rightarrow> 'w store_resolver option" where
  "NewStoreResolver stores =
     (if stores = [] \<or> list_ex (\<lambda>(backend, st). \<not> Valid_backend backend \<or> st = None) stores then None
      else Some (map (\<lambda>(backend, st). (backend, the st)) stores))"

definition Resolve :: "'w store_resolver \<Rightarrow> storage_backend \<Rightarrow> media_error + 'w photo_store" where
  "Resolve r backend = (case map_of r backend of None \<Rightarrow> Inl ErrStoreNotConfigured | Some st \<Rightarrow> Inr st)"

section \<open>Capture times\<close>

text \<open>The EXIF reader on an opened photo; reading through a handle that fails is a decoding error.\<close>

definition taken_at_reader :: "('x, 'loc) exif_lib \<Rightarrow> photo_reader \<Rightarrow> time option" where
  "taken_at_reader lib r = (case r of Unreadable \<Rightarrow> None | Reader b \<Rightarrow> TakenAt lib b)"

section \<open>The service\<close>

record 'w media_world =
  mw_conn :: media_conn
  mw_store :: 'w

record 'w photo_service =
  ps_class :: photo_class
  ps_resolver :: "'w store_resolver"
  ps_write_backend :: storage_backend
  ps_exif :: "photo_reader \<Rightarrow> time option"
  ps_photos :: photo_repository

record upload_result =
  ur_photo :: photo
  ur_duplicate :: bool

record raw_serve_result =
  rs_redirect :: string
  rs_body :: "photo_reader option"
  rs_type :: string

definition NewPhotoService ::
    "string list \<Rightarrow> photo_class \<Rightarrow> 'w store_resolver option \<Rightarrow> storage_backend \<Rightarrow> (photo_reader \<Rightarrow> time option) option \<Rightarrow>
     photo_repository option \<Rightarrow> media_error + 'w photo_service" where
  "NewPhotoService registered c resolver backend exif photos =
     (if \<not> Valid_class registered c then Inl Media_other
      else case resolver of None \<Rightarrow> Inl Media_other
      | Some r \<Rightarrow>
          if \<not> Valid_backend backend then Inl Media_other
          else case exif of None \<Rightarrow> Inl Media_other
          | Some x \<Rightarrow>
              (case photos of None \<Rightarrow> Inl Media_other
               | Some repo \<Rightarrow>
                   Inr \<lparr>ps_class = c, ps_resolver = r, ps_write_backend = backend, ps_exif = x, ps_photos = repo\<rparr>))"

definition on_conn :: "(media_conn \<Rightarrow> media_conn \<times> 'a) \<Rightarrow> 'w media_world \<Rightarrow> 'w media_world \<times> 'a" where
  "on_conn f w = (case f (mw_conn w) of (s, a) \<Rightarrow> (w\<lparr>mw_conn := s\<rparr>, a))"

definition on_store :: "('w \<Rightarrow> 'w \<times> 'a) \<Rightarrow> 'w media_world \<Rightarrow> 'w media_world \<times> 'a" where
  "on_store f w = (case f (mw_store w) of (x, a) \<Rightarrow> (w\<lparr>mw_store := x\<rparr>, a))"

definition writeStore :: "'w photo_service \<Rightarrow> media_error + 'w photo_store" where
  "writeStore S = Resolve (ps_resolver S) (ps_write_backend S)"

definition readStore :: "'w photo_service \<Rightarrow> photo \<Rightarrow> media_error + 'w photo_store" where
  "readStore S p = Resolve (ps_resolver S) (ph_backend p)"

definition takenAt :: "'w photo_service \<Rightarrow> 'w photo_store \<Rightarrow> storage_ref \<Rightarrow> 'w media_world \<Rightarrow>
    'w media_world \<times> (media_error + time option)" where
  "takenAt S st ref w =
     (case on_store (st_open st ref) w of
        (w, Inl e) \<Rightarrow> (w, Inl e)
      | (w, Inr rc) \<Rightarrow> (w, Inr (ps_exif S rc)))"

text \<open>The second half of \<open>Upload\<close>, for a content hash the household does not have yet.\<close>

definition record_upload :: "'w photo_service \<Rightarrow> household_id \<Rightarrow> member_id \<Rightarrow> 'w photo_store \<Rightarrow> put_result \<Rightarrow>
    'w media_world \<Rightarrow> 'w media_world \<times> (media_error + upload_result)" where
  "record_upload S h uploader st stored w =
     (case takenAt S st (pu_ref stored) w of
        (w, Inl e) \<Rightarrow> (w, Inl e)
      | (w, Inr taken) \<Rightarrow>
          (case new_uuid (mw_conn w) of
             (i, s) \<Rightarrow>
               (let w = w\<lparr>mw_conn := s\<rparr>;
                    p = \<lparr>ph_id = PhotoID i, ph_household = h, ph_ref = pu_ref stored, ph_hash = pu_hash stored,
                         ph_size = pu_size stored, ph_type = pu_type stored, ph_taken_at = taken,
                         ph_uploaded_by = Some uploader, ph_created = 0, ph_backend = []\<rparr>
                in case Validate_photo p of
                     Inl e \<Rightarrow> (w, Inl e)
                   | Inr _ \<Rightarrow>
                       (case on_conn (Create (ps_photos S) (Some p)) w of
                          (w, Inr p) \<Rightarrow> (w, Inr \<lparr>ur_photo = p, ur_duplicate = False\<rparr>)
                        | (w, Inl e) \<Rightarrow>
                            if e = ErrDuplicatePhoto
                            then case on_conn (FindByContentHash h (pu_hash stored)) w of
                                   (w, Inl e) \<Rightarrow> (w, Inl e)
                                 | (w, Inr existing) \<Rightarrow> (w, Inr \<lparr>ur_photo = existing, ur_duplicate = True\<rparr>)
                            else (w, Inl e)))))"

definition Upload :: "'w photo_service \<Rightarrow> household_id \<Rightarrow> member_id \<Rightarrow> upload \<Rightarrow> 'w media_world \<Rightarrow>
    'w media_world \<times> (media_error + upload_result)" where
  "Upload S h uploader up w =
     (case writeStore S of
        Inl e \<Rightarrow> (w, Inl e)
      | Inr st \<Rightarrow>
          (case on_store (st_put st h (ps_class S) up) w of
             (w, Inl e) \<Rightarrow> (w, Inl e)
           | (w, Inr stored) \<Rightarrow>
               (case on_conn (FindByContentHash h (pu_hash stored)) w of
                  (w, Inr existing) \<Rightarrow> (w, Inr \<lparr>ur_photo = existing, ur_duplicate = True\<rparr>)
                | (w, Inl e) \<Rightarrow>
                    if e \<noteq> ErrPhotoNotFound then (w, Inl e)
                    else record_upload S h uploader st stored w)))"

definition ownedPhoto :: "household_id \<Rightarrow> photo_id \<Rightarrow> 'w media_world \<Rightarrow> 'w media_world \<times> (media_error + photo)" where
  "ownedPhoto h i w =
     (case on_conn (Get i) w of
        (w, Inl e) \<Rightarrow> (w, Inl e)
      | (w, Inr p) \<Rightarrow> (w, if ph_household p \<noteq> h then Inl ErrPhotoNotFound else Inr p))"

definition DeleteOwned :: "household_id \<Rightarrow> photo_id \<Rightarrow> 'w media_world \<Rightarrow> 'w media_world \<times> (media_error + unit)" where
  "DeleteOwned h i w =
     (case ownedPhoto h i w of
        (w, Inl e) \<Rightarrow> (w, Inl e)
      | (w, Inr _) \<Rightarrow> on_conn (DeletePhoto i) w)"

definition List :: "household_id \<Rightarrow> 'w media_world \<Rightarrow> 'w media_world \<times> (media_error + photo list)" where
  "List h w = on_conn (ListByHousehold h) w"

text \<open>\<open>strings.ToLower(filepath.Ext(ref))\<close>.\<close>

definition contentTypeForRef :: "storage_ref \<Rightarrow> string" where
  "contentTypeForRef ref =
     (let ext = to_lower (path_ext ref)
      in if ext = ''.jpg'' \<or> ext = ''.jpeg'' then ''image/jpeg''
         else if ext = ''.png'' then ''image/png''
         else if ext = ''.webp'' then ''image/webp''
         else ''application/octet-stream'')"

definition OpenBytes :: "'w photo_service \<Rightarrow> household_id \<Rightarrow> photo_id \<Rightarrow> 'w media_world \<Rightarrow>
    'w media_world \<times> (media_error + photo_reader \<times> string)" where
  "OpenBytes S h i w =
     (case ownedPhoto h i w of
        (w, Inl e) \<Rightarrow> (w, Inl e)
      | (w, Inr p) \<Rightarrow>
          (case readStore S p of
             Inl e \<Rightarrow> (w, Inl e)
           | Inr st \<Rightarrow>
               (case on_store (st_open st (ph_ref p)) w of
                  (w, Inl e) \<Rightarrow> (w, Inl e)
                | (w, Inr rc) \<Rightarrow> (w, Inr (rc, contentTypeForRef (ph_ref p))))))"

definition RawServe :: "'w photo_service \<Rightarrow> household_id \<Rightarrow> photo_id \<Rightarrow> 'w media_world \<Rightarrow>
    'w media_world \<times> (media_error + raw_serve_result)" where
  "RawServe S h i w =
     (case ownedPhoto h i w of
        (w, Inl e) \<Rightarrow> (w, Inl e)
      | (w, Inr p) \<Rightarrow>
          (case readStore S p of
             Inl e \<Rightarrow> (w, Inl e)
           | Inr st \<Rightarrow>
               if st_direct st
               then case on_store (st_url st (ph_ref p) 0) w of
                      (w, Inl e) \<Rightarrow> (w, Inl e)
                    | (w, Inr url) \<Rightarrow> (w, Inr \<lparr>rs_redirect = url, rs_body = None, rs_type = []\<rparr>)
               else case on_store (st_open st (ph_ref p)) w of
                      (w, Inl e) \<Rightarrow> (w, Inl e)
                    | (w, Inr rc) \<Rightarrow>
                        (w, Inr \<lparr>rs_redirect = [], rs_body = Some rc, rs_type = contentTypeForRef (ph_ref p)\<rparr>)))"

section \<open>Tenant isolation\<close>

lemma on_conn_effect: "on_conn f w = (w', r) \<Longrightarrow> mw_store w' = mw_store w \<and> f (mw_conn w) = (mw_conn w', r)"
  by (auto simp: on_conn_def split: prod.splits)

lemma on_store_effect: "on_store f w = (w', r) \<Longrightarrow> mw_conn w' = mw_conn w \<and> f (mw_store w) = (mw_store w', r)"
  by (auto simp: on_store_def split: prod.splits)

lemma get_outcomes: "Get i s = (s', Inl e) \<Longrightarrow> e \<in> {ErrPhotoNotFound, Media_other}"
  by (auto simp: Get_def scan_row_def split: prod.splits sum.splits if_splits)

lemma owned_row:
  assumes "ownedPhoto h i w = (w', r)"
  shows "mw_store w' = mw_store w \<and> db (mw_conn w') = db (mw_conn w) \<and>
    (case r of
       Inl e \<Rightarrow> e \<in> {ErrPhotoNotFound, Media_other}
     | Inr p \<Rightarrow> ph_household p = h \<and> (\<exists>row \<in> set (photo_rows (db (mw_conn w))). p_id row = pid i \<and> scanPhoto row = Inr p))"
proof -
  obtain w1 q where g: "on_conn (Get i) w = (w1, q)" by fastforce
  note e = on_conn_effect [OF g]
  have d: "db (mw_conn w1) = db (mw_conn w)" using e reads_db(1) [of i "mw_conn w"] by simp
  show ?thesis
  proof (cases q)
    case (Inl err)
    then show ?thesis using assms g e d get_outcomes [of i "mw_conn w"] by (auto simp: ownedPhoto_def)
  next
    case (Inr p)
    then show ?thesis using assms g e d get_row [of i "mw_conn w" "mw_conn w1" p]
      by (auto simp: ownedPhoto_def split: if_splits)
  qed
qed

lemma scan_household: "scanPhoto r = Inr p \<Longrightarrow> ph_household p = HouseholdID (p_household r)"
  by (auto simp: scanPhoto_def split: option.splits)


section \<open>The contract of a photo store\<close>

text \<open>What the service relies on: a put that succeeds makes its ref hold the upload, the ref's
  extension tells its type, the hash is a function of the bytes, and opening a held ref yields
  its bytes unless the world fails (is not calm).\<close>

locale store_contract =
  fixes st :: "'w photo_store" and inv :: "'w \<Rightarrow> bool" and calm :: "'w \<Rightarrow> bool"
    and held :: "'w \<Rightarrow> storage_ref \<Rightarrow> bytes option" and digest :: "bytes \<Rightarrow> string"
  assumes put_inv: "inv w \<Longrightarrow> st_put st h c up w = (w', r) \<Longrightarrow> inv w' \<and> (calm w \<longrightarrow> calm w')"
    and put_holds: "inv w \<Longrightarrow> st_put st h c up w = (w', Inr a) \<Longrightarrow>
      held w' (pu_ref a) = Some (up_bytes up) \<and> pu_hash a = digest (up_bytes up) \<and>
      ValidContentHash (pu_hash a) \<and> contentTypeForRef (pu_ref a) = pu_type a"
    and open_reads: "inv w \<Longrightarrow> st_open st ref w = (w', q) \<Longrightarrow>
      inv w' \<and> held w' = held w \<and> (calm w \<longrightarrow> calm w')"
    and open_held: "inv w \<Longrightarrow> st_open st ref w = (w', q) \<Longrightarrow> held w ref = Some b \<Longrightarrow>
      q = Inr (Reader b) \<or> \<not> calm w \<and> q = Inl Media_other"

text \<open>A service that writes to this store and stamps its rows with the store's backend.\<close>

definition writes_to :: "'w photo_service \<Rightarrow> 'w photo_store \<Rightarrow> bool" where
  "writes_to S st \<longleftrightarrow> Valid_backend (ps_write_backend S) \<and> ps_photos S = ps_write_backend S \<and>
     map_of (ps_resolver S) (ps_write_backend S) = Some st"

definition quiet :: "('w \<Rightarrow> bool) \<Rightarrow> 'w media_world \<Rightarrow> bool" where
  "quiet calm w \<longleftrightarrow> calm (mw_store w) \<and> faults (mw_conn w) = []"

lemma find_none:
  assumes "FindByContentHash h hash s = (s', Inl ErrPhotoNotFound)" and "ValidContentHash hash" and "photos_wf (db s)"
  shows "\<forall>r \<in> set (photo_rows (db s)). \<not> (p_household r = hid h \<and> p_hash r = Some hash)"
proof -
  have ne: "trim_space hash \<noteq> []" using hash_text [OF assms(2)] assms(2) by (auto simp: ValidContentHash_def)
  obtain s1 q where q: "run_sql (select_row (\<lambda>d. filter (\<lambda>r. p_household r = hid h \<and> p_hash r = Some hash) (photo_rows d))) s = (s1, q)"
    by fastforce
  then have "q = Inl ErrNoRows"
    using assms(1) ne by (auto simp: FindByContentHash_def scan_row_def split: sum.splits if_splits)
  from select_row_none [OF q [unfolded this]] show ?thesis by (simp add: filter_empty_conv)
qed

context store_contract
begin

lemma record_upload_stored:
  assumes "record_upload S h m st stored w = (w', Inr res)" and "writes_to S st" and "inv (mw_store w)"
    and "photos_wf (db (mw_conn w))" and "ValidContentHash (pu_hash stored)"
  shows "inv (mw_store w') \<and> held (mw_store w') = held (mw_store w) \<and> photos_wf (db (mw_conn w')) \<and>
    (\<exists>row \<in> set (photo_rows (db (mw_conn w'))). scanPhoto row = Inr (ur_photo res) \<and>
       p_household row = hid h \<and> p_hash row = Some (pu_hash stored) \<and>
       (\<not> ur_duplicate res \<longrightarrow> p_ref row = pu_ref stored \<and> p_backend row = ps_write_backend S \<and> ph_type (ur_photo res) = pu_type stored))"
proof -
  let ?R = "ps_write_backend S"
  have R: "Valid_backend ?R" "ps_photos S = ?R" using assms(2) by (simp_all add: writes_to_def)
  obtain w1 rc where t: "on_store (st_open st (pu_ref stored)) w = (w1, Inr rc)"
    using assms(1) by (auto simp: record_upload_def takenAt_def split: prod.splits sum.splits)
  note te = on_store_effect [OF t]
  have s1: "inv (mw_store w1)" "held (mw_store w1) = held (mw_store w)" using open_reads [OF assms(3)] te by blast+
  obtain i s where nu: "new_uuid (mw_conn w1) = (i, s)" by fastforce
  have dbs: "db s = db (mw_conn w)" using nu te by (auto simp: new_uuid_def)
  define p where "p = \<lparr>ph_id = PhotoID i, ph_household = h, ph_ref = pu_ref stored, ph_hash = pu_hash stored,
    ph_size = pu_size stored, ph_type = pu_type stored, ph_taken_at = ps_exif S rc, ph_uploaded_by = Some m,
    ph_created = 0, ph_backend = []\<rparr>"
  define w2 where "w2 = w1\<lparr>mw_conn := s\<rparr>"
  obtain w3 q where c: "on_conn (Create ?R (Some p)) w2 = (w3, q)" by fastforce
  note ce = on_conn_effect [OF c]
  have st3: "mw_store w3 = mw_store w1" using ce by (simp add: w2_def)
  have create: "Create ?R (Some p) s = (mw_conn w3, q)" using ce by (simp add: w2_def)
  show ?thesis
  proof (cases q)
    case (Inr p')
    have o: "w' = w3" "res = \<lparr>ur_photo = p', ur_duplicate = False\<rparr>"
      using assms(1) t nu c Inr R
      by (auto simp: record_upload_def takenAt_def p_def w2_def Let_def split: sum.splits)
    note cr = create_row [OF create [unfolded Inr]]
    have "scanPhoto (row_of p ?R (clock s)) = Inr p'"
      using scan_row_of [OF R(1), of p "clock s"] assms(5) cr by (simp add: p_def)
    moreover have "p_hash (row_of p ?R (clock s)) = Some (pu_hash stored)"
      using hash_text [OF assms(5)] by (simp add: row_of_def p_def)
    ultimately show ?thesis using o cr s1 st3 by (auto simp: row_of_def p_def)
  next
    case (Inl e)
    obtain w4 ex where dup: "e = ErrDuplicatePhoto" "on_conn (FindByContentHash h (pu_hash stored)) w3 = (w4, Inr ex)"
        "w' = w4" "res = \<lparr>ur_photo = ex, ur_duplicate = True\<rparr>"
      using assms(1) t nu c Inl R
      by (auto simp: record_upload_def takenAt_def p_def [symmetric] w2_def [symmetric] Let_def split: sum.splits if_splits prod.splits)
    note fe = on_conn_effect [OF dup(2)]
    have d3: "db (mw_conn w3) = db (mw_conn w)" using create_duplicate create Inl dup(1) dbs by metis
    have "db (mw_conn w4) = db (mw_conn w3)"
      using fe reads_db(2) [of h "pu_hash stored" "mw_conn w3"] by simp
    moreover obtain row where "row \<in> set (photo_rows (db (mw_conn w3)))" "p_household row = hid h"
        "p_hash row = Some (pu_hash stored)" "scanPhoto row = Inr ex"
      using fe find_row by blast
    ultimately show ?thesis using dup(3,4) fe st3 s1 d3 assms(4) by auto
  qed
qed

text \<open>After an upload the household has a row for its content, and the result is that row.\<close>

lemma upload_stored:
  assumes u: "Upload S h m up w = (w', Inr res)" and S: "writes_to S st" and i: "inv (mw_store w)"
    and wf: "photos_wf (db (mw_conn w))"
  shows "inv (mw_store w') \<and> photos_wf (db (mw_conn w')) \<and>
    (\<exists>row \<in> set (photo_rows (db (mw_conn w'))). scanPhoto row = Inr (ur_photo res) \<and>
       p_household row = hid h \<and> p_hash row = Some (digest (up_bytes up)) \<and>
       (\<not> ur_duplicate res \<longrightarrow> held (mw_store w') (p_ref row) = Some (up_bytes up) \<and>
          p_backend row = ps_write_backend S \<and> contentTypeForRef (p_ref row) = ph_type (ur_photo res)))"
proof -
  have r: "writeStore S = Inr st" using S by (simp add: writes_to_def writeStore_def Resolve_def)
  obtain w1 stored where p: "on_store (st_put st h (ps_class S) up) w = (w1, Inr stored)"
    using u r by (auto simp: Upload_def split: prod.splits sum.splits)
  note pe = on_store_effect [OF p]
  have s1: "inv (mw_store w1)" "held (mw_store w1) (pu_ref stored) = Some (up_bytes up)" "pu_hash stored = digest (up_bytes up)"
      "ValidContentHash (pu_hash stored)" "contentTypeForRef (pu_ref stored) = pu_type stored"
    using put_inv [OF i] put_holds [OF i] pe by blast+
  obtain w2 q where f: "on_conn (FindByContentHash h (pu_hash stored)) w1 = (w2, q)" by fastforce
  note fe = on_conn_effect [OF f]
  have db2: "db (mw_conn w2) = db (mw_conn w)"
    using fe pe reads_db(2) [of h "pu_hash stored" "mw_conn w1"] by simp
  show ?thesis
  proof (cases q)
    case (Inr ex)
    then have o: "w' = w2" "res = \<lparr>ur_photo = ex, ur_duplicate = True\<rparr>" using u r p f by (simp_all add: Upload_def)
    obtain row where "row \<in> set (photo_rows (db (mw_conn w1)))" "p_household row = hid h"
        "p_hash row = Some (pu_hash stored)" "scanPhoto row = Inr ex"
      using fe Inr find_row by blast
    then show ?thesis using o fe s1 db2 pe wf by auto
  next
    case (Inl e)
    then have ru: "record_upload S h m st stored w2 = (w', Inr res)"
      using u r p f by (auto simp: Upload_def split: if_splits)
    have "inv (mw_store w2)" using s1(1) fe by simp
    from record_upload_stored [OF ru S this wf [folded db2] s1(4)] s1 fe show ?thesis by fastforce
  qed
qed

text \<open>A new photo can be opened, with its bytes and the type it was stored as.\<close>

lemma upload_then_open:
  assumes "Upload S h m up w = (w1, Inr res)" and "\<not> ur_duplicate res" and "writes_to S st" and "inv (mw_store w)"
    and "photos_wf (db (mw_conn w))" and "OpenBytes S h (ph_id (ur_photo res)) w1 = (w2, r)"
  shows "r = Inr (Reader (up_bytes up), ph_type (ur_photo res)) \<or> r = Inl Media_other \<and> \<not> quiet calm w1"
proof -
  note up = upload_stored [OF assms(1,3,4,5)]
  obtain row where row: "row \<in> set (photo_rows (db (mw_conn w1)))" "scanPhoto row = Inr (ur_photo res)"
      "p_household row = hid h" "held (mw_store w1) (p_ref row) = Some (up_bytes up)"
      "p_backend row = ps_write_backend S" "contentTypeForRef (p_ref row) = ph_type (ur_photo res)"
    using up assms(2) by auto
  have ph: "ph_id (ur_photo res) = PhotoID (p_id row)" "ph_household (ur_photo res) = h" "ph_ref (ur_photo res) = p_ref row"
      "ph_backend (ur_photo res) = p_backend row"
    using scan_fields [OF row(2)] row(3,5) assms(3) by (simp_all add: writes_to_def)
  obtain w3 q where g: "on_conn (Get (ph_id (ur_photo res))) w1 = (w3, q)" by fastforce
  note ge = on_conn_effect [OF g]
  have "photos_wf (db (mw_conn w1))" using up by blast
  from get_exact [OF this row(1), of "ph_id (ur_photo res)" "mw_conn w3" q] ge ph
  have q: "q = Inr (ur_photo res) \<or> q = Inl Media_other \<and> faults (mw_conn w1) \<noteq> []" using row(2) by simp
  have rs: "readStore S (ur_photo res) = Inr st" using assms(3) row(5) ph by (simp add: readStore_def Resolve_def writes_to_def)
  obtain w4 x where o: "on_store (st_open st (p_ref row)) w3 = (w4, x)" by fastforce
  note oe = on_store_effect [OF o]
  have x: "x = Inr (Reader (up_bytes up)) \<or> \<not> calm (mw_store w1) \<and> x = Inl Media_other"
    using open_held [of "mw_store w1" "p_ref row" "mw_store w4" x] up ge oe row(4) by auto
  show ?thesis
    using q
  proof
    assume qe: "q = Inr (ur_photo res)"
    then have own: "ownedPhoto h (ph_id (ur_photo res)) w1 = (w3, Inr (ur_photo res))"
      using g ph by (simp add: ownedPhoto_def)
    show ?thesis
      using x assms(6) own rs o row(6) ph by (auto simp: OpenBytes_def quiet_def)
  next
    assume qe: "q = Inl Media_other \<and> faults (mw_conn w1) \<noteq> []"
    then have "ownedPhoto h (ph_id (ur_photo res)) w1 = (w3, Inl Media_other)" using g by (simp add: ownedPhoto_def)
    then show ?thesis using assms(6) qe by (auto simp: OpenBytes_def quiet_def)
  qed
qed

text \<open>The same content again is the same photo.\<close>

lemma upload_again:
  assumes "Upload S h m up w = (w1, Inr res)" and "writes_to S st" and "inv (mw_store w)" and "photos_wf (db (mw_conn w))"
    and "up_bytes up' = up_bytes up" and "Upload S h m' up' w1 = (w2, Inr res')"
  shows "ur_duplicate res' \<and> ur_photo res' = ur_photo res \<and> db (mw_conn w2) = db (mw_conn w1)"
proof -
  note up = upload_stored [OF assms(1-4)]
  then obtain row where row: "row \<in> set (photo_rows (db (mw_conn w1)))" "scanPhoto row = Inr (ur_photo res)"
      "p_household row = hid h" "p_hash row = Some (digest (up_bytes up))"
    by blast
  have r: "writeStore S = Inr st" using assms(2) by (simp add: writes_to_def writeStore_def Resolve_def)
  obtain w3 stored where p: "on_store (st_put st h (ps_class S) up') w1 = (w3, Inr stored)"
    using assms(6) r by (auto simp: Upload_def split: prod.splits sum.splits)
  note pe = on_store_effect [OF p]
  have st: "pu_hash stored = digest (up_bytes up)" "ValidContentHash (pu_hash stored)"
    using put_holds [OF _ conjunct2 [OF pe]] up assms(5) by metis+
  obtain w4 q where f: "on_conn (FindByContentHash h (pu_hash stored)) w3 = (w4, q)" by fastforce
  note fe = on_conn_effect [OF f]
  have "q \<noteq> Inl ErrPhotoNotFound"
  proof
    assume "q = Inl ErrPhotoNotFound"
    then have "FindByContentHash h (pu_hash stored) (mw_conn w1) = (mw_conn w4, Inl ErrPhotoNotFound)"
      using fe pe by simp
    from find_none [OF this st(2)] up row st(1) show False by auto
  qed
  then obtain ex where ex: "q = Inr ex" "w2 = w4" "res' = \<lparr>ur_photo = ex, ur_duplicate = True\<rparr>"
    using assms(6) r p f by (cases q) (auto simp: Upload_def)
  obtain row' where row': "row' \<in> set (photo_rows (db (mw_conn w1)))" "p_household row' = hid h"
      "p_hash row' = Some (pu_hash stored)" "scanPhoto row' = Inr ex"
    using fe ex(1) pe find_row by metis
  have "row' = row"
    using hash_unique [of "photo_rows (db (mw_conn w1))" row' row "pu_hash stored"] up row row' st(1)
    by (auto simp: photos_wf_def)
  then show ?thesis
    using ex row(2) row'(4) fe pe reads_db(2) [of h "pu_hash stored" "mw_conn w3"] by simp
qed

end

section \<open>The local store keeps the contract\<close>

definition local_inv :: "local_store \<Rightarrow> disk \<Rightarrow> bool" where
  "local_inv S d \<longleftrightarrow> store_ok S \<and> (\<exists>r. locate d (ls_root S) = Some r) \<and> (\<forall>b. length (il_sha256 (ls_images S) b) = 32)"

definition local_held :: "local_store \<Rightarrow> disk \<Rightarrow> storage_ref \<Rightarrow> bytes option" where
  "local_held S d ref =
     (case resolve S ref d of
        Inl _ \<Rightarrow> None
      | Inr full \<Rightarrow>
          (case map_option (lookup_node (nodes d)) (locate d full) of Some (Inr (File b)) \<Rightarrow> Some b | _ \<Rightarrow> None))"

definition disk_calm :: "disk \<Rightarrow> bool" where
  "disk_calm d \<longleftrightarrow> os_faults d = []"

definition local_digest :: "local_store \<Rightarrow> bytes \<Rightarrow> string" where
  "local_digest S b = hex_encode (il_sha256 (ls_images S) b)"

lemma lower_ext: "ext \<in> {''jpg'', ''png'', ''webp''} \<Longrightarrow> to_lower (CHR ''.'' # ext) = CHR ''.'' # ext"
proof -
  assume e: "ext \<in> {''jpg'', ''png'', ''webp''}"
  then have "is_ascii (CHR ''.'' # ext)" by (auto simp: is_ascii_def)
  from to_lower_ascii [OF this] e show ?thesis by auto
qed

lemma ext_of_key:
  assumes "CHR ''.'' \<notin> set ext" and "CHR ''/'' \<notin> set ext"
  shows "path_ext (a @ CHR ''.'' # ext) = CHR ''.'' # ext"
proof -
  have e: "takeWhile (\<lambda>c. c \<noteq> CHR ''/'') (rev ext @ CHR ''.'' # rev a) = rev ext @ CHR ''.'' # takeWhile (\<lambda>c. c \<noteq> CHR ''/'') (rev a)"
    using assms(2) by (subst takeWhile_append2) auto
  have "takeWhile (\<lambda>c. c \<noteq> CHR ''.'') (rev ext @ CHR ''.'' # z) = rev ext" for z
    using assms(1) by (subst takeWhile_append2) auto
  then show ?thesis by (simp add: path_ext_def e)
qed

text \<open>The extension of a stored ref tells its content type.\<close>

lemma ref_type:
  assumes "registry_ok registered" and "buildStorageKey registered h c sm ext = Inr key" and "map_of acceptedTypes t = Some ext"
  shows "contentTypeForRef key = t"
proof -
  have e: "ext \<in> {''jpg'', ''png'', ''webp''}" using accepted_ext [OF assms(3)] by auto
  have "key = join_slash [''households'', uuid_text (hid h), c, take 2 sm, sm @ ''.'' @ ext]"
    using storage_key_form(1) [OF assms(1,2)] by (simp add: key_comps_def)
  then have "key = (''households'' @ CHR ''/'' # uuid_text (hid h) @ CHR ''/'' # c @ CHR ''/'' # take 2 sm @ CHR ''/'' # sm) @ CHR ''.'' # ext"
    by simp
  moreover have "CHR ''.'' \<notin> set ext" "CHR ''/'' \<notin> set ext" using e by auto
  ultimately have "path_ext key = CHR ''.'' # ext" using ext_of_key by metis
  then have "contentTypeForRef key = (if ext = ''jpg'' then ''image/jpeg'' else if ext = ''png'' then ''image/png'' else ''image/webp'')"
    using e lower_ext [OF e] by (auto simp: contentTypeForRef_def Let_def)
  then show ?thesis using accepted_ext [OF assms(3)] by (auto simp: content_types)
qed

lemma ref_nonblank:
  assumes "registry_ok registered" and "buildStorageKey registered h c sm ext = Inr key"
  shows "trim_space key \<noteq> []"
proof -
  have "\<exists>rest. key = CHR ''h'' # rest"
    using storage_key_form(1) [OF assms] by (simp add: key_comps_def)
  then obtain rest where k: "key = CHR ''h'' # rest" by blast
  show ?thesis
    by (simp add: k trim_space_def runes_Cons_ascii is_space_def dropWhile_append3)
qed

lemma local_put_keeps:
  assumes "local_inv S d" and "Put S h c up d = (d', res)"
  shows "local_inv S d' \<and> (disk_calm d \<longrightarrow> disk_calm d')"
proof -
  obtain r where r: "locate d (ls_root S) = Some r" using assms(1) by (auto simp: local_inv_def)
  have "store_ok S" using assms(1) by (simp add: local_inv_def)
  note eff = put_effect [OF assms(2) this r]
  then have "locate d' (ls_root S) = Some r" using r locate_cong by metis
  then show ?thesis using assms(1) eff by (auto simp: local_inv_def disk_calm_def)
qed

lemma local_put_holds:
  assumes "local_inv S d" and "Put S h c up d = (d', Inr a)"
  shows "local_held S d' (pu_ref a) = Some (up_bytes up) \<and> pu_hash a = local_digest S (up_bytes up) \<and>
    ValidContentHash (pu_hash a) \<and> contentTypeForRef (pu_ref a) = pu_type a"
proof -
  obtain r where r: "locate d (ls_root S) = Some r" using assms(1) by (auto simp: local_inv_def)
  have ok: "store_ok S" "length (il_sha256 (ls_images S) (up_bytes up)) = 32" using assms(1) by (simp_all add: local_inv_def)
  note eff = put_effect [OF assms(2) ok(1) r]
  then obtain ext full where f: "map_of acceptedTypes (pu_type a) = Some ext"
      "resolve S (pu_ref a) d = Inr full" "locate d full = Some (r @ key_comps h c (pu_hash a) ext)"
      "lookup_node (nodes d') (r @ key_comps h c (pu_hash a) ext) = Inr (File (up_bytes up))"
      "pu_hash a = hex_encode (il_sha256 (ls_images S) (up_bytes up))"
      "buildStorageKey (ls_classes S) h c (pu_hash a) ext = Inr (pu_ref a)"
    by (auto simp: eq_commute [of "Inr _" "buildStorageKey _ _ _ _ _"])
  have "resolve S (pu_ref a) d' = Inr full" "locate d' full = Some (r @ key_comps h c (pu_hash a) ext)"
    using f(2,3) eff resolve_cong locate_cong by metis+
  then have "local_held S d' (pu_ref a) = Some (up_bytes up)" using f(4) by (simp add: local_held_def)
  moreover have "contentTypeForRef (pu_ref a) = pu_type a"
    using ref_type [OF _ f(6,1)] ok(1) by (simp add: store_ok_def)
  ultimately show ?thesis using f(5) hash_of_digest [OF ok(2)] by (simp add: local_digest_def)
qed

lemma open_calm: "os_faults d = [] \<Longrightarrow> fst (Open S ref d) = d"
proof -
  assume c: "os_faults d = []"
  have "fst (os_at os_lookup full d) = d" for full
    using os_at_calm [OF c, where f = os_lookup and path = full]
    by (cases "locate d full") (auto simp: os_at_def os_lookup_def split: sum.splits)
  then show ?thesis by (auto simp: Open_def split: sum.splits prod.splits) (metis fst_conv)+
qed

lemma local_open_effect:
  assumes "local_inv S d" and "Open S ref d = (d', q)"
  shows "local_inv S d' \<and> local_held S d' = local_held S d \<and> (disk_calm d \<longrightarrow> disk_calm d') \<and>
    (\<forall>b. local_held S d ref = Some b \<longrightarrow> q = Inr (Reader b) \<or> \<not> disk_calm d \<and> q = Inl Media_other)"
proof (cases "resolve S ref d")
  case (Inl e)
  then have "d' = d" using assms(2) by (simp add: Open_def)
  then show ?thesis using Inl assms(1) by (simp add: local_held_def)
next
  case (Inr full)
  obtain d1 x where o: "os_at os_lookup full d = (d1, x)" by fastforce
  then have d': "d' = d1" using assms(2) Inr by (simp add: Open_def split: sum.splits)
  note fr = os_at_frame [OF o]
  have n: "nodes d1 = nodes d" using os_at_effect [OF o] lookup_same by metis
  have "local_held S d1 = local_held S d"
    unfolding local_held_def fun_eq_iff n resolve_cong [OF conjunct1 [OF fr]] locate_cong [OF conjunct1 [OF fr]] by simp
  moreover have "q = Inr (Reader b) \<or> \<not> disk_calm d \<and> q = Inl Media_other" if h: "local_held S d ref = Some b" for b
  proof -
    obtain p where p: "locate d full = Some p" "lookup_node (nodes d) p = Inr (File b)"
      using h Inr by (auto simp: local_held_def split: option.splits sum.splits node.splits)
    have "x = Inr (File b) \<or> \<not> disk_calm d \<and> x = Inl OsOther"
      using o p by (auto simp: os_at_def os_call_def os_lookup_def Let_def disk_calm_def split: if_splits)
    then show ?thesis using assms(2) Inr o by (auto simp: Open_def)
  qed
  ultimately show ?thesis using assms(1) fr n d' by (auto simp: local_inv_def disk_calm_def)
qed

interpretation local_contract: store_contract "local_photo_store S" "local_inv S" disk_calm "local_held S" "local_digest S"
  for S
proof
  fix w h c up w' r
  assume "local_inv S w" "st_put (local_photo_store S) h c up w = (w', r)"
  then show "local_inv S w' \<and> (disk_calm w \<longrightarrow> disk_calm w')"
    using local_put_keeps by (simp add: local_photo_store_def)
next
  fix w h c up w' a
  assume "local_inv S w" "st_put (local_photo_store S) h c up w = (w', Inr a)"
  then show "local_held S w' (pu_ref a) = Some (up_bytes up) \<and> pu_hash a = local_digest S (up_bytes up) \<and>
      ValidContentHash (pu_hash a) \<and> contentTypeForRef (pu_ref a) = pu_type a"
    unfolding local_photo_store_def photo_store.simps by (rule local_put_holds)
next
  fix w ref w' q b
  assume w: "local_inv S w" "st_open (local_photo_store S) ref w = (w', q)"
  then show "local_inv S w' \<and> local_held S w' = local_held S w \<and> (disk_calm w \<longrightarrow> disk_calm w')"
    using local_open_effect [of S w ref w' q] by (simp add: local_photo_store_def)
  assume "local_held S w ref = Some b"
  then show "q = Inr (Reader b) \<or> \<not> disk_calm w \<and> q = Inl Media_other"
    using w local_open_effect [of S w ref w' q] by (simp add: local_photo_store_def)
qed

text \<open>C20: a photo that was uploaded to the local store can be opened: right after an upload that
  made a new photo, opening it for its household yields the uploaded bytes and the content type
  that was sniffed, and it can fail only because the disk or the database does.\<close>

theorem uploaded_photo_opens:
  assumes "Upload S h m up w = (w1, Inr res)" and "\<not> ur_duplicate res" and "writes_to S (local_photo_store L)"
    and "local_inv L (mw_store w)" and "photos_wf (db (mw_conn w))" and "OpenBytes S h (ph_id (ur_photo res)) w1 = (w2, r)"
  shows "r = Inr (Reader (up_bytes up), ph_type (ur_photo res)) \<or> r = Inl Media_other \<and> \<not> quiet disk_calm w1"
  by (rule local_contract.upload_then_open [OF assms])

text \<open>Uploads are idempotent: when a household uploads the same bytes a second time, the result
  is the photo of the first time, flagged as a duplicate, and no row is added.\<close>

theorem same_upload_same_photo:
  assumes "Upload S h m up w = (w1, Inr res)" and "writes_to S (local_photo_store L)" and "local_inv L (mw_store w)"
    and "photos_wf (db (mw_conn w))" and "up_bytes up' = up_bytes up" and "Upload S h m' up' w1 = (w2, Inr res')"
  shows "ur_duplicate res' \<and> ur_photo res' = ur_photo res \<and> db (mw_conn w2) = db (mw_conn w1)"
  by (rule local_contract.upload_again [OF assms])

section \<open>A concrete service\<close>

definition sample_household :: household_id where "sample_household = HouseholdID 7"
definition sample_member :: member_id where "sample_member = MemberID 8"

definition sample_identity :: identity_db where
  "sample_identity =
     \<lparr>households = [\<lparr>hh_id = 7, hh_name = ''h'', hh_created = 0, hh_updated = 0\<rparr>],
      members = [\<lparr>m_id = 8, m_household = 7, m_name = ''m'', m_role = ''owner'', m_email = None, m_hash = None,
                  m_active = True, m_created = 0, m_updated = 0\<rparr>],
      mfas = [], codes = [], passkeys = [], lower_fn = (\<lambda>s. s)\<rparr>"

definition sample_world :: "disk media_world" where
  "sample_world =
     \<lparr>mw_conn = \<lparr>db = \<lparr>photo_identity = sample_identity, photo_rows = []\<rparr>, clock = 5, faults = [], uuids = of_nat, uuids_used = 0\<rparr>,
      mw_store = sample_disk\<rparr>"

definition sample_service :: "disk photo_service" where
  "sample_service =
     \<lparr>ps_class = ''photo'', ps_resolver = [(StorageBackendLocal, local_photo_store sample_store)],
      ps_write_backend = StorageBackendLocal, ps_exif = (\<lambda>_. None), ps_photos = StorageBackendLocal\<rparr>"

lemma sample_world_ok:
  "photos_wf (db (mw_conn sample_world))" "local_inv sample_store (mw_store sample_world)"
  "writes_to sample_service (local_photo_store sample_store)" "quiet disk_calm sample_world"
  using sample_ok
  by (auto simp: photos_wf_def sample_world_def local_inv_def writes_to_def sample_service_def Valid_backend_def
      quiet_def disk_calm_def)

text \<open>On the quiet sample world the first upload makes a photo.\<close>

lemma sample_uploads:
  "\<exists>w r. Upload sample_service sample_household sample_member sample_upload sample_world = (w, Inr r) \<and>
     \<not> ur_duplicate r \<and> quiet disk_calm w \<and>
     (\<exists>d a. Put sample_store sample_household ''photo'' sample_upload sample_disk = (d, Inr a) \<and>
        snd (Open sample_store (pu_ref a) d) = Inr (Reader (up_bytes sample_upload)) \<and>
        mw_store w = fst (Open sample_store (pu_ref a) d))"
proof -
  obtain d a where p: "Put sample_store sample_household ''photo'' sample_upload sample_disk = (d, Inr a)"
    using sample_put by blast
  have i: "local_inv sample_store sample_disk" using sample_world_ok(2) by (simp add: sample_world_def)
  note eff = put_effect [OF p sample_ok(1,3)]
  note holds = local_put_holds [OF i p]
  have calm: "os_faults d = []" using eff sample_ok(5) by simp
  obtain d2 q where o: "Open sample_store (pu_ref a) d = (d2, q)" by fastforce
  have id: "local_inv sample_store d" using local_put_keeps [OF i p] by simp
  have q: "q = Inr (Reader (up_bytes sample_upload))" and calm2: "os_faults d2 = []"
    using local_open_effect [OF id o] holds calm by (auto simp: disk_calm_def)
  let ?w = "sample_world\<lparr>mw_store := d\<rparr>"
  have h: "trim_space (pu_hash a) = pu_hash a" "nullableText (pu_hash a) = Some (pu_hash a)" "pu_hash a \<noteq> []" "ValidContentHash (pu_hash a)"
    using hash_text holds by (auto simp: ValidContentHash_def)
  have find: "FindByContentHash sample_household (pu_hash a) (mw_conn sample_world) = (mw_conn sample_world, Inl ErrPhotoNotFound)"
    using h by (simp add: FindByContentHash_def run_sql_no_faults sample_world_def select_row_def scan_row_def)
  obtain ext where b: "buildStorageKey (ls_classes sample_store) sample_household ''photo'' (pu_hash a) ext = Inr (pu_ref a)"
      "map_of acceptedTypes (pu_type a) = Some ext" "pu_size a = int (length (up_bytes sample_upload))"
    using eff by (auto simp: eq_commute [of "Inr _" "buildStorageKey _ _ _ _ _"])
  have "registry_ok (ls_classes sample_store)" using sample_ok(1) by (simp add: store_ok_def)
  from ref_nonblank [OF this b(1)] have ref: "trim_space (pu_ref a) \<noteq> []" .
  have ty: "pu_type a \<in> set acceptedContentTypes" using accepted_ext [OF b(2)] by (auto simp: acceptedContentTypes_def)
  show ?thesis
    using p find o q h ref ty b(3) calm2
    by (simp add: Upload_def writeStore_def Resolve_def sample_service_def on_store_def on_conn_def local_photo_store_def
        record_upload_def takenAt_def new_uuid_def Validate_photo_def Create_def run_sql_no_faults sql_insert_photo_def
        put_photos_def Let_def sample_world_def sample_identity_def household_exists_def uploader_ok_def member_in_def
        memberArg_def sample_household_def sample_member_def Valid_backend_def sample_upload_def quiet_def disk_calm_def)
qed

lemma uploaded_photo_opens_witness:
  "\<exists>w r. Upload sample_service sample_household sample_member sample_upload sample_world = (w, Inr r) \<and>
     snd (OpenBytes sample_service sample_household (ph_id (ur_photo r)) w) =
       Inr (Reader [0xFF, 0xD8, 0xFF], ph_type (ur_photo r))"
proof -
  obtain w r where u: "Upload sample_service sample_household sample_member sample_upload sample_world = (w, Inr r)"
      "\<not> ur_duplicate r" "quiet disk_calm w"
    using sample_uploads by auto
  obtain w2 q where o: "OpenBytes sample_service sample_household (ph_id (ur_photo r)) w = (w2, q)" by fastforce
  from uploaded_photo_opens [OF u(1,2) sample_world_ok(3,2,1) o] u(3) show ?thesis using u(1) o by (simp add: sample_upload_def)
qed


lemma find_exact:
  assumes "photos_wf (db s)" and "faults s = []" and "row \<in> set (photo_rows (db s))" and "p_household row = hid h"
    and "p_hash row = Some sm" and "ValidContentHash sm"
  shows "\<exists>p. FindByContentHash h sm s = (s, Inr p)"
proof -
  let ?f = "filter (\<lambda>r. p_household r = hid h \<and> p_hash r = Some sm) (photo_rows (db s))"
  obtain x xs where x: "?f = x # xs" using assms(3-5) by (cases ?f) (auto simp: filter_empty_conv)
  then have "x \<in> set (photo_rows (db s))" by (metis filter_is_subset list.set_intros(1) subsetD)
  then obtain p where "scanPhoto x = Inr p" using assms(1) scan_valid by (auto simp: photos_wf_def)
  then show ?thesis
    using hash_text [OF assms(6)] assms(2,6) x
    by (auto simp: FindByContentHash_def run_sql_no_faults select_row_def scan_row_def ValidContentHash_def)
qed

end
