(* ===== verification/Reaper.thy ===== *)
theory Reaper
  imports Photo_Service "HOL-Library.List_Lexorder" "HOL-Library.Char_ord"
begin

text \<open>
  The storage reaper, \<open>media/app/reaper_service.go\<close>: it deletes the stored objects that no photo
  row refers to and that are older than a grace window. The service is modelled over any sources
  and any store; the theorems are about sources that are photo repositories, one per class, each
  on its own connection, and a store that satisfies the contract stated here.
\<close>

section \<open>The service\<close>

record 'w reapable_source =
  rp_list :: "storage_backend \<Rightarrow> 'w \<Rightarrow> 'w \<times> (media_error + storage_ref list)"
  rp_exists :: "storage_ref \<Rightarrow> storage_backend \<Rightarrow> 'w \<Rightarrow> 'w \<times> (media_error + bool)"

record 'w reaper_service =
  re_lister :: "photo_class \<Rightarrow> 'w \<Rightarrow> 'w \<times> (media_error + object_info list)"
  re_store :: "'w photo_store"
  re_backend :: storage_backend
  re_sources :: "photo_class \<Rightarrow> 'w reapable_source"
  re_classes :: "photo_class list"
  re_grace :: duration

text \<open>The sources come as a Go map: an association list with distinct keys.\<close>

definition NewReaperService ::
    "string list \<Rightarrow> 'w photo_store option \<Rightarrow> storage_backend \<Rightarrow> (photo_class \<times> 'w reapable_source option) list \<Rightarrow> duration \<Rightarrow>
     media_error + 'w reaper_service" where
  "NewReaperService registered store_opt backend sources grace =
     (case store_opt of
        None \<Rightarrow> Inl Media_other
      | Some st \<Rightarrow>
          if \<not> Valid_backend backend then Inl Media_other
          else if sources = [] then Inl Media_other
          else if grace \<le> 0 then Inl Media_other
          else case st_list st of
            None \<Rightarrow> Inl Media_other
          | Some lister \<Rightarrow>
              if list_ex (\<lambda>(c, src). \<not> Valid_class registered c \<or> src = None) sources then Inl Media_other
              else Inr \<lparr>re_lister = lister, re_store = st, re_backend = backend,
                        re_sources = (\<lambda>c. the (the (map_of sources c))),
                        re_classes = sort_key class_String (map fst sources), re_grace = grace\<rparr>)"

text \<open>\<open>referencedRefs\<close>: the union over the classes.\<close>

fun referencedRefs :: "'w reaper_service \<Rightarrow> photo_class list \<Rightarrow> 'w \<Rightarrow> 'w \<times> (media_error + storage_ref set)" where
  "referencedRefs R [] w = (w, Inr {})"
| "referencedRefs R (c # cs) w =
     (case rp_list (re_sources R c) (re_backend R) w of
        (w, Inl e) \<Rightarrow> (w, Inl e)
      | (w, Inr refs) \<Rightarrow>
          (case referencedRefs R cs w of
             (w, Inl e) \<Rightarrow> (w, Inl e)
           | (w, Inr others) \<Rightarrow> (w, Inr (set refs \<union> others))))"

fun existsByStorageRef :: "'w reaper_service \<Rightarrow> photo_class list \<Rightarrow> storage_ref \<Rightarrow> 'w \<Rightarrow> 'w \<times> (media_error + bool)" where
  "existsByStorageRef R [] ref w = (w, Inr False)"
| "existsByStorageRef R (c # cs) ref w =
     (case rp_exists (re_sources R c) ref (re_backend R) w of
        (w, Inl e) \<Rightarrow> (w, Inl e)
      | (w, Inr True) \<Rightarrow> (w, Inr True)
      | (w, Inr False) \<Rightarrow> existsByStorageRef R cs ref w)"

definition orphanCandidates ::
    "'w reaper_service \<Rightarrow> photo_class \<Rightarrow> time \<Rightarrow> storage_ref set \<Rightarrow> 'w \<Rightarrow> 'w \<times> (media_error + storage_ref list)" where
  "orphanCandidates R c cutoff referenced w =
     (case re_lister R c w of
        (w, Inl e) \<Rightarrow> (w, Inl e)
      | (w, Inr objects) \<Rightarrow>
          (w, Inr (map oi_key (filter (\<lambda>obj. oi_key obj \<notin> referenced \<and> \<not> oi_modified obj > cutoff) objects))))"

text \<open>The inner loop of \<open>Run\<close>: each candidate is checked again just before it is deleted.\<close>

fun delete_orphans :: "'w reaper_service \<Rightarrow> storage_ref list \<Rightarrow> 'w \<Rightarrow> 'w \<times> (media_error + nat)" where
  "delete_orphans R [] w = (w, Inr 0)"
| "delete_orphans R (ref # refs) w =
     (case existsByStorageRef R (re_classes R) ref w of
        (w, Inl e) \<Rightarrow> (w, Inl e)
      | (w, Inr True) \<Rightarrow> delete_orphans R refs w
      | (w, Inr False) \<Rightarrow>
          (case st_delete (re_store R) ref w of
             (w, Inl e) \<Rightarrow> (w, Inl e)
           | (w, Inr _) \<Rightarrow>
               (case delete_orphans R refs w of
                  (w, Inl e) \<Rightarrow> (w, Inl e)
                | (w, Inr n) \<Rightarrow> (w, Inr (n + 1)))))"

fun sweep_classes :: "'w reaper_service \<Rightarrow> photo_class list \<Rightarrow> time \<Rightarrow> storage_ref set \<Rightarrow> 'w \<Rightarrow>
    'w \<times> (media_error + (photo_class \<times> nat) list)" where
  "sweep_classes R [] cutoff referenced w = (w, Inr [])"
| "sweep_classes R (c # cs) cutoff referenced w =
     (case orphanCandidates R c cutoff referenced w of
        (w, Inl e) \<Rightarrow> (w, Inl e)
      | (w, Inr candidates) \<Rightarrow>
          (case delete_orphans R candidates w of
             (w, Inl e) \<Rightarrow> (w, Inl e)
           | (w, Inr deleted) \<Rightarrow>
               (case sweep_classes R cs cutoff referenced w of
                  (w, Inl e) \<Rightarrow> (w, Inl e)
                | (w, Inr result) \<Rightarrow> (w, Inr ((c, deleted) # result)))))"

definition Run :: "'w reaper_service \<Rightarrow> time \<Rightarrow> 'w \<Rightarrow> 'w \<times> (media_error + (photo_class \<times> nat) list)" where
  "Run R now w =
     (case referencedRefs R (re_classes R) w of
        (w, Inl e) \<Rightarrow> (w, Inl e)
      | (w, Inr referenced) \<Rightarrow> sweep_classes R (re_classes R) (now - re_grace R) referenced w)"

fun report_classes :: "'w reaper_service \<Rightarrow> photo_class list \<Rightarrow> time \<Rightarrow> storage_ref set \<Rightarrow> 'w \<Rightarrow>
    'w \<times> (media_error + (photo_class \<times> storage_ref list) list)" where
  "report_classes R [] cutoff referenced w = (w, Inr [])"
| "report_classes R (c # cs) cutoff referenced w =
     (case orphanCandidates R c cutoff referenced w of
        (w, Inl e) \<Rightarrow> (w, Inl e)
      | (w, Inr candidates) \<Rightarrow>
          (case report_classes R cs cutoff referenced w of
             (w, Inl e) \<Rightarrow> (w, Inl e)
           | (w, Inr result) \<Rightarrow> (w, Inr ((c, candidates) # result))))"

definition DryRun :: "'w reaper_service \<Rightarrow> time \<Rightarrow> 'w \<Rightarrow> 'w \<times> (media_error + (photo_class \<times> storage_ref list) list)" where
  "DryRun R now w =
     (case referencedRefs R (re_classes R) w of
        (w, Inl e) \<Rightarrow> (w, Inl e)
      | (w, Inr referenced) \<Rightarrow> report_classes R (re_classes R) (now - re_grace R) referenced w)"

section \<open>Photo repositories as sources\<close>

text \<open>Every class has a photo table of its own, behind its own connection.\<close>

record 'o reaper_world =
  rw_conns :: "photo_class \<Rightarrow> media_conn"
  rw_objects :: 'o

definition on_class :: "photo_class \<Rightarrow> (media_conn \<Rightarrow> media_conn \<times> 'a) \<Rightarrow> 'o reaper_world \<Rightarrow> 'o reaper_world \<times> 'a" where
  "on_class c f w = (case f (rw_conns w c) of (s, a) \<Rightarrow> (w\<lparr>rw_conns := (rw_conns w)(c := s)\<rparr>, a))"

definition photo_source :: "photo_class \<Rightarrow> 'o reaper_world reapable_source" where
  "photo_source c =
     \<lparr>rp_list = (\<lambda>backend. on_class c (ListAllStorageRefs backend)),
      rp_exists = (\<lambda>ref backend. on_class c (ExistsByStorageRef ref backend))\<rparr>"

definition on_objects :: "('o \<Rightarrow> 'o \<times> 'a) \<Rightarrow> 'o reaper_world \<Rightarrow> 'o reaper_world \<times> 'a" where
  "on_objects f w = (case f (rw_objects w) of (x, a) \<Rightarrow> (w\<lparr>rw_objects := x\<rparr>, a))"

text \<open>The reaper of a deployment: photo repositories and an object store.\<close>

definition photo_reaper :: "'o photo_store \<Rightarrow> (photo_class \<Rightarrow> 'o \<Rightarrow> 'o \<times> (media_error + object_info list)) \<Rightarrow>
    storage_backend \<Rightarrow> photo_class list \<Rightarrow> duration \<Rightarrow> 'o reaper_world reaper_service" where
  "photo_reaper st lister backend classes grace =
     \<lparr>re_lister = (\<lambda>c. on_objects (lister c)),
      re_store =
        \<lparr>st_put = (\<lambda>h c up. on_objects (st_put st h c up)), st_open = (\<lambda>ref. on_objects (st_open st ref)),
         st_delete = (\<lambda>ref. on_objects (st_delete st ref)), st_url = (\<lambda>ref ttl. on_objects (st_url st ref ttl)),
         st_direct = st_direct st, st_list = Some (\<lambda>c. on_objects (lister c))\<rparr>,
      re_backend = backend, re_sources = photo_source, re_classes = classes, re_grace = grace\<rparr>"

definition tables :: "'o reaper_world \<Rightarrow> photo_class \<Rightarrow> media_db" where
  "tables w c = db (rw_conns w c)"

definition conns_calm :: "'o reaper_world \<Rightarrow> bool" where
  "conns_calm w \<longleftrightarrow> (\<forall>c. faults (rw_conns w c) = [])"

text \<open>What a table refers to on a backend.\<close>

definition refs_in :: "storage_backend \<Rightarrow> media_db \<Rightarrow> storage_ref set" where
  "refs_in backend d = p_ref ` {r \<in> set (photo_rows d). p_backend r = backend}"

lemma refs_in_list: "refs_in backend d = set (map p_ref (filter (\<lambda>r. p_backend r = backend) (photo_rows d)))"
  by (simp add: refs_in_def)

text \<open>What the reaper relies on from an object store, for the objects \<open>objs\<close> it holds (their
  modification times): a listing is a snapshot, and deleting touches no other object. On a calm
  world calls succeed, and a listing has each object of its class once and no others.\<close>

definition objects_ok :: "'o photo_store \<Rightarrow> (photo_class \<Rightarrow> 'o \<Rightarrow> 'o \<times> (media_error + object_info list)) \<Rightarrow>
    ('o \<Rightarrow> storage_ref \<Rightarrow> time option) \<Rightarrow> (storage_ref \<Rightarrow> photo_class option) \<Rightarrow> ('o \<Rightarrow> bool) \<Rightarrow> bool" where
  "objects_ok st lister objs class_of calm \<longleftrightarrow>
     (\<forall>c x x' r. lister c x = (x', r) \<longrightarrow> objs x' = objs x \<and> (calm x \<longrightarrow> calm x' \<and> (\<exists>os. r = Inr os)) \<and>
        (\<forall>os. r = Inr os \<longrightarrow>
           (\<forall>obj \<in> set os. objs x (oi_key obj) = Some (oi_modified obj)) \<and>
           (calm x \<longrightarrow> distinct (map oi_key os) \<and> oi_key ` set os = {ref. class_of ref = Some c \<and> objs x ref \<noteq> None}))) \<and>
     (\<forall>ref x x' r. st_delete st ref x = (x', r) \<longrightarrow>
        (objs x' = objs x \<or> objs x' = (objs x)(ref := None)) \<and>
        (calm x \<longrightarrow> calm x' \<and> r = Inr () \<and> objs x' = (objs x)(ref := None)))"

section \<open>What the sources answer\<close>

lemma on_class_effect:
  assumes "on_class c f w = (w', r)" and "\<And>s. db (fst (f s)) = db s"
  shows "tables w' = tables w \<and> rw_objects w' = rw_objects w \<and> (\<exists>s. f (rw_conns w c) = (s, r) \<and> rw_conns w' = (rw_conns w)(c := s))"
proof -
  obtain s a where f: "f (rw_conns w c) = (s, a)" by fastforce
  then have w': "w' = w\<lparr>rw_conns := (rw_conns w)(c := s)\<rparr>" "r = a" using assms(1) by (simp_all add: on_class_def)
  have "db s = db (rw_conns w c)" using assms(2) [of "rw_conns w c"] f by simp
  then have "tables w' c' = tables w c'" for c' by (simp add: tables_def w')
  then show ?thesis using f by (auto simp: w')
qed

lemma list_refs_exact:
  assumes "ListAllStorageRefs backend s = (s', r)"
  shows "(\<forall>refs. r = Inr refs \<longrightarrow> set refs = refs_in backend (db s)) \<and> (faults s = [] \<longrightarrow> faults s' = [] \<and> (\<exists>refs. r = Inr refs))"
proof -
  let ?q = "select (\<lambda>d. map p_ref (filter (\<lambda>r. p_backend r = backend) (photo_rows d)))"
  obtain s1 x where q: "run_sql ?q s = (s1, x)" by fastforce
  have "faults s = [] \<longrightarrow> faults s1 = [] \<and> (\<exists>a. x = Inr a)"
    using run_sql_no_faults_left [OF _ q] run_sql_no_faults [of s ?q] q by (auto simp: select_def)
  moreover have "x = Inr a \<Longrightarrow> set a = refs_in backend (db s)" for a
    using select_Inr [of "\<lambda>d. map p_ref (filter (\<lambda>r. p_backend r = backend) (photo_rows d))" s s1 a] q by (auto simp: refs_in_def)
  ultimately show ?thesis using assms q by (auto simp: ListAllStorageRefs_def split: sum.splits)
qed

lemma exists_ref_exact:
  assumes "ExistsByStorageRef ref backend s = (s', r)"
  shows "(\<forall>b. r = Inr b \<longrightarrow> b = (ref \<in> refs_in backend (db s))) \<and> (faults s = [] \<longrightarrow> faults s' = [] \<and> (\<exists>b. r = Inr b))"
proof -
  let ?f = "\<lambda>d. [list_ex (\<lambda>r. p_ref r = ref \<and> p_backend r = backend) (photo_rows d)]"
  obtain s1 x where q: "run_sql (select_row ?f) s = (s1, x)" by fastforce
  have "faults s = [] \<longrightarrow> faults s1 = [] \<and> (\<exists>a. x = Inr a)"
    using run_sql_no_faults_left [OF _ q] run_sql_no_faults [of s "select_row ?f"] q by (auto simp: select_row_def)
  moreover have "x = Inr a \<Longrightarrow> a = (ref \<in> refs_in backend (db s))" for a
    using select_row_Inr [of ?f s s1 a] q by (auto simp: refs_in_def list_ex_iff)
  ultimately show ?thesis using assms q by (auto simp: ExistsByStorageRef_def split: sum.splits)
qed

lemma calm_update: "conns_calm w \<Longrightarrow> faults s = [] \<Longrightarrow> rw_conns w' = (rw_conns w)(c := s) \<Longrightarrow> conns_calm w'"
  by (auto simp: conns_calm_def)

abbreviation referenced_in :: "storage_backend \<Rightarrow> photo_class list \<Rightarrow> 'o reaper_world \<Rightarrow> storage_ref set" where
  "referenced_in backend cs w \<equiv> (\<Union>c \<in> set cs. refs_in backend (tables w c))"

lemma referenced_exact:
  assumes "referencedRefs (photo_reaper st lister backend classes grace) cs w = (w', r)"
  shows "tables w' = tables w \<and> rw_objects w' = rw_objects w \<and>
    (\<forall>S. r = Inr S \<longrightarrow> S = referenced_in backend cs w) \<and> (conns_calm w \<longrightarrow> conns_calm w' \<and> (\<exists>S. r = Inr S))"
  using assms
proof (induction cs arbitrary: w w' r)
  case (Cons c cs)
  obtain w1 x where l: "on_class c (ListAllStorageRefs backend) w = (w1, x)" by fastforce
  obtain s where e: "tables w1 = tables w" "rw_objects w1 = rw_objects w" "ListAllStorageRefs backend (rw_conns w c) = (s, x)"
      "rw_conns w1 = (rw_conns w)(c := s)"
    using on_class_effect [OF l] by auto
  note ex = list_refs_exact [OF e(3)]
  have calm: "conns_calm w \<longrightarrow> conns_calm w1 \<and> (\<exists>refs. x = Inr refs)"
    using calm_update [of w s w1 c] e(4) ex by (auto simp: conns_calm_def)
  show ?case
  proof (cases x)
    case (Inl er)
    then show ?thesis using Cons.prems l e calm by (auto simp: photo_reaper_def photo_source_def)
  next
    case (Inr refs)
    obtain w2 y where r: "referencedRefs (photo_reaper st lister backend classes grace) cs w1 = (w2, y)" by fastforce
    have "w' = w2" "r = (case y of Inl e \<Rightarrow> Inl e | Inr S \<Rightarrow> Inr (set refs \<union> S))"
      using Cons.prems l Inr r by (auto simp: photo_reaper_def photo_source_def split: sum.splits)
    then show ?thesis using Cons.IH [OF r] e(1,2) ex Inr calm by (auto simp: tables_def split: sum.splits)
  qed
qed simp

lemma exists_exact:
  assumes "existsByStorageRef (photo_reaper st lister backend classes grace) cs ref w = (w', r)"
  shows "tables w' = tables w \<and> rw_objects w' = rw_objects w \<and>
    (\<forall>b. r = Inr b \<longrightarrow> b = (ref \<in> referenced_in backend cs w)) \<and> (conns_calm w \<longrightarrow> conns_calm w' \<and> (\<exists>b. r = Inr b))"
  using assms
proof (induction cs arbitrary: w w' r)
  case (Cons c cs)
  obtain w1 x where l: "on_class c (ExistsByStorageRef ref backend) w = (w1, x)" by fastforce
  obtain s where e: "tables w1 = tables w" "rw_objects w1 = rw_objects w" "ExistsByStorageRef ref backend (rw_conns w c) = (s, x)"
      "rw_conns w1 = (rw_conns w)(c := s)"
    using on_class_effect [OF l] by auto
  note ex = exists_ref_exact [OF e(3)]
  have calm: "conns_calm w \<longrightarrow> conns_calm w1 \<and> (\<exists>b. x = Inr b)"
    using calm_update [of w s w1 c] e(4) ex by (auto simp: conns_calm_def)
  have now: "x = Inr b \<Longrightarrow> b = (ref \<in> refs_in backend (tables w c))" for b using ex by (simp add: tables_def)
  consider (err) er where "x = Inl er" | (yes) "x = Inr True" | (no) "x = Inr False"
    by (cases x) (metis (full_types))+
  then show ?case
  proof cases
    case no
    then have "existsByStorageRef (photo_reaper st lister backend classes grace) cs ref w1 = (w', r)"
      using Cons.prems l by (simp add: photo_reaper_def photo_source_def)
    from Cons.IH [OF this] show ?thesis using e(1,2) now [OF no] calm by auto
  next
    case yes
    then show ?thesis using Cons.prems l e(1,2) now [OF yes] calm by (auto simp: photo_reaper_def photo_source_def)
  next
    case err
    then show ?thesis using Cons.prems l e(1,2) calm by (auto simp: photo_reaper_def photo_source_def)
  qed
qed auto

section \<open>What is deleted\<close>

text \<open>Between two worlds only old, unreferenced objects have gone.\<close>

definition spared :: "storage_backend \<Rightarrow> photo_class list \<Rightarrow> time \<Rightarrow> ('o \<Rightarrow> storage_ref \<Rightarrow> time option) \<Rightarrow>
    'o reaper_world \<Rightarrow> 'o reaper_world \<Rightarrow> bool" where
  "spared backend classes cutoff objs w w' \<longleftrightarrow> tables w' = tables w \<and>
     (\<forall>ref. objs (rw_objects w') ref = objs (rw_objects w) ref \<or>
        objs (rw_objects w') ref = None \<and> ref \<notin> referenced_in backend classes w \<and>
        (\<exists>t. objs (rw_objects w) ref = Some t \<and> t \<le> cutoff))"

lemma spared_same: "tables w' = tables w \<Longrightarrow> objs (rw_objects w') = objs (rw_objects w) \<Longrightarrow> spared b cs cutoff objs w w'"
  by (simp add: spared_def)

lemma spared_delete:
  assumes "tables w' = tables w" and "objs (rw_objects w') = (objs (rw_objects w))(ref := None)"
    and "ref \<notin> referenced_in b cs w" and "objs (rw_objects w) ref = None \<or> (\<exists>t. objs (rw_objects w) ref = Some t \<and> t \<le> cutoff)"
  shows "spared b cs cutoff objs w w'"
  unfolding spared_def assms(2) using assms(1,3,4) by auto

lemma spared_trans: "spared b cs cutoff objs w w1 \<Longrightarrow> spared b cs cutoff objs w1 w2 \<Longrightarrow> spared b cs cutoff objs w w2"
  unfolding spared_def by (metis option.distinct(1))

lemma lister_law:
  assumes "objects_ok st lister objs class_of calm" and "lister c x = (x', r)"
  shows "objs x' = objs x" "calm x \<Longrightarrow> calm x' \<and> (\<exists>os. r = Inr os)"
    "r = Inr os \<Longrightarrow> obj \<in> set os \<Longrightarrow> objs x (oi_key obj) = Some (oi_modified obj)"
    "r = Inr os \<Longrightarrow> calm x \<Longrightarrow> distinct (map oi_key os) \<and> oi_key ` set os = {ref. class_of ref = Some c \<and> objs x ref \<noteq> None}"
  using assms unfolding objects_ok_def by (blast, blast, blast, blast)

lemma delete_law:
  assumes "objects_ok st lister objs class_of calm" and "st_delete st ref x = (x', r)"
  shows "objs x' = objs x \<or> objs x' = (objs x)(ref := None)"
    "calm x \<Longrightarrow> calm x' \<and> r = Inr () \<and> objs x' = (objs x)(ref := None)"
  using assms unfolding objects_ok_def by (blast, blast)

lemma on_objects_effect:
  assumes "on_objects f w = (w', r)"
  shows "tables w' = tables w \<and> rw_conns w' = rw_conns w \<and> f (rw_objects w) = (rw_objects w', r)"
  using assms by (auto simp: on_objects_def tables_def fun_eq_iff split: prod.splits)

lemma candidates_effect:
  assumes ok: "objects_ok st lister objs class_of calm"
    and c: "orphanCandidates (photo_reaper st lister backend classes grace) c cutoff S w = (w', r)"
  shows "tables w' = tables w \<and> rw_conns w' = rw_conns w \<and> objs (rw_objects w') = objs (rw_objects w) \<and>
    (\<forall>refs. r = Inr refs \<longrightarrow> (\<forall>ref \<in> set refs. ref \<notin> S \<and> (\<exists>t. objs (rw_objects w) ref = Some t \<and> t \<le> cutoff)) \<and>
       (calm (rw_objects w) \<longrightarrow> distinct refs \<and>
          set refs = {ref. class_of ref = Some c \<and> ref \<notin> S \<and> (\<exists>t. objs (rw_objects w) ref = Some t \<and> t \<le> cutoff)})) \<and>
    (calm (rw_objects w) \<longrightarrow> calm (rw_objects w') \<and> (\<exists>refs. r = Inr refs))"
proof -
  obtain w1 x where l: "on_objects (lister c) w = (w1, x)" by fastforce
  note e = on_objects_effect [OF l]
  note law = lister_law [OF ok conjunct2 [OF conjunct2 [OF e]]]
  have w': "w' = w1" using c l by (auto simp: orphanCandidates_def photo_reaper_def split: sum.splits)
  show ?thesis
  proof (cases x)
    case (Inl er)
    then show ?thesis using c l e law(1,2) by (auto simp: orphanCandidates_def photo_reaper_def)
  next
    case (Inr os)
    let ?keep = "\<lambda>obj. oi_key obj \<notin> S \<and> \<not> oi_modified obj > cutoff"
    have r: "r = Inr (map oi_key (filter ?keep os))"
      using c l Inr by (auto simp: orphanCandidates_def photo_reaper_def)
    have m: "obj \<in> set os \<Longrightarrow> objs (rw_objects w) (oi_key obj) = Some (oi_modified obj)" for obj
      using law(3) [OF Inr] .
    have "distinct (map oi_key (filter ?keep os)) \<and>
        set (map oi_key (filter ?keep os)) = {ref. class_of ref = Some c \<and> ref \<notin> S \<and> (\<exists>t. objs (rw_objects w) ref = Some t \<and> t \<le> cutoff)}"
      if "calm (rw_objects w)"
    proof
      have k: "distinct (map oi_key os)" "oi_key ` set os = {ref. class_of ref = Some c \<and> objs (rw_objects w) ref \<noteq> None}"
        using law(4) [OF Inr that] by simp_all
      show "distinct (map oi_key (filter ?keep os))" using k(1) by (rule distinct_map_filter)
      show "set (map oi_key (filter ?keep os)) = {ref. class_of ref = Some c \<and> ref \<notin> S \<and> (\<exists>t. objs (rw_objects w) ref = Some t \<and> t \<le> cutoff)}"
      proof (intro set_eqI iffI)
        fix ref assume "ref \<in> set (map oi_key (filter ?keep os))"
        then obtain obj where o: "obj \<in> set os" "ref = oi_key obj" "ref \<notin> S" "oi_modified obj \<le> cutoff" by auto
        then show "ref \<in> {ref. class_of ref = Some c \<and> ref \<notin> S \<and> (\<exists>t. objs (rw_objects w) ref = Some t \<and> t \<le> cutoff)}"
          using m k(2) by blast
      next
        fix ref assume a: "ref \<in> {ref. class_of ref = Some c \<and> ref \<notin> S \<and> (\<exists>t. objs (rw_objects w) ref = Some t \<and> t \<le> cutoff)}"
        then have "ref \<in> oi_key ` set os" using k(2) by auto
        then obtain obj where o: "obj \<in> set os" "ref = oi_key obj" by auto
        then have "?keep obj" using a m by auto
        then show "ref \<in> set (map oi_key (filter ?keep os))" using o by auto
      qed
    qed
    then show ?thesis using r m e law(1,2) w' by auto
  qed
qed

lemma delete_one_spares:
  assumes "objects_ok st lister objs class_of calm" and "on_objects (st_delete st ref) w = (w', y)"
    and "ref \<notin> referenced_in backend classes w"
    and "objs (rw_objects w) ref = None \<or> (\<exists>t. objs (rw_objects w) ref = Some t \<and> t \<le> cutoff)"
  shows "spared backend classes cutoff objs w w'"
    and "objs (rw_objects w') x = None \<or> objs (rw_objects w') x = objs (rw_objects w) x"
proof -
  note e = on_objects_effect [OF assms(2)]
  note law = delete_law(1) [OF assms(1) conjunct2 [OF conjunct2 [OF e]]]
  show "spared backend classes cutoff objs w w'"
    using law
  proof
    assume "objs (rw_objects w') = objs (rw_objects w)"
    then show ?thesis using e by (simp add: spared_same)
  next
    assume "objs (rw_objects w') = (objs (rw_objects w))(ref := None)"
    with e show ?thesis using assms(3,4) by (intro spared_delete) auto
  qed
  show "objs (rw_objects w') x = None \<or> objs (rw_objects w') x = objs (rw_objects w) x" using law by auto
qed

lemma delete_orphans_effect:
  fixes backend classes defines "used \<equiv> \<lambda>w. referenced_in backend classes w"
  assumes ok: "objects_ok st lister objs class_of calm"
    and d: "delete_orphans (photo_reaper st lister backend classes grace) refs w = (w', r)"
    and old: "\<forall>ref \<in> set refs. objs (rw_objects w) ref = None \<or> (\<exists>t. objs (rw_objects w) ref = Some t \<and> t \<le> cutoff)"
  shows "spared backend classes cutoff objs w w' \<and>
    (calm (rw_objects w) \<and> conns_calm w \<longrightarrow> calm (rw_objects w') \<and> conns_calm w' \<and>
       r = Inr (length (filter (\<lambda>ref. ref \<notin> used w) refs)) \<and>
       objs (rw_objects w') = (\<lambda>ref. if ref \<in> set refs \<and> ref \<notin> used w then None else objs (rw_objects w) ref))"
  using d old
proof (induction refs arbitrary: w w' r)
  case Nil
  then show ?case by (auto simp: spared_same)
next
  case (Cons ref refs)
  let ?R = "photo_reaper st lister backend classes grace"
  have cl: "re_classes ?R = classes" by (simp add: photo_reaper_def)
  obtain w1 x where q: "existsByStorageRef ?R classes ref w = (w1, x)" by fastforce
  note ex = exists_exact [OF q]
  have s1: "spared backend classes cutoff objs w w1" using ex by (simp add: spared_same)
  have u1: "used w1 = used w" using ex by (simp add: used_def)
  consider (err) er where "x = Inl er" | (yes) "x = Inr True" | (no) "x = Inr False"
    by (cases x) (metis (full_types))+
  then show ?case
  proof cases
    case err
    then show ?thesis using Cons.prems(1) q cl s1 ex by auto
  next
    case yes
    then have d1: "delete_orphans ?R refs w1 = (w', r)" using Cons.prems(1) q cl by simp
    have "ref \<in> used w" using ex yes unfolding used_def by blast
    then show ?thesis
      using Cons.IH [OF d1] Cons.prems(2) ex s1 u1 spared_trans [OF s1] by (auto simp: fun_eq_iff)
  next
    case no
    have free: "ref \<notin> used w" using ex no unfolding used_def by blast
    obtain w2 y where del: "on_objects (st_delete st ref) w1 = (w2, y)" by fastforce
    note e = on_objects_effect [OF del]
    note law = delete_law [OF ok conjunct2 [OF conjunct2 [OF e]]]
    have sd: "st_delete (re_store ?R) ref w1 = (w2, y)" using del by (simp add: photo_reaper_def)
    have o1: "objs (rw_objects w1) = objs (rw_objects w)" using ex by simp
    have old1: "objs (rw_objects w1) ref = None \<or> (\<exists>t. objs (rw_objects w1) ref = Some t \<and> t \<le> cutoff)"
      using Cons.prems(2) o1 by simp
    note one = delete_one_spares [OF ok del free [folded u1, unfolded used_def] old1]
    have s2: "spared backend classes cutoff objs w w2" by (rule spared_trans [OF s1 one(1)])
    have u2: "used w2 = used w" using e u1 by (simp add: used_def)
    show ?thesis
    proof (cases y)
      case (Inl er)
      then show ?thesis using Cons.prems(1) q no cl sd s2 law(2) ex by auto
    next
      case (Inr u)
      obtain w3 z where d1: "delete_orphans ?R refs w2 = (w3, z)" by fastforce
      have r: "w' = w3" "r = (case z of Inl e \<Rightarrow> Inl e | Inr n \<Rightarrow> Inr (n + 1))"
        using Cons.prems(1) q no cl sd Inr d1 by (auto split: sum.splits)
      have old2: "\<forall>ref \<in> set refs. objs (rw_objects w2) ref = None \<or> (\<exists>t. objs (rw_objects w2) ref = Some t \<and> t \<le> cutoff)"
        using one(2) Cons.prems(2) o1 by (metis list.set_intros(2))
      note ih = Cons.IH [OF d1 old2]
      have cw: "conns_calm w1 \<Longrightarrow> conns_calm w2" using e by (simp add: conns_calm_def)
      show ?thesis
        using ih spared_trans [OF s2] r u2 law(2) ex cw free o1 by (auto simp: fun_eq_iff)
    qed
  qed
qed

text \<open>What a sweep is after in a class: the old objects no row of the snapshot \<open>S\<close> refers to.\<close>

definition orphans ::
    "('o \<Rightarrow> string \<Rightarrow> time option) \<Rightarrow> (string \<Rightarrow> photo_class option) \<Rightarrow> string set \<Rightarrow> time \<Rightarrow> 'o reaper_world \<Rightarrow> photo_class \<Rightarrow> string set" where
  "orphans objs class_of S cutoff w c =
     {ref. class_of ref = Some c \<and> ref \<notin> S \<and> (\<exists>t. objs (rw_objects w) ref = Some t \<and> t \<le> cutoff)}"

lemma old_candidates:
  assumes "objects_ok st lister objs class_of calm"
    and "orphanCandidates (photo_reaper st lister backend classes grace) c cutoff S w = (w1, Inr refs)"
  shows "\<forall>ref \<in> set refs. objs (rw_objects w1) ref = None \<or> (\<exists>t. objs (rw_objects w1) ref = Some t \<and> t \<le> cutoff)"
  using candidates_effect [OF assms] by auto

lemma sweep_spares:
  assumes ok: "objects_ok st lister objs class_of calm"
  shows "sweep_classes (photo_reaper st lister backend classes grace) cs cutoff S w = (w', r) \<Longrightarrow>
    spared backend classes cutoff objs w w'"
proof (induction cs arbitrary: w w' r)
  case Nil
  then show ?case by (auto simp: spared_same)
next
  case (Cons c cs)
  let ?R = "photo_reaper st lister backend classes grace"
  obtain w1 x where q: "orphanCandidates ?R c cutoff S w = (w1, x)" by fastforce
  have s1: "spared backend classes cutoff objs w w1" using candidates_effect [OF ok q] by (simp add: spared_same)
  show ?case
  proof (cases x)
    case (Inl e)
    then show ?thesis using Cons.prems q s1 by auto
  next
    case (Inr refs)
    obtain w2 y where d: "delete_orphans ?R refs w1 = (w2, y)" by fastforce
    have s2: "spared backend classes cutoff objs w w2"
      using spared_trans [OF s1] delete_orphans_effect [OF ok d old_candidates [OF ok q [unfolded Inr]]] by blast
    obtain w3 z where sw: "sweep_classes ?R cs cutoff S w2 = (w3, z)" by fastforce
    have "w' = w2 \<or> w' = w3" using Cons.prems q Inr d sw by (auto split: sum.splits)
    then show ?thesis using s2 spared_trans [OF s2 Cons.IH [OF sw]] by blast
  qed
qed

text \<open>One class on a calm world whose rows are those of the snapshot: every orphan goes, nothing else.\<close>

lemma class_swept:
  fixes backend classes defines "used \<equiv> \<lambda>w. referenced_in backend classes w"
  assumes ok: "objects_ok st lister objs class_of calm"
    and q: "orphanCandidates (photo_reaper st lister backend classes grace) c cutoff S w = (w1, Inr refs)"
    and d: "delete_orphans (photo_reaper st lister backend classes grace) refs w1 = (w2, y)"
    and a: "calm (rw_objects w)" "conns_calm w" "S = used w"
  shows "calm (rw_objects w2)" "conns_calm w2" "y = Inr (card (orphans objs class_of S cutoff w c))" "used w2 = used w"
    "objs (rw_objects w2) = (\<lambda>ref. if ref \<in> orphans objs class_of S cutoff w c then None else objs (rw_objects w) ref)"
proof -
  note ce = candidates_effect [OF ok q]
  note de = delete_orphans_effect [OF ok d old_candidates [OF ok q]]
  have cand: "distinct refs" "set refs = orphans objs class_of S cutoff w c"
    using ce a(1) unfolding orphans_def by blast+
  have "tables w1 = tables w" using ce by blast
  then have u1: "used w1 = used w" by (simp add: used_def)
  show "used w2 = used w" using u1 de by (simp add: used_def spared_def)
  have free: "ref \<in> set refs \<and> ref \<notin> used w1 \<longleftrightarrow> ref \<in> orphans objs class_of S cutoff w c" for ref
    using cand(2) a(3) u1 by (auto simp: orphans_def)
  then have all: "filter (\<lambda>ref. ref \<notin> used w1) refs = refs" using cand(2) by (auto simp: filter_id_conv)
  have "calm (rw_objects w1) \<and> conns_calm w1" using ce a(1,2) by (simp add: conns_calm_def)
  from mp [OF conjunct2 [OF de] this]
  have dd: "calm (rw_objects w2) \<and> conns_calm w2 \<and> y = Inr (length refs) \<and>
      objs (rw_objects w2) = (\<lambda>ref. if ref \<in> set refs \<and> ref \<notin> used w1 then None else objs (rw_objects w1) ref)"
    unfolding all [unfolded used_def] used_def .
  then show "calm (rw_objects w2)" "conns_calm w2" by blast+
  show "y = Inr (card (orphans objs class_of S cutoff w c))" using dd distinct_card [OF cand(1)] cand(2) by simp
  have "objs (rw_objects w1) = objs (rw_objects w)" using ce by blast
  with dd show "objs (rw_objects w2) = (\<lambda>ref. if ref \<in> orphans objs class_of S cutoff w c then None else objs (rw_objects w) ref)"
    by (simp only: free)
qed

lemma sweep_exact:
  fixes backend classes defines "used \<equiv> \<lambda>w. referenced_in backend classes w"
  assumes ok: "objects_ok st lister objs class_of calm"
  shows "sweep_classes (photo_reaper st lister backend classes grace) cs cutoff S w = (w', r) \<Longrightarrow>
    calm (rw_objects w) \<Longrightarrow> conns_calm w \<Longrightarrow> S = used w \<Longrightarrow> distinct cs \<Longrightarrow>
    calm (rw_objects w') \<and> conns_calm w' \<and> r = Inr (map (\<lambda>c. (c, card (orphans objs class_of S cutoff w c))) cs) \<and>
    objs (rw_objects w') =
      (\<lambda>ref. if \<exists>c \<in> set cs. ref \<in> orphans objs class_of S cutoff w c then None else objs (rw_objects w) ref)"
proof (induction cs arbitrary: w w' r)
  case Nil
  then show ?case by auto
next
  case (Cons c cs)
  let ?R = "photo_reaper st lister backend classes grace" and ?O = "orphans objs class_of S cutoff"
  obtain w1 x where q: "orphanCandidates ?R c cutoff S w = (w1, x)" by fastforce
  obtain refs where x: "x = Inr refs" using candidates_effect [OF ok q] Cons.prems(2) by blast
  obtain w2 y where d: "delete_orphans ?R refs w1 = (w2, y)" by fastforce
  note swept = class_swept [OF ok q [unfolded x] d Cons.prems(2,3) Cons.prems(4) [unfolded used_def]]
  obtain w3 z where sw: "sweep_classes ?R cs cutoff S w2 = (w3, z)" by fastforce
  have r: "w' = w3" "r = (case z of Inl e \<Rightarrow> Inl e | Inr res \<Rightarrow> Inr ((c, card (?O w c)) # res))"
    using Cons.prems(1) q x d swept(3) sw by (auto split: sum.splits)
  have S2: "S = used w2" using Cons.prems(4) swept(4) by (simp add: used_def)
  have cs: "c \<notin> set cs" "distinct cs" using Cons.prems(5) by simp_all
  have other: "?O w2 c' = ?O w c'" if "c' \<noteq> c" for c' using that by (auto simp: swept(5) orphans_def)
  have same: "?O w2 c' = ?O w c'" if "c' \<in> set cs" for c' using that cs(1) by (intro other) blast
  have m: "map (\<lambda>c. (c, card (?O w2 c))) cs = map (\<lambda>c. (c, card (?O w c))) cs"
    by (rule map_cong [OF refl]) (simp only: same)
  have b: "(\<exists>c' \<in> set cs. ref \<in> ?O w2 c') \<longleftrightarrow> (\<exists>c' \<in> set cs. ref \<in> ?O w c')" for ref
    by (rule bex_cong [OF refl]) (simp only: same)
  from Cons.IH [OF sw swept(1,2) S2 cs(2)] show ?case
    unfolding m b using r swept(5) by (auto simp: fun_eq_iff)
qed

lemma sweep_effect:
  fixes backend classes defines "used \<equiv> \<lambda>w. referenced_in backend classes w"
  assumes ok: "objects_ok st lister objs class_of calm"
    and s: "sweep_classes (photo_reaper st lister backend classes grace) cs cutoff S w = (w', r)"
  shows "spared backend classes cutoff objs w w' \<and>
    (calm (rw_objects w) \<and> conns_calm w \<and> S = used w \<and> distinct cs \<longrightarrow>
       calm (rw_objects w') \<and> conns_calm w' \<and> r = Inr (map (\<lambda>c. (c, card (orphans objs class_of S cutoff w c))) cs) \<and>
       objs (rw_objects w') =
         (\<lambda>ref. if \<exists>c \<in> set cs. ref \<in> orphans objs class_of S cutoff w c then None else objs (rw_objects w) ref))"
  using sweep_spares [OF ok s] sweep_exact [OF ok s] unfolding used_def by blast

text \<open>C26: the reaper never deletes a photo: whatever fails on the way, after a run the photo tables
  are as they were, and an object that is gone was old (not modified within the grace window)
  and referred to by no row of any class.\<close>

theorem reaper_spares_photos:
  assumes "objects_ok st lister objs class_of calm"
    and "Run (photo_reaper st lister backend classes grace) now w = (w', r)"
  shows "tables w' = tables w \<and>
    (\<forall>ref. objs (rw_objects w') ref = objs (rw_objects w) ref \<or>
       objs (rw_objects w') ref = None \<and>
       (\<forall>c \<in> set classes. \<forall>row \<in> set (photo_rows (tables w c)). p_backend row = backend \<longrightarrow> p_ref row \<noteq> ref) \<and>
       (\<exists>t. objs (rw_objects w) ref = Some t \<and> t \<le> now - grace))"
proof -
  let ?R = "photo_reaper st lister backend classes grace"
  obtain w1 x where q: "referencedRefs ?R classes w = (w1, x)" by fastforce
  note re = referenced_exact [OF q]
  have s1: "spared backend classes (now - grace) objs w w1" using re by (simp add: spared_same)
  have "spared backend classes (now - grace) objs w w'"
  proof (cases x)
    case (Inl e)
    then show ?thesis using assms(2) q s1 by (simp add: Run_def) (simp add: photo_reaper_def)
  next
    case (Inr S)
    then have "sweep_classes ?R classes (now - grace) S w1 = (w', r)"
      using assms(2) q by (simp add: Run_def) (simp add: photo_reaper_def)
    from conjunct1 [OF sweep_effect [OF assms(1) this]] show ?thesis by (rule spared_trans [OF s1])
  qed
  then show ?thesis by (auto simp: spared_def refs_in_def)
qed

text \<open>The report, on a calm world.\<close>

lemma report_effect:
  assumes ok: "objects_ok st lister objs class_of calm" and "calm (rw_objects w)"
    and "report_classes (photo_reaper st lister backend classes grace) cs cutoff S w = (w', r)"
  shows "objs (rw_objects w') = objs (rw_objects w) \<and> tables w' = tables w \<and>
    (\<exists>d. r = Inr d \<and> map fst d = cs \<and> (\<forall>(c, refs) \<in> set d. distinct refs \<and>
       set refs = {ref. class_of ref = Some c \<and> ref \<notin> S \<and> (\<exists>t. objs (rw_objects w) ref = Some t \<and> t \<le> cutoff)}))"
  using assms(2,3)
proof (induction cs arbitrary: w w' r)
  case (Cons c cs)
  let ?R = "photo_reaper st lister backend classes grace"
  obtain w1 x where q: "orphanCandidates ?R c cutoff S w = (w1, x)" by fastforce
  note ce = candidates_effect [OF ok q]
  obtain refs where refs: "x = Inr refs" using ce Cons.prems(1) by blast
  have c1: "calm (rw_objects w1)" using ce Cons.prems(1) by blast
  obtain w2 y where rc: "report_classes ?R cs cutoff S w1 = (w2, y)" by fastforce
  from Cons.IH [OF c1 rc] obtain d where d: "y = Inr d" "map fst d = cs" "objs (rw_objects w2) = objs (rw_objects w1)" "tables w2 = tables w1"
      "\<forall>(c, refs) \<in> set d. distinct refs \<and>
         set refs = {ref. class_of ref = Some c \<and> ref \<notin> S \<and> (\<exists>t. objs (rw_objects w1) ref = Some t \<and> t \<le> cutoff)}"
    by blast
  have o1: "objs (rw_objects w1) = objs (rw_objects w)" "tables w1 = tables w" using ce by blast+
  have "w' = w2" "r = Inr ((c, refs) # d)" using Cons.prems(2) q refs rc d(1) by simp_all
  moreover have "distinct refs \<and> set refs = {ref. class_of ref = Some c \<and> ref \<notin> S \<and> (\<exists>t. objs (rw_objects w) ref = Some t \<and> t \<le> cutoff)}"
    using ce refs Cons.prems(1) by blast
  ultimately show ?case using d(2-5) o1 by simp
qed simp


section \<open>A concrete deployment\<close>

text \<open>An object store that is an association list, and a table that refers to one of three objects.\<close>

type_synonym sample_objects = "(storage_ref \<times> time) list"

definition sample_listing :: "sample_objects \<Rightarrow> object_info list" where
  "sample_listing x = map (\<lambda>p. \<lparr>oi_key = fst p, oi_modified = snd p\<rparr>) (AList.clearjunk x)"

definition sample_lister :: "photo_class \<Rightarrow> sample_objects \<Rightarrow> sample_objects \<times> (media_error + object_info list)" where
  "sample_lister c x = (x, Inr (if c = ''photo'' then sample_listing x else []))"

definition sample_object_store :: "sample_objects photo_store" where
  "sample_object_store =
     \<lparr>st_put = (\<lambda>_ _ _ x. (x, Inl Media_other)), st_open = (\<lambda>_ x. (x, Inl ErrPhotoNotFound)),
      st_delete = (\<lambda>ref x. (AList.delete ref x, Inr ())), st_url = (\<lambda>_ _ x. (x, Inl ErrPhotoNotFound)),
      st_direct = True, st_list = Some sample_lister\<rparr>"

lemma sample_listing_exact:
  "distinct (map oi_key (sample_listing x))" "oi_key ` set (sample_listing x) = {ref. map_of x ref \<noteq> None}"
  "obj \<in> set (sample_listing x) \<Longrightarrow> map_of x (oi_key obj) = Some (oi_modified obj)"
proof -
  have m: "map oi_key (sample_listing x) = map fst (AList.clearjunk x)" by (simp add: sample_listing_def)
  show "distinct (map oi_key (sample_listing x))" unfolding m by (rule distinct_clearjunk)
  have "oi_key ` set (sample_listing x) = fst ` set x"
    using arg_cong [OF m, of set] by (simp add: dom_clearjunk)
  then show "oi_key ` set (sample_listing x) = {ref. map_of x ref \<noteq> None}" by (simp add: map_of_eq_None_iff)
  assume "obj \<in> set (sample_listing x)"
  then have "(oi_key obj, oi_modified obj) \<in> set (AList.clearjunk x)" by (auto simp: sample_listing_def)
  then have "map_of (AList.clearjunk x) (oi_key obj) = Some (oi_modified obj)"
    using distinct_clearjunk [of x] by (metis map_of_eq_Some_iff)
  then show "map_of x (oi_key obj) = Some (oi_modified obj)" by (simp add: map_of_clearjunk)
qed

lemma sample_objects_ok: "objects_ok sample_object_store sample_lister map_of (\<lambda>_. Some ''photo'') (\<lambda>_. True)"
proof -
  have d: "map_of (AList.delete ref x) = (map_of x)(ref := None)" for ref and x :: sample_objects
    by (rule delete_conv')
  show ?thesis
    unfolding objects_ok_def sample_lister_def sample_object_store_def photo_store.simps
    using sample_listing_exact by (simp add: d)
qed

definition sample_deployment :: "sample_objects reaper_world" where
  "sample_deployment =
     \<lparr>rw_conns = (\<lambda>_. \<lparr>db = \<lparr>photo_identity = sample_identity, photo_rows =
          [\<lparr>p_id = 1, p_household = 7, p_ref = ''kept'', p_backend = StorageBackendS3, p_hash = None, p_size = 3,
            p_type = ContentTypeJPEG, p_taken = None, p_uploaded = None, p_created = 0\<rparr>]\<rparr>,
          clock = 0, faults = [], uuids = of_nat, uuids_used = 0\<rparr>),
      rw_objects = [(''kept'', 0), (''orphan'', 0), (''fresh'', 95)]\<rparr>"

definition sample_reaper :: "sample_objects reaper_world reaper_service" where
  "sample_reaper = photo_reaper sample_object_store sample_lister StorageBackendS3 [''photo''] 10"

lemma reaper_spares_photos_witness:
  "\<exists>w r. Run sample_reaper 100 sample_deployment = (w, r) \<and> map_of (rw_objects w) ''kept'' = Some 0 \<and>
     map_of (rw_objects w) ''fresh'' = Some 95"
proof -
  obtain w r where run: "Run sample_reaper 100 sample_deployment = (w, r)" by fastforce
  note gone = conjunct2 [OF reaper_spares_photos [OF sample_objects_ok run [unfolded sample_reaper_def]]]
  have "map_of (rw_objects w) ''kept'' = Some 0" "map_of (rw_objects w) ''fresh'' = Some 95"
    using spec [OF gone, of "''kept''"] spec [OF gone, of "''fresh''"]
    by (simp_all add: sample_deployment_def tables_def)
  then show ?thesis using run by blast
qed


end
