(* ===== verification/S3_Store.thy ===== *)
theory S3_Store
  imports Local_Store
begin

text \<open>
  The photo store on an S3-compatible object store, \<open>media/adapter/photo_store_s3.go\<close>. The AWS
  SDK is a parameter: a client whose calls act on a remote world \<open>'r\<close>. Uploads are staged on the
  local disk, so the store's world is the disk and the remote world.
\<close>

section \<open>The client\<close>

datatype s3_error = S3_missing | S3_other

record s3_object =
  so_body :: bytes
  so_type :: string
  so_cache :: string
  so_sse :: bool

record 'r s3_client =
  cl_put :: "string \<Rightarrow> string \<Rightarrow> s3_object \<Rightarrow> 'r \<Rightarrow> 'r \<times> (s3_error + unit)"      \<comment> \<open>bucket, key\<close>
  cl_get :: "string \<Rightarrow> string \<Rightarrow> 'r \<Rightarrow> 'r \<times> (s3_error + upload)"               \<comment> \<open>the response body\<close>
  cl_delete :: "string \<Rightarrow> string \<Rightarrow> 'r \<Rightarrow> 'r \<times> (s3_error + unit)"
  cl_head :: "string \<Rightarrow> string \<Rightarrow> 'r \<Rightarrow> 'r \<times> (s3_error + unit)"
  cl_head_bucket :: "string \<Rightarrow> 'r \<Rightarrow> 'r \<times> (s3_error + unit)"
  cl_presign :: "string \<Rightarrow> string \<Rightarrow> string \<Rightarrow> duration \<Rightarrow> 'r \<Rightarrow> 'r \<times> (s3_error + string)"
  cl_pages :: "string \<Rightarrow> string \<Rightarrow> 'r \<Rightarrow> 'r \<times> (s3_error + object_info list) list" \<comment> \<open>bucket, prefix\<close>

section \<open>The store\<close>

record s3_params =
  sp_bucket :: string
  sp_region :: string
  sp_endpoint :: string
  sp_path_style :: bool
  sp_access_key :: string
  sp_secret_key :: string
  sp_ttl :: duration
  sp_max_bytes :: int

record 'r s3_store =
  ss_client :: "'r s3_client"
  ss_bucket :: string
  ss_max_bytes :: int
  ss_ttl :: duration
  ss_sse :: bool
  ss_images :: image_lib
  ss_classes :: "string list"
  ss_temp_dir :: string   \<comment> \<open>\<open>os.TempDir()\<close>\<close>

definition NewS3PhotoStore ::
    "image_lib \<Rightarrow> string list \<Rightarrow> string \<Rightarrow> (s3_params \<Rightarrow> 'r s3_client option) \<Rightarrow> s3_params \<Rightarrow> 'r \<Rightarrow>
     'r \<times> (media_error + 'r s3_store)" where
  "NewS3PhotoStore images registered temp_dir load_config ps w =
     (if trim_space (sp_bucket ps) = [] then (w, Inl Media_other)
      else if trim_space (sp_region ps) = [] then (w, Inl Media_other)
      else if sp_max_bytes ps \<le> 0 then (w, Inl Media_other)
      else if sp_ttl ps \<le> 0 then (w, Inl Media_other)
      else if (sp_access_key ps = []) \<noteq> (sp_secret_key ps = []) then (w, Inl Media_other)
      else case load_config ps of
             None \<Rightarrow> (w, Inl Media_other)
           | Some client \<Rightarrow>
               (case cl_head_bucket client (sp_bucket ps) w of
                  (w, Inl _) \<Rightarrow> (w, Inl Media_other)
                | (w, Inr _) \<Rightarrow>
                    (w, Inr \<lparr>ss_client = client, ss_bucket = sp_bucket ps, ss_max_bytes = sp_max_bytes ps,
                             ss_ttl = sp_ttl ps, ss_sse = (sp_endpoint ps = []), ss_images = images,
                             ss_classes = registered, ss_temp_dir = temp_dir\<rparr>)))"

definition photoBytesCacheControl :: string where
  "photoBytesCacheControl = ''private, max-age=3600''"

definition put_object_input :: "'r s3_store \<Rightarrow> string \<Rightarrow> bytes \<Rightarrow> s3_object" where
  "put_object_input S content_type body =
     \<lparr>so_body = body, so_type = content_type, so_cache = photoBytesCacheControl, so_sse = ss_sse S\<rparr>"

text \<open>\<open>Put\<close> after the upload is staged, up to the deferred removal of the staged file.\<close>

definition S3_send :: "'r s3_store \<Rightarrow> household_id \<Rightarrow> photo_class \<Rightarrow> staged_upload \<Rightarrow> disk \<times> 'r \<Rightarrow>
    (disk \<times> 'r) \<times> (media_error + put_result)" where
  "S3_send S h c staged w =
     (case w of (d, rw) \<Rightarrow>
        (case buildStorageKey (ss_classes S) h c (su_hash staged)
               (case map_of acceptedTypes (su_type staged) of None \<Rightarrow> [] | Some ext \<Rightarrow> ext) of
           Inl e \<Rightarrow> ((d, rw), Inl e)
         | Inr key \<Rightarrow>
             (case os_at os_lookup (su_path staged) d of
                (d, Inr (File body)) \<Rightarrow>
                  (case cl_put (ss_client S) (ss_bucket S) key (put_object_input S (su_type staged) body) rw of
                     (rw, Inl _) \<Rightarrow> ((d, rw), Inl Media_other)
                   | (rw, Inr _) \<Rightarrow>
                       ((d, rw), Inr \<lparr>pu_ref = key, pu_hash = su_hash staged, pu_size = su_size staged, pu_type = su_type staged\<rparr>))
              | (d, _) \<Rightarrow> ((d, rw), Inl Media_other))))"

definition S3_Put :: "'r s3_store \<Rightarrow> household_id \<Rightarrow> photo_class \<Rightarrow> upload \<Rightarrow> disk \<times> 'r \<Rightarrow>
    (disk \<times> 'r) \<times> (media_error + put_result)" where
  "S3_Put S h c up w =
     (case w of (d, rw) \<Rightarrow>
        (case validateAndStage (ss_images S) (ss_temp_dir S) (ss_max_bytes S) up d of
           (d, Inl e) \<Rightarrow> ((d, rw), Inl e)
         | (d, Inr staged) \<Rightarrow>
             (case S3_send S h c staged (d, rw) of
                ((d, rw), res) \<Rightarrow> ((removeStaged (su_path staged) d, rw), res))))"

definition S3_Open :: "'r s3_store \<Rightarrow> storage_ref \<Rightarrow> 'r \<Rightarrow> 'r \<times> (media_error + photo_reader)" where
  "S3_Open S ref rw =
     (case cl_get (ss_client S) (ss_bucket S) ref rw of
        (rw, Inl e) \<Rightarrow> (rw, Inl (if e = S3_missing then ErrPhotoNotFound else Media_other))
      | (rw, Inr body) \<Rightarrow>
          (let limit = upload_limit (ss_max_bytes S); data = take limit (up_bytes body)
           in if up_fails body \<and> length (up_bytes body) < limit then (rw, Inl Media_other)
              else if int (length data) > ss_max_bytes S then (rw, Inl Media_other)
              else (rw, Inr (Reader data))))"

definition S3_Delete :: "'r s3_store \<Rightarrow> storage_ref \<Rightarrow> 'r \<Rightarrow> 'r \<times> (media_error + unit)" where
  "S3_Delete S ref rw =
     (case cl_delete (ss_client S) (ss_bucket S) ref rw of
        (rw, Inl _) \<Rightarrow> (rw, Inl Media_other)
      | (rw, Inr _) \<Rightarrow> (rw, Inr ()))"

definition S3_URL :: "'r s3_store \<Rightarrow> storage_ref \<Rightarrow> duration \<Rightarrow> 'r \<Rightarrow> 'r \<times> (media_error + string)" where
  "S3_URL S ref ttl rw =
     (case cl_head (ss_client S) (ss_bucket S) ref rw of
        (rw, Inl e) \<Rightarrow> (rw, Inl (if e = S3_missing then ErrPhotoNotFound else Media_other))
      | (rw, Inr _) \<Rightarrow>
          (case cl_presign (ss_client S) (ss_bucket S) ref photoBytesCacheControl (if ttl \<le> 0 then ss_ttl S else ttl) rw of
             (rw, Inl _) \<Rightarrow> (rw, Inl Media_other)
           | (rw, Inr url) \<Rightarrow> (rw, Inr url)))"

definition S3_SupportsDirectURL :: "'r s3_store \<Rightarrow> bool" where
  "S3_SupportsDirectURL S = True"

definition keyBelongsToClass :: "string \<Rightarrow> string \<Rightarrow> bool" where
  "keyBelongsToClass key class_prefix =
     (case split_on (CHR ''/'') key of
        a # _ # c # _ \<Rightarrow> a = ''households'' \<and> c = class_prefix
      | _ \<Rightarrow> False)"

text \<open>The loop over the pages: it stops at the first page that fails.\<close>

fun collect_pages :: "string \<Rightarrow> (s3_error + object_info list) list \<Rightarrow> media_error + object_info list" where
  "collect_pages class_prefix [] = Inr []"
| "collect_pages class_prefix (Inl _ # pages) = Inl Media_other"
| "collect_pages class_prefix (Inr page # pages) =
     (case collect_pages class_prefix pages of
        Inl e \<Rightarrow> Inl e
      | Inr objects \<Rightarrow> Inr (filter (\<lambda>obj. keyBelongsToClass (oi_key obj) class_prefix) page @ objects))"

definition ListObjects :: "'r s3_store \<Rightarrow> photo_class \<Rightarrow> 'r \<Rightarrow> 'r \<times> (media_error + object_info list)" where
  "ListObjects S c rw =
     (case classKeyPrefix (ss_classes S) c of
        Inl e \<Rightarrow> (rw, Inl e)
      | Inr class_prefix \<Rightarrow>
          (case cl_pages (ss_client S) (ss_bucket S) ''households/'' rw of
             (rw, pages) \<Rightarrow> (rw, collect_pages class_prefix pages)))"

definition ObjectExists :: "'r s3_store \<Rightarrow> storage_ref \<Rightarrow> 'r \<Rightarrow> 'r \<times> (media_error + bool)" where
  "ObjectExists S ref rw =
     (case cl_head (ss_client S) (ss_bucket S) ref rw of
        (rw, Inl e) \<Rightarrow> (rw, if e = S3_missing then Inr False else Inl Media_other)
      | (rw, Inr _) \<Rightarrow> (rw, Inr True))"

definition PutAt :: "'r s3_store \<Rightarrow> storage_ref \<Rightarrow> string \<Rightarrow> bytes \<Rightarrow> 'r \<Rightarrow> 'r \<times> (media_error + unit)" where
  "PutAt S ref content_type body rw =
     (case cl_put (ss_client S) (ss_bucket S) ref (put_object_input S content_type body) rw of
        (rw, Inl _) \<Rightarrow> (rw, Inl Media_other)
      | (rw, Inr _) \<Rightarrow> (rw, Inr ()))"

text \<open>The port, on the disk and the remote world.\<close>

definition on_remote :: "('r \<Rightarrow> 'r \<times> 'a) \<Rightarrow> disk \<times> 'r \<Rightarrow> (disk \<times> 'r) \<times> 'a" where
  "on_remote f w = (case f (snd w) of (rw, a) \<Rightarrow> ((fst w, rw), a))"

definition s3_photo_store :: "'r s3_store \<Rightarrow> (disk \<times> 'r) photo_store" where
  "s3_photo_store S =
     \<lparr>st_put = S3_Put S, st_open = (\<lambda>ref. on_remote (S3_Open S ref)), st_delete = (\<lambda>ref. on_remote (S3_Delete S ref)),
      st_url = (\<lambda>ref ttl. on_remote (S3_URL S ref ttl)), st_direct = S3_SupportsDirectURL S,
      st_list = Some (\<lambda>c. on_remote (ListObjects S c))\<rparr>"

section \<open>What the object store promises\<close>

text \<open>The documented behaviour of S3 that the store relies on, for the objects \<open>objs\<close> of one
  bucket: a successful write replaces the object, a read returns the object or says that there
  is none, and no failed call touches another key.\<close>

definition s3_ok :: "'r s3_client \<Rightarrow> string \<Rightarrow> ('r \<Rightarrow> string \<Rightarrow> bytes option) \<Rightarrow> bool" where
  "s3_ok cl bucket objs \<longleftrightarrow>
     (\<forall>key obj rw rw' u. cl_put cl bucket key obj rw = (rw', Inr u) \<longrightarrow> objs rw' = (objs rw)(key \<mapsto> so_body obj)) \<and>
     (\<forall>key rw rw' u. cl_delete cl bucket key rw = (rw', Inr u) \<longrightarrow> objs rw' = (objs rw)(key := None)) \<and>
     (\<forall>key rw rw' res. cl_get cl bucket key rw = (rw', res) \<longrightarrow> objs rw' = objs rw) \<and>
     (\<forall>key rw rw'. cl_get cl bucket key rw = (rw', Inl S3_missing) \<longrightarrow> objs rw key = None) \<and>
     (\<forall>key rw rw' body. cl_get cl bucket key rw = (rw', Inr body) \<longrightarrow>
        (\<exists>b. objs rw key = Some b \<and> prefix (up_bytes body) b \<and> (\<not> up_fails body \<longrightarrow> up_bytes body = b)))"

definition s3_store_ok :: "'r s3_store \<Rightarrow> bool" where
  "s3_store_ok S \<longleftrightarrow> ss_temp_dir S \<noteq> [] \<and> 0 < ss_max_bytes S \<and> ss_max_bytes S < 2 ^ 63 - 1 \<and> registry_ok (ss_classes S)"

lemma s3_put_law: "s3_ok cl bucket objs \<Longrightarrow> cl_put cl bucket key obj rw = (rw', Inr u) \<Longrightarrow> objs rw' = (objs rw)(key \<mapsto> so_body obj)"
  unfolding s3_ok_def by blast

lemma s3_get_laws:
  assumes "s3_ok cl bucket objs" and "cl_get cl bucket key rw = (rw', res)"
  shows "objs rw' = objs rw" "res = Inl S3_missing \<Longrightarrow> objs rw key = None"
    "res = Inr body \<Longrightarrow> \<exists>b. objs rw key = Some b \<and> prefix (up_bytes body) b \<and> (\<not> up_fails body \<longrightarrow> up_bytes body = b)"
  using assms unfolding s3_ok_def by (blast, blast, blast)

section \<open>Put and open\<close>

lemma send_effect:
  assumes "S3_send S h c staged (d, rw) = ((d', rw'), res)"
    and "locate d (su_path staged) = Some T" and "files (nodes d) T = Some b"
  shows "nodes d' = nodes d \<and> cwd d' = cwd d \<and> (os_faults d = [] \<longrightarrow> os_faults d' = []) \<and>
    (\<forall>a. res = Inr a \<longrightarrow> (\<exists>u. buildStorageKey (ss_classes S) h c (su_hash staged)
         (case map_of acceptedTypes (su_type staged) of None \<Rightarrow> [] | Some ext \<Rightarrow> ext) = Inr (pu_ref a) \<and>
       cl_put (ss_client S) (ss_bucket S) (pu_ref a) (put_object_input S (su_type staged) b) rw = (rw', Inr u) \<and>
       pu_hash a = su_hash staged \<and> pu_size a = su_size staged \<and> pu_type a = su_type staged))"
proof -
  obtain d1 q where o: "os_at os_lookup (su_path staged) d = (d1, q)" by fastforce
  have n: "nodes d1 = nodes d" "cwd d1 = cwd d" "os_faults d = [] \<longrightarrow> os_faults d1 = []"
    using os_at_effect [OF o] os_at_frame [OF o] lookup_same by metis+
  have q: "q = Inr (File x) \<Longrightarrow> x = b" for x
    using os_at_Inr [of os_lookup "su_path staged" d d1 "File x"] o assms(2,3)
    by (auto simp: os_lookup_def lookup_file split: sum.splits)
  show ?thesis
    using assms(1) o n q by (auto simp: S3_send_def split: sum.splits node.splits prod.splits)
qed

text \<open>The staged file is always removed again, and the object written is the upload.\<close>

lemma s3_put_effect:
  assumes put: "S3_Put S h c up (d, rw) = ((d', rw'), res)" and ok: "s3_store_ok S"
    and r: "locate d (ss_temp_dir S) = Some r"
  shows "(\<forall>p. \<not> staging_path r p \<longrightarrow> files (nodes d') p = files (nodes d) p) \<and>
    (os_faults d = [] \<longrightarrow> files (nodes d') = files (nodes d)) \<and>
    (\<forall>a. res = Inr a \<longrightarrow> (\<exists>ext u. map_of acceptedTypes (pu_type a) = Some ext \<and>
       acceptable (ss_images S) (ss_max_bytes S) (pu_type a) (up_bytes up) \<and>
       pu_hash a = hex_encode (il_sha256 (ss_images S) (up_bytes up)) \<and> pu_size a = int (length (up_bytes up)) \<and>
       buildStorageKey (ss_classes S) h c (pu_hash a) ext = Inr (pu_ref a) \<and>
       cl_put (ss_client S) (ss_bucket S) (pu_ref a) (put_object_input S (pu_type a) (up_bytes up)) rw = (rw', Inr u)))"
proof -
  have ne: "ss_temp_dir S \<noteq> []" and m: "0 < ss_max_bytes S" "ss_max_bytes S < 2 ^ 63"
    using ok by (simp_all add: s3_store_ok_def)
  obtain d1 q1 where v: "validateAndStage (ss_images S) (ss_temp_dir S) (ss_max_bytes S) up d = (d1, q1)" by fastforce
  note eff = validate_effect [OF v r ne m]
  show ?thesis
  proof (cases q1)
    case (Inl e)
    then have "d' = d1" "res = Inl e" using put v by (simp_all add: S3_Put_def)
    then show ?thesis using eff Inl by simp
  next
    case (Inr s)
    then obtain T where T: "locate d (su_path s) = Some T" "files (nodes d) T = None" "staging_path r T"
        "\<not> blocked (nodes d) T" "files (nodes d1) = (files (nodes d))(T \<mapsto> up_bytes up)"
      using eff by auto
    have T1: "locate d1 (su_path s) = Some T" using T(1) eff locate_cong by metis
    obtain d2 rw2 q2 where p: "S3_send S h c s (d1, rw) = ((d2, rw2), q2)" by (metis prod.exhaust)
    have "files (nodes d1) T = Some (up_bytes up)" using T(5) by simp
    note eff2 = send_effect [OF p T1 this]
    have o: "d' = removeStaged (su_path s) d2" "rw' = rw2" "res = q2" using put v Inr p by (simp_all add: S3_Put_def)
    have f2: "files (nodes d2) = (files (nodes d))(T \<mapsto> up_bytes up)" using eff2 T(5) by simp
    have "T \<noteq> []" using T(3) by (auto simp: staging_path_def)
    from removed_again [OF T(1) this T(4,2) f2] have
      "(os_faults d = [] \<longrightarrow> files (nodes d') = files (nodes d)) \<and> (\<forall>p. p \<noteq> T \<longrightarrow> files (nodes d') p = files (nodes d) p)"
      using eff eff2 by (simp add: o)
    moreover have "\<exists>ext. map_of acceptedTypes (su_type s) = Some ext" using eff Inr by auto
    ultimately show ?thesis using eff eff2 Inr T(3) by (auto simp: o)
  qed
qed

text \<open>On an object store that keeps what it is given, an upload that was put can be opened:
  whatever \<open>Open\<close> then returns is the upload's bytes, whole, and never \<open>ErrPhotoNotFound\<close>; and
  the staged copy is gone from the local disk.\<close>

theorem s3_put_then_open:
  assumes "s3_ok (ss_client S) (ss_bucket S) objs" and "s3_store_ok S" and "locate d (ss_temp_dir S) = Some r"
    and "S3_Put S h c up (d, rw) = ((d', rw'), Inr a)" and "S3_Open S (pu_ref a) rw' = (rw'', res)"
  shows "res \<in> {Inl Media_other, Inr (Reader (up_bytes up))} \<and> objs rw'' = (objs rw)(pu_ref a \<mapsto> up_bytes up) \<and>
    (os_faults d = [] \<longrightarrow> files (nodes d') = files (nodes d))"
proof -
  obtain ext u where e: "acceptable (ss_images S) (ss_max_bytes S) (pu_type a) (up_bytes up)"
      "cl_put (ss_client S) (ss_bucket S) (pu_ref a) (put_object_input S (pu_type a) (up_bytes up)) rw = (rw', Inr u)"
    using s3_put_effect [OF assms(4,2,3)] by blast
  have held: "objs rw' = (objs rw)(pu_ref a \<mapsto> up_bytes up)"
    using s3_put_law [OF assms(1) e(2)] by (simp add: put_object_input_def)
  have m: "0 < ss_max_bytes S" "ss_max_bytes S < 2 ^ 63 - 1" using assms(2) by (simp_all add: s3_store_ok_def)
  have "upload_limit (ss_max_bytes S) = nat (ss_max_bytes S + 1)"
    using upload_limit [of "ss_max_bytes S"] m by simp
  then have limit: "length (up_bytes up) < upload_limit (ss_max_bytes S)"
    using e(1) m by (simp add: acceptable_def nat_eq_iff2)
  obtain rw1 q where g: "cl_get (ss_client S) (ss_bucket S) (pu_ref a) rw' = (rw1, q)" by fastforce
  note law = s3_get_laws [OF assms(1) g]
  have "rw'' = rw1" using assms(5) g by (auto simp: S3_Open_def Let_def split: sum.splits if_splits)
  moreover have "res \<in> {Inl Media_other, Inr (Reader (up_bytes up))}"
  proof (cases q)
    case (Inl er)
    then have "er \<noteq> S3_missing" using law(2) held by auto
    then show ?thesis using assms(5) g Inl by (simp add: S3_Open_def)
  next
    case (Inr body)
    then have b: "prefix (up_bytes body) (up_bytes up)" "\<not> up_fails body \<longrightarrow> up_bytes body = up_bytes up"
      using law(3) [of body] held by auto
    have "length (up_bytes body) < upload_limit (ss_max_bytes S)"
      using prefix_length_le [OF b(1)] limit by simp
    then show ?thesis using assms(5) g Inr b(2) by (auto simp: S3_Open_def Let_def split: if_splits)
  qed
  ultimately show ?thesis using law(1) held s3_put_effect [OF assms(4,2,3)] by simp
qed

section \<open>Listing by class\<close>

lemma key_class:
  assumes "registry_ok registered" and "buildStorageKey registered h c sm ext = Inr key"
  shows "keyBelongsToClass key class_prefix \<longleftrightarrow> c = class_prefix"
proof -
  note k = storage_key_form [OF assms]
  have "split_on (CHR ''/'') key = key_comps h c sm ext"
    using split_join [of "key_comps h c sm ext"] k by (simp add: plain_comp_def key_comps_def)
  then show ?thesis by (simp add: keyBelongsToClass_def key_comps_def)
qed

lemma collect_pages_exact:
  "collect_pages class_prefix pages = Inr objects \<Longrightarrow>
   list_all (\<lambda>p. \<not> isl p) pages \<and> objects = filter (\<lambda>x. keyBelongsToClass (oi_key x) class_prefix) (concat (map projr pages))"
  by (induction class_prefix pages arbitrary: objects rule: collect_pages.induct) (auto split: sum.splits)

text \<open>A listing is complete and exact for its class: it fails if any page fails, and otherwise
  holds, of the objects whose keys a put built, those of the class and no others.\<close>

theorem listing_exact_for_class:
  assumes "registry_ok (ss_classes S)" and "ListObjects S c rw = (rw', Inr objects)"
    and "cl_pages (ss_client S) (ss_bucket S) ''households/'' rw = (rw', pages)"
    and "buildStorageKey (ss_classes S) h c' sm ext = Inr (oi_key obj)"
  shows "obj \<in> set objects \<longleftrightarrow> c' = c \<and> obj \<in> set (concat (map projr pages)) \<and> list_all (\<lambda>p. \<not> isl p) pages"
proof -
  have "c \<noteq> []" using assms(2) by (auto simp: ListObjects_def classKeyPrefix_def Valid_class_def split: if_splits)
  then have "collect_pages c pages = Inr objects"
    using assms(2,3) by (auto simp: ListObjects_def classKeyPrefix_def class_String_def split: if_splits)
  from collect_pages_exact [OF this] show ?thesis using key_class [OF assms(1,4), of c] by auto
qed

section \<open>A concrete bucket\<close>

text \<open>An object store that is a map from keys to bodies and never fails.\<close>

type_synonym sample_bucket = "string \<Rightarrow> bytes option"

definition sample_key :: string where
  "sample_key = projr (buildStorageKey [''photo''] (HouseholdID 7) ''photo'' (replicate 64 CHR ''a'') ''jpg'')"

definition sample_client :: "sample_bucket s3_client" where
  "sample_client =
     \<lparr>cl_put = (\<lambda>_ key obj w. (w(key \<mapsto> so_body obj), Inr ())),
      cl_get = (\<lambda>_ key w. (w, case w key of None \<Rightarrow> Inl S3_missing | Some b \<Rightarrow> Inr \<lparr>up_bytes = b, up_fails = False\<rparr>)),
      cl_delete = (\<lambda>_ key w. (w(key := None), Inr ())),
      cl_head = (\<lambda>_ key w. (w, if w key = None then Inl S3_missing else Inr ())),
      cl_head_bucket = (\<lambda>_ w. (w, Inr ())),
      cl_presign = (\<lambda>_ key _ _ w. (w, Inr key)),
      cl_pages = (\<lambda>_ _ w. (w, [Inr [\<lparr>oi_key = sample_key, oi_modified = 0\<rparr>]]))\<rparr>"

definition sample_s3 :: "sample_bucket s3_store" where
  "sample_s3 = \<lparr>ss_client = sample_client, ss_bucket = ''b'', ss_max_bytes = 10, ss_ttl = 60, ss_sse = True,
     ss_images = sample_images, ss_classes = [''photo''], ss_temp_dir = ''/r''\<rparr>"

lemma sample_s3_ok:
  "s3_ok (ss_client sample_s3) (ss_bucket sample_s3) (\<lambda>w. w)" "s3_store_ok sample_s3"
  "locate sample_disk (ss_temp_dir sample_s3) = Some [''r'']"
  using sample_ok(1,3)
  by (auto simp: s3_ok_def sample_s3_def sample_client_def s3_store_ok_def store_ok_def sample_store_def split: option.splits)

end
