(* ===== verification/Media_Bootstrap.thy ===== *)
theory Media_Bootstrap
  imports Photo_Service S3_Store
begin

text \<open>
  The composition root of the media context, \<open>media/bootstrap/store_resolver.go\<close>: both photo
  stores over one world, the disk and the remote object store.
\<close>

record resolver_config =
  rc_backend :: storage_backend
  rc_local_root :: string
  rc_local_max :: int
  rc_s3 :: s3_params

definition on_disk :: "(disk \<Rightarrow> disk \<times> 'a) \<Rightarrow> disk \<times> 'r \<Rightarrow> (disk \<times> 'r) \<times> 'a" where
  "on_disk f w = (case f (fst w) of (d, a) \<Rightarrow> ((d, snd w), a))"

definition local_in_world :: "local_store \<Rightarrow> (disk \<times> 'r) photo_store" where
  "local_in_world S =
     \<lparr>st_put = (\<lambda>h c up. on_disk (Put S h c up)), st_open = (\<lambda>ref. on_disk (Open S ref)),
      st_delete = (\<lambda>ref. on_disk (Delete S ref)), st_url = (\<lambda>ref ttl. on_disk (URL S ref ttl)),
      st_direct = SupportsDirectURL S, st_list = None\<rparr>"

text \<open>The outcome \<open>None\<close> is a panic of the resolver's constructor, which cannot happen.\<close>

definition NewPhotoStoreResolver ::
    "image_lib \<Rightarrow> string list \<Rightarrow> string \<Rightarrow> (s3_params \<Rightarrow> 'r s3_client option) \<Rightarrow> resolver_config \<Rightarrow> disk \<times> 'r \<Rightarrow>
     (disk \<times> 'r) \<times> (media_error + (disk \<times> 'r) store_resolver \<times> storage_backend) option" where
  "NewPhotoStoreResolver images registered temp_dir load_config cfg w =
     (if \<not> Valid_backend (rc_backend cfg) then (w, Some (Inl Media_other))
      else case on_disk (NewLocalPhotoStore images registered (rc_local_root cfg) (rc_local_max cfg)) w of
        (w, Inl e) \<Rightarrow> (w, Some (Inl e))
      | (w, Inr loc) \<Rightarrow>
          let stores = [(StorageBackendLocal, Some (local_in_world loc))]
          in if rc_backend cfg = StorageBackendS3
             then case on_remote (NewS3PhotoStore images registered temp_dir load_config (rc_s3 cfg)) w of
                    (w, Inl e) \<Rightarrow> (w, Some (Inl e))
                  | (w, Inr s3) \<Rightarrow>
                      (w, map_option (\<lambda>r. Inr (r, rc_backend cfg))
                            (NewStoreResolver (stores @ [(StorageBackendS3, Some (s3_photo_store s3))])))
             else (w, map_option (\<lambda>r. Inr (r, rc_backend cfg)) (NewStoreResolver stores)))"

text \<open>Whichever backend is configured for writes, the resolver finds it, and rows of the local
  backend stay readable; the constructor of the resolver never panics.\<close>

lemma resolver_covers:
  assumes "NewPhotoStoreResolver images registered temp_dir load_config cfg w = (w', out)"
  shows "out \<noteq> None \<and> (\<forall>r b. out = Some (Inr (r, b)) \<longrightarrow>
    b = rc_backend cfg \<and> isl (Resolve r StorageBackendLocal) = False \<and> isl (Resolve r b) = False)"
proof -
  have v: "Valid_backend StorageBackendLocal" "Valid_backend StorageBackendS3" "StorageBackendLocal \<noteq> StorageBackendS3"
    by (simp_all add: Valid_backend_def StorageBackendLocal_def StorageBackendS3_def)
  have b: "Valid_backend x \<Longrightarrow> x \<noteq> StorageBackendS3 \<Longrightarrow> x = StorageBackendLocal" for x
    by (auto simp: Valid_backend_def)
  show ?thesis
    using assms v b [of "rc_backend cfg"]
    by (auto simp: NewPhotoStoreResolver_def NewStoreResolver_def Resolve_def Let_def
        split: if_splits prod.splits sum.splits option.splits)
qed

end
