(* ===== verification/Go_Netip.thy ===== *)
theory Go_Netip
  imports Go_Fmt Go_Uuid
begin

unbundle bit_operations_syntax

text \<open>
  What the program uses of Go's \<open>net\<close> and \<open>net/netip\<close>: addresses and prefixes, their text, and
  the split of a host and a port.
\<close>

section \<open>Addresses\<close>

text \<open>The zero \<open>Addr\<close> is not a valid address. An IPv6 address may carry a zone, empty for none.\<close>

datatype addr = No_addr | V4 "32 word" | V6 "128 word" string

definition IsValid :: "addr \<Rightarrow> bool" where
  "IsValid a \<longleftrightarrow> a \<noteq> No_addr"

definition Is4In6 :: "addr \<Rightarrow> bool" where
  "Is4In6 a = (case a of V6 w _ \<Rightarrow> drop_bit 32 w = 0xffff | _ \<Rightarrow> False)"

definition Unmap :: "addr \<Rightarrow> addr" where
  "Unmap a = (case a of V6 w _ \<Rightarrow> if Is4In6 a then V4 (ucast w) else a | _ \<Rightarrow> a)"

section \<open>Parsing\<close>

text \<open>A field of a dotted address: digits without a leading zero, at most 255.\<close>

definition parse_octet :: "string \<Rightarrow> nat option" where
  "parse_octet f =
     (if f \<noteq> [] \<and> list_all (\<lambda>c. is_digit (byte_at c)) f \<and> (length f = 1 \<or> hd f \<noteq> CHR ''0'') \<and>
         digits_value (map byte_at f) \<le> 255
      then Some (digits_value (map byte_at f)) else None)"

fun parse_octets :: "string list \<Rightarrow> nat list option" where
  "parse_octets [] = Some []"
| "parse_octets (f # fs) =
     (case parse_octet f of None \<Rightarrow> None | Some n \<Rightarrow> map_option ((#) n) (parse_octets fs))"

definition parse_ipv4 :: "string \<Rightarrow> (32 word) option" where
  "parse_ipv4 s =
     (case parse_octets (split_on CHR ''.'' s) of
        Some [a, b, c, d] \<Rightarrow> Some (word_of_nat (((a * 256 + b) * 256 + c) * 256 + d))
      | _ \<Rightarrow> None)"

definition hex_val :: "char \<Rightarrow> nat option" where
  "hex_val c =
     (let n = byte_at c in
      if 48 \<le> n \<and> n \<le> 57 then Some (n - 48)
      else if 97 \<le> n \<and> n \<le> 102 then Some (n - 87)
      else if 65 \<le> n \<and> n \<le> 70 then Some (n - 55) else None)"

definition hex_number :: "string \<Rightarrow> nat" where
  "hex_number s = foldl (\<lambda>v c. v * 16 + the (hex_val c)) 0 s"

lemma dropWhile_tl_shorter: "dropWhile P s \<noteq> [] \<Longrightarrow> length (tl (dropWhile P s)) < length s"
  using length_dropWhile_le [of P s] by (cases "dropWhile P s") auto

text \<open>
  The loop over the groups of an IPv6 address: the groups read, the place of \<open>::\<close> among them and
  the text that is left. It ends at the end of the text, after a trailing dotted address, or when
  there are eight groups, leaving what follows them.
\<close>

function v6_loop :: "nat list \<Rightarrow> nat option \<Rightarrow> string \<Rightarrow> (nat list \<times> nat option \<times> string) option" where
  "v6_loop gs e s =
     (if length gs \<ge> 8 then Some (gs, e, s)
      else let h = takeWhile (\<lambda>c. hex_val c \<noteq> None) s; rest = dropWhile (\<lambda>c. hex_val c \<noteq> None) s; hs = gs @ [hex_number h]
           in if h = [] \<or> length h > 4 then None
              else if rest = [] then Some (hs, e, [])
              else if hd rest = CHR ''.'' then
                (if (e = None \<and> length gs \<noteq> 6) \<or> length gs > 6 then None
                 else case parse_ipv4 s of None \<Rightarrow> None
                      | Some w \<Rightarrow> Some (gs @ [unat w div 65536, unat w mod 65536], e, []))
              else if hd rest \<noteq> CHR '':'' \<or> tl rest = [] then None
              else if hd (tl rest) = CHR '':'' then
                (if e \<noteq> None then None
                 else if tl (tl rest) = [] then Some (hs, Some (length hs), [])
                 else v6_loop hs (Some (length hs)) (tl (tl rest)))
              else v6_loop hs e (tl rest))"
  by pat_completeness auto

termination
proof (relation "measure (\<lambda>(_, _, s). length s)", goal_cases)
  case 1
  show ?case by simp
next
  case (2 gs e s h rest hs)
  then have "length (tl rest) < length s" by (metis dropWhile_tl_shorter)
  then show ?case by simp
next
  case (3 gs e s h rest hs)
  then have "length (tl rest) < length s" by (metis dropWhile_tl_shorter)
  then show ?case by simp
qed

declare v6_loop.simps [simp del]

definition v6_expand :: "nat list \<times> nat option \<times> string \<Rightarrow> nat list option" where
  "v6_expand p =
     (case p of (gs, e, rest) \<Rightarrow>
        if rest \<noteq> [] then None
        else if length gs < 8 then
          (case e of None \<Rightarrow> None | Some k \<Rightarrow> Some (take k gs @ replicate (8 - length gs) 0 @ drop k gs))
        else if e \<noteq> None then None else Some gs)"

definition v6_word :: "nat list \<Rightarrow> 128 word" where
  "v6_word gs = word_of_nat (foldl (\<lambda>v g. v * 65536 + g) 0 gs)"

definition parse_ipv6 :: "string \<Rightarrow> addr option" where
  "parse_ipv6 text =
     (let s = takeWhile (\<lambda>c. c \<noteq> CHR ''%'') text; z = dropWhile (\<lambda>c. c \<noteq> CHR ''%'') text; zone = tl z
      in if z \<noteq> [] \<and> zone = [] then None
         else if s = ''::'' then Some (V6 0 zone)
         else case (if take 2 s = ''::'' then v6_loop [] (Some 0) (drop 2 s) else v6_loop [] None s) of
                None \<Rightarrow> None
              | Some p \<Rightarrow> map_option (\<lambda>gs. V6 (v6_word gs) zone) (v6_expand p))"

text \<open>\<open>netip.ParseAddr\<close> is decided by the first of the three characters \<open>.\<close>, \<open>:\<close> and \<open>%\<close>.\<close>

definition ParseAddr :: "string \<Rightarrow> addr option" where
  "ParseAddr s =
     (case dropWhile (\<lambda>c. c \<noteq> CHR ''.'' \<and> c \<noteq> CHR '':'' \<and> c \<noteq> CHR ''%'') s of
        [] \<Rightarrow> None
      | c # _ \<Rightarrow>
          if c = CHR ''.'' then map_option V4 (parse_ipv4 s)
          else if c = CHR '':'' then parse_ipv6 s else None)"

section \<open>Text\<close>

fun join_with :: "string \<Rightarrow> string list \<Rightarrow> string" where
  "join_with sep [] = []"
| "join_with sep [x] = x"
| "join_with sep (x # y # xs) = x @ sep @ join_with sep (y # xs)"

definition octets :: "32 word \<Rightarrow> nat list" where
  "octets w = map (\<lambda>k. unat w div 256 ^ k mod 256) [3, 2, 1, 0]"

definition ipv4_text :: "32 word \<Rightarrow> string" where
  "ipv4_text w = join_with ''.'' (map decimal (octets w))"

fun hex_text :: "nat \<Rightarrow> string" where
  "hex_text n = (if n < 16 then [hex_digit n] else hex_text (n div 16) @ [hex_digit (n mod 16)])"

declare hex_text.simps [simp del]

definition groups :: "128 word \<Rightarrow> nat list" where
  "groups w = map (\<lambda>k. unat w div 65536 ^ k mod 65536) [7, 6, 5, 4, 3, 2, 1, 0]"

text \<open>The first of the longest runs of at least two zero groups, as its start and length.\<close>

definition zero_run :: "nat list \<Rightarrow> nat \<times> nat" where
  "zero_run gs =
     foldl (\<lambda>(st, len) i. let l = length (takeWhile (\<lambda>g. g = 0) (drop i gs))
                           in if 2 \<le> l \<and> len < l then (i, l) else (st, len)) (8, 0) [0..<8]"

definition ipv6_text :: "128 word \<Rightarrow> string" where
  "ipv6_text w =
     (let gs = groups w
      in case zero_run gs of (st, len) \<Rightarrow>
           if len = 0 then join_with '':'' (map hex_text gs)
           else join_with '':'' (map hex_text (take st gs)) @ ''::'' @ join_with '':'' (map hex_text (drop (st + len) gs)))"

text \<open>\<open>Addr.String\<close>.\<close>

definition addr_text :: "addr \<Rightarrow> string" where
  "addr_text a =
     (case a of
        No_addr \<Rightarrow> ''invalid IP''
      | V4 w \<Rightarrow> ipv4_text w
      | V6 w zone \<Rightarrow>
          (if Is4In6 a then ''::ffff:'' @ ipv4_text (ucast w) else ipv6_text w) @
          (if zone = [] then [] else CHR ''%'' # zone))"

section \<open>Prefixes\<close>

record prefix =
  pf_addr :: addr
  pf_bits :: nat

fun index_last :: "char \<Rightarrow> string \<Rightarrow> nat option" where
  "index_last c s = (if c \<in> set s then Some (length s - 1 - length (takeWhile (\<lambda>x. x \<noteq> c) (rev s))) else None)"

text \<open>\<open>netip.ParsePrefix\<close>. The width is the address's, so a width above it is an error.\<close>

definition max_bits :: "addr \<Rightarrow> nat" where
  "max_bits a = (case a of No_addr \<Rightarrow> 0 | V4 _ \<Rightarrow> 32 | V6 _ _ \<Rightarrow> 128)"

definition ParsePrefix :: "string \<Rightarrow> prefix option" where
  "ParsePrefix s =
     (case index_last CHR ''/'' s of None \<Rightarrow> None
      | Some i \<Rightarrow>
          (case ParseAddr (take i s) of None \<Rightarrow> None
           | Some a \<Rightarrow>
               let bits = drop (i + 1) s
               in if (case a of V6 _ zone \<Rightarrow> zone \<noteq> [] | _ \<Rightarrow> False) then None
                  else if length bits > 1 \<and> \<not> (49 \<le> byte_at (hd bits) \<and> byte_at (hd bits) \<le> 57) then None
                  else case Atoi bits of None \<Rightarrow> None
                       | Some n \<Rightarrow> if n < 0 \<or> n > int (max_bits a) then None
                                   else Some \<lparr>pf_addr = a, pf_bits = nat n\<rparr>))"

text \<open>\<open>Prefix.Masked\<close> clears the bits below the prefix.\<close>

definition Masked :: "prefix \<Rightarrow> prefix" where
  "Masked p =
     (case pf_addr p of
        No_addr \<Rightarrow> p
      | V4 w \<Rightarrow> p\<lparr>pf_addr := V4 (push_bit (32 - pf_bits p) (drop_bit (32 - pf_bits p) w))\<rparr>
      | V6 w _ \<Rightarrow> p\<lparr>pf_addr := V6 (push_bit (128 - pf_bits p) (drop_bit (128 - pf_bits p) w)) []\<rparr>)"

text \<open>\<open>Prefix.Contains\<close>: an address with a zone is in no prefix, and the two families are apart.\<close>

definition Contains :: "prefix \<Rightarrow> addr \<Rightarrow> bool" where
  "Contains p a =
     (case (pf_addr p, a) of
        (V4 v, V4 w) \<Rightarrow> drop_bit (32 - pf_bits p) (v XOR w) = 0
      | (V6 v _, V6 w zone) \<Rightarrow> zone = [] \<and> drop_bit (128 - pf_bits p) (v XOR w) = 0
      | _ \<Rightarrow> False)"

section \<open>Host and port\<close>

text \<open>\<open>net.SplitHostPort\<close>, its host alone.\<close>

definition split_host :: "string \<Rightarrow> string option" where
  "split_host s =
     (case index_last CHR '':'' s of None \<Rightarrow> None
      | Some i \<Rightarrow>
          if hd s = CHR ''['' then
            let k = length (takeWhile (\<lambda>c. c \<noteq> CHR '']'') s)
            in if k = length s \<or> k + 1 \<noteq> i \<or> CHR ''['' \<in> set (drop 1 s) \<or> CHR '']'' \<in> set (drop (k + 1) s)
               then None else Some (take (k - 1) (drop 1 s))
          else if CHR '':'' \<in> set (take i s) \<or> CHR ''['' \<in> set s \<or> CHR '']'' \<in> set s then None
          else Some (take i s))"

section \<open>Facts\<close>

lemma Unmap_idem [simp]: "Unmap (Unmap a) = Unmap a"
  by (cases a) (auto simp: Unmap_def Is4In6_def)

lemma Unmap_valid: "IsValid a \<Longrightarrow> IsValid (Unmap a)"
  by (cases a) (auto simp: Unmap_def IsValid_def)

lemma v6_no_addr: "parse_ipv6 s \<noteq> Some No_addr"
  by (auto simp: parse_ipv6_def Let_def split: option.splits if_splits)

lemma ParseAddr_valid: "ParseAddr s = Some a \<Longrightarrow> IsValid a"
  using v6_no_addr [of s]
  by (auto simp: ParseAddr_def IsValid_def split: list.splits if_splits)

lemma drop_push_drop: "drop_bit n (push_bit n (drop_bit n v)) = drop_bit n v"
  for v :: "'a::len word"
  by (rule bit_word_eqI) (auto simp: bit_simps dest: bit_imp_le_length)

lemma Contains_Masked: "pf_bits p \<le> max_bits (pf_addr p) \<Longrightarrow> Contains (Masked p) a = Contains p a"
  by (cases "pf_addr p"; cases a)
    (auto simp: Masked_def Contains_def max_bits_def drop_push_drop)

end
