(* ===== verification/Http.thy ===== *)
theory Http
  imports Go_Netip
begin

text \<open>
  What the program uses of \<open>net/http\<close>: requests, response writers and handlers, with the writer
  wrapper of \<open>httpserver/middleware/middleware.go\<close>.
  The server's own writer is \<open>Raw\<close>; a \<open>responseWriter\<close> is a pointer to its fields, an address in
  the store, together with the writer it wraps, which never changes. A handler is a function from
  a request, a writer and the state to the state, the final value of its request's \<open>Pattern\<close>, and
  whether it returned or panicked. Header names are in canonical form, as they are in the code.
\<close>

section \<open>Headers and requests\<close>

type_synonym header = "(string \<times> string list) list"

definition header_values :: "header \<Rightarrow> string \<Rightarrow> string list" where
  "header_values h k = (case map_of h k of None \<Rightarrow> [] | Some vs \<Rightarrow> vs)"

definition header_get :: "header \<Rightarrow> string \<Rightarrow> string" where
  "header_get h k = (case header_values h k of [] \<Rightarrow> [] | v # _ \<Rightarrow> v)"

definition header_set :: "string \<Rightarrow> string \<Rightarrow> header \<Rightarrow> header" where
  "header_set k v h = AList.update k [v] h"

lemma header_get_set [simp]: "header_get (header_set k v h) k' = (if k = k' then v else header_get h k')"
  by (simp add: header_get_def header_values_def header_set_def)

record forwarded =
  scheme :: string
  clientIP :: string

text \<open>A request with the values its context carries.\<close>

record request =
  rq_method :: string
  rq_path :: string
  rq_remote :: string
  rq_tls :: bool
  rq_headers :: header
  rq_pattern :: string
  rq_id :: "string option"
  rq_fwd :: "forwarded option"
  rq_holder :: "nat option"      \<comment> \<open>a pointer to a \<open>routePatternHolder\<close>\<close>
  rq_deadline :: "time option"

section \<open>Writers\<close>

datatype panic = Abort_handler | Bad_status int | Other_panic string
datatype outcome = Returned | Panicked panic

datatype log_line =
    Http_request string string int int duration string string
    \<comment> \<open>method, path, status, bytes, duration, client IP, request id\<close>
  | Panic_recovered panic string

record raw_writer =
  rw_header :: header
  rw_sent :: "(int \<times> header) option"     \<comment> \<open>the status line and header of the response\<close>
  rw_infos :: "(int \<times> header) list"      \<comment> \<open>informational responses sent before it\<close>
  rw_body :: bytes
  rw_hijacked :: bool
  rw_flusher :: bool
  rw_hijacker :: bool
  rw_accepts :: "nat list"               \<comment> \<open>how many bytes each coming write accepts; all, when empty\<close>

record response_writer =
  status :: int
  bytes_written :: int
  wroteHeader :: bool

record http =
  h_raw :: raw_writer
  h_wraps :: "response_writer list"
  h_holders :: "string list"
  h_logs :: "log_line list"
  h_counts :: "(string \<times> string \<times> string) list"            \<comment> \<open>requests_total: method, route, status\<close>
  h_durations :: "((string \<times> string) \<times> duration) list"     \<comment> \<open>request_duration: method, route\<close>
  h_inflight :: int
  h_now :: time
  h_random :: bytes

datatype writer = Raw | Wrap nat writer

type_synonym handler = "request \<Rightarrow> writer \<Rightarrow> http \<Rightarrow> http \<times> string \<times> outcome"
type_synonym middleware = "handler \<Rightarrow> handler"

abbreviation on_raw :: "(raw_writer \<Rightarrow> raw_writer) \<Rightarrow> http \<Rightarrow> http" where
  "on_raw f s \<equiv> s\<lparr>h_raw := f (h_raw s)\<rparr>"

definition on_wrap :: "nat \<Rightarrow> (response_writer \<Rightarrow> response_writer) \<Rightarrow> http \<Rightarrow> http" where
  "on_wrap i f s = s\<lparr>h_wraps := (h_wraps s)[i := f (h_wraps s ! i)]\<rparr>"

text \<open>\<open>w.Header().Set\<close>: every wrapper hands out the server's header map.\<close>

definition set_header :: "string \<Rightarrow> string \<Rightarrow> http \<Rightarrow> http" where
  "set_header k v = on_raw (\<lambda>r. r\<lparr>rw_header := header_set k v (rw_header r)\<rparr>)"

text \<open>
  The server's \<open>WriteHeader\<close>: nothing after the first, a panic on a code outside 100 to 999, and a
  1xx code other than 101 is an informational response, after which the response is still to come.
\<close>

definition raw_write_header :: "int \<Rightarrow> raw_writer \<Rightarrow> raw_writer \<times> outcome" where
  "raw_write_header code r =
     (if rw_hijacked r \<or> rw_sent r \<noteq> None then (r, Returned)
      else if code < 100 \<or> code > 999 then (r, Panicked (Bad_status code))
      else if code \<le> 199 \<and> code \<noteq> 101 then (r\<lparr>rw_infos := rw_infos r @ [(code, rw_header r)]\<rparr>, Returned)
      else (r\<lparr>rw_sent := Some (code, rw_header r)\<rparr>, Returned))"

definition body_allowed :: "int \<Rightarrow> bool" where
  "body_allowed code \<longleftrightarrow> \<not> (100 \<le> code \<and> code \<le> 199) \<and> code \<noteq> 204 \<and> code \<noteq> 304"

text \<open>The server's \<open>Write\<close>: the bytes written. After a hijack it is an error, and so it is for a
  status that has no body.\<close>

definition raw_write :: "bytes \<Rightarrow> raw_writer \<Rightarrow> raw_writer \<times> nat" where
  "raw_write b r =
     (if rw_hijacked r then (r, 0)
      else
        let r = fst (raw_write_header 200 r)
        in if b = [] \<or> \<not> body_allowed (fst (the (rw_sent r))) then (r, 0)
           else let n = (case rw_accepts r of [] \<Rightarrow> length b | k # _ \<Rightarrow> min k (length b))
                in (r\<lparr>rw_body := rw_body r @ take n b, rw_accepts := tl (rw_accepts r)\<rparr>, n))"

text \<open>The wrapper's \<open>WriteHeader\<close> marks itself before it passes the call on.\<close>

fun WriteHeader :: "writer \<Rightarrow> int \<Rightarrow> http \<Rightarrow> http \<times> outcome" where
  "WriteHeader Raw code s =
     (case raw_write_header code (h_raw s) of (r, out) \<Rightarrow> (s\<lparr>h_raw := r\<rparr>, out))"
| "WriteHeader (Wrap i p) code s =
     (if wroteHeader (h_wraps s ! i) then (s, Returned)
      else WriteHeader p code (on_wrap i (\<lambda>w. w\<lparr>status := code, wroteHeader := True\<rparr>) s))"

definition implicit_200 :: "writer \<Rightarrow> http \<Rightarrow> http" where
  "implicit_200 w s =
     (case w of Raw \<Rightarrow> s
      | Wrap i _ \<Rightarrow> if wroteHeader (h_wraps s ! i) then s else fst (WriteHeader w 200 s))"

fun Write :: "writer \<Rightarrow> bytes \<Rightarrow> http \<Rightarrow> http \<times> nat" where
  "Write Raw b s = (case raw_write b (h_raw s) of (r, n) \<Rightarrow> (s\<lparr>h_raw := r\<rparr>, n))"
| "Write (Wrap i p) b s =
     (case Write p b (implicit_200 (Wrap i p) s) of
        (s, n) \<Rightarrow> (on_wrap i (\<lambda>w. w\<lparr>bytes_written := bytes_written w + int n\<rparr>) s, n))"

text \<open>A wrapper always is a \<open>Flusher\<close> and a \<open>Hijacker\<close>; the server's writer is one or not.\<close>

fun is_flusher :: "writer \<Rightarrow> http \<Rightarrow> bool" where
  "is_flusher Raw s \<longleftrightarrow> rw_flusher (h_raw s)"
| "is_flusher (Wrap _ _) s \<longleftrightarrow> True"

fun Flush :: "writer \<Rightarrow> http \<Rightarrow> http" where
  "Flush Raw s =
     (if rw_hijacked (h_raw s) then s else on_raw (\<lambda>r. fst (raw_write_header 200 r)) s)"
| "Flush (Wrap i p) s =
     (if is_flusher p s then Flush p (implicit_200 (Wrap i p) s) else s)"

text \<open>\<open>Hijack\<close> says whether it succeeded: unsupported and already hijacked are errors.\<close>

fun Hijack :: "writer \<Rightarrow> http \<Rightarrow> http \<times> bool" where
  "Hijack Raw s =
     (if rw_hijacker (h_raw s) \<and> \<not> rw_hijacked (h_raw s)
      then (on_raw (\<lambda>r. r\<lparr>rw_hijacked := True\<rparr>) s, True) else (s, False))"
| "Hijack (Wrap i p) s =
     (case Hijack p s of
        (s, True) \<Rightarrow> (on_wrap i (\<lambda>w. w\<lparr>wroteHeader := True\<rparr>) s, True)
      | (s, False) \<Rightarrow> (s, False))"

definition Unwrap :: "writer \<Rightarrow> writer" where
  "Unwrap w = (case w of Raw \<Rightarrow> Raw | Wrap _ p \<Rightarrow> p)"

text \<open>The server ends a request whose handler has returned: a response not started is an empty 200.\<close>

definition finish :: "http \<Rightarrow> http" where
  "finish s = (if rw_hijacked (h_raw s) then s else on_raw (\<lambda>r. fst (raw_write_header 200 r)) s)"

section \<open>Handlers that act on their writer only\<close>

text \<open>
  What a handler can do to the response, and a handler that works out from its request and the
  state what it will do, to end in a return or a panic. An action may itself panic.
\<close>

datatype act = Set_header string string | Write_header int | Write_body bytes | Do_flush | Do_hijack

fun do_act :: "writer \<Rightarrow> act \<Rightarrow> http \<Rightarrow> http \<times> outcome" where
  "do_act w (Set_header k v) s = (set_header k v s, Returned)"
| "do_act w (Write_header c) s = WriteHeader w c s"
| "do_act w (Write_body b) s = (fst (Write w b s), Returned)"
| "do_act w Do_flush s = (if is_flusher w s then Flush w s else s, Returned)"
| "do_act w Do_hijack s = (fst (Hijack w s), Returned)"

fun do_acts :: "writer \<Rightarrow> act list \<Rightarrow> http \<Rightarrow> http \<times> outcome" where
  "do_acts w [] s = (s, Returned)"
| "do_acts w (a # as) s =
     (case do_act w a s of (s, Returned) \<Rightarrow> do_acts w as s | (s, Panicked p) \<Rightarrow> (s, Panicked p))"

record script =
  sc_acts :: "act list"
  sc_pattern :: string     \<comment> \<open>the route the multiplexer found\<close>
  sc_end :: outcome

definition scripted :: "(request \<Rightarrow> http \<Rightarrow> script) \<Rightarrow> handler" where
  "scripted f r w s =
     (let sc = f r s
      in case do_acts w (sc_acts sc) s of
           (s, Returned) \<Rightarrow> (s, sc_pattern sc, sc_end sc)
         | (s, Panicked p) \<Rightarrow> (s, sc_pattern sc, Panicked p))"

end
