(* ===== verification/Middleware.thy ===== *)
theory Middleware
  imports Http
begin

text \<open>
  The request backbone of \<open>httpserver/middleware\<close>: request ids, forwarded headers, security
  headers, logging, metrics, recovery, timeouts and route capture. A middleware is a function on
  handlers; a Prometheus collector is the list of what it was told.
\<close>

section \<open>Composition\<close>

definition Chain :: "middleware list \<Rightarrow> middleware" where
  "Chain mws h = fold (\<lambda>mw h. mw h) (rev mws) h"

section \<open>Request ids\<close>

definition requestIDHeader :: string where "requestIDHeader = ''X-Request-Id''"
definition maxRequestIDLen :: nat where "maxRequestIDLen = 128"

definition id_rune :: "nat \<Rightarrow> bool" where
  "id_rune c \<longleftrightarrow>
     (97 \<le> c \<and> c \<le> 122) \<or> (65 \<le> c \<and> c \<le> 90) \<or> (48 \<le> c \<and> c \<le> 57) \<or> c = 45 \<or> c = 95 \<or> c = 46"

definition validRequestID :: "string \<Rightarrow> bool" where
  "validRequestID i \<longleftrightarrow> 0 < length i \<and> length i \<le> maxRequestIDLen \<and> list_all (\<lambda>p. id_rune (fst p)) (runes i)"

definition newRequestID :: "http \<Rightarrow> http \<times> string" where
  "newRequestID s =
     (if length (h_random s) < 16 then (s, ''unknown'')
      else (s\<lparr>h_random := drop 16 (h_random s)\<rparr>, hex_encode (take 16 (h_random s))))"

definition RequestID :: middleware where
  "RequestID nxt r w s =
     (let i = header_get (rq_headers r) requestIDHeader;
          (s, i) = (if validRequestID i then (s, i) else newRequestID s);
          s = set_header requestIDHeader i s
      in case nxt (r\<lparr>rq_id := Some i\<rparr>) w s of (s, _, out) \<Rightarrow> (s, rq_pattern r, out))"

definition RequestIDFromContext :: "request \<Rightarrow> string" where
  "RequestIDFromContext r = (case rq_id r of None \<Rightarrow> [] | Some i \<Rightarrow> i)"

definition Timeout :: "duration \<Rightarrow> middleware" where
  "Timeout d nxt r w s =
     (let t = h_now s + d;
          t = (case rq_deadline r of None \<Rightarrow> t | Some u \<Rightarrow> min u t)
      in case nxt (r\<lparr>rq_deadline := Some t\<rparr>) w s of (s, _, out) \<Rightarrow> (s, rq_pattern r, out))"

section \<open>Forwarded headers\<close>

definition remoteIP :: "string \<Rightarrow> addr" where
  "remoteIP remote =
     (case ParseAddr (trim_space (case split_host remote of None \<Rightarrow> remote | Some h \<Rightarrow> h)) of
        None \<Rightarrow> No_addr | Some a \<Rightarrow> Unmap a)"

definition ipInPrefixes :: "addr \<Rightarrow> prefix list \<Rightarrow> bool" where
  "ipInPrefixes a ps \<longleftrightarrow> IsValid a \<and> list_ex (\<lambda>p. Contains p a) ps"

definition normalizeScheme :: "string \<Rightarrow> string" where
  "normalizeScheme s =
     (if to_lower s = ''http'' then ''http'' else if to_lower s = ''https'' then ''https'' else [])"

definition firstToken :: "string \<Rightarrow> string" where
  "firstToken s = trim_space (takeWhile (\<lambda>c. c \<noteq> CHR '','') s)"

definition xff_tokens :: "string list \<Rightarrow> string list" where
  "xff_tokens vs = concat (map (\<lambda>v. filter (\<lambda>p. p \<noteq> []) (map trim_space (split_on CHR '','' v))) vs)"

fun last_untrusted :: "prefix list \<Rightarrow> string list \<Rightarrow> addr" where
  "last_untrusted trusted [] = No_addr"
| "last_untrusted trusted (t # ts) =
     (case ParseAddr t of None \<Rightarrow> last_untrusted trusted ts
      | Some a \<Rightarrow> if ipInPrefixes (Unmap a) trusted then last_untrusted trusted ts else Unmap a)"

text \<open>The loop of \<open>clientFromXFF\<close> runs from the last token to the first.\<close>

definition clientFromXFF :: "string list \<Rightarrow> prefix list \<Rightarrow> addr" where
  "clientFromXFF vs trusted = last_untrusted trusted (rev (xff_tokens vs))"

definition onWireScheme :: "request \<Rightarrow> string" where
  "onWireScheme r = (if rq_tls r then ''https'' else ''http'')"

definition resolveForwarded :: "request \<Rightarrow> prefix list \<Rightarrow> forwarded" where
  "resolveForwarded r trusted =
     (let peer = remoteIP (rq_remote r);
          fwd = \<lparr>scheme = onWireScheme r, clientIP = (if IsValid peer then addr_text peer else rq_remote r)\<rparr>
      in if \<not> IsValid peer \<or> \<not> ipInPrefixes peer trusted then fwd
         else
           let proto = normalizeScheme (firstToken (header_get (rq_headers r) ''X-Forwarded-Proto''));
               fwd = (if proto \<noteq> [] then fwd\<lparr>scheme := proto\<rparr> else fwd);
               client = clientFromXFF (header_values (rq_headers r) ''X-Forwarded-For'') trusted
           in if IsValid client then fwd\<lparr>clientIP := addr_text client\<rparr> else fwd)"

definition ForwardedHeaders :: "prefix list \<Rightarrow> middleware" where
  "ForwardedHeaders trusted nxt r w s =
     (case nxt (r\<lparr>rq_fwd := Some (resolveForwarded r trusted)\<rparr>) w s of (s, _, out) \<Rightarrow> (s, rq_pattern r, out))"

definition fromContext :: "request \<Rightarrow> forwarded" where
  "fromContext r = (case rq_fwd r of None \<Rightarrow> \<lparr>scheme = [], clientIP = []\<rparr> | Some f \<Rightarrow> f)"

definition RequestScheme :: "request \<Rightarrow> string" where "RequestScheme r = scheme (fromContext r)"
definition ClientIP :: "request \<Rightarrow> string" where "ClientIP r = clientIP (fromContext r)"
definition IsHTTPS :: "request \<Rightarrow> bool" where "IsHTTPS r \<longleftrightarrow> RequestScheme r = ''https''"

section \<open>Security headers\<close>

record csp_directive =
  dir_name :: string
  dir_values :: "string list"

type_synonym content_security_policy = "csp_directive list"

definition directive_text :: "csp_directive \<Rightarrow> string" where
  "directive_text d = join_with '' '' (dir_name d # dir_values d)"

definition policy_text :: "content_security_policy \<Rightarrow> string" where
  "policy_text p = join_with ''; '' (map directive_text p)"

definition DefaultCSP :: content_security_policy where
  "DefaultCSP = [\<lparr>dir_name = ''frame-ancestors'', dir_values = [CHR 0x27 # ''self'' @ [CHR 0x27]]\<rparr>]"

definition security_headers :: "string \<Rightarrow> string \<Rightarrow> request \<Rightarrow> http \<Rightarrow> http" where
  "security_headers hsts policy r s =
     (let s = set_header ''X-Content-Type-Options'' ''nosniff'' s;
          s = set_header ''Referrer-Policy'' ''strict-origin-when-cross-origin'' s;
          s = (if policy \<noteq> [] then set_header ''Content-Security-Policy'' policy s else s);
          s = set_header ''X-Frame-Options'' ''SAMEORIGIN'' s
      in if hsts \<noteq> [] \<and> IsHTTPS r then set_header ''Strict-Transport-Security'' hsts s else s)"

definition SecurityHeadersWithPolicy :: "string \<Rightarrow> content_security_policy \<Rightarrow> middleware" where
  "SecurityHeadersWithPolicy hsts csp nxt r w s = nxt r w (security_headers hsts (policy_text csp) r s)"

definition SecurityHeaders :: "string \<Rightarrow> middleware" where
  "SecurityHeaders hsts = SecurityHeadersWithPolicy hsts DefaultCSP"

section \<open>Logging and recovery\<close>

text \<open>\<open>&responseWriter{ResponseWriter: w}\<close>.\<close>

definition new_wrapper :: "writer \<Rightarrow> http \<Rightarrow> http \<times> writer" where
  "new_wrapper w s =
     (s\<lparr>h_wraps := h_wraps s @ [\<lparr>status = 0, bytes_written = 0, wroteHeader = False\<rparr>]\<rparr>,
      Wrap (length (h_wraps s)) w)"

definition reuse_wrapper :: "writer \<Rightarrow> http \<Rightarrow> http \<times> writer" where
  "reuse_wrapper w s = (case w of Wrap _ _ \<Rightarrow> (s, w) | Raw \<Rightarrow> new_wrapper w s)"

definition wrapper :: "writer \<Rightarrow> http \<Rightarrow> response_writer" where
  "wrapper w s = (case w of Wrap i _ \<Rightarrow> h_wraps s ! i | Raw \<Rightarrow> \<lparr>status = 0, bytes_written = 0, wroteHeader = False\<rparr>)"

definition shown_status :: "writer \<Rightarrow> http \<Rightarrow> int" where
  "shown_status w s = (if status (wrapper w s) = 0 then 200 else status (wrapper w s))"

definition logged_ip :: "request \<Rightarrow> string" where
  "logged_ip r =
     (if ClientIP r \<noteq> [] then ClientIP r
      else case split_host (rq_remote r) of Some h \<Rightarrow> h | None \<Rightarrow> rq_remote r)"

definition RequestLogger :: middleware where
  "RequestLogger nxt r w s =
     (let start = h_now s; (s, rw) = new_wrapper w s
      in case nxt r rw s of
           (s, pat, Panicked p) \<Rightarrow> (s, pat, Panicked p)
         | (s, pat, Returned) \<Rightarrow>
             (s\<lparr>h_logs := h_logs s @
                  [Http_request (rq_method r) (rq_path r) (shown_status rw s) (bytes_written (wrapper rw s))
                     (h_now s - start) (logged_ip r) (RequestIDFromContext r)]\<rparr>, pat, Returned))"

definition recoverAndRespond :: "panic \<Rightarrow> writer \<Rightarrow> request \<Rightarrow> http \<Rightarrow> http \<times> outcome" where
  "recoverAndRespond p rw r s =
     (if p = Abort_handler then (s, Panicked p)
      else
        let s = s\<lparr>h_logs := h_logs s @ [Panic_recovered p (RequestIDFromContext r)]\<rparr>
        in if wroteHeader (wrapper rw s) then (s, Returned)
           else
             let s = set_header ''Content-Type'' ''text/plain; charset=utf-8'' s
             in case WriteHeader rw 500 s of
                  (s, Panicked q) \<Rightarrow> (s, Panicked q)
                | (s, Returned) \<Rightarrow> (fst (Write rw (bytes_of ''internal server error'') s), Returned))"

definition Recoverer :: middleware where
  "Recoverer nxt r w s =
     (case reuse_wrapper w s of (s, rw) \<Rightarrow>
        (case nxt r rw s of
           (s, pat, Returned) \<Rightarrow> (s, pat, Returned)
         | (s, pat, Panicked p) \<Rightarrow> (case recoverAndRespond p rw r s of (s, out) \<Rightarrow> (s, pat, out))))"

section \<open>Metrics\<close>

definition unmatchedRoute :: string where "unmatchedRoute = ''unmatched''"
definition otherMethod :: string where "otherMethod = ''OTHER''"

definition normalizeMethod :: "string \<Rightarrow> string" where
  "normalizeMethod m =
     (if m \<in> set [''GET'', ''HEAD'', ''POST'', ''PUT'', ''PATCH'', ''DELETE'', ''CONNECT'', ''OPTIONS'', ''TRACE'']
      then m else otherMethod)"

text \<open>\<open>strconv.Itoa\<close>.\<close>

definition itoa :: "int \<Rightarrow> string" where
  "itoa n = (if n < 0 then CHR ''-'' # decimal (nat (- n)) else decimal (nat n))"

definition CaptureRoutePattern :: middleware where
  "CaptureRoutePattern nxt r w s =
     (case nxt r w s of (s, pat, out) \<Rightarrow>
        (case rq_holder r of
           None \<Rightarrow> (s, pat, out)
         | Some h \<Rightarrow> (s\<lparr>h_holders := (h_holders s)[h := pat]\<rparr>, pat, out)))"

text \<open>Without a registry the middleware passes every request through. The gauge goes down however
  the handler ends; a panic that reaches this middleware is not counted.\<close>

definition Metrics :: "bool \<Rightarrow> middleware" where
  "Metrics enabled nxt r w s =
     (if \<not> enabled then nxt r w s
      else
        case reuse_wrapper w s of (s, rw) \<Rightarrow>
          let h = length (h_holders s); start = h_now s;
              s = s\<lparr>h_holders := h_holders s @ [[]], h_inflight := h_inflight s + 1\<rparr>
          in case nxt (r\<lparr>rq_holder := Some h\<rparr>) rw s of
               (s, _, Panicked p) \<Rightarrow> (s\<lparr>h_inflight := h_inflight s - 1\<rparr>, rq_pattern r, Panicked p)
             | (s, pat, Returned) \<Rightarrow>
                 let route = h_holders s ! h;
                     route = (if route = [] then pat else route);
                     route = (if route = [] then unmatchedRoute else route);
                     method = normalizeMethod (rq_method r)
                 in (s\<lparr>h_counts := h_counts s @ [(method, route, itoa (shown_status rw s))],
                       h_durations := h_durations s @ [((method, route), h_now s - start)],
                       h_inflight := h_inflight s - 1\<rparr>, rq_pattern r, Returned))"

section \<open>Whom a request comes from\<close>

text \<open>
  A proxy adds the address of its peer to \<open>X-Forwarded-For\<close>: as a line of its own, or at the end
  of the last line after a comma. \<open>relays vs ts us\<close>: header lines \<open>vs\<close> have become \<open>us\<close> on the way
  through proxies that added the texts \<open>ts\<close>.
\<close>

inductive relays :: "string list \<Rightarrow> string list \<Rightarrow> string list \<Rightarrow> bool" for vs where
  relay_none: "relays vs [] vs"
| relay_line: "relays vs ts us \<Longrightarrow> relays vs (ts @ [t]) (us @ [t])"
| relay_comma: "relays vs ts (us @ [u]) \<Longrightarrow> pad = [] \<or> pad = '' '' \<Longrightarrow>
    relays vs (ts @ [t]) (us @ [u @ CHR '','' # pad @ t])"

definition plain_token :: "string \<Rightarrow> bool" where
  "plain_token t \<longleftrightarrow> t \<noteq> [] \<and> is_ascii t \<and> CHR '','' \<notin> set t \<and> list_all (\<lambda>c. \<not> is_space (byte_at c)) t"

definition trusted_token :: "prefix list \<Rightarrow> string \<Rightarrow> bool" where
  "trusted_token trusted t \<longleftrightarrow>
     plain_token t \<and> (case ParseAddr t of None \<Rightarrow> False | Some a \<Rightarrow> ipInPrefixes (Unmap a) trusted)"

lemma split_on_not_Nil [simp]: "split_on c s \<noteq> []"
  by (cases s) (auto split: list.splits)

lemma split_on_snoc: "split_on c (xs @ c # ys) = split_on c xs @ split_on c ys"
  by (induction xs) (auto split: list.splits)

lemma trim_space_blank: "trim_space (CHR '' '' # s) = trim_space s"
  unfolding trim_space_def by (subst runes_Cons_ascii) (simp_all add: is_space_def)

lemma trim_token: "plain_token t \<Longrightarrow> pad = [] \<or> pad = '' '' \<Longrightarrow> trim_space (pad @ t) = t"
  by (auto simp: plain_token_def trim_space_blank list_all_iff intro: trim_space_plain)

lemma tokens_line: "plain_token t \<Longrightarrow> xff_tokens (us @ [t]) = xff_tokens us @ [t]"
  using trim_token [of t "[]"] by (simp add: xff_tokens_def plain_token_def split_on_none)

lemma tokens_comma:
  assumes "plain_token t" and "pad = [] \<or> pad = '' ''"
  shows "xff_tokens (us @ [u @ CHR '','' # pad @ t]) = xff_tokens (us @ [u]) @ [t]"
proof -
  have "CHR '','' \<notin> set (pad @ t)" and "t \<noteq> []" using assms by (auto simp: plain_token_def)
  then show ?thesis using trim_token [OF assms]
    by (simp add: xff_tokens_def split_on_snoc split_on_none)
qed

lemma relayed_tokens: "relays vs ts us \<Longrightarrow> list_all plain_token ts \<Longrightarrow> xff_tokens us = xff_tokens vs @ ts"
  by (induction rule: relays.induct) (auto simp: tokens_line tokens_comma)

lemma last_untrusted_skips:
  "list_all (trusted_token trusted) ts \<Longrightarrow> last_untrusted trusted (ts @ us) = last_untrusted trusted us"
  by (induction ts) (auto simp: trusted_token_def split: option.splits)

text \<open>
  A request of a client at a public address, which sent the header lines \<open>forged\<close>: it arrives from
  the client itself, or through trusted proxies of which the first saw the client and each of the
  others saw the one before.
\<close>

definition arrives_from :: "prefix list \<Rightarrow> string list \<Rightarrow> addr \<Rightarrow> request \<Rightarrow> bool" where
  "arrives_from trusted forged client r \<longleftrightarrow>
     IsValid client \<and> \<not> ipInPrefixes client trusted \<and>
     (remoteIP (rq_remote r) = client \<or>
      (ipInPrefixes (remoteIP (rq_remote r)) trusted \<and>
       (\<exists>t ts a. relays forged (t # ts) (header_values (rq_headers r) ''X-Forwarded-For'') \<and>
          plain_token t \<and> ParseAddr t = Some a \<and> Unmap a = client \<and> list_all (trusted_token trusted) ts)))"

lemma client_through_proxies:
  assumes "relays forged (t # ts) us" and "plain_token t" and "ParseAddr t = Some a"
    and "list_all (trusted_token trusted) ts" and "\<not> ipInPrefixes (Unmap a) trusted"
  shows "clientFromXFF us trusted = Unmap a"
proof -
  have "list_all plain_token (t # ts)"
    using assms(2,4) by (auto simp: list_all_iff trusted_token_def)
  then have "xff_tokens us = xff_tokens forged @ t # ts" by (rule relayed_tokens [OF assms(1)])
  then have "clientFromXFF us trusted = last_untrusted trusted (rev ts @ t # rev (xff_tokens forged))"
    by (simp add: clientFromXFF_def)
  moreover have "list_all (trusted_token trusted) (rev ts)" using assms(4) by (simp add: list_all_iff)
  ultimately show ?thesis using assms(3,5) by (simp add: last_untrusted_skips)
qed

text \<open>C28: whatever \<open>X-Forwarded-For\<close> lines a client sends, the resolved client address is the
  client's own, both when it connects directly and when it comes through any number of trusted
  proxies that each append their peer's address; and a client that connects directly cannot
  choose the scheme either.\<close>

theorem client_address_not_forged:
  assumes "arrives_from trusted forged client r"
  shows "clientIP (resolveForwarded r trusted) = addr_text client \<and>
    (remoteIP (rq_remote r) \<noteq> client \<or> scheme (resolveForwarded r trusted) = onWireScheme r)"
proof -
  from assms have v: "IsValid client" and nt: "\<not> ipInPrefixes client trusted"
    by (simp_all add: arrives_from_def)
  show ?thesis
  proof (cases "remoteIP (rq_remote r) = client")
    case True
    with v nt show ?thesis by (simp add: resolveForwarded_def)
  next
    case False
    with assms obtain t ts a where peer: "ipInPrefixes (remoteIP (rq_remote r)) trusted"
      and rel: "relays forged (t # ts) (header_values (rq_headers r) ''X-Forwarded-For'')"
      and t: "plain_token t" "ParseAddr t = Some a" and a: "Unmap a = client"
      and ts: "list_all (trusted_token trusted) ts"
      unfolding arrives_from_def by blast
    have "clientFromXFF (header_values (rq_headers r) ''X-Forwarded-For'') trusted = client"
      using client_through_proxies [OF rel t ts] nt a by simp
    moreover from peer have "IsValid (remoteIP (rq_remote r))" by (simp add: ipInPrefixes_def)
    ultimately show ?thesis using peer v False by (simp add: resolveForwarded_def Let_def)
  qed
qed

definition sample_trusted :: "prefix list" where
  "sample_trusted = [\<lparr>pf_addr = V4 0x7F000000, pf_bits = 8\<rparr>]"

definition sample_request :: request where
  "sample_request =
     \<lparr>rq_method = ''GET'', rq_path = ''/'', rq_remote = ''127.0.0.1:4000'', rq_tls = False,
      rq_headers = [(''X-Forwarded-For'', [''10.0.0.1, 127.0.0.1, 203.0.113.7''])],
      rq_pattern = [], rq_id = None, rq_fwd = None, rq_holder = None, rq_deadline = None\<rparr>"

lemma sample_addresses:
  "ParseAddr ''127.0.0.1'' = Some (V4 0x7F000001)" "ParseAddr ''203.0.113.7'' = Some (V4 0xCB007107)"
  by (simp_all add: ParseAddr_def parse_ipv4_def parse_octet_def digits_value_def is_digit_def)

lemma sample_peer: "remoteIP (rq_remote sample_request) = V4 0x7F000001"
proof -
  have "split_host ''127.0.0.1:4000'' = Some ''127.0.0.1''" by (simp add: split_host_def)
  moreover have "trim_space ''127.0.0.1'' = ''127.0.0.1''"
    by (rule trim_space_plain) (simp_all add: is_ascii_def is_space_def)
  ultimately show ?thesis by (simp add: remoteIP_def sample_request_def sample_addresses Unmap_def)
qed

theorem client_address_not_forged_witness:
  "clientIP (resolveForwarded sample_request sample_trusted) = addr_text (V4 0xCB007107)"
proof -
  have "relays [''10.0.0.1, 127.0.0.1''] [] ([] @ [''10.0.0.1, 127.0.0.1''])" by (simp add: relay_none)
  from relay_comma [OF this, of "'' ''" "''203.0.113.7''"]
  have rel: "relays [''10.0.0.1, 127.0.0.1''] (''203.0.113.7'' # []) (header_values (rq_headers sample_request) ''X-Forwarded-For'')"
    by (simp add: sample_request_def header_values_def)
  have out: "\<not> ipInPrefixes (V4 0xCB007107) sample_trusted" and peer: "ipInPrefixes (V4 0x7F000001) sample_trusted"
    by (simp_all add: ipInPrefixes_def sample_trusted_def Contains_def IsValid_def)
  have "plain_token ''203.0.113.7''" by (simp add: plain_token_def is_ascii_def is_space_def)
  with rel out peer have "arrives_from sample_trusted [''10.0.0.1, 127.0.0.1''] (V4 0xCB007107) sample_request"
    unfolding arrives_from_def sample_peer
    by (intro conjI disjI2 exI [of _ "''203.0.113.7''"] exI [of _ "[]"] exI [of _ "V4 0xCB007107"])
      (simp_all add: IsValid_def sample_addresses Unmap_def)
  from client_address_not_forged [OF this] show ?thesis by blast
qed

section \<open>The wrapper is transparent\<close>

text \<open>
  A handler sees the same response through a wrapper as without one, and the wrapper's status and
  size are those of the response, as long as the codes are final: 101, or at least 200.
\<close>

definition final_code :: "int \<Rightarrow> bool" where
  "final_code c \<longleftrightarrow> c = 101 \<or> (200 \<le> c \<and> c \<le> 999)"

definition final_acts :: "act list \<Rightarrow> bool" where
  "final_acts as \<longleftrightarrow> list_all (\<lambda>a. case a of Write_header c \<Rightarrow> final_code c | _ \<Rightarrow> True) as"

definition tracks :: "nat \<Rightarrow> http \<Rightarrow> bool" where
  "tracks i s \<longleftrightarrow>
     i < length (h_wraps s) \<and>
     (let w = h_wraps s ! i; r = h_raw s
      in (wroteHeader w \<longleftrightarrow> rw_sent r \<noteq> None \<or> rw_hijacked r) \<and>
         status w = (case rw_sent r of None \<Rightarrow> 0 | Some (c, _) \<Rightarrow> c) \<and>
         (case rw_sent r of None \<Rightarrow> True | Some (c, _) \<Rightarrow> 0 < c) \<and>
         bytes_written w = int (length (rw_body r)))"

text \<open>The two states a step is compared on: the same but for the wrapper's fields.\<close>

definition rest_of :: "http \<Rightarrow> http" where
  "rest_of s = s\<lparr>h_wraps := []\<rparr>"

lemma rest_of_eq:
  "rest_of s = rest_of u \<longleftrightarrow>
     h_raw s = h_raw u \<and> h_holders s = h_holders u \<and> h_logs s = h_logs u \<and> h_counts s = h_counts u \<and>
     h_durations s = h_durations u \<and> h_inflight s = h_inflight u \<and> h_now s = h_now u \<and> h_random s = h_random u"
  by (cases s; cases u) (auto simp: rest_of_def)

lemma rest_of_raw: "rest_of s = rest_of u \<Longrightarrow> h_raw s = h_raw u"
  by (simp add: rest_of_eq)

lemma rest_of_with_raw: "rest_of s = rest_of u \<Longrightarrow> rest_of (s\<lparr>h_raw := r\<rparr>) = rest_of (u\<lparr>h_raw := r\<rparr>)"
  by (simp add: rest_of_eq)

lemma raw_write_header_final:
  assumes "final_code c"
  shows "raw_write_header c r =
    (if rw_hijacked r \<or> rw_sent r \<noteq> None then r else r\<lparr>rw_sent := Some (c, rw_header r)\<rparr>, Returned)"
  using assms by (auto simp: raw_write_header_def final_code_def)

lemma final_200 [simp]: "final_code 200" "final_code 500"
  by (simp_all add: final_code_def)

lemma tracks_on_wrap:
  assumes "tracks i s"
  shows "tracks i (s\<lparr>h_raw := r, h_wraps := (h_wraps s)[i := w]\<rparr>) \<longleftrightarrow>
    (wroteHeader w \<longleftrightarrow> rw_sent r \<noteq> None \<or> rw_hijacked r) \<and>
    status w = (case rw_sent r of None \<Rightarrow> 0 | Some (c, _) \<Rightarrow> c) \<and> (case rw_sent r of None \<Rightarrow> True | Some (c, _) \<Rightarrow> 0 < c) \<and>
    bytes_written w = int (length (rw_body r))"
  using assms by (simp add: tracks_def Let_def)

lemma WriteHeader_tracked:
  assumes t: "tracks i s" and c: "final_code c"
  shows "\<exists>s'. WriteHeader (Wrap i Raw) c s = (s', Returned) \<and> tracks i s' \<and>
    rest_of s' = rest_of (s\<lparr>h_raw := fst (raw_write_header c (h_raw s))\<rparr>)"
proof (cases "wroteHeader (h_wraps s ! i)")
  case True
  with t have "raw_write_header c (h_raw s) = (h_raw s, Returned)"
    by (auto simp: raw_write_header_def tracks_def Let_def)
  with True t show ?thesis by simp
next
  case False
  with t have no: "rw_sent (h_raw s) = None" "\<not> rw_hijacked (h_raw s)"
    by (cases "rw_sent (h_raw s)"; simp add: tracks_def Let_def)+
  let ?w = "(h_wraps s ! i)\<lparr>status := c, wroteHeader := True\<rparr>"
  let ?r = "(h_raw s)\<lparr>rw_sent := Some (c, rw_header (h_raw s))\<rparr>"
  have "WriteHeader (Wrap i Raw) c s = (s\<lparr>h_raw := ?r, h_wraps := (h_wraps s)[i := ?w]\<rparr>, Returned)"
    using False no by (simp add: on_wrap_def raw_write_header_final [OF c])
  moreover have "tracks i (s\<lparr>h_raw := ?r, h_wraps := (h_wraps s)[i := ?w]\<rparr>)"
    using t c unfolding tracks_on_wrap [OF t] by (auto simp: tracks_def Let_def final_code_def)
  ultimately show ?thesis using no by (simp add: rest_of_def raw_write_header_final [OF c])
qed

lemma implicit_200_tracked:
  assumes "tracks i s"
  shows "tracks i (implicit_200 (Wrap i Raw) s)"
    and "rest_of (implicit_200 (Wrap i Raw) s) = rest_of (s\<lparr>h_raw := fst (raw_write_header 200 (h_raw s))\<rparr>)"
proof -
  obtain s' where s': "WriteHeader (Wrap i Raw) 200 s = (s', Returned)" "tracks i s'"
    "rest_of s' = rest_of (s\<lparr>h_raw := fst (raw_write_header 200 (h_raw s))\<rparr>)"
    using WriteHeader_tracked [OF assms, of 200] by auto
  have wrote: "implicit_200 (Wrap i Raw) s = s \<and> fst (raw_write_header 200 (h_raw s)) = h_raw s"
    if "wroteHeader (h_wraps s ! i)"
    using that assms by (auto simp: implicit_200_def raw_write_header_def tracks_def Let_def)
  have fresh: "implicit_200 (Wrap i Raw) s = s'" if "\<not> wroteHeader (h_wraps s ! i)"
    using that s'(1) by (simp add: implicit_200_def)
  show "tracks i (implicit_200 (Wrap i Raw) s)"
    using wrote fresh s'(2) assms by (cases "wroteHeader (h_wraps s ! i)") auto
  show "rest_of (implicit_200 (Wrap i Raw) s) = rest_of (s\<lparr>h_raw := fst (raw_write_header 200 (h_raw s))\<rparr>)"
    using wrote fresh s'(3) by (cases "wroteHeader (h_wraps s ! i)") auto
qed

lemma raw_after_200:
  "fst (raw_write_header 200 (fst (raw_write_header 200 r))) = fst (raw_write_header 200 r)"
  by (simp add: raw_write_header_def)

lemma raw_write_after_200: "raw_write b (fst (raw_write_header 200 r)) = raw_write b r"
  by (cases "rw_hijacked r") (simp_all add: raw_write_def raw_write_header_def)

lemma raw_write_keeps:
  assumes "raw_write b r = (r', n)"
  shows "rw_hijacked r' = rw_hijacked r" and "rw_sent r' = rw_sent (if rw_hijacked r then r else fst (raw_write_header 200 r))"
    and "length (rw_body r') = length (rw_body r) + n"
  using assms by (auto simp: raw_write_def raw_write_header_def Let_def split: if_splits list.splits)

lemma Write_tracked:
  assumes t: "tracks i s"
  shows "\<exists>s'. Write (Wrap i Raw) b s = (s', snd (raw_write b (h_raw s))) \<and> tracks i s' \<and>
    rest_of s' = rest_of (s\<lparr>h_raw := fst (raw_write b (h_raw s))\<rparr>)"
proof -
  let ?u = "implicit_200 (Wrap i Raw) s"
  note u = implicit_200_tracked [OF t]
  have hu: "h_raw ?u = fst (raw_write_header 200 (h_raw s))" using arg_cong [OF u(2), of h_raw] by (simp add: rest_of_def)
  obtain r n where rn: "raw_write b (h_raw s) = (r, n)" by (cases "raw_write b (h_raw s)")
  then have rn': "raw_write b (h_raw ?u) = (r, n)" unfolding hu raw_write_after_200 .
  let ?w = "(h_wraps ?u ! i)\<lparr>bytes_written := bytes_written (h_wraps ?u ! i) + int n\<rparr>"
  have w: "Write (Wrap i Raw) b s = (?u\<lparr>h_raw := r, h_wraps := (h_wraps ?u)[i := ?w]\<rparr>, n)"
    using rn' by (simp add: on_wrap_def)
  have "tracks i (?u\<lparr>h_raw := r, h_wraps := (h_wraps ?u)[i := ?w]\<rparr>)"
    using u(1) raw_write_keeps [OF rn'] unfolding tracks_on_wrap [OF u(1)]
    by (auto simp: tracks_def Let_def hu raw_write_header_def split: if_splits)
  moreover have "rest_of (?u\<lparr>h_raw := r, h_wraps := (h_wraps ?u)[i := ?w]\<rparr>) = rest_of (s\<lparr>h_raw := r\<rparr>)"
    using u(2) by (simp add: rest_of_eq)
  ultimately show ?thesis using w rn by simp
qed

lemma Flush_tracked:
  assumes t: "tracks i s"
  shows "tracks i (Flush (Wrap i Raw) s)" and "rest_of (Flush (Wrap i Raw) s) = rest_of (if is_flusher Raw s then Flush Raw s else s)"
proof -
  let ?u = "implicit_200 (Wrap i Raw) s"
  note u = implicit_200_tracked [OF t]
  have hu: "h_raw ?u = fst (raw_write_header 200 (h_raw s))"
    using arg_cong [OF u(2), of h_raw] by (simp add: rest_of_def)
  have hj: "rw_hijacked (h_raw ?u) = rw_hijacked (h_raw s)" unfolding hu by (simp add: raw_write_header_def)
  have fl: "Flush Raw ?u = ?u"
    unfolding Flush.simps hu raw_after_200 by (simp add: hu [symmetric])
  have raw: "fst (raw_write_header 200 (h_raw s)) = h_raw s" if "rw_hijacked (h_raw s)"
    using that by (simp add: raw_write_header_def)
  show "tracks i (Flush (Wrap i Raw) s)" using t u(1) fl by simp
  show "rest_of (Flush (Wrap i Raw) s) = rest_of (if is_flusher Raw s then Flush Raw s else s)"
    using u(2) fl raw by (auto simp: rest_of_def)
qed

lemma Hijack_tracked:
  assumes t: "tracks i s"
  shows "tracks i (fst (Hijack (Wrap i Raw) s))" and "rest_of (fst (Hijack (Wrap i Raw) s)) = rest_of (fst (Hijack Raw s))"
proof -
  have "tracks i (s\<lparr>h_raw := (h_raw s)\<lparr>rw_hijacked := True\<rparr>,
      h_wraps := (h_wraps s)[i := (h_wraps s ! i)\<lparr>wroteHeader := True\<rparr>]\<rparr>)"
    using t unfolding tracks_on_wrap [OF t] by (simp add: tracks_def Let_def)
  then show "tracks i (fst (Hijack (Wrap i Raw) s))" using t by (simp add: on_wrap_def)
  show "rest_of (fst (Hijack (Wrap i Raw) s)) = rest_of (fst (Hijack Raw s))"
    by (simp add: on_wrap_def rest_of_def)
qed

lemma set_header_tracked:
  assumes "tracks i s" and "rest_of s = rest_of u"
  shows "tracks i (set_header k v s)" and "rest_of (set_header k v s) = rest_of (set_header k v u)"
  using assms rest_of_with_raw [OF assms(2)] rest_of_raw [OF assms(2)]
  by (simp_all add: tracks_def Let_def set_header_def)

lemma act_tracked:
  assumes t: "tracks i s" and r: "rest_of s = rest_of u" and c: "final_acts [a]"
  shows "\<exists>s' u'. do_act (Wrap i Raw) a s = (s', Returned) \<and> do_act Raw a u = (u', Returned) \<and>
    tracks i s' \<and> rest_of s' = rest_of u'"
proof (cases a)
  case (Set_header k v)
  with set_header_tracked [OF t r] show ?thesis by simp
next
  case (Write_header code)
  with c have f: "final_code code" by (simp add: final_acts_def)
  obtain s' where s': "WriteHeader (Wrap i Raw) code s = (s', Returned)" "tracks i s'"
    "rest_of s' = rest_of (s\<lparr>h_raw := fst (raw_write_header code (h_raw s))\<rparr>)"
    using WriteHeader_tracked [OF t f] by blast
  have "WriteHeader Raw code u = (u\<lparr>h_raw := fst (raw_write_header code (h_raw s))\<rparr>, Returned)"
    unfolding WriteHeader.simps rest_of_raw [OF r] raw_write_header_final [OF f] by simp
  with s' rest_of_with_raw [OF r] Write_header show ?thesis
    by (intro exI [of _ s'] exI [of _ "u\<lparr>h_raw := fst (raw_write_header code (h_raw s))\<rparr>"]) simp
next
  case (Write_body b)
  obtain s' where s': "Write (Wrap i Raw) b s = (s', snd (raw_write b (h_raw s)))" "tracks i s'"
    "rest_of s' = rest_of (s\<lparr>h_raw := fst (raw_write b (h_raw s))\<rparr>)"
    using Write_tracked [OF t] by blast
  have "fst (Write Raw b u) = u\<lparr>h_raw := fst (raw_write b (h_raw s))\<rparr>"
    unfolding Write.simps rest_of_raw [OF r] by (simp split: prod.splits)
  with s' rest_of_with_raw [OF r] Write_body show ?thesis
    by (intro exI [of _ s'] exI [of _ "u\<lparr>h_raw := fst (raw_write b (h_raw s))\<rparr>"]) (simp del: Write.simps)
next
  case Do_flush
  have "rest_of (if is_flusher Raw s then Flush Raw s else s) = rest_of (if is_flusher Raw u then Flush Raw u else u)"
    using rest_of_with_raw [OF r] rest_of_raw [OF r] r by simp
  with Flush_tracked [OF t] Do_flush show ?thesis by (simp del: Flush.simps is_flusher.simps(1))
next
  case Do_hijack
  have "rest_of (fst (Hijack Raw s)) = rest_of (fst (Hijack Raw u))"
    using rest_of_with_raw [OF r] rest_of_raw [OF r] r by simp
  with Hijack_tracked [OF t] Do_hijack show ?thesis by (simp del: Hijack.simps)
qed

lemma acts_tracked:
  assumes "tracks i s" and "rest_of s = rest_of u" and "final_acts as"
  shows "\<exists>s' u'. do_acts (Wrap i Raw) as s = (s', Returned) \<and> do_acts Raw as u = (u', Returned) \<and>
    tracks i s' \<and> rest_of s' = rest_of u'"
  using assms
proof (induction as arbitrary: s u)
  case Nil
  then show ?case by simp
next
  case (Cons a as)
  then have "final_acts [a]" "final_acts as" by (simp_all add: final_acts_def)
  then obtain s1 u1 where 1: "do_act (Wrap i Raw) a s = (s1, Returned)" "do_act Raw a u = (u1, Returned)"
    "tracks i s1" "rest_of s1 = rest_of u1"
    using act_tracked [OF Cons.prems(1,2)] by blast
  from Cons.IH [OF 1(3,4) \<open>final_acts as\<close>] show ?case by (simp add: 1(1,2) del: do_act.simps)
qed

definition unanswered :: "http \<Rightarrow> bool" where
  "unanswered s \<longleftrightarrow> rw_sent (h_raw s) = None \<and> \<not> rw_hijacked (h_raw s) \<and> rw_body (h_raw s) = []"

lemma new_wrapper_tracks:
  assumes "unanswered s" and "new_wrapper w s = (s', rw)"
  shows "tracks (length (h_wraps s)) s'" and "rw = Wrap (length (h_wraps s)) w" and "rest_of s' = rest_of s"
  using assms by (auto simp: new_wrapper_def tracks_def unanswered_def rest_of_def)

text \<open>C29: a handler that answers with final status codes does to the response through the wrapper
  exactly what it would do to the server's own writer, and the wrapper's status and size, which
  the log and the metrics report, are those of the response.\<close>

theorem wrapper_transparent:
  assumes "unanswered s" and "final_acts as" and "new_wrapper Raw s = (s0, rw)"
  shows "case (do_acts rw as s0, do_acts Raw as s) of ((s', out), (u, out')) \<Rightarrow>
    out = Returned \<and> out' = Returned \<and> h_raw s' = h_raw u \<and>
    status (wrapper rw s') = (case rw_sent (h_raw u) of None \<Rightarrow> 0 | Some (c, _) \<Rightarrow> c) \<and>
    bytes_written (wrapper rw s') = int (length (rw_body (h_raw u)))"
proof -
  note n = new_wrapper_tracks [OF assms(1,3)]
  obtain s' u where "do_acts rw as s0 = (s', Returned)" "do_acts Raw as s = (u, Returned)"
    "tracks (length (h_wraps s)) s'" "rest_of s' = rest_of u"
    using acts_tracked [OF n(1,3) assms(2)] unfolding n(2) by blast
  then show ?thesis using rest_of_raw [of s' u] by (simp add: wrapper_def n(2) tracks_def Let_def)
qed

definition blank_http :: http where
  "blank_http =
     \<lparr>h_raw = \<lparr>rw_header = [], rw_sent = None, rw_infos = [], rw_body = [], rw_hijacked = False, rw_flusher = True,
        rw_hijacker = False, rw_accepts = []\<rparr>,
      h_wraps = [], h_holders = [], h_logs = [], h_counts = [], h_durations = [], h_inflight = 0, h_now = 0, h_random = []\<rparr>"

lemma blank_unanswered: "unanswered blank_http"
  by (simp add: unanswered_def blank_http_def)

theorem wrapper_transparent_witness:
  "status (wrapper (Wrap 0 Raw) (fst (do_acts (Wrap 0 Raw) [Write_header 404, Write_body [1, 2]] (fst (new_wrapper Raw blank_http))))) = 404"
proof -
  have "new_wrapper Raw blank_http = (fst (new_wrapper Raw blank_http), Wrap 0 Raw)"
    by (simp add: new_wrapper_def blank_http_def)
  note w = wrapper_transparent [OF blank_unanswered _ this, of "[Write_header 404, Write_body [1, 2]]"]
  have "rw_sent (h_raw (fst (do_acts Raw [Write_header 404, Write_body [1, 2]] blank_http))) = Some (404, [])"
    by (simp add: blank_http_def raw_write_header_def raw_write_def body_allowed_def)
  then show ?thesis using w by (auto simp: final_acts_def final_code_def split: prod.splits)
qed

text \<open>
  With an informational code it is otherwise. The wrapper takes it for the final one and drops
  the status that follows, so the server, which would have sent that status, sends 200.
\<close>

theorem informational_status_hides_final:
  assumes "unanswered s" and "new_wrapper Raw s = (s0, rw)"
    and "100 \<le> i" and "i \<le> 199" and "i \<noteq> 101" and "final_code c"
  shows "rw_sent (h_raw (fst (do_acts Raw [Write_header i, Write_header c] s))) = Some (c, rw_header (h_raw s))"
    and "fst (the (rw_sent (h_raw (finish (fst (do_acts rw [Write_header i, Write_header c] s0)))))) = 200"
proof -
  have u: "rw_sent (h_raw s) = None" "\<not> rw_hijacked (h_raw s)" using assms(1) by (simp_all add: unanswered_def)
  have s0: "s0 = s\<lparr>h_wraps := h_wraps s @ [\<lparr>status = 0, bytes_written = 0, wroteHeader = False\<rparr>]\<rparr>"
    "rw = Wrap (length (h_wraps s)) Raw"
    using assms(2) by (auto simp: new_wrapper_def)
  have info: "raw_write_header i r = (r\<lparr>rw_infos := rw_infos r @ [(i, rw_header r)]\<rparr>, Returned)"
    if "rw_sent r = None" "\<not> rw_hijacked r" for r
    using that assms(3-5) by (simp add: raw_write_header_def)
  show "rw_sent (h_raw (fst (do_acts Raw [Write_header i, Write_header c] s))) = Some (c, rw_header (h_raw s))"
    using u by (simp add: info raw_write_header_final [OF assms(6)])
  show "fst (the (rw_sent (h_raw (finish (fst (do_acts rw [Write_header i, Write_header c] s0)))))) = 200"
    using u by (simp add: s0 on_wrap_def info finish_def raw_write_header_final [OF final_200(1)])
qed

text \<open>
  Nor does a panic over an invalid status become a 500: the wrapper has marked itself before the
  server panics, so the recoverer takes the response for started and writes nothing, and the
  server ends the request with an empty 200.
\<close>

theorem invalid_status_answers_200:
  assumes "unanswered s" and "new_wrapper Raw s = (s0, rw)"
    and "sc_acts (f r s0) = [Write_header c]" and "c < 100 \<or> c > 999"
  shows "case Recoverer (scripted f) r rw s0 of (s', pat, out) \<Rightarrow>
    out = Returned \<and> rw_sent (h_raw s') = None \<and> fst (the (rw_sent (h_raw (finish s')))) = 200"
proof -
  have u: "rw_sent (h_raw s) = None" "\<not> rw_hijacked (h_raw s)" using assms(1) by (simp_all add: unanswered_def)
  have s0: "s0 = s\<lparr>h_wraps := h_wraps s @ [\<lparr>status = 0, bytes_written = 0, wroteHeader = False\<rparr>]\<rparr>"
    "rw = Wrap (length (h_wraps s)) Raw"
    using assms(2) by (auto simp: new_wrapper_def)
  let ?t = "on_wrap (length (h_wraps s)) (\<lambda>w. w\<lparr>status := c, wroteHeader := True\<rparr>) s0"
  have bad: "raw_write_header c (h_raw s) = (h_raw s, Panicked (Bad_status c))"
    using u assms(4) by (simp add: raw_write_header_def)
  have acts: "do_acts rw [Write_header c] s0 = (?t, Panicked (Bad_status c))"
    using bad by (simp add: s0 on_wrap_def)
  then have "scripted f r rw s0 = (?t, sc_pattern (f r s0), Panicked (Bad_status c))"
    unfolding scripted_def Let_def assms(3) using acts by simp
  then have "Recoverer (scripted f) r rw s0 =
      (?t\<lparr>h_logs := h_logs s @ [Panic_recovered (Bad_status c) (RequestIDFromContext r)]\<rparr>, sc_pattern (f r s0), Returned)"
    by (simp add: Recoverer_def reuse_wrapper_def s0 recoverAndRespond_def wrapper_def on_wrap_def)
  then show ?thesis using u by (simp add: s0 on_wrap_def finish_def raw_write_header_final [OF final_200(1)])
qed

section \<open>What a handler does for its middleware\<close>

text \<open>
  A handler conducts itself when, given a wrapper that tracks the response, it leaves it so and
  leaves the log and the collectors alone.
\<close>

definition books :: "http \<Rightarrow> log_line list \<times> (string \<times> string \<times> string) list \<times> int" where
  "books s = (h_logs s, h_counts s, h_inflight s)"

definition conducts :: "handler \<Rightarrow> bool" where
  "conducts h \<longleftrightarrow> (\<forall>r i s. tracks i s \<longrightarrow>
     (case h r (Wrap i Raw) s of (s', _, _) \<Rightarrow> tracks i s' \<and> books s' = books s))"

lemma conductsI:
  assumes "\<And>r i s s' pat out. tracks i s \<Longrightarrow> h r (Wrap i Raw) s = (s', pat, out) \<Longrightarrow> tracks i s' \<and> books s' = books s"
  shows "conducts h"
  unfolding conducts_def by (clarsimp split: prod.split) (use assms in blast)

lemma conductsD:
  "conducts h \<Longrightarrow> tracks i s \<Longrightarrow> h r (Wrap i Raw) s = (s', pat, out) \<Longrightarrow> tracks i s'"
  "conducts h \<Longrightarrow> tracks i s \<Longrightarrow> h r (Wrap i Raw) s = (s', pat, out) \<Longrightarrow> books s' = books s"
  unfolding conducts_def by (metis (mono_tags, lifting) case_prod_conv)+

lemma tracks_frame [simp]:
  "tracks i (s\<lparr>h_holders := hs\<rparr>) = tracks i s" "tracks i (s\<lparr>h_logs := ls\<rparr>) = tracks i s"
  "tracks i (s\<lparr>h_inflight := n\<rparr>) = tracks i s"
  by (simp_all add: tracks_def)

lemma books_rest: "rest_of s = rest_of u \<Longrightarrow> books s = books u"
  by (simp add: rest_of_eq books_def)

lemma do_acts_raw_books: "books (fst (do_acts Raw as s)) = books s"
proof (induction as arbitrary: s)
  case Nil
  then show ?case by simp
next
  case (Cons a as)
  have "books (fst (do_act Raw a s)) = books s"
    by (cases a) (simp_all add: books_def set_header_def split: prod.splits)
  moreover obtain s1 out where "do_act Raw a s = (s1, out)" by (cases "do_act Raw a s")
  ultimately show ?case
    using Cons.IH [of s1] by (cases out) (simp_all del: do_act.simps)
qed

lemma scripted_conducts:
  assumes "\<And>r s. final_acts (sc_acts (f r s))"
  shows "conducts (scripted f)"
proof (rule conductsI)
  fix r i s s' pat out
  assume t: "tracks i s" and h: "scripted f r (Wrap i Raw) s = (s', pat, out)"
  obtain s1 u1 where 1: "do_acts (Wrap i Raw) (sc_acts (f r s)) s = (s1, Returned)"
    "do_acts Raw (sc_acts (f r s)) s = (u1, Returned)" "tracks i s1" "rest_of s1 = rest_of u1"
    using acts_tracked [OF t refl assms [of r s]] by blast
  have "books u1 = books s" using do_acts_raw_books [of "sc_acts (f r s)" s] 1(2) by simp
  then show "tracks i s' \<and> books s' = books s"
    using h 1(1,3) books_rest [OF 1(4)] by (auto simp: scripted_def Let_def)
qed

lemma Timeout_conducts: "conducts h \<Longrightarrow> conducts (Timeout d h)"
  by (rule conductsI) (auto simp: Timeout_def Let_def dest: conductsD split: prod.splits)

lemma CaptureRoutePattern_conducts: "conducts h \<Longrightarrow> conducts (CaptureRoutePattern h)"
proof (rule conductsI)
  fix r i s s' pat out
  assume c: "conducts h" and t: "tracks i s" and e: "CaptureRoutePattern h r (Wrap i Raw) s = (s', pat, out)"
  obtain s1 pat1 out1 where h: "h r (Wrap i Raw) s = (s1, pat1, out1)" by (cases "h r (Wrap i Raw) s")
  have "tracks i s1" "books s1 = books s" using conductsD [OF c t h] by simp_all
  then show "tracks i s' \<and> books s' = books s"
    using e h by (auto simp: CaptureRoutePattern_def books_def split: option.splits)
qed

end
