(* ===== verification/Go_Duration.thy ===== *)
theory Go_Duration
  imports Go_Fmt
begin

text \<open>
  What the configuration uses of Go's \<open>strconv\<close> and \<open>time\<close>: \<open>ParseInt\<close>, \<open>ParseBool\<close> and
  \<open>ParseDuration\<close>.
\<close>

definition parse_int :: "nat \<Rightarrow> string \<Rightarrow> int option" where
  "parse_int bits s =
     (case take_sign (map byte_at s) of
        (sign, ds) \<Rightarrow>
          if ds = [] \<or> \<not> list_all is_digit ds then None
          else let v = sign * int (digits_value ds)
               in if - (2 ^ (bits - 1)) \<le> v \<and> v < 2 ^ (bits - 1) then Some v else None)"

definition parse_bool :: "string \<Rightarrow> bool option" where
  "parse_bool s =
     (if s \<in> set [''1'', ''t'', ''T'', ''true'', ''TRUE'', ''True''] then Some True
      else if s \<in> set [''0'', ''f'', ''F'', ''false'', ''FALSE'', ''False''] then Some False
      else None)"

text \<open>The units in nanoseconds; the micro sign is U+00B5 or U+03BC.\<close>

definition unit_ns :: "string \<Rightarrow> nat option" where
  "unit_ns = map_of
     [(''ns'', 1), (''us'', 1000), ([CHR 0xC2, CHR 0xB5, CHR ''s''], 1000), ([CHR 0xCE, CHR 0xBC, CHR ''s''], 1000),
      (''ms'', 1000000), (''s'', 1000000000), (''m'', 60000000000), (''h'', 3600000000000)]"

abbreviation digit :: "char \<Rightarrow> bool" where
  "digit c \<equiv> is_digit (byte_at c)"

definition number_of :: "string \<Rightarrow> nat" where
  "number_of ds = digits_value (map byte_at ds)"

text \<open>
  One number and unit after another, added up in a \<open>uint64\<close>. A fraction is computed exactly and
  rounded down, where Go computes it in a \<open>float64\<close>.
\<close>

function duration_loop :: "string \<Rightarrow> nat \<Rightarrow> nat option" where
  "duration_loop s d =
     (if s = [] then Some d
      else
        let whole = takeWhile digit s; s1 = dropWhile digit s;
            point = (s1 \<noteq> [] \<and> hd s1 = CHR ''.'');
            frac = (if point then takeWhile digit (tl s1) else []);
            s2 = (if point then dropWhile digit (tl s1) else s1);
            name = takeWhile (\<lambda>c. c \<noteq> CHR ''.'' \<and> \<not> digit c) s2;
            s3 = dropWhile (\<lambda>c. c \<noteq> CHR ''.'' \<and> \<not> digit c) s2
        in if 2 ^ 63 < number_of whole \<or> (whole = [] \<and> frac = []) \<or> name = [] then None
           else case unit_ns name of None \<Rightarrow> None
                | Some unit \<Rightarrow>
                    if 2 ^ 63 div unit < number_of whole then None
                    else
                      let v = number_of whole * unit + number_of frac * unit div 10 ^ length frac;
                          e = (d + v) mod 2 ^ 64
                      in if 2 ^ 63 < v \<or> 2 ^ 63 < e then None else duration_loop s3 e)"
  by pat_completeness auto

termination
proof (relation "measure (length \<circ> fst)", goal_cases)
  case 1
  show ?case by simp
next
  case (2 s d whole s1 point frac s2 name s3)
  have "length s1 \<le> length s" using 2 by (simp add: length_dropWhile_le)
  moreover have "length s2 \<le> length s1"
    using 2 length_dropWhile_le [of digit "tl s1"] by (cases s1) (auto simp: le_SucI)
  moreover have "length name + length s3 = length s2"
    unfolding 2(7,8) by (metis length_append takeWhile_dropWhile_id)
  moreover have "name \<noteq> []" using 2 by blast
  ultimately show ?case by (cases name) auto
qed

declare duration_loop.simps [simp del]

definition parse_duration :: "string \<Rightarrow> duration option" where
  "parse_duration text =
     (let neg = (text \<noteq> [] \<and> hd text = CHR ''-'');
          s = (if text \<noteq> [] \<and> (hd text = CHR ''-'' \<or> hd text = CHR ''+'') then tl text else text)
      in if s = ''0'' then Some 0
         else if s = [] then None
         else case duration_loop s 0 of
                None \<Rightarrow> None
              | Some d \<Rightarrow> if neg then Some (- int d) else if d > 2 ^ 63 - 1 then None else Some (int d))"

text \<open>\<open>strings.TrimRight\<close> of one character and \<open>strings.TrimPrefix\<close>.\<close>

definition trim_right :: "char \<Rightarrow> string \<Rightarrow> string" where
  "trim_right c s = rev (dropWhile (\<lambda>x. x = c) (rev s))"

definition trim_prefix :: "string \<Rightarrow> string \<Rightarrow> string" where
  "trim_prefix p s = (if take (length p) s = p then drop (length p) s else s)"

end
