(* ===== verification/Config.thy ===== *)
theory Config
  imports Go_Duration Go_Netip
begin

text \<open>
  Configuration from the environment, \<open>config\<close>: one loader and one validator per sub-config. The
  environment is an argument of the loaders; an error is the variable it names and what is wrong.
  Of \<open>net/url\<close> the validator of \<open>PUBLIC_BASE_URL\<close> sees the parts of a parsed URL.
\<close>

section \<open>The environment, \<open>env.go\<close>\<close>

type_synonym env = "(string \<times> string) list"

datatype config_error =
    Not_an_integer string | Not_a_duration string | Not_a_boolean string
  | Required string | Not_positive string | Negative string
  | Not_one_of string
  | Too_short string | Too_long string
  | Default_value string
  | Unpaired string string
  | Same_value string string
  | Bad_identifier string
  | Bad_cidrs "string list"
  | Bad_url string | Not_an_origin string
  | Preload_needs_year | Preload_needs_subdomains
  | Not_hex string | Bad_key_length string nat
  | Dotenv_stat | Dotenv_malformed

definition LookupEnv :: "string \<Rightarrow> env \<Rightarrow> string option" where
  "LookupEnv k e = map_of e k"

definition Getenv :: "string \<Rightarrow> env \<Rightarrow> string" where
  "Getenv k e = (case LookupEnv k e of None \<Rightarrow> [] | Some v \<Rightarrow> v)"

definition String_env :: "string \<Rightarrow> string \<Rightarrow> env \<Rightarrow> string" where
  "String_env k fallback e = (case LookupEnv k e of Some v \<Rightarrow> if v \<noteq> [] then v else fallback | None \<Rightarrow> fallback)"

text \<open>A parsed variable: the fallback when unset or empty, and with an error when malformed.\<close>

definition parsed :: "(string \<Rightarrow> 'a option) \<Rightarrow> (string \<Rightarrow> config_error) \<Rightarrow> string \<Rightarrow> 'a \<Rightarrow> env \<Rightarrow> 'a \<times> config_error list" where
  "parsed parse err k fallback e =
     (case LookupEnv k e of None \<Rightarrow> (fallback, [])
      | Some v \<Rightarrow> if v = [] then (fallback, [])
                  else case parse v of None \<Rightarrow> (fallback, [err k]) | Some x \<Rightarrow> (x, []))"

definition Int32 :: "string \<Rightarrow> int \<Rightarrow> env \<Rightarrow> int \<times> config_error list" where
  "Int32 = parsed (parse_int 32) Not_an_integer"

definition Int64 :: "string \<Rightarrow> int \<Rightarrow> env \<Rightarrow> int \<times> config_error list" where
  "Int64 = parsed (parse_int 64) Not_an_integer"

definition Duration :: "string \<Rightarrow> duration \<Rightarrow> env \<Rightarrow> duration \<times> config_error list" where
  "Duration = parsed parse_duration Not_a_duration"

definition Bool_env :: "string \<Rightarrow> bool \<Rightarrow> env \<Rightarrow> bool \<times> config_error list" where
  "Bool_env = parsed parse_bool Not_a_boolean"

definition trimmed :: "string \<Rightarrow> env \<Rightarrow> string" where
  "trimmed k e = trim_space (Getenv k e)"

definition problem :: "bool \<Rightarrow> config_error \<Rightarrow> config_error list" where
  "problem b x = (if b then [x] else [])"

lemma problem_simps [simp]: "problem True x = [x]" "problem False x = []" "problem b x = [] \<longleftrightarrow> \<not> b"
  by (simp_all add: problem_def)

definition validateCredentialPair :: "string \<Rightarrow> string \<Rightarrow> string \<Rightarrow> string \<Rightarrow> config_error list" where
  "validateCredentialPair idKey i secretKey secret = problem ((i = []) \<noteq> (secret = [])) (Unpaired idKey secretKey)"

section \<open>The deployment environment, \<open>config.go\<close>\<close>

definition EnvDev :: string where "EnvDev = ''dev''"
definition EnvTest :: string where "EnvTest = ''test''"
definition EnvProd :: string where "EnvProd = ''prod''"

definition AppEnv :: "env \<Rightarrow> string" where
  "AppEnv e = String_env ''APP_ENV'' EnvDev e"

definition ValidateAppEnv :: "string \<Rightarrow> config_error list" where
  "ValidateAppEnv v = problem (v \<notin> {EnvDev, EnvTest, EnvProd}) (Not_one_of ''APP_ENV'')"

text \<open>\<open>os.Stat\<close> of the file, and the file as \<open>godotenv\<close> (third-party) reads it: variables, or not at all.
  Loading never overwrites a variable that is set.\<close>

datatype dotenv = No_dotenv | Dotenv_unreadable | Dotenv_file "env option"

definition LoadDotenv :: "dotenv \<Rightarrow> env \<Rightarrow> env \<times> config_error list" where
  "LoadDotenv file e =
     (case file of
        No_dotenv \<Rightarrow> (e, [])
      | Dotenv_unreadable \<Rightarrow> (e, [Dotenv_stat])
      | Dotenv_file None \<Rightarrow> (e, [Dotenv_malformed])
      | Dotenv_file (Some vars) \<Rightarrow> (e @ vars, []))"

section \<open>The listener, \<open>server.go\<close>\<close>

record server_config =
  Addr :: string
  TrustedProxies :: string
  RequestTimeout :: duration
  PublicBaseURL :: string

definition defaultTrustedProxies :: string where "defaultTrustedProxies = ''127.0.0.0/8,::1/128''"
definition defaultServerRequestTimeout :: duration where "defaultServerRequestTimeout = 120 * second"
definition minServerRequestTimeout :: duration where "minServerRequestTimeout = 15 * second"

text \<open>The fields of the list that are not blank, each with its prefix if it has one.\<close>

definition proxy_fields :: "string \<Rightarrow> string list" where
  "proxy_fields raw = filter (\<lambda>f. f \<noteq> []) (map trim_space (split_on CHR '','' raw))"

definition parseTrustedProxies :: "string \<Rightarrow> prefix list \<times> config_error list" where
  "parseTrustedProxies raw =
     (let bad = filter (\<lambda>f. ParsePrefix f = None) (proxy_fields raw)
      in if bad \<noteq> [] then ([], [Bad_cidrs bad])
         else (map (\<lambda>f. Masked (the (ParsePrefix f))) (proxy_fields raw), []))"

definition TrustedProxyPrefixes :: "server_config \<Rightarrow> prefix list" where
  "TrustedProxyPrefixes s = fst (parseTrustedProxies (TrustedProxies s))"

definition serverAddr :: "env \<Rightarrow> string" where
  "serverAddr e = '':'' @ trim_prefix '':'' (String_env ''PORT'' ''8080'' e)"

definition ServerAddrFromEnv :: "env \<Rightarrow> string" where
  "ServerAddrFromEnv e = serverAddr e"

definition LoadServer :: "env \<Rightarrow> server_config \<times> config_error list" where
  "LoadServer e =
     (case Duration ''SERVER_REQUEST_TIMEOUT'' defaultServerRequestTimeout e of
        (timeout, errs) \<Rightarrow>
          (\<lparr>Addr = serverAddr e,
            TrustedProxies = (case LookupEnv ''TRUSTED_PROXIES'' e of None \<Rightarrow> defaultTrustedProxies | Some v \<Rightarrow> v),
            RequestTimeout = timeout,
            PublicBaseURL = trim_right CHR ''/'' (trimmed ''PUBLIC_BASE_URL'' e)\<rparr>, errs))"

record url =
  u_scheme :: string
  u_user :: bool
  u_host :: string
  u_path :: string
  u_query :: string
  u_fragment :: string

definition validate_base_url :: "(string \<Rightarrow> url option) \<Rightarrow> string \<Rightarrow> config_error list" where
  "validate_base_url url_parse v =
     (if v = [] then []
      else case url_parse v of
             None \<Rightarrow> [Bad_url ''PUBLIC_BASE_URL'']
           | Some u \<Rightarrow>
               if (u_scheme u \<noteq> ''http'' \<and> u_scheme u \<noteq> ''https'') \<or> u_host u = [] then [Bad_url ''PUBLIC_BASE_URL'']
               else if u_user u \<or> u_path u \<noteq> [] \<or> u_query u \<noteq> [] \<or> u_fragment u \<noteq> []
                    then [Not_an_origin ''PUBLIC_BASE_URL''] else [])"

definition Validate_server :: "(string \<Rightarrow> url option) \<Rightarrow> server_config \<Rightarrow> config_error list" where
  "Validate_server url_parse s =
     problem (RequestTimeout s < minServerRequestTimeout) (Too_short ''SERVER_REQUEST_TIMEOUT'') @
     snd (parseTrustedProxies (TrustedProxies s)) @
     validate_base_url url_parse (PublicBaseURL s)"

section \<open>HSTS, \<open>hsts.go\<close>\<close>

record hsts_config =
  hsts_enabled :: bool
  MaxAge :: duration
  MaxAgeSet :: bool
  IncludeSubdomains :: bool
  Preload :: bool

definition DefaultHSTSMaxAge :: duration where "DefaultHSTSMaxAge = 180 * 24 * hour"
definition hstsPreloadMinMaxAge :: duration where "hstsPreloadMinMaxAge = 365 * 24 * hour"

definition EffectiveMaxAge :: "hsts_config \<Rightarrow> duration" where
  "EffectiveMaxAge h = (if \<not> MaxAgeSet h then DefaultHSTSMaxAge else MaxAge h)"

definition LoadHSTS :: "env \<Rightarrow> hsts_config \<times> config_error list" where
  "LoadHSTS e =
     (let (enabled, e1) = Bool_env ''HSTS_ENABLED'' False e;
          (age, e2) = Duration ''HSTS_MAX_AGE'' 0 e;
          (subs, e3) = Bool_env ''HSTS_INCLUDE_SUBDOMAINS'' False e;
          (preload, e4) = Bool_env ''HSTS_PRELOAD'' False e
      in (\<lparr>hsts_enabled = enabled, MaxAge = age, MaxAgeSet = (Getenv ''HSTS_MAX_AGE'' e \<noteq> []),
           IncludeSubdomains = subs, Preload = preload\<rparr>, e1 @ e2 @ e3 @ e4))"

definition Validate_hsts :: "hsts_config \<Rightarrow> config_error list" where
  "Validate_hsts h =
     problem (hsts_enabled h \<and> MaxAgeSet h \<and> MaxAge h < 0) (Negative ''HSTS_MAX_AGE'') @
     (if hsts_enabled h \<and> Preload h
      then problem (EffectiveMaxAge h < hstsPreloadMinMaxAge) Preload_needs_year @
           problem (\<not> IncludeSubdomains h) Preload_needs_subdomains
      else [])"

section \<open>The database, \<open>db.go\<close>\<close>

definition DBProviderPostgres :: string where "DBProviderPostgres = ''postgres''"
definition DBProviderSupabase :: string where "DBProviderSupabase = ''supabase''"
definition DBPoolModeSession :: string where "DBPoolModeSession = ''session''"
definition DBPoolModeTransaction :: string where "DBPoolModeTransaction = ''transaction''"
definition supabaseDefaultMaxConns :: int where "supabaseDefaultMaxConns = 10"

record db_config =
  DSN :: string
  MaxConns :: int
  ConnTimeout :: duration
  Provider :: string
  PoolMode :: string
  SSLRootCert :: string
  MigrateDSN :: string

definition LoadDB :: "env \<Rightarrow> db_config \<times> config_error list" where
  "LoadDB e =
     (let (conns, e1) = Int32 ''DB_MAX_CONNS'' 0 e;
          (timeout, e2) = Duration ''DB_CONNECT_TIMEOUT'' (5 * second) e;
          provider = to_lower (trim_space (String_env ''DB_PROVIDER'' DBProviderPostgres e));
          mode = to_lower (trim_space (String_env ''DB_POOL_MODE'' DBPoolModeSession e));
          conns = (if provider = DBProviderSupabase \<and> conns = 0 then supabaseDefaultMaxConns else conns)
      in (\<lparr>DSN = Getenv ''DATABASE_URL'' e, MaxConns = conns, ConnTimeout = timeout, Provider = provider,
           PoolMode = mode, SSLRootCert = trimmed ''DB_SSL_ROOT_CERT'' e,
           MigrateDSN = trimmed ''MIGRATE_DATABASE_URL'' e\<rparr>, e1 @ e2))"

definition Validate_db :: "db_config \<Rightarrow> config_error list" where
  "Validate_db d =
     problem (trim_space (DSN d) = []) (Required ''DATABASE_URL'') @
     problem (MaxConns d < 0) (Negative ''DB_MAX_CONNS'') @
     problem (Provider d \<notin> {DBProviderPostgres, DBProviderSupabase}) (Not_one_of ''DB_PROVIDER'') @
     problem (PoolMode d \<notin> {DBPoolModeSession, DBPoolModeTransaction}) (Not_one_of ''DB_POOL_MODE'') @
     problem (ConnTimeout d \<le> 0) (Not_positive ''DB_CONNECT_TIMEOUT'')"

section \<open>Schemas, \<open>schemas.go\<close>\<close>

record schema_config =
  Identity :: string
  Nestova :: string
  Nestorage :: string

definition LoadSchemas :: "env \<Rightarrow> schema_config" where
  "LoadSchemas e =
     \<lparr>Identity = trim_space (String_env ''DB_SCHEMA_IDENTITY'' ''identity'' e),
      Nestova = trim_space (String_env ''DB_SCHEMA_NESTOVA'' ''nestova'' e),
      Nestorage = trim_space (String_env ''DB_SCHEMA_NESTORAGE'' ''nestorage'' e)\<rparr>"

text \<open>The regular expression \<open>^[a-z_][a-z0-9_]*$\<close>.\<close>

definition ident_start :: "char \<Rightarrow> bool" where
  "ident_start c \<longleftrightarrow> (97 \<le> byte_at c \<and> byte_at c \<le> 122) \<or> c = CHR ''_''"

definition ident_char :: "char \<Rightarrow> bool" where
  "ident_char c \<longleftrightarrow> ident_start c \<or> digit c"

definition schemaIdentifier :: "string \<Rightarrow> bool" where
  "schemaIdentifier s = (case s of [] \<Rightarrow> False | c # cs \<Rightarrow> ident_start c \<and> list_all ident_char cs)"

definition maxIdentifierBytes :: nat where "maxIdentifierBytes = 63"

definition validateSchemaName :: "string \<Rightarrow> string \<Rightarrow> config_error list" where
  "validateSchemaName k name =
     problem (\<not> schemaIdentifier name) (Bad_identifier k) @
     problem (maxIdentifierBytes < length name) (Too_long k)"

definition Validate_schemas :: "schema_config \<Rightarrow> config_error list" where
  "Validate_schemas s =
     validateSchemaName ''DB_SCHEMA_IDENTITY'' (Identity s) @
     validateSchemaName ''DB_SCHEMA_NESTOVA'' (Nestova s) @
     validateSchemaName ''DB_SCHEMA_NESTORAGE'' (Nestorage s) @
     problem (Identity s = Nestova s) (Same_value ''DB_SCHEMA_IDENTITY'' ''DB_SCHEMA_NESTOVA'') @
     problem (Identity s = Nestorage s) (Same_value ''DB_SCHEMA_IDENTITY'' ''DB_SCHEMA_NESTORAGE'') @
     problem (Nestova s = Nestorage s) (Same_value ''DB_SCHEMA_NESTOVA'' ''DB_SCHEMA_NESTORAGE'')"

section \<open>Sessions, \<open>session.go\<close>\<close>

definition minSecretLen :: nat where "minSecretLen = 32"
definition DevSessionSecret :: string where "DevSessionSecret = ''dev-only-insecure-session-secret-change-me''"

record session_config =
  Secret :: string
  Secure :: bool
  Lifetime :: duration

definition resolveCookieSecure :: "string \<Rightarrow> string \<Rightarrow> bool \<times> config_error list" where
  "resolveCookieSecure mode env =
     (let m = to_lower (trim_space mode)
      in if m = ''auto'' \<or> m = [] then (env = EnvProd, [])
         else if m = ''true'' then (True, [])
         else if m = ''false'' then (False, [])
         else (env = EnvProd, [Not_one_of ''SESSION_COOKIE_SECURE'']))"

definition LoadSession :: "string \<Rightarrow> env \<Rightarrow> session_config \<times> config_error list" where
  "LoadSession env e =
     (let (life, e1) = Duration ''SESSION_LIFETIME'' (12 * hour) e;
          (secure, e2) = resolveCookieSecure (String_env ''SESSION_COOKIE_SECURE'' ''auto'' e) env
      in (\<lparr>Secret = String_env ''SESSION_SECRET'' DevSessionSecret e, Secure = secure, Lifetime = life\<rparr>, e1 @ e2))"

definition Validate_session :: "string \<Rightarrow> session_config \<Rightarrow> config_error list" where
  "Validate_session env s =
     problem (length (Secret s) < minSecretLen) (Too_short ''SESSION_SECRET'') @
     problem (Lifetime s \<le> 0) (Not_positive ''SESSION_LIFETIME'') @
     problem (env = EnvProd \<and> Secret s = DevSessionSecret) (Default_value ''SESSION_SECRET'')"

section \<open>The encryption key, \<open>crypto.go\<close>\<close>

definition encryptionKeyLen :: nat where "encryptionKeyLen = 32"
definition DevEncryptionKey :: string where
  "DevEncryptionKey = ''00000000000000000000000000000000000000000000000000000000deadbeef''"

record crypto_config =
  EncryptionKey :: string

text \<open>\<open>hex.DecodeString\<close>.\<close>

fun hex_decode :: "string \<Rightarrow> bytes option" where
  "hex_decode [] = Some []"
| "hex_decode [c] = None"
| "hex_decode (c # d # s) =
     (case (hex_val c, hex_val d, hex_decode s) of
        (Some x, Some y, Some b) \<Rightarrow> Some (word_of_nat (x * 16 + y) # b)
      | _ \<Rightarrow> None)"

definition Key :: "crypto_config \<Rightarrow> config_error + bytes" where
  "Key c =
     (if EncryptionKey c = [] then Inl (Required ''ENCRYPTION_KEY'')
      else case hex_decode (EncryptionKey c) of
             None \<Rightarrow> Inl (Not_hex ''ENCRYPTION_KEY'')
           | Some k \<Rightarrow> if length k \<noteq> encryptionKeyLen then Inl (Bad_key_length ''ENCRYPTION_KEY'' (length k)) else Inr k)"

definition LoadCrypto :: "env \<Rightarrow> crypto_config" where
  "LoadCrypto e = \<lparr>EncryptionKey = trim_space (String_env ''ENCRYPTION_KEY'' DevEncryptionKey e)\<rparr>"

definition Validate_crypto :: "string \<Rightarrow> crypto_config \<Rightarrow> config_error list" where
  "Validate_crypto env c =
     (if EncryptionKey c \<noteq> [] \<or> env = EnvProd then (case Key c of Inl x \<Rightarrow> [x] | Inr _ \<Rightarrow> []) else []) @
     problem (env = EnvProd \<and> EncryptionKey c = DevEncryptionKey) (Default_value ''ENCRYPTION_KEY'')"

section \<open>Object storage, notification channels, TLS and the cache\<close>

record s3_config =
  s3c_endpoint :: string
  s3c_region :: string
  s3c_bucket :: string
  s3c_access :: string
  s3c_secret :: string
  s3c_path_style :: bool
  s3c_presign_ttl :: duration

definition LoadS3 :: "env \<Rightarrow> s3_config \<times> config_error list" where
  "LoadS3 e =
     (let (ttl, e1) = Duration ''S3_PRESIGN_TTL'' (15 * minute) e;
          (style, e2) = Bool_env ''S3_USE_PATH_STYLE'' False e
      in (\<lparr>s3c_endpoint = trimmed ''S3_ENDPOINT'' e, s3c_region = trimmed ''S3_REGION'' e,
           s3c_bucket = trimmed ''S3_BUCKET'' e, s3c_access = trimmed ''S3_ACCESS_KEY_ID'' e,
           s3c_secret = trimmed ''S3_SECRET_ACCESS_KEY'' e, s3c_path_style = style, s3c_presign_ttl = ttl\<rparr>, e1 @ e2))"

definition Validate_s3 :: "s3_config \<Rightarrow> config_error list" where
  "Validate_s3 s =
     problem (s3c_bucket s = []) (Required ''S3_BUCKET'') @
     problem (s3c_region s = []) (Required ''S3_REGION'') @
     problem (s3c_presign_ttl s \<le> 0) (Not_positive ''S3_PRESIGN_TTL'') @
     validateCredentialPair ''S3_ACCESS_KEY_ID'' (s3c_access s) ''S3_SECRET_ACCESS_KEY'' (s3c_secret s)"

record sms_config =
  sms_enabled :: bool
  sms_identity :: string
  sms_region :: string
  sms_access :: string
  sms_secret :: string
  sms_retries :: int

definition defaultSMSRetryMaxAttempts :: int where "defaultSMSRetryMaxAttempts = 3"

definition LoadSMS :: "env \<Rightarrow> sms_config \<times> config_error list" where
  "LoadSMS e =
     (let (enabled, e1) = Bool_env ''NOTIFY_SMS_ENABLED'' False e;
          (retries, e2) = (if enabled then Int32 ''SMS_RETRY_MAX_ATTEMPTS'' defaultSMSRetryMaxAttempts e
                           else (defaultSMSRetryMaxAttempts, []))
      in (\<lparr>sms_enabled = enabled, sms_identity = trimmed ''SMS_ORIGINATION_IDENTITY'' e,
           sms_region = trimmed ''SMS_REGION'' e, sms_access = trimmed ''SMS_ACCESS_KEY_ID'' e,
           sms_secret = trimmed ''SMS_SECRET_ACCESS_KEY'' e, sms_retries = retries\<rparr>, e1 @ e2))"

definition Validate_sms :: "sms_config \<Rightarrow> config_error list" where
  "Validate_sms s =
     (if \<not> sms_enabled s then []
      else problem (sms_identity s = []) (Required ''SMS_ORIGINATION_IDENTITY'') @
           problem (sms_region s = []) (Required ''SMS_REGION'') @
           problem (sms_retries s \<le> 0) (Not_positive ''SMS_RETRY_MAX_ATTEMPTS'') @
           validateCredentialPair ''SMS_ACCESS_KEY_ID'' (sms_access s) ''SMS_SECRET_ACCESS_KEY'' (sms_secret s))"

record email_config =
  mail_enabled :: bool
  mail_from :: string
  mail_region :: string
  mail_access :: string
  mail_secret :: string

definition LoadEmail :: "env \<Rightarrow> email_config \<times> config_error list" where
  "LoadEmail e =
     (let (enabled, e1) = Bool_env ''NOTIFY_EMAIL_ENABLED'' False e
      in (\<lparr>mail_enabled = enabled, mail_from = trimmed ''SES_FROM_ADDRESS'' e,
           mail_region = trimmed ''SES_REGION'' e, mail_access = trimmed ''SES_ACCESS_KEY_ID'' e,
           mail_secret = trimmed ''SES_SECRET_ACCESS_KEY'' e\<rparr>, e1))"

definition Validate_email :: "email_config \<Rightarrow> config_error list" where
  "Validate_email m =
     (if \<not> mail_enabled m then []
      else problem (mail_from m = []) (Required ''SES_FROM_ADDRESS'') @
           problem (mail_region m = []) (Required ''SES_REGION'') @
           validateCredentialPair ''SES_ACCESS_KEY_ID'' (mail_access m) ''SES_SECRET_ACCESS_KEY'' (mail_secret m))"

record tls_config =
  CertFile :: string
  KeyFile :: string

definition Enabled_tls :: "tls_config \<Rightarrow> bool" where
  "Enabled_tls t \<longleftrightarrow> CertFile t \<noteq> [] \<and> KeyFile t \<noteq> []"

definition LoadTLS :: "env \<Rightarrow> tls_config" where
  "LoadTLS e = \<lparr>CertFile = trimmed ''TLS_CERT_FILE'' e, KeyFile = trimmed ''TLS_KEY_FILE'' e\<rparr>"

definition Validate_tls :: "tls_config \<Rightarrow> config_error list" where
  "Validate_tls t = problem ((CertFile t = []) \<noteq> (KeyFile t = [])) (Unpaired ''TLS_CERT_FILE'' ''TLS_KEY_FILE'')"

record cache_config =
  cache_dir :: string

definition devCacheDir :: string where "devCacheDir = ''./.localdata/cache''"

definition LoadCache :: "env \<Rightarrow> cache_config" where
  "LoadCache e = \<lparr>cache_dir = trim_space (String_env ''CACHE_DIR'' devCacheDir e)\<rparr>"

definition Validate_cache :: "cache_config \<Rightarrow> config_error list" where
  "Validate_cache c = problem (trim_space (cache_dir c) = []) (Required ''CACHE_DIR'')"

section \<open>Production\<close>

lemma String_env_set:
  assumes "String_env k fallback e \<noteq> fallback"
  shows "LookupEnv k e = Some (String_env k fallback e) \<and> String_env k fallback e \<noteq> []"
  using assms by (auto simp: String_env_def split: option.splits if_splits)

lemma trim_ascii_key: "trim_space DevEncryptionKey = DevEncryptionKey"
  by (rule trim_space_plain) (simp_all add: DevEncryptionKey_def is_ascii_def is_space_def)

lemma hex_decode_length: "hex_decode s = Some k \<Longrightarrow> length s = 2 * length k"
  by (induction s arbitrary: k rule: hex_decode.induct) (auto split: option.splits)


definition sample_prod_env :: env where
  "sample_prod_env =
     [(''SESSION_SECRET'', replicate 40 CHR ''s''), (''ENCRYPTION_KEY'', replicate 64 CHR ''7'')]"

lemma trim_replicate:
  assumes "byte_at c < 0x80" and "\<not> is_space (byte_at c)"
  shows "trim_space (replicate n c) = replicate n c"
  using assms by (intro trim_space_plain) (simp_all add: is_ascii_def)

lemma hex_decode_sevens: "hex_decode (replicate (2 * n) CHR ''7'') = Some (replicate n 0x77)"
  by (induction n) (simp_all add: hex_val_def)


end
