(* ===== verification/Http_Server.thy ===== *)
theory Http_Server
  imports Middleware Config
begin

text \<open>
  The HTTP transport, \<open>httpserver/server.go\<close>: the canonical middleware chain, the probes and the
  server's timeouts. The multiplexer is a list of patterns with their handlers; which pattern
  matches a request is \<open>http.ServeMux\<close>'s matching, here a function of the patterns.
\<close>

definition readinessTimeout :: duration where "readinessTimeout = 2 * second"
definition requestTimeoutMargin :: duration where "requestTimeoutMargin = 5 * second"
definition staticCacheControl :: string where "staticCacheControl = ''public, max-age=3600''"

record http_config =
  hc_server :: server_config
  hc_hsts :: hsts_config
  hc_csp :: "content_security_policy option"   \<comment> \<open>nil or a policy\<close>

type_synonym mux = "(string \<times> handler) list"

record deps =
  dp_ready :: "(request \<Rightarrow> http \<Rightarrow> http \<times> bool) option"   \<comment> \<open>whether the dependencies are reachable\<close>
  dp_routes :: "(mux \<Rightarrow> mux) option"
  dp_middleware :: "middleware list"
  dp_metrics :: bool
  dp_metrics_handler :: "handler option"

section \<open>Handlers\<close>

definition write_text :: "writer \<Rightarrow> int \<Rightarrow> string \<Rightarrow> http \<Rightarrow> http \<times> outcome" where
  "write_text w code text = do_acts w [Write_header code, Write_body (bytes_of text)]"

definition handleHealthz :: handler where
  "handleHealthz r w s =
     (case write_text w 200 ''ok'' (set_header ''Content-Type'' ''text/plain; charset=utf-8'' s) of
        (s, out) \<Rightarrow> (s, rq_pattern r, out))"

definition handleReadyz :: "(request \<Rightarrow> http \<Rightarrow> http \<times> bool) option \<Rightarrow> handler" where
  "handleReadyz ready r w s =
     (let s = set_header ''Content-Type'' ''text/plain; charset=utf-8'' s;
          (s, up) = (case ready of None \<Rightarrow> (s, True)
                     | Some f \<Rightarrow>
                         let t = h_now s + readinessTimeout;
                             t = (case rq_deadline r of None \<Rightarrow> t | Some u \<Rightarrow> min u t)
                         in f (r\<lparr>rq_deadline := Some t\<rparr>) s);
          (s, out) = (if up then write_text w 200 ''ready'' s else write_text w 503 ''unavailable'' s)
      in (s, rq_pattern r, out))"

definition StaticFileServer :: "handler \<Rightarrow> handler" where
  "StaticFileServer assets r w s =
     assets r w (set_header ''X-Content-Type-Options'' ''nosniff'' (set_header ''Cache-Control'' staticCacheControl s))"

section \<open>Routing\<close>

text \<open>
  \<open>ServeMux\<close>: the handler of the matching pattern runs with the request's \<open>Pattern\<close> set to it, and
  without one the \<open>not_found\<close> handler answers.
\<close>

record mux_lib =
  mux_match :: "string list \<Rightarrow> request \<Rightarrow> string option"
  mux_not_found :: handler

definition serve_mux :: "mux_lib \<Rightarrow> mux \<Rightarrow> handler" where
  "serve_mux lib m r w s =
     (case mux_match lib (map fst m) r of
        None \<Rightarrow> mux_not_found lib (r\<lparr>rq_pattern := []\<rparr>) w s
      | Some pat \<Rightarrow>
          (case map_of m pat of
             None \<Rightarrow> mux_not_found lib (r\<lparr>rq_pattern := []\<rparr>) w s
           | Some h \<Rightarrow> h (r\<lparr>rq_pattern := pat\<rparr>) w s))"

definition base_routes :: "deps \<Rightarrow> mux" where
  "base_routes d =
     (let m = [(''GET /healthz'', handleHealthz), (''GET /readyz'', handleReadyz (dp_ready d))];
          m = (case dp_metrics_handler d of None \<Rightarrow> m | Some h \<Rightarrow> m @ [(''GET /metrics'', h)])
      in case dp_routes d of None \<Rightarrow> m | Some f \<Rightarrow> f m)"

definition routes :: "mux_lib \<Rightarrow> deps \<Rightarrow> handler" where
  "routes lib d = serve_mux lib (base_routes d)"

section \<open>The server\<close>

definition cspOrDefault :: "content_security_policy option \<Rightarrow> content_security_policy" where
  "cspOrDefault p = (case p of None \<Rightarrow> DefaultCSP | Some p \<Rightarrow> p)"

text \<open>\<open>int64(d.Seconds())\<close> truncates towards zero.\<close>

definition whole_seconds :: "duration \<Rightarrow> int" where
  "whole_seconds d = (if d < 0 then - ((- d) div second) else d div second)"

definition hstsHeaderValue :: "hsts_config \<Rightarrow> string" where
  "hstsHeaderValue c =
     (if \<not> hsts_enabled c then []
      else ''max-age='' @ itoa (whole_seconds (EffectiveMaxAge c)) @
           (if IncludeSubdomains c then ''; includeSubDomains'' else []) @
           (if Preload c then ''; preload'' else []))"

definition core_chain :: "http_config \<Rightarrow> deps \<Rightarrow> middleware list" where
  "core_chain cfg d =
     (let timeout = RequestTimeout (hc_server cfg) - requestTimeoutMargin
      in [RequestID,
          ForwardedHeaders (TrustedProxyPrefixes (hc_server cfg)),
          SecurityHeadersWithPolicy (hstsHeaderValue (hc_hsts cfg)) (cspOrDefault (hc_csp cfg)),
          RequestLogger,
          Metrics (dp_metrics d),
          Recoverer] @
         (if timeout > 0 then [Timeout timeout] else []) @
         dp_middleware d @
         [CaptureRoutePattern])"

record http_server =
  srv_addr :: string
  srv_handler :: handler
  srv_max_header :: nat
  srv_read_header_timeout :: duration
  srv_read_timeout :: duration
  srv_write_timeout :: duration
  srv_idle_timeout :: duration
  srv_min_tls :: nat     \<comment> \<open>the second number of the TLS version\<close>

definition New_server :: "mux_lib \<Rightarrow> http_config \<Rightarrow> deps \<Rightarrow> http_server" where
  "New_server lib cfg d =
     \<lparr>srv_addr = Addr (hc_server cfg),
      srv_handler = Chain (core_chain cfg d) (routes lib d),
      srv_max_header = 2 ^ 20,
      srv_read_header_timeout = 5 * second,
      srv_read_timeout = RequestTimeout (hc_server cfg),
      srv_write_timeout = RequestTimeout (hc_server cfg),
      srv_idle_timeout = 60 * second,
      srv_min_tls = 2\<rparr>"

section \<open>What the log and the metrics say of a request\<close>

lemma Chain_simps [simp]: "Chain [] h = h" "Chain (m # ms) h = m (Chain ms h)"
  by (simp_all add: Chain_def)

lemma Chain_append: "Chain (a @ b) h = Chain a (Chain b h)"
  by (induction a) simp_all

definition panic_line :: "log_line \<Rightarrow> bool" where
  "panic_line l = (case l of Panic_recovered _ _ \<Rightarrow> True | _ \<Rightarrow> False)"

text \<open>The status of the response the server ends the request with; a hijacked connection without
  one is booked as 200.\<close>

definition response_status :: "http \<Rightarrow> int" where
  "response_status s = (case rw_sent (h_raw (finish s)) of None \<Rightarrow> 200 | Some (c, _) \<Rightarrow> c)"

lemma tracked_status:
  assumes "tracks i s"
  shows "shown_status (Wrap i p) s = response_status s"
    and "bytes_written (wrapper (Wrap i p) s) = int (length (rw_body (h_raw s)))"
  using assms
  by (auto simp: tracks_def Let_def shown_status_def wrapper_def response_status_def finish_def
      raw_write_header_def split: option.splits prod.splits)

lemma recovered:
  assumes t: "tracks i s" and p: "p \<noteq> Abort_handler" and e: "recoverAndRespond p (Wrap i Raw) r s = (s', out)"
  shows "out = Returned" and "tracks i s'"
    and "books s' = (h_logs s @ [Panic_recovered p (RequestIDFromContext r)], h_counts s, h_inflight s)"
proof -
  let ?s = "s\<lparr>h_logs := h_logs s @ [Panic_recovered p (RequestIDFromContext r)]\<rparr>"
  let ?u = "set_header ''Content-Type'' ''text/plain; charset=utf-8'' ?s"
  have u: "tracks i ?u" using set_header_tracked(1) [OF _ refl, of i ?s] t by simp
  obtain s1 where 1: "WriteHeader (Wrap i Raw) 500 ?u = (s1, Returned)" "tracks i s1"
    "rest_of s1 = rest_of (?u\<lparr>h_raw := fst (raw_write_header 500 (h_raw ?u))\<rparr>)"
    using WriteHeader_tracked [OF u, of 500] by auto
  obtain s2 n where 2: "Write (Wrap i Raw) (bytes_of ''internal server error'') s1 = (s2, n)" "tracks i s2"
    "rest_of s2 = rest_of (s1\<lparr>h_raw := fst (raw_write (bytes_of ''internal server error'') (h_raw s1))\<rparr>)"
    using Write_tracked [OF 1(2)] by blast
  have "books s2 = books ?s"
    using books_rest [OF 1(3)] books_rest [OF 2(3)] by (simp add: books_def set_header_def)
  with e p t 1(1) 2(1,2) show "out = Returned" and "tracks i s'"
    and "books s' = (h_logs s @ [Panic_recovered p (RequestIDFromContext r)], h_counts s, h_inflight s)"
    by (auto simp: recoverAndRespond_def Let_def books_def simp del: Write.simps WriteHeader.simps split: if_splits)
qed

lemma Recoverer_books:
  assumes c: "conducts h" and t: "tracks i s" and e: "Recoverer h r (Wrap i Raw) s = (s', pat, out)"
  shows "tracks i s' \<and> h_counts s' = h_counts s \<and> h_inflight s' = h_inflight s \<and>
    (\<exists>ls. h_logs s' = h_logs s @ ls \<and> list_all panic_line ls \<and> length ls \<le> 1) \<and>
    (out = Returned \<or> out = Panicked Abort_handler)"
proof -
  obtain s1 pat1 out1 where h: "h r (Wrap i Raw) s = (s1, pat1, out1)" by (cases "h r (Wrap i Raw) s")
  have 1: "tracks i s1" "books s1 = books s" using conductsD [OF c t h] by simp_all
  consider (returned) "out1 = Returned" | (abort) "out1 = Panicked Abort_handler"
    | (panic) p where "out1 = Panicked p" "p \<noteq> Abort_handler" by (cases out1) auto
  then show ?thesis
  proof cases
    case returned
    with e h 1 show ?thesis by (auto simp: Recoverer_def reuse_wrapper_def books_def)
  next
    case abort
    with e h 1 show ?thesis by (auto simp: Recoverer_def reuse_wrapper_def books_def recoverAndRespond_def)
  next
    case panic
    obtain s2 out2 where r: "recoverAndRespond p (Wrap i Raw) r s1 = (s2, out2)"
      by (cases "recoverAndRespond p (Wrap i Raw) r s1")
    note recovered [OF 1(1) panic(2) r]
    with e h r panic 1(2) show ?thesis
      by (auto simp: Recoverer_def reuse_wrapper_def books_def panic_line_def)
  qed
qed

text \<open>The metrics and the logger, around a handler with the recoverer's conduct.\<close>

definition recovers :: "handler \<Rightarrow> bool" where
  "recovers h \<longleftrightarrow> (\<forall>r i s s' pat out. tracks i s \<longrightarrow> h r (Wrap i Raw) s = (s', pat, out) \<longrightarrow>
     tracks i s' \<and> h_counts s' = h_counts s \<and> h_inflight s' = h_inflight s \<and>
     (\<exists>ls. h_logs s' = h_logs s @ ls \<and> list_all panic_line ls \<and> length ls \<le> 1) \<and>
     (out = Returned \<or> out = Panicked Abort_handler))"

lemma Recoverer_recovers: "conducts h \<Longrightarrow> recovers (Recoverer h)"
  unfolding recovers_def using Recoverer_books by blast

lemma recoversD:
  assumes "recovers h" and "tracks i s" and "h r (Wrap i Raw) s = (s', pat, out)"
  shows "tracks i s'" and "h_counts s' = h_counts s" and "h_inflight s' = h_inflight s"
    and "\<exists>ls. h_logs s' = h_logs s @ ls \<and> list_all panic_line ls \<and> length ls \<le> 1"
    and "out = Returned \<or> out = Panicked Abort_handler"
  using assms unfolding recovers_def by blast+

lemma tracks_counts [simp]:
  "tracks i (s\<lparr>h_counts := cs\<rparr>) = tracks i s" "tracks i (s\<lparr>h_durations := ds\<rparr>) = tracks i s"
  by (simp_all add: tracks_def)

lemma Metrics_books:
  assumes c: "recovers h" and t: "tracks i s" and e: "Metrics True h r (Wrap i Raw) s = (s', pat, out)"
  shows "tracks i s'" and "h_inflight s' = h_inflight s"
    and "\<exists>ls. h_logs s' = h_logs s @ ls \<and> list_all panic_line ls \<and> length ls \<le> 1"
    and "out = Returned \<and> (\<exists>route. h_counts s' = h_counts s @
           [(normalizeMethod (rq_method r), route, itoa (shown_status (Wrap i Raw) s'))]) \<or>
         out = Panicked Abort_handler \<and> h_counts s' = h_counts s"
proof -
  let ?s = "s\<lparr>h_holders := h_holders s @ [[]], h_inflight := h_inflight s + 1\<rparr>"
  let ?r = "r\<lparr>rq_holder := Some (length (h_holders s))\<rparr>"
  obtain s1 pat1 out1 where h: "h ?r (Wrap i Raw) ?s = (s1, pat1, out1)" by (cases "h ?r (Wrap i Raw) ?s")
  have "tracks i ?s" using t by simp
  note 1 = recoversD [OF c this h]
  show "tracks i s'" and "h_inflight s' = h_inflight s"
    and "\<exists>ls. h_logs s' = h_logs s @ ls \<and> list_all panic_line ls \<and> length ls \<le> 1"
    and "out = Returned \<and> (\<exists>route. h_counts s' = h_counts s @
           [(normalizeMethod (rq_method r), route, itoa (shown_status (Wrap i Raw) s'))]) \<or>
         out = Panicked Abort_handler \<and> h_counts s' = h_counts s"
    using e h 1
    by (auto simp: Metrics_def reuse_wrapper_def Let_def shown_status_def wrapper_def split: outcome.splits)
qed

lemma Logger_books:
  assumes c: "recovers h" and u: "unanswered s" and e: "RequestLogger (Metrics True h) r Raw s = (s', pat, out)"
  shows "h_inflight s' = h_inflight s"
    and "out = Panicked Abort_handler \<and> h_counts s' = h_counts s \<or>
      out = Returned \<and>
      (\<exists>panics route dur. list_all panic_line panics \<and> length panics \<le> 1 \<and>
         h_logs s' = h_logs s @ panics @
           [Http_request (rq_method r) (rq_path r) (response_status s') (int (length (rw_body (h_raw s')))) dur
              (logged_ip r) (RequestIDFromContext r)] \<and>
         h_counts s' = h_counts s @ [(normalizeMethod (rq_method r), route, itoa (response_status s'))])"
proof -
  obtain s0 rw where n: "new_wrapper Raw s = (s0, rw)" by (cases "new_wrapper Raw s")
  note w = new_wrapper_tracks [OF u n]
  obtain s1 pat1 out1 where m: "Metrics True h r rw s0 = (s1, pat1, out1)" by (cases "Metrics True h r rw s0")
  note M = Metrics_books [OF c w(1) m [unfolded w(2)]]
  note S = tracked_status [OF M(1), of Raw]
  have base: "h_inflight s0 = h_inflight s" "h_counts s0 = h_counts s" "h_logs s0 = h_logs s"
    using w(3) by (simp_all add: rest_of_eq)
  have resp: "response_status (s1\<lparr>h_logs := ls\<rparr>) = response_status s1" for ls
    by (simp add: response_status_def finish_def)
  show "h_inflight s' = h_inflight s"
    using e n m M(2) base by (cases out1) (auto simp: RequestLogger_def Let_def)
  show "out = Panicked Abort_handler \<and> h_counts s' = h_counts s \<or>
      out = Returned \<and>
      (\<exists>panics route dur. list_all panic_line panics \<and> length panics \<le> 1 \<and>
         h_logs s' = h_logs s @ panics @
           [Http_request (rq_method r) (rq_path r) (response_status s') (int (length (rw_body (h_raw s')))) dur
              (logged_ip r) (RequestIDFromContext r)] \<and>
         h_counts s' = h_counts s @ [(normalizeMethod (rq_method r), route, itoa (response_status s'))])"
  proof (cases out1)
    case Returned
    with M(4) obtain route where "h_counts s1 = h_counts s @
        [(normalizeMethod (rq_method r), route, itoa (response_status s1))]"
      unfolding S base by auto
    with Returned e n m M(3) show ?thesis
      unfolding base by (auto simp: RequestLogger_def Let_def resp S w(2))
  next
    case (Panicked p)
    with M(4) e n m base show ?thesis by (auto simp: RequestLogger_def Let_def)
  qed
qed

text \<open>The three outermost layers prepare the request and the header, and pass on.\<close>

lemma id_rune_hex: "is_hex c \<Longrightarrow> byte_at c < 0x80 \<and> id_rune (byte_at c)"
  by (auto simp: is_hex_def id_rune_def)

lemma new_id_valid: "validRequestID (snd (newRequestID s))"
proof (cases "length (h_random s) < 16")
  case True
  then show ?thesis
    by (simp add: newRequestID_def validRequestID_def maxRequestIDLen_def runes_Cons_ascii id_rune_def)
next
  case False
  let ?i = "hex_encode (take 16 (h_random s))"
  have "\<forall>c \<in> set ?i. byte_at c < 0x80 \<and> id_rune (byte_at c)"
    using hex_encode_is_hex id_rune_hex by blast
  moreover from this have "is_ascii ?i" by (simp add: is_ascii_def)
  ultimately show ?thesis
    using False by (auto simp: newRequestID_def validRequestID_def maxRequestIDLen_def runes_ascii list_all_iff)
qed

definition outer_layers :: "prefix list \<Rightarrow> string \<Rightarrow> content_security_policy \<Rightarrow> middleware" where
  "outer_layers trusted hsts csp h =
     RequestID (ForwardedHeaders trusted (SecurityHeadersWithPolicy hsts csp h))"

lemma set_header_books:
  "h_logs (set_header k v s) = h_logs s" "h_counts (set_header k v s) = h_counts s"
  "h_inflight (set_header k v s) = h_inflight s" "unanswered (set_header k v s) = unanswered s"
  "rw_accepts (h_raw (set_header k v s)) = rw_accepts (h_raw s)"
  by (simp_all add: set_header_def unanswered_def)

lemma security_headers_books:
  "h_logs (security_headers hsts p r s) = h_logs s" "h_counts (security_headers hsts p r s) = h_counts s"
  "h_inflight (security_headers hsts p r s) = h_inflight s"
  "unanswered s \<Longrightarrow> unanswered (security_headers hsts p r s)"
  "rw_accepts (h_raw (security_headers hsts p r s)) = rw_accepts (h_raw s)"
  by (simp_all add: security_headers_def Let_def set_header_def unanswered_def)

lemma outer_layers_pass:
  assumes "unanswered s"
  shows "\<exists>s0 r0 i. outer_layers trusted hsts csp h r Raw s = (case h r0 Raw s0 of (s', _, out) \<Rightarrow> (s', rq_pattern r, out)) \<and>
    unanswered s0 \<and> h_logs s0 = h_logs s \<and> h_counts s0 = h_counts s \<and> h_inflight s0 = h_inflight s \<and>
    rw_accepts (h_raw s0) = rw_accepts (h_raw s) \<and> r0 = r\<lparr>rq_id := Some i, rq_fwd := Some (resolveForwarded r trusted)\<rparr> \<and> validRequestID i"
proof -
  let ?i = "header_get (rq_headers r) requestIDHeader"
  obtain s1 i where i: "(if validRequestID ?i then (s, ?i) else newRequestID s) = (s1, i)"
    by (cases "if validRequestID ?i then (s, ?i) else newRequestID s")
  have valid: "validRequestID i" using i new_id_valid [of s] by (auto split: if_splits)
  have s1: "unanswered s1" "h_logs s1 = h_logs s" "h_counts s1 = h_counts s" "h_inflight s1 = h_inflight s"
    "rw_accepts (h_raw s1) = rw_accepts (h_raw s)"
    using i assms by (auto simp: newRequestID_def unanswered_def split: if_splits)
  define r0 where "r0 = r\<lparr>rq_id := Some i, rq_fwd := Some (resolveForwarded r trusted)\<rparr>"
  define s0 where "s0 = security_headers hsts (policy_text csp) r0 (set_header requestIDHeader i s1)"
  have fwd: "resolveForwarded (r\<lparr>rq_id := Some i\<rparr>) trusted = resolveForwarded r trusted"
    by (simp add: resolveForwarded_def onWireScheme_def Let_def)
  have "outer_layers trusted hsts csp h r Raw s = (case h r0 Raw s0 of (s', _, out) \<Rightarrow> (s', rq_pattern r, out))"
    unfolding outer_layers_def RequestID_def i Let_def prod.case ForwardedHeaders_def SecurityHeadersWithPolicy_def fwd
    by (simp add: r0_def s0_def split: prod.splits)
  moreover have "unanswered s0 \<and> h_logs s0 = h_logs s \<and> h_counts s0 = h_counts s \<and> h_inflight s0 = h_inflight s \<and>
      rw_accepts (h_raw s0) = rw_accepts (h_raw s)"
    using s1 unfolding s0_def by (simp add: security_headers_books set_header_books)
  ultimately show ?thesis using valid r0_def by blast
qed

text \<open>The handler the chain is put around: the feature middleware, the route capture and the routes.\<close>

definition inner_handler :: "mux_lib \<Rightarrow> deps \<Rightarrow> handler" where
  "inner_handler lib d = Chain (dp_middleware d) (CaptureRoutePattern (routes lib d))"

lemma server_layers:
  "srv_handler (New_server lib cfg d) =
     outer_layers (TrustedProxyPrefixes (hc_server cfg)) (hstsHeaderValue (hc_hsts cfg)) (cspOrDefault (hc_csp cfg))
       (RequestLogger (Metrics (dp_metrics d) (Recoverer
         (if RequestTimeout (hc_server cfg) > requestTimeoutMargin
          then Timeout (RequestTimeout (hc_server cfg) - requestTimeoutMargin) (inner_handler lib d)
          else inner_handler lib d))))"
  by (simp add: New_server_def core_chain_def Let_def Chain_append outer_layers_def inner_handler_def)


text \<open>One malformed entry of the list of trusted proxies drops all of them.\<close>

theorem malformed_entry_drops_all:
  "f \<in> set (proxy_fields (TrustedProxies c)) \<Longrightarrow> ParsePrefix f = None \<Longrightarrow> TrustedProxyPrefixes c = []"
  by (auto simp: TrustedProxyPrefixes_def parseTrustedProxies_def Let_def filter_empty_conv)

section \<open>A panic becomes a 500\<close>

definition header_only :: "act \<Rightarrow> bool" where
  "header_only a = (case a of Set_header _ _ \<Rightarrow> True | _ \<Rightarrow> False)"

lemma header_acts:
  "list_all header_only as \<Longrightarrow> \<exists>hdr. do_acts w as s = (on_raw (\<lambda>r. r\<lparr>rw_header := hdr\<rparr>) s, Returned)"
proof (induction as arbitrary: s)
  case Nil
  have "on_raw (\<lambda>r. r\<lparr>rw_header := rw_header (h_raw s)\<rparr>) s = s" by simp
  then show ?case by (metis do_acts.simps(1))
next
  case (Cons a as)
  then obtain k v where a: "a = Set_header k v" by (auto simp: header_only_def split: act.splits)
  obtain hdr where "do_acts w as (set_header k v s) = (on_raw (\<lambda>r. r\<lparr>rw_header := hdr\<rparr>) (set_header k v s), Returned)"
    using Cons by auto
  then show ?case by (intro exI [of _ hdr]) (simp add: a set_header_def)
qed

lemma raw_write_started:
  assumes "\<not> rw_hijacked r" and "rw_sent r = Some (c, h)" and "body_allowed c" and "rw_accepts r = []" and "b \<noteq> []"
  shows "raw_write b r = (r\<lparr>rw_body := rw_body r @ b, rw_accepts := []\<rparr>, length b)"
  using assms by (simp add: raw_write_def raw_write_header_def)

text \<open>Through the wrapper, an unanswered request gets the recoverer's answer.\<close>

lemma recover_unanswered:
  assumes u: "unanswered s" and w: "i < length (h_wraps s)" "\<not> wroteHeader (h_wraps s ! i)"
    and acc: "rw_accepts (h_raw s) = []" and p: "p \<noteq> Abort_handler"
  shows "\<exists>s' hdr. recoverAndRespond p (Wrap i Raw) r s = (s', Returned) \<and>
    rw_sent (h_raw s') = Some (500, hdr) \<and> header_get hdr ''Content-Type'' = ''text/plain; charset=utf-8'' \<and>
    rw_body (h_raw s') = bytes_of ''internal server error'' \<and> status (h_wraps s' ! i) = 500 \<and>
    h_counts s' = h_counts s \<and> h_holders s' = h_holders s"
proof -
  let ?h = "header_set ''Content-Type'' ''text/plain; charset=utf-8'' (rw_header (h_raw s))"
  let ?s1 = "set_header ''Content-Type'' ''text/plain; charset=utf-8'' (s\<lparr>h_logs := h_logs s @ [Panic_recovered p (RequestIDFromContext r)]\<rparr>)"
  let ?s2 = "?s1\<lparr>h_raw := (h_raw ?s1)\<lparr>rw_sent := Some (500, ?h)\<rparr>,
      h_wraps := (h_wraps s)[i := (h_wraps s ! i)\<lparr>status := 500, wroteHeader := True\<rparr>]\<rparr>"
  have 2: "WriteHeader (Wrap i Raw) 500 ?s1 = (?s2, Returned)"
    using u w by (simp add: set_header_def on_wrap_def unanswered_def raw_write_header_final [OF final_200(2)])
  have h2: "rw_hijacked (h_raw ?s2) = False" "rw_sent (h_raw ?s2) = Some (500, ?h)" "rw_body (h_raw ?s2) = []"
    "rw_accepts (h_raw ?s2) = []"
    using u acc by (simp_all add: set_header_def unanswered_def)
  let ?t = "bytes_of ''internal server error''"
  have ne: "?t \<noteq> []" by (simp add: bytes_of_def)
  have "raw_write ?t (h_raw ?s2) = ((h_raw ?s2)\<lparr>rw_body := ?t, rw_accepts := []\<rparr>, length ?t)"
    using raw_write_started [of "h_raw ?s2" 500 ?h ?t] h2 ne by (simp add: body_allowed_def)
  then have 3: "Write (Wrap i Raw) ?t ?s2 = (on_wrap i (\<lambda>w. w\<lparr>bytes_written := bytes_written w + int (length ?t)\<rparr>)
      (?s2\<lparr>h_raw := (h_raw ?s2)\<lparr>rw_body := ?t, rw_accepts := []\<rparr>\<rparr>), length ?t)"
    using w by (simp add: implicit_200_def)
  show ?thesis
    using p w 2 3 by (simp add: recoverAndRespond_def wrapper_def Let_def on_wrap_def set_header_def del: WriteHeader.simps Write.simps)
qed

text \<open>A handler that sets headers, finds the route \<open>pat\<close> and panics.\<close>

definition panics_early :: "handler \<Rightarrow> string \<Rightarrow> panic \<Rightarrow> bool" where
  "panics_early h pat p \<longleftrightarrow>
     (\<forall>r w s. \<exists>hdr pat'. h r w s =
        (s\<lparr>h_raw := (h_raw s)\<lparr>rw_header := hdr\<rparr>,
           h_holders := (case rq_holder r of None \<Rightarrow> h_holders s | Some k \<Rightarrow> (h_holders s)[k := pat])\<rparr>, pat', Panicked p))"

lemma panics_early_capture:
  assumes "\<And>r s. list_all header_only (sc_acts (f r s)) \<and> sc_pattern (f r s) = pat \<and> sc_end (f r s) = Panicked p"
  shows "panics_early (CaptureRoutePattern (scripted f)) pat p"
  unfolding panics_early_def
proof (intro allI)
  fix r :: request and w :: writer and s :: http
  obtain hdr where "do_acts w (sc_acts (f r s)) s = (on_raw (\<lambda>x. x\<lparr>rw_header := hdr\<rparr>) s, Returned)"
    using header_acts assms by blast
  then have "CaptureRoutePattern (scripted f) r w s =
      (s\<lparr>h_raw := (h_raw s)\<lparr>rw_header := hdr\<rparr>,
         h_holders := (case rq_holder r of None \<Rightarrow> h_holders s | Some k \<Rightarrow> (h_holders s)[k := pat])\<rparr>, pat, Panicked p)"
    using assms [of r s] by (simp add: CaptureRoutePattern_def scripted_def Let_def split: option.split)
  then show "\<exists>hdr pat'. CaptureRoutePattern (scripted f) r w s =
      (s\<lparr>h_raw := (h_raw s)\<lparr>rw_header := hdr\<rparr>,
         h_holders := (case rq_holder r of None \<Rightarrow> h_holders s | Some k \<Rightarrow> (h_holders s)[k := pat])\<rparr>, pat', Panicked p)"
    by blast
qed

lemma panics_early_timeout: "panics_early h pat p \<Longrightarrow> panics_early (Timeout d h) pat p"
  unfolding panics_early_def
proof (intro allI)
  fix r :: request and w :: writer and s :: http
  assume h: "\<forall>r w s. \<exists>hdr pat'. h r w s =
      (s\<lparr>h_raw := (h_raw s)\<lparr>rw_header := hdr\<rparr>,
         h_holders := (case rq_holder r of None \<Rightarrow> h_holders s | Some k \<Rightarrow> (h_holders s)[k := pat])\<rparr>, pat', Panicked p)"
  define t where "t = (case rq_deadline r of None \<Rightarrow> h_now s + d | Some u \<Rightarrow> min u (h_now s + d))"
  from h obtain hdr pat' where "h (r\<lparr>rq_deadline := Some t\<rparr>) w s =
      (s\<lparr>h_raw := (h_raw s)\<lparr>rw_header := hdr\<rparr>,
         h_holders := (case rq_holder (r\<lparr>rq_deadline := Some t\<rparr>) of None \<Rightarrow> h_holders s | Some k \<Rightarrow> (h_holders s)[k := pat])\<rparr>, pat', Panicked p)"
    by blast
  then show "\<exists>hdr pat'. Timeout d h r w s =
      (s\<lparr>h_raw := (h_raw s)\<lparr>rw_header := hdr\<rparr>,
         h_holders := (case rq_holder r of None \<Rightarrow> h_holders s | Some k \<Rightarrow> (h_holders s)[k := pat])\<rparr>, pat', Panicked p)"
    unfolding Timeout_def Let_def t_def [symmetric] by auto
qed

lemma logged_panic:
  assumes h: "panics_early h pat p" "pat \<noteq> []" and p: "p \<noteq> Abort_handler" and u: "unanswered s"
    and acc: "rw_accepts (h_raw s) = []" and e: "RequestLogger (Metrics True (Recoverer h)) r Raw s = (s', pat', out)"
  shows "out = Returned \<and> (\<exists>hdr. rw_sent (h_raw s') = Some (500, hdr) \<and>
      header_get hdr ''Content-Type'' = ''text/plain; charset=utf-8'') \<and>
    rw_body (h_raw s') = bytes_of ''internal server error'' \<and>
    h_counts s' = h_counts s @ [(normalizeMethod (rq_method r), pat, itoa 500)]"
proof -
  let ?i = "length (h_wraps s)" and ?k = "length (h_holders s)"
  let ?s0 = "s\<lparr>h_wraps := h_wraps s @ [\<lparr>status = 0, bytes_written = 0, wroteHeader = False\<rparr>]\<rparr>"
  let ?s1 = "?s0\<lparr>h_holders := h_holders s @ [[]], h_inflight := h_inflight s + 1\<rparr>"
  let ?r = "r\<lparr>rq_holder := Some ?k\<rparr>"
  from h(1) obtain hdr0 pat0 where "h ?r (Wrap ?i Raw) ?s1 =
      (?s1\<lparr>h_raw := (h_raw ?s1)\<lparr>rw_header := hdr0\<rparr>,
         h_holders := (case rq_holder ?r of None \<Rightarrow> h_holders ?s1 | Some k \<Rightarrow> (h_holders ?s1)[k := pat])\<rparr>, pat0, Panicked p)"
    unfolding panics_early_def by blast
  moreover define s2 where "s2 = ?s1\<lparr>h_raw := (h_raw ?s1)\<lparr>rw_header := hdr0\<rparr>, h_holders := h_holders s @ [pat]\<rparr>"
  ultimately have 2: "h ?r (Wrap ?i Raw) ?s1 = (s2, pat0, Panicked p)" by simp
  have u2: "unanswered s2" "?i < length (h_wraps s2)" "\<not> wroteHeader (h_wraps s2 ! ?i)" "rw_accepts (h_raw s2) = []"
    using u acc by (simp_all add: s2_def unanswered_def)
  obtain s3 hdr where 3: "recoverAndRespond p (Wrap ?i Raw) ?r s2 = (s3, Returned)"
    and sent: "rw_sent (h_raw s3) = Some (500, hdr)" "header_get hdr ''Content-Type'' = ''text/plain; charset=utf-8''"
      "rw_body (h_raw s3) = bytes_of ''internal server error''" "status (h_wraps s3 ! ?i) = 500"
    and same: "h_counts s3 = h_counts s2" "h_holders s3 = h_holders s2"
    using recover_unanswered [OF u2 p] by blast
  have R: "Recoverer h ?r (Wrap ?i Raw) ?s1 = (s3, pat0, Returned)"
    using 2 3 by (simp add: Recoverer_def reuse_wrapper_def)
  have s3: "h_counts s3 = h_counts s" "h_holders s3 ! ?k = pat" using same by (simp_all add: s2_def)
  obtain s4 where 4: "Metrics True (Recoverer h) r (Wrap ?i Raw) ?s0 = (s4, rq_pattern r, Returned)"
    and h4: "h_raw s4 = h_raw s3"
    and c4: "h_counts s4 = h_counts s @ [(normalizeMethod (rq_method r), pat, itoa 500)]"
    using R s3 sent(4) h(2) by (auto simp: Metrics_def reuse_wrapper_def Let_def shown_status_def wrapper_def)
  have "h_raw s' = h_raw s4" "h_counts s' = h_counts s4" "out = Returned"
    using e 4 by (auto simp: RequestLogger_def new_wrapper_def Let_def)
  then show ?thesis using sent c4 h4 by simp
qed


section \<open>Samples\<close>

definition sample_http_config :: http_config where
  "sample_http_config =
     \<lparr>hc_server = \<lparr>Addr = '':8080'', TrustedProxies = [], RequestTimeout = 120 * second, PublicBaseURL = []\<rparr>,
      hc_hsts = \<lparr>hsts_enabled = False, MaxAge = 0, MaxAgeSet = False, IncludeSubdomains = False, Preload = False\<rparr>,
      hc_csp = None\<rparr>"

text \<open>One application route, which every request matches.\<close>

definition sample_mux :: mux_lib where
  "sample_mux = \<lparr>mux_match = (\<lambda>pats r. Some (last pats)), mux_not_found = (\<lambda>r w s. (s, [], Returned))\<rparr>"

definition sample_deps :: "script \<Rightarrow> deps" where
  "sample_deps sc =
     \<lparr>dp_ready = None, dp_routes = Some (\<lambda>m. m @ [(''GET /boom'', scripted (\<lambda>_ _. sc))]), dp_middleware = [],
      dp_metrics = True, dp_metrics_handler = None\<rparr>"

lemma sample_routes: "routes sample_mux (sample_deps sc) = scripted (\<lambda>_ _. sc)"
  by (intro ext) (simp add: routes_def serve_mux_def sample_mux_def sample_deps_def base_routes_def scripted_def)

definition sample_page :: script where
  "sample_page = \<lparr>sc_acts = [Write_header 404, Write_body [1, 2]], sc_pattern = ''GET /boom'', sc_end = Returned\<rparr>"

definition sample_crash :: script where
  "sample_crash = \<lparr>sc_acts = [Set_header ''Etag'' ''x''], sc_pattern = ''GET /boom'', sc_end = Panicked (Other_panic ''boom'')\<rparr>"



end
