(* ===== verification/Cache.thy ===== *)
theory Cache
  imports Prelude
begin

text \<open>
  The cache port and its two implementations, \<open>cache\<close>. The in-process cache is a map whose entries
  expire lazily; the persistent one is a thin layer over \<open>github.com/dgraph-io/badger\<close>, whose
  database is a parameter. A value is copied on the way in and out, which in a model without
  aliasing is the value itself. Time is that of the call.
\<close>

datatype cache_error = ErrNegativeTTL | Cache_other

section \<open>In memory, \<open>memory.go\<close>\<close>

record memory_entry =
  me_value :: bytes
  me_expires :: time     \<comment> \<open>the zero time: never\<close>

record memory_cache =
  entries :: "(string \<times> memory_entry) list"

definition NewMemoryCache :: memory_cache where
  "NewMemoryCache = \<lparr>entries = []\<rparr>"

definition mem_get :: "string \<Rightarrow> time \<Rightarrow> memory_cache \<Rightarrow> memory_cache \<times> bytes option" where
  "mem_get k now c =
     (case map_of (entries c) k of
        None \<Rightarrow> (c, None)
      | Some e \<Rightarrow>
          if me_expires e \<noteq> zero_time \<and> me_expires e < now
          then (c\<lparr>entries := AList.delete k (entries c)\<rparr>, None)
          else (c, Some (me_value e)))"

definition mem_set :: "string \<Rightarrow> bytes \<Rightarrow> duration \<Rightarrow> time \<Rightarrow> memory_cache \<Rightarrow> memory_cache \<times> (cache_error + unit)" where
  "mem_set k v ttl now c =
     (if ttl < 0 then (c, Inl ErrNegativeTTL)
      else
        let t = (if ttl > 0 then now + ttl else zero_time)
        in (c\<lparr>entries := AList.update k \<lparr>me_value = v, me_expires = t\<rparr> (entries c)\<rparr>, Inr ()))"

definition mem_delete :: "string \<Rightarrow> memory_cache \<Rightarrow> memory_cache" where
  "mem_delete k c = c\<lparr>entries := AList.delete k (entries c)\<rparr>"

section \<open>The contract of the port, \<open>cache.go\<close>\<close>

text \<open>
  What a \<open>Get\<close> of a key at an instant would find, and how each operation changes that from now
  on. A value that was stored with a lifetime may go up to a second early, and up to a second late
  when the lifetime is shorter than that.
\<close>

locale cache_port =
  fixes view :: "'c \<Rightarrow> time \<Rightarrow> string \<Rightarrow> bytes option"
    and get :: "string \<Rightarrow> time \<Rightarrow> 'c \<Rightarrow> 'c \<times> bytes option"
    and put :: "string \<Rightarrow> bytes \<Rightarrow> duration \<Rightarrow> time \<Rightarrow> 'c \<Rightarrow> 'c \<times> (cache_error + unit)"
    and del :: "string \<Rightarrow> 'c \<Rightarrow> 'c"
  assumes get_reads: "snd (get k now c) = view c now k"
    and get_keeps: "now \<le> t \<Longrightarrow> view (fst (get k now c)) t j = view c t j"
    and put_negative: "ttl < 0 \<Longrightarrow> put k v ttl now c = (c, Inl ErrNegativeTTL)"
    and put_fresh: "0 < now \<Longrightarrow> 0 \<le> ttl \<Longrightarrow> now \<le> t \<Longrightarrow> ttl = 0 \<or> t + second \<le> now + ttl \<Longrightarrow>
          view (fst (put k v ttl now c)) t k = Some v"
    and put_stale: "0 < now \<Longrightarrow> 0 < ttl \<Longrightarrow> now + max ttl second < t \<Longrightarrow> view (fst (put k v ttl now c)) t k = None"
    and put_others: "0 \<le> ttl \<Longrightarrow> j \<noteq> k \<Longrightarrow> view (fst (put k v ttl now c)) t j = view c t j"
    and del_gone: "view (del k c) t k = None"
    and del_others: "j \<noteq> k \<Longrightarrow> view (del k c) t j = view c t j"
begin

lemma read_back:
  assumes "0 < now" and "0 \<le> ttl" and "now \<le> t" and "ttl = 0 \<or> t + second \<le> now + ttl"
  shows "snd (get k t (fst (put k v ttl now c))) = Some v"
  using put_fresh [OF assms] by (simp add: get_reads)

lemma never_stale:
  assumes "0 < now" and "0 < ttl" and "now + max ttl second < t"
  shows "snd (get k t (fst (put k v ttl now c))) = None"
  using put_stale [OF assms] by (simp add: get_reads)

lemma get_twice: "now \<le> t \<Longrightarrow> snd (get k t (fst (get k now c))) = snd (get k t c)"
  by (simp add: get_reads get_keeps)

end

definition mem_view :: "memory_cache \<Rightarrow> time \<Rightarrow> string \<Rightarrow> bytes option" where
  "mem_view c t k =
     (case map_of (entries c) k of None \<Rightarrow> None
      | Some e \<Rightarrow> if me_expires e \<noteq> zero_time \<and> me_expires e < t then None else Some (me_value e))"

lemma mem_get_view: "snd (mem_get k now c) = mem_view c now k"
  by (simp add: mem_get_def mem_view_def split: option.split)

lemma mem_get_keeps: "now \<le> t \<Longrightarrow> mem_view (fst (mem_get k now c)) t j = mem_view c t j"
  by (auto simp: mem_get_def mem_view_def split: option.split)

interpretation mc: cache_port mem_view mem_get mem_set mem_delete
  by unfold_locales
    (auto simp: mem_get_view mem_get_keeps, auto simp: mem_set_def mem_view_def mem_delete_def zero_time_def second_def)

section \<open>Histories\<close>

text \<open>A sequence of calls on the in-process cache, each at its time, and the answers of its \<open>Get\<close>s.\<close>

datatype call = Get string | Set string bytes duration | Delete string

definition mem_step :: "time \<times> call \<Rightarrow> memory_cache \<Rightarrow> memory_cache \<times> bytes option list" where
  "mem_step x c =
     (case x of
        (now, Get k) \<Rightarrow> (fst (mem_get k now c), [snd (mem_get k now c)])
      | (now, Set k v ttl) \<Rightarrow> (fst (mem_set k v ttl now c), [])
      | (now, Delete k) \<Rightarrow> (mem_delete k c, []))"

fun mem_run :: "(time \<times> call) list \<Rightarrow> memory_cache \<Rightarrow> memory_cache \<times> bytes option list" where
  "mem_run [] c = (c, [])"
| "mem_run (x # xs) c =
     (case mem_step x c of (c, r) \<Rightarrow> (case mem_run xs c of (c, rs) \<Rightarrow> (c, r @ rs)))"

text \<open>The reference: look back through the calls, the latest first, for the one that decides.\<close>

fun look_back :: "string \<Rightarrow> time \<Rightarrow> (time \<times> call) list \<Rightarrow> bytes option" where
  "look_back k now [] = None"
| "look_back k now ((t, Get j) # past) = look_back k now past"
| "look_back k now ((t, Set j v ttl) # past) =
     (if j = k \<and> 0 \<le> ttl then (if ttl = 0 \<or> now \<le> t + ttl then Some v else None)
      else look_back k now past)"
| "look_back k now ((t, Delete j) # past) = (if j = k then None else look_back k now past)"

fun answers :: "(time \<times> call) list \<Rightarrow> (time \<times> call) list \<Rightarrow> bytes option list" where
  "answers past [] = []"
| "answers past ((t, Get k) # xs) = look_back k t past # answers ((t, Get k) # past) xs"
| "answers past (x # xs) = answers (x # past) xs"

definition reflects :: "memory_cache \<Rightarrow> (time \<times> call) list \<Rightarrow> time \<Rightarrow> bool" where
  "reflects c past now \<longleftrightarrow> (\<forall>k. \<forall>t \<ge> now. mem_view c t k = look_back k t past)"

lemma step_reflects:
  assumes r: "reflects c past now" and t: "now \<le> fst x" "0 < fst x"
  shows "reflects (fst (mem_step x c)) (x # past) (fst x)"
proof -
  have view: "mem_view c s k = look_back k s past" if "fst x \<le> s" for s k
    using r t that by (simp add: reflects_def)
  obtain u a where x: "x = (u, a)" by (cases x)
  show ?thesis
  proof (cases a)
    case (Get k)
    with view x show ?thesis by (simp add: reflects_def mem_step_def mem_get_keeps)
  next
    case (Delete k)
    with view x show ?thesis by (auto simp: reflects_def mem_step_def mem_delete_def mem_view_def)
  next
    case (Set k v ttl)
    have "mem_view (fst (mem_set k v ttl u c)) s j =
        (if k = j \<and> 0 \<le> ttl then (if ttl = 0 \<or> s \<le> u + ttl then Some v else None) else mem_view c s j)" for s j
      using t x by (auto simp: mem_set_def mem_view_def zero_time_def)
    with view x Set show ?thesis by (simp add: reflects_def mem_step_def)
  qed
qed

lemma run_answers:
  assumes "reflects c past now" and "sorted (now # map fst xs)" and "0 < now"
  shows "snd (mem_run xs c) = answers past xs"
  using assms
proof (induction xs arbitrary: c past now)
  case Nil
  then show ?case by simp
next
  case (Cons x xs)
  obtain u a where x: "x = (u, a)" by (cases x)
  have r: "reflects (fst (mem_step x c)) (x # past) u"
    using step_reflects [OF Cons.prems(1), of x] Cons.prems(2,3) x by simp
  have IH: "snd (mem_run xs (fst (mem_step x c))) = answers (x # past) xs"
    using Cons.IH [OF r] Cons.prems(2,3) x by simp
  have "mem_view c u k = look_back k u past" for k
    using Cons.prems(1,2) x by (simp add: reflects_def)
  then show ?case
    using IH mem_get_view [of _ u c] x by (cases a) (simp_all add: mem_step_def split_beta)
qed

text \<open>C33: the in-process cache refines its history: for any sequence of calls at times that do not go
  back, each \<open>Get\<close> answers with the value of the latest valid \<open>Set\<close> of its key unless that has
  expired or been deleted since, whatever expired entries were dropped or kept on the way.\<close>

theorem memory_cache_refines_history:
  assumes "sorted (map fst xs)" and "list_all (\<lambda>x. 0 < fst x) xs"
  shows "snd (mem_run xs NewMemoryCache) = answers [] xs"
proof (cases xs)
  case Nil
  then show ?thesis by simp
next
  case (Cons x ys)
  have "reflects NewMemoryCache [] (fst x)" by (simp add: reflects_def mem_view_def NewMemoryCache_def)
  moreover have "sorted (fst x # map fst xs)" and "0 < fst x" using assms Cons by simp_all
  ultimately show ?thesis by (rule run_answers)
qed

theorem memory_cache_refines_history_witness:
  "snd (mem_run [(1, Set ''k'' [7] 5), (2, Get ''k''), (3, Set ''k'' [8] (-1)), (6, Get ''k''), (7, Get ''k'')] NewMemoryCache) =
     [Some [7], Some [7], None]"
proof -
  have "answers [] [(1, Set ''k'' [7] 5), (2, Get ''k''), (3, Set ''k'' [8] (-1)), (6, Get ''k''), (7, Get ''k'')] =
      [Some [7], Some [7], None]" by simp
  then show ?thesis
    using memory_cache_refines_history
      [of "[(1, Set ''k'' [7] 5), (2, Get ''k''), (3, Set ''k'' [8] (-1)), (6, Get ''k''), (7, Get ''k'')]"] by simp
qed

section \<open>On disk, \<open>badger.go\<close>\<close>

datatype badger_error = ErrKeyNotFound | ErrNoRewrite | Badger_other

text \<open>An open database in a world \<open>'w\<close>: its transactions of one read, one write (with a lifetime, if
  it has one) and one deletion, one round of garbage collection, and \<open>Close\<close>.\<close>

record 'w badger_db =
  bd_get :: "string \<Rightarrow> time \<Rightarrow> 'w \<Rightarrow> badger_error + bytes"
  bd_set :: "string \<Rightarrow> bytes \<Rightarrow> duration option \<Rightarrow> time \<Rightarrow> 'w \<Rightarrow> 'w \<times> badger_error option"
  bd_delete :: "string \<Rightarrow> 'w \<Rightarrow> 'w \<times> badger_error option"
  bd_gc :: "'w \<Rightarrow> 'w \<times> badger_error option"
  bd_close :: "'w \<Rightarrow> 'w \<times> badger_error option"

record badger_options =
  op_mem_table :: nat
  op_num_memtables :: nat
  op_level_zero :: nat
  op_level_zero_stall :: nat
  op_base_table :: nat
  op_value_log_file :: nat
  op_compactors :: nat
  op_block_cache :: nat
  op_index_cache :: nat
  op_value_threshold :: nat

definition pi_options :: badger_options where
  "pi_options =
     \<lparr>op_mem_table = 8 * 2 ^ 20, op_num_memtables = 2, op_level_zero = 2, op_level_zero_stall = 5,
      op_base_table = 2 * 2 ^ 20, op_value_log_file = 16 * 2 ^ 20, op_compactors = 2,
      op_block_cache = 16 * 2 ^ 20, op_index_cache = 8 * 2 ^ 20, op_value_threshold = 2 ^ 10\<rparr>"

record 'w badger_lib =
  bl_open :: "badger_options \<Rightarrow> string \<Rightarrow> 'w \<Rightarrow> 'w \<times> (badger_error + 'w badger_db)"
  bl_remove_all :: "string \<Rightarrow> 'w \<Rightarrow> 'w \<times> bool"     \<comment> \<open>\<open>os.RemoveAll\<close>, and whether it succeeded\<close>

definition openBadger :: "'w badger_lib \<Rightarrow> string \<Rightarrow> 'w \<Rightarrow> 'w \<times> (badger_error + 'w badger_db)" where
  "openBadger lib dir w = bl_open lib pi_options dir w"

definition NewBadgerCache :: "'w badger_lib \<Rightarrow> string \<Rightarrow> 'w \<Rightarrow> 'w \<times> (cache_error + 'w badger_db)" where
  "NewBadgerCache lib dir w =
     (case openBadger lib dir w of
        (w, Inr b) \<Rightarrow> (w, Inr b)
      | (w, Inl _) \<Rightarrow>
          (case bl_remove_all lib dir w of
             (w, False) \<Rightarrow> (w, Inl Cache_other)
           | (w, True) \<Rightarrow>
               (case openBadger lib dir w of
                  (w, Inr b) \<Rightarrow> (w, Inr b)
                | (w, Inl _) \<Rightarrow> (w, Inl Cache_other))))"

definition badger_get :: "'w badger_db \<Rightarrow> string \<Rightarrow> time \<Rightarrow> 'w \<Rightarrow> cache_error + bytes option" where
  "badger_get b k now w =
     (case bd_get b k now w of
        Inr v \<Rightarrow> Inr (Some v)
      | Inl ErrKeyNotFound \<Rightarrow> Inr None
      | Inl _ \<Rightarrow> Inl Cache_other)"

definition badgerMinTTL :: duration where "badgerMinTTL = second"

definition badger_set :: "'w badger_db \<Rightarrow> string \<Rightarrow> bytes \<Rightarrow> duration \<Rightarrow> time \<Rightarrow> 'w \<Rightarrow> 'w \<times> (cache_error + unit)" where
  "badger_set b k v ttl now w =
     (if ttl < 0 then (w, Inl ErrNegativeTTL)
      else
        let life = (if ttl > 0 then Some (if ttl < badgerMinTTL then badgerMinTTL else ttl) else None)
        in case bd_set b k v life now w of
             (w, None) \<Rightarrow> (w, Inr ())
           | (w, Some _) \<Rightarrow> (w, Inl Cache_other))"

definition badger_delete :: "'w badger_db \<Rightarrow> string \<Rightarrow> 'w \<Rightarrow> 'w \<times> (cache_error + unit)" where
  "badger_delete b k w =
     (case bd_delete b k w of (w, None) \<Rightarrow> (w, Inr ()) | (w, Some _) \<Rightarrow> (w, Inl Cache_other))"

definition badger_close :: "'w badger_db \<Rightarrow> 'w \<Rightarrow> 'w \<times> (cache_error + unit)" where
  "badger_close b w =
     (case bd_close b w of (w, None) \<Rightarrow> (w, Inr ()) | (w, Some _) \<Rightarrow> (w, Inl Cache_other))"

text \<open>
  What badger documents of a lifetime: an entry expires at the whole second (in Unix time) in which
  its lifetime ends, and from the beginning of that second on it is as absent.
\<close>

definition badger_expiry_ok :: "'w badger_db \<Rightarrow> bool" where
  "badger_expiry_ok b \<longleftrightarrow>
     (\<forall>k v life now w w'. bd_set b k v life now w = (w', None) \<longrightarrow>
        (\<forall>t \<ge> now. bd_get b k t w' =
           (case life of None \<Rightarrow> Inr v
            | Some d \<Rightarrow> if t div second < (now + d) div second then Inr v else Inl ErrKeyNotFound)))"

text \<open>C34: the persistent cache keeps the port's promise on lifetimes: a value that was stored is found
  at once and until a second before its lifetime ends, and is gone once the lifetime, or a second
  if that is longer, has passed; without a lifetime it stays.\<close>

theorem badger_lifetime_bounds:
  assumes "badger_expiry_ok b" and set: "badger_set b k v ttl now w = (w', Inr ())" and "now \<le> t"
  shows "(if ttl = 0 \<or> t = now \<or> t + second \<le> now + ttl then badger_get b k t w' = Inr (Some v)
      else t \<le> now + max ttl second \<or> badger_get b k t w' = Inr None)"
proof -
  define d where "d = (if ttl < badgerMinTTL then badgerMinTTL else ttl)"
  have ttl: "0 \<le> ttl" using set by (auto simp: badger_set_def split: if_splits)
  then have "bd_set b k v (if ttl > 0 then Some d else None) now w = (w', None)"
    using set by (auto simp: badger_set_def Let_def d_def split: prod.splits option.splits if_splits)
  then have got: "bd_get b k t w' = (case (if ttl > 0 then Some d else None) of None \<Rightarrow> Inr v
      | Some d \<Rightarrow> if t div second < (now + d) div second then Inr v else Inl ErrKeyNotFound)"
    using assms(1,3) unfolding badger_expiry_ok_def by blast
  have d: "second \<le> d" "ttl \<le> d" "d = max ttl second" by (simp_all add: d_def badgerMinTTL_def)
  have early: "t div second < (now + d) div second" if "t + second \<le> now + d"
  proof -
    have "(t + second) div second \<le> (now + d) div second" using that by (simp add: zdiv_mono1 second_def)
    then show ?thesis by (simp add: second_def)
  qed
  have late: "\<not> t div second < (now + d) div second" if "now + d < t"
    using zdiv_mono1 [of "now + d" t second] that by (simp add: second_def)
  show ?thesis
  proof (cases "ttl = 0")
    case True
    with got show ?thesis by (simp add: badger_get_def)
  next
    case False
    with ttl got have got: "bd_get b k t w' = (if t div second < (now + d) div second then Inr v else Inl ErrKeyNotFound)"
      by simp
    consider "t = now \<or> t + second \<le> now + ttl" | "\<not> (t = now \<or> t + second \<le> now + ttl)" "now + d < t"
      | "\<not> (t = now \<or> t + second \<le> now + ttl)" "t \<le> now + d"
      by linarith
    then show ?thesis
    proof cases
      case 1
      with d early have "t div second < (now + d) div second" by auto
      with 1 got show ?thesis by (simp add: badger_get_def)
    next
      case 2
      with late have "\<not> t div second < (now + d) div second" by simp
      with 2 got False show ?thesis by (simp add: badger_get_def)
    next
      case 3
      with False d(3) show ?thesis by simp
    qed
  qed
qed

definition sample_badger :: "(string \<times> bytes \<times> int option) list badger_db" where
  "sample_badger =
     \<lparr>bd_get = (\<lambda>k t w. case map_of w k of None \<Rightarrow> Inl ErrKeyNotFound
          | Some (v, None) \<Rightarrow> Inr v
          | Some (v, Some u) \<Rightarrow> if t div second < u then Inr v else Inl ErrKeyNotFound),
      bd_set = (\<lambda>k v life now w. (AList.update k (v, map_option (\<lambda>d. (now + d) div second) life) w, None)),
      bd_delete = (\<lambda>k w. (AList.delete k w, None)),
      bd_gc = (\<lambda>w. (w, Some ErrNoRewrite)),
      bd_close = (\<lambda>w. (w, None))\<rparr>"

lemma sample_badger_ok: "badger_expiry_ok sample_badger"
  by (auto simp: badger_expiry_ok_def sample_badger_def split: option.split)

theorem badger_lifetime_bounds_witness:
  "badger_get sample_badger ''k'' 5 (fst (badger_set sample_badger ''k'' [1] 7 5 [])) = Inr (Some [1])"
proof -
  have "badger_set sample_badger ''k'' [1] 7 5 [] = (fst (badger_set sample_badger ''k'' [1] 7 5 []), Inr ())"
    by (simp add: badger_set_def sample_badger_def)
  from badger_lifetime_bounds [OF sample_badger_ok this, of 5] show ?thesis by simp
qed

section \<open>Garbage collection\<close>

text \<open>\<open>RunValueLogGCOnce\<close> collects until a round fails; whether it ends is up to the database, so a run
  that does not end is \<open>None\<close>.\<close>

partial_function (option) RunValueLogGCOnce :: "'w badger_db \<Rightarrow> 'w \<Rightarrow> ('w \<times> badger_error) option" where
  "RunValueLogGCOnce b w =
     (case bd_gc b w of (w, None) \<Rightarrow> RunValueLogGCOnce b w | (w, Some e) \<Rightarrow> Some (w, e))"

definition logGCOutcome :: "badger_error \<Rightarrow> badger_error list" where
  "logGCOutcome e = (if e = ErrNoRewrite then [] else [e])"

text \<open>The worker: a pass per tick until the context is cancelled. It is given the events it will see;
  the result is the world, the errors it logs and whether it has stopped.\<close>

datatype gc_event = Tick | Cancelled

fun RunGC :: "'w badger_db \<Rightarrow> gc_event list \<Rightarrow> 'w \<Rightarrow> ('w \<times> badger_error list \<times> bool) option" where
  "RunGC b [] w = Some (w, [], False)"
| "RunGC b (Cancelled # _) w = Some (w, [], True)"
| "RunGC b (Tick # es) w =
     (case RunValueLogGCOnce b w of None \<Rightarrow> None
      | Some (w, e) \<Rightarrow> map_option (\<lambda>(w, ls, stopped). (w, logGCOutcome e @ ls, stopped)) (RunGC b es w))"

definition reclaims :: "'w badger_db \<Rightarrow> ('w \<Rightarrow> nat) \<Rightarrow> bool" where
  "reclaims b files \<longleftrightarrow> (\<forall>w w'. bd_gc b w = (w', None) \<longrightarrow> files w' < files w)"

lemma gc_pass:
  assumes "reclaims b files"
  shows "\<exists>w' e. RunValueLogGCOnce b w = Some (w', e)"
proof (induction "files w" arbitrary: w rule: less_induct)
  case less
  obtain w1 r where g: "bd_gc b w = (w1, r)" by (cases "bd_gc b w")
  show ?case
  proof (cases r)
    case None
    with g assms have "files w1 < files w" by (simp add: reclaims_def)
    from less [OF this] g None show ?thesis by (subst RunValueLogGCOnce.simps) simp
  next
    case (Some e)
    with g show ?thesis by (subst RunValueLogGCOnce.simps) simp
  qed
qed

text \<open>As long as every successful round reclaims a file of the value log, the collection ends:
  a pass on demand returns, and the worker gets through any ticks and has stopped exactly if its
  context was cancelled.\<close>

theorem garbage_collection_ends:
  assumes "reclaims b files"
  shows "(\<exists>w' e. RunValueLogGCOnce b w = Some (w', e)) \<and>
    (\<exists>w' ls. RunGC b es w = Some (w', ls, Cancelled \<in> set es))"
proof
  show "\<exists>w' e. RunValueLogGCOnce b w = Some (w', e)" by (rule gc_pass [OF assms])
  show "\<exists>w' ls. RunGC b es w = Some (w', ls, Cancelled \<in> set es)"
  proof (induction es arbitrary: w)
    case Nil
    then show ?case by simp
  next
    case (Cons ev es)
    show ?case
    proof (cases ev)
      case Tick
      obtain w1 e where "RunValueLogGCOnce b w = Some (w1, e)" using gc_pass [OF assms] by blast
      with Cons [of w1] Tick show ?thesis by auto
    next
      case Cancelled
      then show ?thesis by simp
    qed
  qed
qed

end
