(* ===== verification/Bootstrap.thy ===== *)
theory Bootstrap
  imports Config Go_Os
begin

text \<open>
  First-run detection and the persisted configuration, \<open>bootstrap/bootstrap.go\<close>, on the disk of
  \<open>Go_Os\<close> (which has no file modes) and the process environment. \<open>encoding/json\<close> is a parameter
  that writes and reads a state.
\<close>

definition defaultStateDir :: string where "defaultStateDir = ''./.localdata''"
definition secretLen :: nat where "secretLen = 32"

datatype boot_error = ErrEmptyAppName | ErrInvalidAppName | Boot_other

section \<open>Applications\<close>

record app =
  app_name :: string

definition name_rune :: "nat \<Rightarrow> bool" where
  "name_rune r \<longleftrightarrow> (97 \<le> r \<and> r \<le> 122) \<or> (65 \<le> r \<and> r \<le> 90) \<or> (48 \<le> r \<and> r \<le> 57) \<or> r = 95 \<or> r = 45"

definition isValidAppName :: "string \<Rightarrow> bool" where
  "isValidAppName name = list_all (\<lambda>p. name_rune (fst p)) (runes name)"

definition NewApp :: "string \<Rightarrow> boot_error + app" where
  "NewApp name =
     (let t = trim_space name
      in if t = [] then Inl ErrEmptyAppName
         else if \<not> isValidAppName t then Inl ErrInvalidAppName
         else Inr \<lparr>app_name = t\<rparr>)"

text \<open>\<open>strings.ToUpper\<close> of ASCII text, which a valid name is.\<close>

definition to_upper :: "string \<Rightarrow> string" where
  "to_upper s = map (\<lambda>c. if 0x61 \<le> byte_at c \<and> byte_at c \<le> 0x7A then char_of (byte_at c - 0x20) else c) s"

definition StateFileEnv :: "app \<Rightarrow> string" where
  "StateFileEnv a = to_upper (app_name a) @ ''_STATE_FILE''"

definition ForceSetupEnv :: "app \<Rightarrow> string" where
  "ForceSetupEnv a = to_upper (app_name a) @ ''_FORCE_SETUP''"

definition StatePath :: "app \<Rightarrow> env \<Rightarrow> string" where
  "StatePath a e =
     (let p = trim_space (Getenv (StateFileEnv a) e)
      in if p \<noteq> [] then p else defaultStateDir @ ''/'' @ to_lower (app_name a) @ ''.json'')"

section \<open>States\<close>

record state =
  DatabaseURL :: string
  SessionSecret :: string
  StateKey :: string
  StateProvider :: string
  StatePoolMode :: string
  StateRootCert :: string

definition NeedsSetup :: "app \<Rightarrow> state option \<Rightarrow> env \<Rightarrow> bool" where
  "NeedsSetup a st e =
     (if parse_bool (trim_space (Getenv (ForceSetupEnv a) e)) = Some True then True
      else if (case st of None \<Rightarrow> False | Some s \<Rightarrow> trim_space (DatabaseURL s) \<noteq> []) then False
      else if trim_space (Getenv ''DATABASE_URL'' e) \<noteq> [] then False
      else
        let v = trim_space (Getenv ''APP_ENV'' e)
        in (if v = [] then EnvDev else v) \<noteq> EnvDev)"

record json_lib =
  marshal :: "state \<Rightarrow> bytes"
  unmarshal :: "bytes \<Rightarrow> state option"

definition LoadState :: "json_lib \<Rightarrow> string \<Rightarrow> disk \<Rightarrow> disk \<times> (boot_error + state option)" where
  "LoadState js path d =
     (case os_at os_lookup path d of
        (d, Inl NotExist) \<Rightarrow> (d, Inr None)
      | (d, Inl _) \<Rightarrow> (d, Inl Boot_other)
      | (d, Inr Dir) \<Rightarrow> (d, Inl Boot_other)
      | (d, Inr (File b)) \<Rightarrow>
          (case unmarshal js b of None \<Rightarrow> (d, Inl Boot_other) | Some s \<Rightarrow> (d, Inr (Some s))))"

text \<open>\<open>os.WriteFile\<close>: the file is created, or emptied when it is there, and then written, so a failure
  in between leaves it empty.\<close>

definition os_truncate :: "string list \<Rightarrow> tree \<Rightarrow> os_error + tree \<times> unit" where
  "os_truncate p t =
     (case lookup_node t p of
        Inr (File _) \<Rightarrow> Inr (AList.update p (File []) t, ())
      | Inr Dir \<Rightarrow> Inl OsOther
      | Inl _ \<Rightarrow> os_create p t)"

definition write_file :: "string \<Rightarrow> bytes \<Rightarrow> disk \<Rightarrow> disk \<times> (os_error + unit)" where
  "write_file path b d =
     (case os_at os_truncate path d of
        (d, Inl x) \<Rightarrow> (d, Inl x)
      | (d, Inr _) \<Rightarrow> os_at (\<lambda>p. os_write p b) path d)"

text \<open>\<open>os.Chmod\<close> only can fail here.\<close>

definition SaveState :: "json_lib \<Rightarrow> string \<Rightarrow> state option \<Rightarrow> disk \<Rightarrow> disk \<times> (boot_error + unit)" where
  "SaveState js path st d =
     (case st of None \<Rightarrow> (d, Inl Boot_other)
      | Some s \<Rightarrow>
          (case os_at os_mkdir_all (path_dir path) d of
             (d, Inl _) \<Rightarrow> (d, Inl Boot_other)
           | (d, Inr _) \<Rightarrow>
               (case write_file path (marshal js s) d of
                  (d, Inl _) \<Rightarrow> (d, Inl Boot_other)
                | (d, Inr _) \<Rightarrow>
                    (case os_at os_lookup path d of
                       (d, Inl _) \<Rightarrow> (d, Inl Boot_other)
                     | (d, Inr _) \<Rightarrow> (d, Inr ())))))"

section \<open>The environment\<close>

text \<open>\<open>os.Setenv\<close> refuses a name that is empty or has \<open>=\<close> or NUL in it, and a value with NUL.\<close>

definition Setenv :: "string \<Rightarrow> string \<Rightarrow> env \<Rightarrow> env option" where
  "Setenv k v e =
     (if k = [] \<or> CHR ''='' \<in> set k \<or> CHR 0x00 \<in> set k \<or> CHR 0x00 \<in> set v then None else Some (AList.update k v e))"

definition setEnvIfAbsent :: "string \<Rightarrow> string \<Rightarrow> env \<Rightarrow> env \<times> (boot_error + unit)" where
  "setEnvIfAbsent k v e =
     (if v = [] \<or> Getenv k e \<noteq> [] then (e, Inr ())
      else case Setenv k v e of None \<Rightarrow> (e, Inl Boot_other) | Some e' \<Rightarrow> (e', Inr ()))"

fun set_all :: "(string \<times> string) list \<Rightarrow> env \<Rightarrow> env \<times> (boot_error + unit)" where
  "set_all [] e = (e, Inr ())"
| "set_all ((k, v) # kvs) e =
     (case setEnvIfAbsent k v e of (e, Inl x) \<Rightarrow> (e, Inl x) | (e, Inr _) \<Rightarrow> set_all kvs e)"

definition db_vars :: "state \<Rightarrow> (string \<times> string) list" where
  "db_vars s =
     [(''DATABASE_URL'', DatabaseURL s), (''DB_PROVIDER'', StateProvider s), (''DB_POOL_MODE'', StatePoolMode s),
      (''DB_SSL_ROOT_CERT'', StateRootCert s)]"

definition ExportToEnv :: "state option \<Rightarrow> env \<Rightarrow> env \<times> (boot_error + unit)" where
  "ExportToEnv st e =
     (case st of None \<Rightarrow> (e, Inr ())
      | Some s \<Rightarrow>
          (case set_all [(''SESSION_SECRET'', SessionSecret s), (''ENCRYPTION_KEY'', StateKey s)] e of
             (e, Inl x) \<Rightarrow> (e, Inl x)
           | (e, Inr _) \<Rightarrow>
               if list_ex (\<lambda>(k, _). Getenv k e \<noteq> []) (db_vars s) then (e, Inr ())
               else set_all (db_vars s) e))"

text \<open>\<open>GenerateSecret\<close> takes its bytes from the system's randomness.\<close>

definition GenerateSecret :: "bytes \<Rightarrow> (string \<times> bytes) option" where
  "GenerateSecret src =
     (if length src < secretLen then None else Some (hex_encode (take secretLen src), drop secretLen src))"

section \<open>The operator's environment wins\<close>

lemma Getenv_update: "Getenv k (AList.update j v e) = (if j = k then v else Getenv k e)"
  by (simp add: Getenv_def LookupEnv_def)

lemma setEnvIfAbsent_keeps:
  assumes "setEnvIfAbsent k v e = (e', r)"
  shows "Getenv j e \<noteq> [] \<Longrightarrow> Getenv j e' = Getenv j e" and "j \<noteq> k \<Longrightarrow> Getenv j e' = Getenv j e"
  using assms by (auto simp: setEnvIfAbsent_def Setenv_def Getenv_update split: if_splits)

lemma set_all_keeps:
  assumes "set_all kvs e = (e', r)"
  shows "Getenv j e \<noteq> [] \<Longrightarrow> Getenv j e' = Getenv j e" and "j \<notin> fst ` set kvs \<Longrightarrow> Getenv j e' = Getenv j e"
proof -
  have "(Getenv j e \<noteq> [] \<longrightarrow> Getenv j e' = Getenv j e) \<and> (j \<notin> fst ` set kvs \<longrightarrow> Getenv j e' = Getenv j e)"
    using assms
  proof (induction kvs arbitrary: e)
    case Nil
    then show ?case by simp
  next
    case (Cons kv kvs)
    obtain k v where kv: "kv = (k, v)" by (cases kv)
    obtain e1 x where s: "setEnvIfAbsent k v e = (e1, x)" by (cases "setEnvIfAbsent k v e")
    note K = setEnvIfAbsent_keeps [OF s, of j]
    show ?case
    proof (cases x)
      case (Inl err)
      with Cons.prems s K kv show ?thesis by auto
    next
      case (Inr u)
      with Cons.prems s kv have "set_all kvs e1 = (e', r)" by simp
      from Cons.IH [OF this] K kv show ?thesis by auto
    qed
  qed
  then show "Getenv j e \<noteq> [] \<Longrightarrow> Getenv j e' = Getenv j e" and "j \<notin> fst ` set kvs \<Longrightarrow> Getenv j e' = Getenv j e"
    by blast+
qed

text \<open>Exporting the persisted state never overrides the operator: every variable that was set
  keeps its value, and if any of the four variables of the connection was set, none of the
  persisted connection is applied, so the two are never mixed.\<close>

theorem operator_environment_wins:
  assumes "ExportToEnv st e = (e', r)"
  shows "(Getenv k e = [] \<or> Getenv k e' = Getenv k e) \<and>
    ((\<forall>x. x \<notin> {''DATABASE_URL'', ''DB_PROVIDER'', ''DB_POOL_MODE'', ''DB_SSL_ROOT_CERT''} \<or> Getenv x e = []) \<or>
     (\<forall>x. x \<notin> {''DATABASE_URL'', ''DB_PROVIDER'', ''DB_POOL_MODE'', ''DB_SSL_ROOT_CERT''} \<or> Getenv x e' = Getenv x e))"
proof (cases st)
  case None
  with assms show ?thesis by (simp add: ExportToEnv_def)
next
  case (Some s)
  let ?db = "{''DATABASE_URL'', ''DB_PROVIDER'', ''DB_POOL_MODE'', ''DB_SSL_ROOT_CERT''}"
  obtain e1 x where 1: "set_all [(''SESSION_SECRET'', SessionSecret s), (''ENCRYPTION_KEY'', StateKey s)] e = (e1, x)"
    by (metis prod.exhaust)
  note K = set_all_keeps [OF 1]
  have db1: "Getenv y e1 = Getenv y e" if "y \<in> ?db" for y using K(2) [of y] that by auto
  have vars: "fst ` set (db_vars s) = ?db" by (simp add: db_vars_def)
  consider "e' = e1" | "set_all (db_vars s) e1 = (e', r)" "\<not> list_ex (\<lambda>(k, _). Getenv k e1 \<noteq> []) (db_vars s)"
    using assms 1 Some by (auto simp: ExportToEnv_def split: sum.splits if_splits)
  then show ?thesis
  proof cases
    case 1
    with K(1) [of k] db1 show ?thesis by blast
  next
    case 2
    have "Getenv y e1 = []" if "y \<in> ?db" for y
      using 2(2) that unfolding db_vars_def by auto
    then have "\<forall>y. y \<notin> ?db \<or> Getenv y e = []" using db1 by auto
    moreover have "Getenv k e = [] \<or> Getenv k e' = Getenv k e"
      using K(1) [of k] set_all_keeps(1) [OF 2(1), of k] by metis
    ultimately show ?thesis by blast
  qed
qed

definition sample_state :: state where
  "sample_state = \<lparr>DatabaseURL = ''postgres://db'', SessionSecret = replicate 64 CHR ''5'', StateKey = replicate 64 CHR ''7'',
     StateProvider = [], StatePoolMode = [], StateRootCert = []\<rparr>"

section \<open>A first boot\<close>

lemma saved_state_loads:
  assumes save: "SaveState js path (Some s) d = (d1, Inr ())" and calm: "os_faults d1 = []"
    and json: "unmarshal js (marshal js s) = Some s"
  shows "snd (LoadState js path d1) = Inr (Some s)"
proof -
  obtain d2 d3 n where 2: "write_file path (marshal js s) d2 = (d3, Inr ())"
    and look: "os_at os_lookup path d3 = (d1, Inr n)"
    using save unfolding SaveState_def by (fastforce split: prod.splits sum.splits)
  obtain d4 u where tr: "os_at os_truncate path d2 = (d4, Inr u)"
    and w: "os_at (\<lambda>p. os_write p (marshal js s)) path d4 = (d3, Inr ())"
    using 2 unfolding write_file_def by (fastforce split: prod.splits sum.splits)
  obtain p where p: "locate d4 path = Some p" and n3: "os_write p (marshal js s) (nodes d4) = Inr (nodes d3, ())"
    using os_at_Inr [OF w] by blast
  then have "nodes d3 = AList.update p (File (marshal js s)) (nodes d4)" by (simp add: os_write_def)
  then have m: "map_of (nodes d3) p = Some (File (marshal js s))" by simp
  obtain q where q: "locate d3 path = Some q" and lq: "os_lookup q (nodes d3) = Inr (nodes d1, n)"
    using os_at_Inr [OF look] by blast
  obtain p2 where p2: "locate d2 path = Some p2" "os_truncate p2 (nodes d2) = Inr (nodes d4, u)"
    using os_at_Inr [OF tr] by blast
  have cw: "cwd d3 = cwd d4" "cwd d1 = cwd d3" "locate d4 path = locate d2 path" using os_at_frame [OF tr] os_at_frame [OF w] os_at_frame [OF look] by auto
  have "q = p" using p q locate_cong [OF cw(1), of path] by simp
  have "nodes d1 = nodes d3" using lookup_same [OF lq] .
  moreover have "n = File (marshal js s) \<or> p = []"
    using lq m \<open>q = p\<close> by (auto simp: os_lookup_def lookup_node_def split: sum.splits if_splits)
  moreover have "p \<noteq> []" using p p2 cw(3) by (auto simp: os_truncate_def lookup_node_def)
  ultimately have "os_lookup p (nodes d1) = Inr (nodes d1, File (marshal js s))" using lq \<open>q = p\<close> by simp
  moreover have "locate d1 path = Some p" using q \<open>q = p\<close> locate_cong [OF cw(2), of path] by simp
  ultimately show ?thesis using calm json
    by (simp add: LoadState_def os_at_def os_call_def)
qed

text \<open>What the loaders see of an environment in which the state was exported to unset variables.\<close>

definition managed_vars :: "string list" where
  "managed_vars =
     [''SESSION_SECRET'', ''ENCRYPTION_KEY'', ''DATABASE_URL'', ''DB_PROVIDER'', ''DB_POOL_MODE'', ''DB_SSL_ROOT_CERT'',
      ''SESSION_LIFETIME'', ''SESSION_COOKIE_SECURE'', ''DB_MAX_CONNS'', ''DB_CONNECT_TIMEOUT'']"

lemma export_fresh:
  assumes fresh: "\<forall>k \<in> set managed_vars. LookupEnv k e = None"
    and s: "StateProvider s = []" "StatePoolMode s = []" "StateRootCert s = []"
    and v: "SessionSecret s \<noteq> []" "StateKey s \<noteq> []" "DatabaseURL s \<noteq> []"
      "CHR 0x00 \<notin> set (SessionSecret s @ StateKey s @ DatabaseURL s)"
  shows "\<exists>e'. ExportToEnv (Some s) e = (e', Inr ()) \<and>
    (\<forall>k. LookupEnv k e' = (if k = ''SESSION_SECRET'' then Some (SessionSecret s)
       else if k = ''ENCRYPTION_KEY'' then Some (StateKey s)
       else if k = ''DATABASE_URL'' then Some (DatabaseURL s) else LookupEnv k e))"
proof -
  have g: "Getenv k e = []" if "k \<in> set managed_vars" for k using fresh that by (simp add: Getenv_def)
  let ?e = "AList.update ''DATABASE_URL'' (DatabaseURL s) (AList.update ''ENCRYPTION_KEY'' (StateKey s)
      (AList.update ''SESSION_SECRET'' (SessionSecret s) e))"
  have "ExportToEnv (Some s) e = (?e, Inr ())"
    using s v g by (simp add: ExportToEnv_def db_vars_def setEnvIfAbsent_def Setenv_def Getenv_update managed_vars_def)
  then show ?thesis by (intro exI [of _ ?e]) (simp add: LookupEnv_def)
qed

lemma hex_val_digit: "n < 16 \<Longrightarrow> hex_val (hex_digit n) = Some n"
proof -
  have "\<forall>n \<in> set [0..<16]. hex_val (hex_digit n) = Some n" by (simp add: upt_rec hex_digit_def hex_val_def)
  then show "n < 16 \<Longrightarrow> hex_val (hex_digit n) = Some n" by simp
qed

lemma hex_decode_encode: "hex_decode (hex_encode bs) = Some bs"
proof (induction bs)
  case Nil
  then show ?case by (simp add: hex_encode_def)
next
  case (Cons x bs)
  have "unat x < 256" by (rule unat_8_less)
  then have "hex_val (hex_digit (unat x div 16)) = Some (unat x div 16)" "hex_val (hex_digit (unat x mod 16)) = Some (unat x mod 16)"
    by (simp_all add: hex_val_digit)
  moreover have "word_of_nat (unat x div 16 * 16 + unat x mod 16) = x" by simp
  ultimately show ?case using Cons by (simp add: hex_encode_def)
qed

lemma hex_char: "is_hex c \<Longrightarrow> byte_at c < 0x80 \<and> \<not> is_space (byte_at c) \<and> c \<noteq> CHR 0x00"
  by (auto simp: is_hex_def is_space_def)

lemma trim_hex: "trim_space (hex_encode bs) = hex_encode bs"
  using hex_encode_is_hex hex_char by (intro trim_space_plain) (auto simp: is_ascii_def)

lemma generated_secret:
  assumes "GenerateSecret src = Some (a, src')"
  shows "length a = 64" and "trim_space a = a" and "CHR 0x00 \<notin> set a" and "\<exists>k. hex_decode a = Some k \<and> length k = 32"
proof -
  obtain bs where a: "a = hex_encode bs" "length bs = 32"
    using assms by (auto simp: GenerateSecret_def secretLen_def split: if_splits)
  then show "length a = 64" and "trim_space a = a" by (simp_all add: trim_hex)
  show "CHR 0x00 \<notin> set a" using a(1) hex_encode_is_hex hex_char by blast
  show "\<exists>k. hex_decode a = Some k \<and> length k = 32" using a hex_decode_encode by blast
qed

text \<open>The settings of an environment with the three variables set and the others unset.\<close>

lemma exported_settings:
  assumes e: "LookupEnv ''SESSION_SECRET'' e = Some a" "LookupEnv ''ENCRYPTION_KEY'' e = Some b" "LookupEnv ''DATABASE_URL'' e = Some url"
    and un: "LookupEnv ''SESSION_LIFETIME'' e = None" "LookupEnv ''DB_MAX_CONNS'' e = None" "LookupEnv ''DB_CONNECT_TIMEOUT'' e = None"
      "LookupEnv ''DB_PROVIDER'' e = None" "LookupEnv ''DB_POOL_MODE'' e = None"
    and a: "length a = 64" and b: "length b = 64" "trim_space b = b" "\<exists>k. hex_decode b = Some k \<and> length k = 32" "b \<noteq> DevEncryptionKey"
    and url: "trim_space url \<noteq> []"
  shows "Validate_session EnvProd (fst (LoadSession EnvProd e)) = []" and "Validate_crypto EnvProd (LoadCrypto e) = []"
    and "Validate_db (fst (LoadDB e)) = []" and "DSN (fst (LoadDB e)) = url"
proof -
  have "a \<noteq> []" "a \<noteq> DevSessionSecret" "b \<noteq> []" using a b(1) by (auto simp: DevSessionSecret_def)
  then have "String_env ''SESSION_SECRET'' DevSessionSecret e = a" "String_env ''ENCRYPTION_KEY'' DevEncryptionKey e = b"
    using e by (simp_all add: String_env_def)
  moreover have "Duration ''SESSION_LIFETIME'' (12 * hour) e = (12 * hour, [])" using un by (simp add: Duration_def parsed_def)
  ultimately show "Validate_session EnvProd (fst (LoadSession EnvProd e)) = []"
    using a \<open>a \<noteq> DevSessionSecret\<close>
    by (simp add: Validate_session_def LoadSession_def Let_def minSecretLen_def hour_def minute_def second_def split: prod.split)
  have "Key (LoadCrypto e) = Inr (the (hex_decode b))"
    using \<open>String_env ''ENCRYPTION_KEY'' DevEncryptionKey e = b\<close> b \<open>b \<noteq> []\<close>
    by (auto simp: LoadCrypto_def Key_def encryptionKeyLen_def)
  then show "Validate_crypto EnvProd (LoadCrypto e) = []"
    using \<open>String_env ''ENCRYPTION_KEY'' DevEncryptionKey e = b\<close> b by (simp add: Validate_crypto_def LoadCrypto_def)
  have trims: "trim_space DBProviderPostgres = DBProviderPostgres" "trim_space DBPoolModeSession = DBPoolModeSession"
    by (rule trim_space_plain; simp add: DBProviderPostgres_def DBPoolModeSession_def is_ascii_def is_space_def)+
  have lowers: "to_lower DBProviderPostgres = DBProviderPostgres" "to_lower DBPoolModeSession = DBPoolModeSession"
    by (subst to_lower_ascii; simp add: DBProviderPostgres_def DBPoolModeSession_def is_ascii_def)+
  have strs: "String_env ''DB_PROVIDER'' DBProviderPostgres e = DBProviderPostgres"
    "String_env ''DB_POOL_MODE'' DBPoolModeSession e = DBPoolModeSession"
    using un by (simp_all add: String_env_def)
  have nums: "Int32 ''DB_MAX_CONNS'' 0 e = (0, [])" "Duration ''DB_CONNECT_TIMEOUT'' (5 * second) e = (5 * second, [])"
    using un by (simp_all add: Int32_def Duration_def parsed_def)
  have "DBProviderPostgres \<noteq> DBProviderSupabase" by (simp add: DBProviderPostgres_def DBProviderSupabase_def)
  then have "fst (LoadDB e) = \<lparr>DSN = url, MaxConns = 0, ConnTimeout = 5 * second, Provider = DBProviderPostgres,
      PoolMode = DBPoolModeSession, SSLRootCert = trimmed ''DB_SSL_ROOT_CERT'' e, MigrateDSN = trimmed ''MIGRATE_DATABASE_URL'' e\<rparr>"
    using e(3) by (simp add: LoadDB_def nums strs trims lowers Let_def Getenv_def)
  then show "Validate_db (fst (LoadDB e)) = []" and "DSN (fst (LoadDB e)) = url"
    using url by (simp_all add: Validate_db_def second_def)
qed

text \<open>C35: a first boot ends in a configuration that production accepts. Of the state the setup saves,
  with two freshly generated secrets and a database URL, a working disk loads exactly that state;
  exported to an environment in which the settings are unset it puts the application out of setup
  mode, and the session, encryption and database settings loaded from it pass validation.\<close>

theorem first_boot_configures_production:
  assumes gen: "GenerateSecret src = Some (a, src1)" "GenerateSecret src1 = Some (b, src2)" "b \<noteq> DevEncryptionKey"
    and s: "s = \<lparr>DatabaseURL = url, SessionSecret = a, StateKey = b, StateProvider = [], StatePoolMode = [], StateRootCert = []\<rparr>"
    and url: "trim_space url \<noteq> []" "CHR 0x00 \<notin> set url"
    and save: "SaveState js path (Some s) d = (d1, Inr ())" "os_faults d1 = []" "unmarshal js (marshal js s) = Some s"
    and fresh: "\<forall>k \<in> set managed_vars. LookupEnv k e = None" "LookupEnv (ForceSetupEnv ap) e = None"
      "ForceSetupEnv ap \<notin> set managed_vars"
  shows "snd (LoadState js path d1) = Inr (Some s) \<and>
    (\<exists>e'. ExportToEnv (Some s) e = (e', Inr ()) \<and> \<not> NeedsSetup ap (Some s) e' \<and>
       Validate_session EnvProd (fst (LoadSession EnvProd e')) = [] \<and>
       Validate_crypto EnvProd (LoadCrypto e') = [] \<and>
       Validate_db (fst (LoadDB e')) = [] \<and> DSN (fst (LoadDB e')) = url)"
proof -
  note A = generated_secret [OF gen(1)] and B = generated_secret [OF gen(2)]
  have ne: "a \<noteq> []" "b \<noteq> []" "url \<noteq> []" using A(1) B(1) url(1) by (auto simp: trim_space_def)
  obtain e' where ex: "ExportToEnv (Some s) e = (e', Inr ())"
    and look: "\<forall>k. LookupEnv k e' = (if k = ''SESSION_SECRET'' then Some a else if k = ''ENCRYPTION_KEY'' then Some b
       else if k = ''DATABASE_URL'' then Some url else LookupEnv k e)"
    using export_fresh [OF fresh(1), of s] ne A(3) B(3) url(2) unfolding s by auto
  have un: "LookupEnv k e' = None" if "k \<in> set managed_vars - {''SESSION_SECRET'', ''ENCRYPTION_KEY'', ''DATABASE_URL''}" for k
    using look fresh(1) that by auto
  have set: "LookupEnv ''SESSION_SECRET'' e' = Some a" "LookupEnv ''ENCRYPTION_KEY'' e' = Some b" "LookupEnv ''DATABASE_URL'' e' = Some url"
    using look by simp_all
  have "ForceSetupEnv ap \<notin> {''SESSION_SECRET'', ''ENCRYPTION_KEY'', ''DATABASE_URL''}"
    using fresh(3) by (auto simp: managed_vars_def)
  then have "LookupEnv (ForceSetupEnv ap) e' = None" using look fresh(2) by auto
  then have "parse_bool (trim_space (Getenv (ForceSetupEnv ap) e')) = None"
    by (simp add: Getenv_def trim_space_def parse_bool_def)
  then have "\<not> NeedsSetup ap (Some s) e'" using url(1) by (simp add: NeedsSetup_def s)
  moreover note exported_settings [OF set un un un un un A(1) B(1,2,4) gen(3) url(1)]
  ultimately show ?thesis
    using saved_state_loads [OF save] ex by (auto simp: managed_vars_def)
qed

definition sample_boot_disk :: disk where
  "sample_boot_disk = \<lparr>nodes = [], cwd = None, os_faults = [], temp_names = (\<lambda>n. n), temps = 0\<rparr>"

definition sample_json :: "state \<Rightarrow> json_lib" where
  "sample_json s = \<lparr>marshal = (\<lambda>_. [1]), unmarshal = (\<lambda>_. Some s)\<rparr>"

lemma sample_locate: "locate d ''/s'' = Some [''s'']" "locate d (path_dir ''/s'') = Some []"
  by (simp_all add: locate_def path_abs_def rooted_def path_clean_def abs_comps_def path_dir_def)

lemma sample_save: "\<exists>d. SaveState (sample_json s) ''/s'' (Some s) sample_boot_disk = (d, Inr ()) \<and> os_faults d = []"
proof -
  let ?d = "sample_boot_disk\<lparr>nodes := [([''s''], File [1])]\<rparr>"
  have c: "os_faults sample_boot_disk = []" "nodes sample_boot_disk = []" by (simp_all add: sample_boot_disk_def)
  have 1: "os_at os_mkdir_all (path_dir ''/s'') sample_boot_disk = (sample_boot_disk, Inr ())"
    using c by (simp add: os_at_def os_call_def os_mkdir_all_def sample_locate)
  have 2: "write_file ''/s'' [1] sample_boot_disk = (?d, Inr ())"
    using c by (simp add: write_file_def os_at_def os_call_def os_truncate_def lookup_node_def blocked_def os_create_def
        is_dir_def os_write_def sample_locate)
  have 3: "os_at os_lookup ''/s'' ?d = (?d, Inr (File [1]))"
    using c by (simp add: os_at_def os_call_def os_lookup_def lookup_node_def blocked_def sample_locate)
  show ?thesis using 1 2 3 c by (simp add: SaveState_def sample_json_def)
qed

theorem first_boot_configures_production_witness:
  "\<exists>s e'. ExportToEnv (Some s) [] = (e', Inr ()) \<and> DatabaseURL s = ''db'' \<and> Validate_db (fst (LoadDB e')) = []"
proof -
  let ?a = "hex_encode (replicate 32 0x55)" and ?b = "hex_encode (replicate 32 0x77)"
  define s where "s = \<lparr>DatabaseURL = ''db'', SessionSecret = ?a, StateKey = ?b, StateProvider = [], StatePoolMode = [], StateRootCert = []\<rparr>"
  have g: "GenerateSecret (replicate 32 0x55 @ replicate 32 0x77) = Some (?a, replicate 32 0x77)"
    "GenerateSecret (replicate 32 0x77) = Some (?b, [])"
    by (simp_all add: GenerateSecret_def secretLen_def)
  have hd1: "hd (hex_encode (0x77 # replicate 31 0x77)) = CHR ''7''" by (simp add: hex_encode_def hex_digit_def)
  have hd2: "hd DevEncryptionKey = CHR ''0''" by (simp add: DevEncryptionKey_def)
  have rep: "replicate 32 (0x77 :: byte) = 0x77 # replicate 31 0x77" by (simp add: numeral_eq_Suc)
  have dev: "?b \<noteq> DevEncryptionKey"
  proof
    assume "?b = DevEncryptionKey"
    then have "hd ?b = hd DevEncryptionKey" by (rule arg_cong)
    then have "CHR ''7'' = CHR ''0''" unfolding rep hd1 hd2 .
    then show False by simp
  qed
  have url: "trim_space ''db'' \<noteq> []"
    by (subst trim_space_plain) (simp_all add: is_ascii_def is_space_def)
  obtain d where save: "SaveState (sample_json s) ''/s'' (Some s) sample_boot_disk = (d, Inr ())" "os_faults d = []"
    using sample_save by blast
  have js: "unmarshal (sample_json s) (marshal (sample_json s) s) = Some s" by (simp add: sample_json_def)
  have fresh: "\<forall>k \<in> set managed_vars. LookupEnv k [] = None" "LookupEnv (ForceSetupEnv \<lparr>app_name = ''NEST''\<rparr>) [] = None"
    by (simp_all add: LookupEnv_def)
  have name: "ForceSetupEnv \<lparr>app_name = ''NEST''\<rparr> \<notin> set managed_vars"
  proof -
    have "to_upper ''NEST'' = ''NEST''" by (simp add: to_upper_def)
    then show ?thesis by (simp add: ForceSetupEnv_def managed_vars_def)
  qed
  have nul: "CHR 0x00 \<notin> set ''db''" by simp
  show ?thesis
    using first_boot_configures_production [OF g dev s_def url nul save js fresh name] unfolding s_def by fastforce
qed

end
