(* ===== verification/Go_Url.thy ===== *)
theory Go_Url
  imports Go_Strings "HOL-Library.Char_ord" "HOL-Library.List_Lexorder"
begin

text \<open>
  What the program uses of \<open>net/url\<close>: parsing and printing a URL, its query as \<open>url.Values\<close>, and
  percent encoding. Of the library only the check of a host is an argument, \<open>ph\<close>: which hosts
  \<open>Parse\<close> accepts has changed between releases; it gives back the unescaped host. The theorems
  state what the program relies on: a URL with an authority that is printed is parsed to itself.
\<close>

section \<open>Percent encoding\<close>

datatype url_part = In_path | In_user | In_host | In_query | In_fragment

definition alnum :: "char \<Rightarrow> bool" where
  "alnum c \<longleftrightarrow> between 0x30 0x39 c \<or> between 0x41 0x5A c \<or> between 0x61 0x7A c"

definition should_escape :: "url_part \<Rightarrow> char \<Rightarrow> bool" where
  "should_escape m c \<longleftrightarrow>
     \<not> (alnum c \<or> c \<in> set ''-_.~'' \<or>
        (case m of
           In_path \<Rightarrow> c \<in> set ''$&+,/:;=@''
         | In_user \<Rightarrow> c \<in> set ''$&+,;=''
         | In_host \<Rightarrow> c \<in> set (CHR 0x22 # CHR 0x27 # ''!$&()*+,;=:[]<>'')
         | In_query \<Rightarrow> False
         | In_fragment \<Rightarrow> c \<in> set ''$&+,/:;=?@!()*''))"

definition upper_hex :: "nat \<Rightarrow> char" where
  "upper_hex n = ''0123456789ABCDEF'' ! n"

definition unhex :: "char \<Rightarrow> nat option" where
  "unhex c =
     (if between 0x30 0x39 c then Some (byte_at c - 0x30)
      else if between 0x41 0x46 c then Some (byte_at c - 0x41 + 10)
      else if between 0x61 0x66 c then Some (byte_at c - 0x61 + 10) else None)"

definition escape_char :: "url_part \<Rightarrow> char \<Rightarrow> string" where
  "escape_char m c =
     (if m = In_query \<and> c = CHR 0x20 then ''+''
      else if should_escape m c
      then [CHR ''%'', upper_hex (byte_at c div 16), upper_hex (byte_at c mod 16)]
      else [c])"

definition escape :: "url_part \<Rightarrow> string \<Rightarrow> string" where
  "escape m s = concat (map (escape_char m) s)"

fun unescape :: "url_part \<Rightarrow> string \<Rightarrow> string option" where
  "unescape m [] = Some []"
| "unescape m (c # s) =
     (if c = CHR ''%''
      then (case s of
              a # b # r \<Rightarrow>
                (case (unhex a, unhex b) of
                   (Some x, Some y) \<Rightarrow> map_option ((#) (char_of (16 * x + y))) (unescape m r)
                 | _ \<Rightarrow> None)
            | _ \<Rightarrow> None)
      else map_option ((#) (if m = In_query \<and> c = CHR ''+'' then CHR 0x20 else c)) (unescape m s))"

lemma unhex_upper_hex: "n < 16 \<Longrightarrow> unhex (upper_hex n) = Some n"
proof -
  have "\<forall>n \<in> {0 ..< 16}. unhex (upper_hex n) = Some n" by code_simp
  then show "n < 16 \<Longrightarrow> unhex (upper_hex n) = Some n" by simp
qed

lemma upper_hex_alnum: "n < 16 \<Longrightarrow> alnum (upper_hex n)"
proof -
  have "\<forall>n \<in> {0 ..< 16}. alnum (upper_hex n)" by code_simp
  then show "n < 16 \<Longrightarrow> alnum (upper_hex n)" by simp
qed

lemma byte_at_less: "byte_at c < 256"
  by (rule nat_of_char_less_256)

lemma nibbles: "byte_at c div 16 < 16" "byte_at c mod 16 < 16"
  using byte_at_less [of c] by (simp_all add: less_mult_imp_div_less)

lemma should_escape_percent: "should_escape m (CHR ''%'')"
  by (cases m) (simp_all add: should_escape_def alnum_def between_def)

lemma should_escape_plus: "should_escape In_query (CHR ''+'')"
  by (simp add: should_escape_def alnum_def between_def)

lemma unescape_escape_char: "unescape m (escape_char m c @ s) = map_option ((#) c) (unescape m s)"
proof -
  have "unhex (upper_hex (byte_at c div 16)) = Some (byte_at c div 16)"
      "unhex (upper_hex (byte_at c mod 16)) = Some (byte_at c mod 16)"
    by (simp_all only: unhex_upper_hex nibbles)
  moreover have "char_of (16 * (byte_at c div 16) + byte_at c mod 16) = c" by simp
  ultimately show ?thesis
    using should_escape_percent [of m] should_escape_plus by (auto simp: escape_char_def)
qed

lemma unescape_escape_append: "unescape m (escape m s @ t) = map_option ((@) s) (unescape m t)"
  by (induction s)
     (simp_all add: escape_def unescape_escape_char option.map_comp comp_def option.map_ident)

lemma unescape_escape [simp]: "unescape m (escape m s) = Some s"
  using unescape_escape_append [of m s "[]"] by simp

lemma escape_chars: "c \<in> set (escape m s) \<Longrightarrow> alnum c \<or> c = CHR ''%'' \<or> (m = In_query \<and> c = CHR ''+'') \<or> \<not> should_escape m c"
proof -
  have "alnum (upper_hex (byte_at x div 16))" "alnum (upper_hex (byte_at x mod 16))" for x :: char
    by (simp_all add: upper_hex_alnum nibbles)
  then show "c \<in> set (escape m s) \<Longrightarrow> ?thesis"
    by (auto simp: escape_def escape_char_def split: if_splits)
qed

text \<open>The characters an encoded part never holds.\<close>

lemma escape_avoids:
  assumes "should_escape m c" and "\<not> alnum c" and "c \<noteq> CHR ''%''" and "m = In_query \<Longrightarrow> c \<noteq> CHR ''+''"
  shows "c \<notin> set (escape m s)"
  using escape_chars [of c m s] assms by blast

definition ctl :: "char \<Rightarrow> bool" where
  "ctl c \<longleftrightarrow> byte_at c < 0x20 \<or> byte_at c = 0x7F"

lemma ctl_escaped: "ctl c \<Longrightarrow> c \<notin> set (escape m s)"
proof (rule escape_avoids)
  assume c: "ctl c"
  have "\<not> ctl x" if "x \<in> set (CHR 0x22 # CHR 0x27 # ''-_.~$&+,/:;=@!()*?[]<>'')" for x
    using that by (auto simp: ctl_def)
  then have "c \<notin> set (CHR 0x22 # CHR 0x27 # ''-_.~$&+,/:;=@!()*?[]<>'')" using c by blast
  moreover show "\<not> alnum c" using c by (auto simp: ctl_def alnum_def between_def)
  ultimately show "should_escape m c" by (cases m) (auto simp: should_escape_def)
  show "c \<noteq> CHR ''%''" "c \<noteq> CHR ''+''" using c by (auto simp: ctl_def)
qed

section \<open>URLs\<close>

record net_url =
  ur_scheme :: string
  ur_opaque :: string
  ur_user :: "(string \<times> string option) option"
  ur_host :: string
  ur_path :: string
  ur_raw_path :: string
  ur_omit_host :: bool
  ur_force_query :: bool
  ur_raw_query :: string
  ur_fragment :: string
  ur_raw_fragment :: string

text \<open>\<open>strings.Cut\<close> at a character; the two parts.\<close>

definition cut :: "char \<Rightarrow> string \<Rightarrow> string \<times> string" where
  "cut c s = (takeWhile (\<lambda>x. x \<noteq> c) s, drop 1 (dropWhile (\<lambda>x. x \<noteq> c) s))"

lemma cut_sep [simp]: "c \<notin> set a \<Longrightarrow> cut c (a @ c # b) = (a, b)"
  by (induction a) (auto simp: cut_def)

lemma cut_none [simp]: "c \<notin> set a \<Longrightarrow> cut c a = (a, [])"
  by (induction a) (auto simp: cut_def)

lemma cut_fst: "x \<in> set (fst (cut c s)) \<Longrightarrow> x \<noteq> c \<and> x \<in> set s"
  by (auto simp: cut_def dest: set_takeWhileD)

definition scheme_char :: "char \<Rightarrow> bool" where
  "scheme_char c \<longleftrightarrow> alnum c \<or> c \<in> set ''+-.''"

definition getScheme :: "string \<Rightarrow> (string \<times> string) option" where
  "getScheme s =
     (let pre = takeWhile scheme_char s; rest = dropWhile scheme_char s
      in if pre \<noteq> [] \<and> \<not> (between 0x41 0x5A (hd pre) \<or> between 0x61 0x7A (hd pre)) then Some ([], s)
         else if rest \<noteq> [] \<and> hd rest = CHR '':''
              then if pre = [] then None else Some (pre, tl rest)
              else Some ([], s))"

text \<open>\<open>strings.ToLower\<close> of a scheme, which is ASCII.\<close>

definition ascii_lower :: "string \<Rightarrow> string" where
  "ascii_lower s = map (\<lambda>c. if between 0x41 0x5A c then char_of (byte_at c + 0x20) else c) s"

text \<open>\<open>parseAuthority\<close>: what is before the last \<open>@\<close> is the user, with a password after the first colon.\<close>

definition valid_userinfo :: "string \<Rightarrow> bool" where
  "valid_userinfo s \<longleftrightarrow> list_all (\<lambda>c. alnum c \<or> c \<in> set (CHR 0x27 # ''-._:~!$&()*+,;=%@'')) s"

definition parse_userinfo :: "string \<Rightarrow> (string \<times> string option) option" where
  "parse_userinfo ui =
     (if \<not> valid_userinfo ui then None
      else if CHR '':'' \<notin> set ui then map_option (\<lambda>u. (u, None)) (unescape In_user ui)
      else case (unescape In_user (fst (cut CHR '':'' ui)), unescape In_user (snd (cut CHR '':'' ui))) of
             (Some u, Some p) \<Rightarrow> Some (u, Some p)
           | _ \<Rightarrow> None)"

definition parseAuthority :: "(string \<Rightarrow> string option) \<Rightarrow> string \<Rightarrow> ((string \<times> string option) option \<times> string) option" where
  "parseAuthority ph a =
     (let back = takeWhile (\<lambda>x. x \<noteq> CHR ''@'') (rev a)
      in case ph (rev back) of
           None \<Rightarrow> None
         | Some h \<Rightarrow>
             if CHR ''@'' \<notin> set a then Some (None, h)
             else map_option (\<lambda>u. (Some u, h)) (parse_userinfo (take (length a - length back - 1) a)))"

definition setPath :: "string \<Rightarrow> net_url \<Rightarrow> net_url option" where
  "setPath p u =
     map_option (\<lambda>q. u\<lparr>ur_path := q, ur_raw_path := (if p = escape In_path q then [] else p)\<rparr>) (unescape In_path p)"

definition setFragment :: "string \<Rightarrow> net_url \<Rightarrow> net_url option" where
  "setFragment f u =
     map_option (\<lambda>g. u\<lparr>ur_fragment := g, ur_raw_fragment := (if f = escape In_fragment g then [] else f)\<rparr>)
       (unescape In_fragment f)"

definition empty_url :: net_url where
  "empty_url = \<lparr>ur_scheme = [], ur_opaque = [], ur_user = None, ur_host = [], ur_path = [], ur_raw_path = [],
     ur_omit_host = False, ur_force_query = False, ur_raw_query = [], ur_fragment = [], ur_raw_fragment = []\<rparr>"

definition split_query :: "string \<Rightarrow> string \<times> bool \<times> string" where
  "split_query rest =
     (if rest \<noteq> [] \<and> last rest = CHR ''?'' \<and> CHR ''?'' \<notin> set (butlast rest) then (butlast rest, True, [])
      else case cut CHR ''?'' rest of (a, q) \<Rightarrow> (a, False, q))"

definition parse_no_fragment :: "(string \<Rightarrow> string option) \<Rightarrow> string \<Rightarrow> net_url option" where
  "parse_no_fragment ph raw =
     (if list_ex ctl raw then None
      else if raw = ''*'' then Some (empty_url\<lparr>ur_path := ''*''\<rparr>)
      else case getScheme raw of
             None \<Rightarrow> None
           | Some (sch, rest) \<Rightarrow>
               (case split_query rest of (rest, force, q) \<Rightarrow>
                  let u = empty_url\<lparr>ur_scheme := ascii_lower sch, ur_force_query := force, ur_raw_query := q\<rparr>
                  in if take 1 rest \<noteq> ''/'' \<and> sch \<noteq> [] then Some (u\<lparr>ur_opaque := rest\<rparr>)
                     else if take 1 rest \<noteq> ''/'' \<and> CHR '':'' \<in> set (fst (cut CHR ''/'' rest)) then None
                     else if (sch \<noteq> [] \<or> take 3 rest \<noteq> ''///'') \<and> take 2 rest = ''//''
                     then (case parseAuthority ph (takeWhile (\<lambda>x. x \<noteq> CHR ''/'') (drop 2 rest)) of
                             None \<Rightarrow> None
                           | Some (user, h) \<Rightarrow>
                               setPath (dropWhile (\<lambda>x. x \<noteq> CHR ''/'') (drop 2 rest)) (u\<lparr>ur_user := user, ur_host := h\<rparr>))
                     else setPath rest (u\<lparr>ur_omit_host := (sch \<noteq> [] \<and> take 1 rest = ''/'')\<rparr>)))"

definition url_parse :: "(string \<Rightarrow> string option) \<Rightarrow> string \<Rightarrow> net_url option" where
  "url_parse ph raw =
     (case cut CHR ''#'' raw of (u, frag) \<Rightarrow>
        (case parse_no_fragment ph u of
           None \<Rightarrow> None
         | Some v \<Rightarrow> if frag = [] then Some v else setFragment frag v))"

text \<open>\<open>URL.String\<close>. The encoding a path or fragment came with is kept while it still denotes it.\<close>

definition valid_encoded :: "url_part \<Rightarrow> string \<Rightarrow> bool" where
  "valid_encoded m s \<longleftrightarrow> list_all (\<lambda>c. c \<in> set (CHR 0x27 # ''!$&()*+,;=:@[]%'') \<or> \<not> should_escape m c) s"

definition escaped_as :: "url_part \<Rightarrow> string \<Rightarrow> string \<Rightarrow> string" where
  "escaped_as m raw s =
     (if raw \<noteq> [] \<and> valid_encoded m raw \<and> unescape m raw = Some s then raw else escape m s)"

definition EscapedPath :: "net_url \<Rightarrow> string" where
  "EscapedPath u =
     (if ur_raw_path u \<noteq> [] \<and> valid_encoded In_path (ur_raw_path u) \<and> unescape In_path (ur_raw_path u) = Some (ur_path u)
      then ur_raw_path u
      else if ur_path u = ''*'' then ''*'' else escape In_path (ur_path u))"

definition userinfo_string :: "string \<times> string option \<Rightarrow> string" where
  "userinfo_string u =
     escape In_user (fst u) @ (case snd u of None \<Rightarrow> [] | Some p \<Rightarrow> CHR '':'' # escape In_user p)"

definition url_authority :: "net_url \<Rightarrow> string" where
  "url_authority u =
     (if (ur_scheme u \<noteq> [] \<or> ur_host u \<noteq> [] \<or> ur_user u \<noteq> None) \<and>
         \<not> (ur_omit_host u \<and> ur_host u = [] \<and> ur_user u = None)
      then (if ur_host u \<noteq> [] \<or> ur_path u \<noteq> [] \<or> ur_user u \<noteq> None then ''//'' else []) @
           (case ur_user u of None \<Rightarrow> [] | Some ui \<Rightarrow> userinfo_string ui @ ''@'') @
           escape In_host (ur_host u)
      else [])"

definition url_string :: "net_url \<Rightarrow> string" where
  "url_string u =
     (let sch = (if ur_scheme u = [] then [] else ur_scheme u @ '':'');
          path = EscapedPath u;
          body = (if ur_opaque u \<noteq> [] then sch @ ur_opaque u
                  else
                    let pre = sch @ url_authority u @
                              (if path \<noteq> [] \<and> hd path \<noteq> CHR ''/'' \<and> ur_host u \<noteq> [] then ''/'' else [])
                    in (if pre = [] \<and> CHR '':'' \<in> set (fst (cut CHR ''/'' path)) then ''./'' else pre) @ path)
      in body @
         (if ur_force_query u \<or> ur_raw_query u \<noteq> [] then CHR ''?'' # ur_raw_query u else []) @
         (if ur_fragment u \<noteq> [] then CHR ''#'' # escaped_as In_fragment (ur_raw_fragment u) (ur_fragment u) else []))"

section \<open>Queries\<close>

type_synonym url_values = "(string \<times> string list) list"

definition add_value :: "string \<times> string \<Rightarrow> url_values \<Rightarrow> url_values" where
  "add_value kv m = AList.update (fst kv) ((case map_of m (fst kv) of None \<Rightarrow> [] | Some vs \<Rightarrow> vs) @ [snd kv]) m"

definition parse_pair :: "string \<Rightarrow> (string \<times> string) option" where
  "parse_pair s =
     (if CHR '';'' \<in> set s \<or> s = [] then None
      else case (unescape In_query (fst (cut CHR ''='' s)), unescape In_query (snd (cut CHR ''='' s))) of
             (Some k, Some v) \<Rightarrow> Some (k, v)
           | _ \<Rightarrow> None)"

text \<open>\<open>URL.Query\<close>: a malformed pair is dropped.\<close>

definition url_query :: "string \<Rightarrow> url_values" where
  "url_query q = fold add_value (List.map_filter parse_pair (split_on CHR ''&'' q)) []"

definition values_set :: "string \<Rightarrow> string \<Rightarrow> url_values \<Rightarrow> url_values" where
  "values_set k v m = AList.update k [v] m"

definition encode_pair :: "string \<times> string \<Rightarrow> string" where
  "encode_pair kv = escape In_query (fst kv) @ CHR ''='' # escape In_query (snd kv)"

fun join_amp :: "string list \<Rightarrow> string" where
  "join_amp [] = []"
| "join_amp [s] = s"
| "join_amp (s # t # ss) = s @ CHR ''&'' # join_amp (t # ss)"

definition value_pairs :: "url_values \<Rightarrow> (string \<times> string) list" where
  "value_pairs m = concat (map (\<lambda>k. map (Pair k) (the (map_of m k))) (sort (keys m)))"

definition values_encode :: "url_values \<Rightarrow> string" where
  "values_encode m = join_amp (map encode_pair (value_pairs m))"

section \<open>Queries read back\<close>

lemma no_equals: "CHR ''='' \<notin> set (escape In_query s)"
  by (rule escape_avoids) (simp_all add: should_escape_def alnum_def between_def)

lemma no_ampersand: "CHR ''&'' \<notin> set (escape In_query s)"
  by (rule escape_avoids) (simp_all add: should_escape_def alnum_def between_def)

lemma no_semicolon: "CHR '';'' \<notin> set (escape In_query s)"
  by (rule escape_avoids) (simp_all add: should_escape_def alnum_def between_def)

lemma no_hash: "CHR ''#'' \<notin> set (escape m s)"
  by (rule escape_avoids) (cases m; simp add: should_escape_def alnum_def between_def)+

lemma parse_encode_pair: "parse_pair (encode_pair kv) = Some kv"
  by (cases kv) (simp add: parse_pair_def encode_pair_def no_semicolon no_equals)

lemma encode_pair_clean: "CHR ''&'' \<notin> set (encode_pair kv)" "CHR ''#'' \<notin> set (encode_pair kv)"
    "c \<in> set (encode_pair kv) \<Longrightarrow> \<not> ctl c"
  using no_ampersand no_hash ctl_escaped [of c In_query] by (auto simp: encode_pair_def ctl_def)

lemma encode_pair_nonempty: "encode_pair kv \<noteq> []"
  by (simp add: encode_pair_def)

lemma split_join_amp:
  assumes "\<forall>s \<in> set ss. CHR ''&'' \<notin> set s" and "ss \<noteq> []"
  shows "split_on CHR ''&'' (join_amp ss) = ss"
  using assms by (induction ss rule: join_amp.induct) (auto simp: split_on_none split_on_append)

lemma join_amp_chars: "c \<in> set (join_amp ss) \<Longrightarrow> c = CHR ''&'' \<or> (\<exists>s \<in> set ss. c \<in> set s)"
  by (induction ss rule: join_amp.induct) auto

lemma join_amp_nonempty: "ss \<noteq> [] \<Longrightarrow> hd ss \<noteq> [] \<Longrightarrow> join_amp ss \<noteq> []"
  by (cases ss rule: join_amp.cases) auto

text \<open>An encoded query holds neither \<open>#\<close> nor control characters, and is read back in order.\<close>

lemma values_encode_chars: "c \<in> set (values_encode m) \<Longrightarrow> c \<noteq> CHR ''#'' \<and> \<not> ctl c"
proof -
  assume "c \<in> set (values_encode m)"
  then have "c = CHR ''&'' \<or> (\<exists>kv. c \<in> set (encode_pair kv))"
    unfolding values_encode_def using join_amp_chars [of c "map encode_pair (value_pairs m)"] by (auto simp del: split_paired_Ex)
  then show ?thesis
  proof
    show "c = CHR ''&'' \<Longrightarrow> ?thesis" by (simp add: ctl_def)
    show "\<exists>kv. c \<in> set (encode_pair kv) \<Longrightarrow> ?thesis" using encode_pair_clean(2,3) by blast
  qed
qed

lemma url_query_encode: "url_query (values_encode m) = fold add_value (value_pairs m) []"
proof (cases "value_pairs m = []")
  case True
  then show ?thesis by (simp add: values_encode_def url_query_def parse_pair_def map_filter_def)
next
  case False
  have "List.map_filter parse_pair (map encode_pair ps) = ps" for ps
    by (induction ps) (simp_all add: map_filter_def parse_encode_pair)
  moreover have "split_on CHR ''&'' (values_encode m) = map encode_pair (value_pairs m)"
    unfolding values_encode_def by (rule split_join_amp) (use False encode_pair_clean(1) in auto)
  ultimately show ?thesis by (simp add: url_query_def)
qed

definition values_of :: "string \<Rightarrow> (string \<times> string) list \<Rightarrow> string list" where
  "values_of k ps = map snd (filter (\<lambda>p. fst p = k) ps)"

lemma fold_add_value:
  "map_of (fold add_value ps m) k =
     (if values_of k ps = [] then map_of m k
      else Some ((case map_of m k of None \<Rightarrow> [] | Some vs \<Rightarrow> vs) @ values_of k ps))"
proof (induction ps arbitrary: m)
  case Nil
  then show ?case by (simp add: values_of_def)
next
  case (Cons p ps)
  show ?case
    unfolding fold.simps comp_def Cons.IH
    by (cases "fst p = k") (auto simp: add_value_def values_of_def split: option.splits)
qed

lemma values_of_pairs:
  assumes "distinct ks"
  shows "values_of k (concat (map (\<lambda>k. map (Pair k) (f k)) ks)) = (if k \<in> set ks then f k else [])"
  using assms
proof (induction ks)
  case Nil
  then show ?case by (simp add: values_of_def)
next
  case (Cons a ks)
  have "filter (\<lambda>p. fst p = k) (map (Pair a) vs) = (if a = k then map (Pair a) vs else [])" for vs :: "string list"
    by (induction vs) auto
  then have "values_of k (map (Pair a) vs @ ps) = (if a = k then vs else []) @ values_of k ps" for vs :: "string list" and ps
    by (simp add: values_of_def comp_def)
  then show ?case using Cons by auto
qed

definition url_values_ok :: "url_values \<Rightarrow> bool" where
  "url_values_ok m \<longleftrightarrow> distinct (keys m) \<and> (\<forall>k vs. map_of m k = Some vs \<longrightarrow> vs \<noteq> [])"

theorem query_roundtrip:
  assumes "url_values_ok m"
  shows "map_of (url_query (values_encode m)) = map_of m"
proof
  fix k
  have d: "distinct (sort (keys m))" using assms by (simp add: url_values_ok_def)
  show "map_of (url_query (values_encode m)) k = map_of m k"
    unfolding url_query_encode fold_add_value value_pairs_def values_of_pairs [OF d]
    using assms keys_in_map_of [of k m] map_of_keys [of m k] by (auto simp: url_values_ok_def)
qed

lemma url_values_ok_add: "url_values_ok m \<Longrightarrow> url_values_ok (add_value kv m)"
  by (auto simp: url_values_ok_def add_value_def)

lemma url_values_ok_query: "url_values_ok (url_query q)"
proof -
  have "url_values_ok m \<Longrightarrow> url_values_ok (fold add_value ps m)" for ps m
    by (induction ps arbitrary: m) (auto intro: url_values_ok_add)
  moreover have "url_values_ok []" by (simp add: url_values_ok_def keys_def)
  ultimately show ?thesis by (simp add: url_query_def)
qed

lemma url_values_ok_set: "url_values_ok m \<Longrightarrow> url_values_ok (values_set k v m)"
  by (auto simp: url_values_ok_def values_set_def)

section \<open>URLs read back\<close>

definition lower_word :: "string \<Rightarrow> bool" where
  "lower_word s \<longleftrightarrow> s \<noteq> [] \<and> list_all (between 0x61 0x7A) s"

definition clean_text :: "string \<Rightarrow> bool" where
  "clean_text s \<longleftrightarrow> CHR ''#'' \<notin> set s \<and> list_all (\<lambda>c. \<not> ctl c) s"

definition slash_path :: "string \<Rightarrow> bool" where
  "slash_path p \<longleftrightarrow> p = [] \<or> hd p = CHR ''/''"

text \<open>A URL with a scheme and an authority, as \<open>Parse\<close> makes it from a text \<open>scheme://...\<close>.\<close>

definition url_shape :: "(string \<Rightarrow> string option) \<Rightarrow> net_url \<Rightarrow> bool" where
  "url_shape ph u \<longleftrightarrow>
     lower_word (ur_scheme u) \<and> ur_opaque u = [] \<and> \<not> ur_omit_host u \<and>
     ph (escape In_host (ur_host u)) = Some (ur_host u) \<and>
     slash_path (ur_path u) \<and> slash_path (ur_raw_path u) \<and>
     clean_text (ur_raw_path u) \<and> CHR ''?'' \<notin> set (ur_raw_path u) \<and>
     clean_text (ur_raw_query u)"

text \<open>Such a URL is printed with its \<open>//\<close> when anything follows it.\<close>

definition url_ok :: "(string \<Rightarrow> string option) \<Rightarrow> net_url \<Rightarrow> bool" where
  "url_ok ph u \<longleftrightarrow> url_shape ph u \<and> (ur_host u \<noteq> [] \<or> ur_path u \<noteq> [] \<or> ur_user u \<noteq> None)"

lemma clean_escape: "clean_text (escape m s)"
  using ctl_escaped no_hash by (fastforce simp: clean_text_def list_all_iff)

lemma clean_append [simp]: "clean_text (a @ b) \<longleftrightarrow> clean_text a \<and> clean_text b"
  by (auto simp: clean_text_def)

lemma clean_Nil [simp]: "clean_text []"
  by (simp add: clean_text_def)

lemma clean_Cons: "clean_text (c # s) \<longleftrightarrow> c \<noteq> CHR ''#'' \<and> \<not> ctl c \<and> clean_text s"
  by (auto simp: clean_text_def)

lemma escape_no_question: "m \<noteq> In_fragment \<Longrightarrow> CHR ''?'' \<notin> set (escape m s)"
  by (rule escape_avoids) (cases m; simp add: should_escape_def alnum_def between_def)+

lemma escape_no_slash: "m = In_user \<or> m = In_host \<Longrightarrow> CHR ''/'' \<notin> set (escape m s)"
  by (rule escape_avoids) (auto simp: should_escape_def alnum_def between_def)

lemma escape_no_at: "m = In_user \<or> m = In_host \<Longrightarrow> CHR ''@'' \<notin> set (escape m s)"
  by (rule escape_avoids) (auto simp: should_escape_def alnum_def between_def)

lemma escape_no_colon: "CHR '':'' \<notin> set (escape In_user s)"
  by (rule escape_avoids) (auto simp: should_escape_def alnum_def between_def)

lemma escape_slash: "slash_path p \<Longrightarrow> slash_path (escape In_path p)"
  by (cases p) (auto simp: slash_path_def escape_def escape_char_def should_escape_def)

lemma EscapedPath_ok:
  assumes "url_ok ph u"
  shows "unescape In_path (EscapedPath u) = Some (ur_path u)" "slash_path (EscapedPath u)"
    "clean_text (EscapedPath u)" "CHR ''?'' \<notin> set (EscapedPath u)"
proof -
  have "ur_path u \<noteq> ''*''" using assms by (auto simp: url_ok_def url_shape_def slash_path_def)
  then show "unescape In_path (EscapedPath u) = Some (ur_path u)" "slash_path (EscapedPath u)"
    "clean_text (EscapedPath u)" "CHR ''?'' \<notin> set (EscapedPath u)"
    using assms by (auto simp: EscapedPath_def url_ok_def url_shape_def escape_slash clean_escape escape_no_question)
qed

lemma valid_userinfo_escape: "valid_userinfo (escape In_user s)"
proof -
  have "alnum c \<or> c \<in> set (CHR 0x27 # ''-._:~!$&()*+,;=%@'')" if "c \<in> set (escape In_user s)" for c
    using escape_chars [OF that] by (auto simp: should_escape_def)
  then show ?thesis by (simp add: valid_userinfo_def list_all_iff)
qed

lemma parse_userinfo_string: "parse_userinfo (userinfo_string ui) = Some ui"
proof -
  have "valid_userinfo (userinfo_string ui)"
    using valid_userinfo_escape
    by (auto simp: userinfo_string_def valid_userinfo_def split: option.split)
  then show ?thesis
    by (cases ui) (auto simp: parse_userinfo_def userinfo_string_def escape_no_colon split: option.split)
qed

lemma userinfo_chars:
  "CHR ''/'' \<notin> set (userinfo_string ui)" "CHR ''?'' \<notin> set (userinfo_string ui)" "clean_text (userinfo_string ui)"
  by (auto simp: userinfo_string_def escape_no_slash escape_no_question clean_escape clean_Cons ctl_def split: option.split)

lemma takeWhile_rev_none: "c \<notin> set h \<Longrightarrow> takeWhile (\<lambda>x. x \<noteq> c) (rev h) = rev h"
  by (auto simp: takeWhile_eq_all_conv)

lemma parseAuthority_host: "CHR ''@'' \<notin> set h \<Longrightarrow> parseAuthority ph h = map_option (Pair None) (ph h)"
  by (simp add: parseAuthority_def takeWhile_rev_none split: option.split)

lemma parseAuthority_user:
  assumes "CHR ''@'' \<notin> set h"
  shows "parseAuthority ph (ui @ CHR ''@'' # h) =
     (case ph h of None \<Rightarrow> None | Some x \<Rightarrow> map_option (\<lambda>u. (Some u, x)) (parse_userinfo ui))"
proof -
  have "takeWhile (\<lambda>x. x \<noteq> CHR ''@'') (rev (ui @ CHR ''@'' # h)) = rev h"
    using assms takeWhile_rev_none [OF assms] by (auto simp: takeWhile_append)
  then show ?thesis unfolding parseAuthority_def by (simp split: option.split)
qed

definition authority_text :: "net_url \<Rightarrow> string" where
  "authority_text u =
     (case ur_user u of None \<Rightarrow> [] | Some ui \<Rightarrow> userinfo_string ui @ ''@'') @ escape In_host (ur_host u)"

lemma authority_text_ok:
  assumes "ph (escape In_host (ur_host u)) = Some (ur_host u)"
  shows "parseAuthority ph (authority_text u) = Some (ur_user u, ur_host u)"
    "CHR ''/'' \<notin> set (authority_text u)" "CHR ''?'' \<notin> set (authority_text u)" "clean_text (authority_text u)"
  using assms
  by (auto simp: authority_text_def parseAuthority_host parseAuthority_user escape_no_at parse_userinfo_string
      userinfo_chars escape_no_slash escape_no_question clean_escape clean_Cons ctl_def split: option.split)

text \<open>The printed text of such a URL, part by part.\<close>

definition query_text :: "net_url \<Rightarrow> string" where
  "query_text u = (if ur_force_query u \<or> ur_raw_query u \<noteq> [] then CHR ''?'' # ur_raw_query u else [])"

definition fragment_text :: "net_url \<Rightarrow> string" where
  "fragment_text u = (if ur_fragment u \<noteq> [] then escaped_as In_fragment (ur_raw_fragment u) (ur_fragment u) else [])"

definition before_fragment :: "net_url \<Rightarrow> string" where
  "before_fragment u = ur_scheme u @ '':'' @ ''//'' @ authority_text u @ EscapedPath u @ query_text u"

lemma fragment_text_ok:
  "unescape In_fragment (fragment_text u) = Some (ur_fragment u)" "fragment_text u = [] \<longleftrightarrow> ur_fragment u = []"
proof -
  show *: "unescape In_fragment (fragment_text u) = Some (ur_fragment u)"
    by (auto simp: fragment_text_def escaped_as_def)
  then show "fragment_text u = [] \<longleftrightarrow> ur_fragment u = []" by (auto simp: fragment_text_def)
qed

lemma url_string_parts:
  assumes "url_ok ph u"
  shows "url_string u = before_fragment u @ (if ur_fragment u = [] then [] else CHR ''#'' # fragment_text u)"
proof -
  have s: "ur_scheme u \<noteq> []" and rest: "ur_opaque u = []" "\<not> ur_omit_host u"
      "ur_host u \<noteq> [] \<or> ur_path u \<noteq> [] \<or> ur_user u \<noteq> None"
    using assms by (auto simp: url_ok_def url_shape_def lower_word_def)
  have a: "url_authority u = ''//'' @ authority_text u"
    using s rest by (auto simp: url_authority_def authority_text_def split: option.split)
  have p: "\<not> (EscapedPath u \<noteq> [] \<and> hd (EscapedPath u) \<noteq> CHR ''/'' \<and> ur_host u \<noteq> [])"
    using EscapedPath_ok(2) [OF assms] by (auto simp: slash_path_def)
  show ?thesis
    using s rest p by (simp add: url_string_def a before_fragment_def query_text_def fragment_text_def Let_def)
qed

lemma before_fragment_clean: "url_ok ph u \<Longrightarrow> clean_text (before_fragment u)"
proof -
  assume ok: "url_ok ph u"
  have "clean_text (ur_scheme u)"
    using ok by (auto simp: url_ok_def url_shape_def lower_word_def clean_text_def list_all_iff between_def ctl_def)
  then show ?thesis
    using ok EscapedPath_ok(3) [OF ok] authority_text_ok(4) [of ph u]
    by (auto simp: before_fragment_def query_text_def clean_Cons ctl_def url_ok_def url_shape_def)
qed

lemma getScheme_word: "lower_word s \<Longrightarrow> getScheme (s @ CHR '':'' # r) = Some (s, r)"
proof -
  assume s: "lower_word s"
  then have "list_all scheme_char s"
    by (auto simp: lower_word_def list_all_iff scheme_char_def alnum_def)
  moreover have "\<not> scheme_char (CHR '':'')" by (simp add: scheme_char_def alnum_def between_def)
  ultimately have "takeWhile scheme_char (s @ CHR '':'' # r) = s" "dropWhile scheme_char (s @ CHR '':'' # r) = CHR '':'' # r"
    by (auto simp: list_all_iff takeWhile_append dropWhile_append)
  moreover have "s \<noteq> []" "between 0x61 0x7A (hd s)"
    using s by (cases s; simp add: lower_word_def)+
  ultimately show ?thesis by (simp add: getScheme_def)
qed

lemma split_query_text:
  assumes "CHR ''?'' \<notin> set a"
  shows "split_query (a @ query_text u) = (a, ur_force_query u \<and> ur_raw_query u = [], ur_raw_query u)"
proof (cases "ur_raw_query u = []")
  case True
  moreover have "a \<noteq> [] \<Longrightarrow> last a \<noteq> CHR ''?''" using assms last_in_set [of a] by metis
  ultimately show ?thesis
    using assms by (auto simp: split_query_def query_text_def)
next
  case False
  have "CHR ''?'' \<in> set (butlast (a @ CHR ''?'' # ur_raw_query u))"
    using False by (simp add: butlast_append)
  then show ?thesis
    using assms False by (simp add: split_query_def query_text_def)
qed

lemma ascii_lower_word: "lower_word s \<Longrightarrow> ascii_lower s = s"
  by (auto simp: lower_word_def ascii_lower_def list_all_iff between_def intro!: map_idI)

theorem url_roundtrip:
  assumes "url_ok ph u"
  obtains w where "url_parse ph (url_string u) = Some w"
    "ur_scheme w = ur_scheme u" "ur_user w = ur_user u" "ur_host w = ur_host u"
    "ur_path w = ur_path u" "ur_raw_query w = ur_raw_query u" "ur_fragment w = ur_fragment u"
    "ur_opaque w = []"
proof -
  let ?a = "authority_text u" and ?p = "EscapedPath u"
  let ?v = "empty_url\<lparr>ur_scheme := ur_scheme u, ur_force_query := ur_force_query u \<and> ur_raw_query u = [],
      ur_raw_query := ur_raw_query u, ur_user := ur_user u, ur_host := ur_host u, ur_path := ur_path u,
      ur_raw_path := (if ?p = escape In_path (ur_path u) then [] else ?p)\<rparr>"
  have ok: "lower_word (ur_scheme u)" "ph (escape In_host (ur_host u)) = Some (ur_host u)"
    using assms by (auto simp: url_ok_def url_shape_def)
  note a = authority_text_ok [of ph u, OF ok(2)] and p = EscapedPath_ok [OF assms]
  have clean: "list_ex ctl (before_fragment u) = False" "CHR ''#'' \<notin> set (before_fragment u)"
    using before_fragment_clean [OF assms] by (auto simp: clean_text_def list_ex_iff list_all_iff)
  have "getScheme (before_fragment u) = Some (ur_scheme u, ''//'' @ ?a @ ?p @ query_text u)"
    using getScheme_word [OF ok(1)] by (simp add: before_fragment_def)
  moreover have "split_query (''//'' @ ?a @ ?p @ query_text u) =
      (''//'' @ ?a @ ?p, ur_force_query u \<and> ur_raw_query u = [], ur_raw_query u)"
    using split_query_text [of "''//'' @ ?a @ ?p" u] a(3) p(4) by simp
  moreover have "takeWhile (\<lambda>x. x \<noteq> CHR ''/'') (?a @ ?p) = ?a" "dropWhile (\<lambda>x. x \<noteq> CHR ''/'') (?a @ ?p) = ?p"
    using a(2) p(2) by (cases ?p; auto simp: slash_path_def takeWhile_append dropWhile_append)+
  moreover have "ur_scheme u \<noteq> []" using ok(1) by (simp add: lower_word_def)
  moreover have "before_fragment u \<noteq> ''*''"
    by (simp add: before_fragment_def Cons_eq_append_conv)
  ultimately have "parse_no_fragment ph (before_fragment u) = Some ?v"
    using clean(1) a(1) p(1) ok(1)
    by (simp add: parse_no_fragment_def setPath_def ascii_lower_word empty_url_def)
  then have "\<exists>w. url_parse ph (url_string u) = Some w \<and> w\<lparr>ur_raw_fragment := []\<rparr> = ?v\<lparr>ur_fragment := ur_fragment u\<rparr>"
    using clean(2) fragment_text_ok [of u]
    by (simp add: url_parse_def url_string_parts [OF assms] setFragment_def empty_url_def)
  then obtain w where w: "url_parse ph (url_string u) = Some w" "w\<lparr>ur_raw_fragment := []\<rparr> = ?v\<lparr>ur_fragment := ur_fragment u\<rparr>"
    by blast
  show thesis
    by (rule that [OF w(1)]) (use w(2) in \<open>cases w; simp add: empty_url_def\<close>)+
qed

text \<open>What \<open>Parse\<close> makes of \<open>scheme://...\<close>.\<close>

definition host_law :: "(string \<Rightarrow> string option) \<Rightarrow> bool" where
  "host_law ph \<longleftrightarrow> (\<forall>x h. ph x = Some h \<longrightarrow> ph (escape In_host h) = Some h)"

lemma split_query_slashes:
  assumes "split_query (CHR ''/'' # CHR ''/'' # r) = (rest, f, q)"
  obtains r' where "rest = CHR ''/'' # CHR ''/'' # r'" "set r' \<subseteq> set r" "set q \<subseteq> set r" "CHR ''?'' \<notin> set r'"
proof (cases "r \<noteq> [] \<and> last r = CHR ''?'' \<and> CHR ''?'' \<notin> set (butlast r)")
  case True
  with assms that [of "butlast r"] show ?thesis by (auto simp: split_query_def dest: in_set_butlastD)
next
  case False
  have "fst (cut c s) = takeWhile (\<lambda>x. x \<noteq> c) s" "set (snd (cut c s)) \<subseteq> set s" for c s
    by (auto simp: cut_def dest!: in_set_dropD dest: set_dropWhileD)
  with False assms that [of "takeWhile (\<lambda>x. x \<noteq> CHR ''?'') r"] show ?thesis
    by (auto simp: split_query_def cut_def dest: set_takeWhileD split: if_splits)
qed

lemma parseAuthority_host_law:
  "host_law ph \<Longrightarrow> parseAuthority ph a = Some (user, h) \<Longrightarrow> ph (escape In_host h) = Some h"
  by (auto simp: parseAuthority_def host_law_def Let_def split: option.splits if_splits)

lemma unescape_slash_path: "unescape m p = Some q \<Longrightarrow> slash_path p \<Longrightarrow> m \<noteq> In_query \<Longrightarrow> slash_path q"
  by (cases p) (auto simp: slash_path_def)

lemma slash_path_dropWhile: "slash_path (dropWhile (\<lambda>x. x \<noteq> CHR ''/'') s)"
  using hd_dropWhile [of "\<lambda>x. x \<noteq> CHR ''/''" s] by (auto simp: slash_path_def)

lemma parse_no_fragment_ok:
  assumes "parse_no_fragment ph (sch @ CHR '':'' # CHR ''/'' # CHR ''/'' # r) = Some u" and "lower_word sch"
    and "host_law ph" and "CHR ''#'' \<notin> set r"
  shows "url_shape ph u \<and> ur_scheme u = sch"
proof -
  let ?raw = "sch @ CHR '':'' # CHR ''/'' # CHR ''/'' # r"
  obtain rest f q where sq: "split_query (CHR ''/'' # CHR ''/'' # r) = (rest, f, q)" by (rule prod_cases3)
  obtain r' where r': "rest = CHR ''/'' # CHR ''/'' # r'" "set r' \<subseteq> set r" "set q \<subseteq> set r" "CHR ''?'' \<notin> set r'"
    using split_query_slashes [OF sq] .
  have sch: "sch \<noteq> []" using assms(2) by (simp add: lower_word_def)
  have ctl: "\<not> list_ex ctl ?raw" using assms(1) by (auto simp: parse_no_fragment_def split: if_splits)
  let ?u = "empty_url\<lparr>ur_scheme := sch, ur_force_query := f, ur_raw_query := q\<rparr>"
  let ?path = "dropWhile (\<lambda>x. x \<noteq> CHR ''/'') r'"
  have "?raw \<noteq> ''*''" by (simp add: append_eq_Cons_conv)
  then obtain user h where auth: "parseAuthority ph (takeWhile (\<lambda>x. x \<noteq> CHR ''/'') r') = Some (user, h)"
      and path: "setPath ?path (?u\<lparr>ur_user := user, ur_host := h\<rparr>) = Some u"
    using assms(1) ctl sch getScheme_word [OF assms(2)] sq r'(1)
    by (auto simp: parse_no_fragment_def ascii_lower_word [OF assms(2)] Let_def split: option.splits)
  have "set ?path \<subseteq> set r" using r'(2) by (auto dest: set_dropWhileD)
  moreover have "CHR ''?'' \<notin> set ?path" using r'(4) by (auto dest: set_dropWhileD)
  moreover have "clean_text r" using ctl assms(4) by (auto simp: clean_text_def list_ex_iff list_all_iff)
  ultimately have "clean_text ?path" "clean_text q" "CHR ''?'' \<notin> set ?path"
    using r'(3) by (auto simp: clean_text_def list_all_iff)
  moreover have "ph (escape In_host h) = Some h" by (rule parseAuthority_host_law [OF assms(3) auth])
  moreover have "slash_path (ur_path u)"
    using path unescape_slash_path [OF _ slash_path_dropWhile, of In_path r'] by (auto simp: setPath_def)
  ultimately show ?thesis
    using path assms(2) slash_path_dropWhile [of r']
    by (auto simp: setPath_def url_shape_def empty_url_def slash_path_def [of "[]"] split: if_splits)
qed

lemma url_parse_shape:
  assumes "url_parse ph (sch @ CHR '':'' # CHR ''/'' # CHR ''/'' # r) = Some u" and "lower_word sch"
    and "host_law ph"
  shows "url_shape ph u \<and> ur_scheme u = sch"
proof -
  let ?r = "takeWhile (\<lambda>x. x \<noteq> CHR ''#'') r"
  have "CHR ''#'' \<notin> set sch" using assms(2) by (auto simp: lower_word_def list_all_iff between_def)
  then have "fst (cut CHR ''#'' (sch @ CHR '':'' # CHR ''/'' # CHR ''/'' # r)) = sch @ CHR '':'' # CHR ''/'' # CHR ''/'' # ?r"
    by (auto simp: cut_def takeWhile_append)
  then obtain v where v: "parse_no_fragment ph (sch @ CHR '':'' # CHR ''/'' # CHR ''/'' # ?r) = Some v"
      and u: "u = v \<or> (\<exists>g f. u = v\<lparr>ur_fragment := g, ur_raw_fragment := f\<rparr>)"
    using assms(1) by (auto simp: url_parse_def setFragment_def split: prod.splits option.splits if_splits)
  have "CHR ''#'' \<notin> set ?r" by (auto dest: set_takeWhileD)
  with parse_no_fragment_ok [OF v assms(2,3)] u show ?thesis
    by (auto simp: url_shape_def)
qed

end
