(* ===== verification/Go_Handles.thy ===== *)
theory Go_Handles
  imports Prelude
begin

text \<open>
  Resources a program opens and has to close (database handles and pools): a table of the open
  ones, beside the state of everything outside the program. An external call acts on the latter
  only, so the table changes by opening and closing alone. A \<open>context.Context\<close> is its deadline.
\<close>

record 'g handles =
  hd_open :: "nat list"
  hd_next :: nat
  hd_ext :: 'g

definition open_handle :: "'g handles \<Rightarrow> 'g handles \<times> nat" where
  "open_handle w = (w\<lparr>hd_open := hd_next w # hd_open w, hd_next := Suc (hd_next w)\<rparr>, hd_next w)"

definition close_handle :: "nat \<Rightarrow> 'g handles \<Rightarrow> 'g handles" where
  "close_handle h w = w\<lparr>hd_open := removeAll h (hd_open w)\<rparr>"

definition external :: "('g \<Rightarrow> 'g \<times> 'a) \<Rightarrow> 'g handles \<Rightarrow> 'g handles \<times> 'a" where
  "external f w = (case f (hd_ext w) of (g, r) \<Rightarrow> (w\<lparr>hd_ext := g\<rparr>, r))"

text \<open>Handles are numbered in the order they are opened.\<close>

definition handles_ok :: "'g handles \<Rightarrow> bool" where
  "handles_ok w \<longleftrightarrow> (\<forall>h \<in> set (hd_open w). h < hd_next w)"

text \<open>A call that leaves no handle of its own open, and closes no one else's.\<close>

definition settled :: "'g handles \<Rightarrow> 'g handles \<Rightarrow> bool" where
  "settled w w' \<longleftrightarrow> hd_open w' = hd_open w \<and> hd_next w \<le> hd_next w'"

text \<open>A call that leaves the one handle \<open>h\<close> open.\<close>

definition holding :: "nat \<Rightarrow> 'g handles \<Rightarrow> 'g handles \<Rightarrow> bool" where
  "holding h w w' \<longleftrightarrow> hd_open w' = h # hd_open w \<and> h \<notin> set (hd_open w) \<and> h < hd_next w' \<and> hd_next w \<le> hd_next w'"

text \<open>What a database answers to a statement: done, an error with its SQLSTATE, or another error.\<close>

datatype exec_result = Executed | Sqlstate string | Exec_failed

lemma settled_refl [simp]: "settled w w"
  by (simp add: settled_def)

lemma settled_trans: "settled w w' \<Longrightarrow> settled w' w'' \<Longrightarrow> settled w w''"
  by (simp add: settled_def)

lemma settled_ok: "settled w w' \<Longrightarrow> handles_ok w \<Longrightarrow> handles_ok w'"
  by (auto simp: settled_def handles_ok_def)

lemma external_settled: "external f w = (w', r) \<Longrightarrow> settled w w'"
  by (auto simp: external_def settled_def split: prod.splits)

lemma open_holding: "handles_ok w \<Longrightarrow> open_handle w = (w', h) \<Longrightarrow> holding h w w'"
  by (auto simp: open_handle_def holding_def handles_ok_def)

lemma holding_external: "holding h w w' \<Longrightarrow> external f w' = (w'', r) \<Longrightarrow> holding h w w''"
  by (auto simp: external_def holding_def split: prod.splits)

lemma holding_settled: "holding h w w' \<Longrightarrow> settled w' w'' \<Longrightarrow> holding h w w''"
  by (auto simp: settled_def holding_def)

lemma close_settled: "holding h w w' \<Longrightarrow> settled w (close_handle h w')"
  by (simp add: holding_def settled_def close_handle_def)

text \<open>
  The interface of what opens a resource: it comes back with its handle open, or with nothing open.
  Every client uses it the same way, and closes the handle whatever its own work came to.
\<close>

locale acquisition =
  fixes acquire :: "'g handles \<Rightarrow> 'g handles \<times> ('e + 'd)" and handle_of :: "'d \<Rightarrow> nat"
  assumes acquired: "handles_ok w \<Longrightarrow> acquire w = (w', Inr d) \<Longrightarrow> holding (handle_of d) w w'"
    and refused: "handles_ok w \<Longrightarrow> acquire w = (w', Inl e) \<Longrightarrow> settled w w'"
begin

lemma used_and_closed:
  "handles_ok w \<Longrightarrow> acquire w = (w1, Inr d) \<Longrightarrow> settled w1 w2 \<Longrightarrow> settled w (close_handle (handle_of d) w2)"
  by (intro close_settled holding_settled [OF acquired])

lemma bracket_settled:
  assumes "handles_ok w"
    and "(case acquire w of
            (w, Inl e) \<Rightarrow> (w, Inl e)
          | (w, Inr d) \<Rightarrow> (case external (f d) w of (w, res) \<Rightarrow> (close_handle (handle_of d) w, g res))) = (w', r)"
  shows "settled w w'"
proof (cases "acquire w")
  case (Pair w1 x)
  show ?thesis
  proof (cases x)
    case (Inl e)
    then show ?thesis using assms Pair refused by simp
  next
    case (Inr d)
    obtain w2 res where "external (f d) w1 = (w2, res)" by fastforce
    then show ?thesis
      using assms Pair Inr used_and_closed [OF assms(1), of w1 d w2] external_settled by fastforce
  qed
qed

end

definition WithTimeout :: "time option \<Rightarrow> time \<Rightarrow> duration \<Rightarrow> time option" where
  "WithTimeout ctx now d = Some (case ctx of None \<Rightarrow> now + d | Some t \<Rightarrow> min t (now + d))"

end
