(* ===== verification/Conninfo.thy ===== *)
theory Conninfo
  imports Go_Strings
begin

text \<open>
  The keyword/value format of a PostgreSQL connection string, as libpq documents it: settings
  \<open>keyword = value\<close> separated by blanks, blanks around the equals sign optional, a value in single
  quotes when it is empty or holds blanks, a backslash before a quote or backslash in a value, and
  the last of several settings of one keyword in force. The reader here is the reference that the
  program's own scanning and writing of such strings is compared with.
\<close>

definition blank :: "char \<Rightarrow> bool" where
  "blank c \<longleftrightarrow> between 9 13 c \<or> byte_at c = 32"

abbreviation quote_char :: char where "quote_char \<equiv> CHR 0x27"
abbreviation backslash :: char where "backslash \<equiv> CHR 0x5C"

fun read_bare :: "string \<Rightarrow> string \<times> string" where
  "read_bare [] = ([], [])"
| "read_bare (c # s) =
     (if blank c then ([], c # s)
      else if c = backslash
           then (case s of [] \<Rightarrow> ([], []) | d # r \<Rightarrow> (case read_bare r of (v, t) \<Rightarrow> (d # v, t)))
           else (case read_bare s of (v, t) \<Rightarrow> (c # v, t)))"

fun read_quoted :: "string \<Rightarrow> (string \<times> string) option" where
  "read_quoted [] = None"
| "read_quoted (c # s) =
     (if c = quote_char then Some ([], s)
      else if c = backslash
           then (case s of [] \<Rightarrow> None | d # r \<Rightarrow> map_option (\<lambda>(v, t). (d # v, t)) (read_quoted r))
           else map_option (\<lambda>(v, t). (c # v, t)) (read_quoted s))"

definition read_value :: "string \<Rightarrow> (string \<times> string) option" where
  "read_value s = (if s \<noteq> [] \<and> hd s = quote_char then read_quoted (tl s) else Some (read_bare s))"

definition key_char :: "char \<Rightarrow> bool" where
  "key_char c \<longleftrightarrow> \<not> blank c \<and> c \<noteq> CHR ''=''"

abbreviation skip_blanks :: "string \<Rightarrow> string" where
  "skip_blanks \<equiv> dropWhile blank"

lemma read_bare_shorter: "length (snd (read_bare s)) \<le> length s"
proof (induction s rule: length_induct)
  case (1 s)
  have IH: "length r < length s \<Longrightarrow> length (snd (read_bare r)) \<le> length r" for r using 1 by blast
  show ?case
  proof (cases s)
    case Nil
    then show ?thesis by simp
  next
    case (Cons c s')
    then show ?thesis using IH [of s'] IH [of "tl s'"] by (cases s') (auto simp: case_prod_beta)
  qed
qed

lemma read_quoted_shorter: "read_quoted s = Some (v, t) \<Longrightarrow> length t < length s"
proof (induction s arbitrary: v rule: length_induct)
  case (1 s)
  have IH: "length r < length s \<Longrightarrow> read_quoted r = Some (u, t) \<Longrightarrow> length t < length r" for r u using 1(1) by blast
  show ?case
  proof (cases s)
    case Nil
    with 1(2) show ?thesis by simp
  next
    case (Cons c s')
    then show ?thesis
      using 1(2) IH [of s'] IH [of "tl s'"] by (cases s') (auto split: if_splits)
  qed
qed

lemma read_value_shorter: "read_value s = Some (v, t) \<Longrightarrow> length t \<le> length s"
  using read_bare_shorter [of s] read_quoted_shorter [of "tl s" v t]
  by (cases s) (auto simp: read_value_def split: if_splits)

function read_conninfo :: "string \<Rightarrow> (string \<times> string) list option" where
  "read_conninfo s =
     (let k = takeWhile key_char (skip_blanks s); r = skip_blanks (dropWhile key_char (skip_blanks s))
      in if skip_blanks s = [] then Some []
         else if r = [] \<or> hd r \<noteq> CHR ''='' then None
         else case read_value (skip_blanks (tl r)) of
                None \<Rightarrow> None
              | Some (v, t) \<Rightarrow> map_option ((#) (k, v)) (read_conninfo t))"
  by pat_completeness auto
termination
proof (relation "measure length", goal_cases)
  case 1
  then show ?case by simp
next
  case (2 s k r p v t)
  have "length r \<le> length s"
    unfolding 2(2) by (meson dual_order.trans length_dropWhile_le)
  moreover have "length t \<le> length (skip_blanks (tl r))"
    using read_value_shorter [of "skip_blanks (tl r)" v t] 2(5,6) by simp
  moreover have "length (skip_blanks (tl r)) \<le> length (tl r)" by (rule length_dropWhile_le)
  moreover have "length (tl r) < length r" using 2 by simp
  ultimately show ?case by simp
qed

declare read_conninfo.simps [simp del]

text \<open>The setting in force: the last one.\<close>

definition in_force :: "(string \<times> string) list \<Rightarrow> string \<Rightarrow> string option" where
  "in_force kvs k = map_of (rev kvs) k"

lemma in_force_append: "in_force (kvs @ kvs') k = (case in_force kvs' k of Some v \<Rightarrow> Some v | None \<Rightarrow> in_force kvs k)"
  by (simp add: in_force_def map_add_def cong: option.case_cong)

section \<open>Writing settings\<close>

text \<open>
  A value as it is written: its characters, each with a backslash before it or not, in quotes or
  bare; and a setting with the blanks before it.
\<close>

type_synonym written = "(bool \<times> char) list"

record setting =
  st_blanks :: string
  st_key :: string
  st_quoted :: bool
  st_value :: written

definition written_text :: "written \<Rightarrow> string" where
  "written_text w = concat (map (\<lambda>(b, c). if b then [backslash, c] else [c]) w)"

definition value_text :: "setting \<Rightarrow> string" where
  "value_text t =
     (if st_quoted t then quote_char # written_text (st_value t) @ [quote_char] else written_text (st_value t))"

definition setting_text :: "setting \<Rightarrow> string" where
  "setting_text t = st_blanks t @ st_key t @ CHR ''='' # value_text t"

definition conn_text :: "setting list \<Rightarrow> string" where
  "conn_text ts = concat (map setting_text ts)"

definition setting_of :: "setting \<Rightarrow> string \<times> string" where
  "setting_of t = (st_key t, map snd (st_value t))"

definition quoted_ok :: "written \<Rightarrow> bool" where
  "quoted_ok w \<longleftrightarrow> list_all (\<lambda>(b, c). b \<or> c \<notin> {quote_char, backslash}) w"

definition bare_ok :: "written \<Rightarrow> bool" where
  "bare_ok w \<longleftrightarrow> w \<noteq> [] \<and> hd w \<noteq> (False, quote_char) \<and> list_all (\<lambda>(b, c). b \<or> \<not> blank c \<and> c \<noteq> backslash) w"

definition setting_ok :: "setting \<Rightarrow> bool" where
  "setting_ok t \<longleftrightarrow>
     list_all blank (st_blanks t) \<and> st_key t \<noteq> [] \<and> list_all key_char (st_key t) \<and>
     (if st_quoted t then quoted_ok (st_value t) else bare_ok (st_value t))"

text \<open>Every setting but the first has a blank before it.\<close>

fun conn_ok :: "setting list \<Rightarrow> bool" where
  "conn_ok [] \<longleftrightarrow> True"
| "conn_ok (t # ts) \<longleftrightarrow> setting_ok t \<and> list_all (\<lambda>u. st_blanks u \<noteq> []) ts \<and> list_all setting_ok ts"

definition ends_value :: "string \<Rightarrow> bool" where
  "ends_value r \<longleftrightarrow> r = [] \<or> blank (hd r)"

lemma read_bare_text:
  "list_all (\<lambda>(b, c). b \<or> \<not> blank c \<and> c \<noteq> backslash) w \<Longrightarrow> ends_value r \<Longrightarrow>
   read_bare (written_text w @ r) = (map snd w, r)"
proof (induction w)
  case Nil
  then show ?case by (cases r) (auto simp: written_text_def ends_value_def)
next
  case (Cons p w)
  have "\<not> blank backslash" by (simp add: blank_def between_def)
  with Cons show ?case by (cases p) (auto simp: written_text_def)
qed

lemma read_quoted_text:
  "quoted_ok w \<Longrightarrow> read_quoted (written_text w @ quote_char # r) = Some (map snd w, r)"
  by (induction w) (auto simp: written_text_def quoted_ok_def)

lemma read_value_text:
  assumes "setting_ok t" and "ends_value r"
  shows "read_value (value_text t @ r) = Some (map snd (st_value t), r)"
proof (cases "st_quoted t")
  case True
  with assms show ?thesis by (simp add: read_value_def value_text_def setting_ok_def read_quoted_text)
next
  case False
  then have "bare_ok (st_value t)" using assms(1) by (simp add: setting_ok_def)
  moreover from this have "written_text (st_value t) \<noteq> [] \<and> hd (written_text (st_value t)) \<noteq> quote_char"
    by (cases "st_value t") (auto simp: bare_ok_def written_text_def split: if_splits)
  ultimately show ?thesis
    using False assms(2) read_bare_text by (auto simp: read_value_def value_text_def bare_ok_def)
qed

lemma skip_blanks_append: "list_all blank a \<Longrightarrow> skip_blanks (a @ s) = skip_blanks s"
  by (induction a) auto

lemma value_text_start: "setting_ok t \<Longrightarrow> skip_blanks (value_text t @ r) = value_text t @ r"
proof -
  assume "setting_ok t"
  moreover have "\<not> blank quote_char" "\<not> blank backslash" by (simp_all add: blank_def between_def)
  ultimately show ?thesis
    by (cases "st_value t")
       (auto simp: setting_ok_def value_text_def written_text_def bare_ok_def)
qed

lemma read_setting:
  assumes "setting_ok t" and "ends_value r"
  shows "read_conninfo (setting_text t @ r) = map_option ((#) (setting_of t)) (read_conninfo r)"
proof -
  let ?r = "CHR ''='' # value_text t @ r"
  have b: "skip_blanks (setting_text t @ r) = st_key t @ ?r"
  proof -
    have "\<not> blank (hd (st_key t))" "st_key t \<noteq> []"
      using assms(1) by (cases "st_key t"; auto simp: setting_ok_def key_char_def)+
    then have "skip_blanks (st_key t @ ?r) = st_key t @ ?r" by (cases "st_key t") auto
    then show ?thesis using assms(1) by (simp add: setting_text_def setting_ok_def skip_blanks_append)
  qed
  have k: "takeWhile key_char (st_key t @ ?r) = st_key t" "dropWhile key_char (st_key t @ ?r) = ?r"
    using assms(1) by (auto simp: setting_ok_def list_all_iff key_char_def)
  have "skip_blanks ?r = ?r" by (simp add: blank_def between_def)
  then show ?thesis
    unfolding read_conninfo.simps [of "setting_text t @ r"] b k Let_def
    by (simp add: value_text_start [OF assms(1)] read_value_text [OF assms] setting_of_def)
qed

theorem read_conn_text:
  assumes "conn_ok ts" and "list_all blank r"
  shows "read_conninfo (conn_text ts @ r) = Some (map setting_of ts)"
  using assms(1)
proof (induction ts)
  case Nil
  have "skip_blanks r = []" using assms(2) by (auto simp: list_all_iff)
  then show ?case by (simp add: conn_text_def read_conninfo.simps [of r])
next
  case (Cons t ts)
  have "ends_value (conn_text ts @ r)"
    using Cons.prems assms(2)
    by (cases ts; cases r; auto simp: ends_value_def conn_text_def setting_text_def setting_ok_def list_all_iff neq_Nil_conv)
  moreover have "conn_ok ts" using Cons.prems by (cases ts) auto
  ultimately show ?case
    using read_setting [of t "conn_text ts @ r"] Cons by (simp add: conn_text_def)
qed

section \<open>Settings added at the end\<close>

text \<open>
  A string to which settings can be added after a blank: its last character ends a value. (After an
  equals sign the addition would be read as the value.)
\<close>

definition closed_text :: "string \<Rightarrow> bool" where
  "closed_text s \<longleftrightarrow> s = [] \<or> (last s \<noteq> CHR ''='' \<and> last s \<noteq> backslash \<and> \<not> blank (last s))"

lemma closed_suffix: "closed_text (a @ b) \<Longrightarrow> closed_text b"
  by (auto simp: closed_text_def)

lemma closed_drop: "closed_text s \<Longrightarrow> closed_text (dropWhile P s)"
  using closed_suffix [of "takeWhile P s" "dropWhile P s"] by simp

lemma closed_tl: "closed_text s \<Longrightarrow> closed_text (tl s)"
  by (cases s) (auto simp: closed_text_def)

lemma closed_not_blank: "closed_text s \<Longrightarrow> s \<noteq> [] \<Longrightarrow> skip_blanks s \<noteq> []"
  by (auto simp: closed_text_def dest: last_in_set)

lemma dropWhile_append_nonempty: "dropWhile P s \<noteq> [] \<Longrightarrow> dropWhile P (s @ u) = dropWhile P s @ u"
  by (induction s) auto

lemma takeWhile_append_nonempty: "dropWhile P s \<noteq> [] \<Longrightarrow> takeWhile P (s @ u) = takeWhile P s"
  by (induction s) auto

lemma read_bare_suffix: "suffix (snd (read_bare s)) s"
proof (induction s rule: length_induct)
  case (1 s)
  have IH: "length r < length s \<Longrightarrow> suffix (snd (read_bare r)) r" for r using 1 by blast
  show ?case
  proof (cases s)
    case Nil
    then show ?thesis by simp
  next
    case (Cons c s')
    then show ?thesis
      using IH [of s'] IH [of "tl s'"]
      by (cases s') (auto simp: case_prod_beta intro: suffix_ConsI)
  qed
qed

lemma read_bare_append:
  assumes "blank b" and "s \<noteq> [] \<Longrightarrow> last s \<noteq> backslash"
  shows "read_bare (s @ b # u) = (fst (read_bare s), snd (read_bare s) @ b # u)"
  using assms(2)
proof (induction s rule: length_induct)
  case (1 s)
  have IH: "read_bare (r @ b # u) = (fst (read_bare r), snd (read_bare r) @ b # u)"
    if "length r < length s" "r \<noteq> [] \<Longrightarrow> last r \<noteq> backslash" for r
    using 1(1) that by blast
  show ?case
  proof (cases s)
    case Nil
    then show ?thesis using assms(1) by simp
  next
    case (Cons c s')
    have l: "s' \<noteq> [] \<Longrightarrow> last s' \<noteq> backslash" using 1(2) Cons by auto
    show ?thesis
    proof (cases s')
      case Nil
      then show ?thesis using 1(2) Cons assms(1) by auto
    next
      case (Cons d r)
      have "read_bare (s' @ b # u) = (fst (read_bare s'), snd (read_bare s') @ b # u)"
        using IH [OF _ l] \<open>s = c # s'\<close> by simp
      moreover have "read_bare (r @ b # u) = (fst (read_bare r), snd (read_bare r) @ b # u)"
        by (rule IH) (use l Cons \<open>s = c # s'\<close> in auto)
      ultimately show ?thesis using \<open>s = c # s'\<close> Cons by (simp add: case_prod_beta)
    qed
  qed
qed

lemma read_quoted_append:
  "read_quoted s = Some (v, t) \<Longrightarrow>
   read_quoted (s @ u) = Some (v, t @ u) \<and> (\<exists>p. s = p @ t)"
proof (induction s arbitrary: v rule: length_induct)
  case (1 s)
  have IH: "read_quoted r = Some (w, t) \<Longrightarrow> read_quoted (r @ u) = Some (w, t @ u) \<and> (\<exists>p. r = p @ t)"
    if "length r < length s" for r w
    using 1(1) that by blast
  show ?case
  proof (cases s)
    case Nil
    with 1(2) show ?thesis by simp
  next
    case (Cons c s')
    then show ?thesis
      using 1(2) IH [of s'] IH [of "tl s'"]
      by (cases s') (auto simp: append_eq_Cons_conv split: if_splits)
  qed
qed

lemma read_value_append:
  assumes "closed_text s" and "s \<noteq> []" and "read_value s = Some (v, t)" and "blank b"
  shows "read_value (s @ b # u) = Some (v, t @ b # u) \<and> closed_text t"
proof (cases "hd s = quote_char")
  case True
  then have "read_quoted (tl s) = Some (v, t)" using assms(2,3) by (simp add: read_value_def)
  from read_quoted_append [OF this, of "b # u"] show ?thesis
    using True assms(1,2) closed_suffix closed_tl [OF assms(1)] by (auto simp: read_value_def)
next
  case False
  then have "read_bare s = (v, t)" using assms(2,3) by (simp add: read_value_def)
  moreover have "closed_text (snd (read_bare s))"
    using assms(1) read_bare_suffix [of s] by (metis closed_suffix suffixE)
  moreover have "s \<noteq> [] \<Longrightarrow> last s \<noteq> backslash" using assms(1) by (simp add: closed_text_def)
  ultimately show ?thesis
    using False assms read_bare_append [OF assms(4), of s u] 
    by (simp add: read_value_def)
qed

theorem read_conninfo_append:
  assumes "read_conninfo s = Some kvs" and "closed_text s" and "blank b"
  shows "read_conninfo (s @ b # u) = map_option ((@) kvs) (read_conninfo u)"
  using assms(1,2)
proof (induction s arbitrary: kvs rule: read_conninfo.induct)
  case (1 s)
  have start: "read_conninfo (b # u) = read_conninfo u"
    using assms(3) read_conninfo.simps [of "b # u"] read_conninfo.simps [of u] by simp
  let ?s = "skip_blanks s"
  let ?k = "takeWhile key_char ?s" and ?r = "skip_blanks (dropWhile key_char ?s)"
  show ?case
  proof (cases "s = []")
    case True
    then have "kvs = []" using 1(2) by (simp add: read_conninfo.simps [of "[]"])
    then show ?thesis using True start by (simp add: option.map_ident)
  next
    case False
    then have ne: "?s \<noteq> []" using closed_not_blank 1(3) by blast
    obtain v t kvs' where r: "?r \<noteq> []" "hd ?r = CHR ''=''"
      and v: "read_value (skip_blanks (tl ?r)) = Some (v, t)"
      and k: "kvs = (?k, v) # kvs'" "read_conninfo t = Some kvs'"
      using 1(2) ne unfolding read_conninfo.simps [of s] Let_def by (auto split: if_splits option.splits)
    have d: "dropWhile key_char ?s \<noteq> []" using r(1) by (metis dropWhile.simps(1))
    have closed: "closed_text ?r" using 1(3) by (intro closed_drop)
    have tl: "tl ?r \<noteq> []" using closed r by (cases ?r) (auto simp: closed_text_def)
    then have x: "skip_blanks (tl ?r) \<noteq> []" "closed_text (skip_blanks (tl ?r))"
      using closed_tl [OF closed] closed_not_blank closed_drop by blast+
    have app: "skip_blanks (s @ b # u) = ?s @ b # u"
        "takeWhile key_char (?s @ b # u) = ?k" "skip_blanks (dropWhile key_char (?s @ b # u)) = ?r @ b # u"
        "skip_blanks (tl (?r @ b # u)) = skip_blanks (tl ?r) @ b # u"
      using dropWhile_append_nonempty [OF ne] takeWhile_append_nonempty [OF d] dropWhile_append_nonempty [OF d]
        dropWhile_append_nonempty [OF r(1)] dropWhile_append_nonempty [OF x(1)] tl_append2 [OF r(1)]
      by (simp_all only:)
    note val = read_value_append [OF x(2,1) v assms(3), of u]
    have "read_conninfo (t @ b # u) = map_option ((@) kvs') (read_conninfo u)"
      by (rule 1(1) [OF refl refl ne _ v refl k(2)]) (use r val in auto)
    then show ?thesis
      unfolding read_conninfo.simps [of "s @ b # u"] app Let_def
      using ne r val by (simp add: k(1) option.map_comp comp_def)
  qed
qed

end
