(* ===== verification/Db_Pool.thy ===== *)
theory Db_Pool
  imports Go_Url Go_Handles Conninfo Config
begin

text \<open>
  The connection pool, \<open>db/db.go\<close>: the pool's configuration from the program's own, the CA bundle
  injected into the connection string, and the pool opened and checked. What pgx makes of a
  connection string, and the opening and pinging of a pool, are arguments.
\<close>

section \<open>Pool configuration\<close>

definition maxConnLifetime :: duration where "maxConnLifetime = hour"
definition maxConnIdleTime :: duration where "maxConnIdleTime = 30 * minute"
definition healthCheckPeriod :: duration where "healthCheckPeriod = minute"

datatype exec_mode = Cache_statement | Cache_describe | Describe_exec | Exec_mode | Simple_protocol

text \<open>The fields of a \<open>pgxpool.Config\<close> the program reads or sets; \<open>pc_tls\<close> says that \<open>TLSConfig\<close> is not nil.\<close>

record pool_config =
  pc_max_conns :: int
  pc_lifetime :: duration
  pc_idle :: duration
  pc_health :: duration
  pc_tls :: bool
  pc_params :: "(string \<times> string) list option"
  pc_exec :: exec_mode
  pc_statements :: int
  pc_descriptions :: int

datatype db_error = Empty_dsn | Malformed_url | Malformed_dsn | Supabase_without_tls | Pool_not_created | Not_reachable

fun join_with :: "string \<Rightarrow> string list \<Rightarrow> string" where
  "join_with sep [] = []"
| "join_with sep [s] = s"
| "join_with sep (s # t # ss) = s @ sep @ join_with sep (t # ss)"

definition WithSearchPath :: "string list \<Rightarrow> pool_config \<Rightarrow> pool_config" where
  "WithSearchPath schemas cfg =
     (if schemas = [] then cfg
      else cfg\<lparr>pc_params := Some (AList.update ''search_path'' (join_with '', '' schemas)
                 (case pc_params cfg of None \<Rightarrow> [] | Some m \<Rightarrow> m))\<rparr>)"

definition applySupabasePooling :: "pool_config \<Rightarrow> string \<Rightarrow> db_error + pool_config" where
  "applySupabasePooling cfg mode =
     (if \<not> pc_tls cfg then Inl Supabase_without_tls
      else if mode = DBPoolModeTransaction
           then Inr (cfg\<lparr>pc_exec := Exec_mode, pc_statements := 0, pc_descriptions := 0\<rparr>)
           else Inr cfg)"

section \<open>The CA bundle\<close>

definition has_prefix :: "string \<Rightarrow> string \<Rightarrow> bool" where
  "has_prefix p s \<longleftrightarrow> take (length p) s = p"

definition is_url :: "string \<Rightarrow> bool" where
  "is_url dsn \<longleftrightarrow> has_prefix ''postgres://'' dsn \<or> has_prefix ''postgresql://'' dsn"

definition replace_all :: "char \<Rightarrow> string \<Rightarrow> string \<Rightarrow> string" where
  "replace_all c t s = concat (map (\<lambda>x. if x = c then t else [x]) s)"

definition ApplySSLRootCert :: "(string \<Rightarrow> string option) \<Rightarrow> string \<Rightarrow> string \<Rightarrow> db_error + string" where
  "ApplySSLRootCert ph dsn certPath =
     (if is_url dsn
      then (case url_parse ph dsn of
              None \<Rightarrow> Inl Malformed_url
            | Some u \<Rightarrow>
                let q = url_query (ur_raw_query u);
                    q = values_set ''sslrootcert'' certPath q;
                    q = values_set ''sslmode'' ''verify-full'' q
                in Inr (url_string (u\<lparr>ur_raw_query := values_encode q\<rparr>)))
      else
        let escaped = replace_all backslash [backslash, backslash] certPath;
            escaped = replace_all quote_char [backslash, quote_char] escaped
        in Inr (dsn @ '' sslrootcert='' @ [quote_char] @ escaped @ [quote_char] @ '' sslmode=verify-full''))"

section \<open>Opening a pool\<close>

record 'g pool_lib =
  pl_parse :: "string \<Rightarrow> pool_config option"                      \<comment> \<open>\<open>pgxpool.ParseConfig\<close>\<close>
  pl_new :: "time option \<Rightarrow> pool_config \<Rightarrow> 'g \<Rightarrow> 'g \<times> bool"       \<comment> \<open>\<open>pgxpool.NewWithConfig\<close>\<close>
  pl_ping :: "time option \<Rightarrow> nat \<Rightarrow> 'g \<Rightarrow> 'g \<times> bool"
  pl_now :: "'g \<Rightarrow> time"

definition root_cert_dsn :: "(string \<Rightarrow> string option) \<Rightarrow> db_config \<Rightarrow> db_error + string" where
  "root_cert_dsn ph cfg = (if SSLRootCert cfg \<noteq> [] then ApplySSLRootCert ph (DSN cfg) (SSLRootCert cfg) else Inr (DSN cfg))"

definition tuned :: "db_config \<Rightarrow> pool_config \<Rightarrow> pool_config" where
  "tuned cfg p =
     p\<lparr>pc_max_conns := (if MaxConns cfg > 0 then MaxConns cfg else pc_max_conns p),
       pc_lifetime := maxConnLifetime, pc_idle := maxConnIdleTime, pc_health := healthCheckPeriod\<rparr>"

definition poolConfig ::
    "(string \<Rightarrow> string option) \<Rightarrow> 'g pool_lib \<Rightarrow> db_config \<Rightarrow> (pool_config \<Rightarrow> pool_config) list \<Rightarrow> db_error + pool_config" where
  "poolConfig ph lib cfg opts =
     (if trim_space (DSN cfg) = [] then Inl Empty_dsn
      else case root_cert_dsn ph cfg of
             Inl e \<Rightarrow> Inl e
           | Inr dsn \<Rightarrow>
               (case pl_parse lib dsn of
                  None \<Rightarrow> Inl Malformed_dsn
                | Some p \<Rightarrow>
                    (case (if Provider cfg = DBProviderSupabase then applySupabasePooling (tuned cfg p) (PoolMode cfg)
                           else Inr (tuned cfg p)) of
                       Inl e \<Rightarrow> Inl e
                     | Inr p \<Rightarrow> Inr (fold (\<lambda>opt. opt) opts p))))"

definition New_pool ::
    "(string \<Rightarrow> string option) \<Rightarrow> 'g pool_lib \<Rightarrow> time option \<Rightarrow> db_config \<Rightarrow> (pool_config \<Rightarrow> pool_config) list \<Rightarrow>
     'g handles \<Rightarrow> 'g handles \<times> (db_error + nat)" where
  "New_pool ph lib ctx cfg opts w =
     (case poolConfig ph lib cfg opts of
        Inl e \<Rightarrow> (w, Inl e)
      | Inr pc \<Rightarrow>
          (case external (pl_new lib ctx pc) w of
             (w, False) \<Rightarrow> (w, Inl Pool_not_created)
           | (w, True) \<Rightarrow>
               (case open_handle w of
                  (w, pool) \<Rightarrow>
                    let pingCtx = (if ConnTimeout cfg > 0 then WithTimeout ctx (pl_now lib (hd_ext w)) (ConnTimeout cfg)
                                   else ctx)
                    in (case external (pl_ping lib pingCtx pool) w of
                          (w, False) \<Rightarrow> (close_handle pool w, Inl Not_reachable)
                        | (w, True) \<Rightarrow> (w, Inr pool)))))"

definition Health :: "'g pool_lib \<Rightarrow> time option \<Rightarrow> nat \<Rightarrow> 'g handles \<Rightarrow> 'g handles \<times> bool" where
  "Health lib ctx pool = external (pl_ping lib ctx pool)"

text \<open>Either one pool is open that was not before, and has answered a ping, or none is left behind.\<close>

theorem new_pool_leaves_nothing:
  assumes "handles_ok w" and "New_pool ph lib ctx cfg opts w = (w', r)"
  shows "case r of Inr pool \<Rightarrow> holding pool w w' | Inl e \<Rightarrow> settled w w'"
proof (cases "poolConfig ph lib cfg opts")
  case (Inl e)
  then show ?thesis using assms(2) by (auto simp: New_pool_def)
next
  case (Inr pc)
  obtain w1 b where n: "external (pl_new lib ctx pc) w = (w1, b)" by fastforce
  obtain w2 pool where o: "open_handle w1 = (w2, pool)" by fastforce
  let ?ctx = "if ConnTimeout cfg > 0 then WithTimeout ctx (pl_now lib (hd_ext w2)) (ConnTimeout cfg) else ctx"
  obtain w3 b' where p: "external (pl_ping lib ?ctx pool) w2 = (w3, b')" by fastforce
  have s: "settled w w1" by (rule external_settled [OF n])
  have "holding pool w1 w3"
    by (rule holding_external [OF open_holding [OF settled_ok [OF s assms(1)] o] p])
  then have "holding pool w w3" using s by (auto simp: holding_def settled_def)
  with close_settled [OF this] s show ?thesis
    using assms(2) Inr n o p by (auto simp: New_pool_def Let_def split: bool.splits)
qed

interpretation pool: acquisition "New_pool ph lib ctx cfg opts" "\<lambda>pool. pool" for ph lib ctx cfg opts
  using new_pool_leaves_nothing by unfold_locales fastforce+

text \<open>Whatever search path an application asks for, Supabase is never reached without TLS, nor its
  transaction pooler with cached statements.\<close>

lemma search_paths_keep:
  "(\<And>s q. f (WithSearchPath s q) = f q) \<Longrightarrow> f (fold (\<lambda>opt. opt) (map WithSearchPath paths) p) = f p"
  by (induction paths arbitrary: p) simp_all

theorem supabase_pool_safe:
  assumes "poolConfig ph lib cfg (map WithSearchPath paths) = Inr c" and "Provider cfg = DBProviderSupabase"
  shows "pc_tls c \<and> (PoolMode cfg = DBPoolModeTransaction \<longrightarrow>
    pc_exec c = Exec_mode \<and> pc_statements c = 0 \<and> pc_descriptions c = 0)"
proof -
  obtain p q where "applySupabasePooling p (PoolMode cfg) = Inr q" and c: "c = fold (\<lambda>opt. opt) (map WithSearchPath paths) q"
    using assms by (auto simp: poolConfig_def split: if_splits sum.splits option.splits)
  then have "pc_tls q \<and> (PoolMode cfg = DBPoolModeTransaction \<longrightarrow>
    pc_exec q = Exec_mode \<and> pc_statements q = 0 \<and> pc_descriptions q = 0)"
    by (auto simp: applySupabasePooling_def split: if_splits)
  moreover have "pc_tls c = pc_tls q" "pc_exec c = pc_exec q" "pc_statements c = pc_statements q"
      "pc_descriptions c = pc_descriptions q"
    unfolding c by (rule search_paths_keep; simp add: WithSearchPath_def)+
  ultimately show ?thesis by simp
qed

section \<open>The CA bundle is in force\<close>

definition escaped_value :: "string \<Rightarrow> written" where
  "escaped_value s = map (\<lambda>c. (c = backslash \<or> c = quote_char, c)) s"

lemma escaped_value_text:
  "replace_all quote_char [backslash, quote_char] (replace_all backslash [backslash, backslash] s) = written_text (escaped_value s)"
  by (induction s) (auto simp: replace_all_def written_text_def escaped_value_def)

lemma root_cert_settings:
  "read_conninfo (''sslrootcert='' @ [quote_char] @ written_text (escaped_value cert) @ [quote_char] @ '' sslmode=verify-full'') =
     Some [(''sslrootcert'', cert), (''sslmode'', ''verify-full'')]"
proof -
  let ?ts = "[\<lparr>st_blanks = [], st_key = ''sslrootcert'', st_quoted = True, st_value = escaped_value cert\<rparr>,
    \<lparr>st_blanks = '' '', st_key = ''sslmode'', st_quoted = False, st_value = map (Pair False) ''verify-full''\<rparr>]"
  have "conn_ok ?ts"
    by (auto simp: setting_ok_def quoted_ok_def escaped_value_def bare_ok_def key_char_def blank_def between_def list_all_iff)
  from read_conn_text [OF this, of "[]"] show ?thesis
    by (simp add: conn_text_def setting_text_def value_text_def setting_of_def written_text_def escaped_value_def comp_def)
qed

lemma has_prefix_append: "has_prefix p s \<Longrightarrow> s = p @ drop (length p) s"
  by (metis append_take_drop_id has_prefix_def)

lemma is_url_scheme:
  assumes "is_url dsn"
  obtains sch r where "dsn = sch @ CHR '':'' # CHR ''/'' # CHR ''/'' # r" "lower_word sch" "sch \<in> {''postgres'', ''postgresql''}"
proof (cases "has_prefix ''postgres://'' dsn")
  case True
  from has_prefix_append [OF this] that [of "''postgres''" "drop (length ''postgres://'') dsn"] show ?thesis
    by (simp add: lower_word_def between_def)
next
  case False
  then have "has_prefix ''postgresql://'' dsn" using assms by (simp add: is_url_def)
  from has_prefix_append [OF this] that [of "''postgresql''" "drop (length ''postgresql://'') dsn"] show ?thesis
    by (simp add: lower_word_def between_def)
qed

lemma url_string_is_url: "url_ok ph u \<Longrightarrow> ur_scheme u \<in> {''postgres'', ''postgresql''} \<Longrightarrow> is_url (url_string u)"
  by (auto simp: url_string_parts before_fragment_def is_url_def has_prefix_def)

lemma url_parse_root_cert:
  assumes "host_law ph" and "is_url dsn" and "url_parse ph dsn = Some u"
    and "ur_host u \<noteq> [] \<or> ur_path u \<noteq> [] \<or> ur_user u \<noteq> None"
    and "ApplySSLRootCert ph dsn cert = Inr dsn'"
  obtains w where "is_url dsn'" "url_parse ph dsn' = Some w"
    "ur_user w = ur_user u" "ur_host w = ur_host u" "ur_path w = ur_path u"
    "map_of (url_query (ur_raw_query w)) =
       (map_of (url_query (ur_raw_query u)))(''sslrootcert'' \<mapsto> [cert], ''sslmode'' \<mapsto> [''verify-full''])"
proof -
  let ?q = "values_set ''sslmode'' ''verify-full'' (values_set ''sslrootcert'' cert (url_query (ur_raw_query u)))"
  let ?v = "u\<lparr>ur_raw_query := values_encode ?q\<rparr>"
  obtain sch r where sch: "dsn = sch @ CHR '':'' # CHR ''/'' # CHR ''/'' # r" "lower_word sch"
      "sch \<in> {''postgres'', ''postgresql''}"
    using is_url_scheme [OF assms(2)] .
  have u: "url_ok ph u" "ur_scheme u = sch"
    using url_parse_shape [of ph sch r u] assms(1,3,4) sch by (auto simp: url_ok_def)
  have "clean_text (values_encode ?q)"
    using values_encode_chars by (auto simp: clean_text_def list_all_iff)
  then have v: "url_ok ph ?v" using u(1) by (simp add: url_ok_def url_shape_def)
  have dsn': "dsn' = url_string ?v" using assms(2,3,5) by (simp add: ApplySSLRootCert_def Let_def)
  obtain w where w: "url_parse ph dsn' = Some w" "ur_user w = ur_user u" "ur_host w = ur_host u" "ur_path w = ur_path u"
      "ur_raw_query w = values_encode ?q"
    using url_roundtrip [OF v] unfolding dsn' by auto
  have "is_url dsn'" unfolding dsn' by (rule url_string_is_url [OF v]) (use u sch in simp)
  moreover have "map_of (url_query (values_encode ?q)) = map_of ?q"
    by (intro query_roundtrip url_values_ok_set url_values_ok_query)
  ultimately show thesis
    using that w by (simp add: values_set_def)
qed


text \<open>
  Two strings for which that fails. Without an authority the parsed URL prints without its \<open>//\<close>,
  and is no longer a URL to pgx; and an empty value at the end takes the CA bundle as its value.
\<close>

definition plain_host :: "string \<Rightarrow> string option" where
  "plain_host h = (if list_all (\<lambda>c. alnum c \<or> c \<in> set ''.-_:'') h then Some h else None)"

lemma plain_host_law: "host_law plain_host"
proof -
  have "escape In_host h = h" if "list_all (\<lambda>c. alnum c \<or> c \<in> set ''.-_:'') h" for h
    using that by (induction h) (auto simp: escape_def escape_char_def should_escape_def)
  then show ?thesis by (auto simp: host_law_def plain_host_def)
qed

theorem hostless_url_mangled:
  "ApplySSLRootCert plain_host ''postgres://?host=db&sslmode=disable'' ''/ca.pem'' =
     Inr ''postgres:?host=db&sslmode=verify-full&sslrootcert=%2Fca.pem''"
  by code_simp

theorem empty_value_swallows_root_cert:
  "map_option (\<lambda>kvs. in_force kvs ''sslrootcert'')
     (case ApplySSLRootCert plain_host ''host=db password='' ''/ca.pem'' of
        Inl e \<Rightarrow> None | Inr s \<Rightarrow> read_conninfo s) = Some None"
  by code_simp

definition sample_url_dsn :: string where
  "sample_url_dsn = ''postgres://app:p%40ss@db:5432/home?sslmode=require''"

definition sample_cert :: string where
  "sample_cert = ''/o'' @ quote_char # '' x/ca.pem''"

lemma sample_url_parsed:
  "url_parse plain_host sample_url_dsn = Some (empty_url\<lparr>ur_scheme := ''postgres'', ur_user := Some (''app'', Some ''p@ss''),
     ur_host := ''db:5432'', ur_path := ''/home'', ur_raw_query := ''sslmode=require''\<rparr>)"
  by code_simp


end
