(* ===== verification/Dbtest.thy ===== *)
theory Dbtest
  imports Db_Pool
begin

text \<open>
  The harness of database-gated tests, \<open>db/dbtest/dbtest.go\<close>: a database of its own for each test
  package, its name derived from the configured one and spliced into the connection string. The
  scanners work by index into the string, as they do in the code.
\<close>

section \<open>Scanning a connection string\<close>

definition isConninfoSpace :: "char \<Rightarrow> bool" where
  "isConninfoSpace c \<longleftrightarrow> c \<in> {CHR '' '', CHR 0x09, CHR 0x0A, CHR 0x0D}"

function skipConninfoSpace :: "string \<Rightarrow> nat \<Rightarrow> nat" where
  "skipConninfoSpace s i = (if i < length s \<and> isConninfoSpace (s ! i) then skipConninfoSpace s (i + 1) else i)"
  by pat_completeness auto
termination
  by (relation "measure (\<lambda>(s, i). length s - i)") auto

function key_end :: "string \<Rightarrow> nat \<Rightarrow> nat" where
  "key_end s i = (if i < length s \<and> s ! i \<noteq> CHR ''='' \<and> \<not> isConninfoSpace (s ! i) then key_end s (i + 1) else i)"
  by pat_completeness auto
termination
  by (relation "measure (\<lambda>(s, i). length s - i)") auto

definition scanConninfoKey :: "string \<Rightarrow> nat \<Rightarrow> string \<times> nat" where
  "scanConninfoKey s i = (take (key_end s i - i) (drop i s), key_end s i)"

text \<open>From the character after the opening quote.\<close>

function quoted_end :: "string \<Rightarrow> nat \<Rightarrow> nat" where
  "quoted_end s i =
     (if i < length s
      then if s ! i = backslash \<and> i + 1 < length s then quoted_end s (i + 2)
           else if s ! i = quote_char then i + 1
           else quoted_end s (i + 1)
      else i)"
  by pat_completeness auto
termination
  by (relation "measure (\<lambda>(s, i). length s - i)") auto

definition scanQuotedConninfoValue :: "string \<Rightarrow> nat \<Rightarrow> nat" where
  "scanQuotedConninfoValue s i = quoted_end s (i + 1)"

function scanBareConninfoValue :: "string \<Rightarrow> nat \<Rightarrow> nat" where
  "scanBareConninfoValue s i =
     (if i < length s \<and> \<not> isConninfoSpace (s ! i)
      then scanBareConninfoValue s (if s ! i = backslash \<and> i + 1 < length s then i + 2 else i + 1)
      else i)"
  by pat_completeness auto
termination
  by (relation "measure (\<lambda>(s, i). length s - i)") auto

declare skipConninfoSpace.simps [simp del] key_end.simps [simp del] quoted_end.simps [simp del]
  scanBareConninfoValue.simps [simp del]

definition scanConninfoValue :: "string \<Rightarrow> nat \<Rightarrow> nat" where
  "scanConninfoValue s i =
     (if i < length s \<and> s ! i = quote_char then scanQuotedConninfoValue s i else scanBareConninfoValue s i)"

lemma skip_ge: "i \<le> skipConninfoSpace s i"
  by (induction s i rule: skipConninfoSpace.induct) (subst skipConninfoSpace.simps, auto)

lemma skip_not_space: "skipConninfoSpace s i < length s \<Longrightarrow> \<not> isConninfoSpace (s ! skipConninfoSpace s i)"
  by (induction s i rule: skipConninfoSpace.induct) (subst skipConninfoSpace.simps, subst (asm) skipConninfoSpace.simps, auto split: if_splits)

lemma key_end_ge: "i \<le> key_end s i"
  by (induction s i rule: key_end.induct) (subst key_end.simps, auto)

lemma key_end_stuck: "key_end s i = i \<Longrightarrow> i < length s \<Longrightarrow> \<not> isConninfoSpace (s ! i) \<Longrightarrow> s ! i = CHR ''=''"
  using key_end_ge [of "i + 1" s] by (subst (asm) key_end.simps) (auto split: if_splits)

lemma quoted_end_ge: "i \<le> quoted_end s i"
  by (induction s i rule: quoted_end.induct) (subst quoted_end.simps, auto)

lemma bare_end_ge: "i \<le> scanBareConninfoValue s i"
proof (induction s i rule: scanBareConninfoValue.induct)
  case (1 s i)
  then show ?case by (subst scanBareConninfoValue.simps) (auto split: if_splits)
qed

lemma value_end_ge: "i \<le> scanConninfoValue s i"
  using quoted_end_ge [of "i + 1" s] bare_end_ge [of i s]
  by (auto simp: scanConninfoValue_def scanQuotedConninfoValue_def)

function span_loop :: "string \<Rightarrow> nat \<Rightarrow> (nat \<times> nat) option \<Rightarrow> (nat \<times> nat) option" where
  "span_loop s i found =
     (if i < length s
      then
        let i = skipConninfoSpace s i
        in if i \<ge> length s then found
           else
             let (key, i) = scanConninfoKey s i
             in if i \<ge> length s \<or> s ! i \<noteq> CHR ''='' then span_loop s i found
                else
                  let start = i + 1; i = scanConninfoValue s start
                  in span_loop s i (if key = ''dbname'' then Some (start, i) else found)
      else found)"
  by pat_completeness auto
termination
proof (relation "measure (\<lambda>(s, i, found). length s - i)", goal_cases)
  case 1
  then show ?case by simp
next
  case (2 s i found i1 p key i2)
  have "i \<le> i1" unfolding 2(2) by (rule skip_ge)
  moreover have "i2 = key_end s i1" using 2(4,5) by (simp add: scanConninfoKey_def)
  moreover have "i1 \<noteq> i2"
    using key_end_stuck [of s i1] skip_not_space [of s i] calculation(2) 2(2,3,6) by auto
  ultimately have "i < i2" using key_end_ge [of i1 s] by simp
  then show ?case using 2(1) by (simp add: diff_less_mono2)
next
  case (3 s i found i1 p key i2 start i3)
  have "i \<le> i1" unfolding 3(2) by (rule skip_ge)
  moreover have "i1 \<le> i2" using 3(4,5) key_end_ge [of i1 s] by (simp add: scanConninfoKey_def)
  moreover have "i2 + 1 \<le> i3" unfolding 3(7,8) by (rule value_end_ge)
  ultimately show ?case using 3(1) by (simp add: diff_less_mono2)
qed

declare span_loop.simps [simp del]

definition dbnameValueSpan :: "string \<Rightarrow> (nat \<times> nat) option" where
  "dbnameValueSpan conninfo = span_loop conninfo 0 None"

section \<open>Deriving a database\<close>

datatype derive_error = Empty_suffix | Bad_suffix | Unparsable | Not_a_test_database | Name_too_long | No_dbname

definition package_char :: "nat \<Rightarrow> bool" where
  "package_char r \<longleftrightarrow> (97 \<le> r \<and> r \<le> 122) \<or> (65 \<le> r \<and> r \<le> 90) \<or> (48 \<le> r \<and> r \<le> 57) \<or> r = 95"

definition isPackageIdentifier :: "string \<Rightarrow> bool" where
  "isPackageIdentifier s \<longleftrightarrow> list_all (\<lambda>p. package_char (fst p)) (runes s) \<and> s \<noteq> []"

definition postgres_url :: "(string \<Rightarrow> string option) \<Rightarrow> string \<Rightarrow> net_url option" where
  "postgres_url ph s =
     (case url_parse ph s of
        Some u \<Rightarrow> if ur_scheme u = ''postgres'' \<or> ur_scheme u = ''postgresql'' then Some u else None
      | None \<Rightarrow> None)"

definition rewriteDatabase :: "(string \<Rightarrow> string option) \<Rightarrow> string \<Rightarrow> string \<Rightarrow> derive_error + string" where
  "rewriteDatabase ph baseDSN newName =
     (case postgres_url ph baseDSN of
        Some u \<Rightarrow> Inr (url_string (u\<lparr>ur_path := CHR ''/'' # newName\<rparr>))
      | None \<Rightarrow>
          (case dbnameValueSpan baseDSN of
             None \<Rightarrow> Inl No_dbname
           | Some (start, end') \<Rightarrow> Inr (take start baseDSN @ newName @ drop end' baseDSN)))"

definition test_name :: "string \<Rightarrow> bool" where
  "test_name base \<longleftrightarrow> base = ''test'' \<or> suffix ''_test'' base"

text \<open>\<open>database\<close> is the \<open>Database\<close> field of what \<open>pgx.ParseConfig\<close> makes of a string.\<close>

definition derive ::
    "(string \<Rightarrow> string option) \<Rightarrow> (string \<Rightarrow> string option) \<Rightarrow> string \<Rightarrow> string \<Rightarrow> derive_error + string \<times> string" where
  "derive ph database baseDSN sfx =
     (if trim_space sfx = [] then Inl Empty_suffix
      else if \<not> isPackageIdentifier sfx then Inl Bad_suffix
      else case database baseDSN of
             None \<Rightarrow> Inl Unparsable
           | Some name \<Rightarrow>
               let base = to_lower name
               in if \<not> test_name base then Inl Not_a_test_database
                  else
                    let derived = base @ ''_'' @ to_lower sfx
                    in if length derived > 63 then Inl Name_too_long
                       else case rewriteDatabase ph baseDSN derived of
                              Inl e \<Rightarrow> Inl e
                            | Inr dsn \<Rightarrow> Inr (dsn, derived))"

section \<open>The scanners on well-formed settings\<close>

lemma space_blank: "isConninfoSpace c \<Longrightarrow> blank c"
  by (auto simp: isConninfoSpace_def blank_def between_def)

lemma not_space_quote: "\<not> isConninfoSpace quote_char" "\<not> isConninfoSpace backslash" "\<not> isConninfoSpace (CHR ''='')"
  by (simp_all add: isConninfoSpace_def)

lemma skip_spaces:
  "list_all isConninfoSpace x \<Longrightarrow> r = [] \<or> \<not> isConninfoSpace (hd r) \<Longrightarrow>
   skipConninfoSpace (a @ x @ r) (length a) = length (a @ x)"
proof (induction x arbitrary: a)
  case Nil
  then show ?case by (subst skipConninfoSpace.simps) (cases r; simp add: nth_append)
next
  case (Cons c x)
  with Cons.IH [of "a @ [c]"] show ?case by (subst skipConninfoSpace.simps) (simp add: nth_append)
qed

lemma key_end_text:
  "list_all key_char x \<Longrightarrow> key_end (a @ x @ CHR ''='' # r) (length a) = length (a @ x)"
proof (induction x arbitrary: a)
  case Nil
  then show ?case by (subst key_end.simps) (simp add: nth_append)
next
  case (Cons c x)
  then have "c \<noteq> CHR ''=''" "\<not> isConninfoSpace c" using space_blank by (auto simp: key_char_def)
  with Cons Cons.IH [of "a @ [c]"] show ?case by (subst key_end.simps) (simp add: nth_append)
qed

lemma scan_key_text:
  "list_all key_char x \<Longrightarrow> scanConninfoKey (a @ x @ CHR ''='' # r) (length a) = (x, length (a @ x))"
  by (simp add: scanConninfoKey_def key_end_text)

text \<open>A setting's value ends where the string does or a separating blank follows.\<close>

definition ends_setting :: "string \<Rightarrow> bool" where
  "ends_setting r \<longleftrightarrow> r = [] \<or> isConninfoSpace (hd r)"

lemma bare_end_text:
  "list_all (\<lambda>(b, c). b \<or> \<not> blank c \<and> c \<noteq> backslash) w \<Longrightarrow> ends_setting r \<Longrightarrow>
   scanBareConninfoValue (a @ written_text w @ r) (length a) = length (a @ written_text w)"
proof (induction w arbitrary: a)
  case Nil
  then show ?case
    by (subst scanBareConninfoValue.simps) (cases r; simp add: nth_append written_text_def ends_setting_def)
next
  case (Cons p w)
  obtain b c where p: "p = (b, c)" by fastforce
  show ?case
  proof (cases b)
    case True
    then show ?thesis
      using Cons p Cons.IH [of "a @ [backslash, c]"] not_space_quote
      by (subst scanBareConninfoValue.simps) (simp add: nth_append written_text_def)
  next
    case False
    then show ?thesis
      using Cons p Cons.IH [of "a @ [c]"] space_blank [of c]
      by (subst scanBareConninfoValue.simps) (auto simp: nth_append written_text_def)
  qed
qed

lemma quoted_end_text:
  "quoted_ok w \<Longrightarrow> quoted_end (a @ written_text w @ quote_char # r) (length a) = length (a @ written_text w) + 1"
proof (induction w arbitrary: a)
  case Nil
  then show ?case by (subst quoted_end.simps) (simp add: nth_append written_text_def)
next
  case (Cons p w)
  obtain b c where p: "p = (b, c)" by fastforce
  show ?case
  proof (cases b)
    case True
    then show ?thesis
      using Cons p Cons.IH [of "a @ [backslash, c]"]
      by (subst quoted_end.simps) (simp add: nth_append written_text_def quoted_ok_def)
  next
    case False
    then show ?thesis
      using Cons p Cons.IH [of "a @ [c]"]
      by (subst quoted_end.simps) (auto simp: nth_append written_text_def quoted_ok_def)
  qed
qed

lemma value_end_text:
  assumes "setting_ok t" and "ends_setting r"
  shows "scanConninfoValue (a @ value_text t @ r) (length a) = length (a @ value_text t)"
proof (cases "st_quoted t")
  case True
  then show ?thesis
    using assms quoted_end_text [of "st_value t" "a @ [quote_char]" r]
    by (simp add: scanConninfoValue_def scanQuotedConninfoValue_def value_text_def setting_ok_def nth_append)
next
  case False
  then have bare: "bare_ok (st_value t)" using assms(1) by (simp add: setting_ok_def)
  moreover have "written_text (st_value t) \<noteq> []" "hd (written_text (st_value t)) \<noteq> quote_char"
    using bare by (cases "st_value t"; auto simp: bare_ok_def written_text_def split: if_splits)+
  then have "(a @ written_text (st_value t) @ r) ! length a \<noteq> quote_char"
    by (cases "written_text (st_value t)") (auto simp: nth_append)
  ultimately show ?thesis
    using False assms(2) bare_end_text [of "st_value t" r a]
    by (simp add: scanConninfoValue_def value_text_def bare_ok_def)
qed

text \<open>Settings separated the way the scanners expect.\<close>

definition plain_settings :: "setting list \<Rightarrow> bool" where
  "plain_settings ts \<longleftrightarrow> conn_ok ts \<and> list_all (\<lambda>t. list_all isConninfoSpace (st_blanks t)) ts"

definition before_value :: "setting \<Rightarrow> string" where
  "before_value t = st_blanks t @ st_key t @ ''=''"

lemma setting_text_parts: "setting_text t = before_value t @ value_text t"
  by (simp add: setting_text_def before_value_def)

lemma span_loop_step:
  assumes "i < length s" and "skipConninfoSpace s i = i1" and "i1 < length s" and "scanConninfoKey s i1 = (k, i2)"
    and "i2 < length s" and "s ! i2 = CHR ''=''" and "scanConninfoValue s (i2 + 1) = i3"
  shows "span_loop s i found = span_loop s i3 (if k = ''dbname'' then Some (i2 + 1, i3) else found)"
  by (subst span_loop.simps) (use assms in \<open>simp add: Let_def\<close>)

lemma span_loop_setting:
  assumes "setting_ok t" and "list_all isConninfoSpace (st_blanks t)" and "ends_setting r"
  shows "span_loop (a @ setting_text t @ r) (length a) found =
    span_loop (a @ setting_text t @ r) (length (a @ setting_text t))
      (if st_key t = ''dbname'' then Some (length (a @ before_value t), length (a @ setting_text t)) else found)"
proof -
  let ?s = "a @ setting_text t @ r" and ?b = "a @ st_blanks t" and ?k = "a @ st_blanks t @ st_key t"
  have key: "st_key t \<noteq> []" "list_all key_char (st_key t)" using assms(1) by (auto simp: setting_ok_def)
  then have "\<not> isConninfoSpace (hd (st_key t @ CHR ''='' # value_text t @ r))"
    using space_blank by (cases "st_key t") (auto simp: key_char_def)
  then have skip: "skipConninfoSpace ?s (length a) = length ?b"
    using skip_spaces [OF assms(2), of "st_key t @ CHR ''='' # value_text t @ r" a] key
    by (simp add: setting_text_def)
  have scan: "scanConninfoKey ?s (length ?b) = (st_key t, length ?k)"
    using scan_key_text [OF key(2), of ?b "value_text t @ r"] by (simp add: setting_text_def)
  have val: "scanConninfoValue ?s (length ?k + 1) = length (a @ setting_text t)"
    using value_end_text [OF assms(1,3), of "?k @ ''=''"] by (simp add: setting_text_def)
  have at: "?s ! length ?k = CHR ''=''" "length a < length ?s" "length ?b < length ?s" "length ?k < length ?s"
    by (simp_all add: setting_text_def nth_append)
  have *: "length (a @ before_value t) = length ?k + 1" by (simp add: before_value_def)
  show ?thesis
    unfolding *
    by (rule span_loop_step [OF at(2) skip at(3) scan at(4,1) val, of found])
qed

lemma ends_setting_next:
  assumes "list_all (\<lambda>t. st_blanks t \<noteq> [] \<and> list_all isConninfoSpace (st_blanks t)) ts" and "list_all isConninfoSpace b"
  shows "ends_setting (conn_text ts @ b)"
  using assms
  by (cases ts; cases b; auto simp: ends_setting_def conn_text_def setting_text_def neq_Nil_conv)

lemma plain_settings_Cons:
  "plain_settings (t # ts) \<longleftrightarrow> setting_ok t \<and> list_all isConninfoSpace (st_blanks t) \<and> plain_settings ts \<and>
     list_all (\<lambda>t. st_blanks t \<noteq> []) ts"
  by (cases ts) (auto simp: plain_settings_def list_all_iff)

lemma plain_settings_append:
  "plain_settings (ts @ us) \<longleftrightarrow> plain_settings ts \<and> plain_settings us \<and> (ts = [] \<or> list_all (\<lambda>t. st_blanks t \<noteq> []) us)"
  by (induction ts) (auto simp: plain_settings_Cons, simp_all add: plain_settings_def)

lemma span_loop_end:
  assumes "list_all isConninfoSpace b"
  shows "span_loop (a @ b) (length a) found = found"
proof (cases "b = []")
  case True
  then show ?thesis by (subst span_loop.simps) simp
next
  case False
  then show ?thesis
    using skip_spaces [OF assms, of "[]" a] by (subst span_loop.simps) simp
qed

text \<open>Reading through settings: the last span of a \<open>dbname\<close> is kept.\<close>

fun spans :: "nat \<Rightarrow> setting list \<Rightarrow> (nat \<times> nat) option \<Rightarrow> (nat \<times> nat) option" where
  "spans n [] found = found"
| "spans n (t # ts) found =
     spans (n + length (setting_text t)) ts
       (if st_key t = ''dbname'' then Some (n + length (before_value t), n + length (setting_text t)) else found)"

lemma span_loop_settings:
  "plain_settings ts \<Longrightarrow> list_all isConninfoSpace b \<Longrightarrow>
   span_loop (a @ conn_text ts @ b) (length a) found = spans (length a) ts found"
proof (induction ts arbitrary: a found)
  case Nil
  then show ?case by (simp add: conn_text_def span_loop_end)
next
  case (Cons t ts)
  have t: "setting_ok t" "list_all isConninfoSpace (st_blanks t)" "plain_settings ts"
    using Cons.prems(1) by (simp_all add: plain_settings_Cons)
  have "ends_setting (conn_text ts @ b)"
    using Cons.prems by (intro ends_setting_next) (auto simp: plain_settings_Cons list_all_iff plain_settings_def)
  from span_loop_setting [OF t(1,2) this, of a found] Cons.IH [OF t(3) Cons.prems(2), of "a @ setting_text t"]
  show ?case by (simp add: conn_text_def)
qed

lemma spans_append: "spans n (ts @ us) found = spans (n + length (conn_text ts)) us (spans n ts found)"
  by (induction ts arbitrary: n found) (simp_all add: conn_text_def add.assoc)

lemma spans_none: "\<forall>t \<in> set ts. st_key t \<noteq> ''dbname'' \<Longrightarrow> spans n ts found = found"
  by (induction ts arbitrary: n) simp_all

theorem dbname_span:
  assumes "plain_settings ts" and "list_all isConninfoSpace b"
  shows "dbnameValueSpan (conn_text ts @ b) = spans 0 ts None"
  using span_loop_settings [OF assms, of "[]"] by (simp add: dbnameValueSpan_def)

section \<open>The derived string\<close>

definition bare_setting :: "setting \<Rightarrow> string \<Rightarrow> setting" where
  "bare_setting t v = t\<lparr>st_quoted := False, st_value := map (Pair False) v\<rparr>"

lemma conn_text_append: "conn_text (ts @ us) = conn_text ts @ conn_text us"
  by (simp add: conn_text_def)

lemma bare_value_text: "value_text (bare_setting t v) = v" "before_value (bare_setting t v) = before_value t"
proof -
  have "written_text (map (Pair False) v) = v" by (induction v) (simp_all add: written_text_def)
  then show "value_text (bare_setting t v) = v" "before_value (bare_setting t v) = before_value t"
    by (simp_all add: value_text_def bare_setting_def before_value_def)
qed

lemma last_dbname:
  assumes "dbnameValueSpan (conn_text ts @ b) = Some (i, j)" and "plain_settings ts" and "list_all isConninfoSpace b"
  obtains ts1 t ts2 where "ts = ts1 @ t # ts2" "st_key t = ''dbname''" "\<forall>u \<in> set ts2. st_key u \<noteq> ''dbname''"
    "take i (conn_text ts @ b) @ v @ drop j (conn_text ts @ b) = conn_text (ts1 @ bare_setting t v # ts2) @ b"
proof -
  have s: "spans 0 ts None = Some (i, j)" using assms by (simp add: dbname_span)
  then have "\<exists>t \<in> set ts. st_key t = ''dbname''" using spans_none [of ts 0 None] by auto
  then obtain ts1 t ts2 where ts: "ts = ts1 @ t # ts2" "st_key t = ''dbname''" "\<forall>u \<in> set ts2. st_key u \<noteq> ''dbname''"
    using split_list_last_prop [of ts "\<lambda>t. st_key t = ''dbname''"] by blast
  then have "i = length (conn_text ts1 @ before_value t)" "j = length (conn_text ts1 @ setting_text t)"
    using s by (simp_all add: spans_append spans_none)
  moreover have "conn_text ts @ b = (conn_text ts1 @ before_value t) @ value_text t @ conn_text ts2 @ b"
      "conn_text ts @ b = (conn_text ts1 @ setting_text t) @ conn_text ts2 @ b"
    unfolding ts(1) by (simp_all add: conn_text_def setting_text_parts)
  ultimately have "take i (conn_text ts @ b) = conn_text ts1 @ before_value t" "drop j (conn_text ts @ b) = conn_text ts2 @ b"
    by (metis append_eq_conv_conj)+
  then show thesis
    using that [OF ts] by (simp add: conn_text_append setting_text_parts bare_value_text conn_text_def)
qed

definition name_text :: "string \<Rightarrow> bool" where
  "name_text s \<longleftrightarrow> s \<noteq> [] \<and> list_all (\<lambda>c. alnum c \<or> c = CHR ''_'') s"

lemma name_text_bare: "name_text v \<Longrightarrow> bare_ok (map (Pair False) v)"
proof -
  have "\<not> blank c \<and> c \<noteq> backslash \<and> c \<noteq> quote_char" if "alnum c \<or> c = CHR ''_''" for c
    using that by (auto simp: alnum_def between_def blank_def)
  moreover assume "name_text v"
  ultimately show ?thesis by (cases v) (auto simp: name_text_def bare_ok_def list_all_iff)
qed

lemma plain_settings_replace:
  assumes "plain_settings (ts1 @ t # ts2)" and "name_text v"
  shows "plain_settings (ts1 @ bare_setting t v # ts2)"
  using assms name_text_bare [OF assms(2)]
  by (auto simp: plain_settings_append plain_settings_Cons setting_ok_def bare_setting_def)

lemma in_force_replace:
  assumes "\<forall>kv \<in> set kvs2. fst kv \<noteq> ''dbname''"
  shows "in_force (kvs1 @ (''dbname'', v) # kvs2) = (in_force (kvs1 @ (''dbname'', w) # kvs2))(''dbname'' \<mapsto> v)"
proof
  fix k
  have "k = ''dbname'' \<Longrightarrow> map_of (rev kvs2) k = None" using assms by (auto simp: map_of_eq_None_iff)
  then show "in_force (kvs1 @ (''dbname'', v) # kvs2) k = ((in_force (kvs1 @ (''dbname'', w) # kvs2))(''dbname'' \<mapsto> v)) k"
    by (auto simp: in_force_def map_add_def split: option.split)
qed

lemma rewrite_settings:
  assumes "postgres_url ph dsn = None" and "dsn = conn_text ts @ b" and "plain_settings ts" and "list_all isConninfoSpace b"
    and "name_text v" and "rewriteDatabase ph dsn v = Inr dsn'"
  obtains kvs where "read_conninfo dsn' = Some kvs" "in_force kvs = (in_force (map setting_of ts))(''dbname'' \<mapsto> v)"
proof -
  obtain i j where span: "dbnameValueSpan (conn_text ts @ b) = Some (i, j)" and dsn': "dsn' = take i dsn @ v @ drop j dsn"
    using assms(1,2,6) by (auto simp: rewriteDatabase_def split: option.splits)
  obtain ts1 t ts2 where ts: "ts = ts1 @ t # ts2" "st_key t = ''dbname''" "\<forall>u \<in> set ts2. st_key u \<noteq> ''dbname''"
      and new: "dsn' = conn_text (ts1 @ bare_setting t v # ts2) @ b"
    using last_dbname [OF span assms(3,4), of v] dsn' assms(2) by metis
  have "plain_settings (ts1 @ bare_setting t v # ts2)" using plain_settings_replace assms(3,5) ts(1) by blast
  moreover have "list_all blank b" using assms(4) space_blank by (auto simp: list_all_iff)
  ultimately have "read_conninfo dsn' = Some (map setting_of (ts1 @ bare_setting t v # ts2))"
    unfolding new by (intro read_conn_text) (auto simp: plain_settings_def)
  moreover have "setting_of (bare_setting t v) = (''dbname'', v)"
    using ts(2) by (simp add: setting_of_def bare_setting_def comp_def)
  moreover have "setting_of t = (''dbname'', map snd (st_value t))" using ts(2) by (simp add: setting_of_def)
  ultimately show thesis
    using that [of "map setting_of (ts1 @ bare_setting t v # ts2)"] ts(1,3)
      in_force_replace [of "map setting_of ts2" "map setting_of ts1" v "map snd (st_value t)"]
    by (auto simp: setting_of_def)
qed

lemma decode_small:
  assumes "decode_rune (c # s) = (r, w)" and "r < 0x80"
  shows "w = 1 \<and> r = byte_at c"
  using assms
  by (auto simp: Let_def RuneError_def continuation_def between_def split: if_splits list.splits)

lemma package_runes: "list_all (\<lambda>p. package_char (fst p)) (runes s) \<Longrightarrow> list_all (\<lambda>c. alnum c \<or> c = CHR ''_'') s"
proof (induction s rule: runes.induct)
  case (1 s)
  show ?case
  proof (cases s)
    case Nil
    then show ?thesis by simp
  next
    case (Cons c t)
    obtain r w where d: "decode_rune s = (r, w)" by fastforce
    have r: "runes s = (r, take w s) # runes (drop w s)" by (subst runes.simps) (simp add: d, simp add: Cons)
    then have "package_char r" using 1(2) by simp
    then have w: "w = 1" "r = byte_at c" using decode_small [of c t r w] d Cons by (auto simp: package_char_def)
    have "alnum c \<or> c = CHR ''_''"
    proof -
      have "byte_at c = 95 \<Longrightarrow> c = CHR ''_''" using of_char_eq_iff [of c "CHR ''_''", where ?'a = nat] by simp
      then show ?thesis using \<open>package_char r\<close> w(2) by (auto simp: package_char_def alnum_def between_def)
    qed
    moreover have "list_all (\<lambda>c. alnum c \<or> c = CHR ''_'') (drop w s)"
      by (rule 1(1) [OF _ d [symmetric] refl]) (use Cons 1(2) r in auto)
    ultimately show ?thesis using Cons w by simp
  qed
qed

lemma package_identifier_name: "isPackageIdentifier s \<Longrightarrow> name_text s"
  by (simp add: isPackageIdentifier_def name_text_def package_runes)

lemma name_text_lower: "name_text s \<Longrightarrow> name_text (to_lower s)"
proof -
  assume s: "name_text s"
  then have "is_ascii s" by (auto simp: name_text_def is_ascii_def list_all_iff alnum_def between_def)
  moreover have "alnum (char_of (byte_at c + 0x20))" if "0x41 \<le> byte_at c" "byte_at c \<le> 0x5A" for c :: char
    using that by (simp add: alnum_def between_def byte_at_char_of)
  ultimately show ?thesis
    using s by (auto simp: to_lower_ascii name_text_def list_all_iff)
qed

lemma derive_Inr:
  assumes "derive ph database baseDSN sfx = Inr (dsn, name)"
  obtains d where "database baseDSN = Some d" "name = to_lower d @ ''_'' @ to_lower sfx" "test_name (to_lower d)"
    "length name \<le> 63" "name_text sfx" "rewriteDatabase ph baseDSN name = Inr dsn"
  using assms that package_identifier_name [of sfx]
  by (auto simp: derive_def Let_def split: if_splits option.splits sum.splits)

lemma rewrite_url:
  assumes "host_law ph" and "is_url baseDSN" and "url_parse ph baseDSN = Some u" and "rewriteDatabase ph baseDSN name = Inr dsn"
  shows "\<exists>w. url_parse ph dsn = Some w \<and> ur_path w = CHR ''/'' # name \<and> ur_user w = ur_user u \<and> ur_host w = ur_host u \<and>
    ur_raw_query w = ur_raw_query u \<and> ur_fragment w = ur_fragment u"
proof -
  obtain sch r where sch: "baseDSN = sch @ CHR '':'' # CHR ''/'' # CHR ''/'' # r" "lower_word sch"
      "sch \<in> {''postgres'', ''postgresql''}"
    using is_url_scheme [OF assms(2)] .
  have u: "url_shape ph u" "ur_scheme u = sch" using url_parse_shape [of ph sch r u] assms(1,3) sch by auto
  then have "url_ok ph (u\<lparr>ur_path := CHR ''/'' # name\<rparr>)"
    by (simp add: url_ok_def url_shape_def slash_path_def [of "CHR ''/'' # name"])
  then obtain w where "url_parse ph (url_string (u\<lparr>ur_path := CHR ''/'' # name\<rparr>)) = Some w"
      "ur_path w = CHR ''/'' # name" "ur_user w = ur_user u" "ur_host w = ur_host u"
      "ur_raw_query w = ur_raw_query u" "ur_fragment w = ur_fragment u"
    using url_roundtrip [of ph "u\<lparr>ur_path := CHR ''/'' # name\<rparr>"] by auto
  moreover have "dsn = url_string (u\<lparr>ur_path := CHR ''/'' # name\<rparr>)"
    using assms(3,4) u(2) sch(3) by (auto simp: rewriteDatabase_def postgres_url_def)
  ultimately show ?thesis by blast
qed


text \<open>
  Three strings for which that fails. A name with a blank is spliced in without quotes, so what
  follows it is read as settings of their own, here leaving the connection on the real database; an
  equals sign with blanks around it is not seen; and in a URL a \<open>dbname\<close> parameter, which pgx
  prefers to the path, stays.
\<close>

definition conninfo_database :: "string \<Rightarrow> string option" where
  "conninfo_database s = (case read_conninfo s of None \<Rightarrow> None | Some kvs \<Rightarrow> in_force kvs ''dbname'')"

definition quoted_dbname :: string where
  "quoted_dbname = ''dbname='' @ quote_char # ''prod application_name=x_test'' @ [quote_char]"

theorem quoted_name_reaches_other_database:
  "rewriteDatabase plain_host quoted_dbname ''prod application_name=x_test_auth'' =
     Inr ''dbname=prod application_name=x_test_auth'' \<and>
   conninfo_database quoted_dbname = Some ''prod application_name=x_test'' \<and>
   conninfo_database ''dbname=prod application_name=x_test_auth'' = Some ''prod''"
  by (intro conjI; code_simp)

theorem spaced_equals_not_rewritten:
  "rewriteDatabase plain_host ''dbname=a_test dbname = b_test'' ''b_test_auth'' = Inr ''dbname=b_test_auth dbname = b_test'' \<and>
   conninfo_database ''dbname=b_test_auth dbname = b_test'' = Some ''b_test''"
  by (intro conjI; code_simp)

theorem url_dbname_not_rewritten:
  "rewriteDatabase plain_host ''postgres://db/x?dbname=b_test'' ''b_test_auth'' = Inr ''postgres://db/b_test_auth?dbname=b_test''"
  by code_simp

section \<open>The harness\<close>

record 'g migrator =
  mg_reset :: "time option \<Rightarrow> string \<Rightarrow> 'g \<Rightarrow> 'g \<times> bool"
  mg_up :: "time option \<Rightarrow> string \<Rightarrow> 'g \<Rightarrow> 'g \<times> bool"

record 'g harness =
  hn_envVar :: string
  hn_migrator :: "'g migrator"

definition New_harness :: "string \<Rightarrow> 'g migrator option \<Rightarrow> 'g harness option" where
  "New_harness envVar m =
     (if trim_space envVar = [] then None
      else case m of None \<Rightarrow> None | Some m \<Rightarrow> Some \<lparr>hn_envVar = envVar, hn_migrator = m\<rparr>)"

definition duplicateDatabaseCode :: string where "duplicateDatabaseCode = ''42P04''"
definition setupTimeout :: duration where "setupTimeout = 60 * second"
definition cleanupTimeout :: duration where "cleanupTimeout = 30 * second"
definition connectTimeout :: duration where "connectTimeout = 10 * second"

record 'g test_lib =
  tl_pool :: "'g pool_lib"
  tl_database :: "string \<Rightarrow> string option"
  tl_connect :: "time option \<Rightarrow> string \<Rightarrow> 'g \<Rightarrow> 'g \<times> bool"   \<comment> \<open>to the maintenance database of a string\<close>
  tl_exec :: "string \<Rightarrow> 'g \<Rightarrow> 'g \<times> exec_result"
  tl_sanitize :: "string \<Rightarrow> string"                               \<comment> \<open>\<open>pgx.Identifier.Sanitize\<close>\<close>

text \<open>How a test goes on: it is skipped, it fails, or a helper returns. Cleanups run after the test, the last registered first.\<close>

datatype 'a test = Skipped | Fatal | Proceed 'a
datatype cleanup = Reset_on string | Close_pool nat

type_synonym 'g hook = "time option \<Rightarrow> string \<Rightarrow> 'g \<Rightarrow> 'g"

definition background :: "'g pool_lib \<Rightarrow> duration \<Rightarrow> 'g handles \<Rightarrow> time option" where
  "background lib d w = WithTimeout None (pl_now lib (hd_ext w)) d"

definition run_hook :: "'g hook option \<Rightarrow> time option \<Rightarrow> string \<Rightarrow> 'g handles \<Rightarrow> 'g handles" where
  "run_hook hook ctx dsn w = (case hook of None \<Rightarrow> w | Some f \<Rightarrow> fst (external (\<lambda>g. (f ctx dsn g, ())) w))"

definition createDatabase :: "'g test_lib \<Rightarrow> string \<Rightarrow> string \<Rightarrow> 'g handles \<Rightarrow> 'g handles \<times> unit test" where
  "createDatabase lib baseDSN derivedName w =
     (if tl_database lib baseDSN = None then (w, Fatal)
      else case external (tl_connect lib (background (tl_pool lib) connectTimeout w) baseDSN) w of
             (w, False) \<Rightarrow> (w, Fatal)
           | (w, True) \<Rightarrow>
               (case open_handle w of
                  (w, conn) \<Rightarrow>
                    (case external (tl_exec lib (''CREATE DATABASE '' @ tl_sanitize lib derivedName)) w of
                       (w, res) \<Rightarrow>
                         (close_handle conn w,
                          if res = Executed \<or> res = Sqlstate duplicateDatabaseCode then Proceed () else Fatal))))"

definition deriveDSN :: "(string \<Rightarrow> string option) \<Rightarrow> 'g test_lib \<Rightarrow> string \<Rightarrow> string \<Rightarrow> (string \<times> string) test" where
  "deriveDSN ph lib baseDSN sfx =
     (case derive ph (tl_database lib) baseDSN sfx of Inl e \<Rightarrow> Fatal | Inr r \<Rightarrow> Proceed r)"

definition test_config :: "string \<Rightarrow> db_config" where
  "test_config dsn = \<lparr>DSN = dsn, MaxConns = 0, ConnTimeout = 5 * second, Provider = [], PoolMode = [], SSLRootCert = [], MigrateDSN = []\<rparr>"

text \<open>From the database that exists on: its schema reset and applied, and a pool opened.\<close>

definition open_isolated ::
    "(string \<Rightarrow> string option) \<Rightarrow> 'g harness \<Rightarrow> 'g test_lib \<Rightarrow> 'g hook option \<Rightarrow> string \<Rightarrow> 'g handles \<Rightarrow>
     'g handles \<times> cleanup list \<times> nat test" where
  "open_isolated ph h lib hook dsn w =
     (let ctx = background (tl_pool lib) setupTimeout w;
          w = run_hook hook ctx dsn w
      in case external (mg_reset (hn_migrator h) ctx dsn) w of
           (w, False) \<Rightarrow> (w, [], Fatal)
         | (w, True) \<Rightarrow>
             (case external (mg_up (hn_migrator h) ctx dsn) w of
                (w, False) \<Rightarrow> (w, [], Fatal)
              | (w, True) \<Rightarrow>
                  (case New_pool ph (tl_pool lib) (background (tl_pool lib) connectTimeout w) (test_config dsn) [] w of
                     (w, Inl e) \<Rightarrow> (w, [Reset_on dsn], Fatal)
                   | (w, Inr pool) \<Rightarrow> (w, [Close_pool pool, Reset_on dsn], Proceed pool))))"

definition NewIsolatedPool ::
    "(string \<Rightarrow> string option) \<Rightarrow> 'g harness \<Rightarrow> 'g test_lib \<Rightarrow> env \<Rightarrow> 'g hook option \<Rightarrow> string \<Rightarrow> 'g handles \<Rightarrow>
     'g handles \<times> cleanup list \<times> nat test" where
  "NewIsolatedPool ph h lib e hook sfx w =
     (let baseDSN = Getenv (hn_envVar h) e
      in if baseDSN = [] then (w, [], Skipped)
         else if trim_space sfx = [] then (w, [], Fatal)
         else case deriveDSN ph lib baseDSN sfx of
                Skipped \<Rightarrow> (w, [], Skipped) | Fatal \<Rightarrow> (w, [], Fatal)
              | Proceed (dsn, name) \<Rightarrow>
                  (case createDatabase lib baseDSN name w of
                     (w, Skipped) \<Rightarrow> (w, [], Skipped) | (w, Fatal) \<Rightarrow> (w, [], Fatal)
                   | (w, Proceed ()) \<Rightarrow> open_isolated ph h lib hook dsn w))"

definition DSN_for ::
    "(string \<Rightarrow> string option) \<Rightarrow> 'g harness \<Rightarrow> 'g test_lib \<Rightarrow> env \<Rightarrow> string \<Rightarrow> 'g handles \<Rightarrow> 'g handles \<times> string test" where
  "DSN_for ph h lib e sfx w =
     (let baseDSN = Getenv (hn_envVar h) e
      in if baseDSN = [] then (w, Skipped)
         else case deriveDSN ph lib baseDSN sfx of
                Skipped \<Rightarrow> (w, Skipped) | Fatal \<Rightarrow> (w, Fatal)
              | Proceed (dsn, name) \<Rightarrow>
                  (case createDatabase lib baseDSN name w of
                     (w, Skipped) \<Rightarrow> (w, Skipped) | (w, Fatal) \<Rightarrow> (w, Fatal)
                   | (w, Proceed ()) \<Rightarrow> (w, Proceed dsn)))"

fun run_cleanup :: "'g harness \<Rightarrow> 'g test_lib \<Rightarrow> 'g hook option \<Rightarrow> cleanup \<Rightarrow> 'g handles \<Rightarrow> 'g handles" where
  "run_cleanup h lib hook (Close_pool pool) w = close_handle pool w"
| "run_cleanup h lib hook (Reset_on dsn) w =
     (let ctx = background (tl_pool lib) cleanupTimeout w;
          w = run_hook hook ctx dsn w
      in fst (external (mg_reset (hn_migrator h) ctx dsn) w))"

definition run_cleanups :: "'g harness \<Rightarrow> 'g test_lib \<Rightarrow> 'g hook option \<Rightarrow> cleanup list \<Rightarrow> 'g handles \<Rightarrow> 'g handles" where
  "run_cleanups h lib hook cs w = fold (run_cleanup h lib hook) cs w"

section \<open>What a test leaves open\<close>

lemma fst_external_settled: "settled w (fst (external f w))"
  by (cases "external f w") (auto dest: external_settled)

lemma run_hook_settled: "settled w (run_hook hook ctx dsn w)"
  by (auto simp: run_hook_def fst_external_settled split: option.split)

lemma createDatabase_settled:
  assumes "handles_ok w" and "createDatabase lib dsn name w = (w', r)"
  shows "settled w w'"
proof (cases "tl_database lib dsn = None")
  case True
  then show ?thesis using assms(2) by (simp add: createDatabase_def)
next
  case False
  obtain w1 b where c: "external (tl_connect lib (background (tl_pool lib) connectTimeout w) dsn) w = (w1, b)" by fastforce
  obtain w2 conn where o: "open_handle w1 = (w2, conn)" by fastforce
  obtain w3 res where e: "external (tl_exec lib (''CREATE DATABASE '' @ tl_sanitize lib name)) w2 = (w3, res)" by fastforce
  have s: "settled w w1" by (rule external_settled [OF c])
  have "holding conn w1 w3" by (rule holding_external [OF open_holding [OF settled_ok [OF s assms(1)] o] e])
  from settled_trans [OF s close_settled [OF this]] s show ?thesis
    using assms(2) False c o e by (auto simp: createDatabase_def split: bool.splits)
qed

lemma reset_settled: "settled w (run_cleanup h lib hook (Reset_on dsn) w)"
  using settled_trans [OF run_hook_settled fst_external_settled] by (simp add: Let_def)

lemma open_isolated_cleaned:
  assumes "handles_ok w" and "open_isolated ph h lib hook dsn w = (w', cs, r)"
  shows "settled w (run_cleanups h lib hook cs w')"
proof -
  let ?ctx = "background (tl_pool lib) setupTimeout w" and ?w = "run_hook hook (background (tl_pool lib) setupTimeout w) dsn w"
  obtain w1 b1 where r: "external (mg_reset (hn_migrator h) ?ctx dsn) ?w = (w1, b1)" by fastforce
  obtain w2 b2 where u: "external (mg_up (hn_migrator h) ?ctx dsn) w1 = (w2, b2)" by fastforce
  obtain w3 p where n: "New_pool ph (tl_pool lib) (background (tl_pool lib) connectTimeout w2) (test_config dsn) [] w2 = (w3, p)"
    by fastforce
  have s1: "settled w w1" by (rule settled_trans [OF run_hook_settled external_settled [OF r]])
  then have s2: "settled w w2" by (rule settled_trans [OF _ external_settled [OF u]])
  have pool: "case p of Inr pool \<Rightarrow> holding pool w2 w3 | Inl e \<Rightarrow> settled w2 w3"
    by (rule new_pool_leaves_nothing [OF settled_ok [OF s2 assms(1)] n])
  have reset: "settled v (fold (run_cleanup h lib hook) [Reset_on dsn] v)" for v
    using reset_settled [of v h lib hook dsn] by simp
  show ?thesis
  proof (cases p)
    case (Inl e)
    then have "settled w w3" using pool settled_trans [OF s2] by simp
    then show ?thesis
      using assms(2) r u n Inl s1 s2 settled_trans [OF _ reset]
      by (auto simp: open_isolated_def run_cleanups_def Let_def split: bool.splits)
  next
    case (Inr k)
    then have "settled w (close_handle k w3)" using pool settled_trans [OF s2 close_settled] by simp
    then show ?thesis
      using assms(2) r u n Inr s1 s2 settled_trans [OF _ reset]
      by (auto simp: open_isolated_def run_cleanups_def Let_def split: bool.splits)
  qed
qed

theorem isolated_pool_cleaned_up:
  assumes "handles_ok w" and "NewIsolatedPool ph h lib e hook sfx w = (w', cs, r)"
  shows "settled w (run_cleanups h lib hook cs w')"
proof -
  show ?thesis
  proof (cases "\<exists>dsn name w1. deriveDSN ph lib (Getenv (hn_envVar h) e) sfx = Proceed (dsn, name) \<and>
      createDatabase lib (Getenv (hn_envVar h) e) name w = (w1, Proceed ()) \<and>
      open_isolated ph h lib hook dsn w1 = (w', cs, r)")
    case True
    then obtain dsn name w1 where c: "createDatabase lib (Getenv (hn_envVar h) e) name w = (w1, Proceed ())"
        and o: "open_isolated ph h lib hook dsn w1 = (w', cs, r)"
      by blast
    have s: "settled w w1" by (rule createDatabase_settled [OF assms(1) c])
    show ?thesis by (rule settled_trans [OF s open_isolated_cleaned [OF settled_ok [OF s assms(1)] o]])
  next
    case False
    then have "settled w w' \<and> cs = []"
      using assms(2) createDatabase_settled [OF assms(1)]
      by (auto simp: NewIsolatedPool_def Let_def split: if_splits test.splits prod.splits unit.splits)
    then show ?thesis by (simp add: run_cleanups_def)
  qed
qed

section \<open>Inputs for the witnesses\<close>

definition sample_database :: "string \<Rightarrow> string option" where
  "sample_database s =
     (if is_url s then map_option (\<lambda>u. tl (ur_path u)) (url_parse plain_host s) else conninfo_database s)"

definition sample_settings :: "setting list" where
  "sample_settings =
     [\<lparr>st_blanks = [], st_key = ''host'', st_quoted = False, st_value = map (Pair False) ''db''\<rparr>,
      \<lparr>st_blanks = '' '', st_key = ''dbname'', st_quoted = True, st_value = map (Pair False) ''Home_test''\<rparr>,
      \<lparr>st_blanks = ''  '', st_key = ''password'', st_quoted = True, st_value = [(False, CHR ''p''), (True, quote_char)]\<rparr>]"

definition sample_conninfo :: string where
  "sample_conninfo = conn_text sample_settings"

lemma sample_derivations:
  "derive plain_host sample_database sample_conninfo ''auth'' =
     Inr (''host=db dbname=home_test_auth  password='' @ quote_char # ''p'' @ [backslash, quote_char, quote_char], ''home_test_auth'')"
  "derive plain_host sample_database ''postgres://me@db/home_test?sslmode=disable'' ''auth'' =
     Inr (''postgres://me@db/home_test_auth?sslmode=disable'', ''home_test_auth'')"
proof -
  have low: "to_lower ''Home_test'' = ''home_test''"
    by (subst to_lower_ascii, simp add: is_ascii_def, code_simp)
  have a: "trim_space ''auth'' \<noteq> []" "isPackageIdentifier ''auth''" "to_lower ''auth'' = ''auth''"
      "to_lower ''home_test'' = ''home_test''"
    by (simp_all add: trim_space_def is_space_def runes_ascii is_ascii_def isPackageIdentifier_def package_char_def to_lower_ascii)
  have "sample_database sample_conninfo = Some ''Home_test''"
    "rewriteDatabase plain_host sample_conninfo ''home_test_auth'' =
       Inr (''host=db dbname=home_test_auth  password='' @ quote_char # ''p'' @ [backslash, quote_char, quote_char])"
    "sample_database ''postgres://me@db/home_test?sslmode=disable'' = Some ''home_test''"
    "rewriteDatabase plain_host ''postgres://me@db/home_test?sslmode=disable'' ''home_test_auth'' =
       Inr ''postgres://me@db/home_test_auth?sslmode=disable''"
    by code_simp+
  moreover have "test_name ''home_test''" by code_simp
  ultimately show "derive plain_host sample_database sample_conninfo ''auth'' =
     Inr (''host=db dbname=home_test_auth  password='' @ quote_char # ''p'' @ [backslash, quote_char, quote_char], ''home_test_auth'')"
    "derive plain_host sample_database ''postgres://me@db/home_test?sslmode=disable'' ''auth'' =
     Inr (''postgres://me@db/home_test_auth?sslmode=disable'', ''home_test_auth'')"
    using a low by (simp_all add: derive_def Let_def)
qed


end
