(* ===== verification/Go_Fs.thy ===== *)
theory Go_Fs
  imports Go_Path
begin

text \<open>
  What the program uses of \<open>io/fs\<close>, for file systems built into a binary: one is the list of its
  files' slash-separated paths; a directory is there when a file is under it.
\<close>

type_synonym fs = "string list"

definition valid_utf8 :: "string \<Rightarrow> bool" where
  "valid_utf8 s \<longleftrightarrow> list_all (\<lambda>(r, b). \<not> (r = RuneError \<and> length b = 1)) (runes s)"

text \<open>\<open>fs.ValidPath\<close>.\<close>

definition valid_path :: "string \<Rightarrow> bool" where
  "valid_path p \<longleftrightarrow> valid_utf8 p \<and> (p = ''.'' \<or> list_all plain_comp (split_on CHR ''/'' p))"

definition under :: "string \<Rightarrow> string \<Rightarrow> bool" where
  "under dir p \<longleftrightarrow> prefix (dir @ ''/'') p"

text \<open>\<open>fs.Sub\<close>, which does not look whether the directory is there.\<close>

definition fs_sub :: "string \<Rightarrow> fs \<Rightarrow> fs option" where
  "fs_sub dir fs =
     (if \<not> valid_path dir then None
      else if dir = ''.'' then Some fs
      else Some (map (drop (length dir + 1)) (filter (under dir) fs)))"

text \<open>\<open>fs.Glob(fs, "*.sql")\<close>: the entries of the root with that ending.\<close>

definition root_entries :: "fs \<Rightarrow> string list" where
  "root_entries fs = remdups (map (takeWhile (\<lambda>c. c \<noteq> CHR ''/'')) fs)"

definition glob_suffix :: "string \<Rightarrow> fs \<Rightarrow> string list" where
  "glob_suffix e fs = filter (suffix e) (root_entries fs)"

datatype fs_info = Regular | Directory

text \<open>\<open>fs.Stat\<close>.\<close>

definition fs_stat :: "fs \<Rightarrow> string \<Rightarrow> fs_info option" where
  "fs_stat fs p =
     (if \<not> valid_path p then None
      else if p \<in> set fs then Some Regular
      else if p = ''.'' \<or> list_ex (under p) fs then Some Directory else None)"

text \<open>\<open>filepath.Base\<close>.\<close>

definition path_base :: "string \<Rightarrow> string" where
  "path_base p =
     (let q = dropWhile (\<lambda>c. c = CHR ''/'') (rev p)
      in if p = [] then ''.'' else if q = [] then ''/''
         else rev (takeWhile (\<lambda>c. c \<noteq> CHR ''/'') q))"

end
