(* ===== verification/Migrate.thy ===== *)
theory Migrate
  imports Go_Fs Go_Handles
begin

text \<open>
  The migration runner, \<open>db/migrate/migrate.go\<close>, over goose: connecting, the schema guaranteed before
  goose sees it, and the operations, each of which opens a database handle and closes it again.
  goose, pgx and the database behind them are the fields of \<open>goose\<close>, acting on a state of their own.
\<close>

section \<open>Runners\<close>

datatype mig_error =
    Bad_directory | No_migrations
  | Open_failed | Bad_dsn | Connect_failed
  | Ensure_failed | Locker_failed | Provider_failed
  | Goose_failed string | Check_failed

record new_options =
  no_versionTable :: string
  no_ensureSchema :: string
  no_sessionLock :: bool

record runner =
  rn_migrations :: fs
  rn_versionTable :: string
  rn_ensureSchema :: string
  rn_sessionLock :: bool

definition WithVersionTable :: "string \<Rightarrow> new_options \<Rightarrow> new_options" where
  "WithVersionTable name oo = oo\<lparr>no_versionTable := name\<rparr>"

definition WithEnsureSchema :: "string \<Rightarrow> new_options \<Rightarrow> new_options" where
  "WithEnsureSchema schema oo = oo\<lparr>no_ensureSchema := schema\<rparr>"

definition WithSessionLock :: "new_options \<Rightarrow> new_options" where
  "WithSessionLock oo = oo\<lparr>no_sessionLock := True\<rparr>"

text \<open>The pattern is well formed, so globbing does not fail.\<close>

definition New_runner :: "fs \<Rightarrow> string \<Rightarrow> (new_options \<Rightarrow> new_options) list \<Rightarrow> mig_error + runner" where
  "New_runner fsys dir opts =
     (let dir = (if dir = [] then ''.'' else dir)
      in case fs_sub dir fsys of
           None \<Rightarrow> Inl Bad_directory
         | Some sub \<Rightarrow>
             if glob_suffix ''.sql'' sub = [] then Inl No_migrations
             else
               let oo = fold (\<lambda>opt. opt) opts \<lparr>no_versionTable = [], no_ensureSchema = [], no_sessionLock = False\<rparr>
               in Inr \<lparr>rn_migrations = sub, rn_versionTable = no_versionTable oo, rn_ensureSchema = no_ensureSchema oo,
                       rn_sessionLock = no_sessionLock oo\<rparr>)"

record options =
  op_poolerSafe :: bool

definition PoolerSafe :: "options \<Rightarrow> options" where
  "PoolerSafe oo = oo\<lparr>op_poolerSafe := True\<rparr>"

definition resolve_options :: "(options \<Rightarrow> options) list \<Rightarrow> options" where
  "resolve_options opts = fold (\<lambda>opt. opt) opts \<lparr>op_poolerSafe = False\<rparr>"

section \<open>Connecting\<close>

text \<open>A database handle: its place in the table, the string it was opened with, and whether it uses the simple protocol.\<close>

record sql_db =
  sd_handle :: nat
  sd_dsn :: string
  sd_simple :: bool

datatype provider_option = Table_name string | Session_locker

record provider =
  pv_db :: sql_db
  pv_migrations :: fs
  pv_options :: "provider_option list"

record goose_status =
  gt_version :: int
  gt_path :: string
  gt_applied :: bool
  gt_at :: time

record 'g goose =
  gs_open :: "string \<Rightarrow> bool"                                     \<comment> \<open>\<open>sql.Open("pgx", dsn)\<close>\<close>
  gs_parse :: "string \<Rightarrow> bool"                                    \<comment> \<open>\<open>pgx.ParseConfig\<close>\<close>
  gs_ping :: "sql_db \<Rightarrow> 'g \<Rightarrow> 'g \<times> bool"
  gs_exec :: "sql_db \<Rightarrow> string \<Rightarrow> 'g \<Rightarrow> 'g \<times> exec_result"
  gs_namespace :: "sql_db \<Rightarrow> string \<Rightarrow> 'g \<Rightarrow> 'g \<times> bool option"     \<comment> \<open>whether \<open>pg_namespace\<close> has a schema\<close>
  gs_sanitize :: "string \<Rightarrow> string"
  gs_locker :: "'g \<Rightarrow> 'g \<times> bool"
  gs_provider :: "provider \<Rightarrow> 'g \<Rightarrow> 'g \<times> bool"
  gs_up :: "provider \<Rightarrow> 'g \<Rightarrow> 'g \<times> bool"
  gs_down :: "provider \<Rightarrow> 'g \<Rightarrow> 'g \<times> bool"
  gs_status :: "provider \<Rightarrow> 'g \<Rightarrow> 'g \<times> goose_status list option"
  gs_up_to :: "int \<Rightarrow> provider \<Rightarrow> 'g \<Rightarrow> 'g \<times> bool"
  gs_down_to :: "int \<Rightarrow> provider \<Rightarrow> 'g \<Rightarrow> 'g \<times> bool"
  gs_version :: "provider \<Rightarrow> 'g \<Rightarrow> 'g \<times> int option"

definition poolerSafeConnConfig :: "'g goose \<Rightarrow> string \<Rightarrow> bool" where
  "poolerSafeConnConfig lib dsn = gs_parse lib dsn"

definition openDB :: "'g goose \<Rightarrow> string \<Rightarrow> bool \<Rightarrow> 'g handles \<Rightarrow> 'g handles \<times> (mig_error + sql_db)" where
  "openDB lib dsn poolerSafe w =
     (if \<not> poolerSafe \<and> \<not> gs_open lib dsn then (w, Inl Open_failed)
      else if poolerSafe \<and> \<not> poolerSafeConnConfig lib dsn then (w, Inl Bad_dsn)
      else case open_handle w of (w, h) \<Rightarrow> (w, Inr \<lparr>sd_handle = h, sd_dsn = dsn, sd_simple = poolerSafe\<rparr>))"

definition close_db :: "sql_db \<Rightarrow> 'g handles \<Rightarrow> 'g handles" where
  "close_db d = close_handle (sd_handle d)"

definition connect :: "'g goose \<Rightarrow> string \<Rightarrow> bool \<Rightarrow> 'g handles \<Rightarrow> 'g handles \<times> (mig_error + sql_db)" where
  "connect lib dsn poolerSafe w =
     (case openDB lib dsn poolerSafe w of
        (w, Inl e) \<Rightarrow> (w, Inl e)
      | (w, Inr d) \<Rightarrow>
          (case external (gs_ping lib d) w of
             (w, False) \<Rightarrow> (close_db d w, Inl Connect_failed)
           | (w, True) \<Rightarrow> (w, Inr d)))"

definition duplicateSchemaCode :: string where "duplicateSchemaCode = ''42P06''"
definition uniqueViolationCode :: string where "uniqueViolationCode = ''23505''"

definition ensureSchema :: "'g goose \<Rightarrow> sql_db \<Rightarrow> string \<Rightarrow> 'g handles \<Rightarrow> 'g handles \<times> bool" where
  "ensureSchema lib d schema w =
     (case external (gs_exec lib d (''CREATE SCHEMA IF NOT EXISTS '' @ gs_sanitize lib schema)) w of
        (w, Executed) \<Rightarrow> (w, True)
      | (w, Sqlstate code) \<Rightarrow> (w, code = duplicateSchemaCode \<or> code = uniqueViolationCode)
      | (w, Exec_failed) \<Rightarrow> (w, False))"

definition providerOptions :: "'g goose \<Rightarrow> runner \<Rightarrow> 'g handles \<Rightarrow> 'g handles \<times> provider_option list option" where
  "providerOptions lib r w =
     (let opts = (if rn_versionTable r \<noteq> [] then [Table_name (rn_versionTable r)] else [])
      in if rn_sessionLock r
         then (case external (gs_locker lib) w of
                 (w, False) \<Rightarrow> (w, None)
               | (w, True) \<Rightarrow> (w, Some (opts @ [Session_locker])))
         else (w, Some opts))"

text \<open>The provider owns the handle from here on: closing the one closes the other.\<close>

definition build_provider :: "'g goose \<Rightarrow> runner \<Rightarrow> sql_db \<Rightarrow> 'g handles \<Rightarrow> 'g handles \<times> (mig_error + provider)" where
  "build_provider lib r d w =
     (case providerOptions lib r w of
        (w, None) \<Rightarrow> (close_db d w, Inl Locker_failed)
      | (w, Some opts) \<Rightarrow>
          let p = \<lparr>pv_db = d, pv_migrations = rn_migrations r, pv_options = opts\<rparr>
          in (case external (gs_provider lib p) w of
                (w, False) \<Rightarrow> (close_db d w, Inl Provider_failed)
              | (w, True) \<Rightarrow> (w, Inr p)))"

definition newProvider ::
    "'g goose \<Rightarrow> runner \<Rightarrow> string \<Rightarrow> (options \<Rightarrow> options) list \<Rightarrow> 'g handles \<Rightarrow> 'g handles \<times> (mig_error + provider)" where
  "newProvider lib r dsn opts w =
     (case connect lib dsn (op_poolerSafe (resolve_options opts)) w of
        (w, Inl e) \<Rightarrow> (w, Inl e)
      | (w, Inr d) \<Rightarrow>
          if rn_ensureSchema r \<noteq> []
          then (case ensureSchema lib d (rn_ensureSchema r) w of
                  (w, False) \<Rightarrow> (close_db d w, Inl Ensure_failed)
                | (w, True) \<Rightarrow> build_provider lib r d w)
          else build_provider lib r d w)"

section \<open>Operations\<close>

definition with_provider ::
    "(provider \<Rightarrow> 'g \<Rightarrow> 'g \<times> (mig_error + 'a)) \<Rightarrow> 'g goose \<Rightarrow> runner \<Rightarrow> string \<Rightarrow> (options \<Rightarrow> options) list \<Rightarrow>
     'g handles \<Rightarrow> 'g handles \<times> (mig_error + 'a)" where
  "with_provider f lib r dsn opts w =
     (case newProvider lib r dsn opts w of
        (w, Inl e) \<Rightarrow> (w, Inl e)
      | (w, Inr p) \<Rightarrow> (case external (f p) w of (w, res) \<Rightarrow> (close_db (pv_db p) w, res)))"

definition ok_or :: "string \<Rightarrow> 'g \<times> bool \<Rightarrow> 'g \<times> (mig_error + unit)" where
  "ok_or what x = (fst x, if snd x then Inr () else Inl (Goose_failed what))"

definition Up :: "'g goose \<Rightarrow> runner \<Rightarrow> string \<Rightarrow> (options \<Rightarrow> options) list \<Rightarrow> 'g handles \<Rightarrow> 'g handles \<times> (mig_error + unit)" where
  "Up lib = with_provider (\<lambda>p g. ok_or ''up'' (gs_up lib p g)) lib"

definition Down :: "'g goose \<Rightarrow> runner \<Rightarrow> string \<Rightarrow> (options \<Rightarrow> options) list \<Rightarrow> 'g handles \<Rightarrow> 'g handles \<times> (mig_error + unit)" where
  "Down lib = with_provider (\<lambda>p g. ok_or ''down'' (gs_down lib p g)) lib"

definition Reset :: "'g goose \<Rightarrow> runner \<Rightarrow> string \<Rightarrow> (options \<Rightarrow> options) list \<Rightarrow> 'g handles \<Rightarrow> 'g handles \<times> (mig_error + unit)" where
  "Reset lib = with_provider (\<lambda>p g. ok_or ''reset'' (gs_down_to lib 0 p g)) lib"

definition UpTo :: "int \<Rightarrow> 'g goose \<Rightarrow> runner \<Rightarrow> string \<Rightarrow> (options \<Rightarrow> options) list \<Rightarrow> 'g handles \<Rightarrow> 'g handles \<times> (mig_error + unit)" where
  "UpTo version lib = with_provider (\<lambda>p g. ok_or ''up-to'' (gs_up_to lib version p g)) lib"

definition DownTo :: "int \<Rightarrow> 'g goose \<Rightarrow> runner \<Rightarrow> string \<Rightarrow> (options \<Rightarrow> options) list \<Rightarrow> 'g handles \<Rightarrow> 'g handles \<times> (mig_error + unit)" where
  "DownTo version lib = with_provider (\<lambda>p g. ok_or ''down-to'' (gs_down_to lib version p g)) lib"

record migration_status =
  ms_Version :: int
  ms_Source :: string
  ms_Applied :: bool
  ms_AppliedAt :: time

definition status_of :: "goose_status \<Rightarrow> migration_status" where
  "status_of s = \<lparr>ms_Version = gt_version s, ms_Source = path_base (gt_path s), ms_Applied = gt_applied s, ms_AppliedAt = gt_at s\<rparr>"

definition Status ::
    "'g goose \<Rightarrow> runner \<Rightarrow> string \<Rightarrow> (options \<Rightarrow> options) list \<Rightarrow> 'g handles \<Rightarrow> 'g handles \<times> (mig_error + migration_status list)" where
  "Status lib = with_provider
     (\<lambda>p g. case gs_status lib p g of
              (g, None) \<Rightarrow> (g, Inl (Goose_failed ''status''))
            | (g, Some ss) \<Rightarrow> (g, Inr (map status_of ss))) lib"

definition AppliedVersion ::
    "'g goose \<Rightarrow> runner \<Rightarrow> string \<Rightarrow> (options \<Rightarrow> options) list \<Rightarrow> 'g handles \<Rightarrow> 'g handles \<times> (mig_error + int)" where
  "AppliedVersion lib = with_provider
     (\<lambda>p g. case gs_version lib p g of
              (g, None) \<Rightarrow> (g, Inl (Goose_failed ''get db version''))
            | (g, Some v) \<Rightarrow> (g, Inr v)) lib"

definition SchemaExists ::
    "'g goose \<Rightarrow> string \<Rightarrow> string \<Rightarrow> (options \<Rightarrow> options) list \<Rightarrow> 'g handles \<Rightarrow> 'g handles \<times> (mig_error + bool)" where
  "SchemaExists lib dsn schema opts w =
     (case connect lib dsn (op_poolerSafe (resolve_options opts)) w of
        (w, Inl e) \<Rightarrow> (w, Inl e)
      | (w, Inr d) \<Rightarrow>
          (case external (gs_namespace lib d schema) w of
             (w, res) \<Rightarrow> (close_db d w, case res of None \<Rightarrow> Inl Check_failed | Some b \<Rightarrow> Inr b)))"

text \<open>
  \<open>WriteStatus\<close>: \<open>put\<close> writes to the destination, and \<open>ansic\<close> prints a time, which depends on the
  location it carries.
\<close>

definition status_line :: "(time \<Rightarrow> string) \<Rightarrow> migration_status \<Rightarrow> string" where
  "status_line ansic s =
     (let at = (if ms_Applied s then ansic (ms_AppliedAt s) else ''Pending'')
      in ''    '' @ at @ replicate (24 - rune_count at) CHR '' '' @ '' -- '' @ ms_Source s @ [CHR 0x0A])"

fun write_lines :: "(string \<Rightarrow> 'w \<Rightarrow> 'w \<times> bool) \<Rightarrow> string list \<Rightarrow> 'w \<Rightarrow> 'w \<times> bool" where
  "write_lines put [] w = (w, True)"
| "write_lines put (l # ls) w = (case put l w of (w, False) \<Rightarrow> (w, False) | (w, True) \<Rightarrow> write_lines put ls w)"

definition WriteStatus :: "(string \<Rightarrow> 'w \<Rightarrow> 'w \<times> bool) \<Rightarrow> (time \<Rightarrow> string) \<Rightarrow> migration_status list \<Rightarrow> 'w \<Rightarrow> 'w \<times> bool" where
  "WriteStatus put ansic statuses =
     write_lines put
       ([''    Applied At                  Migration'' @ [CHR 0x0A],
         ''    ======================================='' @ [CHR 0x0A]] @
        map (status_line ansic) statuses)"

section \<open>Every handle is closed again\<close>

lemma openDB_handles:
  assumes "handles_ok w" and "openDB lib dsn b w = (w', r)"
  shows "case r of Inr d \<Rightarrow> holding (sd_handle d) w w' | Inl e \<Rightarrow> w' = w"
  using assms(2) open_holding [OF assms(1)] by (auto simp: openDB_def split: if_splits prod.splits)

lemma connect_handles:
  assumes "handles_ok w" and "connect lib dsn b w = (w', r)"
  shows "case r of Inr d \<Rightarrow> holding (sd_handle d) w w' | Inl e \<Rightarrow> settled w w'"
proof -
  obtain w1 x where x: "openDB lib dsn b w = (w1, x)" by fastforce
  note h = openDB_handles [OF assms(1) x]
  show ?thesis
  proof (cases x)
    case (Inl e)
    then show ?thesis using assms(2) x h by (auto simp: connect_def)
  next
    case (Inr d)
    obtain w2 good where p: "external (gs_ping lib d) w1 = (w2, good)" by fastforce
    have "holding (sd_handle d) w w2" using h Inr holding_external [OF _ p] by simp
    then show ?thesis
      using assms(2) x Inr p close_settled by (cases good) (auto simp: connect_def close_db_def)
  qed
qed

interpretation sql: acquisition "connect lib dsn b" sd_handle for lib dsn b
  using connect_handles by unfold_locales fastforce+

lemma ensureSchema_settled: "ensureSchema lib d schema w = (w', good) \<Longrightarrow> settled w w'"
  by (auto simp: ensureSchema_def dest: external_settled split: prod.splits exec_result.splits)

lemma providerOptions_settled: "providerOptions lib r w = (w', opts) \<Longrightarrow> settled w w'"
  by (auto simp: providerOptions_def Let_def dest: external_settled split: prod.splits if_splits bool.splits)

lemma build_provider_handles:
  assumes "holding (sd_handle d) w0 w" and "build_provider lib r d w = (w', res)"
  shows "case res of Inr p \<Rightarrow> holding (sd_handle (pv_db p)) w0 w' | Inl e \<Rightarrow> settled w0 w'"
proof -
  obtain w1 opts where o: "providerOptions lib r w = (w1, opts)" by fastforce
  have h: "holding (sd_handle d) w0 w1" by (rule holding_settled [OF assms(1) providerOptions_settled [OF o]])
  show ?thesis
  proof (cases opts)
    case None
    then show ?thesis
      using assms(2) o close_settled [OF h] by (auto simp: build_provider_def close_db_def)
  next
    case (Some os)
    obtain w2 good where p: "external (gs_provider lib \<lparr>pv_db = d, pv_migrations = rn_migrations r, pv_options = os\<rparr>) w1 = (w2, good)"
      by fastforce
    have "holding (sd_handle d) w0 w2" by (rule holding_external [OF h p])
    then show ?thesis
      using assms(2) o Some p close_settled by (cases good) (auto simp: build_provider_def close_db_def)
  qed
qed

lemma newProvider_handles:
  assumes "handles_ok w" and "newProvider lib r dsn opts w = (w', res)"
  shows "case res of Inr p \<Rightarrow> holding (sd_handle (pv_db p)) w w' | Inl e \<Rightarrow> settled w w'"
proof -
  obtain w1 x where x: "connect lib dsn (op_poolerSafe (resolve_options opts)) w = (w1, x)" by fastforce
  show ?thesis
  proof (cases x)
    case (Inl e)
    then show ?thesis using assms x sql.refused by (auto simp: newProvider_def)
  next
    case (Inr d)
    then have h: "holding (sd_handle d) w w1" using sql.acquired [OF assms(1)] x by simp
    obtain w2 good where s: "ensureSchema lib d (rn_ensureSchema r) w1 = (w2, good)" by fastforce
    have h2: "holding (sd_handle d) w w2" by (rule holding_settled [OF h ensureSchema_settled [OF s]])
    show ?thesis
      using assms(2) x Inr s close_settled [OF h2] build_provider_handles [OF h] build_provider_handles [OF h2]
      by (cases good; cases "rn_ensureSchema r = []") (auto simp: newProvider_def close_db_def)
  qed
qed

interpretation prov: acquisition "newProvider lib r dsn opts" "\<lambda>p. sd_handle (pv_db p)" for lib r dsn opts
  using newProvider_handles by unfold_locales fastforce+

lemma with_provider_settled:
  assumes "handles_ok w" and "with_provider f lib r dsn opts w = (w', res)"
  shows "settled w w'"
proof -
  have "(case newProvider lib r dsn opts w of
      (w, Inl e) \<Rightarrow> (w, Inl e)
    | (w, Inr p) \<Rightarrow> (case external (f p) w of (w, res) \<Rightarrow> (close_handle (sd_handle (pv_db p)) w, res))) = (w', res)"
    using assms(2) unfolding with_provider_def close_db_def .
  from prov.bracket_settled [OF assms(1) this] show ?thesis .
qed

lemma with_provider_fst: "handles_ok w \<Longrightarrow> settled w (fst (with_provider f lib r dsn opts w))"
  using with_provider_settled prod.collapse by metis

text \<open>C38: Whatever connecting, ensuring the schema, building the provider and goose itself come to, every
  operation of the migration runner closes the database handle it opened, and no other handle.\<close>

theorem migrations_close_their_handles:
  assumes "handles_ok w"
  shows "settled w (fst (Up lib r dsn opts w)) \<and> settled w (fst (Down lib r dsn opts w)) \<and>
    settled w (fst (Reset lib r dsn opts w)) \<and> settled w (fst (UpTo v lib r dsn opts w)) \<and>
    settled w (fst (DownTo v lib r dsn opts w)) \<and> settled w (fst (Status lib r dsn opts w)) \<and>
    settled w (fst (AppliedVersion lib r dsn opts w)) \<and> settled w (fst (SchemaExists lib dsn schema opts w))"
proof -
  obtain w' res where e: "SchemaExists lib dsn schema opts w = (w', res)" by fastforce
  then have "(case connect lib dsn (op_poolerSafe (resolve_options opts)) w of
      (w, Inl e) \<Rightarrow> (w, Inl e)
    | (w, Inr d) \<Rightarrow> (case external (gs_namespace lib d schema) w of
        (w, res) \<Rightarrow> (close_handle (sd_handle d) w, case res of None \<Rightarrow> Inl Check_failed | Some b \<Rightarrow> Inr b))) = (w', res)"
    unfolding SchemaExists_def close_db_def .
  from sql.bracket_settled [OF assms this] have "settled w (fst (SchemaExists lib dsn schema opts w))" using e by simp
  then show ?thesis
    unfolding Up_def Down_def Reset_def UpTo_def DownTo_def Status_def AppliedVersion_def
    by (intro conjI with_provider_fst [OF assms])
qed

section \<open>A library for examples\<close>

text \<open>It logs the statements executed; everything else succeeds.\<close>

definition logging_goose :: "goose_status list \<Rightarrow> string list goose" where
  "logging_goose ss =
     \<lparr>gs_open = (\<lambda>_. True), gs_parse = (\<lambda>_. True), gs_ping = (\<lambda>d g. (g, True)),
      gs_exec = (\<lambda>d stmt g. (g @ [stmt], Executed)), gs_namespace = (\<lambda>d s g. (g, Some False)),
      gs_sanitize = (\<lambda>s. [CHR 0x22] @ s @ [CHR 0x22]), gs_locker = (\<lambda>g. (g, True)), gs_provider = (\<lambda>p g. (g, True)),
      gs_up = (\<lambda>p g. (g, True)), gs_down = (\<lambda>p g. (g, True)), gs_status = (\<lambda>p g. (g, Some ss)),
      gs_up_to = (\<lambda>v p g. (g, True)), gs_down_to = (\<lambda>v p g. (g, True)), gs_version = (\<lambda>p g. (g, Some 0))\<rparr>"

definition no_handles :: "string list handles" where
  "no_handles = \<lparr>hd_open = [], hd_next = 0, hd_ext = []\<rparr>"

theorem migrations_close_their_handles_witness:
  "hd_open (fst (Up (logging_goose []) \<lparr>rn_migrations = [''00001_a.sql''], rn_versionTable = [], rn_ensureSchema = ''app'',
     rn_sessionLock = True\<rparr> ''host=db'' [PoolerSafe] no_handles)) = []"
proof -
  have "handles_ok no_handles" by (simp add: handles_ok_def no_handles_def)
  from migrations_close_their_handles [OF this] show ?thesis by (simp add: settled_def no_handles_def)
qed

end
