(* ===== verification/Identity_Migrate.thy ===== *)
theory Identity_Migrate
  imports Migrate
begin

text \<open>
  The identity schema's migrations, \<open>identity/migrate/migrate.go\<close>: the embedded set, the runner over
  it, and the check both applications make before they boot.
\<close>

definition migrationsFS :: fs where
  "migrationsFS = [''migrations/00001_identity_baseline.sql'', ''migrations/00002_identity_mfa.sql'',
     ''migrations/00003_identity_webauthn.sql'', ''migrations/00004_identity_sessions.sql'',
     ''migrations/00005_identity_member_pin.sql'']"

definition SourceDir :: string where "SourceDir = ''identity/migrate/migrations''"
definition versionTable :: string where "versionTable = ''identity.goose_db_version''"
definition schemaName :: string where "schemaName = ''identity''"

definition New_identity :: "mig_error + runner" where
  "New_identity = New_runner migrationsFS ''migrations'' [WithVersionTable versionTable, WithEnsureSchema schemaName, WithSessionLock]"

datatype version_error = Runner_failed mig_error | Status_failed mig_error | Too_old int int

definition highest_applied :: "migration_status list \<Rightarrow> int" where
  "highest_applied ss = fold (\<lambda>s applied. if ms_Applied s \<and> ms_Version s > applied then ms_Version s else applied) ss 0"

definition RequireVersion :: "'g goose \<Rightarrow> string \<Rightarrow> int \<Rightarrow> 'g handles \<Rightarrow> 'g handles \<times> (version_error + unit)" where
  "RequireVersion lib dsn minVersion w =
     (case New_runner migrationsFS ''migrations'' [WithVersionTable versionTable, WithEnsureSchema schemaName] of
        Inl e \<Rightarrow> (w, Inl (Runner_failed e))
      | Inr r \<Rightarrow>
          (case Status lib r dsn [] w of
             (w, Inl e) \<Rightarrow> (w, Inl (Status_failed e))
           | (w, Inr statuses) \<Rightarrow>
               let applied = highest_applied statuses
               in (w, if applied < minVersion then Inl (Too_old applied minVersion) else Inr ())))"

section \<open>Both runners can be built\<close>

definition identity_runner :: "bool \<Rightarrow> runner" where
  "identity_runner locked = \<lparr>rn_migrations = map (drop 11) migrationsFS, rn_versionTable = versionTable,
     rn_ensureSchema = schemaName, rn_sessionLock = locked\<rparr>"

lemma migrations_subdirectory:
  "fs_sub ''migrations'' migrationsFS = Some (map (drop 11) migrationsFS)"
  "glob_suffix ''.sql'' (map (drop 11) migrationsFS) \<noteq> []"
proof -
  have "valid_path ''migrations''"
    by (simp add: valid_path_def valid_utf8_def runes_ascii is_ascii_def RuneError_def plain_comp_def)
  moreover have "filter (under ''migrations'') migrationsFS = migrationsFS" by code_simp
  ultimately show "fs_sub ''migrations'' migrationsFS = Some (map (drop 11) migrationsFS)"
    unfolding fs_sub_def by (simp add: numeral_eq_Suc)
  show "glob_suffix ''.sql'' (map (drop 11) migrationsFS) \<noteq> []" by code_simp
qed

theorem identity_runner_built: "New_identity = Inr (identity_runner True)"
  by (simp add: New_identity_def New_runner_def migrations_subdirectory identity_runner_def
      WithVersionTable_def WithEnsureSchema_def WithSessionLock_def)

lemma RequireVersion_Status:
  "RequireVersion lib dsn minVersion w =
     (case Status lib (identity_runner False) dsn [] w of
        (w, Inl e) \<Rightarrow> (w, Inl (Status_failed e))
      | (w, Inr ss) \<Rightarrow> (w, if highest_applied ss < minVersion then Inl (Too_old (highest_applied ss) minVersion) else Inr ()))"
  by (simp add: RequireVersion_def New_runner_def migrations_subdirectory identity_runner_def
      WithVersionTable_def WithEnsureSchema_def Let_def)

section \<open>The boot guard\<close>

lemma highest_applied_ge:
  "n \<le> highest_applied ss \<longleftrightarrow> n \<le> 0 \<or> (\<exists>s \<in> set ss. ms_Applied s \<and> n \<le> ms_Version s)"
proof -
  have "n \<le> fold (\<lambda>s a. if ms_Applied s \<and> ms_Version s > a then ms_Version s else a) ss a \<longleftrightarrow>
      n \<le> a \<or> (\<exists>s \<in> set ss. ms_Applied s \<and> n \<le> ms_Version s)" for a
    by (induction ss arbitrary: a) auto
  then show ?thesis by (simp add: highest_applied_def)
qed

text \<open>The boot guard lets a binary start exactly when the state of the migrations can be read and
  either no version is required or one of at least that version is applied, so never against an
  older schema and always against a newer one. It leaves no handle open.\<close>

theorem version_gate:
  assumes "handles_ok w" and "RequireVersion lib dsn minVersion w = (w', r)"
  shows "settled w w' \<and>
    (r = Inr () \<longleftrightarrow>
      (\<exists>ss. snd (Status lib (identity_runner False) dsn [] w) = Inr ss \<and>
        (minVersion \<le> 0 \<or> (\<exists>s \<in> set ss. ms_Applied s \<and> minVersion \<le> ms_Version s))))"
proof (cases "Status lib (identity_runner False) dsn [] w")
  case (Pair w1 x)
  have "settled w w1"
    using with_provider_settled [OF assms(1)] Pair by (fastforce simp: Status_def)
  then show ?thesis
    using assms(2) Pair
    by (cases x) (auto simp: RequireVersion_Status highest_applied_ge [symmetric] split: if_splits)
qed

text \<open>
  The guard is described as a read-only check, and as one that asks \<open>SchemaExists\<close> first; it does
  not ask, and creates the schema: its runner ensures it, like the one that applies migrations.
\<close>

theorem require_version_creates_schema:
  "hd_ext (fst (RequireVersion (logging_goose []) dsn 1 no_handles)) =
     [''CREATE SCHEMA IF NOT EXISTS '' @ [CHR 0x22] @ ''identity'' @ [CHR 0x22]]"
  by (simp add: RequireVersion_Status Status_def with_provider_def newProvider_def connect_def openDB_def
      build_provider_def providerOptions_def ensureSchema_def identity_runner_def resolve_options_def logging_goose_def
      external_def open_handle_def close_db_def close_handle_def schemaName_def no_handles_def Let_def)

end
