(* ===== verification/Metrics.thy ===== *)
theory Metrics
  imports Prelude
begin

text \<open>
  The instrumentation, \<open>metrics/metrics.go\<close> and \<open>metrics/scheduler.go\<close>. A registry is the names
  registered with it; a vector of counters, histograms or gauges is an association list from the
  label values in use, its series, to what was recorded. A panic is \<open>None\<close>.
\<close>

section \<open>Registries\<close>

datatype collector = Go_collector | Process_collector | Build_info_collector

record registry =
  rg_collectors :: "collector list"
  rg_names :: "string list"

definition NewRegistry :: registry where
  "NewRegistry = \<lparr>rg_collectors = [Go_collector, Process_collector, Build_info_collector], rg_names = []\<rparr>"

text \<open>\<open>promhttp.HandlerFor\<close> is the argument.\<close>

definition Handler :: "(registry \<Rightarrow> 'h) \<Rightarrow> registry option \<Rightarrow> 'h option" where
  "Handler handler_for reg = map_option handler_for reg"

definition fq_name :: "string \<Rightarrow> string \<Rightarrow> string" where
  "fq_name namespace name = namespace @ ''_'' @ name"

definition register :: "string \<Rightarrow> registry \<Rightarrow> registry option" where
  "register name reg = (if name \<in> set (rg_names reg) then None else Some (reg\<lparr>rg_names := rg_names reg @ [name]\<rparr>))"

fun register_all :: "string list \<Rightarrow> registry \<Rightarrow> registry option" where
  "register_all [] reg = Some reg"
| "register_all (n # ns) reg = Option.bind (register n reg) (register_all ns)"

text \<open>The metrics of HTTP requests; their values are recorded by the middleware.\<close>

definition http_metric_names :: "string list" where
  "http_metric_names = [''http_requests_total'', ''http_request_duration_seconds'', ''http_requests_in_flight'']"

definition NewHTTPMetrics :: "registry option \<Rightarrow> string \<Rightarrow> registry option" where
  "NewHTTPMetrics reg namespace =
     (case reg of
        None \<Rightarrow> None
      | Some reg \<Rightarrow> if namespace = [] then None else register_all (map (fq_name namespace) http_metric_names) reg)"

section \<open>Scheduler ticks\<close>

definition schedulerOther :: string where "schedulerOther = ''other''"
definition tickResultSuccess :: string where "tickResultSuccess = ''success''"
definition tickResultError :: string where "tickResultError = ''error''"

record tick_recorder =
  TicksTotal :: "((string \<times> string) \<times> nat) list"
  TickDuration :: "(string \<times> duration list) list"
  LastSuccess :: "(string \<times> time) list"
  tr_known :: "string list"

definition scheduler_metric_names :: "string list" where
  "scheduler_metric_names =
     [''scheduler_ticks_total'', ''scheduler_tick_duration_seconds'', ''scheduler_last_success_timestamp_seconds'']"

definition NewPromTickRecorder :: "registry option \<Rightarrow> string \<Rightarrow> string list \<Rightarrow> (registry \<times> tick_recorder) option" where
  "NewPromTickRecorder reg namespace names =
     (case reg of
        None \<Rightarrow> None
      | Some reg \<Rightarrow>
          if namespace = [] then None
          else if schedulerOther \<in> set names then None
          else map_option (\<lambda>reg. (reg, \<lparr>TicksTotal = [], TickDuration = [], LastSuccess = [], tr_known = remdups names\<rparr>))
                 (register_all (map (fq_name namespace) scheduler_metric_names) reg))"

definition bump :: "'k \<Rightarrow> ('k \<times> nat) list \<Rightarrow> ('k \<times> nat) list" where
  "bump k m = AList.update k (Suc (case map_of m k of None \<Rightarrow> 0 | Some n \<Rightarrow> n)) m"

definition observe :: "'k \<Rightarrow> 'v \<Rightarrow> ('k \<times> 'v list) list \<Rightarrow> ('k \<times> 'v list) list" where
  "observe k v m = AList.update k ((case map_of m k of None \<Rightarrow> [] | Some vs \<Rightarrow> vs) @ [v]) m"

definition scheduler_label :: "tick_recorder \<Rightarrow> string \<Rightarrow> string" where
  "scheduler_label r name = (if name \<in> set (tr_known r) then name else schedulerOther)"

text \<open>One tick: the name, the duration, whether the cycle failed, and the time of the call.\<close>

record tick =
  tk_name :: string
  tk_took :: duration
  tk_failed :: bool
  tk_now :: time

definition ObserveTick :: "tick \<Rightarrow> tick_recorder \<Rightarrow> tick_recorder" where
  "ObserveTick t r =
     (let scheduler = scheduler_label r (tk_name t);
          result = (if tk_failed t then tickResultError else tickResultSuccess);
          r = r\<lparr>TicksTotal := bump (scheduler, result) (TicksTotal r),
                TickDuration := observe scheduler (tk_took t) (TickDuration r)\<rparr>
      in if tk_failed t then r else r\<lparr>LastSuccess := AList.update scheduler (tk_now t) (LastSuccess r)\<rparr>)"

definition Nop_ObserveTick :: "tick \<Rightarrow> unit \<Rightarrow> unit" where
  "Nop_ObserveTick t r = ()"

section \<open>What the series say\<close>

definition ticks_of :: "string list \<Rightarrow> string \<Rightarrow> tick list \<Rightarrow> tick list" where
  "ticks_of names s ts = filter (\<lambda>t. (if tk_name t \<in> set names then tk_name t else schedulerOther) = s) ts"

definition result_of :: "tick \<Rightarrow> string" where
  "result_of t = (if tk_failed t then tickResultError else tickResultSuccess)"

definition counted :: "('k \<times> nat) list \<Rightarrow> 'k \<Rightarrow> nat" where
  "counted m k = (case map_of m k of None \<Rightarrow> 0 | Some n \<Rightarrow> n)"

definition observed :: "('k \<times> 'v list) list \<Rightarrow> 'k \<Rightarrow> 'v list" where
  "observed m k = (case map_of m k of None \<Rightarrow> [] | Some vs \<Rightarrow> vs)"

lemma counted_bump: "counted (bump k m) k' = (if k = k' then Suc (counted m k) else counted m k')"
  by (simp add: counted_def bump_def)

lemma observed_observe: "observed (observe k v m) k' = (if k = k' then observed m k @ [v] else observed m k')"
  by (simp add: observed_def observe_def)

lemma keys_bump [simp]:
  "set (keys (bump k m)) = insert k (set (keys m))" "distinct (keys m) \<Longrightarrow> distinct (keys (bump k m))"
  by (simp_all add: bump_def)

lemma keys_observe [simp]:
  "set (keys (observe k v m)) = insert k (set (keys m))" "distinct (keys m) \<Longrightarrow> distinct (keys (observe k v m))"
  by (simp_all add: observe_def)

lemma results_distinct [simp]: "tickResultSuccess \<noteq> tickResultError" "tickResultError \<noteq> tickResultSuccess"
  by (simp_all add: tickResultSuccess_def tickResultError_def)

text \<open>The recorder against the ticks it has been given.\<close>

definition recorded :: "string list \<Rightarrow> tick list \<Rightarrow> tick_recorder \<Rightarrow> bool" where
  "recorded names ts r \<longleftrightarrow>
     tr_known r = remdups names \<and>
     (\<forall>s res. counted (TicksTotal r) (s, res) = length (filter (\<lambda>t. result_of t = res) (ticks_of names s ts))) \<and>
     (\<forall>s. observed (TickDuration r) s = map tk_took (ticks_of names s ts)) \<and>
     (\<forall>s. map_of (LastSuccess r) s = map_option tk_now (List.find (\<lambda>t. \<not> tk_failed t) (rev (ticks_of names s ts)))) \<and>
     distinct (keys (TicksTotal r)) \<and>
     set (keys (TicksTotal r)) \<subseteq> (insert schedulerOther (set names)) \<times> {tickResultSuccess, tickResultError} \<and>
     distinct (keys (TickDuration r)) \<and> set (keys (TickDuration r)) \<subseteq> insert schedulerOther (set names) \<and>
     distinct (keys (LastSuccess r)) \<and> set (keys (LastSuccess r)) \<subseteq> insert schedulerOther (set names)"

lemma recorded_tick: "recorded names ts r \<Longrightarrow> recorded names (ts @ [t]) (ObserveTick t r)"
  unfolding recorded_def
proof (elim conjE, intro conjI, goal_cases)
  case 1
  then show ?case by (simp add: ObserveTick_def Let_def)
qed (auto simp: ObserveTick_def Let_def scheduler_label_def ticks_of_def result_of_def counted_bump observed_observe)

text \<open>C40: After any ticks the scheduler series say what happened: per label and result as many ticks as
  counted, the durations in order, and the time of the last cycle that succeeded; names outside the
  allowlist share one label, so there are at most two counters per known scheduler and two more.\<close>

theorem tick_series_truthful:
  assumes "NewPromTickRecorder reg namespace names = Some (reg', r0)"
  shows "recorded names ts (fold ObserveTick ts r0) \<and>
    length (TicksTotal (fold ObserveTick ts r0)) \<le> 2 * (length (remdups names) + 1)"
proof -
  have "recorded names [] r0"
    using assms by (auto simp: NewPromTickRecorder_def recorded_def ticks_of_def counted_def observed_def keys_def
        split: option.splits if_splits)
  then have rec: "recorded names ts (fold ObserveTick ts r0)"
    by (induction ts rule: rev_induct) (simp_all add: recorded_tick)
  let ?m = "TicksTotal (fold ObserveTick ts r0)"
  have "length ?m = card (set (keys ?m))" using rec by (intro length_as_card) (simp add: recorded_def)
  also have "\<dots> \<le> card (insert schedulerOther (set names) \<times> {tickResultSuccess, tickResultError})"
    using rec by (intro card_mono) (auto simp: recorded_def)
  also have "\<dots> = card (insert schedulerOther (set names)) * 2"
    unfolding card_cartesian_product by simp
  also have "\<dots> \<le> (Suc (card (set names))) * 2" by (intro mult_le_mono1 card_insert_le_m1) auto
  finally show ?thesis using rec by (simp add: length_remdups_card_conv)
qed

theorem registered_once:
  assumes "NewPromTickRecorder (Some reg) namespace names = Some (reg', r0)"
  shows "NewPromTickRecorder (Some reg') namespace names' = None"
  using assms
  by (auto simp: NewPromTickRecorder_def scheduler_metric_names_def register_def split: if_splits option.splits bind_splits)

definition sample_ticks :: "tick list" where
  "sample_ticks =
     [\<lparr>tk_name = ''chores'', tk_took = 5, tk_failed = False, tk_now = 10\<rparr>,
      \<lparr>tk_name = ''chores'', tk_took = 6, tk_failed = True, tk_now = 20\<rparr>,
      \<lparr>tk_name = ''typo'', tk_took = 7, tk_failed = True, tk_now = 30\<rparr>]"

theorem tick_series_truthful_witness:
  "\<exists>r. recorded [''chores''] sample_ticks r \<and> map_of (LastSuccess r) ''chores'' = Some 10 \<and>
     counted (TicksTotal r) (''other'', ''error'') = 1"
proof -
  have "NewPromTickRecorder (Some NewRegistry) ''nest'' [''chores''] \<noteq> None" by code_simp
  then obtain reg r0 where n: "NewPromTickRecorder (Some NewRegistry) ''nest'' [''chores''] = Some (reg, r0)" by auto
  from tick_series_truthful [OF n, of sample_ticks] have r: "recorded [''chores''] sample_ticks (fold ObserveTick sample_ticks r0)"
    by blast
  then have "map_of (LastSuccess (fold ObserveTick sample_ticks r0)) ''chores'' = Some 10"
      "counted (TicksTotal (fold ObserveTick sample_ticks r0)) (''other'', ''error'') = 1"
    unfolding recorded_def by (simp_all add: ticks_of_def sample_ticks_def schedulerOther_def result_of_def tickResultError_def tickResultSuccess_def)
  with r show ?thesis by blast
qed

end
