(* ===== verification/Session_Manager.thy ===== *)
theory Session_Manager
  imports Config
begin

text \<open>
  The session manager both applications build over one table, \<open>identity/session\<close>. What \<open>scs.New\<close>
  returns is an argument; \<open>pgxstore\<close> is what it was configured with.
\<close>

definition KeyMemberID :: string where "KeyMemberID = ''member_id''"
definition sessionsTable :: string where "sessionsTable = ''identity.sessions''"
definition cleanupInterval :: duration where "cleanupInterval = 5 * minute"

datatype same_site = Lax | Strict | None_mode | Default_mode

record session_cookie =
  ck_name :: string
  ck_domain :: string
  ck_path :: string
  ck_http_only :: bool
  ck_same_site :: same_site
  ck_secure :: bool
  ck_persist :: bool

record session_store =
  ss_table :: string
  ss_cleanup :: duration

record session_manager =
  sm_store :: "session_store option"
  sm_lifetime :: duration
  sm_idle :: duration
  sm_hash_token :: bool
  sm_cookie :: session_cookie

text \<open>Division truncates.\<close>

definition half :: "duration \<Rightarrow> duration" where
  "half d = (if d < 0 then - ((- d) div 2) else d div 2)"

text \<open>The manager, and what stops its store's sweeping, which is the store.\<close>

definition NewManager :: "session_manager \<Rightarrow> session_config \<Rightarrow> session_manager \<times> session_store" where
  "NewManager scs_new cfg =
     (let st = \<lparr>ss_table = sessionsTable, ss_cleanup = cleanupInterval\<rparr>;
          cookie = (sm_cookie scs_new)\<lparr>ck_http_only := True, ck_same_site := Lax, ck_secure := Secure cfg,
                                       ck_path := ''/'', ck_persist := True\<rparr>
      in (scs_new\<lparr>sm_store := Some st, sm_lifetime := Lifetime cfg, sm_idle := half (Lifetime cfg),
                  sm_hash_token := True, sm_cookie := cookie\<rparr>, st))"

datatype gob_type = Gob_time | Gob_webauthn_session_data

text \<open>The types registered before \<open>main\<close>.\<close>

definition gob_registered :: "gob_type list" where
  "gob_registered = [Gob_time, Gob_webauthn_session_data]"

text \<open>
  A session written through one manager can be read through another, whatever their lifetimes: they
  share the table, the way its keys are derived from tokens, and the cookie that carries the token.
\<close>

theorem managers_share_sessions:
  "sm_store (fst (NewManager scs_new a)) = sm_store (fst (NewManager scs_new b)) \<and>
   sm_hash_token (fst (NewManager scs_new a)) = sm_hash_token (fst (NewManager scs_new b)) \<and>
   (sm_cookie (fst (NewManager scs_new a)))\<lparr>ck_secure := x\<rparr> = (sm_cookie (fst (NewManager scs_new b)))\<lparr>ck_secure := x\<rparr>"
  by (simp add: NewManager_def Let_def)

text \<open>An idle session ends before the hard cap, when the configuration is valid.\<close>

theorem idle_before_lifetime:
  assumes "Validate_session env cfg = []"
  shows "0 \<le> sm_idle (fst (NewManager scs_new cfg)) \<and>
    2 * sm_idle (fst (NewManager scs_new cfg)) \<le> sm_lifetime (fst (NewManager scs_new cfg))"
proof -
  have "0 < Lifetime cfg" using assms by (auto simp: Validate_session_def problem_def split: if_splits)
  then show ?thesis by (simp add: NewManager_def half_def Let_def)
qed

end
