(* ===== verification/Render.thy ===== *)
theory Render
  imports Http
begin

text \<open>
  Rendering of components, \<open>render/render.go\<close>. A component renders from a context to the bytes it
  has written and whether it succeeded; its type is templ's, an argument.
\<close>

type_synonym 'c component = "'c \<Rightarrow> bytes \<times> bool"

datatype render_end = Rendered | Component_failed | Short_write | Crashed panic

definition IsHTMX :: "request \<Rightarrow> bool" where
  "IsHTMX r \<longleftrightarrow> header_get (rq_headers r) ''Hx-Request'' = ''true''"

text \<open>The buffer is written out in one call, and not at all when it is empty.\<close>

definition buffer_write_to :: "bytes \<Rightarrow> writer \<Rightarrow> http \<Rightarrow> http \<times> render_end" where
  "buffer_write_to b w s =
     (if b = [] then (s, Rendered)
      else case Write w b s of (s, n) \<Rightarrow> (s, if n = length b then Rendered else Short_write))"

definition Render :: "'c \<Rightarrow> writer \<Rightarrow> int \<Rightarrow> 'c component \<Rightarrow> http \<Rightarrow> http \<times> render_end" where
  "Render ctx w status_code c s =
     (case c ctx of
        (buf, False) \<Rightarrow> (s, Component_failed)
      | (buf, True) \<Rightarrow>
          (case WriteHeader w status_code (set_header ''Content-Type'' ''text/html; charset=utf-8'' s) of
             (s, Panicked p) \<Rightarrow> (s, Crashed p)
           | (s, Returned) \<Rightarrow> buffer_write_to buf w s))"

definition Page :: "'c \<Rightarrow> writer \<Rightarrow> request \<Rightarrow> ('c component \<Rightarrow> 'c component) \<Rightarrow> 'c component \<Rightarrow> http \<Rightarrow> http \<times> render_end" where
  "Page ctx w r layout content s =
     (let s = set_header ''Vary'' ''HX-Request'' s
      in if IsHTMX r then Render ctx w 200 content s
         else Render ctx w 200 (layout content) s)"

text \<open>A response that has not begun: nothing sent, and every byte written is accepted.\<close>

definition fresh :: "http \<Rightarrow> bool" where
  "fresh s \<longleftrightarrow> rw_sent (h_raw s) = None \<and> rw_body (h_raw s) = [] \<and> \<not> rw_hijacked (h_raw s) \<and> rw_accepts (h_raw s) = []"

theorem page_all_or_nothing:
  assumes "fresh s" and "Page ctx Raw r layout content s = (s', e)"
  shows "(e = Component_failed \<longrightarrow> s' = set_header ''Vary'' ''HX-Request'' s) \<and>
    (e \<noteq> Component_failed \<longrightarrow> e = Rendered \<and>
       (\<exists>h. rw_sent (h_raw s') = Some (200, h) \<and> header_get h ''Vary'' = ''HX-Request'' \<and>
          header_get h ''Content-Type'' = ''text/html; charset=utf-8'') \<and>
       rw_body (h_raw s') = fst ((if IsHTMX r then content else layout content) ctx))"
proof -
  let ?c = "if IsHTMX r then content else layout content"
  have r: "Render ctx Raw 200 ?c (set_header ''Vary'' ''HX-Request'' s) = (s', e)"
    using assms(2) by (simp add: Page_def Let_def split: if_splits)
  show ?thesis
  proof (cases "?c ctx")
    case (Pair buf good)
    then show ?thesis
      using r assms(1)
      by (cases good)
         (auto simp: Render_def buffer_write_to_def fresh_def set_header_def raw_write_header_def raw_write_def
            body_allowed_def Let_def split: if_splits)
  qed
qed

definition sample_page_content :: "unit component" where
  "sample_page_content = (\<lambda>_. (bytes_of ''<p>ok</p>'', True))"

end
