(* ===== verification/Static_Assets.thy ===== *)
theory Static_Assets
  imports Http Go_Fs
begin

text \<open>
  The embedded assets, \<open>ui/static/embed.go\<close>: a handler that marks a response as immutable only when it
  is about to serve a file. The file server of the standard library is an argument.
\<close>

definition MountPath :: string where "MountPath = ''/hearth-static/''"

text \<open>\<open>http.Error\<close> and \<open>http.NotFound\<close>.\<close>

definition http_error :: "string \<Rightarrow> int \<Rightarrow> handler" where
  "http_error msg code r w s =
     (let s = on_raw (\<lambda>x. x\<lparr>rw_header := AList.delete ''Content-Length'' (rw_header x)\<rparr>) s;
          s = set_header ''X-Content-Type-Options'' ''nosniff'' (set_header ''Content-Type'' ''text/plain; charset=utf-8'' s)
      in case do_acts w [Write_header code, Write_body (bytes_of (msg @ [CHR 0x0A]))] s of
           (s, out) \<Rightarrow> (s, rq_pattern r, out))"

definition http_not_found :: handler where
  "http_not_found = http_error ''404 page not found'' 404"

definition immutable_cache :: string where
  "immutable_cache = ''public, max-age=31536000, immutable''"

definition FS :: "fs \<Rightarrow> fs" where
  "FS assetsFS = assetsFS"

definition asset_path :: "string \<Rightarrow> string" where
  "asset_path p = (if take 1 p = ''/'' then drop 1 p else p)"

definition Handler :: "fs \<Rightarrow> handler \<Rightarrow> handler" where
  "Handler assetsFS files r w s =
     (if rq_path r = [] \<or> suffix ''/'' (rq_path r) then http_not_found r w s
      else case fs_stat assetsFS (asset_path (rq_path r)) of
             Some Regular \<Rightarrow> files r w (set_header ''Cache-Control'' immutable_cache s)
           | _ \<Rightarrow> http_not_found r w s)"

text \<open>A path that is no file's gets a 404 that caches may drop; a year of caching is for files only.\<close>

theorem missing_asset_not_cached:
  assumes "asset_path (rq_path r) \<notin> set assetsFS" and "rw_sent (h_raw s) = None" and "\<not> rw_hijacked (h_raw s)"
    and "header_get (rw_header (h_raw s)) ''Cache-Control'' = []"
  shows "\<exists>h. rw_sent (h_raw (fst (Handler assetsFS files r Raw s))) = Some (404, h) \<and> header_get h ''Cache-Control'' = []"
proof -
  have "fs_stat assetsFS (asset_path (rq_path r)) \<noteq> Some Regular" using assms(1) by (simp add: fs_stat_def)
  then have "Handler assetsFS files r Raw s = http_not_found r Raw s"
    by (auto simp: Handler_def split: option.split fs_info.split)
  then show ?thesis
    using assms(2-4)
    by (auto simp: http_not_found_def http_error_def set_header_def raw_write_header_def raw_write_def
        header_get_def header_values_def header_set_def Let_def split: prod.splits)
qed

end
