(* ===== verification/Qr_Code.thy ===== *)
theory Qr_Code
  imports Go_Fmt
begin

text \<open>
  QR codes as data URIs, \<open>qrcode/qrcode.go\<close>. Encoding a text as a QR code and drawing one as a PNG are
  arguments; the module size is a byte there.
\<close>

definition dataURIPrefix :: string where "dataURIPrefix = ''data:image/png;base64,''"

datatype qr_error = Invalid_module_size | Not_encoded | Not_drawn

text \<open>\<open>base64.StdEncoding\<close>: padded to whole groups of four.\<close>

definition b64_std_encode :: "bytes \<Rightarrow> string" where
  "b64_std_encode bs = (let e = b64_encode bs in e @ replicate ((4 - length e mod 4) mod 4) CHR ''='')"

definition PNGDataURI ::
    "(string \<Rightarrow> 'code option) \<Rightarrow> (byte \<Rightarrow> 'code \<Rightarrow> bytes option) \<Rightarrow> string \<Rightarrow> int \<Rightarrow> qr_error + string" where
  "PNGDataURI qr_new draw content moduleSize =
     (if moduleSize \<le> 0 \<or> moduleSize > 255 then Inl Invalid_module_size
      else case qr_new content of
             None \<Rightarrow> Inl Not_encoded
           | Some code \<Rightarrow>
               (case draw (of_int moduleSize) code of
                  None \<Rightarrow> Inl Not_drawn
                | Some png \<Rightarrow> Inr (dataURIPrefix @ b64_std_encode png)))"

text \<open>The URI carries the PNG, drawn at the size asked for.\<close>

theorem data_uri_carries_png:
  assumes "PNGDataURI qr_new draw content moduleSize = Inr uri"
  shows "\<exists>code png n. qr_new content = Some code \<and> draw n code = Some png \<and> uint n = moduleSize \<and>
    b64_decode (takeWhile (\<lambda>c. c \<noteq> CHR ''='') (drop (length dataURIPrefix) uri)) = Some png"
proof -
  obtain code png where c: "qr_new content = Some code" "draw (of_int moduleSize) code = Some png"
      and u: "uri = dataURIPrefix @ b64_std_encode png" and n: "0 < moduleSize" "moduleSize \<le> 255"
    using assms by (auto simp: PNGDataURI_def split: if_splits option.splits)
  have "uint (of_int moduleSize :: byte) = moduleSize" using n by (simp add: uint_word_of_int)
  moreover have "CHR ''='' \<notin> set (b64_encode png)"
  proof -
    have "\<forall>i \<in> set [0..<64]. b64_symbol i \<noteq> CHR ''=''" by code_simp
    then show ?thesis using b64_indices_less by (fastforce simp: b64_encode_def)
  qed
  then have "takeWhile (\<lambda>c. c \<noteq> CHR ''='') (b64_std_encode png) = b64_encode png"
    by (auto simp: b64_std_encode_def Let_def takeWhile_append takeWhile_eq_Nil_iff)
  ultimately show ?thesis
    using c u b64_roundtrip by auto
qed

end
