(* ===== verification/Photo_Paging.thy ===== *)
theory Photo_Paging
  imports Photo_Repository
begin

text \<open>
  Going through the photos of a backend in pages, the way \<open>ListByBackend\<close> is made for: each page
  starts after the last id of the one before, and its photos are worked on, for instance moved to
  another backend, before the next is read.
\<close>

section \<open>Ids in the order of the database\<close>

instantiation photo_id :: linorder
begin

definition less_eq_photo_id :: "photo_id \<Rightarrow> photo_id \<Rightarrow> bool" where
  "less_eq_photo_id a b \<longleftrightarrow> pid a \<le> pid b"

definition less_photo_id :: "photo_id \<Rightarrow> photo_id \<Rightarrow> bool" where
  "less_photo_id a b \<longleftrightarrow> pid a < pid b"

instance
  by standard (auto simp: less_eq_photo_id_def less_photo_id_def order.strict_iff_order)

end

section \<open>Paging\<close>

text \<open>\<open>page_through\<close> is the loop of a client: \<open>limit\<close> photos a time, the empty page ends it, an error of
  the listing is returned, and \<open>None\<close> says the fuel did not last.\<close>

definition backend_rows :: "storage_backend \<Rightarrow> photo_id \<Rightarrow> media_db \<Rightarrow> photo_row list" where
  "backend_rows b after d = sort_key p_id (filter (\<lambda>r. p_backend r = b \<and> pid after < p_id r) (photo_rows d))"

definition photo_of :: "photo_row \<Rightarrow> photo" where
  "photo_of r = (case scanPhoto r of Inr p \<Rightarrow> p)"

fun page_through ::
    "nat \<Rightarrow> storage_backend \<Rightarrow> photo_id \<Rightarrow> int \<Rightarrow> (photo list \<Rightarrow> media_conn \<Rightarrow> media_conn) \<Rightarrow> media_conn \<Rightarrow>
     (media_error + photo list) option" where
  "page_through 0 b after limit work s = None"
| "page_through (Suc n) b after limit work s =
     (case ListByBackend b after limit s of
        (s, Inl e) \<Rightarrow> Some (Inl e)
      | (s, Inr []) \<Rightarrow> Some (Inr [])
      | (s, Inr (p # ps)) \<Rightarrow>
          map_option (map_sum (\<lambda>e. e) ((@) (p # ps)))
            (page_through n b (ph_id (last (p # ps))) limit work (work (p # ps) s)))"

text \<open>Work that keeps to the photos it is given, on a connection without faults.\<close>

definition keeps_to_page :: "(photo list \<Rightarrow> media_conn \<Rightarrow> media_conn) \<Rightarrow> bool" where
  "keeps_to_page work \<longleftrightarrow>
     (\<forall>ps s. faults s = [] \<longrightarrow> photos_wf (db s) \<longrightarrow>
        faults (work ps s) = [] \<and> photos_wf (db (work ps s)) \<and>
        filter (\<lambda>r. PhotoID (p_id r) \<notin> ph_id ` set ps) (photo_rows (db (work ps s))) =
        filter (\<lambda>r. PhotoID (p_id r) \<notin> ph_id ` set ps) (photo_rows (db s)))"

lemma keeps_to_pageD:
  assumes "keeps_to_page work" and "faults s = []" and "photos_wf (db s)"
  shows "faults (work ps s) = []" and "photos_wf (db (work ps s))"
    and "filter (\<lambda>r. PhotoID (p_id r) \<notin> ph_id ` set ps) (photo_rows (db (work ps s))) =
      filter (\<lambda>r. PhotoID (p_id r) \<notin> ph_id ` set ps) (photo_rows (db s))"
  using assms unfolding keeps_to_page_def by blast+

lemma scanPhotos_valid: "\<forall>r \<in> set rs. Valid_backend (p_backend r) \<Longrightarrow> scanPhotos rs = Inr (map photo_of rs)"
  by (induction rs) (auto simp: photo_of_def scan_valid)

lemma photo_of_id: "Valid_backend (p_backend r) \<Longrightarrow> ph_id (photo_of r) = PhotoID (p_id r)"
  by (simp add: photo_of_def scan_valid)

lemma backend_rows_valid: "photos_wf d \<Longrightarrow> r \<in> set (backend_rows b a d) \<Longrightarrow> Valid_backend (p_backend r)"
  by (auto simp: backend_rows_def photos_wf_def)

lemma ListByBackend_page:
  assumes "faults s = []" and "photos_wf (db s)" and "0 < limit"
  shows "ListByBackend b a limit s = (s, Inr (map photo_of (take (nat limit) (backend_rows b a (db s)))))"
proof -
  have "\<forall>r \<in> set (take (nat limit) (backend_rows b a (db s))). Valid_backend (p_backend r)"
    using backend_rows_valid [OF assms(2)] by (auto dest: in_set_takeD)
  from scanPhotos_valid [OF this] show ?thesis
    using assms(1,3) by (simp add: ListByBackend_def run_sql_no_faults select_def scan_rows_def backend_rows_def)
qed

lemma backend_rows_sorted: "photos_wf d \<Longrightarrow> sorted_wrt (<) (map p_id (backend_rows b a d))"
proof -
  assume "photos_wf d"
  then have "distinct (map p_id (backend_rows b a d))"
    by (simp add: photos_wf_def backend_rows_def distinct_map_filter distinct_map inj_on_def)
  moreover have "sorted (map p_id (backend_rows b a d))" by (simp add: backend_rows_def)
  ultimately show ?thesis by (simp add: strict_sorted_iff)
qed

lemma sorted_map_last: "sorted (map f xs) \<Longrightarrow> x \<in> set xs \<Longrightarrow> (f x :: 'a :: linorder) \<le> f (last xs)"
  by (induction xs) auto

lemma sorted_after_page:
  assumes "sorted_wrt (<) (map f xs)" and "xs \<noteq> []" and "0 < n"
  shows "filter (\<lambda>x. f (last (take n xs)) < (f x :: 'a :: linorder)) xs = drop n xs"
proof -
  let ?t = "take n xs" and ?d = "drop n xs"
  have s: "sorted_wrt (<) (map f ?t @ map f ?d)" using assms(1) by (simp flip: map_append)
  have ne: "?t \<noteq> []" using assms(2,3) by simp
  have "filter (\<lambda>x. f (last ?t) < f x) ?t = []"
  proof -
    have "sorted (map f ?t)" using s by (simp add: sorted_wrt_append strict_sorted_iff)
    then have "f x \<le> f (last ?t)" if "x \<in> set ?t" for x
      using that by (rule sorted_map_last)
    then show ?thesis by (auto simp: filter_empty_conv not_less)
  qed
  moreover have "filter (\<lambda>x. f (last ?t) < f x) ?d = ?d"
    using s ne last_in_set [OF ne] by (auto simp: sorted_wrt_append filter_id_conv)
  ultimately have "filter (\<lambda>x. f (last ?t) < f x) (?t @ ?d) = ?d" by (simp only: filter_append) simp
  then show ?thesis by simp
qed

lemma next_rows:
  assumes "filter (\<lambda>r. PhotoID (p_id r) \<notin> I) (photo_rows d') = filter (\<lambda>r. PhotoID (p_id r) \<notin> I) (photo_rows d)"
    and "\<forall>i \<in> I. i \<le> c" and "pid a \<le> pid c"
  shows "backend_rows b c d' = filter (\<lambda>r. pid c < p_id r) (backend_rows b a d)"
proof -
  let ?P = "\<lambda>r. p_backend r = b \<and> pid c < p_id r" and ?out = "\<lambda>r. PhotoID (p_id r) \<notin> I"
  have out: "?out r" if "?P r" for r :: photo_row
  proof
    assume "PhotoID (p_id r) \<in> I"
    with assms(2) have "PhotoID (p_id r) \<le> c" by (rule bspec)
    then have "p_id r \<le> pid c" by (simp add: less_eq_photo_id_def)
    then show False using that by (simp add: leD)
  qed
  have same: "filter ?P (filter ?out rs) = filter ?P rs" for rs :: "photo_row list"
    unfolding filter_filter by (rule filter_cong [OF refl]) (use out in blast)
  have "filter ?P (photo_rows d') = filter ?P (filter ?out (photo_rows d'))" by (rule same [symmetric])
  also have "\<dots> = filter ?P (filter ?out (photo_rows d))" by (rule arg_cong [OF assms(1)])
  also have "\<dots> = filter ?P (photo_rows d)" by (rule same)
  finally have "filter ?P (photo_rows d') = filter ?P (photo_rows d)" .
  moreover have "filter ?P (photo_rows d) =
      filter (\<lambda>r. pid c < p_id r) (filter (\<lambda>r. p_backend r = b \<and> pid a < p_id r) (photo_rows d))"
    unfolding filter_filter using assms(3) by (intro filter_cong) auto
  ultimately show ?thesis by (simp add: backend_rows_def filter_sort)
qed

text \<open>The last id of a page separates it from the rest.\<close>

lemma page_end:
  fixes d b a defines "rows \<equiv> backend_rows b a d"
  assumes wf: "photos_wf d" and ne: "rows \<noteq> []" and n: "0 < n"
  defines "page \<equiv> map photo_of (take n rows)"
  shows "\<forall>i \<in> ph_id ` set page. i \<le> ph_id (last page)" and "pid a \<le> pid (ph_id (last page))"
    and "filter (\<lambda>r. pid (ph_id (last page)) < p_id r) rows = drop n rows"
proof -
  have ne': "take n rows \<noteq> []" using ne n by simp
  have in_rows: "r \<in> set rows" if "r \<in> set (take n rows)" for r using that by (rule in_set_takeD)
  have ids: "ph_id (photo_of r) = PhotoID (p_id r)" if "r \<in> set (take n rows)" for r
    using photo_of_id backend_rows_valid [OF wf] in_rows [OF that] by (simp add: rows_def)
  have c: "ph_id (last page) = PhotoID (p_id (last (take n rows)))"
    using ids [OF last_in_set [OF ne']] ne' by (simp add: page_def last_map)
  have sorted: "sorted_wrt (<) (map p_id rows)" unfolding rows_def by (rule backend_rows_sorted [OF wf])
  then have "sorted (map p_id (take n rows))" by (simp add: strict_sorted_iff sorted_wrt_take flip: take_map)
  then have "p_id r \<le> p_id (last (take n rows))" if "r \<in> set (take n rows)" for r
    using that by (rule sorted_map_last)
  then show "\<forall>i \<in> ph_id ` set page. i \<le> ph_id (last page)"
    using ids unfolding c by (simp add: page_def less_eq_photo_id_def)
  have "last (take n rows) \<in> set rows" using last_in_set [OF ne'] by (rule in_rows)
  then show "pid a \<le> pid (ph_id (last page))" unfolding c by (auto simp: rows_def backend_rows_def)
  show "filter (\<lambda>r. pid (ph_id (last page)) < p_id r) rows = drop n rows"
    unfolding c pid.simps by (rule sorted_after_page [OF sorted ne n])
qed

lemma page_through_rows:
  assumes "keeps_to_page work" and "0 < limit"
  shows "faults s = [] \<Longrightarrow> photos_wf (db s) \<Longrightarrow> length (backend_rows b a (db s)) < n \<Longrightarrow>
    page_through n b a limit work s = Some (Inr (map photo_of (backend_rows b a (db s))))"
proof (induction n arbitrary: a s)
  case 0
  from 0(3) show ?case by (simp only: not_less_zero)
next
  case (Suc n)
  let ?rows = "backend_rows b a (db s)"
  let ?page = "take (nat limit) ?rows"
  note list = ListByBackend_page [OF Suc.prems(1,2) assms(2), of b a]
  show ?case
  proof (cases "?rows = []")
    case True
    then show ?thesis using list by simp
  next
    case False
    have pos: "0 < nat limit" using assms(2) by simp
    then have "map photo_of ?page \<noteq> []" using False by simp
    then obtain p ps where page: "map photo_of ?page = p # ps" unfolding neq_Nil_conv by (elim exE)
    let ?s = "work (p # ps) s" and ?c = "ph_id (last (p # ps))"
    note pe = page_end [OF Suc.prems(2) False pos, unfolded page]
    note work = keeps_to_pageD [OF assms(1) Suc.prems(1,2), of "p # ps"]
    have rest: "backend_rows b ?c (db ?s) = drop (nat limit) ?rows"
      unfolding pe(3) [symmetric] by (rule next_rows [OF work(3) pe(1,2)])
    from False have "0 < length ?rows" by (rule length_greater_0_conv [THEN iffD2])
    with rest have "length (backend_rows b ?c (db ?s)) < n"
      using Suc.prems(3) assms(2) by (simp only: length_drop)
    from Suc.IH [OF work(1,2) this]
    have "page_through n b ?c limit work ?s = Some (Inr (map photo_of (drop (nat limit) ?rows)))"
      unfolding rest .
    moreover have "map photo_of ?rows = (p # ps) @ map photo_of (drop (nat limit) ?rows)"
      unfolding page [symmetric] by (simp flip: map_append)
    moreover have "ListByBackend b a limit s = (s, Inr (p # ps))"
      using list unfolding page .
    ultimately show ?thesis by simp
  qed
qed

theorem paging_visits_each_photo_once:
  assumes "keeps_to_page work" and "0 < limit" and "faults s = []" and "photos_wf (db s)"
    and "length (photo_rows (db s)) < n"
  shows "\<exists>ps. page_through n b after limit work s = Some (Inr ps) \<and> sorted_wrt (<) (map ph_id ps) \<and>
    set (map ph_id ps) = {i. after < i \<and> (\<exists>r \<in> set (photo_rows (db s)). p_backend r = b \<and> PhotoID (p_id r) = i)}"
proof -
  let ?rows = "backend_rows b after (db s)"
  have "length ?rows < n"
    using assms(5) le_less_trans [OF length_filter_le] by (auto simp: backend_rows_def)
  from page_through_rows [OF assms(1-4) this]
  have "page_through n b after limit work s = Some (Inr (map photo_of ?rows))" .
  moreover have ids: "map ph_id (map photo_of ?rows) = map PhotoID (map p_id ?rows)"
    using photo_of_id backend_rows_valid [OF assms(4)] by simp
  moreover have "sorted_wrt (<) (map PhotoID (map p_id ?rows))"
    using backend_rows_sorted [OF assms(4)] by (simp add: sorted_wrt_map less_photo_id_def)
  moreover have "set (map PhotoID (map p_id ?rows)) =
      {i. after < i \<and> (\<exists>r \<in> set (photo_rows (db s)). p_backend r = b \<and> PhotoID (p_id r) = i)}"
    by (auto simp: backend_rows_def less_photo_id_def)
  ultimately show ?thesis by metis
qed

section \<open>Moving a backend's photos to another\<close>

text \<open>Each photo of the page is flipped to the reference, backend and content hash \<open>target\<close> gives for
  it; a refused flip leaves its row as it was, and the pass goes on.\<close>

definition move_page ::
    "(photo \<Rightarrow> storage_ref \<times> storage_backend \<times> string) \<Rightarrow> photo list \<Rightarrow> media_conn \<Rightarrow> media_conn" where
  "move_page target ps s =
     fold (\<lambda>p s. case target p of (ref, b, hash) \<Rightarrow> fst (MigrateStorageBackend (ph_id p) ref b hash s)) ps s"

lemma sql_migrate_others:
  assumes "sql_migrate_photo i ref b sm d now = Inr (d', n)"
  shows "filter (\<lambda>r. p_id r \<noteq> i) (photo_rows d') = filter (\<lambda>r. p_id r \<noteq> i) (photo_rows d)"
proof -
  have others: "filter Q (update_where hit f rows) = filter Q rows"
    if "\<And>r. hit r \<Longrightarrow> \<not> Q r \<and> \<not> Q (f r)" for Q hit :: "photo_row \<Rightarrow> bool" and f rows
    using that by (induction rows) (auto simp: update_where_def)
  from assms show ?thesis
    by (auto simp: sql_migrate_photo_def Let_def put_photos_Inr split: sum.splits intro!: others)
qed

lemma migrate_one:
  assumes "faults s = []"
  shows "faults (fst (MigrateStorageBackend i ref b hash s)) = []"
    and "filter (\<lambda>r. PhotoID (p_id r) \<noteq> i) (photo_rows (db (fst (MigrateStorageBackend i ref b hash s)))) =
      filter (\<lambda>r. PhotoID (p_id r) \<noteq> i) (photo_rows (db s))"
proof -
  let ?q = "sql_migrate_photo (pid i) ref b (nullableText hash) (db s) (clock s)"
  have i: "PhotoID u \<noteq> i \<longleftrightarrow> u \<noteq> pid i" for u by (cases i) simp
  have "fst (MigrateStorageBackend i ref b hash s) = s \<or>
      (\<exists>d' n. ?q = Inr (d', n) \<and> fst (MigrateStorageBackend i ref b hash s) = s\<lparr>db := d'\<rparr>)"
    using assms by (cases ?q) (auto simp: MigrateStorageBackend_def run_sql_no_faults)
  then show "faults (fst (MigrateStorageBackend i ref b hash s)) = []"
    and "filter (\<lambda>r. PhotoID (p_id r) \<noteq> i) (photo_rows (db (fst (MigrateStorageBackend i ref b hash s)))) =
      filter (\<lambda>r. PhotoID (p_id r) \<noteq> i) (photo_rows (db s))"
    unfolding i using assms by (auto dest: sql_migrate_others)
qed

lemma move_page_keeps_to_page: "keeps_to_page (move_page target)"
proof -
  have "faults (move_page target ps s) = [] \<and> photos_wf (db (move_page target ps s)) \<and>
      filter (\<lambda>r. PhotoID (p_id r) \<notin> ph_id ` set ps) (photo_rows (db (move_page target ps s))) =
      filter (\<lambda>r. PhotoID (p_id r) \<notin> ph_id ` set ps) (photo_rows (db s))"
    if "faults s = []" "photos_wf (db s)" for ps s
    using that
  proof (induction ps arbitrary: s)
    case Nil
    then show ?case by (simp add: move_page_def)
  next
    case (Cons p ps)
    obtain ref b hash where t: "target p = (ref, b, hash)" by (cases "target p")
    let ?s = "fst (MigrateStorageBackend (ph_id p) ref b hash s)"
    have step: "move_page target (p # ps) s = move_page target ps ?s" by (simp add: move_page_def t)
    note one = migrate_one [OF Cons.prems(1), of "ph_id p" ref b hash]
    have wf: "photos_wf (db ?s)" using writes_keep(3) [of s "ph_id p" ref b hash] Cons.prems(2) by blast
    note rest = Cons.IH [OF one(1) wf]
    have split: "filter (\<lambda>r. PhotoID (p_id r) \<notin> ph_id ` set (p # ps)) rs =
        filter (\<lambda>r. PhotoID (p_id r) \<notin> ph_id ` set ps) (filter (\<lambda>r. PhotoID (p_id r) \<noteq> ph_id p) rs)"
      "filter (\<lambda>r. PhotoID (p_id r) \<notin> ph_id ` set (p # ps)) rs =
        filter (\<lambda>r. PhotoID (p_id r) \<noteq> ph_id p) (filter (\<lambda>r. PhotoID (p_id r) \<notin> ph_id ` set ps) rs)"
      for rs :: "photo_row list"
      unfolding filter_filter by (rule filter_cong [OF refl], auto)+
    have "filter (\<lambda>r. PhotoID (p_id r) \<notin> ph_id ` set (p # ps)) (photo_rows (db (move_page target ps ?s))) =
        filter (\<lambda>r. PhotoID (p_id r) \<notin> ph_id ` set (p # ps)) (photo_rows (db ?s))"
      unfolding split(2) using rest by simp
    also have "\<dots> = filter (\<lambda>r. PhotoID (p_id r) \<notin> ph_id ` set (p # ps)) (photo_rows (db s))"
      unfolding split(1) using one(2) by simp
    finally show ?case unfolding step using rest by blast
  qed
  then show ?thesis unfolding keeps_to_page_def by blast
qed

text \<open>C25: Moving a backend's photos in pages of any size, each flipped by
  \<open>MigrateStorageBackend\<close> before the next page is read with \<open>ListByBackend\<close>, ends after every photo the
  backend had after the starting id has been given to the mover exactly once, in the order of ids:
  the rows that leave the backend on the way make the pass neither skip nor repeat a photo.\<close>

theorem migration_visits_each_photo_once:
  assumes "0 < limit" and "faults s = []" and "photos_wf (db s)" and "length (photo_rows (db s)) < n"
  shows "\<exists>ps. page_through n b after limit (move_page target) s = Some (Inr ps) \<and> sorted_wrt (<) (map ph_id ps) \<and>
    set (map ph_id ps) = {i. after < i \<and> (\<exists>r \<in> set (photo_rows (db s)). p_backend r = b \<and> PhotoID (p_id r) = i)}"
  by (rule paging_visits_each_photo_once [OF move_page_keeps_to_page assms])

definition paging_sample :: media_conn where
  "paging_sample =
     (let row = (\<lambda>i. \<lparr>p_id = i, p_household = 7, p_ref = ''a'', p_backend = StorageBackendLocal, p_hash = None,
                     p_size = 1, p_type = ''image/png'', p_taken = None, p_uploaded = None, p_created = 0\<rparr>)
      in \<lparr>db = \<lparr>photo_identity = \<lparr>households = [\<lparr>hh_id = 7, hh_name = ''h'', hh_created = 0, hh_updated = 0\<rparr>],
                                  members = [], mfas = [], codes = [], passkeys = [], lower_fn = (\<lambda>x. x)\<rparr>,
                photo_rows = [row 3, row 1, row 2]\<rparr>,
          clock = 0, faults = [], uuids = (\<lambda>_. 0), uuids_used = 0\<rparr>)"

lemma migration_visits_each_photo_once_witness:
  "\<exists>ps. page_through 4 StorageBackendLocal (PhotoID 1) 1 (move_page (\<lambda>p. (''b'', StorageBackendS3, []))) paging_sample =
      Some (Inr ps) \<and> sorted_wrt (<) (map ph_id ps) \<and> set (map ph_id ps) = {PhotoID 2, PhotoID 3}"
proof -
  have wf: "photos_wf (db paging_sample)"
    by (simp add: paging_sample_def photos_wf_def hash_keys_def List.map_filter_def household_exists_def uploader_ok_def
        Valid_backend_def Let_def)
  have small: "length (photo_rows (db paging_sample)) < 4" "faults paging_sample = []"
    by (simp_all add: paging_sample_def)
  have rows: "{i. PhotoID 1 < i \<and> (\<exists>r \<in> set (photo_rows (db paging_sample)).
      p_backend r = StorageBackendLocal \<and> PhotoID (p_id r) = i)} = {PhotoID 2, PhotoID 3}"
    by (auto simp: paging_sample_def less_photo_id_def)
  from migration_visits_each_photo_once [OF zero_less_one small(2) wf small(1), of StorageBackendLocal "PhotoID 1"
      "\<lambda>p. (''b'', StorageBackendS3, [])"]
  show ?thesis unfolding rows .
qed

end
