(* ===== verification/Ui_Components.thy ===== *)
theory Ui_Components
  imports Render Static_Assets
begin

text \<open>
  The components of the application shell, \<open>ui/components\<close>: the templ-generated code of
  \<open>layout_templ.go\<close> and \<open>navpill_templ.go\<close>. The functions of the templ runtime they call are an
  argument; the generated code renders into the buffer of \<open>render/render.go\<close>, whose writes do not
  fail, and a context does not change while a component renders.
\<close>

section \<open>The templ runtime\<close>

text \<open>\<open>None\<close> and \<open>False\<close> are errors. \<open>tp_text\<close> is \<open>JoinStringErrs\<close>, \<open>tp_url\<close> is \<open>JoinURLErrs\<close>,
  \<open>tp_attr\<close> is \<open>ResolveAttributeValue\<close>, \<open>tp_css\<close> is \<open>RenderCSSItems\<close>.\<close>

record 'c templ_lib =
  tp_err :: "'c \<Rightarrow> bool"
  tp_initialize :: "'c \<Rightarrow> 'c"
  tp_clear_children :: "'c \<Rightarrow> 'c"
  tp_text :: "string \<Rightarrow> string option"
  tp_url :: "string \<Rightarrow> string option"
  tp_attr :: "string \<Rightarrow> string option"
  tp_escape :: "string \<Rightarrow> string"
  tp_css :: "'c \<Rightarrow> string list \<Rightarrow> bytes \<times> bool"
  tp_classes :: "string list \<Rightarrow> string"

type_synonym rendered = "bytes \<times> bool"

definition html :: "string \<Rightarrow> rendered" where
  "html s = (bytes_of s, True)"

text \<open>Each write is followed by a return of its error.\<close>

definition and_then :: "rendered \<Rightarrow> rendered \<Rightarrow> rendered" where
  "and_then a b = (if snd a then (fst a @ fst b, snd b) else a)"

definition in_order :: "rendered list \<Rightarrow> rendered" where
  "in_order parts = foldr and_then parts ([], True)"

definition escaped :: "'c templ_lib \<Rightarrow> string option \<Rightarrow> rendered" where
  "escaped lib v = (case v of None \<Rightarrow> ([], False) | Some s \<Rightarrow> html (tp_escape lib s))"

definition attribute :: "'c templ_lib \<Rightarrow> string \<Rightarrow> rendered" where
  "attribute lib v = (case tp_attr lib v of None \<Rightarrow> ([], False) | Some s \<Rightarrow> html s)"

definition slot :: "'c component option \<Rightarrow> 'c component" where
  "slot c ctx = (case c of None \<Rightarrow> ([], True) | Some c \<Rightarrow> c ctx)"

definition generated_template :: "'c templ_lib \<Rightarrow> 'c component \<Rightarrow> 'c component" where
  "generated_template lib body ctx =
     (if tp_err lib ctx then ([], False) else body (tp_clear_children lib (tp_initialize lib ctx)))"

section \<open>The navigation pill\<close>

definition pill_html_1 :: string where
  "pill_html_1 =
    ''<a href=\"''"

definition pill_html_2 :: string where
  "pill_html_2 =
    ''\" class=\"''"

definition pill_html_3 :: string where
  "pill_html_3 =
    ''\"''"

definition pill_html_4 :: string where
  "pill_html_4 =
    '' aria-current=\"page\"''"

definition pill_html_5 :: string where
  "pill_html_5 =
    ''>''"

definition pill_html_6 :: string where
  "pill_html_6 =
    ''</a>''"
definition navPillClass :: "bool \<Rightarrow> string" where
  "navPillClass active =
     (if active then ''bg-primary-tint text-primary-deep'' else ''text-text-secondary hover:bg-sidebar-accent'')"

definition NavPill :: "'c templ_lib \<Rightarrow> string \<Rightarrow> string \<Rightarrow> bool \<Rightarrow> 'c component" where
  "NavPill lib label href active = generated_template lib (\<lambda>ctx.
     let classes = [''block rounded-control px-3 py-2 font-medium transition-colors'', navPillClass active]
     in in_order
          [tp_css lib ctx classes,
           html pill_html_1, escaped lib (tp_url lib href),
           html pill_html_2, attribute lib (tp_classes lib classes),
           html pill_html_3,
           if active then html pill_html_4 else html [],
           html pill_html_5, escaped lib (tp_text lib label),
           html pill_html_6])"

section \<open>The shell\<close>

record nav_item =
  ni_label :: string
  ni_href :: string
  ni_active :: bool

text \<open>An empty component slot is \<open>None\<close>.\<close>

record 'c shell_props =
  AppName :: string
  FaviconHref :: string
  ThemeColor :: string
  StylesheetHref :: string
  HeadExtras :: "'c component option"
  SidebarBrand :: "'c component option"
  SidebarExtra :: "'c component option"
  SidebarFooter :: "'c component option"

definition layout_html_1 :: string where
  "layout_html_1 =
    ''<!doctype html><html lang=\"en\"><head><meta charset=\"utf-8\"><meta name=\"viewport\" content=\"width=device-width, '' @
    ''initial-scale=1\"><title>''"

definition layout_html_2 :: string where
  "layout_html_2 =
    ''</title>''"

definition layout_html_3 :: string where
  "layout_html_3 =
    ''<link rel=\"icon\" href=\"''"

definition layout_html_4 :: string where
  "layout_html_4 =
    ''\">''"

definition layout_html_5 :: string where
  "layout_html_5 =
    ''<meta name=\"theme-color\" content=\"''"

definition layout_html_6 :: string where
  "layout_html_6 =
    ''\">''"

definition layout_html_7 :: string where
  "layout_html_7 =
    ''<link rel=\"stylesheet\" href=\"''"

definition layout_html_8 :: string where
  "layout_html_8 =
    ''\">''"

definition layout_html_9 :: string where
  "layout_html_9 =
    ''<!-- htmx by default never swaps a 4xx/5xx response into the DOM (see'' @
    [CHR 0x0A, CHR 0x09, CHR 0x09, CHR 0x09] @ ''     htmx'' @ [CHR 0x27] @
    ''s own QUIRKS.md, \"By Default 4xx & 5xx Responses Do Not'' @ [CHR 0x0A, CHR 0x09, CHR 0x09, CHR 0x09] @
    ''     Swap\"). This shell configures htmx to swap 422 too, since a'' @
    [CHR 0x0A, CHR 0x09, CHR 0x09, CHR 0x09] @
    ''     validation-style rejection at 422 is a common pattern across'' @
    [CHR 0x0A, CHR 0x09, CHR 0x09, CHR 0x09] @
    ''     both apps for re-rendering a fragment with an inline error'' @
    [CHR 0x0A, CHR 0x09, CHR 0x09, CHR 0x09] @
    ''     message; every other status keeps its default (no-swap-on-error)'' @
    [CHR 0x0A, CHR 0x09, CHR 0x09, CHR 0x09] @ ''     behavior. --><meta name=\"htmx-config\" content=\"''"

definition htmx_config :: string where
  "htmx_config =
    ''{\"responseHandling\":[{\"code\":\"204\",\"swap\":false},{\"code\":\"[23]..\",\"swap\":true},{\"code\":\"422\",\"swap\":true},{\"code\":\"[45]..\",\"swap\":false,\"error\":true},{\"code\":\"...\",\"swap\":false}]}''"

definition layout_html_10 :: string where
  "layout_html_10 =
    ''\"><script src=\"''"

definition layout_html_11 :: string where
  "layout_html_11 =
    ''\" defer></script>''"

definition layout_html_12 :: string where
  "layout_html_12 =
    ''<!-- Alpine dispatches '' @ [CHR 0x27] @ ''alpine:init'' @ [CHR 0x27] @
    '' as soon as ITS OWN deferred script'' @ [CHR 0x0A, CHR 0x09, CHR 0x09, CHR 0x09] @ ''     runs '' @
    [CHR 0xE2, CHR 0x80, CHR 0x94] @ '' not on DOMContentLoaded '' @ [CHR 0xE2, CHR 0x80, CHR 0x94] @
    '' so any extension script that'' @ [CHR 0x0A, CHR 0x09, CHR 0x09, CHR 0x09] @
    ''     registers Alpine.data must load and run before this tag (that'' @ [CHR 0x27] @ ''s'' @
    [CHR 0x0A, CHR 0x09, CHR 0x09, CHR 0x09] @
    ''     why HeadExtras is positioned immediately above, not below). --><script src=\"''"

definition layout_html_13 :: string where
  "layout_html_13 =
    ''\" defer></script></head><body class=\"bg-canvas font-sans text-text min-h-screen\" x-data=\"{ '' @
    ''open: false }\" @keydown.escape.window=\"if (open) { open = false; $refs.navToggle.focus() '' @
    ''}\" @resize.window=\"if (open && window.innerWidth >= 768) open = false\"><a href=\"#main-content\" '' @
    ''class=\"sr-only focus:not-sr-only focus:absolute focus:left-3 focus:top-3 focus:z-50 focus:rounded-control '' @
    ''focus:bg-primary focus:px-3 focus:py-2 focus:text-white\">Skip to content</a><!-- Narrow-screen '' @
    ''drawer toggle (hidden once the sidebar is fixed).'' @ [CHR 0x0A, CHR 0x09, CHR 0x09, CHR 0x09] @
    ''     Opening moves focus into the drawer; closing returns it here. --><button type=\"button\" '' @
    ''x-ref=\"navToggle\" class=\"fixed left-3 top-3 z-40 inline-flex h-10 w-10 items-center justify-center '' @
    ''rounded-control bg-sidebar shadow-sm md:hidden\" @click=\"open = true; $nextTick(() => '' @
    ''$refs.navPanel.focus())\" aria-label=\"Open navigation\" aria-controls=\"sidebar\" :aria-expanded=\"open\"><span '' @
    ''aria-hidden=\"true\">&#9776;</span></button><!-- Click-away overlay shown with the drawer '' @
    ''on narrow screens. This is'' @ [CHR 0x0A, CHR 0x09, CHR 0x09, CHR 0x09] @
    ''     a pointer-only convenience: it carries no accessible name and isn'' @ [CHR 0x27] @ ''t'' @
    [CHR 0x0A, CHR 0x09, CHR 0x09, CHR 0x09] @ ''     reachable by keyboard, so it'' @ [CHR 0x27] @
    ''s marked aria-hidden to keep assistive'' @ [CHR 0x0A, CHR 0x09, CHR 0x09, CHR 0x09] @
    ''     tech from exposing it as an ambiguous interactive element. Keyboard'' @
    [CHR 0x0A, CHR 0x09, CHR 0x09, CHR 0x09] @
    ''     users close the drawer via the Escape handler on <body> above. --><div x-show=\"open\" '' @
    ''x-cloak @click=\"open = false; $refs.navToggle.focus()\" class=\"fixed inset-0 z-30 bg-text/30 '' @
    ''md:hidden\" aria-hidden=\"true\"></div>''"

definition layout_html_14 :: string where
  "layout_html_14 =
    ''<!-- inert disables the main content behind the open drawer so keyboard'' @
    [CHR 0x0A, CHR 0x09, CHR 0x09, CHR 0x09] @
    ''     focus cannot escape the modal drawer (WCAG 2.4.3). --><main id=\"main-content\" class=\"bg-surface '' @
    ''min-h-screen md:ml-[var(--hearth-sidebar-width)]\" :inert=\"open\">''"

definition layout_html_15 :: string where
  "layout_html_15 =
    ''</main></body></html>''"

definition layout_html_16 :: string where
  "layout_html_16 =
    ''<aside id=\"sidebar\" x-ref=\"navPanel\" tabindex=\"-1\" class=\"fixed inset-y-0 left-0 z-40 '' @
    ''flex w-[var(--hearth-sidebar-width)] -translate-x-full flex-col gap-4 overflow-y-auto '' @
    ''border-r border-border-strong bg-sidebar p-4 transition-transform outline-none md:translate-x-0\" '' @
    '':class=\"open ? '' @ [CHR 0x27] @ ''translate-x-0'' @ [CHR 0x27] @ '' : '' @ [CHR 0x27, CHR 0x27] @
    ''\">''"

definition layout_html_17 :: string where
  "layout_html_17 =
    ''<div class=\"flex items-center gap-2 px-1\"><span class=\"text-lg font-semibold\">''"

definition layout_html_18 :: string where
  "layout_html_18 =
    ''</span></div>''"

definition layout_html_19 :: string where
  "layout_html_19 =
    ''<nav class=\"flex flex-col gap-1\" aria-label=\"Primary\">''"

definition layout_html_20 :: string where
  "layout_html_20 =
    ''</nav>''"

definition layout_html_21 :: string where
  "layout_html_21 =
    ''<!-- mt-auto pins the footer slot to the sidebar'' @ [CHR 0x27] @ ''s bottom cluster'' @
    [CHR 0x0A, CHR 0x09, CHR 0x09] @ ''     regardless of how much the sections above grow. -->''"

definition layout_html_22 :: string where
  "layout_html_22 =
    ''<div class=\"mt-auto flex flex-col gap-2\">''"

definition layout_html_23 :: string where
  "layout_html_23 =
    ''</div>''"

definition layout_html_24 :: string where
  "layout_html_24 =
    ''</aside>''"
definition sidebar_parts :: "'c templ_lib \<Rightarrow> 'c shell_props \<Rightarrow> nav_item list \<Rightarrow> 'c \<Rightarrow> rendered list" where
  "sidebar_parts lib props nav ctx =
     [html layout_html_16,
      case SidebarBrand props of
        Some c \<Rightarrow> c ctx
      | None \<Rightarrow> in_order [html layout_html_17, escaped lib (tp_text lib (AppName props)), html layout_html_18],
      html layout_html_19,
      in_order (map (\<lambda>item. NavPill lib (ni_label item) (ni_href item) (ni_active item) ctx) nav),
      html layout_html_20,
      slot (SidebarExtra props) ctx,
      html layout_html_21,
      case SidebarFooter props of
        Some c \<Rightarrow> in_order [html layout_html_22, c ctx, html layout_html_23]
      | None \<Rightarrow> html [],
      html layout_html_24]"

definition sidebar :: "'c templ_lib \<Rightarrow> 'c shell_props \<Rightarrow> nav_item list \<Rightarrow> 'c component" where
  "sidebar lib props nav = generated_template lib (\<lambda>ctx. in_order (sidebar_parts lib props nav ctx))"

text \<open>\<open>Layout\<close> up to the end of the head, and the rest.\<close>

definition layout_head :: "'c templ_lib \<Rightarrow> 'c shell_props \<Rightarrow> 'c \<Rightarrow> rendered list" where
  "layout_head lib props ctx =
     [html layout_html_1, escaped lib (tp_text lib (AppName props)), html layout_html_2,
      if FaviconHref props \<noteq> [] then in_order [html layout_html_3, escaped lib (tp_url lib (FaviconHref props)), html layout_html_4]
      else html [],
      if ThemeColor props \<noteq> [] then in_order [html layout_html_5, attribute lib (ThemeColor props), html layout_html_6]
      else html [],
      if StylesheetHref props \<noteq> []
      then in_order [html layout_html_7, escaped lib (tp_url lib (StylesheetHref props)), html layout_html_8]
      else html [],
      html layout_html_9, attribute lib htmx_config,
      html layout_html_10, attribute lib (MountPath @ ''js/htmx.min.js''),
      html layout_html_11,
      slot (HeadExtras props) ctx,
      html layout_html_12, attribute lib (MountPath @ ''js/alpine.min.js'')]"

definition layout_body ::
    "'c templ_lib \<Rightarrow> 'c shell_props \<Rightarrow> nav_item list \<Rightarrow> 'c component \<Rightarrow> 'c \<Rightarrow> rendered list" where
  "layout_body lib props nav content ctx =
     [html layout_html_13, sidebar lib props nav ctx,
      html layout_html_14, content ctx,
      html layout_html_15]"

definition Layout :: "'c templ_lib \<Rightarrow> 'c shell_props \<Rightarrow> nav_item list \<Rightarrow> 'c component \<Rightarrow> 'c component" where
  "Layout lib props nav content = generated_template lib (\<lambda>ctx.
     in_order (layout_head lib props ctx @ layout_body lib props nav content ctx))"

section \<open>Text cannot become markup\<close>

text \<open>The characters that open, close and delimit tags and attribute values.\<close>

definition markup :: "bytes \<Rightarrow> bytes" where
  "markup = filter (\<lambda>b. b \<in> set (bytes_of ''<>\"''))"

text \<open>templ documents that text and attribute values come out escaped.\<close>

definition escapes :: "'c templ_lib \<Rightarrow> bool" where
  "escapes lib \<longleftrightarrow>
     (\<forall>s. markup (bytes_of (tp_escape lib s)) = []) \<and>
     (\<forall>s v. tp_attr lib s = Some v \<longrightarrow> markup (bytes_of v) = [])"

definition same_markup :: "rendered \<Rightarrow> rendered \<Rightarrow> bool" where
  "same_markup a b \<longleftrightarrow> (snd a \<longrightarrow> snd b \<longrightarrow> markup (fst a) = markup (fst b))"

lemma same_markup_refl [simp, intro]: "same_markup a a" by (simp add: same_markup_def)

lemma in_order_simps [simp]:
  "in_order [] = ([], True)" "in_order (a # as) = and_then a (in_order as)"
  by (simp_all add: in_order_def)

lemma and_then_same: "same_markup a b \<Longrightarrow> same_markup as bs \<Longrightarrow> same_markup (and_then a as) (and_then b bs)"
  by (auto simp: same_markup_def and_then_def markup_def)

lemma in_order_same: "list_all2 same_markup as bs \<Longrightarrow> same_markup (in_order as) (in_order bs)"
  by (induction rule: list_all2_induct) (auto intro: and_then_same)

lemma escaped_same: "escapes lib \<Longrightarrow> same_markup (escaped lib v) (escaped lib w)"
  by (auto simp: escapes_def same_markup_def escaped_def html_def split: option.splits)

lemma attribute_same: "escapes lib \<Longrightarrow> same_markup (attribute lib v) (attribute lib w)"
  by (auto simp: escapes_def same_markup_def attribute_def html_def split: option.splits)

lemma generated_same:
  "(\<And>ctx. same_markup (f ctx) (g ctx)) \<Longrightarrow> same_markup (generated_template lib f ctx) (generated_template lib g ctx)"
  by (auto simp: generated_template_def)

lemmas same_intros = in_order_same escaped_same attribute_same generated_same

lemma NavPill_same:
  assumes "escapes lib"
  shows "same_markup (NavPill lib l h a ctx) (NavPill lib l' h' a ctx)"
  unfolding NavPill_def Let_def using escaped_same [OF assms] by (intro generated_same in_order_same) simp

text \<open>Two shells of one shape: the same optional parts are present, the slots hold the same
  components, and the same entries of the navigation are active.\<close>

definition same_shape :: "'c shell_props \<Rightarrow> nav_item list \<Rightarrow> 'c shell_props \<Rightarrow> nav_item list \<Rightarrow> bool" where
  "same_shape p nav p' nav' \<longleftrightarrow>
     (FaviconHref p = [] \<longleftrightarrow> FaviconHref p' = []) \<and> (ThemeColor p = [] \<longleftrightarrow> ThemeColor p' = []) \<and>
     (StylesheetHref p = [] \<longleftrightarrow> StylesheetHref p' = []) \<and>
     HeadExtras p = HeadExtras p' \<and> SidebarBrand p = SidebarBrand p' \<and> SidebarExtra p = SidebarExtra p' \<and>
     SidebarFooter p = SidebarFooter p' \<and> map ni_active nav = map ni_active nav'"

lemma pills_same:
  assumes "escapes lib"
  shows "map ni_active nav = map ni_active nav' \<Longrightarrow>
    same_markup (in_order (map (\<lambda>i. NavPill lib (ni_label i) (ni_href i) (ni_active i) ctx) nav))
      (in_order (map (\<lambda>i. NavPill lib (ni_label i) (ni_href i) (ni_active i) ctx) nav'))"
proof (induction nav arbitrary: nav')
  case (Cons i nav)
  then obtain j nav'' where "nav' = j # nav''" "ni_active j = ni_active i" "map ni_active nav = map ni_active nav''"
    by (cases nav') auto
  then show ?case using Cons.IH NavPill_same [OF assms] by (auto intro: and_then_same)
qed simp

lemma sidebar_same:
  assumes "escapes lib" and "same_shape p nav p' nav'"
  shows "same_markup (sidebar lib p nav ctx) (sidebar lib p' nav' ctx)"
  unfolding sidebar_def
proof (intro generated_same in_order_same)
  fix ctx
  have "map ni_active nav = map ni_active nav'" using assms(2) by (simp add: same_shape_def)
  note pills_same [OF assms(1) this, of ctx]
  moreover have "same_markup (in_order [html layout_html_17, escaped lib v, html layout_html_18])
      (in_order [html layout_html_17, escaped lib w, html layout_html_18])" for v w
    by (rule in_order_same) (simp add: escaped_same [OF assms(1)])
  ultimately show "list_all2 same_markup (sidebar_parts lib p nav ctx) (sidebar_parts lib p' nav' ctx)"
    using assms(2) by (auto simp: sidebar_parts_def same_shape_def simp del: in_order_simps split: option.split)
qed

lemma head_same:
  assumes "escapes lib" and "same_shape p nav p' nav'"
  shows "list_all2 same_markup (layout_head lib p ctx) (layout_head lib p' ctx)"
proof -
  note [simp] = escaped_same [OF assms(1)] attribute_same [OF assms(1)]
  have "same_markup (in_order [html a, escaped lib v, html b]) (in_order [html a, escaped lib w, html b])"
    and "same_markup (in_order [html a, attribute lib x, html b]) (in_order [html a, attribute lib y, html b])"
    for a b v w x y by (rule in_order_same, simp)+
  then show ?thesis using assms(2) by (auto simp: layout_head_def same_shape_def simp del: in_order_simps)
qed

text \<open>C39: What an application puts into the shell as text cannot become markup: for two shells of one
  shape whose names, links, colours and navigation entries differ in any way, the rendered pages have
  the same sequence of characters that open, close and delimit tags and attribute values.\<close>

theorem shell_text_is_no_markup:
  assumes "escapes lib" and "same_shape p nav p' nav'"
    and "Layout lib p nav content ctx = (out, True)" and "Layout lib p' nav' content ctx = (out', True)"
  shows "markup out = markup out'"
proof -
  have "list_all2 same_markup (layout_body lib p nav content c) (layout_body lib p' nav' content c)" for c
    by (simp add: layout_body_def sidebar_same [OF assms(1,2)])
  then have "same_markup (Layout lib p nav content ctx) (Layout lib p' nav' content ctx)"
    unfolding Layout_def by (intro generated_same in_order_same list_all2_appendI head_same [OF assms(1,2)])
  then show ?thesis using assms(3,4) by (simp add: same_markup_def)
qed

definition html_escape :: "string \<Rightarrow> string" where
  "html_escape s = string_of (concat (map (\<lambda>b.
     if b = 0x26 then bytes_of ''&amp;'' else if b = 0x3C then bytes_of ''&lt;'' else if b = 0x3E then bytes_of ''&gt;''
     else if b = 0x22 then bytes_of ''&#34;'' else if b = 0x27 then bytes_of ''&#39;'' else [b]) (bytes_of s)))"

definition sample_templ :: "unit templ_lib" where
  "sample_templ =
     \<lparr>tp_err = (\<lambda>_. False), tp_initialize = (\<lambda>c. c), tp_clear_children = (\<lambda>c. c), tp_text = Some, tp_url = Some,
      tp_attr = (\<lambda>s. Some (html_escape s)), tp_escape = html_escape, tp_css = (\<lambda>_ _. ([], True)), tp_classes = concat\<rparr>"

lemma bytes_of_string_of: "bytes_of (string_of b) = b"
proof -
  have "unat x < 2 ^ LENGTH(8)" for x :: byte by (rule unsigned_less)
  then have "(of_nat (byte_at (char_of (unat x))) :: byte) = x" for x :: byte
    by (simp add: take_bit_nat_eq_self)
  then show ?thesis by (simp add: string_of_def bytes_of_def map_idI)
qed

lemma sample_templ_escapes: "escapes sample_templ"
proof -
  have "markup (bytes_of (html_escape s)) = []" for s
    unfolding html_escape_def bytes_of_string_of markup_def
    by (induction s) (auto simp: bytes_of_def)
  then show ?thesis by (simp add: escapes_def sample_templ_def)
qed

lemma shell_text_is_no_markup_witness:
  "let shell = (\<lambda>name. \<lparr>AppName = name, FaviconHref = [], ThemeColor = name, StylesheetHref = ''/app.css'',
                   HeadExtras = None, SidebarBrand = None, SidebarExtra = None, SidebarFooter = None\<rparr>);
       page = (\<lambda>name. Layout sample_templ (shell name) [\<lparr>ni_label = name, ni_href = ''/'', ni_active = True\<rparr>] (\<lambda>_. ([], True)) ())
   in markup (fst (page ''</title><script>'')) = markup (fst (page ''Nest''))"
proof -
  let ?shell = "\<lambda>name. \<lparr>AppName = name, FaviconHref = [], ThemeColor = name, StylesheetHref = ''/app.css'',
      HeadExtras = None, SidebarBrand = None, SidebarExtra = None, SidebarFooter = None\<rparr>"
  let ?nav = "\<lambda>name. [\<lparr>ni_label = name, ni_href = ''/'', ni_active = True\<rparr>]"
  have whole: "Layout sample_templ (?shell name) (?nav name) (\<lambda>_. ([], True)) () =
      (fst (Layout sample_templ (?shell name) (?nav name) (\<lambda>_. ([], True)) ()), True)" for name
    by (simp add: prod_eq_iff Layout_def layout_head_def layout_body_def sidebar_def sidebar_parts_def NavPill_def
        generated_template_def and_then_def escaped_def attribute_def html_def slot_def sample_templ_def Let_def)
  have "same_shape (?shell ''</title><script>'') (?nav ''</title><script>'') (?shell ''Nest'') (?nav ''Nest'')"
    by (simp add: same_shape_def)
  from shell_text_is_no_markup [OF sample_templ_escapes this whole whole] show ?thesis unfolding Let_def .
qed

section \<open>A page is sent whole or not at all\<close>

lemma in_order_whole: "snd (in_order parts) \<Longrightarrow> fst (in_order parts) = concat (map fst parts) \<and> (\<forall>p \<in> set parts. snd p)"
  by (induction parts) (auto simp: and_then_def split: if_splits)

lemma layout_whole:
  assumes "snd (Layout lib props nav content ctx)"
  shows "\<not> tp_err lib ctx \<and>
    (let c = tp_clear_children lib (tp_initialize lib ctx)
     in snd (sidebar lib props nav c) \<and> snd (content c) \<and>
        fst (Layout lib props nav content ctx) =
          concat (map fst (layout_head lib props c)) @ bytes_of layout_html_13 @ fst (sidebar lib props nav c) @
          bytes_of layout_html_14 @ fst (content c) @ bytes_of layout_html_15)"
  using assms in_order_whole
  by (fastforce simp: Layout_def generated_template_def layout_body_def html_def Let_def simp del: in_order_simps
      split: if_splits)

lemma spliced: "\<exists>pre mid post. a @ h @ x @ m @ y @ z = pre @ x @ mid @ y @ post"
  by (intro exI [of _ "a @ h"] exI [of _ m] exI [of _ z]) simp

text \<open>Rendering content in the shell: a part that fails, or a context that is over, leaves the response
  unsent; otherwise the client has the sidebar and then the content, both complete.\<close>

theorem shell_page_whole:
  assumes "fresh s" and "\<not> IsHTMX r" and "Page ctx Raw r (Layout lib props nav) content s = (s', e)"
  defines "c \<equiv> tp_clear_children lib (tp_initialize lib ctx)"
  shows "(tp_err lib ctx \<or> \<not> snd (sidebar lib props nav c) \<or> \<not> snd (content c) \<longrightarrow> e = Component_failed) \<and>
    (e = Component_failed \<longrightarrow> s' = set_header ''Vary'' ''HX-Request'' s) \<and>
    (e \<noteq> Component_failed \<longrightarrow> (\<exists>pre mid post. rw_body (h_raw s') =
       pre @ fst (sidebar lib props nav c) @ mid @ fst (content c) @ post))"
proof (cases "snd (Layout lib props nav content ctx)")
  case True
  from layout_whole [OF True] page_all_or_nothing [OF assms(1,3)] assms(2) show ?thesis
    unfolding c_def by (auto simp: Let_def spliced)
next
  case False
  with assms(2,3) have "e = Component_failed"
    by (auto simp: Page_def Render_def Let_def split: prod.splits bool.splits)
  with page_all_or_nothing [OF assms(1,3)] show ?thesis by simp
qed

end
