(* ===== verification/Cryptotest.thy ===== *)
theory Cryptotest
  imports Password_Hash
begin

text \<open>
  The cheap hasher for tests, \<open>crypto/cryptotest\<close>. A hasher is its cost parameters.
\<close>

definition cheapTime :: "32 word" where "cheapTime = 1"
definition cheapMemory :: "32 word" where "cheapMemory = 64"
definition cheapThreads :: "8 word" where "cheapThreads = 1"

definition Hasher :: params where
  "Hasher = \<lparr>p_time = cheapTime, p_memory = cheapMemory, p_threads = cheapThreads\<rparr>"

text \<open>A cheap hash is refused only for want of randomness, its cost is never raised by the derivation
  (which takes at least 8 KiB per thread), and it verifies through the ordinary path, told from a
  production hash by the cost recorded in it.\<close>

theorem cheap_hash_verifies:
  assumes "argon2_ok idkey"
  shows "Hash idkey Hasher pw entropy = Inl e \<Longrightarrow> length entropy < argonSaltLen"
    and "8 * unat (p_threads Hasher) \<le> unat (p_memory Hasher)"
    and "Hash idkey Hasher pw entropy = Inr (encoded, rest) \<Longrightarrow> Verify idkey pw encoded = Inr True"
    and "Hash idkey Hasher pw entropy = Inr (encoded, rest) \<Longrightarrow>
      Hash idkey DefaultParams pw' entropy' = Inr (encoded', rest') \<Longrightarrow> encoded \<noteq> encoded'"
proof -
  have run: "idkey pw salt Hasher \<noteq> None" for salt
    using assms by (simp add: argon2_ok_def Hasher_def cheapTime_def cheapThreads_def)
  show "Hash idkey Hasher pw entropy = Inl e \<Longrightarrow> length entropy < argonSaltLen"
    using run [of "take argonSaltLen entropy"] by (auto simp: Hash_def rand_read_def split: option.splits if_splits)
  show "8 * unat (p_threads Hasher) \<le> unat (p_memory Hasher)"
    by (simp add: Hasher_def cheapThreads_def cheapMemory_def)
  show "Verify idkey pw encoded = Inr True" if "Hash idkey Hasher pw entropy = Inr (encoded, rest)"
    using verify_hash [OF assms that, of pw] by simp
  show "encoded \<noteq> encoded'" if "Hash idkey Hasher pw entropy = Inr (encoded, rest)"
      and "Hash idkey DefaultParams pw' entropy' = Inr (encoded', rest')"
  proof
    assume same: "encoded = encoded'"
    from verify_hash [OF assms that(1)] have "\<exists>salt key. parsePHC encoded = Inr (salt, key, Hasher)" by blast
    moreover from verify_hash [OF assms that(2)] have "\<exists>salt key. parsePHC encoded' = Inr (salt, key, DefaultParams)" by blast
    ultimately have "Hasher = DefaultParams" by (auto simp: same)
    then show False by (simp add: Hasher_def DefaultParams_def cheapMemory_def defaultArgonMemory_def)
  qed
qed

end
