(* ===== verification/S3_Photos.thy ===== *)
theory S3_Photos
  imports Photo_Service S3_Store
begin

text \<open>
  The S3 store keeps the contract the photo service relies on, so what the service promises over the
  local disk it promises over an object store too.
\<close>

text \<open>The remote world is calm as long as every read of an object that is there delivers it whole.\<close>

definition calm_ok :: "'r s3_client \<Rightarrow> string \<Rightarrow> ('r \<Rightarrow> string \<Rightarrow> bytes option) \<Rightarrow> ('r \<Rightarrow> bool) \<Rightarrow> bool" where
  "calm_ok cl bucket objs rcalm \<longleftrightarrow>
     (\<forall>key obj rw rw' q. cl_put cl bucket key obj rw = (rw', q) \<longrightarrow> rcalm rw \<longrightarrow> rcalm rw') \<and>
     (\<forall>key rw rw' q. cl_get cl bucket key rw = (rw', q) \<longrightarrow> rcalm rw \<longrightarrow> rcalm rw') \<and>
     (\<forall>key rw rw' q b. cl_get cl bucket key rw = (rw', q) \<longrightarrow> rcalm rw \<longrightarrow> objs rw key = Some b \<longrightarrow>
        (\<exists>body. q = Inr body \<and> \<not> up_fails body))"

definition s3_inv :: "'r s3_store \<Rightarrow> ('r \<Rightarrow> string \<Rightarrow> bytes option) \<Rightarrow> ('r \<Rightarrow> bool) \<Rightarrow> disk \<times> 'r \<Rightarrow> bool" where
  "s3_inv S objs rcalm w \<longleftrightarrow>
     s3_ok (ss_client S) (ss_bucket S) objs \<and> calm_ok (ss_client S) (ss_bucket S) objs rcalm \<and> s3_store_ok S \<and>
     (\<exists>r. locate (fst w) (ss_temp_dir S) = Some r) \<and> (\<forall>b. length (il_sha256 (ss_images S) b) = 32)"

text \<open>An object larger than the store's limit is not one the store can open.\<close>

definition s3_held :: "'r s3_store \<Rightarrow> ('r \<Rightarrow> string \<Rightarrow> bytes option) \<Rightarrow> disk \<times> 'r \<Rightarrow> storage_ref \<Rightarrow> bytes option" where
  "s3_held S objs w ref =
     (case objs (snd w) ref of None \<Rightarrow> None | Some b \<Rightarrow> if int (length b) \<le> ss_max_bytes S then Some b else None)"

definition s3_digest :: "'r s3_store \<Rightarrow> bytes \<Rightarrow> string" where
  "s3_digest S b = hex_encode (il_sha256 (ss_images S) b)"

lemma calm_laws:
  assumes "calm_ok cl bucket objs rcalm" and "cl_get cl bucket key rw = (rw', q)"
  shows "rcalm rw \<longrightarrow> rcalm rw'" and "rcalm rw \<Longrightarrow> objs rw key = Some b \<Longrightarrow> \<exists>body. q = Inr body \<and> \<not> up_fails body"
  using assms unfolding calm_ok_def by (blast, blast)

lemma send_frame:
  assumes "S3_send S h c staged (d, rw) = ((d', rw'), res)"
  shows "cwd d' = cwd d \<and> (rw' = rw \<or> (\<exists>key obj q. cl_put (ss_client S) (ss_bucket S) key obj rw = (rw', q)))"
proof -
  obtain d1 x where o: "os_at os_lookup (su_path staged) d = (d1, x)" by fastforce
  have "cwd d1 = cwd d" using os_at_frame [OF o] by simp
  then show ?thesis using assms o by (auto simp: S3_send_def split: sum.splits node.splits prod.splits)
qed

lemma s3_put_frame:
  assumes "S3_Put S h c up (d, rw) = ((d', rw'), res)" and "s3_store_ok S" and "locate d (ss_temp_dir S) = Some r"
  shows "cwd d' = cwd d \<and> (rw' = rw \<or> (\<exists>key obj q. cl_put (ss_client S) (ss_bucket S) key obj rw = (rw', q)))"
proof -
  obtain d1 q1 where v: "validateAndStage (ss_images S) (ss_temp_dir S) (ss_max_bytes S) up d = (d1, q1)" by fastforce
  have c1: "cwd d1 = cwd d" using validate_effect [OF v assms(3)] assms(2) by (simp add: s3_store_ok_def)
  show ?thesis
  proof (cases q1)
    case (Inl e)
    then show ?thesis using assms(1) v c1 by (simp add: S3_Put_def)
  next
    case (Inr s)
    obtain d2 rw2 q2 where p: "S3_send S h c s (d1, rw) = ((d2, rw2), q2)" by (metis prod.exhaust)
    obtain d3 x where rm: "os_at os_remove (su_path s) d2 = (d3, x)" by fastforce
    have "cwd (removeStaged (su_path s) d2) = cwd d2"
      using os_at_frame [OF rm] rm by (simp add: removeStaged_def)
    then show ?thesis using send_frame [OF p] assms(1) v Inr p c1 by (simp add: S3_Put_def)
  qed
qed

lemma s3_put_keeps:
  assumes "s3_inv S objs rcalm w" and "S3_Put S h c up w = (w', res)"
  shows "s3_inv S objs rcalm w' \<and> (rcalm (snd w) \<longrightarrow> rcalm (snd w'))"
proof -
  obtain d rw d' rw' where w: "w = (d, rw)" "w' = (d', rw')" by (metis prod.exhaust)
  obtain r where r: "locate d (ss_temp_dir S) = Some r" using assms(1) w by (auto simp: s3_inv_def)
  have "s3_store_ok S" using assms(1) by (simp add: s3_inv_def)
  note fr = s3_put_frame [OF assms(2) [unfolded w] this r]
  then have "locate d' (ss_temp_dir S) = Some r" using r locate_cong by metis
  moreover have "rcalm rw \<longrightarrow> rcalm rw'" using fr assms(1) unfolding s3_inv_def calm_ok_def by blast
  ultimately show ?thesis using assms(1) by (simp add: s3_inv_def w)
qed

lemma s3_put_holds:
  assumes "s3_inv S objs rcalm w" and "S3_Put S h c up w = (w', Inr a)"
  shows "s3_held S objs w' (pu_ref a) = Some (up_bytes up) \<and> pu_hash a = s3_digest S (up_bytes up) \<and>
    ValidContentHash (pu_hash a) \<and> contentTypeForRef (pu_ref a) = pu_type a"
proof -
  obtain d rw d' rw' where w: "w = (d, rw)" "w' = (d', rw')" by (metis prod.exhaust)
  obtain r where r: "locate d (ss_temp_dir S) = Some r" using assms(1) w by (auto simp: s3_inv_def)
  have ok: "s3_store_ok S" "s3_ok (ss_client S) (ss_bucket S) objs" "length (il_sha256 (ss_images S) (up_bytes up)) = 32"
    using assms(1) by (simp_all add: s3_inv_def)
  obtain ext u where e: "map_of acceptedTypes (pu_type a) = Some ext"
      "acceptable (ss_images S) (ss_max_bytes S) (pu_type a) (up_bytes up)"
      "pu_hash a = hex_encode (il_sha256 (ss_images S) (up_bytes up))"
      "buildStorageKey (ss_classes S) h c (pu_hash a) ext = Inr (pu_ref a)"
      "cl_put (ss_client S) (ss_bucket S) (pu_ref a) (put_object_input S (pu_type a) (up_bytes up)) rw = (rw', Inr u)"
    using s3_put_effect [OF assms(2) [unfolded w] ok(1) r] by blast
  have "objs rw' (pu_ref a) = Some (up_bytes up)" using s3_put_law [OF ok(2) e(5)] by (simp add: put_object_input_def)
  then have "s3_held S objs w' (pu_ref a) = Some (up_bytes up)" using e(2) by (simp add: s3_held_def w acceptable_def)
  moreover have "contentTypeForRef (pu_ref a) = pu_type a"
    using ref_type [OF _ e(4,1)] ok(1) by (simp add: s3_store_ok_def)
  ultimately show ?thesis using e(3) hash_of_digest [OF ok(3)] by (simp add: s3_digest_def)
qed

lemma s3_open_effect:
  assumes "s3_inv S objs rcalm w" and "on_remote (S3_Open S ref) w = (w', q)"
  shows "s3_inv S objs rcalm w' \<and> s3_held S objs w' = s3_held S objs w \<and> (rcalm (snd w) \<longrightarrow> rcalm (snd w')) \<and>
    (\<forall>b. s3_held S objs w ref = Some b \<longrightarrow> q = Inr (Reader b) \<or> \<not> rcalm (snd w) \<and> q = Inl Media_other)"
proof -
  obtain d rw where w: "w = (d, rw)" by fastforce
  obtain rw' x where g: "cl_get (ss_client S) (ss_bucket S) ref rw = (rw', x)" by fastforce
  have w': "w' = (d, rw')" using assms(2) g w by (auto simp: on_remote_def S3_Open_def Let_def split: sum.splits if_splits)
  have ok: "s3_store_ok S" "s3_ok (ss_client S) (ss_bucket S) objs" "calm_ok (ss_client S) (ss_bucket S) objs rcalm"
    using assms(1) by (simp_all add: s3_inv_def)
  note law = s3_get_laws [OF ok(2) g]
  have held: "q = Inr (Reader b) \<or> \<not> rcalm rw \<and> q = Inl Media_other" if h: "s3_held S objs w ref = Some b" for b
  proof -
    have b: "objs rw ref = Some b" "int (length b) \<le> ss_max_bytes S"
      using h by (auto simp: s3_held_def w split: option.splits if_splits)
    have m: "0 < ss_max_bytes S" "ss_max_bytes S < 2 ^ 63 - 1" using ok(1) by (simp_all add: s3_store_ok_def)
    have limit: "length b < upload_limit (ss_max_bytes S)"
      using upload_limit [of "ss_max_bytes S"] m b(2) by auto
    show ?thesis
    proof (cases x)
      case (Inl e)
      have "e \<noteq> S3_missing" using law(2) b(1) Inl by auto
      moreover have "\<not> rcalm rw" using calm_laws(2) [OF ok(3) g _ b(1)] Inl by auto
      ultimately show ?thesis using assms(2) g w Inl by (auto simp: on_remote_def S3_Open_def)
    next
      case (Inr body)
      then have p: "prefix (up_bytes body) b" "\<not> up_fails body \<longrightarrow> up_bytes body = b" using law(3) [of body] b(1) by auto
      have "rcalm rw \<longrightarrow> \<not> up_fails body" using calm_laws(2) [OF ok(3) g _ b(1)] Inr by auto
      moreover have "length (up_bytes body) < upload_limit (ss_max_bytes S)" using prefix_length_le [OF p(1)] limit by simp
      ultimately show ?thesis
        using assms(2) g w Inr p(2) b(2) by (auto simp: on_remote_def S3_Open_def Let_def split: if_splits)
    qed
  qed
  have "rcalm rw \<longrightarrow> rcalm rw'" by (rule calm_laws(1) [OF ok(3) g])
  then show ?thesis using held assms(1) law(1) by (auto simp: s3_inv_def s3_held_def w w')
qed

interpretation s3_contract: store_contract "s3_photo_store S" "s3_inv S objs rcalm" "\<lambda>w. rcalm (snd w)" "s3_held S objs" "s3_digest S"
  for S objs rcalm
proof
  fix w h c up w' r
  assume "s3_inv S objs rcalm w" "st_put (s3_photo_store S) h c up w = (w', r)"
  then show "s3_inv S objs rcalm w' \<and> (rcalm (snd w) \<longrightarrow> rcalm (snd w'))"
    unfolding s3_photo_store_def photo_store.simps by (rule s3_put_keeps)
next
  fix w h c up w' a
  assume "s3_inv S objs rcalm w" "st_put (s3_photo_store S) h c up w = (w', Inr a)"
  then show "s3_held S objs w' (pu_ref a) = Some (up_bytes up) \<and> pu_hash a = s3_digest S (up_bytes up) \<and>
      ValidContentHash (pu_hash a) \<and> contentTypeForRef (pu_ref a) = pu_type a"
    unfolding s3_photo_store_def photo_store.simps by (rule s3_put_holds)
next
  fix w ref w' q b
  assume w: "s3_inv S objs rcalm w" "st_open (s3_photo_store S) ref w = (w', q)"
  then show "s3_inv S objs rcalm w' \<and> s3_held S objs w' = s3_held S objs w \<and> (rcalm (snd w) \<longrightarrow> rcalm (snd w'))"
    using s3_open_effect [of S objs rcalm w ref w' q] by (simp add: s3_photo_store_def)
  assume "s3_held S objs w ref = Some b"
  then show "q = Inr (Reader b) \<or> \<not> rcalm (snd w) \<and> q = Inl Media_other"
    using w s3_open_effect [of S objs rcalm w ref w' q] by (simp add: s3_photo_store_def)
qed

text \<open>On an object store, right after an upload that made a new photo, opening it for its household
  yields the uploaded bytes and their type, unless the object store or the database fails; and a second
  upload of the same bytes is answered with the first photo.\<close>

theorem s3_uploads_open_and_deduplicate:
  assumes "Upload S h m up w = (w1, Inr res)" and "writes_to S (s3_photo_store L)" and "s3_inv L objs rcalm (mw_store w)"
    and "photos_wf (db (mw_conn w))"
  shows "\<not> ur_duplicate res \<Longrightarrow> OpenBytes S h (ph_id (ur_photo res)) w1 = (w2, r) \<Longrightarrow>
      r = Inr (Reader (up_bytes up), ph_type (ur_photo res)) \<or> r = Inl Media_other \<and> \<not> quiet (\<lambda>w. rcalm (snd w)) w1"
    and "up_bytes up' = up_bytes up \<Longrightarrow> Upload S h m' up' w1 = (w3, Inr res') \<Longrightarrow>
      ur_duplicate res' \<and> ur_photo res' = ur_photo res \<and> db (mw_conn w3) = db (mw_conn w1)"
  using s3_contract.upload_then_open [OF assms(1) _ assms(2,3,4)] s3_contract.upload_again [OF assms] by blast+

lemma sample_s3_inv: "s3_inv sample_s3 (\<lambda>w. w) (\<lambda>_. True) (sample_disk, w)"
  using sample_s3_ok sample_ok
  by (auto simp: s3_inv_def calm_ok_def sample_s3_def sample_client_def local_inv_def sample_store_def)

end
