(* ===== verification/Spec2Isabelle.thy ===== *)
theory Spec2Isabelle
  imports Rate_Limiter Jpeg_Scrub Owner_Guard Mfa_Race Authenticator Passkey_Service Reaper Media_Bootstrap
    Http_Server Cache Bootstrap
    Db_Pool Dbtest Identity_Migrate Metrics Session_Manager Render Static_Assets Qr_Code Photo_Paging Ui_Components
    Cryptotest S3_Photos
begin

text \<open>
  A verification library for nestcore, the infrastructure module two household applications share.
  The Go code is translated definition by definition; this theory imports all parts. Every path below
  is under \<open>src/\<close>.

  \<^bold>\<open>The program and its parts.\<close> An application composes packages that know each other through small
  interfaces. \<open>config\<close> reads the environment; \<open>bootstrap\<close> fills it from a state file on first boot.
  \<open>db\<close> opens the pool and \<open>db/migrate\<close> brings the schema up to date; \<open>identity/migrate\<close> refuses to start
  on an older schema. \<open>identity\<close> has a domain, repositories over PostgreSQL (\<open>adapter\<close>) and services over
  the repositories (\<open>app\<close>): password login, MFA by TOTP and recovery codes, passkeys. \<open>media\<close> has the same
  three layers for photos, with a local and an S3 store behind one port, a resolver that picks the store,
  and a reaper that deletes what no row refers to. \<open>crypto\<close>, \<open>totp\<close>, \<open>ratelimit\<close> and \<open>cache\<close> serve the
  services; \<open>httpserver\<close>, \<open>render\<close>, \<open>ui\<close>, \<open>qrcode\<close> and \<open>metrics\<close> face the browser and the operator.

  \<^bold>\<open>How it is modelled.\<close> A method that changes state takes the state last and returns it first, with an
  \<open>error + value\<close>; a struct is a record, an interface a record of operations, an enumeration a datatype or
  the code's own strings. Strings are lists of bytes (characters below 256), as in Go; integers whose
  width matters are words, others \<open>int\<close> or \<open>nat\<close>. Mutex-protected methods are single steps.

  Failures from outside are scripts in the state, so that a theorem over all states is a theorem over all
  failures. A round trip to PostgreSQL (\<open>Postgres\<close>) fails before or after the server has done the work
  (\<open>faults\<close>); a failed transaction puts back what it found, unless its commit went through. A call of the
  file system (\<open>Go_Os\<close>) fails when \<open>os_faults\<close> says so. Randomness is a list of bytes that can run dry.
  Database handles and pools are entries of a table (\<open>Go_Handles\<close>), which only opening and closing change.

  Third-party code is an argument of the definitions that call it, with what the code relies on as named
  hypotheses: \<open>argon2_ok\<close> (key length, panics of argon2), the AEAD and the TOTP code, the WebAuthn library,
  the image decoders and SHA-256, the AWS client, the badger database, goose and pgx (records \<open>pool_lib\<close>,
  \<open>test_lib\<close> and the runner's library), the Prometheus client, scs, templ (\<open>templ_lib\<close>, \<open>escapes\<close>), QR
  encoding and JSON. Each witness instantiates them by concrete functions.

  \<^bold>\<open>Go and its library\<close>, as far as the code uses them.
  \<^item> \<open>Prelude\<close>: time, bytes, the theorem collections, association lists. \<open>Go_Strings\<close>: UTF-8 decoding and
    encoding, letter case, \<open>TrimSpace\<close>, \<open>Split\<close>. \<open>Go_Fmt\<close>: \<open>%d\<close>, \<open>Sscanf\<close>, base64. \<open>Go_Duration\<close>: \<open>ParseInt\<close>,
    \<open>ParseBool\<close>, \<open>ParseDuration\<close>. \<open>Go_Uuid\<close>, \<open>Go_Netip\<close>, \<open>Go_Path\<close>, \<open>Go_Os\<close>, \<open>Go_Fs\<close>.
  \<^item> \<open>Go_Url\<close>: \<open>net/url\<close>, with \<open>query_roundtrip\<close> and \<open>url_roundtrip\<close>; the check of a host name is an argument.
    \<open>Conninfo\<close>: a reference reader of keyword/value connection strings, against which the code that edits
    such strings is judged.
  \<^item> \<open>Http\<close>: writers, handlers and panics of \<open>net/http\<close>, and the code's own \<open>responseWriter\<close> around a writer.

  \<^bold>\<open>Identity.\<close>
  \<^item> \<open>Identity_Domain\<close> (\<open>identity/domain\<close>), \<open>Recovery_Codes\<close> (\<open>recovery_code_gen.go\<close>: round trip of
    generation and normalisation), \<open>Identity_Db\<close> (the tables and constraints of \<open>identity/migrate/migrations\<close>).
  \<^item> \<open>Member_Store\<close> (\<open>household_postgres.go\<close>, \<open>member_postgres.go\<close>, \<open>credential_postgres.go\<close>): the table
    invariant and the last active owner over any calls and faults, exact outcomes of the profile update, a
    credential found again in any letter case. \<open>Owner_Guard\<close>: concurrent guarded updates as a step relation
    with the advisory lock, each statement seeing what had been committed when it began; no reachable state
    has lost its last owner.
  \<^item> \<open>Mfa_Store\<close> (\<open>mfa_postgres.go\<close>), \<open>Mfa_Service\<close> (\<open>identity/app/mfa.go\<close>): confirmation is all or nothing, calls
    touch their own member only, no TOTP step or recovery code logs in twice, every code shown logs in once.
    The service's lemmas stand in the locale \<open>mfa_repository_contract\<close>, interpreted on the repository.
    \<open>Mfa_Race\<close>: the repository's transactions statement by statement under row locks; every interleaving is
    the committed calls one after another, and a confirmation has one winner. Without the row lock on the
    lookup this fails.
  \<^item> \<open>Passkey_Store\<close> (\<open>webauthn_postgres.go\<close>), \<open>Passkey_Service\<close> (\<open>webauthn.go\<close>, \<open>webauthn_user_handle.go\<close>):
    bookkeeping is monotone and independent of the order of assertions; a login names the owner; a registered
    passkey logs in. Locale \<open>passkey_contract\<close>.
  \<^item> \<open>Authenticator\<close> (\<open>authenticator.go\<close>), \<open>Password_Hash\<close> (\<open>crypto/argon2.go\<close>), \<open>Cryptotest\<close>
    (\<open>crypto/cryptotest\<close>), \<open>Aes_Gcm\<close> (\<open>crypto/aesgcm.go\<close>), \<open>Totp\<close> (\<open>totp/totp.go\<close>): correctness and uniform
    work of the password login over the locale \<open>credential_store\<close>; round trips of hashes and ciphertexts;
    the verdict of \<open>Verify\<close> on any string at all.

  \<^bold>\<open>Media.\<close>
  \<^item> \<open>Photo_Domain\<close> (\<open>media/domain\<close>), \<open>Photo_Validation\<close> (\<open>photo_validation.go\<close>), \<open>Jpeg_Scrub\<close> (\<open>exif.go\<close>,
    \<open>exif_scrub.go\<close>): what stripping removes, exactly, against a grammar of JPEG headers; baking an
    orientation moves every pixel where EXIF says; no accepted photo keeps EXIF in its header.
  \<^item> \<open>Local_Store\<close> (\<open>photo_store.go\<close>), \<open>S3_Store\<close> (\<open>photo_store_s3.go\<close>): what a put stores is what an open
    reads; references cannot leave the root; a refused upload leaves no trace; listings are per class.
  \<^item> \<open>Photo_Repository\<close> (\<open>photo_postgres.go\<close>, \<open>constraints.go\<close>): table invariant of every method.
    \<open>Photo_Paging\<close>: the pass over a backend that \<open>ListByBackend\<close> and \<open>MigrateStorageBackend\<close> are made for
    visits each photo once; its loop has fuel, and any fuel above the number of rows is enough.
  \<^item> \<open>Photo_Service\<close> (\<open>photo_service.go\<close>, \<open>adapter/store_resolver.go\<close>): an uploaded photo opens to its bytes and
    stays within its household; locale \<open>store_contract\<close>, interpreted on the local store.
    \<open>Media_Bootstrap\<close> (\<open>media/bootstrap\<close>) builds the resolver. \<open>Reaper\<close> (\<open>reaper_service.go\<close>): it never
    takes an object a row refers to, and deletes what its dry run reports.

  \<^bold>\<open>Platform.\<close>
  \<^item> \<open>Config\<close> (\<open>config\<close>): loaders and validators; production never runs on the published secrets. \<open>Bootstrap\<close>
    (\<open>bootstrap\<close>): what a first boot saves configures a production start; the operator's environment wins.
  \<^item> \<open>Db_Pool\<close> (\<open>db/db.go\<close>), \<open>Migrate\<close> (\<open>db/migrate\<close>), \<open>Identity_Migrate\<close> (\<open>identity/migrate\<close>), \<open>Dbtest\<close>
    (\<open>db/dbtest\<close>): no operation leaks a handle (locale \<open>acquisition\<close>, interpreted on the pool, the SQL
    connection and the migration provider), a CA bundle is in force after it is injected, the boot guard
    decides by the highest applied version, a test database differs from the configured one in its name alone.
  \<^item> \<open>Rate_Limiter\<close> (\<open>ratelimit\<close>): the limiter with its epochs, recency lists and sweeps refines plain counters,
    and a lockout stands against any traffic. \<open>Cache\<close> (\<open>cache\<close>): both caches against the history of calls,
    locale \<open>cache_port\<close>. A garbage collection that never stops reclaiming is a \<open>None\<close> of a partial function;
    \<open>garbage_collection_ends\<close> shows when it returns.
  \<^item> \<open>Middleware\<close> (\<open>httpserver/middleware\<close>), \<open>Http_Server\<close> (\<open>server.go\<close>): the client address cannot be forged,
    the wrapper is transparent for final statuses, one truthful log line and count per request, panics
    answer 500. \<open>Metrics\<close> (\<open>metrics\<close>), \<open>Session_Manager\<close> (\<open>identity/session\<close>).
  \<^item> \<open>Render\<close> (\<open>render\<close>), \<open>Ui_Components\<close> (\<open>ui/components\<close>, the generated code with every fragment),
    \<open>Static_Assets\<close> (\<open>ui/static\<close>), \<open>Qr_Code\<close> (\<open>qrcode\<close>): a page is sent whole or not at all, text cannot become
    markup, only assets that exist are cached.

  \<^bold>\<open>Where the code differs from its own account.\<close> Theorems state these as the code behaves:
  \<open>verify_any_string\<close> (a stored hash with no passes or threads panics), \<open>informational_status_hides_final\<close> and
  \<open>invalid_status_answers_200\<close> (the response wrapper and 1xx or invalid codes), \<open>malformed_entry_drops_all\<close> (one
  bad trusted proxy drops all), \<open>hostless_url_mangled\<close> and \<open>empty_value_swallows_root_cert\<close> (connection strings
  on which the injected bundle has no effect), \<open>quoted_name_reaches_other_database\<close>,
  \<open>spaced_equals_not_rewritten\<close>, \<open>url_dbname_not_rewritten\<close> (connection strings that get past the test
  harness's rail), \<open>unchecked_secret_confirmed\<close> (an enrollment confirmed with a secret the code was not for), \<open>require_version_creates_schema\<close> (the read-only check creates the schema).

  \<^bold>\<open>Bounds.\<close> Loops are structural or have a termination proof (a measure: remaining bytes, remaining entries);
  the two exceptions are the partial function of \<open>Cache\<close> and the fuel of \<open>Photo_Paging\<close> named above. Words: 8 bits
  for bytes, 32 for argon2 parameters and sign counts as read from PHC strings and authenticators, 128 for
  UUIDs. Counters Go keeps in an \<open>int\<close> are unbounded here where 2^63 calls would be needed to tell.

  \<^bold>\<open>Not modelled.\<close> Concurrent transactions beyond \<open>Owner_Guard\<close> and \<open>Mfa_Race\<close>, the two places where the code
  takes locks: the other repository methods are one statement each, taken as atomic. Timing: constant-time comparison is
  modelled by its result, deadlines of contexts only where the code reads them. Texts of error messages
  and of most log lines: an error is its identity. Symbolic links and file modes. The matching of request
  paths by \<open>http.ServeMux\<close>, the session protocol of scs, the SQL of the migrations beyond the tables it
  leaves. \<open>doc.go\<close> files, style sheets, scripts and tests, which have no Go code to translate.
\<close>

end
